(* ===== verification/Vpn_Prelude.thy ===== *)
theory Vpn_Prelude
  imports Main "HOL-Library.Word" "HOL-Library.Monad_Syntax"
begin

unbundle bit_operations_syntax

text \<open>
  Vocabulary shared by the component theories: the machine types of the C code, the integer
  helpers of \<^verbatim>\<open>src/openvpn/integer.h\<close>, network byte order, and generic lemmas on lists.

  Conventions used by every theory.
  \<^item> A C \<^verbatim>\<open>int\<close> or \<^verbatim>\<open>time_t\<close> is an \<open>int\<close>; an \<^verbatim>\<open>uint32_t\<close> is a \<open>32 word\<close>, a byte an \<open>8 word\<close>.
  \<^item> A failed \<^verbatim>\<open>ASSERT\<close>, which ends the process, is \<open>None\<close> of an \<open>option\<close>.
  \<^item> The global clock \<^verbatim>\<open>now\<close> is an argument of the definitions that read it.
  \<^item> Debug output (\<^verbatim>\<open>dmsg\<close>, \<^verbatim>\<open>msg\<close> below the fatal level) has no effect on the state and is left out.
\<close>

section \<open>Machine types\<close>

type_synonym u8 = "8 word"
type_synonym u16 = "16 word"
type_synonym u32 = "32 word"
type_synonym time = int

named_theorems buf_simps \<open>behaviour of the buffer operations on well-formed buffers\<close>

section \<open>Integer helpers (integer.h)\<close>

definition min_int :: "int \<Rightarrow> int \<Rightarrow> int" where
  "min_int x y = (if x < y then x else y)"

definition max_int :: "int \<Rightarrow> int \<Rightarrow> int" where
  "max_int x y = (if x > y then x else y)"

definition constrain_int :: "int \<Rightarrow> int \<Rightarrow> int \<Rightarrow> int" where
  "constrain_int x mn mx =
     (if mn > mx then mn else if x < mn then mn else if x > mx then mx else x)"

definition modulo_subtract :: "int \<Rightarrow> int \<Rightarrow> int \<Rightarrow> int option" where
  "modulo_subtract x y m =
     (let d1 = x - y; d2 = (if x > y then - m else m) + d1
      in if 0 \<le> x \<and> x < m \<and> 0 \<le> y \<and> y < m
         then Some (if \<bar>d1\<bar> > \<bar>d2\<bar> then d2 else d1)
         else None)"

definition modulo_add :: "int \<Rightarrow> int \<Rightarrow> int \<Rightarrow> int option" where
  "modulo_add x y m =
     (if 0 \<le> x \<and> x < m \<and> - m \<le> y \<and> y \<le> m
      then let s = x + y;
               s = (if s \<ge> m then s - m else s);
               s = (if s < 0 then s + m else s)
           in Some s
      else None)"

lemma min_int_eq: "min_int x y = min x y"
  by (simp add: min_int_def)

lemma max_int_eq: "max_int x y = max x y"
  by (simp add: max_int_def)

lemma modulo_add_eq:
  assumes "0 \<le> x" "x < m" "- m \<le> y" "y \<le> m"
  shows "modulo_add x y m = Some ((x + y) mod m)"
proof -
  consider "x + y \<ge> m" | "x + y < 0" | "0 \<le> x + y" "x + y < m" by linarith
  then show ?thesis
  proof cases
    case 1
    with assms have "(x + y - m) mod m = x + y - m" by (intro mod_pos_pos_trivial) auto
    moreover have "(x + y - m) mod m = (x + y) mod m" by simp
    ultimately show ?thesis using 1 assms by (auto simp: modulo_add_def Let_def)
  next
    case 2
    with assms have "(x + y + m) mod m = x + y + m" by (intro mod_pos_pos_trivial) auto
    moreover have "(x + y + m) mod m = (x + y) mod m" by simp
    ultimately show ?thesis using 2 assms by (auto simp: modulo_add_def Let_def)
  next
    case 3
    with assms show ?thesis by (simp add: modulo_add_def Let_def)
  qed
qed

lemma modulo_subtract_bounds:
  assumes "modulo_subtract x y m = Some d"
  shows "(x - y - d) mod m = 0" "\<bar>d\<bar> \<le> m div 2 \<or> \<bar>d\<bar> < m"
  using assms by (auto simp: modulo_subtract_def Let_def split: if_splits)

section \<open>Network byte order\<close>

text \<open>
  The memory image of \<^verbatim>\<open>htonl(x)\<close> and \<^verbatim>\<open>htons(x)\<close>, most significant byte first, and the
  inverses \<^verbatim>\<open>ntohl\<close> and \<^verbatim>\<open>ntohs\<close> of four and two bytes of memory.
\<close>

definition be32 :: "u32 \<Rightarrow> u8 list" where
  "be32 w = [ucast (drop_bit 24 w), ucast (drop_bit 16 w), ucast (drop_bit 8 w), ucast w]"

definition be16 :: "u16 \<Rightarrow> u8 list" where
  "be16 w = [ucast (drop_bit 8 w), ucast w]"

fun of_be32 :: "u8 list \<Rightarrow> u32" where
  "of_be32 [a, b, c, d] =
     push_bit 24 (ucast a) OR push_bit 16 (ucast b) OR push_bit 8 (ucast c) OR ucast d"
| "of_be32 _ = 0"

fun of_be16 :: "u8 list \<Rightarrow> u16" where
  "of_be16 [a, b] = push_bit 8 (ucast a) OR ucast b"
| "of_be16 _ = 0"

lemma length_be32 [simp]: "length (be32 w) = 4"
  by (simp add: be32_def)

lemma length_be16 [simp]: "length (be16 w) = 2"
  by (simp add: be16_def)

text \<open>Bit \<open>n\<close> of a word assembled from bytes is found in the byte that holds it.\<close>

lemma byte_cases:
  assumes "n < (32::nat)"
  obtains "n < 8" | "8 \<le> n" "n < 16" | "16 \<le> n" "n < 24" | "24 \<le> n" "n < 32"
  using assms by linarith

lemma of_be32_be32 [simp]: "of_be32 (be32 w) = w"
proof (rule bit_word_eqI)
  fix n assume "n < LENGTH(32)"
  then have "n < 32" by simp
  then show "bit (of_be32 (be32 w)) n \<longleftrightarrow> bit w n"
    by (cases rule: byte_cases) (auto simp: be32_def bit_simps)
qed

lemma of_be16_be16 [simp]: "of_be16 (be16 w) = w"
  unfolding be16_def of_be16.simps
  by (rule bit_word_eqI) (auto simp: bit_simps)

lemma be32_of_be32: 
  assumes "length bs = 4"
  shows "be32 (of_be32 bs) = bs"
proof -
  from assms obtain a b c d where bs: "bs = [a, b, c, d]"
    by (auto simp: numeral_eq_Suc length_Suc_conv)
  show ?thesis
    unfolding bs be32_def of_be32.simps list.inject
    by (intro conjI refl; rule bit_word_eqI) (auto simp: bit_simps dest: bit_imp_le_length)
qed

lemma be32_inject [simp]: "be32 v = be32 w \<longleftrightarrow> v = w"
  by (metis of_be32_be32)

text \<open>Distinct offsets below the circumference name distinct places on the circle.\<close>

lemma mod_offset_inj:
  assumes "(h + i) mod m = (h + j) mod m" "0 \<le> i" "i < m" "0 \<le> j" "j < (m :: int)"
  shows "i = j"
proof -
  from assms(1) have "i mod m = j mod m"
    by (metis add_diff_cancel_left' mod_diff_cong)
  with assms show ?thesis by simp
qed

section \<open>Words\<close>

lemma unat_Suc_less:
  assumes "(i :: u32) < j"
  shows "unat (i + 1) = Suc (unat i)"
proof -
  have "unat j < 2 ^ LENGTH(32)" by (rule unsigned_less)
  moreover have "unat i < unat j" using assms by (simp add: word_less_nat_alt)
  ultimately have "Suc (unat i) < 2 ^ 32" by simp
  then show ?thesis by (simp add: unat_word_ariths)
qed

lemma unat_diff_u32: "(i :: u32) \<le> j \<Longrightarrow> unat (j - i) = unat j - unat i"
  by (rule unat_sub)

lemma u32_of_int_small:
  assumes "0 \<le> n" "n < 2 ^ 32"
  shows "unat (word_of_int n :: u32) = nat n" "uint (word_of_int n :: u32) = n"
  using assms by (auto simp: unat_eq_nat_uint take_bit_int_eq_self unsigned_of_int)

lemma u32_less_of_int:
  assumes "0 \<le> n" "n < 2 ^ 32"
  shows "(w :: u32) < word_of_int n \<longleftrightarrow> uint w < n"
  using u32_of_int_small [OF assms] by (simp add: word_less_def)

lemma u32_ge_of_int:
  assumes "0 \<le> n" "n < 2 ^ 32"
  shows "(word_of_int n :: u32) \<le> w \<longleftrightarrow> n \<le> uint w"
  using u32_of_int_small [OF assms] by (simp add: word_le_def)

lemma nat_le_unat_iff: "nat n \<le> unat (w :: u32) \<longleftrightarrow> n \<le> uint w"
  by (simp add: nat_le_iff)

lemma unat_less_nat_iff: "unat (w :: u32) < nat n \<longleftrightarrow> uint w < n"
  by (simp add: zless_nat_eq_int_zless)

text \<open>Conversion of a wider integer to a C \<^verbatim>\<open>int\<close> of 32 bits.\<close>

definition c_int :: "int \<Rightarrow> int" where
  "c_int x = sint (word_of_int x :: u32)"

lemma c_int_small [simp]: "- (2 ^ 31) \<le> x \<Longrightarrow> x < 2 ^ 31 \<Longrightarrow> c_int x = x"
  by (simp add: c_int_def signed_of_int signed_take_bit_int_eq_self)

section \<open>Lists\<close>

lemma take_append_take: "take n (xs @ take n ys) = take n (xs @ ys)"
  by (simp add: min_def)

section \<open>Powers of two (integer.h)\<close>

text \<open>
  The loop of \<^verbatim>\<open>adjust_power_of_2\<close>, on a 64-bit \<^verbatim>\<open>size_t\<close>: doubling a power of two overflows to zero
  when it reaches \<open>2 ^ 64\<close>, and the assertion fails.
\<close>

function adjust_loop :: "nat \<Rightarrow> nat \<Rightarrow> nat option" where
  "adjust_loop u ret =
     (if ret < u
      then if ret = 0 \<or> 2 ^ 64 \<le> 2 * ret then None else adjust_loop u (2 * ret)
      else Some ret)"
  by pat_completeness auto

termination
  by (relation "measure (\<lambda>(u, ret). u - ret)") auto

declare adjust_loop.simps [simp del]

definition adjust_power_of_2 :: "nat \<Rightarrow> nat option" where
  "adjust_power_of_2 u = adjust_loop u 1"

lemma adjust_loop_Some:
  assumes "adjust_loop u ret = Some r" "ret = 2 ^ k" "k = 0 \<or> ret < 2 * u"
  shows "u \<le> r \<and> (\<exists>k. r = 2 ^ k) \<and> (r = 1 \<or> r < 2 * u)"
  using assms
proof (induction u ret arbitrary: k rule: adjust_loop.induct)
  case (1 u ret)
  show ?case
  proof (cases "ret < u")
    case True
    then have "\<not> (ret = 0 \<or> 2 ^ 64 \<le> 2 * ret)" "adjust_loop u (2 * ret) = Some r"
      using 1(2) by (subst (asm) adjust_loop.simps, simp split: if_splits)+
    then show ?thesis using 1(1) [OF True, of "Suc k"] True 1(3) by simp
  next
    case False
    then show ?thesis using 1(2-4) by (subst (asm) adjust_loop.simps) (auto simp: le_less)
  qed
qed

lemma adjust_power_of_2_Some:
  assumes "adjust_power_of_2 u = Some r"
  shows "u \<le> r" "\<exists>k. r = 2 ^ k" "r = 1 \<or> r < 2 * u"
  using adjust_loop_Some [of u 1 r 0] assms by (auto simp: adjust_power_of_2_def)

text \<open>Masking with a power of two less one is the remainder, so it is an index of the array.\<close>

lemma mask_index:
  assumes "n = 2 ^ k" "k \<le> 31"
  shows "unat (hv AND word_of_nat (n - 1) :: u32) = unat hv mod n"
proof -
  have "word_of_nat (n - 1) = (mask k :: u32)"
    using assms by (simp add: mask_eq_exp_minus_1 of_nat_diff)
  then have "unat (hv AND word_of_nat (n - 1) :: u32) = unat (take_bit k hv)"
    by (simp add: take_bit_eq_mask)
  also have "\<dots> = take_bit k (unat hv)" by (rule unsigned_take_bit_eq)
  finally show ?thesis unfolding take_bit_eq_mod by (simp add: assms(1))
qed

end
