(* ===== verification/Buffer.thy ===== *)
theory Buffer
  imports Vpn_Prelude
begin

text \<open>
  \<^verbatim>\<open>struct buffer\<close> (\<^verbatim>\<open>buffer.h\<close>, \<^verbatim>\<open>buffer.c\<close>): a block of allocated memory with a window
  \<open>[offset, offset + len)\<close> of content, a prepend capacity before it and an append capacity after it.
  The memory is the list \<open>b_data\<close>, \<open>None\<close> for a null pointer.

  A C function that returns \<^verbatim>\<open>true\<close> or a non-null pointer after changing the buffer, and leaves it
  alone otherwise, returns \<open>Some\<close> of the new buffer or \<open>None\<close>.
\<close>

section \<open>State\<close>

record buffer =
  b_capacity :: int
  b_offset :: int
  b_len :: int
  b_data :: "u8 list option"

definition BUF_SIZE_MAX :: int where
  "BUF_SIZE_MAX = 1000000"

definition clear_buf :: buffer where
  "clear_buf = \<lparr>b_capacity = 0, b_offset = 0, b_len = 0, b_data = None\<rparr>"

definition buf_defined :: "buffer \<Rightarrow> bool" where
  "buf_defined b \<longleftrightarrow> b_data b \<noteq> None"

definition buf_valid :: "buffer \<Rightarrow> bool" where
  "buf_valid b \<longleftrightarrow> b_data b \<noteq> None \<and> b_len b \<ge> 0"

definition buf_len :: "buffer \<Rightarrow> int" where
  "buf_len b = (if buf_valid b then b_len b else 0)"

definition buf_size_valid :: "int \<Rightarrow> bool" where
  "buf_size_valid sz \<longleftrightarrow> sz < BUF_SIZE_MAX"

definition buf_size_valid_signed :: "int \<Rightarrow> bool" where
  "buf_size_valid_signed sz \<longleftrightarrow> sz \<ge> - BUF_SIZE_MAX \<and> sz < BUF_SIZE_MAX"

text \<open>The bytes behind \<^verbatim>\<open>data\<close>, and the content, the \<^verbatim>\<open>len\<close> bytes from \<^verbatim>\<open>BPTR\<close> on.\<close>

definition b_mem :: "buffer \<Rightarrow> u8 list" where
  "b_mem b = (case b_data b of None \<Rightarrow> [] | Some d \<Rightarrow> d)"

definition buf_bytes :: "buffer \<Rightarrow> u8 list" where
  "buf_bytes b = take (nat (b_len b)) (drop (nat (b_offset b)) (b_mem b))"

text \<open>\<^verbatim>\<open>memcpy(mem + pos, bs, length bs)\<close>.\<close>

definition mem_write :: "u8 list \<Rightarrow> nat \<Rightarrow> u8 list \<Rightarrow> u8 list" where
  "mem_write m pos bs = take pos m @ bs @ drop (pos + length bs) m"

definition poke :: "buffer \<Rightarrow> int \<Rightarrow> u8 list \<Rightarrow> buffer" where
  "poke b pos bs = b\<lparr>b_data := map_option (\<lambda>m. mem_write m (nat pos) bs) (b_data b)\<rparr>"

section \<open>Operations\<close>

definition alloc_buf :: "int \<Rightarrow> buffer option" where
  "alloc_buf sz =
     (if buf_size_valid sz
      then Some \<lparr>b_capacity = sz, b_offset = 0, b_len = 0, b_data = Some (replicate (nat sz) 0)\<rparr>
      else None)"

definition buf_reset_len :: "buffer \<Rightarrow> buffer" where
  "buf_reset_len b = b\<lparr>b_len := 0, b_offset := 0\<rparr>"

definition buf_init :: "buffer \<Rightarrow> int \<Rightarrow> buffer option" where
  "buf_init b off =
     (if off < 0 \<or> off > b_capacity b \<or> b_data b = None then None
      else Some (b\<lparr>b_len := 0, b_offset := off\<rparr>))"

definition buf_clear :: "buffer \<Rightarrow> buffer" where
  "buf_clear b =
     (let b = (if b_capacity b > 0
               then b\<lparr>b_data := map_option (\<lambda>m. replicate (nat (b_capacity b)) 0) (b_data b)\<rparr> else b)
      in b\<lparr>b_len := 0, b_offset := 0\<rparr>)"

definition buf_safe :: "buffer \<Rightarrow> int \<Rightarrow> bool" where
  "buf_safe b n \<longleftrightarrow> buf_valid b \<and> buf_size_valid n \<and> b_offset b + b_len b + n \<le> b_capacity b"

definition buf_safe_bidir :: "buffer \<Rightarrow> int \<Rightarrow> bool" where
  "buf_safe_bidir b n \<longleftrightarrow>
     (if buf_valid b \<and> buf_size_valid_signed n
      then (let newlen = b_len b + n in newlen \<ge> 0 \<and> b_offset b + newlen \<le> b_capacity b)
      else False)"

definition buf_forward_capacity :: "buffer \<Rightarrow> int" where
  "buf_forward_capacity b =
     (if buf_valid b
      then (let r = b_capacity b - (b_offset b + b_len b) in if r < 0 then 0 else r)
      else 0)"

definition buf_forward_capacity_total :: "buffer \<Rightarrow> int" where
  "buf_forward_capacity_total b =
     (if buf_valid b then (let r = b_capacity b - b_offset b in if r < 0 then 0 else r) else 0)"

definition buf_reverse_capacity :: "buffer \<Rightarrow> int" where
  "buf_reverse_capacity b = (if buf_valid b then b_offset b else 0)"

definition buf_inc_len :: "buffer \<Rightarrow> int \<Rightarrow> buffer option" where
  "buf_inc_len b inc = (if buf_safe_bidir b inc then Some (b\<lparr>b_len := b_len b + inc\<rparr>) else None)"

definition buf_prepend :: "buffer \<Rightarrow> int \<Rightarrow> buffer option" where
  "buf_prepend b sz =
     (if \<not> buf_valid b \<or> sz < 0 \<or> sz > b_offset b then None
      else Some (b\<lparr>b_offset := b_offset b - sz, b_len := b_len b + sz\<rparr>))"

definition buf_advance :: "buffer \<Rightarrow> int \<Rightarrow> buffer option" where
  "buf_advance b sz =
     (if \<not> buf_valid b \<or> sz < 0 \<or> b_len b < sz then None
      else Some (b\<lparr>b_offset := b_offset b + sz, b_len := b_len b - sz\<rparr>))"

text \<open>
  \<^verbatim>\<open>buf_write_alloc\<close> also returns the pointer to the allocated space, here as an index into the
  memory. \<^verbatim>\<open>buf_read_alloc\<close> moves the window before it finds out that \<^verbatim>\<open>BPTR\<close> is null.
\<close>

definition buf_write_alloc :: "buffer \<Rightarrow> int \<Rightarrow> (int \<times> buffer) option" where
  "buf_write_alloc b sz =
     (if \<not> buf_safe b sz then None
      else Some (b_offset b + b_len b, b\<lparr>b_len := b_len b + sz\<rparr>))"

definition buf_read_alloc :: "buffer \<Rightarrow> int \<Rightarrow> int option \<times> buffer" where
  "buf_read_alloc b sz =
     (if sz < 0 \<or> b_len b < sz then (None, b)
      else (if buf_valid b then Some (b_offset b) else None,
            b\<lparr>b_offset := b_offset b + sz, b_len := b_len b - sz\<rparr>))"

definition buf_write :: "buffer \<Rightarrow> u8 list \<Rightarrow> buffer option" where
  "buf_write b src =
     (case buf_write_alloc b (int (length src)) of
        None \<Rightarrow> None
      | Some (cp, b') \<Rightarrow> Some (poke b' cp src))"

definition buf_write_prepend :: "buffer \<Rightarrow> u8 list \<Rightarrow> buffer option" where
  "buf_write_prepend b src =
     (case buf_prepend b (int (length src)) of
        None \<Rightarrow> None
      | Some b' \<Rightarrow> Some (poke b' (b_offset b') src))"

definition buf_write_u8 :: "buffer \<Rightarrow> u8 \<Rightarrow> buffer option" where
  "buf_write_u8 b x = buf_write b [x]"

definition buf_write_u16 :: "buffer \<Rightarrow> u16 \<Rightarrow> buffer option" where
  "buf_write_u16 b x = buf_write b (be16 x)"

definition buf_write_u32 :: "buffer \<Rightarrow> u32 \<Rightarrow> buffer option" where
  "buf_write_u32 b x = buf_write b (be32 x)"

definition buf_read :: "buffer \<Rightarrow> int \<Rightarrow> u8 list option \<times> buffer" where
  "buf_read b sz =
     (case buf_read_alloc b sz of
        (None, b') \<Rightarrow> (None, b')
      | (Some cp, b') \<Rightarrow> (Some (take (nat sz) (drop (nat cp) (b_mem b))), b'))"

definition buf_read_u8 :: "buffer \<Rightarrow> int \<times> buffer" where
  "buf_read_u8 b =
     (if buf_len b < 1 then (- 1, b)
      else (uint (b_mem b ! nat (b_offset b)),
            case buf_advance b 1 of None \<Rightarrow> b | Some b' \<Rightarrow> b'))"

definition buf_read_u16 :: "buffer \<Rightarrow> int \<times> buffer" where
  "buf_read_u16 b =
     (case buf_read b 2 of
        (None, b') \<Rightarrow> (- 1, b')
      | (Some bs, b') \<Rightarrow> (uint (of_be16 bs), b'))"

text \<open>\<^verbatim>\<open>buf_read_u32(buf, &good)\<close>: the value, what \<^verbatim>\<open>good\<close> is set to, and the buffer.\<close>

definition buf_read_u32 :: "buffer \<Rightarrow> u32 \<times> bool \<times> buffer" where
  "buf_read_u32 b =
     (case buf_read b 4 of
        (None, b') \<Rightarrow> (0, False, b')
      | (Some bs, b') \<Rightarrow> (of_be32 bs, True, b'))"

definition buf_copy :: "buffer \<Rightarrow> buffer \<Rightarrow> buffer option" where
  "buf_copy dest src =
     buf_write dest (take (nat (buf_len src)) (drop (nat (b_offset src)) (b_mem src)))"

definition buf_assign :: "buffer \<Rightarrow> buffer \<Rightarrow> buffer option" where
  "buf_assign dest src =
     (case buf_init dest (b_offset src) of None \<Rightarrow> None | Some d \<Rightarrow> buf_copy d src)"

text \<open>\<^verbatim>\<open>buf_copy_n(dest, src, n)\<close>: whether it succeeded, then both buffers. A failed write has
  consumed the source.\<close>

definition buf_copy_n :: "buffer \<Rightarrow> buffer \<Rightarrow> int \<Rightarrow> bool \<times> buffer \<times> buffer" where
  "buf_copy_n dest src n =
     (case buf_read src n of
        (None, src') \<Rightarrow> (False, dest, src')
      | (Some bs, src') \<Rightarrow>
          (case buf_write dest bs of
             None \<Rightarrow> (False, dest, src')
           | Some dest' \<Rightarrow> (True, dest', src')))"

definition buf_copy_range :: "buffer \<Rightarrow> int \<Rightarrow> buffer \<Rightarrow> int \<Rightarrow> int \<Rightarrow> buffer option" where
  "buf_copy_range dest dest_index src src_index src_len =
     (if src_index < 0 \<or> src_len < 0 \<or> src_index + src_len > b_len src \<or> dest_index < 0
         \<or> b_offset dest + dest_index + src_len > b_capacity dest
      then None
      else let dest = poke dest (b_offset dest + dest_index)
                        (take (nat src_len) (drop (nat (b_offset src + src_index)) (b_mem src)))
           in Some (if dest_index + src_len > b_len dest
                    then dest\<lparr>b_len := dest_index + src_len\<rparr> else dest))"

text \<open>\<^verbatim>\<open>buf_copy_excess(dest, src, len)\<close>: success, then \<open>dest\<close> and \<open>src\<close>.\<close>

definition buf_copy_excess :: "buffer \<Rightarrow> buffer \<Rightarrow> int \<Rightarrow> bool \<times> buffer \<times> buffer" where
  "buf_copy_excess dest src n =
     (if n < 0 then (False, dest, src)
      else if b_len src > n then
        let src' = src\<lparr>b_len := n\<rparr> in
        (case buf_advance src n of
           None \<Rightarrow> (False, dest, src')
         | Some b \<Rightarrow> (case buf_copy dest b of
                        None \<Rightarrow> (False, dest, src')
                      | Some dest' \<Rightarrow> (True, dest', src')))
      else (True, dest, src))"

text \<open>
  \<^verbatim>\<open>buf_sub\<close> returns a buffer whose memory is part of the parent's memory. The model returns
  the parent, the index of the shared memory in it, and the sub-buffer; \<open>buf_join\<close> puts what
  was written through the sub-buffer back into the parent's memory.
\<close>

definition buf_sub :: "buffer \<Rightarrow> int \<Rightarrow> bool \<Rightarrow> buffer \<times> int \<times> buffer" where
  "buf_sub b sz prepend =
     (case (if prepend then map_option (\<lambda>b'. (b_offset b', b')) (buf_prepend b sz)
            else buf_write_alloc b sz) of
        None \<Rightarrow> (b, 0, clear_buf)
      | Some (p, b') \<Rightarrow>
          (b', p, clear_buf\<lparr>b_capacity := sz,
                            b_data := Some (take (nat sz) (drop (nat p) (b_mem b')))\<rparr>))"

definition buf_join :: "buffer \<Rightarrow> int \<Rightarrow> buffer \<Rightarrow> buffer" where
  "buf_join b p sub = poke b p (b_mem sub)"

section \<open>Well-formed buffers\<close>

definition buf_ok :: "buffer \<Rightarrow> bool" where
  "buf_ok b \<longleftrightarrow>
     (\<exists>m. b_data b = Some m \<and> int (length m) = b_capacity b) \<and>
     0 \<le> b_offset b \<and> 0 \<le> b_len b \<and> b_offset b + b_len b \<le> b_capacity b \<and>
     b_capacity b < BUF_SIZE_MAX"


text \<open>The three parts of the memory of a well-formed buffer.\<close>

lemma buf_okE:
  assumes "buf_ok b"
  obtains m where "b_data b = Some m" "int (length m) = b_capacity b"
    "0 \<le> b_offset b" "0 \<le> b_len b" "b_offset b + b_len b \<le> b_capacity b"
    "b_capacity b < BUF_SIZE_MAX"
  using assms by (auto simp: buf_ok_def)

lemma buf_ok_valid [simp]: "buf_ok b \<Longrightarrow> buf_valid b"
  by (auto simp: buf_ok_def buf_valid_def)

lemma buf_ok_bounds:
  assumes "buf_ok b"
  shows "0 \<le> b_offset b" "0 \<le> b_len b" "b_offset b + b_len b \<le> b_capacity b" "b_len b \<le> b_capacity b"
    "0 \<le> b_capacity b" "b_capacity b < BUF_SIZE_MAX"
  using assms by (auto simp: buf_ok_def)

lemma length_buf_bytes: "buf_ok b \<Longrightarrow> int (length (buf_bytes b)) = b_len b"
  by (elim buf_okE) (auto simp: buf_bytes_def b_mem_def)

lemma length_buf_bytes_nat: "buf_ok b \<Longrightarrow> length (buf_bytes b) = nat (b_len b)"
  using length_buf_bytes [of b] by linarith

lemma buf_len_ok [simp]: "buf_ok b \<Longrightarrow> buf_len b = b_len b"
  by (simp add: buf_len_def)

lemma length_mem_write [simp]:
  "pos + length bs \<le> length m \<Longrightarrow> length (mem_write m pos bs) = length m"
  by (simp add: mem_write_def)

lemma take_drop_mem_write:
  "pos + length bs \<le> length m \<Longrightarrow> take (length bs) (drop pos (mem_write m pos bs)) = bs"
  by (simp add: mem_write_def)

lemma alloc_buf_ok:
  assumes "alloc_buf n = Some b" "0 \<le> n"
  shows "buf_ok b" "b_capacity b = n" "b_len b = 0" "b_offset b = 0" "buf_bytes b = []"
  using assms
  by (auto simp: alloc_buf_def buf_ok_def buf_size_valid_def buf_bytes_def split: if_splits)

lemma buf_init_ok:
  assumes "buf_ok b" "0 \<le> off" "off \<le> b_capacity b"
  obtains b' where "buf_init b off = Some b'" "buf_ok b'" "buf_bytes b' = []"
    "b_offset b' = off" "b_len b' = 0" "b_capacity b' = b_capacity b"
proof
  show "buf_init b off = Some (b\<lparr>b_len := 0, b_offset := off\<rparr>)"
    using assms by (auto simp: buf_init_def buf_ok_def)
qed (use assms in \<open>auto simp: buf_ok_def buf_bytes_def\<close>)

lemma buf_init_Some:
  assumes "buf_ok b" "buf_init b off = Some b'"
  shows "buf_ok b'" "buf_bytes b' = []" "b_offset b' = off" "b_len b' = 0"
    "b_capacity b' = b_capacity b" "0 \<le> off" "off \<le> b_capacity b"
  using assms by (auto simp: buf_init_def buf_ok_def buf_bytes_def split: if_splits)

subsection \<open>Append and prepend\<close>

lemma buf_write_iff:
  "buf_ok b \<Longrightarrow>
   (\<exists>b'. buf_write b bs = Some b') \<longleftrightarrow> b_offset b + b_len b + int (length bs) \<le> b_capacity b"
  using buf_ok_bounds [of b]
  by (auto simp: buf_write_def buf_write_alloc_def buf_safe_def buf_size_valid_def split: if_splits)

lemma buf_write_Some:
  assumes "buf_ok b" "buf_write b bs = Some b'"
  shows "buf_ok b'" "buf_bytes b' = buf_bytes b @ bs" "b_len b' = b_len b + int (length bs)"
    "b_offset b' = b_offset b" "b_capacity b' = b_capacity b"
proof -
  from assms(1) obtain m where m: "b_data b = Some m" "int (length m) = b_capacity b"
    "0 \<le> b_offset b" "0 \<le> b_len b" "b_offset b + b_len b \<le> b_capacity b" by (elim buf_okE)
  from assms have fits: "b_offset b + b_len b + int (length bs) \<le> b_capacity b"
    by (auto simp flip: buf_write_iff)
  from assms(2) have b': "b' = poke (b\<lparr>b_len := b_len b + int (length bs)\<rparr>) (b_offset b + b_len b) bs"
    by (auto simp: buf_write_def buf_write_alloc_def split: if_splits)
  have len: "nat (b_offset b + b_len b) + length bs \<le> length m" using m fits by linarith
  then show "buf_ok b'"
    using assms(1) m fits by (auto simp: b' poke_def buf_ok_def)
  have "buf_bytes b' = take (nat (b_len b) + length bs)
      (drop (nat (b_offset b)) (take (nat (b_offset b) + nat (b_len b)) m @ bs @
         drop (nat (b_offset b) + nat (b_len b) + length bs) m))"
    using m by (simp add: b' poke_def buf_bytes_def b_mem_def mem_write_def nat_add_distrib)
  also have "\<dots> = take (nat (b_len b)) (drop (nat (b_offset b)) m) @ bs"
    using m fits by (simp add: drop_take)
  finally show "buf_bytes b' = buf_bytes b @ bs"
    using m by (simp add: buf_bytes_def b_mem_def)
qed (use assms in \<open>auto simp: buf_write_def buf_write_alloc_def poke_def split: if_splits\<close>)

lemma buf_write_prepend_iff:
  "buf_ok b \<Longrightarrow> (\<exists>b'. buf_write_prepend b bs = Some b') \<longleftrightarrow> int (length bs) \<le> b_offset b"
  by (auto simp: buf_write_prepend_def buf_prepend_def split: if_splits)

lemma buf_write_prepend_Some:
  assumes "buf_ok b" "buf_write_prepend b bs = Some b'"
  shows "buf_ok b'" "buf_bytes b' = bs @ buf_bytes b" "b_len b' = b_len b + int (length bs)"
    "b_offset b' = b_offset b - int (length bs)" "b_capacity b' = b_capacity b"
proof -
  from assms(1) obtain m where m: "b_data b = Some m" "int (length m) = b_capacity b"
    "0 \<le> b_offset b" "0 \<le> b_len b" "b_offset b + b_len b \<le> b_capacity b" by (elim buf_okE)
  from assms have fits: "int (length bs) \<le> b_offset b"
    by (auto simp flip: buf_write_prepend_iff)
  from assms(2) have b': "b' = poke (b\<lparr>b_offset := b_offset b - int (length bs),
      b_len := b_len b + int (length bs)\<rparr>) (b_offset b - int (length bs)) bs"
    by (auto simp: buf_write_prepend_def buf_prepend_def split: if_splits)
  define k where "k = nat (b_offset b - int (length bs))"
  have k: "nat (b_offset b) = k + length bs" using fits unfolding k_def by linarith
  have "k + length bs \<le> length m" using m k by linarith
  then show "buf_ok b'"
    using assms(1) m fits by (auto simp: b' poke_def buf_ok_def k_def)
  have "buf_bytes b' = take (nat (b_len b) + length bs) (drop k (take k m @ bs @ drop (k + length bs) m))"
    using m by (simp add: b' poke_def buf_bytes_def b_mem_def mem_write_def nat_add_distrib k_def)
  also have "\<dots> = bs @ take (nat (b_len b)) (drop (k + length bs) m)"
    using m k by simp
  finally show "buf_bytes b' = bs @ buf_bytes b"
    using m k by (simp add: buf_bytes_def b_mem_def)
qed (use assms in \<open>auto simp: buf_write_prepend_def buf_prepend_def poke_def split: if_splits\<close>)

subsection \<open>Consuming the content\<close>

lemma buf_advance_window:
  assumes "buf_ok b" "0 \<le> n" "n \<le> b_len b"
  shows "buf_ok (b\<lparr>b_offset := b_offset b + n, b_len := b_len b - n\<rparr>)"
    "buf_bytes (b\<lparr>b_offset := b_offset b + n, b_len := b_len b - n\<rparr>) = drop (nat n) (buf_bytes b)"
  using assms
  by (auto simp: buf_ok_def buf_bytes_def b_mem_def drop_take nat_add_distrib nat_diff_distrib add.commute)

lemma buf_advance_ok [buf_simps]:
  "buf_ok b \<Longrightarrow> 0 \<le> n \<Longrightarrow> n \<le> b_len b \<Longrightarrow>
   buf_advance b n = Some (b\<lparr>b_offset := b_offset b + n, b_len := b_len b - n\<rparr>)"
  by (simp add: buf_advance_def)

lemma buf_advance_Some:
  assumes "buf_ok b" "buf_advance b n = Some b'"
  shows "buf_ok b'" "buf_bytes b' = drop (nat n) (buf_bytes b)" "b_len b' = b_len b - n"
    "b_offset b' = b_offset b + n" "b_capacity b' = b_capacity b" "0 \<le> n" "n \<le> b_len b"
  using assms buf_advance_window [of b n] by (auto simp: buf_advance_def split: if_splits)

lemma buf_read_ok [buf_simps]:
  "buf_ok b \<Longrightarrow> 0 \<le> n \<Longrightarrow> n \<le> b_len b \<Longrightarrow>
   buf_read b n = (Some (take (nat n) (buf_bytes b)),
                   b\<lparr>b_offset := b_offset b + n, b_len := b_len b - n\<rparr>)"
  by (simp add: buf_read_def buf_read_alloc_def buf_bytes_def min_def nat_mono)

lemma buf_read_short [buf_simps]:
  "b_len b < n \<Longrightarrow> buf_read b n = (None, b)"
  by (simp add: buf_read_def buf_read_alloc_def)

lemma buf_read_Some:
  assumes "buf_ok b" "buf_read b n = (Some bs, b')"
  shows "buf_ok b'" "buf_bytes b = bs @ buf_bytes b'" "int (length bs) = n"
    "b_len b' = b_len b - n" "b_offset b' = b_offset b + n" "b_capacity b' = b_capacity b"
proof -
  have n: "0 \<le> n" "n \<le> b_len b"
    using assms by (auto simp: buf_read_def buf_read_alloc_def split: if_splits)
  note r = buf_read_ok [OF assms(1) n] and w = buf_advance_window [OF assms(1) n]
  show "buf_ok b'" "buf_bytes b = bs @ buf_bytes b'" "int (length bs) = n"
    "b_len b' = b_len b - n" "b_offset b' = b_offset b + n" "b_capacity b' = b_capacity b"
    using assms(2) w n length_buf_bytes [OF assms(1)] by (auto simp: r)
qed

lemma buf_read_None:
  assumes "buf_ok b" "buf_read b n = (None, b')"
  shows "b' = b" "n < 0 \<or> b_len b < n"
  using assms by (auto simp: buf_read_def buf_read_alloc_def split: if_splits)

lemma buf_read_cases:
  assumes "buf_ok b" "0 \<le> n"
  obtains (some) bs b' where "buf_read b n = (Some bs, b')" "int (length bs) = n" "buf_ok b'"
      "buf_bytes b = bs @ buf_bytes b'"
    | (none) "buf_read b n = (None, b)" "b_len b < n"
proof (cases "n \<le> b_len b")
  case True
  then show ?thesis using that(1) assms buf_read_ok [OF assms True] buf_read_Some by metis
next
  case False
  then show ?thesis using that(2) by (simp add: buf_read_short)
qed


subsection \<open>Copies and sub-buffers\<close>

lemma buf_copy_eq: "buf_ok src \<Longrightarrow> buf_copy dest src = buf_write dest (buf_bytes src)"
  by (simp add: buf_copy_def buf_bytes_def)

lemma buf_copy_n_ok:
  assumes "buf_ok dest" "buf_ok src" "0 \<le> n" "n \<le> b_len src"
    and fits: "b_offset dest + b_len dest + n \<le> b_capacity dest"
  obtains dest' src' where "buf_copy_n dest src n = (True, dest', src')" "buf_ok dest'" "buf_ok src'"
    "buf_bytes dest' = buf_bytes dest @ take (nat n) (buf_bytes src)"
    "buf_bytes src' = drop (nat n) (buf_bytes src)"
    "b_offset dest' = b_offset dest" "b_capacity dest' = b_capacity dest"
    "b_capacity src' = b_capacity src" "b_len src' = b_len src - n" "b_offset src' = b_offset src + n"
proof -
  note r = buf_read_ok [OF assms(2-4)]
  have len: "int (length (take (nat n) (buf_bytes src))) = n"
    using assms length_buf_bytes [of src] by auto
  with fits obtain dest' where d: "buf_write dest (take (nat n) (buf_bytes src)) = Some dest'"
    using buf_write_iff [OF assms(1)] by metis
  show ?thesis
    by (rule that [of dest' "src\<lparr>b_offset := b_offset src + n, b_len := b_len src - n\<rparr>"])
      (use buf_write_Some [OF assms(1) d] buf_advance_window [OF assms(2-4)] d r
        in \<open>auto simp: buf_copy_n_def\<close>)
qed

lemma buf_sub_append:
  assumes "buf_ok b" "0 \<le> sz" "b_offset b + b_len b + sz \<le> b_capacity b"
  obtains b' sub where "buf_sub b sz False = (b', b_offset b + b_len b, sub)"
    "b' = b\<lparr>b_len := b_len b + sz\<rparr>" "buf_ok sub" "b_offset sub = 0" "b_capacity sub = sz" "b_len sub = 0"
    "buf_bytes sub = []"
proof -
  have "buf_write_alloc b sz = Some (b_offset b + b_len b, b\<lparr>b_len := b_len b + sz\<rparr>)"
    using assms buf_ok_bounds [OF assms(1)]
    by (simp add: buf_write_alloc_def buf_safe_def buf_size_valid_def)
  then show ?thesis
    using assms
    by (intro that) (auto simp: buf_sub_def buf_ok_def clear_buf_def buf_bytes_def b_mem_def)
qed

lemma buf_sub_prepend:
  assumes "buf_ok b" "0 \<le> sz" "sz \<le> b_offset b"
  obtains b' sub where "buf_sub b sz True = (b', b_offset b - sz, sub)"
    "b' = b\<lparr>b_offset := b_offset b - sz, b_len := b_len b + sz\<rparr>"
    "buf_ok sub" "b_offset sub = 0" "b_capacity sub = sz" "b_len sub = 0" "buf_bytes sub = []"
proof -
  have "buf_prepend b sz = Some (b\<lparr>b_offset := b_offset b - sz, b_len := b_len b + sz\<rparr>)"
    using assms by (simp add: buf_prepend_def)
  then show ?thesis
    using assms
    by (intro that) (auto simp: buf_sub_def buf_ok_def clear_buf_def buf_bytes_def b_mem_def)
qed

text \<open>A sub-buffer that has been filled, joined back, is an append or a prepend of its bytes.\<close>

lemma full_b_mem:
  assumes "buf_ok sub" "b_offset sub = 0" "b_len sub = b_capacity sub"
  shows "b_mem sub = buf_bytes sub"
  using assms by (elim buf_okE) (auto simp: b_mem_def buf_bytes_def)

lemma buf_join_append:
  assumes "buf_ok b" "buf_write b bs = Some b2"
  shows "poke (b\<lparr>b_len := b_len b + int (length bs)\<rparr>) (b_offset b + b_len b) bs = b2"
  using assms by (auto simp: buf_write_def buf_write_alloc_def split: if_splits)

lemma buf_join_prepend:
  assumes "buf_ok b" "buf_write_prepend b bs = Some b2"
  shows "poke (b\<lparr>b_offset := b_offset b - int (length bs), b_len := b_len b + int (length bs)\<rparr>)
      (b_offset b - int (length bs)) bs = b2"
  using assms by (auto simp: buf_write_prepend_def buf_prepend_def split: if_splits)

section \<open>The buffer as a byte queue\<close>

text \<open>
  What the protocol code relies on: bytes appended at one end come out at the other in order. The
  clients below are the typed readers of the code.
\<close>

locale byte_queue =
  fixes put :: "'b \<Rightarrow> u8 list \<Rightarrow> 'b option"
    and get :: "'b \<Rightarrow> int \<Rightarrow> u8 list option \<times> 'b"
    and content :: "'b \<Rightarrow> u8 list"
    and inv :: "'b \<Rightarrow> bool"
  assumes put_content: "inv b \<Longrightarrow> put b bs = Some b' \<Longrightarrow> inv b' \<and> content b' = content b @ bs"
    and get_content: "inv b \<Longrightarrow> n \<le> length (content b) \<Longrightarrow>
      \<exists>b'. get b (int n) = (Some (take n (content b)), b') \<and> inv b' \<and> content b' = drop n (content b)"
    and get_short: "inv b \<Longrightarrow> length (content b) < n \<Longrightarrow> get b (int n) = (None, b)"
begin

lemma get_prefix:
  assumes "inv b" "content b = bs @ rest"
  obtains b' where "get b (int (length bs)) = (Some bs, b')" "inv b'" "content b' = rest"
  using get_content [of b "length bs"] assms by auto

lemma get_u32:
  assumes "inv b" "content b = be32 x @ rest"
  obtains b' where "get b 4 = (Some (be32 x), b')" "inv b'" "content b' = rest"
  using get_prefix [OF assms] by (metis length_be32 of_nat_numeral)

lemma get_u8:
  assumes "inv b" "content b = x # rest"
  obtains b' where "get b 1 = (Some [x], b')" "inv b'" "content b' = rest"
  using get_prefix [of b "[x]" rest] assms by auto

lemma put_get_fifo:
  assumes "inv b" "put b bs = Some b1" "put b1 cs = Some b2" "content b = []"
  obtains b3 where "get b2 (int (length bs)) = (Some bs, b3)" "content b3 = cs"
proof -
  have "inv b2" "content b2 = bs @ cs"
    using put_content [OF assms(1,2)] put_content [of b1 cs b2] assms(3,4) by auto
  then show ?thesis by (rule get_prefix) (rule that)
qed

end

interpretation bufq: byte_queue buf_write buf_read buf_bytes buf_ok
proof
  fix b :: buffer and n
  assume b: "buf_ok b" and n: "n \<le> length (buf_bytes b)"
  then have "int n \<le> b_len b" by (simp add: length_buf_bytes_nat nat_le_iff le_nat_iff buf_ok_bounds)
  then show "\<exists>b'. buf_read b (int n) = (Some (take n (buf_bytes b)), b') \<and> buf_ok b' \<and>
      buf_bytes b' = drop n (buf_bytes b)"
    using b buf_read_ok [OF b, of "int n"] buf_advance_window [OF b, of "int n"] by auto
next
  fix b :: buffer and n
  assume b: "buf_ok b" and n: "length (buf_bytes b) < n"
  then have "b_len b < int n" using length_buf_bytes [OF b] by linarith
  then show "buf_read b (int n) = (None, b)" by (rule buf_read_short)
qed (auto dest: buf_write_Some)

end
