(* ===== verification/C_Strings.thy ===== *)
theory C_Strings
  imports Buffer
begin

text \<open>
  Strings and buffer lists of \<^verbatim>\<open>buffer.h\<close> and \<^verbatim>\<open>buffer.c\<close>: character classes and the string sanitiser
  \<^verbatim>\<open>string_mod\<close>, the field reader \<^verbatim>\<open>buf_parse\<close>, trimming and matching, and the queue
  \<^verbatim>\<open>struct buffer_list\<close> with its aggregation. A C string is the list of its bytes before the
  terminating zero. The classification functions of the C library are those of the "C" locale.
  The lemmas show what the sanitiser leaves of a string, which field \<^verbatim>\<open>buf_parse\<close> returns, and that a
  buffer list is a queue of byte strings whose content aggregation keeps.
\<close>

section \<open>Characters\<close>

text \<open>The byte of a character.\<close>

abbreviation ch :: "char \<Rightarrow> u8" where
  "ch x \<equiv> of_char x"

definition cstr :: "string \<Rightarrow> u8 list" where
  "cstr s = map of_char s"

text \<open>What precedes the first zero byte of an array.\<close>

definition c_string :: "u8 list \<Rightarrow> u8 list" where
  "c_string a = takeWhile (\<lambda>c. c \<noteq> 0) a"

definition isdigit :: "u8 \<Rightarrow> bool" where "isdigit c \<longleftrightarrow> 48 \<le> c \<and> c \<le> 57"
definition isalpha :: "u8 \<Rightarrow> bool" where "isalpha c \<longleftrightarrow> 65 \<le> c \<and> c \<le> 90 \<or> 97 \<le> c \<and> c \<le> 122"
definition isalnum :: "u8 \<Rightarrow> bool" where "isalnum c \<longleftrightarrow> isalpha c \<or> isdigit c"
definition isascii :: "u8 \<Rightarrow> bool" where "isascii c \<longleftrightarrow> c < 128"
definition iscntrl :: "u8 \<Rightarrow> bool" where "iscntrl c \<longleftrightarrow> c < 32 \<or> c = 127"
definition ispunct :: "u8 \<Rightarrow> bool" where "ispunct c \<longleftrightarrow> 33 \<le> c \<and> c \<le> 126 \<and> \<not> isalnum c"
definition isspace :: "u8 \<Rightarrow> bool" where "isspace c \<longleftrightarrow> c = 32 \<or> 9 \<le> c \<and> c \<le> 13"
definition isxdigit :: "u8 \<Rightarrow> bool" where
  "isxdigit c \<longleftrightarrow> isdigit c \<or> 65 \<le> c \<and> c \<le> 70 \<or> 97 \<le> c \<and> c \<le> 102"

definition CC_ANY :: u32 where "CC_ANY = push_bit 0 1"
definition CC_NULL :: u32 where "CC_NULL = push_bit 1 1"
definition CC_ALNUM :: u32 where "CC_ALNUM = push_bit 2 1"
definition CC_ALPHA :: u32 where "CC_ALPHA = push_bit 3 1"
definition CC_ASCII :: u32 where "CC_ASCII = push_bit 4 1"
definition CC_CNTRL :: u32 where "CC_CNTRL = push_bit 5 1"
definition CC_DIGIT :: u32 where "CC_DIGIT = push_bit 6 1"
definition CC_PRINT :: u32 where "CC_PRINT = push_bit 7 1"
definition CC_PUNCT :: u32 where "CC_PUNCT = push_bit 8 1"
definition CC_SPACE :: u32 where "CC_SPACE = push_bit 9 1"
definition CC_XDIGIT :: u32 where "CC_XDIGIT = push_bit 10 1"
definition CC_BLANK :: u32 where "CC_BLANK = push_bit 11 1"
definition CC_NEWLINE :: u32 where "CC_NEWLINE = push_bit 12 1"
definition CC_CR :: u32 where "CC_CR = push_bit 13 1"
definition CC_BACKSLASH :: u32 where "CC_BACKSLASH = push_bit 14 1"
definition CC_UNDERBAR :: u32 where "CC_UNDERBAR = push_bit 15 1"
definition CC_DASH :: u32 where "CC_DASH = push_bit 16 1"
definition CC_DOT :: u32 where "CC_DOT = push_bit 17 1"
definition CC_COMMA :: u32 where "CC_COMMA = push_bit 18 1"
definition CC_COLON :: u32 where "CC_COLON = push_bit 19 1"
definition CC_SLASH :: u32 where "CC_SLASH = push_bit 20 1"
definition CC_SINGLE_QUOTE :: u32 where "CC_SINGLE_QUOTE = push_bit 21 1"
definition CC_DOUBLE_QUOTE :: u32 where "CC_DOUBLE_QUOTE = push_bit 22 1"
definition CC_REVERSE_QUOTE :: u32 where "CC_REVERSE_QUOTE = push_bit 23 1"
definition CC_AT :: u32 where "CC_AT = push_bit 24 1"
definition CC_EQUAL :: u32 where "CC_EQUAL = push_bit 25 1"
definition CC_LESS_THAN :: u32 where "CC_LESS_THAN = push_bit 26 1"
definition CC_GREATER_THAN :: u32 where "CC_GREATER_THAN = push_bit 27 1"
definition CC_PIPE :: u32 where "CC_PIPE = push_bit 28 1"
definition CC_QUESTION_MARK :: u32 where "CC_QUESTION_MARK = push_bit 29 1"
definition CC_ASTERISK :: u32 where "CC_ASTERISK = push_bit 30 1"
definition CC_CRLF :: u32 where "CC_CRLF = CC_CR OR CC_NEWLINE"
definition CC_NAME :: u32 where "CC_NAME = CC_ALNUM OR CC_UNDERBAR"

lemmas cc_defs =
  CC_ANY_def CC_NULL_def CC_ALNUM_def CC_ALPHA_def CC_ASCII_def CC_CNTRL_def CC_DIGIT_def
  CC_PRINT_def CC_PUNCT_def CC_SPACE_def CC_XDIGIT_def CC_BLANK_def CC_NEWLINE_def CC_CR_def
  CC_BACKSLASH_def CC_UNDERBAR_def CC_DASH_def CC_DOT_def CC_COMMA_def CC_COLON_def CC_SLASH_def
  CC_SINGLE_QUOTE_def CC_DOUBLE_QUOTE_def CC_REVERSE_QUOTE_def CC_AT_def CC_EQUAL_def
  CC_LESS_THAN_def CC_GREATER_THAN_def CC_PIPE_def CC_QUESTION_MARK_def CC_ASTERISK_def
  CC_CRLF_def CC_NAME_def

definition char_class :: "u8 \<Rightarrow> u32 \<Rightarrow> bool" where
  "char_class c flags =
     (let has = (\<lambda>f. flags AND f \<noteq> 0)
      in if flags = 0 then False
         else if has CC_ANY then True
         else has CC_NULL \<and> c = 0
            \<or> has CC_ALNUM \<and> isalnum c
            \<or> has CC_ALPHA \<and> isalpha c
            \<or> has CC_ASCII \<and> isascii c
            \<or> has CC_CNTRL \<and> iscntrl c
            \<or> has CC_DIGIT \<and> isdigit c
            \<or> has CC_PRINT \<and> (c \<ge> 32 \<and> c \<noteq> 127)
            \<or> has CC_PUNCT \<and> ispunct c
            \<or> has CC_SPACE \<and> isspace c
            \<or> has CC_XDIGIT \<and> isxdigit c
            \<or> has CC_BLANK \<and> (c = ch CHR '' '' \<or> c = 9)
            \<or> has CC_NEWLINE \<and> c = 10
            \<or> has CC_CR \<and> c = 13
            \<or> has CC_BACKSLASH \<and> c = 92
            \<or> has CC_UNDERBAR \<and> c = ch CHR ''_''
            \<or> has CC_DASH \<and> c = ch CHR ''-''
            \<or> has CC_DOT \<and> c = ch CHR ''.''
            \<or> has CC_COMMA \<and> c = ch CHR '',''
            \<or> has CC_COLON \<and> c = ch CHR '':''
            \<or> has CC_SLASH \<and> c = ch CHR ''/''
            \<or> has CC_SINGLE_QUOTE \<and> c = 39
            \<or> has CC_DOUBLE_QUOTE \<and> c = 34
            \<or> has CC_REVERSE_QUOTE \<and> c = 96
            \<or> has CC_AT \<and> c = ch CHR ''@''
            \<or> has CC_EQUAL \<and> c = ch CHR ''=''
            \<or> has CC_LESS_THAN \<and> c = ch CHR ''<''
            \<or> has CC_GREATER_THAN \<and> c = ch CHR ''>''
            \<or> has CC_PIPE \<and> c = ch CHR ''|''
            \<or> has CC_QUESTION_MARK \<and> c = ch CHR ''?''
            \<or> has CC_ASTERISK \<and> c = ch CHR ''*'')"

definition char_inc_exc :: "u8 \<Rightarrow> u32 \<Rightarrow> u32 \<Rightarrow> bool" where
  "char_inc_exc c inclusive exclusive \<longleftrightarrow> char_class c inclusive \<and> \<not> char_class c exclusive"

fun string_class :: "u8 list \<Rightarrow> u32 \<Rightarrow> u32 \<Rightarrow> bool" where
  "string_class [] inclusive exclusive = True"
| "string_class (c # str) inclusive exclusive =
     (if \<not> char_inc_exc c inclusive exclusive then False else string_class str inclusive exclusive)"

text \<open>The result and the modified string. A zero replacement deletes the character.\<close>

fun string_mod :: "u8 list \<Rightarrow> u32 \<Rightarrow> u32 \<Rightarrow> u8 \<Rightarrow> bool \<times> u8 list" where
  "string_mod [] inclusive exclusive replace = (True, [])"
| "string_mod (c # str) inclusive exclusive replace =
     (let bad = \<not> char_inc_exc c inclusive exclusive;
          c = (if bad then replace else c);
          (ret, str') = string_mod str inclusive exclusive replace
      in (\<not> bad \<and> ret, if c \<noteq> 0 then c # str' else str'))"

fun replace_leading_loop :: "u8 list \<Rightarrow> u8 \<Rightarrow> u8 \<Rightarrow> u8 list" where
  "replace_leading_loop [] match replace = []"
| "replace_leading_loop (c # str) match replace =
     (if c = match then replace # replace_leading_loop str match replace else c # str)"

definition string_replace_leading :: "u8 list \<Rightarrow> u8 \<Rightarrow> u8 \<Rightarrow> u8 list option" where
  "string_replace_leading str match replace =
     (if match = 0 then None else Some (replace_leading_loop str match replace))"

fun skip_leading_whitespace :: "u8 list \<Rightarrow> u8 list" where
  "skip_leading_whitespace [] = []"
| "skip_leading_whitespace (c # str) =
     (if \<not> (c = ch CHR '' '' \<or> c = 9) then c # str else skip_leading_whitespace str)"

function rm_trailing_chars :: "u8 list \<Rightarrow> u8 list \<Rightarrow> u8 list" where
  "rm_trailing_chars str what_to_delete =
     (if str \<noteq> [] \<and> last str \<in> set what_to_delete
      then rm_trailing_chars (butlast str) what_to_delete
      else str)"
  by pat_completeness auto

termination
  by (relation "measure (\<lambda>(str, what). length str)") auto

declare rm_trailing_chars.simps [simp del]

definition chomp :: "u8 list \<Rightarrow> u8 list" where
  "chomp str = rm_trailing_chars str [13, 10]"

definition strprefix :: "u8 list \<Rightarrow> u8 list \<Rightarrow> bool" where
  "strprefix str prefix \<longleftrightarrow> take (length prefix) str = prefix"

section \<open>Strings in buffers\<close>

text \<open>The index of the last byte of the content, where \<^verbatim>\<open>BLAST\<close> points to.\<close>

definition buf_blast :: "buffer \<Rightarrow> int option" where
  "buf_blast b = (if buf_len b > 0 then Some (b_offset b + buf_len b - 1) else None)"

definition buf_rmtail :: "buffer \<Rightarrow> u8 \<Rightarrow> buffer" where
  "buf_rmtail b remove =
     (case buf_blast b of
        None \<Rightarrow> b
      | Some cp \<Rightarrow> if b_mem b ! nat cp = remove then (poke b cp [0])\<lparr>b_len := b_len b - 1\<rparr> else b)"

definition buf_null_terminate :: "buffer \<Rightarrow> buffer" where
  "buf_null_terminate b =
     (case buf_blast b of
        Some cp \<Rightarrow> if b_mem b ! nat cp = 0 then b else
          (let b = (if \<not> buf_safe b 1 then case buf_inc_len b (- 1) of None \<Rightarrow> b | Some b' \<Rightarrow> b' else b)
           in case buf_write_u8 b 0 of None \<Rightarrow> b | Some b' \<Rightarrow> b')
      | None \<Rightarrow>
          (let b = (if \<not> buf_safe b 1 then case buf_inc_len b (- 1) of None \<Rightarrow> b | Some b' \<Rightarrow> b' else b)
           in case buf_write_u8 b 0 of None \<Rightarrow> b | Some b' \<Rightarrow> b'))"

function chomp_loop :: "buffer \<Rightarrow> buffer" where
  "chomp_loop b =
     (case buf_blast b of
        None \<Rightarrow> b
      | Some cp \<Rightarrow>
          if char_class (b_mem b ! nat cp) (CC_CRLF OR CC_NULL)
          then (case buf_inc_len b (- 1) of None \<Rightarrow> b | Some b' \<Rightarrow> chomp_loop b')
          else b)"
  by pat_completeness auto

termination
  by (relation "measure (\<lambda>b. nat (b_len b))")
    (auto simp: buf_blast_def buf_inc_len_def buf_len_def split: if_splits)

declare chomp_loop.simps [simp del]

definition buf_chomp :: "buffer \<Rightarrow> buffer" where
  "buf_chomp b = buf_null_terminate (chomp_loop b)"

definition buf_string_match_head_str :: "buffer \<Rightarrow> u8 list \<Rightarrow> bool" where
  "buf_string_match_head_str src match =
     (if int (length match) > b_len src then False
      else take (length match) (drop (nat (b_offset src)) (b_mem src)) = match)"

definition buf_string_compare_advance :: "buffer \<Rightarrow> u8 list \<Rightarrow> bool \<times> buffer" where
  "buf_string_compare_advance src match =
     (if buf_string_match_head_str src match
      then (True, case buf_advance src (int (length match)) of None \<Rightarrow> src | Some b \<Rightarrow> b)
      else (False, src))"

lemma buf_read_u8_shrinks:
  assumes "buf_read_u8 b = (c, b')" "c \<ge> 0"
  shows "b_len b' < b_len b" "0 < b_len b"
  using assms by (auto simp: buf_read_u8_def buf_len_def buf_advance_def split: if_splits)

function substring_loop :: "buffer \<Rightarrow> int \<Rightarrow> int \<Rightarrow> int" where
  "substring_loop tmp delim i =
     (case buf_read_u8 tmp of (c, tmp') \<Rightarrow>
        if c \<ge> 0 then (if c = delim then i + 1 else substring_loop tmp' delim (i + 1)) else - 1)"
  by pat_completeness auto

termination
  by (relation "measure (\<lambda>(b, d, i). nat (b_len b))")
    (auto dest: buf_read_u8_shrinks [OF sym])

declare substring_loop.simps [simp del]

definition buf_substring_len :: "buffer \<Rightarrow> int \<Rightarrow> int" where
  "buf_substring_len b delim = substring_loop b delim 0"

text \<open>
  The loop of \<^verbatim>\<open>buf_parse\<close> stores at most \<open>sz\<close> bytes in \<open>line\<close>; its results are whether the end of
  the buffer was met, the stored bytes and the buffer.
\<close>

function parse_loop :: "buffer \<Rightarrow> int \<Rightarrow> nat \<Rightarrow> u8 list \<Rightarrow> bool \<times> u8 list \<times> buffer" where
  "parse_loop b delim sz line =
     (let (c, b) = buf_read_u8 b;
          eol = (c < 0);
          c = (if c \<le> 0 \<or> c = delim then 0 else c)
      in if length line \<ge> sz then (eol, line, b)
         else if c = 0 then (eol, line @ [0], b)
         else parse_loop b delim sz (line @ [word_of_int c]))"
  by pat_completeness auto

termination
  by (relation "measure (\<lambda>(b, d, sz, line). sz - length line)") auto

declare parse_loop.simps [simp del]

definition buf_parse :: "buffer \<Rightarrow> int \<Rightarrow> nat \<Rightarrow> (bool \<times> u8 list \<times> buffer) option" where
  "buf_parse b delim sz =
     (if sz = 0 then None
      else let (eol, line, b) = parse_loop b delim sz [];
               str = c_string (if length line = sz then line[sz - 1 := 0] else line)
           in Some (\<not> (eol \<and> str = []), str, b))"

section \<open>Lists of buffers\<close>

text \<open>The entries from \<^verbatim>\<open>head\<close> on, linked up to \<^verbatim>\<open>tail\<close>, and their number.\<close>

record buffer_list =
  bl_entries :: "buffer list"
  bl_size :: int

definition buffer_list_new :: buffer_list where
  "buffer_list_new = \<lparr>bl_entries = [], bl_size = 0\<rparr>"

definition buffer_list_defined :: "buffer_list \<Rightarrow> bool" where
  "buffer_list_defined ol \<longleftrightarrow> bl_entries ol \<noteq> []"

definition buffer_list_reset :: "buffer_list \<Rightarrow> buffer_list" where
  "buffer_list_reset ol = ol\<lparr>bl_entries := [], bl_size := 0\<rparr>"

text \<open>The size is that of the data; a negative or huge one is fatal in \<^verbatim>\<open>alloc_buf\<close>.\<close>

definition buffer_list_push_data :: "buffer_list \<Rightarrow> u8 list \<Rightarrow> buffer_list option" where
  "buffer_list_push_data ol data = do {
     b \<leftarrow> alloc_buf (int (length data));
     Some (ol\<lparr>bl_entries := bl_entries ol @ [(poke b 0 data)\<lparr>b_len := int (length data)\<rparr>],
              bl_size := bl_size ol + 1\<rparr>) }"

definition buffer_list_push :: "buffer_list \<Rightarrow> u8 list \<Rightarrow> buffer_list option" where
  "buffer_list_push ol str = do {
     ol \<leftarrow> buffer_list_push_data ol (str @ [0]);
     let e = last (bl_entries ol);
     Some (ol\<lparr>bl_entries := butlast (bl_entries ol) @ [e\<lparr>b_len := int (length str)\<rparr>]\<rparr>) }"

definition buffer_list_peek :: "buffer_list \<Rightarrow> buffer option" where
  "buffer_list_peek ol = (case bl_entries ol of [] \<Rightarrow> None | b # _ \<Rightarrow> Some b)"

fun aggregate_count :: "buffer list \<Rightarrow> nat \<Rightarrow> nat \<Rightarrow> nat \<Rightarrow> nat \<Rightarrow> nat \<times> nat" where
  "aggregate_count [] sep_len max_len sz count = (count, sz)"
| "aggregate_count (e # bs) sep_len max_len sz count =
     (let extra_len = nat (buf_len e) + sep_len
      in if sz + extra_len > max_len then (count, sz)
         else aggregate_count bs sep_len max_len (sz + extra_len) (count + 1))"

fun aggregate_copy :: "buffer \<Rightarrow> buffer list \<Rightarrow> u8 list \<Rightarrow> buffer" where
  "aggregate_copy f [] sep = f"
| "aggregate_copy f (e # bs) sep =
     (let f = (case buf_copy f e of None \<Rightarrow> f | Some f' \<Rightarrow> f');
          f = (case buf_write f sep of None \<Rightarrow> f | Some f' \<Rightarrow> f')
      in aggregate_copy f bs sep)"

definition buffer_list_aggregate_separator ::
  "buffer_list \<Rightarrow> nat \<Rightarrow> u8 list \<Rightarrow> buffer_list option" where
  "buffer_list_aggregate_separator bl max_len sep =
     (let (count, sz) = aggregate_count (bl_entries bl) (length sep) max_len 0 0
      in if count \<ge> 2
         then do {
           f \<leftarrow> alloc_buf (int sz + 1);
           let f = aggregate_copy f (take count (bl_entries bl)) sep;
           Some (bl\<lparr>bl_entries := f # drop count (bl_entries bl), bl_size := bl_size bl - (int count - 1)\<rparr>) }
         else Some bl)"

definition buffer_list_aggregate :: "buffer_list \<Rightarrow> nat \<Rightarrow> buffer_list option" where
  "buffer_list_aggregate bl mx = buffer_list_aggregate_separator bl mx []"

definition buffer_list_pop :: "buffer_list \<Rightarrow> buffer_list" where
  "buffer_list_pop ol =
     (case bl_entries ol of
        [] \<Rightarrow> ol
      | _ # e \<Rightarrow> ol\<lparr>bl_entries := e, bl_size := bl_size ol - 1\<rparr>)"

definition buffer_list_advance :: "buffer_list \<Rightarrow> int \<Rightarrow> buffer_list option" where
  "buffer_list_advance ol n =
     (case bl_entries ol of
        [] \<Rightarrow> Some ol
      | b # e \<Rightarrow> do {
          b \<leftarrow> buf_advance b n;
          let ol = ol\<lparr>bl_entries := b # e\<rparr>;
          Some (if buf_len b = 0 then buffer_list_pop ol else ol) })"

section \<open>Sanitised strings\<close>

lemma string_class_append:
  "string_class (s @ t) inclusive exclusive \<longleftrightarrow>
   string_class s inclusive exclusive \<and> string_class t inclusive exclusive"
  by (induction s) auto

lemma string_class_iff:
  "string_class s inclusive exclusive \<longleftrightarrow> (\<forall>c \<in> set s. char_inc_exc c inclusive exclusive)"
  by (induction s) auto

lemma length_string_mod: "length (snd (string_mod s inclusive exclusive replace)) \<le> length s"
  by (induction s) (auto simp: case_prod_beta Let_def)

lemma string_mod_result: "fst (string_mod s inclusive exclusive replace) = string_class s inclusive exclusive"
  by (induction s) (auto simp: case_prod_beta Let_def)

lemma string_mod_class:
  "replace = 0 \<or> char_inc_exc replace inclusive exclusive \<Longrightarrow>
   string_class (snd (string_mod s inclusive exclusive replace)) inclusive exclusive"
  by (induction s) (auto simp: case_prod_beta Let_def)

lemma string_mod_unchanged:
  "string_class s inclusive exclusive \<Longrightarrow> 0 \<notin> set s \<Longrightarrow> snd (string_mod s inclusive exclusive replace) = s"
  by (induction s) (auto simp: case_prod_beta Let_def)

text \<open>
  C34. \<^verbatim>\<open>string_mod\<close> sanitises a string in place: what it leaves passes \<^verbatim>\<open>string_class\<close> whenever the
  replacement is zero (delete) or itself in the class, is never longer, and a second pass changes
  nothing; it reports true exactly for strings that passed before, which it leaves as they are.
\<close>

theorem string_mod_sanitises:
  assumes "replace = 0 \<or> char_inc_exc replace inclusive exclusive" "0 \<notin> set str"
  shows "string_class (snd (string_mod str inclusive exclusive replace)) inclusive exclusive \<and>
    length (snd (string_mod str inclusive exclusive replace)) \<le> length str \<and>
    (string_mod str inclusive exclusive replace = (True, str) \<longleftrightarrow> string_class str inclusive exclusive) \<and>
    (fst (string_mod str inclusive exclusive replace) \<longleftrightarrow> string_class str inclusive exclusive)"
  using string_mod_class [OF assms(1), of str] length_string_mod [of str inclusive exclusive replace]
    string_mod_result [of str inclusive exclusive replace]
    string_mod_unchanged [OF _ assms(2), of inclusive exclusive replace]
  by (simp add: prod_eq_iff) blast

theorem string_mod_sanitises_witness:
  "string_mod (cstr ''ok'' @ [10] @ cstr ''log'') CC_PRINT CC_CRLF 0 = (False, cstr ''oklog'') \<and>
   string_class (cstr ''oklog'') CC_PRINT CC_CRLF"
proof -
  have run: "string_mod (cstr ''ok'' @ [10] @ cstr ''log'') CC_PRINT CC_CRLF 0 = (False, cstr ''oklog'')"
    by code_simp
  moreover have "0 \<notin> set (cstr ''ok'' @ [10] @ cstr ''log'')" by code_simp
  ultimately show ?thesis
    using string_mod_sanitises [of 0 CC_PRINT CC_CRLF "cstr ''ok'' @ [10] @ cstr ''log''"] by simp
qed

section \<open>Fields\<close>

lemma buf_read_u8_ok:
  assumes "buf_ok b" "buf_bytes b = c # bs"
  obtains b' where "buf_read_u8 b = (uint c, b')" "buf_ok b'" "buf_bytes b' = bs"
proof -
  have len: "b_len b \<ge> 1" using length_buf_bytes [OF assms(1)] assms(2) by simp
  have "buf_bytes b ! 0 = b_mem b ! nat (b_offset b)" using len assms(1)
    by (auto simp: buf_bytes_def b_mem_def nth_append elim!: buf_okE)
  then have "buf_read_u8 b = (uint c, b\<lparr>b_offset := b_offset b + 1, b_len := b_len b - 1\<rparr>)"
    using assms len by (simp add: buf_read_u8_def buf_advance_ok)
  then show ?thesis
    using that buf_advance_window [OF assms(1), of 1] len assms(2) by simp
qed

lemma buf_read_u8_end: "buf_ok b \<Longrightarrow> buf_bytes b = [] \<Longrightarrow> buf_read_u8 b = (- 1, b)"
  using length_buf_bytes [of b] by (simp add: buf_read_u8_def)

lemma uint_u8_bounds: "0 \<le> uint (c :: u8)" "uint (c :: u8) < 256"
  using unsigned_less [of c, where ?'a = int] by simp_all

lemma u32_bounds: "0 \<le> uint (w :: u32)" "uint (w :: u32) < 4294967296"
  using unsigned_less [of w, where ?'a = int] by simp_all

lemma uint_and_ff: "uint (w AND 0xff :: u32) = uint w mod 256"
proof -
  have "(0xff :: u32) = mask 8" by (simp add: mask_eq_exp_minus_1)
  then have "w AND 0xff = take_bit 8 w" by (simp add: take_bit_eq_mask)
  then show ?thesis using unsigned_take_bit_eq [of 8 w, where ?'a = int] by (simp add: take_bit_eq_mod)
qed

lemma parse_loop_ok:
  assumes "buf_ok b" "\<forall>c \<in> set field. c \<noteq> 0 \<and> uint c \<noteq> delim" "length line + length field < sz"
    and "buf_bytes b = field @ rest" "rest = [] \<or> hd rest = 0 \<or> uint (hd rest) = delim"
  shows "\<exists>b'. parse_loop b delim sz line = (rest = [], line @ field @ [0], b') \<and> buf_ok b' \<and> buf_bytes b' = tl rest"
  using assms
proof (induction field arbitrary: b line)
  case Nil
  show ?case
  proof (cases rest)
    case Nil
    then have "buf_read_u8 b = (- 1, b)" using Nil.prems buf_read_u8_end by simp
    then show ?thesis using Nil Nil.prems by (subst parse_loop.simps) simp
  next
    case (Cons c bs)
    then obtain b' where "buf_read_u8 b = (uint c, b')" "buf_ok b'" "buf_bytes b' = bs"
      using buf_read_u8_ok [of b c bs] Nil.prems by auto
    then show ?thesis using Cons Nil.prems by (subst parse_loop.simps) (auto simp: uint_u8_bounds uint_0_iff)
  qed
next
  case (Cons c field)
  then obtain b' where b': "buf_read_u8 b = (uint c, b')" "buf_ok b'" "buf_bytes b' = field @ rest"
    using buf_read_u8_ok [of b c "field @ rest"] by auto
  have c: "0 < uint c" "uint c \<noteq> delim" using Cons.prems(2) uint_u8_bounds(1) [of c] by (auto simp: less_le uint_0_iff)
  obtain b'' where "parse_loop b' delim sz (line @ [c]) = (rest = [], (line @ [c]) @ field @ [0], b'')"
      "buf_ok b''" "buf_bytes b'' = tl rest"
    using Cons.IH [OF b'(2), of "line @ [c]"] b' Cons.prems by auto
  then show ?case using b' c Cons.prems by (subst parse_loop.simps) simp
qed

lemma c_string_field: "\<forall>c \<in> set field. c \<noteq> 0 \<Longrightarrow> c_string (field @ 0 # rest) = field"
  unfolding c_string_def by (induction field) auto

lemma buf_parse_field:
  assumes "buf_ok b" "\<forall>c \<in> set field. c \<noteq> 0 \<and> uint c \<noteq> delim" "length field < sz"
    and "buf_bytes b = field @ rest" "rest = [] \<or> hd rest = 0 \<or> uint (hd rest) = delim"
  obtains b' where "buf_parse b delim sz = Some (field \<noteq> [] \<or> rest \<noteq> [], field, b')" "buf_ok b'" "buf_bytes b' = tl rest"
proof -
  obtain b' where b': "parse_loop b delim sz [] = (rest = [], field @ [0], b')" "buf_ok b'" "buf_bytes b' = tl rest"
    using parse_loop_ok [OF assms(1,2), of "[]" sz rest] assms(3-5) by auto
  have "c_string (if length (field @ [0]) = sz then (field @ [0])[sz - 1 := 0] else field @ [0]) = field"
    using c_string_field [of field "[]"] assms(2) by auto
  then have "buf_parse b delim sz = Some (field \<noteq> [] \<or> rest \<noteq> [], field, b')"
    using assms(3) b' by (auto simp: buf_parse_def Let_def)
  then show ?thesis using that b' by blast
qed

lemma parse_loop_long:
  assumes "buf_ok b" "\<forall>c \<in> set field. c \<noteq> 0 \<and> uint c \<noteq> delim" "length line + length field = sz"
    and "buf_bytes b = field @ rest"
  shows "\<exists>b'. parse_loop b delim sz line = (rest = [], line @ field, b') \<and> buf_ok b' \<and> buf_bytes b' = tl rest"
  using assms
proof (induction field arbitrary: b line)
  case Nil
  show ?case
  proof (cases rest)
    case Nil
    then have "buf_read_u8 b = (- 1, b)" using Nil.prems buf_read_u8_end by simp
    then show ?thesis using Nil Nil.prems by (subst parse_loop.simps) simp
  next
    case (Cons c bs)
    then obtain b' where "buf_read_u8 b = (uint c, b')" "buf_ok b'" "buf_bytes b' = bs"
      using buf_read_u8_ok [of b c bs] Nil.prems by auto
    then show ?thesis using Cons Nil.prems by (subst parse_loop.simps) (auto simp: uint_u8_bounds)
  qed
next
  case (Cons c field)
  then obtain b' where b': "buf_read_u8 b = (uint c, b')" "buf_ok b'" "buf_bytes b' = field @ rest"
    using buf_read_u8_ok [of b c "field @ rest"] by auto
  have c: "0 < uint c" "uint c \<noteq> delim" using Cons.prems(2) uint_u8_bounds(1) [of c] by (auto simp: less_le uint_0_iff)
  obtain b'' where "parse_loop b' delim sz (line @ [c]) = (rest = [], (line @ [c]) @ field, b'')"
      "buf_ok b''" "buf_bytes b'' = tl rest"
    using Cons.IH [OF b'(2), of "line @ [c]"] b' Cons.prems by auto
  then show ?case using b' c Cons.prems by (subst parse_loop.simps) simp
qed

lemma buf_parse_overlong:
  assumes "buf_ok b" "\<forall>c \<in> set field. c \<noteq> 0 \<and> uint c \<noteq> delim" "length field = sz" "1 < sz"
    and "buf_bytes b = field @ rest"
  obtains b' where "buf_parse b delim sz = Some (True, butlast field, b')" "buf_ok b'" "buf_bytes b' = tl rest"
proof -
  obtain b' where b': "parse_loop b delim sz [] = (rest = [], field, b')" "buf_ok b'" "buf_bytes b' = tl rest"
    using parse_loop_long [OF assms(1,2), of "[]" sz rest] assms(3,5) by auto
  have f: "field[sz - 1 := 0] = butlast field @ [0]" "butlast field \<noteq> []"
    using assms(3,4) by (cases field rule: rev_cases; auto simp: list_update_append)+
  have "c_string (butlast field @ [0]) = butlast field"
    using c_string_field [of "butlast field" "[]"] assms(2) in_set_butlastD by fastforce
  then have "buf_parse b delim sz = Some (True, butlast field, b')"
    using assms(3,4) b' f by (auto simp: buf_parse_def Let_def)
  then show ?thesis using that b' by blast
qed

text \<open>
  C35. A field longer than the caller's array does not fail: \<^verbatim>\<open>buf_parse\<close> returns its first \<open>sz - 1\<close>
  bytes as a field, loses the next two bytes and leaves the tail, which the next call returns as a
  field of its own.
\<close>

theorem buf_parse_splits_overlong:
  assumes "buf_ok b" "1 < sz" "length field = sz" "length tail < sz"
    and "\<forall>c \<in> set (field @ x # tail). c \<noteq> 0 \<and> uint c \<noteq> delim"
    and "buf_bytes b = field @ x # tail @ rest" "rest \<noteq> []" "uint (hd rest) = delim"
  shows "\<exists>b' b''. buf_parse b delim sz = Some (True, butlast field, b') \<and>
    buf_parse b' delim sz = Some (True, tail, b'') \<and> buf_bytes b'' = tl rest"
proof -
  obtain b' where b': "buf_parse b delim sz = Some (True, butlast field, b')" "buf_ok b'"
      "buf_bytes b' = tl (x # tail @ rest)"
    by (rule buf_parse_overlong [of b field delim sz "x # tail @ rest"]) (use assms in auto)
  obtain b'' where "buf_parse b' delim sz = Some (tail \<noteq> [] \<or> rest \<noteq> [], tail, b'')" "buf_bytes b'' = tl rest"
    by (rule buf_parse_field [of b' tail delim sz rest]) (use assms b' in auto)
  then show ?thesis using b' assms(7) by auto
qed

text \<open>Two comma-separated options, the first longer than the array of five bytes.\<close>

definition demo_options :: buffer where
  "demo_options = \<lparr>b_capacity = 16, b_offset = 0, b_len = 10, b_data = Some (cstr ''verb4 up,x'' @ replicate 6 0)\<rparr>"

theorem buf_parse_splits_overlong_witness:
  "\<exists>b' b''. buf_parse demo_options 44 5 = Some (True, cstr ''verb'', b') \<and>
     buf_parse b' 44 5 = Some (True, cstr ''up'', b'') \<and> buf_bytes b'' = cstr ''x''"
proof -
  have "buf_ok demo_options" by (simp add: buf_ok_def demo_options_def cstr_def BUF_SIZE_MAX_def)
  moreover have "\<forall>c \<in> set (cstr ''verb4'' @ 32 # cstr ''up''). c \<noteq> 0 \<and> uint c \<noteq> 44" by (simp add: cstr_def)
  moreover have "buf_bytes demo_options = cstr ''verb4'' @ 32 # cstr ''up'' @ 44 # cstr ''x''" by code_simp
  ultimately have "\<exists>b' b''. buf_parse demo_options 44 5 = Some (True, butlast (cstr ''verb4''), b') \<and>
      buf_parse b' 44 5 = Some (True, cstr ''up'', b'') \<and> buf_bytes b'' = tl (44 # cstr ''x'')"
    by (intro buf_parse_splits_overlong [where x = 32]) (simp_all add: cstr_def)
  moreover have "butlast (cstr ''verb4'') = cstr ''verb''" by (simp add: cstr_def)
  ultimately show ?thesis by simp
qed

section \<open>Buffer lists as queues of byte strings\<close>

definition bl_ok :: "buffer_list \<Rightarrow> bool" where
  "bl_ok ol \<longleftrightarrow> bl_size ol = int (length (bl_entries ol)) \<and> (\<forall>b \<in> set (bl_entries ol). buf_ok b)"

definition bl_content :: "buffer_list \<Rightarrow> u8 list list" where
  "bl_content ol = map buf_bytes (bl_entries ol)"

lemma poke_all:
  assumes "alloc_buf n = Some b" "length data \<le> nat n" "0 \<le> n" "0 \<le> k" "k \<le> n"
  shows "buf_ok ((poke b 0 data)\<lparr>b_len := k\<rparr>)"
    "buf_bytes ((poke b 0 data)\<lparr>b_len := k\<rparr>) = take (nat k) (data @ replicate (nat n - length data) 0)"
  using assms
  by (auto simp: alloc_buf_def poke_def mem_write_def buf_ok_def buf_size_valid_def buf_bytes_def b_mem_def
      split: if_splits)

lemma push_data_ok:
  assumes "bl_ok ol" "buffer_list_push_data ol data = Some ol'"
  shows "bl_ok ol'" "bl_content ol' = bl_content ol @ [data]"
  using assms poke_all [of "int (length data)" _ data "int (length data)"]
  by (auto simp: buffer_list_push_data_def bl_ok_def bl_content_def split: Option.bind_splits)

lemma push_ok:
  assumes "bl_ok ol" "buffer_list_push ol str = Some ol'"
  shows "bl_ok ol'" "bl_content ol' = bl_content ol @ [str]"
proof -
  obtain b where b: "alloc_buf (int (length str) + 1) = Some b"
    "ol' = ol\<lparr>bl_entries := bl_entries ol @ [(poke b 0 (str @ [0]))\<lparr>b_len := int (length str)\<rparr>],
              bl_size := bl_size ol + 1\<rparr>"
    using assms(2) by (auto simp: buffer_list_push_def buffer_list_push_data_def add.commute split: Option.bind_splits)
  show "bl_ok ol'" "bl_content ol' = bl_content ol @ [str]"
    using assms(1) poke_all [OF b(1), of "str @ [0]" "int (length str)"] unfolding b(2)
    by (auto simp: bl_ok_def bl_content_def)
qed

lemma pop_ok:
  assumes "bl_ok ol"
  shows "bl_ok (buffer_list_pop ol)" "bl_content (buffer_list_pop ol) = tl (bl_content ol)"
  using assms by (auto simp: buffer_list_pop_def bl_ok_def bl_content_def split: list.splits)

lemma advance_ok:
  assumes "bl_ok ol" "buffer_list_advance ol n = Some ol'" "bl_entries ol \<noteq> []"
  shows "bl_ok ol'" "concat (bl_content ol') = drop (nat n) (hd (bl_content ol)) @ concat (tl (bl_content ol))"
proof -
  obtain b e where e: "bl_entries ol = b # e" using assms(3) by (cases "bl_entries ol") auto
  then have b: "buf_ok b" using assms(1) by (simp add: bl_ok_def)
  obtain b' where b': "buf_advance b n = Some b'"
    "ol' = (if buf_len b' = 0 then buffer_list_pop (ol\<lparr>bl_entries := b' # e\<rparr>) else ol\<lparr>bl_entries := b' # e\<rparr>)"
    using assms(2) e by (auto simp: buffer_list_advance_def Let_def split: Option.bind_splits)
  note adv = buf_advance_Some [OF b b'(1)]
  have "buf_bytes b' = []" if "buf_len b' = 0" using length_buf_bytes [OF adv(1)] that adv(1) by simp
  then show "bl_ok ol'" "concat (bl_content ol') = drop (nat n) (hd (bl_content ol)) @ concat (tl (bl_content ol))"
    using assms(1) e adv(1,2) unfolding b'(2) by (auto simp: bl_ok_def bl_content_def buffer_list_pop_def)
qed

lemma aggregate_count_ok:
  assumes "aggregate_count bs sep_len max_len sz count = (n, tot)" "\<forall>b \<in> set bs. buf_ok b" "sz \<le> max_len"
  shows "\<exists>k. n = count + k \<and> k \<le> length bs \<and> tot \<le> max_len \<and>
    tot = sz + length (concat (map (\<lambda>b. buf_bytes b) (take k bs))) + k * sep_len"
  using assms
proof (induction bs arbitrary: sz count)
  case (Cons e bs)
  show ?case
  proof (cases "sz + (nat (buf_len e) + sep_len) > max_len")
    case True
    then show ?thesis using Cons.prems by (intro exI [of _ 0]) (auto simp: Let_def add.assoc)
  next
    case False
    let ?extra = "nat (buf_len e) + sep_len"
    have "aggregate_count bs sep_len max_len (sz + ?extra) (count + 1) = (n, tot)"
      using False Cons.prems(1) by (simp add: Let_def)
    then obtain k where "n = count + 1 + k" "k \<le> length bs" "tot \<le> max_len"
        "tot = sz + ?extra + length (concat (map (\<lambda>b. buf_bytes b) (take k bs))) + k * sep_len"
      using Cons.IH [of "sz + ?extra" "count + 1"] Cons.prems False by auto
    moreover have "nat (buf_len e) = length (buf_bytes e)" using Cons.prems(2) by (simp add: length_buf_bytes_nat)
    ultimately show ?thesis by (intro exI [of _ "Suc k"]) auto
  qed
qed simp

lemma aggregate_copy_ok:
  assumes "buf_ok f" "\<forall>b \<in> set bs. buf_ok b"
    and "b_offset f + b_len f + int (length (concat (map (\<lambda>b. buf_bytes b @ sep) bs))) \<le> b_capacity f"
  shows "buf_ok (aggregate_copy f bs sep) \<and>
    buf_bytes (aggregate_copy f bs sep) = buf_bytes f @ concat (map (\<lambda>b. buf_bytes b @ sep) bs)"
  using assms
proof (induction bs arbitrary: f)
  case (Cons e bs)
  obtain f1 where f1: "buf_copy f e = Some f1"
    using buf_write_iff [OF Cons.prems(1), of "buf_bytes e"] Cons.prems(2,3) by (auto simp: buf_copy_eq)
  note w1 = buf_write_Some [OF Cons.prems(1), of "buf_bytes e" f1]
  have s1: "buf_write f (buf_bytes e) = Some f1" using f1 Cons.prems(2) by (simp add: buf_copy_eq)
  obtain f2 where f2: "buf_write f1 sep = Some f2"
    using buf_write_iff [OF w1(1) [OF s1], of sep] w1(3-5) [OF s1] Cons.prems(3) by auto
  note w2 = buf_write_Some [OF w1(1) [OF s1] f2]
  have "buf_ok (aggregate_copy f2 bs sep) \<and>
      buf_bytes (aggregate_copy f2 bs sep) = buf_bytes f2 @ concat (map (\<lambda>b. buf_bytes b @ sep) bs)"
    by (rule Cons.IH) (use w2 w1(3-5) [OF s1] Cons.prems in auto)
  then show ?case using f1 f2 w2 w1(2) [OF s1] by simp
qed simp

lemma length_concat_sep: "length (concat (map (\<lambda>b. f b @ sep) bs)) = length (concat (map f bs)) + length bs * length sep"
  by (induction bs) auto

text \<open>
  Aggregation keeps what a buffer list transports: either the list is as before, or its first
  \<open>n \<ge> 2\<close> entries are replaced by one, of at most \<open>max_len\<close> bytes, that holds their contents in order,
  each followed by the separator; the count of entries stays right.
\<close>

lemma buffer_list_aggregate_keeps:
  assumes "bl_ok bl" "buffer_list_aggregate_separator bl max_len sep = Some bl'"
  shows "bl_ok bl' \<and> (bl' = bl \<or> (\<exists>n \<ge> 2. n \<le> length (bl_content bl) \<and>
    bl_content bl' = concat (map (\<lambda>s. s @ sep) (take n (bl_content bl))) # drop n (bl_content bl) \<and>
    length (hd (bl_content bl')) \<le> max_len))"
proof (cases "bl' = bl")
  case False
  obtain n tot where c: "aggregate_count (bl_entries bl) (length sep) max_len 0 0 = (n, tot)" by fastforce
  have ok: "\<forall>b \<in> set (bl_entries bl). buf_ok b" using assms(1) by (simp add: bl_ok_def)
  have n: "n \<ge> 2" using assms(2) False c by (auto simp: buffer_list_aggregate_separator_def split: if_splits)
  obtain f where f: "alloc_buf (int tot + 1) = Some f"
    "bl' = bl\<lparr>bl_entries := aggregate_copy f (take n (bl_entries bl)) sep # drop n (bl_entries bl),
              bl_size := bl_size bl - (int n - 1)\<rparr>"
    using assms(2) False c n
    by (auto simp: buffer_list_aggregate_separator_def Let_def split: if_splits Option.bind_splits)
  let ?es = "take n (bl_entries bl)"
  have k: "n \<le> length (bl_entries bl)" "tot \<le> max_len"
    "tot = length (concat (map (\<lambda>b. buf_bytes b @ sep) ?es))"
    using aggregate_count_ok [OF c ok] by (auto simp: length_concat_sep)
  note al = alloc_buf_ok [OF f(1)]
  have copy: "buf_ok (aggregate_copy f ?es sep)"
    "buf_bytes (aggregate_copy f ?es sep) = concat (map (\<lambda>b. buf_bytes b @ sep) ?es)"
    using aggregate_copy_ok [of f ?es sep] al ok k(3) by (auto dest: in_set_takeD)
  have "bl_ok bl'" using assms(1) ok copy(1) k(1) n unfolding f(2) by (auto simp: bl_ok_def dest: in_set_dropD)
  moreover have "bl_content bl' = concat (map (\<lambda>s. s @ sep) (take n (bl_content bl))) # drop n (bl_content bl)"
    unfolding f(2) by (simp add: bl_content_def copy(2) take_map drop_map comp_def)
  moreover have "length (hd (bl_content bl')) \<le> max_len"
    using k(2,3) copy(2) unfolding f(2) by (simp add: bl_content_def)
  ultimately show ?thesis using n k(1) by (auto simp: bl_content_def)
qed (use assms in simp)

lemma buffer_list_aggregate_keeps_witness:
  "\<exists>bl bl'. buffer_list_push buffer_list_new (cstr ''ab'') \<bind> (\<lambda>ol. buffer_list_push ol (cstr ''c'')) = Some bl \<and>
     buffer_list_aggregate_separator bl 9 [10] = Some bl' \<and> bl_ok bl' \<and> bl_content bl' = [cstr ''ab'' @ [10] @ cstr ''c'' @ [10]]"
proof -
  define bl where "bl = the (buffer_list_push buffer_list_new (cstr ''ab'') \<bind> (\<lambda>ol. buffer_list_push ol (cstr ''c'')))"
  define bl' where "bl' = the (buffer_list_aggregate_separator bl 9 [10])"
  have push: "buffer_list_push buffer_list_new (cstr ''ab'') \<bind> (\<lambda>ol. buffer_list_push ol (cstr ''c'')) = Some bl"
    unfolding bl_def by code_simp
  have agg: "buffer_list_aggregate_separator bl 9 [10] = Some bl'" unfolding bl'_def bl_def by code_simp
  have "bl_ok buffer_list_new" by (simp add: bl_ok_def buffer_list_new_def)
  then have "bl_ok bl" using push by (auto intro: push_ok(1) split: Option.bind_splits)
  then have "bl_ok bl'" using buffer_list_aggregate_keeps [OF _ agg] by blast
  moreover have "bl_content bl' = [cstr ''ab'' @ [10] @ cstr ''c'' @ [10]]" unfolding bl'_def bl_def by code_simp
  ultimately show ?thesis using push agg by blast
qed

end
