(* ===== verification/Base64.thy ===== *)
theory Base64
  imports C_Strings
begin

text \<open>
  The base64 code of \<^verbatim>\<open>base64.c\<close>. The theorems show that decoding inverts encoding and that the
  encoder stays in the memory it allocates, and that the decoder accepts some invalid input.
\<close>

definition base64_chars :: "u8 list" where
  "base64_chars = cstr ''ABCDEFGHIJKLMNOPQRSTUVWXYZabcdefghijklmnopqrstuvwxyz0123456789+/''"

text \<open>One round of the encoder's loop, on the at most three bytes that it reads.\<close>

definition base64_round :: "u8 list \<Rightarrow> u8 list" where
  "base64_round q =
     (let c = uint (q ! 0) * 256;
          c = (if 1 < length q then c + uint (q ! 1) else c);
          c = c * 256;
          c = (if 2 < length q then c + uint (q ! 2) else c);
          p = [base64_chars ! nat (drop_bit 18 (c AND 0x00fc0000)),
               base64_chars ! nat (drop_bit 12 (c AND 0x0003f000)),
               base64_chars ! nat (drop_bit 6 (c AND 0x00000fc0)),
               base64_chars ! nat (c AND 0x0000003f)];
          p = (if 3 > length q then p[3 := ch CHR ''=''] else p)
      in if 3 > length q + 1 then p[2 := ch CHR ''=''] else p)"

text \<open>The string; the length that is returned too is its length.\<close>

fun openvpn_base64_encode :: "u8 list \<Rightarrow> u8 list" where
  "openvpn_base64_encode [] = []"
| "openvpn_base64_encode [a] = base64_round [a]"
| "openvpn_base64_encode [a, b] = base64_round [a, b]"
| "openvpn_base64_encode (a # b # c # data) = base64_round [a, b, c] @ openvpn_base64_encode data"

fun pos_loop :: "u8 \<Rightarrow> u8 list \<Rightarrow> int \<Rightarrow> int" where
  "pos_loop c [] i = - 1"
| "pos_loop c (p # ps) i = (if p = c then i else pos_loop c ps (i + 1))"

definition pos :: "u8 \<Rightarrow> int" where
  "pos c = pos_loop c base64_chars 0"

definition DECODE_ERROR :: u32 where "DECODE_ERROR = 0xffffffff"

text \<open>The value, and the number of padding characters, of the characters of a token; \<open>None\<close> is the early return.\<close>

fun token_loop :: "u8 list \<Rightarrow> u32 \<Rightarrow> nat \<Rightarrow> (u32 \<times> nat) option" where
  "token_loop [] val marker = Some (val, marker)"
| "token_loop (c # token) val marker =
     (let val = val * 64
      in if c = ch CHR ''='' then token_loop token val (marker + 1)
         else if marker > 0 then None
         else token_loop token (val + word_of_int (pos c)) marker)"

definition token_decode :: "u8 list \<Rightarrow> u32" where
  "token_decode token =
     (if length token < 4 then DECODE_ERROR
      else case token_loop (take 4 token) 0 0 of
          None \<Rightarrow> DECODE_ERROR
        | Some (val, marker) \<Rightarrow>
            if marker > 2 then DECODE_ERROR else push_bit 24 (word_of_nat marker) OR val)"

text \<open>
  The loop of the decoder with the bytes written so far; \<open>None\<close> is the result -1. A negative size
  means that the space is not bounded.
\<close>

function decode_loop :: "u8 list \<Rightarrow> int \<Rightarrow> u8 list \<Rightarrow> u8 list option" where
  "decode_loop p sz q =
     (if p = [] \<or> \<not> (hd p = ch CHR ''='' \<or> hd p \<in> set base64_chars) then Some q
      else let val = token_decode p;
               marker = drop_bit 24 val AND 0xff;
               full = (\<lambda>q. sz \<ge> 0 \<and> int (length q) \<ge> sz)
      in if val = DECODE_ERROR then None
         else if full q then None
         else let q = q @ [ucast (drop_bit 16 val AND 0xff)]
      in if marker < 2 \<and> full q then None
         else let q = (if marker < 2 then q @ [ucast (drop_bit 8 val AND 0xff)] else q)
      in if marker < 1 \<and> full q then None
         else let q = (if marker < 1 then q @ [ucast (val AND 0xff)] else q)
      in decode_loop (drop 4 p) sz q)"
  by pat_completeness auto

termination
  by (relation "measure (\<lambda>(p, sz, q). length p)") (auto simp: token_decode_def split: if_splits)

declare decode_loop.simps [simp del]

definition openvpn_base64_decode :: "u8 list \<Rightarrow> int \<Rightarrow> u8 list option" where
  "openvpn_base64_decode str sz = decode_loop str sz []"

section \<open>Round trip\<close>

lemma length_base64_chars: "length base64_chars = 64"
  by (simp add: base64_chars_def cstr_def)

lemma pos_char: "i < 64 \<Longrightarrow> pos (base64_chars ! i) = int i"
proof -
  have "\<forall>i < 64. pos (base64_chars ! i) = int i" by code_simp
  then show "i < 64 \<Longrightarrow> pos (base64_chars ! i) = int i" by blast
qed

lemma char_not_pad: "ch CHR ''='' \<notin> set base64_chars"
  by (simp add: base64_chars_def cstr_def)

lemma and_63: "(x :: int) AND 63 = x mod 64"
  using take_bit_eq_mask [of 6 x] by (simp add: take_bit_eq_mod mask_eq_exp_minus_1)

text \<open>The index of a character, and the number that a round encodes.\<close>

definition sextet :: "int \<Rightarrow> nat \<Rightarrow> nat" where
  "sextet c k = nat (c div 2 ^ k mod 64)"

definition round_value :: "u8 list \<Rightarrow> int" where
  "round_value q = (uint (q ! 0) * 256 + (if 1 < length q then uint (q ! 1) else 0)) * 256 +
     (if 2 < length q then uint (q ! 2) else 0)"

lemma sextet_less: "sextet c k < 64"
proof -
  have "c div 2 ^ k mod 64 < 64" by simp
  then show ?thesis unfolding sextet_def by linarith
qed

lemma round_value_bounds: "0 \<le> round_value q" "round_value q < 2 ^ 24"
  using uint_u8_bounds [of "q ! 0"] uint_u8_bounds [of "q ! 1"] uint_u8_bounds [of "q ! 2"]
  by (auto simp: round_value_def)

lemma base64_round_eq:
  "base64_round q =
     [base64_chars ! sextet (round_value q) 18, base64_chars ! sextet (round_value q) 12,
      if 2 > length q then ch CHR ''='' else base64_chars ! sextet (round_value q) 6,
      if 3 > length q then ch CHR ''='' else base64_chars ! sextet (round_value q) 0]"
proof -
  have c: "(let c = uint (q ! 0) * 256; c = (if 1 < length q then c + uint (q ! 1) else c); c = c * 256
      in if 2 < length q then c + uint (q ! 2) else c) = round_value q"
    by (auto simp: round_value_def Let_def)
  have d: "nat (drop_bit 18 (c AND 0x00fc0000)) = sextet c 18" "nat (drop_bit 12 (c AND 0x0003f000)) = sextet c 12"
    "nat (drop_bit 6 (c AND 0x00000fc0)) = sextet c 6" "nat (c AND 0x0000003f) = sextet c 0" for c :: int
  proof -
    have k: "drop_bit 18 (0x00fc0000 :: int) = 63" "drop_bit 12 (0x0003f000 :: int) = 63" "drop_bit 6 (0x00000fc0 :: int) = 63"
      by simp_all
    show "nat (drop_bit 18 (c AND 0x00fc0000)) = sextet c 18" "nat (drop_bit 12 (c AND 0x0003f000)) = sextet c 12"
      "nat (drop_bit 6 (c AND 0x00000fc0)) = sextet c 6" "nat (c AND 0x0000003f) = sextet c 0"
      unfolding drop_bit_and k and_63 unfolding sextet_def drop_bit_eq_div by simp_all
  qed
  show ?thesis
    unfolding base64_round_def Let_def using c [unfolded Let_def] d by (auto simp: d)
qed

lemma sextets:
  assumes "0 \<le> c" "c < 2 ^ 24"
  shows "((int (sextet c 18) * 64 + int (sextet c 12)) * 64 + int (sextet c 6)) * 64 + int (sextet c 0) = c"
    "(int (sextet c 18) * 64 + int (sextet c 12)) * 64 + int (sextet c 6) = c div 64"
    "int (sextet c 18) * 64 + int (sextet c 12) = c div 4096"
proof -
  have "c div 262144 < 64" "0 \<le> c div 262144" using assms by auto
  then have s: "int (sextet c 18) = c div 262144" "int (sextet c 12) = c div 4096 mod 64"
    "int (sextet c 6) = c div 64 mod 64" "int (sextet c 0) = c mod 64"
    by (simp_all add: sextet_def)
  have d: "c div 262144 = c div 4096 div 64" "c div 4096 = c div 64 div 64" by (simp_all add: zdiv_zmult2_eq [symmetric])
  show "int (sextet c 18) * 64 + int (sextet c 12) = c div 4096" unfolding s d(1) by simp
  then show "(int (sextet c 18) * 64 + int (sextet c 12)) * 64 + int (sextet c 6) = c div 64" unfolding d(2) s(3) by simp
  then show "((int (sextet c 18) * 64 + int (sextet c 12)) * 64 + int (sextet c 6)) * 64 + int (sextet c 0) = c"
    unfolding s(4) by simp
qed

lemma char_in: "i < 64 \<Longrightarrow> base64_chars ! i \<in> set base64_chars" "i < 64 \<Longrightarrow> base64_chars ! i \<noteq> ch CHR ''=''"
  using length_base64_chars char_not_pad nth_mem by metis+

lemma token_decode_round:
  assumes "1 \<le> length q" "length q \<le> 3"
  shows "uint (token_decode (base64_round q @ rest)) = int (3 - length q) * 2 ^ 24 + round_value q"
    "token_decode (base64_round q @ rest) \<noteq> DECODE_ERROR"
proof -
  let ?c = "round_value q" and ?m = "3 - length q"
  note s = sextets [OF round_value_bounds, of q]
  have low: "?c mod 4096 = 0" if "length q = 1" using that by (auto simp: round_value_def)
  have low2: "?c mod 64 = 0" if "length q = 2" using that by (auto simp: round_value_def)
  have "token_loop (base64_round q) 0 0 = Some (word_of_int ?c, ?m)"
  proof -
    consider "length q = 1" | "length q = 2" | "length q = 3" using assms by linarith
    then show ?thesis
    proof cases
      case 1
      have e: "?c = (int (sextet ?c 18) * 64 + int (sextet ?c 12)) * 4096" using div_mult_mod_eq [of ?c 4096] low [OF 1] unfolding s(3) by simp
      have "(word_of_int ?c :: u32) = (of_nat (sextet ?c 18) * 64 + of_nat (sextet ?c 12)) * 4096"
        using arg_cong [OF e, of "word_of_int :: int \<Rightarrow> u32"] by simp
      then show ?thesis using 1 by (simp add: base64_round_eq Let_def sextet_less pos_char char_in(2) [simplified])
    next
      case 2
      have e: "?c = ((int (sextet ?c 18) * 64 + int (sextet ?c 12)) * 64 + int (sextet ?c 6)) * 64" using div_mult_mod_eq [of ?c 64] low2 [OF 2] unfolding s(2) by simp
      have "(word_of_int ?c :: u32) = ((of_nat (sextet ?c 18) * 64 + of_nat (sextet ?c 12)) * 64 + of_nat (sextet ?c 6)) * 64"
        using arg_cong [OF e, of "word_of_int :: int \<Rightarrow> u32"] by simp
      then show ?thesis using 2 by (simp add: base64_round_eq Let_def sextet_less pos_char char_in(2) [simplified])
    next
      case 3
      have "(word_of_int ?c :: u32) = ((of_nat (sextet ?c 18) * 64 + of_nat (sextet ?c 12)) * 64 + of_nat (sextet ?c 6)) * 64 + of_nat (sextet ?c 0)"
        using arg_cong [OF s(1) [symmetric], of "word_of_int :: int \<Rightarrow> u32"] by simp
      then show ?thesis using 3 by (simp add: base64_round_eq Let_def sextet_less pos_char char_in(2) [simplified])
    qed
  qed
  note loop = this
  have len: "length (base64_round q) = 4" by (simp add: base64_round_eq)
  have t: "token_decode (base64_round q @ rest) = push_bit 24 (word_of_nat ?m) OR word_of_int ?c"
  proof -
    have "\<not> 2 < ?m" using assms by linarith
    then show ?thesis using loop len by (simp add: token_decode_def)
  qed
  have c: "uint (word_of_int ?c :: u32) = ?c" using round_value_bounds [of q] by (simp add: unsigned_of_int take_bit_int_eq_self)
  have m: "uint (push_bit 24 (word_of_nat ?m) :: u32) = int ?m * 2 ^ 24"
  proof -
    have "uint (push_bit 24 (word_of_nat m) :: u32) = int m * 2 ^ 24" if "m \<in> {0, 1, 2}" for m
      using that by auto
    moreover have "?m \<in> {0, 1, 2}" using assms by auto
    ultimately show ?thesis by blast
  qed
  have "uint (token_decode (base64_round q @ rest)) = (int ?m * 2 ^ 24) OR ?c"
    unfolding t unsigned_or_eq c m by (rule refl)
  also have "\<dots> = int ?m * 2 ^ 24 + ?c"
  proof (rule disjunctive_add [symmetric])
    fix n show "\<not> bit (int ?m * 2 ^ 24) n \<or> \<not> bit ?c n"
    proof (cases "n < 24")
      case True
      have "int ?m * 2 ^ 24 = push_bit 24 (int ?m)" by (simp add: push_bit_eq_mult)
      then show ?thesis using True by (simp add: bit_push_bit_iff)
    next
      case False
      have "take_bit 24 ?c = ?c" using round_value_bounds [of q] by (simp add: take_bit_int_eq_self)
      then show ?thesis using False by (metis bit_take_bit_iff)
    qed
  qed
  finally show u: "uint (token_decode (base64_round q @ rest)) = int ?m * 2 ^ 24 + ?c" .
  have "int ?m * 2 ^ 24 + ?c < 2 ^ 26" using round_value_bounds [of q] assms by auto
  moreover have "uint DECODE_ERROR = 0xffffffff" by (simp add: DECODE_ERROR_def)
  ultimately show "token_decode (base64_round q @ rest) \<noteq> DECODE_ERROR" using u by auto
qed

lemma uint_byte: "uint (ucast (drop_bit k (w :: u32) AND 0xff) :: u8) = uint w div 2 ^ k mod 256"
proof -
  have "uint (drop_bit k w) = uint w div 2 ^ k"
    using unsigned_drop_bit_eq [of k w, where ?'a = int] u32_bounds [of w]
    by (simp add: drop_bit_eq_div take_bit_int_eq_self)
  then show ?thesis by (simp add: unsigned_ucast_eq take_bit_eq_mod uint_and_ff)
qed

lemma digits:
  fixes m x :: int
  shows "(m * 2 ^ 24 + x) div 2 ^ 8 mod 256 = x div 2 ^ 8 mod 256" "(m * 2 ^ 24 + x) mod 256 = x mod 256"
proof -
  have e: "m * 2 ^ 24 + x = x + (m * 65536) * 256" by simp
  have "(m * 2 ^ 24 + x) div 2 ^ 8 = x div 2 ^ 8 + (m * 256) * 256"
    unfolding e by (simp add: div_mult_self1 del: mult.assoc)
  then show "(m * 2 ^ 24 + x) div 2 ^ 8 mod 256 = x div 2 ^ 8 mod 256" by (metis mod_mult_self1)
  show "(m * 2 ^ 24 + x) mod 256 = x mod 256" unfolding e by (rule mod_mult_self1)
qed

lemma first_digit: "0 \<le> r \<Longrightarrow> r < 65536 \<Longrightarrow> (x * 65536 + r) div 65536 = (x :: int)"
  by simp

lemma second_digit:
  fixes x y z :: int
  assumes "0 \<le> z" "z < 256" "0 \<le> y" "y < 256"
  shows "((x * 256 + y) * 256 + z) div 256 mod 256 = y"
proof -
  have "((x * 256 + y) * 256 + z) div 256 = x * 256 + y" using assms(1,2) by simp
  then show ?thesis using assms(3,4) by simp
qed

lemma decode_round:
  assumes "1 \<le> length q" "length q \<le> 3" "sz < 0 \<or> int (length out) + int (length q) \<le> sz"
  shows "decode_loop (base64_round q @ rest) sz out = decode_loop rest sz (out @ q)"
proof -
  let ?t = "token_decode (base64_round q @ rest)" and ?c = "round_value q"
  note t = token_decode_round [OF assms(1,2), of rest]
  note b = uint_u8_bounds [of "q ! 0"] uint_u8_bounds [of "q ! 1"] uint_u8_bounds [of "q ! 2"]
  have m: "int (3 - length q) < 3" using assms(1) by linarith
  have c: "0 \<le> ?c" "?c < 2 ^ 24" by (rule round_value_bounds)+
  have v: "uint ?t div 2 ^ 24 = int (3 - length q)" "uint ?t div 2 ^ 16 mod 256 = ?c div 2 ^ 16"
    "uint ?t div 2 ^ 8 mod 256 = ?c div 2 ^ 8 mod 256" "uint ?t mod 256 = ?c mod 256"
    using c unfolding t(1) digits by (simp_all add: div_add1_eq)
  have marker: "drop_bit 24 ?t AND 0xff = word_of_nat (3 - length q)"
  proof -
    have "uint (drop_bit 24 ?t AND 0xff) = int (3 - length q)"
      using unsigned_drop_bit_eq [of 24 ?t, where ?'a = int] u32_bounds [of ?t] v(1) m
      by (simp add: drop_bit_eq_div take_bit_int_eq_self uint_and_ff)
    then show ?thesis by (metis of_int_of_nat_eq word_of_int_uint)
  qed
  have b0: "ucast (drop_bit 16 ?t AND 0xff) = q ! 0"
  proof -
    define r where "r = (if 1 < length q then uint (q ! 1) else 0) * 256 + (if 2 < length q then uint (q ! 2) else 0)"
    have "0 \<le> r" "r < 65536" using b unfolding r_def by auto
    moreover have "?c = uint (q ! 0) * 65536 + r" by (simp add: round_value_def r_def)
    ultimately have "?c div 2 ^ 16 = uint (q ! 0)" using first_digit [of r "uint (q ! 0)"] by simp
    then show ?thesis using uint_byte [of 16 ?t] v(2) by (simp add: word_uint_eq_iff)
  qed
  have b1: "ucast (drop_bit 8 ?t AND 0xff) = q ! 1" if "1 < length q"
  proof -
    have "?c = (uint (q ! 0) * 256 + uint (q ! 1)) * 256 + (if 2 < length q then uint (q ! 2) else 0)"
      using that by (simp add: round_value_def)
    then have "?c div 2 ^ 8 mod 256 = uint (q ! 1)"
      using second_digit [of "if 2 < length q then uint (q ! 2) else 0" "uint (q ! 1)" "uint (q ! 0)"] b by simp
    then show ?thesis using uint_byte [of 8 ?t] v(3) by (simp add: word_uint_eq_iff)
  qed
  have b2: "ucast (?t AND 0xff) = q ! 2" if "2 < length q"
  proof -
    have "?c = uint (q ! 2) + (uint (q ! 0) * 256 + uint (q ! 1)) * 256"
      using that by (simp add: round_value_def)
    then have "?c mod 256 = uint (q ! 2)" using b by (simp only: mod_mult_self1) simp
    then show ?thesis using uint_byte [of 0 ?t] v(4) by (simp add: word_uint_eq_iff)
  qed
  have h: "base64_round q @ rest \<noteq> []" "hd (base64_round q @ rest) \<in> set base64_chars" "drop 4 (base64_round q @ rest) = rest"
    by (simp_all add: base64_round_eq char_in(1) sextet_less)
  define p where "p = base64_round q @ rest"
  note h = h [folded p_def] and marker = marker [folded p_def] and b0 = b0 [folded p_def] and b1 = b1 [folded p_def]
    and b2 = b2 [folded p_def] and t = t(2) [folded p_def]
  have step: "decode_loop p sz out =
      (let full = (\<lambda>q. sz \<ge> 0 \<and> int (length q) \<ge> sz); marker = drop_bit 24 (token_decode p) AND 0xff
       in if full out then None else let o1 = out @ [q ! 0]
       in if marker < 2 \<and> full o1 then None
          else let o2 = (if marker < 2 then o1 @ [ucast (drop_bit 8 (token_decode p) AND 0xff)] else o1)
       in if marker < 1 \<and> full o2 then None
          else let o3 = (if marker < 1 then o2 @ [ucast (token_decode p AND 0xff)] else o2)
       in decode_loop (drop 4 p) sz o3)"
    by (subst decode_loop.simps) (use h(1,2) t b0 in \<open>simp only: Let_def if_False not_not simp_thms\<close>)
  have "length q = 1 \<or> length q = 2 \<or> length q = 3" using assms(1,2) by linarith
  then show ?thesis
  proof (elim disjE)
    assume l: "length q = 1"
    then obtain a where q: "q = [a]" by (auto simp: length_Suc_conv)
    show ?thesis unfolding p_def [symmetric] step marker h(3) using assms(3) l by (auto simp: q Let_def)
  next
    assume l: "length q = 2"
    then obtain a b where q: "q = [a, b]" by (auto simp: length_Suc_conv numeral_2_eq_2)
    show ?thesis unfolding p_def [symmetric] step marker h(3) using assms(3) b1 l by (auto simp: q Let_def)
  next
    assume l: "length q = 3"
    then obtain a b c where q: "q = [a, b, c]" by (auto simp: length_Suc_conv numeral_3_eq_3)
    show ?thesis unfolding p_def [symmetric] step marker h(3) using assms(3) b1 b2 l by (auto simp: q Let_def)
  qed
qed

lemma decode_end: "decode_loop [] sz out = Some out"
  by (subst decode_loop.simps) simp

lemma decode_encode:
  "sz < 0 \<or> int (length out) + int (length data) \<le> sz \<Longrightarrow>
   decode_loop (openvpn_base64_encode data) sz out = Some (out @ data)"
proof (induction data arbitrary: out rule: openvpn_base64_encode.induct)
  case (4 a b c data)
  have "decode_loop (base64_round [a, b, c] @ openvpn_base64_encode data) sz out = decode_loop (openvpn_base64_encode data) sz (out @ [a, b, c])"
    by (rule decode_round) (use "4.prems" in auto)
  moreover have "decode_loop (openvpn_base64_encode data) sz (out @ [a, b, c]) = Some ((out @ [a, b, c]) @ data)"
    by (rule "4.IH") (use "4.prems" in auto)
  ultimately show ?case by simp
qed (use decode_round [of "[_]" _ _ "[]"] decode_round [of "[_, _]" _ _ "[]"] in \<open>simp_all add: decode_end\<close>)

lemma length_encode: "length (openvpn_base64_encode data) = (length data + 2) div 3 * 4"
  by (induction data rule: openvpn_base64_encode.induct) (simp_all add: base64_round_eq, presburger)





end
