(* ===== verification/Replay_Filter.thy ===== *)
theory Replay_Filter
  imports Vpn_Prelude
begin

text \<open>
  The contract of a replay filter, which both the data channel (\<^verbatim>\<open>packet_id.c\<close>) and the control
  channel (\<^verbatim>\<open>reliable.c\<close>) provide: a check of each arriving item against a state, after which the
  item's key, once accepted, is spent for ever. From it follows, once and for both, that no key
  is accepted twice in any run.
\<close>

text \<open>Feed a list of arrivals to a check; return the accepted ones and the last state.\<close>

fun run_filter :: "('s \<Rightarrow> 'e \<Rightarrow> (bool \<times> 's) option) \<Rightarrow> 's \<Rightarrow> 'e list \<Rightarrow> ('e list \<times> 's) option" where
  "run_filter check s [] = Some ([], s)"
| "run_filter check s (e # es) =
     do { (ok, s) \<leftarrow> check s e;
          (acc, s) \<leftarrow> run_filter check s es;
          Some (if ok then e # acc else acc, s) }"

locale replay_filter =
  fixes check :: "'s \<Rightarrow> 'e \<Rightarrow> (bool \<times> 's) option"
    and key :: "'e \<Rightarrow> 'k"
    and inv :: "'s \<Rightarrow> bool"
    and good :: "'e \<Rightarrow> bool"
    and spent :: "'s \<Rightarrow> 'k \<Rightarrow> bool"
  assumes check_total: "inv s \<Longrightarrow> good e \<Longrightarrow> check s e \<noteq> None"
    and check_inv: "inv s \<Longrightarrow> good e \<Longrightarrow> check s e = Some (ok, s') \<Longrightarrow> inv s'"
    and spent_rejected: "inv s \<Longrightarrow> good e \<Longrightarrow> spent s (key e) \<Longrightarrow> check s e = Some (ok, s') \<Longrightarrow> \<not> ok"
    and accepted_spent: "inv s \<Longrightarrow> good e \<Longrightarrow> check s e = Some (True, s') \<Longrightarrow> spent s' (key e)"
    and spent_stays: "inv s \<Longrightarrow> good e \<Longrightarrow> spent s k \<Longrightarrow> check s e = Some (ok, s') \<Longrightarrow> spent s' k"
begin

lemma run_total:
  "inv s \<Longrightarrow> list_all good es \<Longrightarrow> \<exists>acc s'. run_filter check s es = Some (acc, s') \<and> inv s'"
proof (induction es arbitrary: s)
  case (Cons e es)
  then obtain ok s1 where s1: "check s e = Some (ok, s1)" using check_total [of s e] by auto
  with Cons.prems have "inv s1" using check_inv [of s e] by auto
  with Cons.IH [of s1] Cons.prems s1 show ?case by auto
qed simp

lemma run_spent:
  "inv s \<Longrightarrow> list_all good es \<Longrightarrow> run_filter check s es = Some (acc, s') \<Longrightarrow> spent s k \<Longrightarrow>
   spent s' k \<and> k \<notin> key ` set acc"
proof (induction es arbitrary: s acc)
  case (Cons e es)
  from Cons.prems(3) obtain ok s1 acc1 where s1: "check s e = Some (ok, s1)"
    and run: "run_filter check s1 es = Some (acc1, s')" and acc: "acc = (if ok then e # acc1 else acc1)"
    by (auto simp: bind_eq_Some_conv split: prod.splits)
  have e: "good e" "list_all good es" using Cons.prems(2) by auto
  have "inv s1" "spent s1 k"
    using check_inv [OF Cons.prems(1) e(1) s1] spent_stays [OF Cons.prems(1) e(1) Cons.prems(4) s1] .
  then have "spent s' k \<and> k \<notin> key ` set acc1" using Cons.IH e(2) run by blast
  moreover have "ok \<Longrightarrow> key e \<noteq> k"
    using spent_rejected [OF Cons.prems(1) e(1) _ s1] Cons.prems(4) by auto
  ultimately show ?case by (auto simp: acc)
qed simp

lemma run_accepts_once:
  "inv s \<Longrightarrow> list_all good es \<Longrightarrow> run_filter check s es = Some (acc, s') \<Longrightarrow> distinct (map key acc)"
proof (induction es arbitrary: s acc)
  case (Cons e es)
  from Cons.prems(3) obtain ok s1 acc1 where s1: "check s e = Some (ok, s1)"
    and run: "run_filter check s1 es = Some (acc1, s')" and acc: "acc = (if ok then e # acc1 else acc1)"
    by (auto simp: bind_eq_Some_conv split: prod.splits)
  have e: "good e" "list_all good es" using Cons.prems(2) by auto
  have inv: "inv s1" using check_inv [OF Cons.prems(1) e(1) s1] .
  show ?case
  proof (cases ok)
    case True
    then have "spent s1 (key e)" using accepted_spent [OF Cons.prems(1) e(1), of s1] s1 by simp
    then show ?thesis
      using Cons.IH [OF inv e(2) run] run_spent [OF inv e(2) run] True by (auto simp: acc)
  qed (use Cons.IH [OF inv e(2) run] acc in simp)
qed simp

end

end
