(* ===== verification/Reliable.thy ===== *)
theory Reliable
  imports Buffer Replay_Filter
begin

text \<open>
  The reliability layer of the control channel (\<^verbatim>\<open>reliable.c\<close>, \<^verbatim>\<open>reliable.h\<close>,
  \<^verbatim>\<open>session_id.h\<close>): packet id arithmetic, acknowledgement records and their wire format, the
  send and receive windows with retransmission.

  A \<^verbatim>\<open>struct reliable_ack\<close> is the list of the first \<^verbatim>\<open>len\<close> ids of its array, and the array of a
  \<^verbatim>\<open>struct reliable\<close> is the list of its first \<^verbatim>\<open>size\<close> entries; nothing beyond them is read. A
  pointer to an entry or to its buffer is the entry's index.
\<close>

section \<open>Session ids (session\_id.h)\<close>

type_synonym session_id = "u8 list"

definition SID_SIZE :: int where "SID_SIZE = 8"

definition session_id_zero :: session_id where "session_id_zero = replicate 8 0"

definition session_id_equal :: "session_id \<Rightarrow> session_id \<Rightarrow> bool" where
  "session_id_equal s1 s2 \<longleftrightarrow> s1 = s2"

definition session_id_defined :: "session_id \<Rightarrow> bool" where
  "session_id_defined s \<longleftrightarrow> s \<noteq> session_id_zero"

definition session_id_read :: "buffer \<Rightarrow> session_id option \<times> buffer" where
  "session_id_read b = buf_read b SID_SIZE"

definition session_id_write :: "session_id \<Rightarrow> buffer \<Rightarrow> buffer option" where
  "session_id_write s b = buf_write b s"

definition session_id_write_prepend :: "session_id \<Rightarrow> buffer \<Rightarrow> buffer option" where
  "session_id_write_prepend s b = buf_write_prepend b s"

section \<open>Packet id arithmetic\<close>

definition subtract_pid :: "u32 \<Rightarrow> u32 \<Rightarrow> u32" where
  "subtract_pid test base =
     (if test \<ge> base then test - base else (test + 0x80000000) - (base + 0x80000000))"

definition reliable_pid_in_range1 :: "u32 \<Rightarrow> u32 \<Rightarrow> u32 \<Rightarrow> bool" where
  "reliable_pid_in_range1 test base extent \<longleftrightarrow> subtract_pid test base < extent"

definition reliable_pid_in_range2 :: "u32 \<Rightarrow> u32 \<Rightarrow> u32 \<Rightarrow> bool" where
  "reliable_pid_in_range2 test base extent \<longleftrightarrow>
     (if base + extent \<ge> base then test < base + extent
      else test + 0x80000000 < (base + 0x80000000) + extent)"

definition reliable_pid_min :: "u32 \<Rightarrow> u32 \<Rightarrow> bool" where
  "reliable_pid_min p1 p2 \<longleftrightarrow> \<not> reliable_pid_in_range1 p1 p2 0x80000000"

section \<open>Acknowledgement records\<close>

type_synonym reliable_ack = "u32 list"

definition RELIABLE_ACK_SIZE :: nat where "RELIABLE_ACK_SIZE = 8"

text \<open>The macro \<^verbatim>\<open>ACK_SIZE(n)\<close>.\<close>

definition ACK_SIZE :: "nat \<Rightarrow> int" where
  "ACK_SIZE n = 1 + (if n \<noteq> 0 then SID_SIZE else 0) + 4 * int n"

definition reliable_ack_packet_id_present :: "reliable_ack \<Rightarrow> u32 \<Rightarrow> bool" where
  "reliable_ack_packet_id_present ack pid \<longleftrightarrow> list_ex (\<lambda>i. i = pid) ack"

definition reliable_ack_read_packet_id :: "buffer \<Rightarrow> u32 option \<times> buffer" where
  "reliable_ack_read_packet_id b =
     (case buf_read b 4 of (None, b) \<Rightarrow> (None, b) | (Some n, b) \<Rightarrow> (Some (of_be32 n), b))"

definition reliable_ack_acknowledge_packet_id :: "reliable_ack \<Rightarrow> u32 \<Rightarrow> bool \<times> reliable_ack" where
  "reliable_ack_acknowledge_packet_id ack pid =
     (if \<not> reliable_ack_packet_id_present ack pid \<and> length ack < RELIABLE_ACK_SIZE
      then (True, ack @ [pid]) else (False, ack))"

definition reliable_ack_empty :: "reliable_ack \<Rightarrow> bool" where
  "reliable_ack_empty ack \<longleftrightarrow> length ack = 0"

text \<open>The loop of \<^verbatim>\<open>reliable_ack_parse\<close>, with the number of ids still to be read.\<close>

fun reliable_ack_parse_loop :: "nat \<Rightarrow> buffer \<Rightarrow> reliable_ack \<Rightarrow> bool \<times> reliable_ack \<times> buffer" where
  "reliable_ack_parse_loop 0 b ack = (True, ack, b)"
| "reliable_ack_parse_loop (Suc n) b ack =
     (case buf_read b 4 of
        (None, b) \<Rightarrow> (False, ack, b)
      | (Some net_pid, b) \<Rightarrow>
          (if length ack \<ge> RELIABLE_ACK_SIZE then (False, ack, b)
           else reliable_ack_parse_loop n b (ack @ [of_be32 net_pid])))"

text \<open>
  Success, the acks, the remote session id (\<open>None\<close> where the C variable is left unset), and the
  buffer.
\<close>

definition reliable_ack_parse :: "buffer \<Rightarrow> bool \<times> reliable_ack \<times> session_id option \<times> buffer" where
  "reliable_ack_parse b =
     (case buf_read b 1 of
        (None, b) \<Rightarrow> (False, [], None, b)
      | (Some c, b) \<Rightarrow>
          (let count = unat (hd c) in
           case reliable_ack_parse_loop count b [] of
             (False, ack, b) \<Rightarrow> (False, ack, None, b)
           | (True, ack, b) \<Rightarrow>
               (if count \<noteq> 0
                then (case session_id_read b of
                        (None, b) \<Rightarrow> (False, ack, None, b)
                      | (Some s, b) \<Rightarrow> (True, ack, Some s, b))
                else (True, ack, None, b))))"

definition reliable_ack_read :: "buffer \<Rightarrow> session_id \<Rightarrow> bool \<times> reliable_ack \<times> buffer" where
  "reliable_ack_read b sid =
     (case reliable_ack_parse b of
        (False, ack, _, b) \<Rightarrow> (False, ack, b)
      | (True, ack, remote, b) \<Rightarrow>
          (let r = (case remote of None \<Rightarrow> [] | Some s \<Rightarrow> s) in
           if length ack \<ge> 1 \<and> (\<not> session_id_defined r \<or> \<not> session_id_equal r sid)
           then (False, ack, b) else (True, ack, b)))"

text \<open>
  The inner loop of \<^verbatim>\<open>copy_acks_to_lru\<close>: every slot takes the previous slot's id, until the id being
  inserted is found. The result is the new slots, the id moved out of the last one, and whether the id
  was found.
\<close>

fun lru_shift :: "u32 \<Rightarrow> u32 \<Rightarrow> u32 list \<Rightarrow> u32 list \<times> u32 \<times> bool" where
  "lru_shift ident move [] = ([], move, False)"
| "lru_shift ident move (x # xs) =
     (if x = ident then (move # xs, x, True)
      else case lru_shift ident x xs of (ys, m, found) \<Rightarrow> (move # ys, m, found))"

text \<open>One iteration of its outer loop.\<close>

definition lru_insert :: "u32 \<Rightarrow> reliable_ack \<Rightarrow> reliable_ack" where
  "lru_insert ident lru =
     (let lru = (if length lru = 0 then [ident] else lru) in
      case lru_shift ident ident lru of
        (ys, move, found) \<Rightarrow>
          (if \<not> found \<and> length ys < RELIABLE_ACK_SIZE then ys @ [move] else ys))"

definition copy_acks_to_lru :: "reliable_ack \<Rightarrow> reliable_ack \<Rightarrow> nat \<Rightarrow> reliable_ack option" where
  "copy_acks_to_lru ack lru n =
     (if length ack \<ge> n then Some (foldr lru_insert (take n ack) lru) else None)"

text \<open>Writing a list of ids, each write \<^verbatim>\<open>ASSERT\<close>ed.\<close>

fun write_pids :: "u32 list \<Rightarrow> buffer \<Rightarrow> buffer option" where
  "write_pids [] b = Some b"
| "write_pids (p # ps) b = do { b \<leftarrow> buf_write b (be32 p); write_pids ps b }"

text \<open>
  \<^verbatim>\<open>reliable_ack_write\<close>: \<open>None\<close> is a failed assertion; otherwise success, the acks still to be sent,
  the acks sent recently, and the buffer. The number of acks is cut off to a byte.
\<close>

definition reliable_ack_write ::
  "reliable_ack \<Rightarrow> reliable_ack \<Rightarrow> buffer \<Rightarrow> session_id \<Rightarrow> nat \<Rightarrow> bool \<Rightarrow>
   (bool \<times> reliable_ack \<times> reliable_ack \<times> buffer) option" where
  "reliable_ack_write ack lru b sid mx prepend =
     (let n = unat (word_of_nat (length ack) :: u8);
          n = (if n > mx then unat (word_of_nat mx :: u8) else n)
      in do { lru \<leftarrow> copy_acks_to_lru ack lru n;
              let total_acks = unat (word_of_nat (min mx (length lru)) :: u8);
              (case buf_sub b (ACK_SIZE total_acks) prepend of
                 (b, pos, sub) \<Rightarrow>
                   (if \<not> buf_defined sub then Some (False, ack, lru, b)
                    else do { sub \<leftarrow> buf_write_u8 sub (word_of_nat total_acks);
                              sub \<leftarrow> write_pids (take total_acks lru) sub;
                              sub \<leftarrow> (if total_acks \<noteq> 0
                                     then if session_id_defined sid then session_id_write sid sub else None
                                     else Some sub);
                              Some (True, if n \<noteq> 0 then drop n ack else ack, lru,
                                    buf_join b pos sub) })) })"

section \<open>The windows\<close>

record reliable_entry =
  active :: bool
  timeout :: int
  next_try :: time
  e_packet_id :: u32
  n_acks :: nat
  opcode :: int
  e_buf :: buffer

record reliable =
  initial_timeout :: int
  rel_packet_id :: u32
  rel_offset :: int
  hold :: bool
  rel_array :: "reliable_entry list"

definition RELIABLE_CAPACITY :: int where "RELIABLE_CAPACITY = 12"
definition N_ACK_RETRANSMIT :: nat where "N_ACK_RETRANSMIT = 3"
definition BIG_TIMEOUT :: int where "BIG_TIMEOUT = 60 * 60 * 24 * 7"

definition rel_size :: "reliable \<Rightarrow> nat" where
  "rel_size rel = length (rel_array rel)"

definition reliable_init :: "int \<Rightarrow> int \<Rightarrow> int \<Rightarrow> bool \<Rightarrow> reliable option" where
  "reliable_init buf_size off array_size hld =
     (if array_size > 0 \<and> array_size \<le> RELIABLE_CAPACITY
      then do { b \<leftarrow> alloc_buf buf_size;
                b \<leftarrow> buf_init b off;
                Some \<lparr>initial_timeout = 0, rel_packet_id = 0, rel_offset = off, hold = hld,
                  rel_array = replicate (nat array_size)
                    \<lparr>active = False, timeout = 0, next_try = 0, e_packet_id = 0, n_acks = 0,
                     opcode = 0, e_buf = b\<rparr>\<rparr> }
      else None)"

definition reliable_set_timeout :: "reliable \<Rightarrow> int \<Rightarrow> reliable" where
  "reliable_set_timeout rel t = rel\<lparr>initial_timeout := t\<rparr>"

definition reliable_empty :: "reliable \<Rightarrow> bool" where
  "reliable_empty rel \<longleftrightarrow> list_all (\<lambda>e. \<not> active e) (rel_array rel)"

definition purge_entry :: "u32 \<Rightarrow> reliable_entry \<Rightarrow> reliable_entry" where
  "purge_entry pid e =
     (if active e \<and> e_packet_id e = pid then e\<lparr>active := False\<rparr>
      else if active e \<and> e_packet_id e < pid then e\<lparr>n_acks := n_acks e + 1\<rparr>
      else e)"

definition reliable_send_purge :: "reliable \<Rightarrow> reliable_ack \<Rightarrow> reliable" where
  "reliable_send_purge rel ack =
     rel\<lparr>rel_array := fold (\<lambda>pid. map (purge_entry pid)) ack (rel_array rel)\<rparr>"

definition reliable_can_get :: "reliable \<Rightarrow> bool" where
  "reliable_can_get rel \<longleftrightarrow> list_ex (\<lambda>e. \<not> active e) (rel_array rel)"

definition reliable_not_replay :: "reliable \<Rightarrow> u32 \<Rightarrow> bool" where
  "reliable_not_replay rel pid \<longleftrightarrow>
     \<not> reliable_pid_min pid (rel_packet_id rel) \<and>
     \<not> list_ex (\<lambda>e. active e \<and> e_packet_id e = pid) (rel_array rel)"

definition reliable_wont_break_sequentiality :: "reliable \<Rightarrow> u32 \<Rightarrow> bool" where
  "reliable_wont_break_sequentiality rel pid \<longleftrightarrow>
     reliable_pid_in_range2 pid (rel_packet_id rel) (word_of_nat (rel_size rel))"

text \<open>The first entry with a property, as an index.\<close>

fun find_entry :: "(reliable_entry \<Rightarrow> bool) \<Rightarrow> reliable_entry list \<Rightarrow> nat option" where
  "find_entry P [] = None"
| "find_entry P (e # es) = (if P e then Some 0 else map_option Suc (find_entry P es))"

text \<open>A free buffer, initialised; the outer \<open>None\<close> is its failed \<^verbatim>\<open>ASSERT(buf_init(...))\<close>.\<close>

definition reliable_get_buf :: "reliable \<Rightarrow> (nat option \<times> reliable) option" where
  "reliable_get_buf rel =
     (case find_entry (\<lambda>e. \<not> active e) (rel_array rel) of
        None \<Rightarrow> Some (None, rel)
      | Some i \<Rightarrow>
          (let e = rel_array rel ! i in
           do { b \<leftarrow> buf_init (e_buf e) (rel_offset rel);
                Some (Some i, rel\<lparr>rel_array := (rel_array rel)[i := e\<lparr>e_buf := b\<rparr>]\<rparr>) }))"

text \<open>The loop that finds the lowest active packet id: \<open>None\<close> is \<^verbatim>\<open>!min_id_defined\<close>.\<close>

fun min_active :: "reliable_entry list \<Rightarrow> u32 option \<Rightarrow> u32 option" where
  "min_active [] m = m"
| "min_active (e # es) m =
     min_active es
       (if active e \<and> (case m of None \<Rightarrow> True | Some min_id \<Rightarrow> reliable_pid_min (e_packet_id e) min_id)
        then Some (e_packet_id e) else m)"

definition reliable_get_num_output_sequenced_available :: "reliable \<Rightarrow> int" where
  "reliable_get_num_output_sequenced_available rel =
     (case min_active (rel_array rel) None of
        None \<Rightarrow> int (rel_size rel)
      | Some min_id \<Rightarrow> sint (word_of_nat (rel_size rel) - subtract_pid (rel_packet_id rel) min_id))"

definition reliable_get_buf_output_sequenced :: "reliable \<Rightarrow> (nat option \<times> reliable) option" where
  "reliable_get_buf_output_sequenced rel =
     (case min_active (rel_array rel) None of
        None \<Rightarrow> reliable_get_buf rel
      | Some min_id \<Rightarrow>
          (if reliable_pid_in_range1 (rel_packet_id rel) min_id (word_of_nat (rel_size rel))
           then reliable_get_buf rel else Some (None, rel)))"

definition reliable_get_entry_sequenced :: "reliable \<Rightarrow> nat option" where
  "reliable_get_entry_sequenced rel =
     find_entry (\<lambda>e. active e \<and> e_packet_id e = rel_packet_id rel) (rel_array rel)"

definition reliable_can_send :: "time \<Rightarrow> reliable \<Rightarrow> bool" where
  "reliable_can_send nw rel \<longleftrightarrow>
     length (filter (\<lambda>e. active e \<and> (nw \<ge> next_try e \<or> n_acks e \<ge> N_ACK_RETRANSMIT)) (rel_array rel)) > 0 \<and>
     \<not> hold rel"

text \<open>The search loop of \<^verbatim>\<open>reliable_send\<close>: \<open>i\<close> is the index of the first entry of the list.\<close>

fun best_entry :: "time \<Rightarrow> nat \<Rightarrow> reliable_entry list \<Rightarrow> (nat \<times> reliable_entry) option \<Rightarrow> (nat \<times> reliable_entry) option" where
  "best_entry nw i [] best = best"
| "best_entry nw i (e # es) best =
     best_entry nw (Suc i) es
       (if active e \<and> (n_acks e \<ge> N_ACK_RETRANSMIT \<or> nw \<ge> next_try e)
        then (case best of
                None \<Rightarrow> Some (i, e)
              | Some (j, b) \<Rightarrow> if reliable_pid_min (e_packet_id e) (e_packet_id b) then Some (i, e) else best)
        else best)"

text \<open>The entry to send with its opcode, and the new state.\<close>

definition reliable_send :: "time \<Rightarrow> reliable \<Rightarrow> (nat \<times> int) option \<times> reliable" where
  "reliable_send nw rel =
     (case best_entry nw 0 (rel_array rel) None of
        None \<Rightarrow> (None, rel)
      | Some (i, e) \<Rightarrow>
          (Some (i, opcode e),
           rel\<lparr>rel_array := (rel_array rel)
                 [i := e\<lparr>next_try := nw + timeout e, timeout := timeout e * 2, n_acks := 0\<rparr>]\<rparr>))"

definition reliable_schedule_now :: "time \<Rightarrow> reliable \<Rightarrow> reliable" where
  "reliable_schedule_now nw rel =
     rel\<lparr>hold := False,
         rel_array := map (\<lambda>e. if active e then e\<lparr>next_try := nw, timeout := initial_timeout rel\<rparr> else e)
                        (rel_array rel)\<rparr>"

fun send_timeout_loop :: "time \<Rightarrow> reliable_entry list \<Rightarrow> int \<Rightarrow> int" where
  "send_timeout_loop nw [] r = r"
| "send_timeout_loop nw (e # es) r =
     (if active e
      then if next_try e \<le> nw then 0 else send_timeout_loop nw es (min_int r (next_try e - nw))
      else send_timeout_loop nw es r)"

definition reliable_send_timeout :: "time \<Rightarrow> reliable \<Rightarrow> int" where
  "reliable_send_timeout nw rel = send_timeout_loop nw (rel_array rel) BIG_TIMEOUT"

definition reliable_mark_active_incoming :: "reliable \<Rightarrow> nat \<Rightarrow> u32 \<Rightarrow> int \<Rightarrow> reliable option" where
  "reliable_mark_active_incoming rel i pid opc =
     (if i < rel_size rel \<and> \<not> reliable_pid_min pid (rel_packet_id rel)
      then Some (rel\<lparr>rel_array := (rel_array rel)
             [i := (rel_array rel ! i)\<lparr>active := True, e_packet_id := pid, opcode := opc,
                                      next_try := 0, timeout := 0, n_acks := 0\<rparr>]\<rparr>)
      else None)"

definition reliable_mark_active_outgoing :: "reliable \<Rightarrow> nat \<Rightarrow> int \<Rightarrow> reliable option" where
  "reliable_mark_active_outgoing rel i opc =
     (if i < rel_size rel
      then let e = rel_array rel ! i; pid = rel_packet_id rel in
           do { b \<leftarrow> buf_write_prepend (e_buf e) (be32 pid);
                Some (rel\<lparr>rel_packet_id := pid + 1,
                          rel_array := (rel_array rel)
                            [i := e\<lparr>e_packet_id := pid, e_buf := b, active := True, opcode := opc,
                                    next_try := 0, timeout := initial_timeout rel\<rparr>]\<rparr>) }
      else None)"

definition reliable_mark_deleted :: "reliable \<Rightarrow> nat \<Rightarrow> reliable option" where
  "reliable_mark_deleted rel i =
     (if i < rel_size rel
      then Some (rel\<lparr>rel_packet_id := e_packet_id (rel_array rel ! i) + 1,
                     rel_array := (rel_array rel)[i := (rel_array rel ! i)\<lparr>active := False\<rparr>]\<rparr>)
      else None)"

section \<open>Sequence number arithmetic\<close>

text \<open>The two branches of \<^verbatim>\<open>subtract_pid\<close> are the same wrapping subtraction.\<close>

lemma subtract_pid_eq [simp]: "subtract_pid test base = test - base"
  by (simp add: subtract_pid_def)

lemma reliable_pid_min_eq: "reliable_pid_min p1 p2 \<longleftrightarrow> 0x80000000 \<le> p1 - p2"
  by (simp add: reliable_pid_min_def reliable_pid_in_range1_def not_less)

lemma reliable_pid_min_refl [simp]: "\<not> reliable_pid_min p p"
  by (simp add: reliable_pid_min_eq)

text \<open>
  Up to half of the number space, \<^verbatim>\<open>reliable_pid_in_range2\<close> is the distance test that it means to be
  (together with the replay test, which bounds the distance).
\<close>

lemma unat_minus_u32:
  "unat (a - b :: u32) = (if unat b \<le> unat a then unat a - unat b else unat a + 2 ^ 32 - unat b)"
  using unat_sub_if' [of a b] by (simp add: word_size)

lemma unat_plus_u32:
  "unat (a + b :: u32) = (if unat a + unat b < 2 ^ 32 then unat a + unat b else unat a + unat b - 2 ^ 32)"
  using unat_plus_if' [of a b] by simp

lemma unat_u32_bound: "unat (a :: u32) < 2 ^ 32"
  using unsigned_less [of a] by simp

lemmas u32_arith = word_less_nat_alt word_le_nat_alt unat_minus_u32 unat_plus_u32

lemma in_range2_window:
  assumes "unat base \<le> 2 ^ 31" "unat extent \<le> 2 ^ 31" "\<not> reliable_pid_min pid base"
    "reliable_pid_in_range2 pid base extent"
  shows "pid - base < extent"
  using assms unat_u32_bound [of pid] unat_u32_bound [of base] unat_u32_bound [of extent]
  unfolding reliable_pid_min_eq reliable_pid_in_range2_def u32_arith
  by (auto split: if_splits)

lemma window_in_range2:
  assumes "unat base \<le> 2 ^ 31" "unat extent < 2 ^ 31" "pid - base < extent"
  shows "reliable_pid_in_range2 pid base extent" "\<not> reliable_pid_min pid base"
  using assms unat_u32_bound [of pid] unat_u32_bound [of base] unat_u32_bound [of extent]
  unfolding reliable_pid_min_eq reliable_pid_in_range2_def u32_arith
  by (auto split: if_splits)

section \<open>Searches\<close>

lemma find_entry_None: "find_entry P es = None \<longleftrightarrow> (\<forall>e \<in> set es. \<not> P e)"
  by (induction es) auto

lemma find_entry_Some:
  "find_entry P es = Some i \<Longrightarrow> i < length es \<and> P (es ! i) \<and> (\<forall>j < i. \<not> P (es ! j))"
proof (induction es arbitrary: i)
  case (Cons e es)
  show ?case
  proof (cases "P e")
    case False
    then obtain k where "find_entry P es = Some k" "i = Suc k" using Cons.prems by auto
    with Cons.IH [of k] False show ?thesis by (auto simp: less_Suc_eq_0_disj)
  qed (use Cons.prems in auto)
qed simp

lemma can_get_iff: "reliable_can_get rel \<longleftrightarrow> find_entry (\<lambda>e. \<not> active e) (rel_array rel) \<noteq> None"
  by (auto simp: reliable_can_get_def find_entry_None list_ex_iff)

section \<open>Recently sent acknowledgements\<close>

lemma lru_shift_spec:
  "case lru_shift ident mv xs of (ys, mv', found) \<Rightarrow>
     (found \<longleftrightarrow> ident \<in> set xs) \<and> length ys = length xs \<and>
     (if found then ys = mv # remove1 ident xs else ys @ [mv'] = mv # xs)"
proof (induction xs arbitrary: mv)
  case (Cons x xs)
  show ?case
    using Cons.IH [of x] by (cases "lru_shift ident x xs") auto
qed simp

lemma lru_shift_cases:
  assumes "lru_shift ident mv xs = (ys, mv', found)"
  shows "found \<longleftrightarrow> ident \<in> set xs"
    "found \<Longrightarrow> ys = mv # remove1 ident xs"
    "\<not> found \<Longrightarrow> ys @ [mv'] = mv # xs"
    "length ys = length xs"
  using lru_shift_spec [where ident = ident and mv = mv and xs = xs] assms by auto

text \<open>An insertion moves the id to the front and keeps the list within its capacity.\<close>

lemma lru_insert_eq:
  assumes "length lru \<le> RELIABLE_ACK_SIZE"
  shows "lru_insert ident lru = take RELIABLE_ACK_SIZE (ident # remove1 ident lru)"
proof (cases "lru = []")
  case False
  obtain ys mv found where s: "lru_shift ident ident lru = (ys, mv, found)"
    by (cases "lru_shift ident ident lru") auto
  note c = lru_shift_cases [OF s]
  show ?thesis
  proof (cases found)
    case True
    then have ys: "ys = ident # remove1 ident lru" by (rule c(2))
    have "length ys \<le> RELIABLE_ACK_SIZE" using c(4) assms by simp
    then have "take RELIABLE_ACK_SIZE ys = ys" by simp
    then show ?thesis using False True s ys by (simp add: lru_insert_def)
  next
    case nf: False
    then have ys: "ys @ [mv] = ident # lru" and r: "remove1 ident lru = lru"
      using c by (auto simp: remove1_idem)
    show ?thesis
    proof (cases "length ys < RELIABLE_ACK_SIZE")
      case True
      then have "length (ys @ [mv]) \<le> RELIABLE_ACK_SIZE" by simp
      then show ?thesis using True nf False s r ys by (simp add: lru_insert_def)
    next
      case full: False
      then have "length ys = RELIABLE_ACK_SIZE" using c(4) assms by simp
      then have "take RELIABLE_ACK_SIZE (ys @ [mv]) = ys" by simp
      then show ?thesis using full nf False s r ys by (simp add: lru_insert_def)
    qed
  qed
qed (simp add: lru_insert_def RELIABLE_ACK_SIZE_def)

lemma take_remove1_take: "take n (remove1 a (take (Suc n) xs)) = take n (remove1 a xs)"
proof (induction xs arbitrary: n)
  case (Cons x xs)
  then show ?case by (cases n) auto
qed simp

lemma foldr_lru_insert:
  assumes "distinct ids" "distinct lru" "length lru \<le> RELIABLE_ACK_SIZE"
  shows "foldr lru_insert ids lru = take RELIABLE_ACK_SIZE (ids @ filter (\<lambda>i. i \<notin> set ids) lru)"
  using assms(1)
proof (induction ids)
  case (Cons a ids)
  let ?xs = "ids @ filter (\<lambda>i. i \<notin> set ids) lru"
  have "remove1 a ?xs = ids @ filter (\<lambda>i. i \<notin> set (a # ids)) lru"
    using Cons.prems assms(2)
    by (simp add: remove1_append distinct_remove1_removeAll removeAll_filter_not_eq conj_commute eq_commute [of a])
  then have "take 7 (remove1 a (take 8 ?xs)) = take 7 (ids @ filter (\<lambda>i. i \<notin> set (a # ids)) lru)"
    using take_remove1_take [of 7 a ?xs] by simp
  moreover have "foldr lru_insert (a # ids) lru = take 8 (a # remove1 a (take 8 ?xs))"
    using Cons lru_insert_eq [of "take 8 ?xs" a] by (simp add: RELIABLE_ACK_SIZE_def)
  ultimately show ?case by (simp add: RELIABLE_ACK_SIZE_def take_Cons')
qed (use assms(3) in simp)

lemma copy_acks_to_lru_eq:
  "distinct (take n ack) \<Longrightarrow> distinct lru \<Longrightarrow> length lru \<le> RELIABLE_ACK_SIZE \<Longrightarrow> n \<le> length ack \<Longrightarrow>
   copy_acks_to_lru ack lru n =
     Some (take RELIABLE_ACK_SIZE (take n ack @ filter (\<lambda>i. i \<notin> set (take n ack)) lru))"
  using foldr_lru_insert [of "take n ack" lru] by (simp add: copy_acks_to_lru_def)

text \<open>
  The list of recently sent acknowledgements: sending \<open>n\<close> acknowledgements puts them, in their
  order, in front of the older ones that are not among them, cut off at the capacity of eight.
\<close>
lemma copy_acks_to_lru_spec:
  assumes "distinct (take n ack)" "distinct lru" "length lru \<le> RELIABLE_ACK_SIZE" "n \<le> length ack"
  shows "copy_acks_to_lru ack lru n =
    Some (take RELIABLE_ACK_SIZE (take n ack @ filter (\<lambda>i. i \<notin> set (take n ack)) lru))"
  using assms by (rule copy_acks_to_lru_eq)

theorem copy_acks_to_lru_spec_witness:
  "copy_acks_to_lru [7, 9, 8] [1, 9, 2, 3, 4, 5, 6, 10] 2 = Some [7, 9, 1, 2, 3, 4, 5, 6]"
  using copy_acks_to_lru_spec [of 2 "[7, 9, 8]" "[1, 9, 2, 3, 4, 5, 6, 10]"]
  by (simp add: RELIABLE_ACK_SIZE_def)

section \<open>Acknowledgement records on the wire\<close>

lemma write_pids_Some:
  assumes "buf_ok b" "write_pids ps b = Some b'"
  shows "buf_ok b' \<and> buf_bytes b' = buf_bytes b @ concat (map be32 ps) \<and>
    b_len b' = b_len b + 4 * int (length ps) \<and> b_offset b' = b_offset b \<and> b_capacity b' = b_capacity b"
  using assms
proof (induction ps b rule: write_pids.induct)
  case (2 p ps b)
  then obtain b1 where b1: "buf_write b (be32 p) = Some b1" "write_pids ps b1 = Some b'"
    by (auto simp: bind_eq_Some_conv)
  note w = buf_write_Some [OF 2(2) b1(1)]
  show ?case using 2(1) [OF b1(1) w(1) b1(2)] w by simp
qed simp

lemma ack_parse_loop_reads:
  assumes "buf_ok b" "buf_bytes b = concat (map be32 ps) @ rest"
    "length acks + length ps \<le> RELIABLE_ACK_SIZE"
  shows "\<exists>b'. reliable_ack_parse_loop (length ps) b acks = (True, acks @ ps, b') \<and> buf_ok b' \<and>
    buf_bytes b' = rest"
  using assms
proof (induction ps arbitrary: b acks)
  case (Cons p ps)
  obtain b1 where b1: "buf_read b 4 = (Some (be32 p), b1)" "buf_ok b1"
    "buf_bytes b1 = concat (map be32 ps) @ rest"
    using bufq.get_u32 [OF Cons.prems(1), of p "concat (map be32 ps) @ rest"] Cons.prems(2) by auto
  with Cons.IH [of b1 "acks @ [p]"] Cons.prems(3) show ?case by auto
qed simp


definition ack_record :: "u32 list \<Rightarrow> session_id \<Rightarrow> u8 list" where
  "ack_record pids sid =
     word_of_nat (length pids) # concat (map be32 pids) @ (if pids = [] then [] else sid)"

lemma length_concat_be32: "length (concat (map be32 pids)) = 4 * length pids"
  by (induction pids) auto

lemma length_ack_record:
  "length sid = 8 \<Longrightarrow> int (length (ack_record pids sid)) = ACK_SIZE (length pids)"
  by (simp add: ack_record_def ACK_SIZE_def SID_SIZE_def length_concat_be32)

lemma u8_of_nat_small: "n \<le> RELIABLE_ACK_SIZE \<Longrightarrow> unat (word_of_nat n :: u8) = n"
  by (simp add: RELIABLE_ACK_SIZE_def unat_of_nat)

text \<open>Parsing an acknowledgement record that fits the capacity.\<close>

lemma ack_parse_record:
  assumes "buf_ok b" "buf_bytes b = ack_record pids sid @ rest" "length pids \<le> RELIABLE_ACK_SIZE"
    "length sid = 8"
  shows "\<exists>b'. reliable_ack_parse b = (True, pids, if pids = [] then None else Some sid, b') \<and>
    buf_ok b' \<and> buf_bytes b' = rest"
proof -
  have "buf_bytes b = word_of_nat (length pids) #
      (concat (map be32 pids) @ (if pids = [] then [] else sid) @ rest)"
    using assms(2) by (simp add: ack_record_def)
  then obtain b1 where b1: "buf_read b 1 = (Some [word_of_nat (length pids)], b1)" "buf_ok b1"
    "buf_bytes b1 = concat (map be32 pids) @ (if pids = [] then [] else sid) @ rest"
    using bufq.get_u8 [OF assms(1)] by blast
  obtain b2 where b2: "reliable_ack_parse_loop (length pids) b1 [] = (True, pids, b2)" "buf_ok b2"
    "buf_bytes b2 = (if pids = [] then [] else sid) @ rest"
    using ack_parse_loop_reads [OF b1(2,3), of "[]"] assms(3) by auto
  show ?thesis
  proof (cases "pids = []")
    case True
    then show ?thesis
      using b1(1) b2 u8_of_nat_small [OF assms(3)] by (simp add: reliable_ack_parse_def)
  next
    case False
    then have "buf_bytes b2 = sid @ rest" using b2(3) by simp
    then obtain b3 where "buf_read b2 (int (length sid)) = (Some sid, b3)" "buf_ok b3" "buf_bytes b3 = rest"
      using bufq.get_prefix [OF b2(2)] by blast
    then show ?thesis
      using False b1(1) b2 u8_of_nat_small [OF assms(3)] assms(4)
      by (simp add: reliable_ack_parse_def session_id_read_def SID_SIZE_def)
  qed
qed

text \<open>What \<^verbatim>\<open>reliable_ack_write\<close> prepends is such a record.\<close>

lemma ack_write_record:
  assumes "buf_ok b" "length sid = 8" "length ack \<le> RELIABLE_ACK_SIZE" "distinct ack"
    "length lru \<le> RELIABLE_ACK_SIZE" "distinct lru"
    "reliable_ack_write ack lru b sid mx True = Some (True, ack', lru', b')"
  shows "let n = min mx (length ack); sent = take mx lru' in
     lru' = take RELIABLE_ACK_SIZE (take n ack @ filter (\<lambda>i. i \<notin> set (take n ack)) lru) \<and>
     ack' = drop n ack \<and> buf_ok b' \<and> buf_bytes b' = ack_record sent sid @ buf_bytes b \<and>
     (sent \<noteq> [] \<longrightarrow> session_id_defined sid)"
proof -
  define n where "n = min mx (length ack)"
  define l2 where "l2 = take RELIABLE_ACK_SIZE (take n ack @ filter (\<lambda>i. i \<notin> set (take n ack)) lru)"
  define total where "total = min mx (length l2)"
  have la: "unat (word_of_nat (length ack) :: u8) = length ack" by (rule u8_of_nat_small [OF assms(3)])
  have n: "(if mx < length ack then unat (word_of_nat mx :: u8) else length ack) = n"
    using u8_of_nat_small [of mx] assms(3) by (auto simp: n_def)
  have lru: "copy_acks_to_lru ack lru n = Some l2"
    unfolding l2_def by (rule copy_acks_to_lru_eq) (use assms n_def in auto)
  have l2len: "length l2 \<le> RELIABLE_ACK_SIZE" by (simp add: l2_def)
  have tot: "unat (word_of_nat total :: u8) = total" 
    by (rule u8_of_nat_small) (use l2len in \<open>simp add: total_def\<close>)
  obtain b1 pos sub where bs: "buf_sub b (ACK_SIZE total) True = (b1, pos, sub)" by (metis prod_cases3)
  note w = assms(7) [unfolded reliable_ack_write_def Let_def la n lru bind.bind_lunit
    total_def [symmetric] tot bs prod.case]
  have fits: "ACK_SIZE total \<le> b_offset b"
  proof (rule ccontr)
    assume "\<not> ?thesis"
    then have "buf_prepend b (ACK_SIZE total) = None" by (simp add: buf_prepend_def)
    then have "sub = clear_buf" using bs by (simp add: buf_sub_def)
    then show False using w by (simp add: buf_defined_def clear_buf_def)
  qed
  have "0 \<le> ACK_SIZE total" by (simp add: ACK_SIZE_def SID_SIZE_def)
  from buf_sub_prepend [OF assms(1) this fits] bs
  have sub: "b1 = b\<lparr>b_offset := b_offset b - ACK_SIZE total, b_len := b_len b + ACK_SIZE total\<rparr>"
    "pos = b_offset b - ACK_SIZE total" "buf_ok sub" "b_offset sub = 0" "b_capacity sub = ACK_SIZE total"
    "b_len sub = 0" "buf_bytes sub = []"
    by (metis prod.inject)+
  have "buf_defined sub" using sub(3) by (auto simp: buf_ok_def buf_defined_def)
  with w obtain s1 s2 s3 where s1: "buf_write_u8 sub (word_of_nat total) = Some s1"
    and s2: "write_pids (take total l2) s1 = Some s2"
    and s3: "(if total \<noteq> 0 then if session_id_defined sid then session_id_write sid s2 else None
              else Some s2) = Some s3"
    and r: "ack' = (if n \<noteq> 0 then drop n ack else ack)" "lru' = l2" "b' = buf_join b1 pos s3"
    by (auto simp: bind_eq_Some_conv)
  have sent: "take mx l2 = take total l2" "length (take total l2) = total"
    by (auto simp: total_def min_def)
  note x1 = buf_write_Some [OF sub(3) s1 [unfolded buf_write_u8_def]]
  note x2 = write_pids_Some [OF x1(1) s2]
  have x3: "buf_ok s3 \<and> buf_bytes s3 = ack_record (take total l2) sid \<and> b_offset s3 = 0 \<and>
    b_capacity s3 = ACK_SIZE total"
  proof (cases "total = 0")
    case True
    then show ?thesis using s3 x1 x2 sub by (auto simp: ack_record_def)
  next
    case False
    then have "buf_write s2 sid = Some s3" using s3 by (auto simp: session_id_write_def split: if_splits)
    note x3 = buf_write_Some [OF conjunct1 [OF x2] this]
    have "take total l2 \<noteq> []" using sent(2) False by auto
    then show ?thesis using x1 x2 x3 sub sent(2) by (simp add: ack_record_def)
  qed
  have len: "int (length (ack_record (take total l2) sid)) = ACK_SIZE total"
    using length_ack_record [OF assms(2), of "take total l2"] sent(2) by simp
  have "b_len s3 = ACK_SIZE total" using length_buf_bytes [of s3] x3 len by simp
  then have mem: "b_mem s3 = ack_record (take total l2) sid" using full_b_mem [of s3] x3 by simp
  obtain b2 where b2: "buf_write_prepend b (ack_record (take total l2) sid) = Some b2"
    using buf_write_prepend_iff [OF assms(1)] fits len by metis
  have "b' = b2"
    using buf_join_prepend [OF assms(1) b2] by (simp add: r(3) buf_join_def sub(1,2) mem len)
  moreover have "take mx l2 \<noteq> [] \<longrightarrow> session_id_defined sid"
    using s3 sent by (auto split: if_splits)
  moreover have "ack' = drop n ack" using r(1) by simp
  ultimately show ?thesis
    unfolding Let_def n_def [symmetric] r(2) l2_def [symmetric] 
    using buf_write_prepend_Some(1,2) [OF assms(1) b2] sent(1) by simp
qed

text \<open>
  C22. Acknowledgements on the wire: the record that \<^verbatim>\<open>reliable_ack_write\<close> puts in front of a packet
  is parsed by the peer's \<^verbatim>\<open>reliable_ack_read\<close> to the same ids, the newest first, it is accepted
  by the session whose id it names and refused by any other, and the packet behind it is left whole.
\<close>
theorem reliable_ack_write_read:
  assumes "buf_ok b" "length sid = 8" "length ack \<le> RELIABLE_ACK_SIZE" "distinct ack"
    "length lru \<le> RELIABLE_ACK_SIZE" "distinct lru" "0 < mx" "ack \<noteq> []"
    "reliable_ack_write ack lru b sid mx True = Some (True, ack', lru', b')"
  shows "\<exists>pids b''. reliable_ack_read b' sid' = (sid' = sid, pids, b'') \<and>
    take (min mx (length ack)) pids @ ack' = ack \<and> set pids \<subseteq> set ack \<union> set lru \<and>
    buf_ok b'' \<and> buf_bytes b'' = buf_bytes b"
proof -
  define n where "n = min mx (length ack)"
  define pids where "pids = take mx lru'"
  note w = ack_write_record [OF assms(1-6,9), unfolded Let_def, folded n_def pids_def]
  have lru': "lru' = take RELIABLE_ACK_SIZE (take n ack @ filter (\<lambda>i. i \<notin> set (take n ack)) lru)"
    using w by blast
  have "length lru' \<le> RELIABLE_ACK_SIZE" unfolding lru' length_take by (rule min.cobounded2)
  then have "length pids \<le> RELIABLE_ACK_SIZE" by (simp add: pids_def)
  with ack_parse_record [of b' pids sid "buf_bytes b"] w assms(2) obtain b'' where
    p: "reliable_ack_parse b' = (True, pids, if pids = [] then None else Some sid, b'')"
    "buf_ok b''" "buf_bytes b'' = buf_bytes b"
    by metis
  have n: "0 < n" "n \<le> mx" "n \<le> length ack" "n \<le> RELIABLE_ACK_SIZE" using assms(3,7,8) by (auto simp: n_def)
  have "take n pids = take n (take n ack @ filter (\<lambda>i. i \<notin> set (take n ack)) lru)"
    using n by (simp add: pids_def lru' min_absorb1)
  also have "\<dots> = take n ack" using n by simp
  finally have tk: "take n pids = take n ack" .
  then have ne: "pids \<noteq> []" using n assms(8) by auto
  have "session_id_defined sid"
    using w ne by blast
  then have "reliable_ack_read b' sid' = (sid' = sid, pids, b'')"
    using p(1) ne by (auto simp: reliable_ack_read_def session_id_equal_def Suc_le_eq)
  moreover have "take n pids @ ack' = ack" using tk w by simp
  moreover have "set pids \<subseteq> set ack \<union> set lru"
    using set_take_subset [of mx lru'] set_take_subset [of n ack]
    by (auto simp: pids_def lru' dest!: in_set_takeD)
  ultimately show ?thesis using p(2,3) by (auto simp: n_def)
qed

definition demo_packet :: buffer where
  "demo_packet = \<lparr>b_capacity = 40, b_offset = 36, b_len = 2, b_data = Some (replicate 40 0)\<rparr>"

lemma demo_ack_write:
  "map_option fst (reliable_ack_write [7, 9] [3] demo_packet [1, 2, 3, 4, 5, 6, 7, 8] 4 True) = Some True"
  by code_simp

theorem reliable_ack_write_read_witness:
  "\<exists>ack' lru' b' pids b''.
     reliable_ack_write [7, 9] [3] demo_packet [1, 2, 3, 4, 5, 6, 7, 8] 4 True = Some (True, ack', lru', b') \<and>
     reliable_ack_read b' [1, 2, 3, 4, 5, 6, 7, 8] = (True, pids, b'') \<and> take 2 pids @ ack' = [7, 9]"
proof -
  obtain ack' lru' b' where w:
    "reliable_ack_write [7, 9] [3] demo_packet [1, 2, 3, 4, 5, 6, 7, 8] 4 True = Some (True, ack', lru', b')"
    using demo_ack_write by (cases "reliable_ack_write [7, 9] [3] demo_packet [1, 2, 3, 4, 5, 6, 7, 8] 4 True") auto
  have "buf_ok demo_packet" by (simp add: demo_packet_def buf_ok_def BUF_SIZE_MAX_def)
  from reliable_ack_write_read [OF this _ _ _ _ _ _ _ w, of "[1, 2, 3, 4, 5, 6, 7, 8]"]
  show ?thesis using w by (auto simp: RELIABLE_ACK_SIZE_def numeral_2_eq_2)
qed

end
