(* ===== verification/Control_Channel.thy ===== *)
theory Control_Channel
  imports Reliable
begin

text \<open>
  The control channel of \<^verbatim>\<open>ssl.c\<close>: how \<^verbatim>\<open>tls_pre_decrypt\<close> and \<^verbatim>\<open>tls_process_state\<close> drive the two
  \<^verbatim>\<open>struct reliable\<close> windows of a key state. A channel is the sending window of one peer, the receiving
  window of the other, and a network between them that may lose, repeat and reorder packets.
\<close>

section \<open>Receiving (\<^verbatim>\<open>tls_pre_decrypt\<close>)\<close>

definition P_ACK_V1 :: int where "P_ACK_V1 = 5"

text \<open>The incoming acknowledgements; \<open>False\<close> is \<^verbatim>\<open>goto error\<close>.\<close>

definition tls_receive_acks :: "reliable \<Rightarrow> session_id \<Rightarrow> buffer \<Rightarrow> bool \<times> reliable \<times> buffer" where
  "tls_receive_acks snd_rel sid b =
     (case reliable_ack_read b sid of
        (False, _, b) \<Rightarrow> (False, snd_rel, b)
      | (True, acks, b) \<Rightarrow> (True, reliable_send_purge snd_rel acks, b))"

text \<open>
  The incoming packet: \<open>None\<close> is a failed assertion; otherwise \<open>False\<close> for \<^verbatim>\<open>goto error\<close>, the receiving
  window, the acknowledgements to send, and what is left of the packet.
\<close>

definition tls_receive_data ::
  "reliable \<Rightarrow> reliable_ack \<Rightarrow> int \<Rightarrow> buffer \<Rightarrow> (bool \<times> reliable \<times> reliable_ack \<times> buffer) option" where
  "tls_receive_data rec acks opc b =
     (if opc \<noteq> P_ACK_V1 \<and> reliable_can_get rec
      then case reliable_ack_read_packet_id b of
             (None, b) \<Rightarrow> Some (True, rec, acks, b)
           | (Some ident, b) \<Rightarrow>
               (if reliable_wont_break_sequentiality rec ident
                then if reliable_not_replay rec ident
                     then do { (inb, rec) \<leftarrow> reliable_get_buf rec;
                               i \<leftarrow> inb;
                               (case buf_copy (e_buf (rel_array rec ! i)) b of
                                  None \<Rightarrow> Some (False, rec, acks, b)
                                | Some ib \<Rightarrow>
                                    do { rec \<leftarrow> reliable_mark_active_incoming
                                           (rec\<lparr>rel_array := (rel_array rec)[i := (rel_array rec ! i)\<lparr>e_buf := ib\<rparr>]\<rparr>)
                                           i ident opc;
                                         Some (True, rec, snd (reliable_ack_acknowledge_packet_id acks ident), b) }) }
                     else Some (True, rec, snd (reliable_ack_acknowledge_packet_id acks ident), b)
                else Some (True, rec, acks, b))
      else Some (True, rec, acks, b))"

text \<open>
  \<^verbatim>\<open>read_incoming_tls_ciphertext\<close> on the buffer of entry \<open>i\<close>; what the TLS library returns for the
  bytes is an argument. The result is success, the window, and whether the state changed, that is,
  the entry was consumed.
\<close>

definition read_incoming_tls_ciphertext ::
  "(u8 list \<Rightarrow> int) \<Rightarrow> reliable \<Rightarrow> nat \<Rightarrow> (bool \<times> reliable \<times> bool) option" where
  "read_incoming_tls_ciphertext write_ciphertext rec i =
     (let b = e_buf (rel_array rec ! i);
          status = (if b_len b \<noteq> 0 then write_ciphertext (buf_bytes b) else 1)
      in if b_len b \<noteq> 0 \<and> status = - 1 then Some (False, rec, False)
         else if status = 1
              then do { rec \<leftarrow> reliable_mark_deleted rec i; Some (True, rec, True) }
              else Some (True, rec, False))"

section \<open>A channel over an unreliable network\<close>

record channel =
  ch_send :: reliable
  ch_rec :: reliable
  ch_acks :: reliable_ack
  ch_lru :: reliable_ack
  ch_queued :: "u8 list list"
  ch_delivered :: "u8 list list"
  ch_net :: "(int \<times> u8 list) list"
  ch_ack_net :: "u32 list list"

text \<open>
  What can happen next. A packet that is lost is never the subject of an \<open>Arrive\<close>; one that is
  repeated or overtaken is the subject of several, or of a late one; the same for acknowledgements.
\<close>

datatype ch_event =
    Queue int "u8 list"
  | Transmit time
  | Reschedule time
  | Arrive nat
  | Consume
  | Send_acks nat
  | Acks_arrive nat

text \<open>A received datagram, as a buffer that it just fits.\<close>

definition datagram :: "u8 list \<Rightarrow> buffer" where
  "datagram bs = \<lparr>b_capacity = int (length bs), b_offset = 0, b_len = int (length bs), b_data = Some bs\<rparr>"

text \<open>
  A queued message is written to the buffer that the window hands out (\<^verbatim>\<open>write_outgoing_tls_ciphertext\<close>);
  events that are not enabled leave the channel as it is, and a failed assertion is \<open>None\<close>.
\<close>

definition queue_message :: "reliable \<Rightarrow> int \<Rightarrow> u8 list \<Rightarrow> (bool \<times> reliable) option" where
  "queue_message rel opc msg =
     do { (out, rel) \<leftarrow> reliable_get_buf_output_sequenced rel;
          (case out of
             None \<Rightarrow> Some (False, rel)
           | Some i \<Rightarrow>
               (case buf_write (e_buf (rel_array rel ! i)) msg of
                  None \<Rightarrow> Some (False, rel)
                | Some b \<Rightarrow>
                    do { rel \<leftarrow> reliable_mark_active_outgoing
                           (rel\<lparr>rel_array := (rel_array rel)[i := (rel_array rel ! i)\<lparr>e_buf := b\<rparr>]\<rparr>) i opc;
                         Some (True, rel) })) }"

fun ch_step :: "ch_event \<Rightarrow> channel \<Rightarrow> channel option" where
  "ch_step (Queue opc msg) c =
     do { (ok, rel) \<leftarrow> queue_message (ch_send c) opc msg;
          Some (c\<lparr>ch_send := rel, ch_queued := (if ok then ch_queued c @ [msg] else ch_queued c)\<rparr>) }"
| "ch_step (Transmit nw) c =
     (if reliable_can_send nw (ch_send c)
      then case reliable_send nw (ch_send c) of
             (None, _) \<Rightarrow> None
           | (Some (i, opc), rel) \<Rightarrow>
               Some (c\<lparr>ch_send := rel,
                       ch_net := ch_net c @ [(opc, buf_bytes (e_buf (rel_array rel ! i)))]\<rparr>)
      else Some c)"
| "ch_step (Reschedule nw) c = Some (c\<lparr>ch_send := reliable_schedule_now nw (ch_send c)\<rparr>)"
| "ch_step (Arrive k) c =
     (if k < length (ch_net c)
      then do { (ok, rec, acks, b) \<leftarrow>
                  tls_receive_data (ch_rec c) (ch_acks c) (fst (ch_net c ! k)) (datagram (snd (ch_net c ! k)));
                Some (c\<lparr>ch_rec := rec, ch_acks := acks\<rparr>) }
      else Some c)"
| "ch_step Consume c =
     (case reliable_get_entry_sequenced (ch_rec c) of
        None \<Rightarrow> Some c
      | Some i \<Rightarrow>
          do { (ok, rec, changed) \<leftarrow> read_incoming_tls_ciphertext (\<lambda>_. 1) (ch_rec c) i;
               Some (c\<lparr>ch_rec := rec,
                       ch_delivered := ch_delivered c @ [buf_bytes (e_buf (rel_array (ch_rec c) ! i))]\<rparr>) })"
| "ch_step (Send_acks mx) c =
     (let n = min mx (length (ch_acks c))
      in do { lru \<leftarrow> copy_acks_to_lru (ch_acks c) (ch_lru c) n;
              Some (c\<lparr>ch_acks := drop n (ch_acks c), ch_lru := lru,
                      ch_ack_net := ch_ack_net c @ [take mx lru]\<rparr>) })"
| "ch_step (Acks_arrive k) c =
     (if k < length (ch_ack_net c)
      then Some (c\<lparr>ch_send := reliable_send_purge (ch_send c) (ch_ack_net c ! k)\<rparr>) else Some c)"

fun ch_run :: "ch_event list \<Rightarrow> channel \<Rightarrow> channel option" where
  "ch_run [] c = Some c"
| "ch_run (e # es) c = do { c \<leftarrow> ch_step e c; ch_run es c }"

definition ch_init :: "int \<Rightarrow> int \<Rightarrow> int \<Rightarrow> int \<Rightarrow> int \<Rightarrow> channel option" where
  "ch_init buf_size off n_send n_rec packet_timeout =
     do { s \<leftarrow> reliable_init buf_size off n_send False;
          r \<leftarrow> reliable_init buf_size off n_rec False;
          Some \<lparr>ch_send = reliable_set_timeout s packet_timeout, ch_rec = r, ch_acks = [], ch_lru = [], ch_queued = [], ch_delivered = [],
                ch_net = [], ch_ack_net = []\<rparr> }"

section \<open>Well-formed windows\<close>

text \<open>All buffers of a window are well formed and of one capacity, with room for the headroom.\<close>

definition rel_ok :: "int \<Rightarrow> reliable \<Rightarrow> bool" where
  "rel_ok cap rel \<longleftrightarrow>
     (\<forall>i < rel_size rel. buf_ok (e_buf (rel_array rel ! i)) \<and> b_capacity (e_buf (rel_array rel ! i)) = cap) \<and>
     4 \<le> rel_offset rel \<and> rel_offset rel \<le> cap \<and> 0 < rel_size rel \<and> rel_size rel \<le> 12"

text \<open>An entry of the window is active with sequence number \<open>j\<close> and the given bytes.\<close>

definition slot :: "reliable \<Rightarrow> nat \<Rightarrow> u32 \<Rightarrow> u8 list \<Rightarrow> bool" where
  "slot rel i pid bs \<longleftrightarrow> i < rel_size rel \<and> active (rel_array rel ! i) \<and>
     e_packet_id (rel_array rel ! i) = pid \<and> buf_bytes (e_buf (rel_array rel ! i)) = bs"

lemma reliable_init_ok:
  assumes "reliable_init n off k h = Some rel" "0 \<le> n" "4 \<le> off" "off \<le> n"
  shows "rel_ok n rel" "rel_packet_id rel = 0" "\<not> slot rel i pid bs" "rel_size rel = nat k"
proof -
  from assms obtain b0 b where b: "0 < k" "k \<le> 12" "alloc_buf n = Some b0" "buf_init b0 off = Some b"
    "rel = \<lparr>initial_timeout = 0, rel_packet_id = 0, rel_offset = off, hold = h,
       rel_array = replicate (nat k) \<lparr>active = False, timeout = 0, next_try = 0, e_packet_id = 0,
         n_acks = 0, opcode = 0, e_buf = b\<rparr>\<rparr>"
    by (auto simp: reliable_init_def RELIABLE_CAPACITY_def bind_eq_Some_conv split: if_splits)
  note a = alloc_buf_ok [OF b(3) assms(2)]
  note i = buf_init_Some [OF a(1) b(4)]
  show "rel_ok n rel" "rel_packet_id rel = 0" "\<not> slot rel i pid bs" "rel_size rel = nat k"
    using assms(3,4) b(1,2) a i by (auto simp: rel_ok_def rel_size_def slot_def b(5))
qed

text \<open>A free entry, initialised.\<close>

lemma get_buf_cases:
  assumes "rel_ok cap rel"
  obtains (none) "reliable_get_buf rel = Some (None, rel)" "\<not> reliable_can_get rel"
  | (some) i rel' b where "reliable_get_buf rel = Some (Some i, rel')" "i < rel_size rel"
      "\<not> active (rel_array rel ! i)" "buf_ok b" "buf_bytes b = []" "b_offset b = rel_offset rel"
      "b_len b = 0" "b_capacity b = cap"
      "rel' = rel\<lparr>rel_array := (rel_array rel)[i := (rel_array rel ! i)\<lparr>e_buf := b\<rparr>]\<rparr>"
proof (cases "find_entry (\<lambda>e. \<not> active e) (rel_array rel)")
  case None
  then show ?thesis using none by (simp add: reliable_get_buf_def can_get_iff)
next
  case (Some i)
  then have i: "i < rel_size rel" "\<not> active (rel_array rel ! i)"
    using find_entry_Some [OF Some] by (simp_all add: rel_size_def)
  then have "buf_ok (e_buf (rel_array rel ! i))" "b_capacity (e_buf (rel_array rel ! i)) = cap"
    "0 \<le> rel_offset rel" "rel_offset rel \<le> cap"
    using assms by (auto simp: rel_ok_def)
  then obtain b where b: "buf_init (e_buf (rel_array rel ! i)) (rel_offset rel) = Some b" "buf_ok b"
    "buf_bytes b = []" "b_offset b = rel_offset rel" "b_len b = 0" "b_capacity b = cap"
    using buf_init_ok [of "e_buf (rel_array rel ! i)" "rel_offset rel"] by metis
  then have "reliable_get_buf rel =
      Some (Some i, rel\<lparr>rel_array := (rel_array rel)[i := (rel_array rel ! i)\<lparr>e_buf := b\<rparr>]\<rparr>)"
    using Some by (simp add: reliable_get_buf_def Let_def)
  then show ?thesis using some i b by blast
qed

lemma rel_size_update [simp]: "rel_size (rel\<lparr>rel_array := (rel_array rel)[i := e]\<rparr>) = rel_size rel"
  by (simp add: rel_size_def)

text \<open>Replacing an entry.\<close>

lemma rel_ok_update:
  "i < rel_size rel \<Longrightarrow> rel_ok cap rel \<Longrightarrow> buf_ok (e_buf e) \<Longrightarrow> b_capacity (e_buf e) = cap \<Longrightarrow>
   rel_ok cap (rel\<lparr>rel_packet_id := p, rel_array := (rel_array rel)[i := e]\<rparr>)"
  by (auto simp: rel_ok_def rel_size_def nth_list_update)

lemma slot_update:
  "i < rel_size rel \<Longrightarrow>
   slot (rel\<lparr>rel_packet_id := p, rel_array := (rel_array rel)[i := e]\<rparr>) k pid bs \<longleftrightarrow>
   (if k = i then active e \<and> e_packet_id e = pid \<and> buf_bytes (e_buf e) = bs else slot rel k pid bs)"
  by (auto simp: slot_def rel_size_def nth_list_update)

lemma slot_update':
  "i < rel_size rel \<Longrightarrow>
   slot (rel\<lparr>rel_array := (rel_array rel)[i := e]\<rparr>) k pid bs \<longleftrightarrow>
   (if k = i then active e \<and> e_packet_id e = pid \<and> buf_bytes (e_buf e) = bs else slot rel k pid bs)"
  by (auto simp: slot_def rel_size_def nth_list_update)

lemma slot_free: "\<not> active (rel_array rel ! i) \<Longrightarrow> \<not> slot rel i pid bs"
  by (simp add: slot_def)


section \<open>The sending window\<close>

definition send_window :: "reliable \<Rightarrow> bool" where
  "send_window rel \<longleftrightarrow>
     (\<forall>i pid bs. slot rel i pid bs \<longrightarrow>
        0 < unat (rel_packet_id rel - pid) \<and> unat (rel_packet_id rel - pid) \<le> rel_size rel) \<and>
     (\<forall>i k pid bs cs. slot rel i pid bs \<longrightarrow> slot rel k pid cs \<longrightarrow> i = k)"

text \<open>Within a window, the order of \<^verbatim>\<open>reliable_pid_min\<close> is the order of age.\<close>

lemma pid_min_age:
  assumes "unat (r - p) \<le> 2 ^ 30" "unat (r - m) \<le> 2 ^ 30"
  shows "reliable_pid_min p m \<longleftrightarrow> unat (r - m) < unat (r - p)"
  using assms unat_u32_bound [of r] unat_u32_bound [of p] unat_u32_bound [of m]
  unfolding reliable_pid_min_eq u32_arith by (auto split: if_splits)

lemma min_active_oldest:
  assumes "\<forall>e \<in> set es. active e \<longrightarrow> unat (r - e_packet_id e) \<le> 2 ^ 30"
    "\<forall>m. acc = Some m \<longrightarrow> unat (r - m) \<le> 2 ^ 30"
  shows "case min_active es acc of
      None \<Rightarrow> acc = None \<and> (\<forall>e \<in> set es. \<not> active e)
    | Some m \<Rightarrow> (acc = Some m \<or> (\<exists>e \<in> set es. active e \<and> e_packet_id e = m)) \<and>
        (\<forall>e \<in> set es. active e \<longrightarrow> unat (r - e_packet_id e) \<le> unat (r - m)) \<and>
        (\<forall>a. acc = Some a \<longrightarrow> unat (r - a) \<le> unat (r - m))"
  using assms
proof (induction es arbitrary: acc)
  case (Cons e es)
  have age: "unat (r - e_packet_id e) \<le> 2 ^ 30" if "active e" using Cons.prems(1) that by simp
  show ?case
  proof (cases "active e \<and> (case acc of None \<Rightarrow> True | Some m \<Rightarrow> reliable_pid_min (e_packet_id e) m)")
    case True
    have older: "unat (r - a) < unat (r - e_packet_id e)" if "acc = Some a" for a
      using True that Cons.prems(2) age pid_min_age [of r "e_packet_id e" a] by auto
    obtain m where m: "min_active es (Some (e_packet_id e)) = Some m"
      "e_packet_id e = m \<or> (\<exists>e \<in> set es. active e \<and> e_packet_id e = m)"
      "\<forall>e \<in> set es. active e \<longrightarrow> unat (r - e_packet_id e) \<le> unat (r - m)"
      "unat (r - e_packet_id e) \<le> unat (r - m)"
      using Cons.IH [of "Some (e_packet_id e)"] Cons.prems(1) age True by (auto split: option.splits)
    have "\<forall>a. acc = Some a \<longrightarrow> unat (r - a) \<le> unat (r - m)"
      using older m(4) less_imp_le le_trans by blast
    with True m show ?thesis by auto
  next
    case False
    have younger: "\<exists>a. acc = Some a \<and> unat (r - e_packet_id e) \<le> unat (r - a)" if "active e"
    proof (cases acc)
      case (Some a)
      then show ?thesis using that False Cons.prems(2) age pid_min_age [of r "e_packet_id e" a] by auto
    qed (use that False in simp)
    note ih = Cons.IH [of acc]
    show ?thesis
    proof (cases "min_active es acc")
      case None
      then show ?thesis using ih Cons.prems False younger by auto
    next
      case (Some m)
      then have "\<forall>a. acc = Some a \<longrightarrow> unat (r - a) \<le> unat (r - m)" using ih Cons.prems by simp
      then have "active e \<longrightarrow> unat (r - e_packet_id e) \<le> unat (r - m)" using younger le_trans by blast
      with Some show ?thesis using ih Cons.prems False by auto
    qed
  qed
qed (simp split: option.splits)

lemma slot_of_active:
  assumes "e \<in> set (rel_array rel)" "active e"
  obtains i where "slot rel i (e_packet_id e) (buf_bytes (e_buf e))"
  using assms by (auto simp: in_set_conv_nth slot_def rel_size_def)

lemma oldest_unacked:
  assumes "send_window rel" "rel_size rel \<le> 12"
  shows "case min_active (rel_array rel) None of
      None \<Rightarrow> \<forall>i pid bs. \<not> slot rel i pid bs
    | Some m \<Rightarrow> (\<exists>i bs. slot rel i m bs) \<and>
        (\<forall>i pid bs. slot rel i pid bs \<longrightarrow>
           unat (rel_packet_id rel - pid) \<le> unat (rel_packet_id rel - m))"
proof -
  have "\<forall>e \<in> set (rel_array rel). active e \<longrightarrow> unat (rel_packet_id rel - e_packet_id e) \<le> 2 ^ 30"
  proof (intro ballI impI)
    fix e assume "e \<in> set (rel_array rel)" "active e"
    then obtain i where "slot rel i (e_packet_id e) (buf_bytes (e_buf e))" by (rule slot_of_active)
    then have "unat (rel_packet_id rel - e_packet_id e) \<le> 12"
      using assms order_trans unfolding send_window_def by blast
    then show "unat (rel_packet_id rel - e_packet_id e) \<le> 2 ^ 30" by simp
  qed
  note old = min_active_oldest [OF this, of None]
  show ?thesis
  proof (cases "min_active (rel_array rel) None")
    case None
    then show ?thesis using old by (auto simp: slot_def rel_size_def)
  next
    case (Some m)
    with old obtain e where e: "e \<in> set (rel_array rel)" "active e" "e_packet_id e = m" by auto
    have "\<exists>i bs. slot rel i m bs" using slot_of_active [OF e(1,2)] e(3) by metis
    moreover have "\<forall>i pid bs. slot rel i pid bs \<longrightarrow>
        unat (rel_packet_id rel - pid) \<le> unat (rel_packet_id rel - m)"
      using old Some by (auto simp: slot_def rel_size_def)
    ultimately show ?thesis using Some by simp
  qed
qed

text \<open>
  The window hands out a buffer only as long as the next sequence number stays within \<^verbatim>\<open>size\<close> of
  the oldest one that is not acknowledged.
\<close>

lemma output_sequenced_cases:
  assumes "rel_ok cap rel" "send_window rel"
  obtains (none) "reliable_get_buf_output_sequenced rel = Some (None, rel)"
  | (some) i b where "i < rel_size rel" "\<not> active (rel_array rel ! i)" "buf_ok b" "buf_bytes b = []"
      "b_offset b = rel_offset rel" "b_len b = 0" "b_capacity b = cap"
      "reliable_get_buf_output_sequenced rel =
        Some (Some i, rel\<lparr>rel_array := (rel_array rel)[i := (rel_array rel ! i)\<lparr>e_buf := b\<rparr>]\<rparr>)"
      "\<forall>i pid bs. slot rel i pid bs \<longrightarrow> unat (rel_packet_id rel - pid) < rel_size rel"
proof -
  have sz: "rel_size rel \<le> 12" using assms(1) by (simp add: rel_ok_def)
  note o = oldest_unacked [OF assms(2) sz]
  consider (closed) "reliable_get_buf_output_sequenced rel = Some (None, rel)"
    | (opened) "reliable_get_buf_output_sequenced rel = reliable_get_buf rel"
      "\<forall>i pid bs. slot rel i pid bs \<longrightarrow> unat (rel_packet_id rel - pid) < rel_size rel"
  proof (cases "min_active (rel_array rel) None")
    case None
    then have "\<forall>i pid bs. slot rel i pid bs \<longrightarrow> unat (rel_packet_id rel - pid) < rel_size rel"
      using o by simp
    then show ?thesis using that(2) None by (simp add: reliable_get_buf_output_sequenced_def)
  next
    case (Some m)
    have "unat (word_of_nat (rel_size rel) :: u32) = rel_size rel" using sz by (simp add: unat_of_nat)
    then have "reliable_pid_in_range1 (rel_packet_id rel) m (word_of_nat (rel_size rel)) \<longleftrightarrow>
        unat (rel_packet_id rel - m) < rel_size rel"
      by (simp add: reliable_pid_in_range1_def word_less_nat_alt)
    then show ?thesis
      using that o Some le_less_trans by (fastforce simp: reliable_get_buf_output_sequenced_def)
  qed
  then show ?thesis
  proof cases
    case opened
    from assms(1) show ?thesis
    proof (cases rule: get_buf_cases)
      case none
      then show ?thesis using that(1) opened by simp
    next
      case (some i rel' b)
      then show ?thesis using that(2) opened by simp
    qed
  qed (rule that(1))
qed

section \<open>What the operations do to the slots\<close>

lemma queue_message_cases:
  assumes "rel_ok cap rel" "send_window rel"
  shows "\<exists>ok rel'. queue_message rel opc msg = Some (ok, rel') \<and> rel_ok cap rel' \<and> send_window rel' \<and>
    rel_size rel' = rel_size rel \<and>
    (if ok
     then rel_packet_id rel' = rel_packet_id rel + 1 \<and>
       (\<exists>i < rel_size rel. \<not> active (rel_array rel ! i) \<and>
          (\<forall>k pid bs. slot rel' k pid bs \<longleftrightarrow>
             (if k = i then pid = rel_packet_id rel \<and> bs = be32 pid @ msg else slot rel k pid bs)))
     else rel_packet_id rel' = rel_packet_id rel \<and> (\<forall>k pid bs. slot rel' k pid bs \<longleftrightarrow> slot rel k pid bs))"
  using assms
proof (cases rule: output_sequenced_cases)
  case none
  then have "queue_message rel opc msg = Some (False, rel)" by (simp add: queue_message_def)
  then show ?thesis using assms by auto
next
  case (some i b)
  let ?r1 = "rel\<lparr>rel_array := (rel_array rel)[i := (rel_array rel ! i)\<lparr>e_buf := b\<rparr>]\<rparr>"
  have i: "i < length (rel_array rel)" using some(1) by (simp add: rel_size_def)
  have sl: "slot ?r1 k pid bs \<longleftrightarrow> slot rel k pid bs" for k pid bs
    using some(1,2) by (auto simp: slot_update' slot_free)
  have ok1: "rel_ok cap ?r1"
    using rel_ok_update [OF some(1) assms(1), of "(rel_array rel ! i)\<lparr>e_buf := b\<rparr>" "rel_packet_id rel"] some
    by (simp add: rel_ok_def rel_size_def nth_list_update)
  have w1: "send_window ?r1" using assms(2) by (simp add: send_window_def sl)
  show ?thesis
  proof (cases "buf_write b msg")
    case None
    then have "queue_message rel opc msg = Some (False, ?r1)" using some(8) i by (simp add: queue_message_def)
    moreover have "rel_packet_id ?r1 = rel_packet_id rel" by simp
    ultimately show ?thesis using ok1 w1 sl
      by (intro exI [of _ False] exI [of _ ?r1] conjI) simp_all
  next
    case (Some b1)
    note x = buf_write_Some [OF some(3) Some]
    have "int (length (be32 (rel_packet_id rel))) \<le> b_offset b1"
      using assms(1) x(4) some(5) by (simp add: rel_ok_def)
    then obtain b2 where b2: "buf_write_prepend b1 (be32 (rel_packet_id rel)) = Some b2"
      using buf_write_prepend_iff [OF x(1)] by metis
    note y = buf_write_prepend_Some [OF x(1) b2]
    define e where "e = (rel_array rel ! i)\<lparr>e_packet_id := rel_packet_id rel, e_buf := b2, active := True,
      opcode := opc, next_try := 0, timeout := initial_timeout rel\<rparr>"
    define r2 where "r2 = rel\<lparr>rel_packet_id := rel_packet_id rel + 1, rel_array := (rel_array rel)[i := e]\<rparr>"
    have q: "queue_message rel opc msg = Some (True, r2)"
      using some(1,8) Some b2 i
      by (simp add: queue_message_def reliable_mark_active_outgoing_def Let_def r2_def e_def)
    have okr: "rel_ok cap r2" unfolding r2_def
      by (rule rel_ok_update [OF some(1) assms(1)]) (use y x some in \<open>simp_all add: e_def\<close>)
    have sr: "slot r2 k pid bs \<longleftrightarrow>
       (if k = i then pid = rel_packet_id rel \<and> bs = be32 pid @ msg else slot rel k pid bs)" for k pid bs
      using some(1,4) x(2) y(2) by (auto simp: r2_def slot_update e_def)
    have sz: "rel_size r2 = rel_size rel" "rel_packet_id r2 = rel_packet_id rel + 1" "0 < rel_size rel" "rel_size rel \<le> 12"
      using assms(1) by (auto simp: r2_def rel_size_def rel_ok_def)
    have age: "0 < unat (rel_packet_id rel + 1 - pid) \<and> unat (rel_packet_id rel + 1 - pid) \<le> rel_size rel"
      if "unat (rel_packet_id rel - pid) < rel_size rel" for pid
    proof -
      have "unat (rel_packet_id rel + 1 - pid) = unat (rel_packet_id rel - pid) + 1"
        using that sz(4) unat_plus_u32 [of "rel_packet_id rel - pid" 1] by (simp add: diff_add_eq)
      then show ?thesis using that by simp
    qed
    have fresh: "\<not> slot rel k (rel_packet_id rel) bs" for k bs
      using assms(2) unfolding send_window_def by (metis diff_self less_irrefl unat_0)
    have uniq: "slot rel k pid bs \<Longrightarrow> slot rel l pid cs \<Longrightarrow> k = l" for k l pid bs cs
      using assms(2) unfolding send_window_def by blast
    have "send_window r2"
      unfolding send_window_def sz(1,2)
    proof (intro conjI allI impI)
      fix k pid bs cs assume s: "slot r2 k pid bs"
      show "0 < unat (rel_packet_id rel + 1 - pid)" "unat (rel_packet_id rel + 1 - pid) \<le> rel_size rel"
        using s age [of pid] some(9) sz(3) by (auto simp: sr split: if_splits)
      fix l assume "slot r2 l pid cs"
      then show "k = l"
        using s fresh uniq by (auto simp: sr split: if_splits)
    qed
    then show ?thesis using q okr sr sz(1,2) some(1,2) by auto
  qed
qed

lemma purge_array:
  "length (fold (\<lambda>pid. map (purge_entry pid)) ids es) = length es \<and>
   (\<forall>i < length es. let e = fold (\<lambda>pid. map (purge_entry pid)) ids es ! i in
      active e = (active (es ! i) \<and> e_packet_id (es ! i) \<notin> set ids) \<and>
      e_packet_id e = e_packet_id (es ! i) \<and> e_buf e = e_buf (es ! i))"
  by (induction ids arbitrary: es) (auto simp: Let_def purge_entry_def)

text \<open>An acknowledgement frees exactly the entries that it names.\<close>

lemma slot_purge: "slot (reliable_send_purge rel ids) i pid bs \<longleftrightarrow> slot rel i pid bs \<and> pid \<notin> set ids"
  using purge_array [of ids "rel_array rel"]
  by (auto simp: slot_def rel_size_def reliable_send_purge_def Let_def)

lemma purge_ok:
  "rel_size (reliable_send_purge rel ids) = rel_size rel"
  "rel_packet_id (reliable_send_purge rel ids) = rel_packet_id rel"
  "rel_ok cap rel \<Longrightarrow> rel_ok cap (reliable_send_purge rel ids)"
  "send_window rel \<Longrightarrow> send_window (reliable_send_purge rel ids)"
proof -
  show sz: "rel_size (reliable_send_purge rel ids) = rel_size rel"
    "rel_packet_id (reliable_send_purge rel ids) = rel_packet_id rel"
    using purge_array [of ids "rel_array rel"] by (auto simp: rel_size_def reliable_send_purge_def)
  show "rel_ok cap rel \<Longrightarrow> rel_ok cap (reliable_send_purge rel ids)"
    using purge_array [of ids "rel_array rel"] 
    by (auto simp: rel_ok_def rel_size_def reliable_send_purge_def Let_def)
  show "send_window rel \<Longrightarrow> send_window (reliable_send_purge rel ids)"
    unfolding send_window_def slot_purge sz by blast
qed

lemma schedule_now_ok:
  "slot (reliable_schedule_now nw rel) i pid bs \<longleftrightarrow> slot rel i pid bs"
  "rel_size (reliable_schedule_now nw rel) = rel_size rel"
  "rel_packet_id (reliable_schedule_now nw rel) = rel_packet_id rel"
  "rel_ok cap rel \<Longrightarrow> rel_ok cap (reliable_schedule_now nw rel)"
  by (auto simp: slot_def rel_size_def rel_ok_def reliable_schedule_now_def split: if_splits)


section \<open>Retransmission\<close>

definition due :: "time \<Rightarrow> reliable_entry \<Rightarrow> bool" where
  "due nw e \<longleftrightarrow> active e \<and> (N_ACK_RETRANSMIT \<le> n_acks e \<or> next_try e \<le> nw)"

lemma can_send_due: "reliable_can_send nw rel \<longleftrightarrow> (\<exists>e \<in> set (rel_array rel). due nw e) \<and> \<not> hold rel"
  by (auto simp: reliable_can_send_def due_def filter_empty_conv)

lemma best_entry_None: "best_entry nw k es best = None \<longleftrightarrow> best = None \<and> (\<forall>e \<in> set es. \<not> due nw e)"
  by (induction es arbitrary: k best) (auto simp: due_def split: if_splits option.splits)

lemma best_entry_Some:
  "best_entry nw k es best = Some (i, e) \<Longrightarrow>
   best = Some (i, e) \<or> (k \<le> i \<and> i < k + length es \<and> e = es ! (i - k) \<and> due nw e)"
proof (induction es arbitrary: k best)
  case (Cons x xs)
  have "\<exists>best'. best_entry nw (Suc k) xs best' = Some (i, e) \<and> (best' = best \<or> best' = Some (k, x) \<and> due nw x)"
    using Cons.prems by (intro exI conjI) (simp, auto simp: due_def split: option.splits)
  then obtain best' where b: "best_entry nw (Suc k) xs best' = Some (i, e)"
    "best' = best \<or> best' = Some (k, x) \<and> due nw x"
    by blast
  from Cons.IH [OF b(1)] b(2) show ?case by (auto simp: nth_Cons' Suc_diff_le)
qed simp

lemma best_entry_oldest:
  assumes "best_entry nw k es best = Some (i, e)"
    "\<forall>x \<in> set es. active x \<longrightarrow> unat (r - e_packet_id x) \<le> 2 ^ 30"
    "\<forall>j b. best = Some (j, b) \<longrightarrow> unat (r - e_packet_id b) \<le> 2 ^ 30"
  shows "(\<forall>x \<in> set es. due nw x \<longrightarrow> unat (r - e_packet_id x) \<le> unat (r - e_packet_id e)) \<and>
    (\<forall>j b. best = Some (j, b) \<longrightarrow> unat (r - e_packet_id b) \<le> unat (r - e_packet_id e))"
  using assms
proof (induction es arbitrary: k best)
  case (Cons x xs)
  let ?age = "\<lambda>y. unat (r - e_packet_id y)"
  show ?case
  proof (cases "due nw x \<and> (\<forall>j b. best = Some (j, b) \<longrightarrow> reliable_pid_min (e_packet_id x) (e_packet_id b))")
    case True
    then have "best_entry nw (Suc k) xs (Some (k, x)) = Some (i, e)"
      using Cons.prems(1) by (cases best) (auto simp: due_def)
    moreover have "?age b < ?age x" if "best = Some (j, b)" for j b
      using True that Cons.prems(2,3) pid_min_age [of r "e_packet_id x" "e_packet_id b"]
      by (auto simp: due_def)
    moreover have "?age x \<le> 2 ^ 30" using True Cons.prems(2) by (auto simp: due_def)
    ultimately show ?thesis
      using Cons.IH [of "Suc k" "Some (k, x)"] Cons.prems(2) by fastforce
  next
    case False
    then have b: "best_entry nw (Suc k) xs best = Some (i, e)"
      using Cons.prems(1) by (cases best) (auto simp: due_def split: if_splits)
    have "\<exists>j b. best = Some (j, b) \<and> ?age x \<le> ?age b" if "due nw x"
      using that False Cons.prems(2,3) pid_min_age [of r "e_packet_id x"] by (fastforce simp: due_def)
    moreover have ih: "\<forall>y \<in> set xs. due nw y \<longrightarrow> ?age y \<le> ?age e"
      "\<forall>j b. best = Some (j, b) \<longrightarrow> ?age b \<le> ?age e"
      using Cons.IH [OF b] Cons.prems(2,3) by simp_all
    ultimately have "due nw x \<longrightarrow> ?age x \<le> ?age e" using le_trans by blast
    then show ?thesis using ih by simp
  qed
qed simp

lemma send_window_ages:
  assumes "send_window rel" "rel_size rel \<le> 12"
  shows "\<forall>e \<in> set (rel_array rel). active e \<longrightarrow> unat (rel_packet_id rel - e_packet_id e) \<le> 2 ^ 30"
proof (intro ballI impI)
  fix e assume "e \<in> set (rel_array rel)" "active e"
  then obtain i where "slot rel i (e_packet_id e) (buf_bytes (e_buf e))" by (rule slot_of_active)
  then have "unat (rel_packet_id rel - e_packet_id e) \<le> 12"
    using assms order_trans unfolding send_window_def by blast
  then show "unat (rel_packet_id rel - e_packet_id e) \<le> 2 ^ 30" by simp
qed

lemma reliable_send_cases:
  assumes "reliable_send nw rel = (out, rel')"
  shows "case out of
      None \<Rightarrow> rel' = rel \<and> (\<forall>e \<in> set (rel_array rel). \<not> due nw e)
    | Some (i, opc) \<Rightarrow> i < rel_size rel \<and> due nw (rel_array rel ! i) \<and> opc = opcode (rel_array rel ! i) \<and>
        rel' = rel\<lparr>rel_array := (rel_array rel)[i := (rel_array rel ! i)
          \<lparr>next_try := nw + timeout (rel_array rel ! i), timeout := timeout (rel_array rel ! i) * 2, n_acks := 0\<rparr>]\<rparr>"
  using assms best_entry_None [of nw 0 "rel_array rel" None] best_entry_Some [of nw 0 "rel_array rel" None]
  by (auto simp: reliable_send_def rel_size_def split: option.splits)

lemma reliable_send_ok:
  assumes "reliable_send nw rel = (out, rel')"
  shows "slot rel' k pid bs \<longleftrightarrow> slot rel k pid bs" "rel_size rel' = rel_size rel"
    "rel_packet_id rel' = rel_packet_id rel" "rel_ok cap rel \<Longrightarrow> rel_ok cap rel'"
  using reliable_send_cases [OF assms]
  by (auto simp: slot_def rel_size_def rel_ok_def nth_list_update split: option.splits if_splits)

section \<open>Reception\<close>

text \<open>
  A packet is dropped, found to be a repetition and acknowledged again, or stored and acknowledged.
\<close>

lemma receive_data_cases:
  assumes "rel_ok cap rel" "buf_ok b" "buf_bytes b = be32 ident @ msg"
  shows "\<exists>ok rel' acks' b'. tls_receive_data rel acks opc b = Some (ok, rel', acks', b') \<and>
    rel_ok cap rel' \<and> rel_size rel' = rel_size rel \<and> rel_packet_id rel' = rel_packet_id rel \<and>
    ((\<forall>k pid bs. slot rel' k pid bs \<longleftrightarrow> slot rel k pid bs) \<and>
       (acks' = acks \<or> set acks' \<subseteq> insert ident (set acks) \<and> \<not> reliable_not_replay rel ident) \<or>
     set acks' \<subseteq> insert ident (set acks) \<and> reliable_not_replay rel ident \<and>
       reliable_wont_break_sequentiality rel ident \<and>
       (\<exists>i < rel_size rel. \<not> active (rel_array rel ! i) \<and>
         (\<forall>k pid bs. slot rel' k pid bs \<longleftrightarrow> (if k = i then pid = ident \<and> bs = msg else slot rel k pid bs))))"
proof (cases "opc \<noteq> P_ACK_V1 \<and> reliable_can_get rel \<and> reliable_wont_break_sequentiality rel ident")
  case False
  obtain b1 where "buf_read b 4 = (Some (be32 ident), b1)"
    using bufq.get_u32 [OF assms(2,3)] by blast
  then have "\<exists>b'. tls_receive_data rel acks opc b = Some (True, rel, acks, b')"
    using False by (auto simp: tls_receive_data_def reliable_ack_read_packet_id_def)
  then show ?thesis using assms(1) by blast
next
  case True
  obtain b1 where b1: "buf_read b 4 = (Some (be32 ident), b1)" "buf_ok b1" "buf_bytes b1 = msg"
    using bufq.get_u32 [OF assms(2,3)] by blast
  define acks' where "acks' = snd (reliable_ack_acknowledge_packet_id acks ident)"
  have a: "set acks' \<subseteq> insert ident (set acks)"
    by (auto simp: acks'_def reliable_ack_acknowledge_packet_id_def)
  show ?thesis
  proof (cases "reliable_not_replay rel ident")
    case False
    then have "tls_receive_data rel acks opc b = Some (True, rel, acks', b1)"
      using True b1(1) by (simp add: tls_receive_data_def reliable_ack_read_packet_id_def acks'_def)
    then show ?thesis using False a assms(1) by blast
  next
    case fresh: True
    from assms(1) show ?thesis
    proof (cases rule: get_buf_cases)
      case none
      then show ?thesis using True by simp
    next
      case (some i rel1 e)
      have i: "i < length (rel_array rel)" using some(2) by (simp add: rel_size_def)
      show ?thesis
      proof (cases "buf_copy e b1")
        case None
        then have "tls_receive_data rel acks opc b = Some (False, rel1, acks, b1)"
          using True fresh b1(1) some i
          by (simp add: tls_receive_data_def reliable_ack_read_packet_id_def)
        moreover have "slot rel1 k pid bs \<longleftrightarrow> slot rel k pid bs" for k pid bs
          using some by (auto simp: slot_update' slot_free)
        moreover have "rel_ok cap rel1" "rel_size rel1 = rel_size rel" "rel_packet_id rel1 = rel_packet_id rel"
          using rel_ok_update [OF some(2) assms(1), of "(rel_array rel ! i)\<lparr>e_buf := e\<rparr>" "rel_packet_id rel"]
            some by simp_all
        ultimately show ?thesis by blast
      next
        case (Some ib)
        note w = buf_write_Some [OF some(4) Some [unfolded buf_copy_eq [OF b1(2)]]]
        define ne where "ne = (rel_array rel ! i)\<lparr>e_buf := ib, active := True, e_packet_id := ident,
          opcode := opc, next_try := 0, timeout := 0, n_acks := 0\<rparr>"
        define rel2 where "rel2 = rel\<lparr>rel_packet_id := rel_packet_id rel, rel_array := (rel_array rel)[i := ne]\<rparr>"
        have rel2: "rel2 = rel\<lparr>rel_array := (rel_array rel)[i := ne]\<rparr>" by (simp add: rel2_def)
        have np: "\<not> reliable_pid_min ident (rel_packet_id rel)" using fresh by (simp add: reliable_not_replay_def)
        have "tls_receive_data rel acks opc b = Some (True, rel2, acks', b1)"
          using True fresh b1(1) some i Some np
          by (simp add: tls_receive_data_def reliable_ack_read_packet_id_def acks'_def rel2 ne_def
              reliable_mark_active_incoming_def rel_size_def)
        moreover have "slot rel2 k pid bs \<longleftrightarrow>
            (if k = i then pid = ident \<and> bs = msg else slot rel k pid bs)" for k pid bs
          unfolding rel2_def slot_update [OF some(2)] using w(2) some(5) b1(3) by (auto simp: ne_def)
        moreover have "rel_ok cap rel2" unfolding rel2_def
          by (rule rel_ok_update [OF some(2) assms(1)]) (use w some in \<open>simp_all add: ne_def\<close>)
        moreover have "rel_size rel2 = rel_size rel" "rel_packet_id rel2 = rel_packet_id rel"
          by (simp_all add: rel2_def rel_size_def)
        ultimately show ?thesis using a fresh True some(2,3) by blast
      qed
    qed
  qed
qed

text \<open>The entry that is next in the sequence, and its consumption.\<close>

lemma entry_sequenced_Some:
  assumes "reliable_get_entry_sequenced rel = Some i"
  shows "slot rel i (rel_packet_id rel) (buf_bytes (e_buf (rel_array rel ! i)))"
  using find_entry_Some [OF assms [unfolded reliable_get_entry_sequenced_def]]
  by (auto simp: slot_def rel_size_def)

lemma entry_sequenced_None:
  "reliable_get_entry_sequenced rel = None \<longleftrightarrow> (\<forall>i bs. \<not> slot rel i (rel_packet_id rel) bs)"
  by (auto simp: reliable_get_entry_sequenced_def find_entry_None slot_def rel_size_def) (metis in_set_conv_nth)

lemma consume_ok:
  assumes "slot rel i pid bs" "rel_ok cap rel"
  shows "\<exists>rel'. read_incoming_tls_ciphertext (\<lambda>_. 1) rel i = Some (True, rel', True) \<and>
    rel_packet_id rel' = pid + 1 \<and> rel_size rel' = rel_size rel \<and> rel_ok cap rel' \<and>
    (\<forall>k p cs. slot rel' k p cs \<longleftrightarrow> k \<noteq> i \<and> slot rel k p cs)"
proof -
  have i: "i < rel_size rel" "e_packet_id (rel_array rel ! i) = pid" using assms(1) by (auto simp: slot_def)
  let ?r = "rel\<lparr>rel_packet_id := pid + 1, rel_array := (rel_array rel)[i := (rel_array rel ! i)\<lparr>active := False\<rparr>]\<rparr>"
  have "read_incoming_tls_ciphertext (\<lambda>_. 1) rel i = Some (True, ?r, True)"
    using i by (simp add: read_incoming_tls_ciphertext_def reliable_mark_deleted_def)
  moreover have "rel_ok cap ?r"
    by (rule rel_ok_update [OF i(1) assms(2)]) (use assms i in \<open>auto simp: rel_ok_def\<close>)
  moreover have "slot ?r k p cs \<longleftrightarrow> k \<noteq> i \<and> slot rel k p cs" for k p cs
    by (simp add: slot_update i)
  moreover have "rel_size ?r = rel_size rel" by (simp add: rel_size_def)
  ultimately show ?thesis by (intro exI [of _ ?r]) simp
qed

lemma lru_subset:
  assumes "length lru \<le> RELIABLE_ACK_SIZE" "copy_acks_to_lru acks lru n = Some lru'"
  shows "set lru' \<subseteq> set acks \<union> set lru \<and> length lru' \<le> RELIABLE_ACK_SIZE"
proof -
  have "set (foldr lru_insert ids lru) \<subseteq> set ids \<union> set lru \<and> length (foldr lru_insert ids lru) \<le> RELIABLE_ACK_SIZE"
    for ids
  proof (induction ids)
    case (Cons a ids)
    then show ?case
      using set_take_subset [of RELIABLE_ACK_SIZE "a # remove1 a (foldr lru_insert ids lru)"]
        set_remove1_subset [of a "foldr lru_insert ids lru"]
      by (auto simp: lru_insert_eq)
  qed (use assms(1) in simp)
  from this [of "take n acks"] assms(2) set_take_subset [of n acks] show ?thesis
    by (auto simp: copy_acks_to_lru_def split: if_splits)
qed

section \<open>The channel invariant\<close>

abbreviation pid_of :: "nat \<Rightarrow> u32" where "pid_of j \<equiv> word_of_nat j"

text \<open>Message \<open>j\<close> has been received: it was delivered (\<open>d\<close>), or it waits for its turn in the window.\<close>

definition received :: "reliable \<Rightarrow> u8 list list \<Rightarrow> nat \<Rightarrow> bool" where
  "received r d j \<longleftrightarrow> j < length d \<or> (\<exists>k bs. slot r k (pid_of j) bs)"

definition acked_ok :: "u8 list list \<Rightarrow> reliable \<Rightarrow> u8 list list \<Rightarrow> u32 \<Rightarrow> bool" where
  "acked_ok q r d pid \<longleftrightarrow> (\<exists>j < length q. pid = pid_of j \<and> received r d j)"

text \<open>The sending window holds messages of the queue, each behind its sequence number.\<close>

definition sender_ok :: "int \<Rightarrow> u8 list list \<Rightarrow> reliable \<Rightarrow> bool" where
  "sender_ok cap q s \<longleftrightarrow> rel_ok cap s \<and> send_window s \<and> rel_packet_id s = pid_of (length q) \<and>
     (\<forall>k pid bs. slot s k pid bs \<longrightarrow> (\<exists>j < length q. pid = pid_of j \<and> bs = be32 pid @ q ! j))"

text \<open>
  What was delivered is the beginning of the queue; the receiving window holds later messages of it,
  each once, none further ahead than the window is long.
\<close>

definition receiver_ok :: "int \<Rightarrow> u8 list list \<Rightarrow> u8 list list \<Rightarrow> reliable \<Rightarrow> bool" where
  "receiver_ok cap q d r \<longleftrightarrow> rel_ok cap r \<and> rel_packet_id r = pid_of (length d) \<and>
     length d \<le> length q \<and> d = take (length d) q \<and>
     (\<forall>k pid bs. slot r k pid bs \<longrightarrow>
        (\<exists>j < length q. pid = pid_of j \<and> bs = q ! j \<and> length d \<le> j \<and> j < length d + rel_size r)) \<and>
     (\<forall>k l pid bs cs. slot r k pid bs \<longrightarrow> slot r l pid cs \<longrightarrow> k = l)"

definition net_ok :: "u8 list list \<Rightarrow> (int \<times> u8 list) list \<Rightarrow> bool" where
  "net_ok q net \<longleftrightarrow> (\<forall>m \<in> set net. int (length (snd m)) < BUF_SIZE_MAX \<and>
     (\<exists>j < length q. snd m = be32 (pid_of j) @ q ! j))"

definition ch_inv :: "int \<Rightarrow> channel \<Rightarrow> bool" where
  "ch_inv cap c \<longleftrightarrow>
     sender_ok cap (ch_queued c) (ch_send c) \<and>
     receiver_ok cap (ch_queued c) (ch_delivered c) (ch_rec c) \<and>
     net_ok (ch_queued c) (ch_net c) \<and>
     (\<forall>pid \<in> set (ch_acks c) \<union> set (ch_lru c) \<union> \<Union> (set ` set (ch_ack_net c)).
        acked_ok (ch_queued c) (ch_rec c) (ch_delivered c) pid) \<and>
     length (ch_lru c) \<le> RELIABLE_ACK_SIZE \<and>
     (\<forall>j < length (ch_queued c).
        received (ch_rec c) (ch_delivered c) j \<or> (\<exists>k bs. slot (ch_send c) k (pid_of j) bs))"

lemma ch_init_inv:
  assumes "ch_init n off n_send n_rec pt = Some c" "0 \<le> n" "4 \<le> off" "off \<le> n"
  shows "ch_inv n c" "ch_queued c = []" "ch_delivered c = []" 
proof -
  from assms(1) obtain s r where s: "reliable_init n off n_send False = Some s"
    and r: "reliable_init n off n_rec False = Some r"
    and c: "c = \<lparr>ch_send = reliable_set_timeout s pt, ch_rec = r, ch_acks = [], ch_lru = [], ch_queued = [],
      ch_delivered = [], ch_net = [], ch_ack_net = []\<rparr>"
    by (auto simp: ch_init_def bind_eq_Some_conv)
  note si = reliable_init_ok [OF s assms(2-4)] and ri = reliable_init_ok [OF r assms(2-4)]
  have "rel_ok n (reliable_set_timeout s pt)" "rel_packet_id (reliable_set_timeout s pt) = 0"
    "\<not> slot (reliable_set_timeout s pt) i pid bs" for i pid bs
    using si(1-3) by (simp_all add: rel_ok_def slot_def rel_size_def reliable_set_timeout_def)
  then show "ch_inv n c"
    using ri(1-3) by (simp add: ch_inv_def sender_ok_def receiver_ok_def net_ok_def send_window_def c)
qed (use assms(1) in \<open>auto simp: ch_init_def bind_eq_Some_conv\<close>)


section \<open>Every event keeps the invariant\<close>

lemma pid_of_inj: "i \<le> 2 ^ 31 \<Longrightarrow> j \<le> 2 ^ 31 \<Longrightarrow> pid_of i = pid_of j \<longleftrightarrow> i = j"
  by (simp add: word_unat_eq_iff unat_of_nat)

lemma unat_pid_of: "j \<le> 2 ^ 31 \<Longrightarrow> unat (pid_of j) = j"
  by (simp add: unat_of_nat)

lemma nth_append_old: "j < length q \<Longrightarrow> (q @ [m]) ! j = q ! j"
  by (simp add: nth_append)

text \<open>Queuing one more message keeps what is said about the others.\<close>

lemma queue_grows:
  "receiver_ok cap q d r \<Longrightarrow> receiver_ok cap (q @ [m]) d r"
  "net_ok q net \<Longrightarrow> net_ok (q @ [m]) net"
  "acked_ok q r d pid \<Longrightarrow> acked_ok (q @ [m]) r d pid"
proof -
  show "receiver_ok cap q d r \<Longrightarrow> receiver_ok cap (q @ [m]) d r"
    unfolding receiver_ok_def by (simp, metis less_Suc_eq nth_append_old)
  show "net_ok q net \<Longrightarrow> net_ok (q @ [m]) net"
    unfolding net_ok_def by (simp, metis less_Suc_eq nth_append_old)
  show "acked_ok q r d pid \<Longrightarrow> acked_ok (q @ [m]) r d pid"
    unfolding acked_ok_def by (auto intro: less_SucI)
qed

lemma step_queue:
  assumes "ch_inv cap c"
  shows "\<exists>c'. ch_step (Queue opc msg) c = Some c' \<and> ch_inv cap c'"
proof -
  let ?q = "ch_queued c" and ?s = "ch_send c"
  have s: "sender_ok cap ?q ?s" using assms by (simp add: ch_inv_def)
  then have ok: "rel_ok cap ?s" "send_window ?s" "rel_packet_id ?s = pid_of (length ?q)"
    by (auto simp: sender_ok_def)
  from queue_message_cases [OF ok(1,2), of opc msg] obtain sent s' where
    m: "queue_message ?s opc msg = Some (sent, s')" "rel_ok cap s'" "send_window s'"
    "if sent
     then rel_packet_id s' = rel_packet_id ?s + 1 \<and>
       (\<exists>i < rel_size ?s. \<not> active (rel_array ?s ! i) \<and>
          (\<forall>k pid bs. slot s' k pid bs \<longleftrightarrow>
             (if k = i then pid = rel_packet_id ?s \<and> bs = be32 pid @ msg else slot ?s k pid bs)))
     else rel_packet_id s' = rel_packet_id ?s \<and> (\<forall>k pid bs. slot s' k pid bs \<longleftrightarrow> slot ?s k pid bs)"
    by blast
  show ?thesis
  proof (cases sent)
    case False
    then have "sender_ok cap ?q s'" using m s by (simp add: sender_ok_def)
    moreover have "slot s' = slot ?s" using m(4) False by (intro ext) simp
    ultimately show ?thesis using m(1) False assms by (simp add: ch_inv_def)
  next
    case True
    then obtain i where i: "i < rel_size ?s" "\<not> active (rel_array ?s ! i)"
      "\<forall>k pid bs. slot s' k pid bs \<longleftrightarrow>
         (if k = i then pid = rel_packet_id ?s \<and> bs = be32 pid @ msg else slot ?s k pid bs)"
      using m(4) by auto
    have "rel_packet_id s' = pid_of (length (?q @ [msg]))" using m(4) True ok(3) by (simp add: add.commute)
    moreover have "\<exists>j < length (?q @ [msg]). pid = pid_of j \<and> bs = be32 pid @ (?q @ [msg]) ! j"
      if "slot s' k pid bs" for k pid bs
    proof (cases "k = i")
      case True
      then show ?thesis using that i(3) ok(3) by auto
    next
      case False
      then have "slot ?s k pid bs" using that i(3) by simp
      then show ?thesis using s unfolding sender_ok_def by (metis nth_append_old length_append_singleton less_SucI)
    qed
    ultimately have s': "sender_ok cap (?q @ [msg]) s'" using m(2,3) by (simp add: sender_ok_def)
    have cov: "received (ch_rec c) (ch_delivered c) j \<or> (\<exists>k bs. slot s' k (pid_of j) bs)"
      if "j < length (?q @ [msg])" for j
    proof (cases "j < length ?q")
      case True
      with assms consider "received (ch_rec c) (ch_delivered c) j" | k bs where "slot ?s k (pid_of j) bs"
        by (auto simp: ch_inv_def)
      then show ?thesis
      proof cases
        case 2
        then have "k \<noteq> i" using i(2) by (auto simp: slot_def)
        then show ?thesis using 2 i(3) by auto
      qed simp
    next
      case False
      then have "pid_of j = rel_packet_id ?s" using that ok(3) by (simp add: less_Suc_eq)
      then show ?thesis using i(3) by auto
    qed
    show ?thesis
      using m(1) True assms s' cov by (auto simp: ch_inv_def queue_grows)
  qed
qed


text \<open>Steps that only touch the sending window.\<close>

lemma sender_update:
  assumes "ch_inv cap c" "rel_ok cap s'" "rel_size s' = rel_size (ch_send c)"
    "rel_packet_id s' = rel_packet_id (ch_send c)" "slot s' = slot (ch_send c)"
  shows "ch_inv cap (c\<lparr>ch_send := s'\<rparr>)"
proof -
  have "send_window s' = send_window (ch_send c)" using assms(3-5) by (simp add: send_window_def)
  then have "sender_ok cap (ch_queued c) s'"
    using assms by (simp add: ch_inv_def sender_ok_def)
  then show ?thesis using assms(1,5) by (simp add: ch_inv_def)
qed

lemma step_reschedule:
  assumes "ch_inv cap c"
  shows "\<exists>c'. ch_step (Reschedule nw) c = Some c' \<and> ch_inv cap c'"
proof -
  have "slot (reliable_schedule_now nw (ch_send c)) = slot (ch_send c)"
    by (intro ext) (rule schedule_now_ok)
  moreover have "rel_ok cap (ch_send c)" using assms by (simp add: ch_inv_def sender_ok_def)
  ultimately show ?thesis
    using sender_update [OF assms, of "reliable_schedule_now nw (ch_send c)"] by (simp add: schedule_now_ok)
qed

lemma step_transmit:
  assumes "ch_inv cap c"
  shows "\<exists>c'. ch_step (Transmit nw) c = Some c' \<and> ch_inv cap c'"
proof (cases "reliable_can_send nw (ch_send c)")
  case True
  obtain out s' where r: "reliable_send nw (ch_send c) = (out, s')" by fastforce
  note cs = reliable_send_cases [OF r]
  have "out \<noteq> None" using True cs by (cases out) (auto simp: can_send_due)
  then obtain i opc where out: "out = Some (i, opc)" by auto
  then have i: "i < rel_size (ch_send c)" "active (rel_array (ch_send c) ! i)"
    using cs by (auto simp: due_def)
  have sl: "slot s' i (e_packet_id (rel_array s' ! i)) (buf_bytes (e_buf (rel_array s' ! i)))"
    using cs out i by (auto simp: slot_def rel_size_def)
  have inv: "ch_inv cap (c\<lparr>ch_send := s'\<rparr>)"
  proof (rule sender_update [OF assms])
    show "slot s' = slot (ch_send c)" by (intro ext) (rule reliable_send_ok [OF r])
  qed (use reliable_send_ok [OF r] assms in \<open>simp_all add: ch_inv_def sender_ok_def\<close>)
  then have "\<exists>j < length (ch_queued c). buf_bytes (e_buf (rel_array s' ! i)) = be32 (pid_of j) @ ch_queued c ! j"
    using sl by (fastforce simp: ch_inv_def sender_ok_def)
  moreover have "buf_ok (e_buf (rel_array s' ! i))"
    using inv sl by (simp add: ch_inv_def sender_ok_def rel_ok_def slot_def)
  then have "int (length (buf_bytes (e_buf (rel_array s' ! i)))) < BUF_SIZE_MAX"
    using length_buf_bytes [of "e_buf (rel_array s' ! i)"] buf_ok_bounds [of "e_buf (rel_array s' ! i)"] by simp
  ultimately have "ch_inv cap (c\<lparr>ch_send := s', ch_net := ch_net c @ [(opc, buf_bytes (e_buf (rel_array s' ! i)))]\<rparr>)"
    using inv by (auto simp: ch_inv_def net_ok_def)
  then show ?thesis using True r out by simp
qed (use assms in simp)

lemma step_acks_arrive:
  assumes "ch_inv cap c" "length (ch_queued c) \<le> 2 ^ 31"
  shows "\<exists>c'. ch_step (Acks_arrive k) c = Some c' \<and> ch_inv cap c'"
proof (cases "k < length (ch_ack_net c)")
  case True
  let ?ids = "ch_ack_net c ! k"
  have "set ?ids \<subseteq> \<Union> (set ` set (ch_ack_net c))" using True nth_mem by blast
  then have acked: "acked_ok (ch_queued c) (ch_rec c) (ch_delivered c) pid" if "pid \<in> set ?ids" for pid
    using assms that by (auto simp: ch_inv_def)
  have "sender_ok cap (ch_queued c) (reliable_send_purge (ch_send c) ?ids)"
    using assms unfolding ch_inv_def sender_ok_def purge_ok slot_purge by (blast intro: purge_ok)
  moreover have "received (ch_rec c) (ch_delivered c) j \<or>
      (\<exists>k bs. slot (reliable_send_purge (ch_send c) ?ids) k (pid_of j) bs)"
    if j: "j < length (ch_queued c)" for j
  proof (cases "pid_of j \<in> set ?ids")
    case in_ids: True
    then obtain i where "i < length (ch_queued c)" "pid_of j = pid_of i" "received (ch_rec c) (ch_delivered c) i"
      using acked by (auto simp: acked_ok_def)
    then show ?thesis using pid_of_inj [of i j] j assms(2) by auto
  next
    case False
    then show ?thesis using assms j by (auto simp: ch_inv_def slot_purge)
  qed
  ultimately show ?thesis using assms True by (auto simp: ch_inv_def)
qed (use assms in simp)


text \<open>Steps that change the receiving window: what has been received stays received.\<close>

lemma received_grows:
  assumes "ch_inv cap c" "\<And>j. j < length (ch_queued c) \<Longrightarrow> received (ch_rec c) (ch_delivered c) j \<Longrightarrow> received r d j"
  shows "\<forall>pid \<in> set (ch_acks c) \<union> set (ch_lru c) \<union> \<Union> (set ` set (ch_ack_net c)).
      acked_ok (ch_queued c) r d pid"
    "\<forall>j < length (ch_queued c). received r d j \<or> (\<exists>k bs. slot (ch_send c) k (pid_of j) bs)"
  using assms unfolding ch_inv_def acked_ok_def by blast+

lemma step_consume:
  assumes "ch_inv cap c" "length (ch_queued c) \<le> 2 ^ 31"
  shows "\<exists>c'. ch_step Consume c = Some c' \<and> ch_inv cap c'"
proof (cases "reliable_get_entry_sequenced (ch_rec c)")
  case (Some i)
  let ?r = "ch_rec c" and ?d = "ch_delivered c" and ?q = "ch_queued c"
  let ?bs = "buf_bytes (e_buf (rel_array ?r ! i))"
  have inv: "receiver_ok cap ?q ?d ?r" using assms(1) by (simp add: ch_inv_def)
  then have pid: "rel_packet_id ?r = pid_of (length ?d)" "rel_ok cap ?r" "length ?d \<le> length ?q"
    "?d = take (length ?d) ?q"
    by (simp_all add: receiver_ok_def)
  have sl: "slot ?r i (pid_of (length ?d)) ?bs" using entry_sequenced_Some [OF Some] pid by simp
  with inv obtain j where j: "j < length ?q" "pid_of (length ?d) = pid_of j" "?bs = ?q ! j"
    unfolding receiver_ok_def by blast
  then have "j = length ?d" using pid_of_inj [of "length ?d" j] pid(3) assms(2) by simp
  with j have j: "length ?d < length ?q" "?bs = ?q ! length ?d" by auto
  obtain r' where r': "read_incoming_tls_ciphertext (\<lambda>_. 1) ?r i = Some (True, r', True)"
    "rel_packet_id r' = pid_of (length ?d) + 1" "rel_size r' = rel_size ?r" "rel_ok cap r'"
    "\<And>k p cs. slot r' k p cs \<longleftrightarrow> k \<noteq> i \<and> slot ?r k p cs"
    using consume_ok [OF sl pid(2)] by blast
  have "?d @ [?bs] = take (length (?d @ [?bs])) ?q"
    using j pid(4) by (simp add: take_Suc_conv_app_nth)
  moreover have "\<exists>j < length ?q. p = pid_of j \<and> cs = ?q ! j \<and> length (?d @ [?bs]) \<le> j \<and>
      j < length (?d @ [?bs]) + rel_size r'" if "slot r' k p cs" for k p cs
  proof -
    have k: "k \<noteq> i" "slot ?r k p cs" using that r'(5) by simp_all
    then obtain j where "j < length ?q" "p = pid_of j" "cs = ?q ! j" "length ?d \<le> j"
      "j < length ?d + rel_size ?r"
      using inv unfolding receiver_ok_def by blast
    moreover have "p \<noteq> pid_of (length ?d)"
      using k sl inv unfolding receiver_ok_def by blast
    ultimately show ?thesis using r'(3) by (auto intro: exI [of _ j] simp: Suc_le_eq le_less)
  qed
  moreover have "k = l" if "slot r' k p cs" "slot r' l p cs'" for k l p cs cs'
    using that r'(5) inv unfolding receiver_ok_def by blast
  moreover have "rel_packet_id r' = pid_of (length (?d @ [?bs]))" using r'(2) by (simp add: add.commute)
  moreover have "length (?d @ [?bs]) \<le> length ?q" using j(1) by simp
  ultimately have "receiver_ok cap ?q (?d @ [?bs]) r'"
    using r'(4) unfolding receiver_ok_def by blast
  moreover have "received r' (?d @ [?bs]) j" if "j < length ?q" "received ?r ?d j" for j
  proof (cases "j \<le> length ?d")
    case False
    with that obtain k cs where k: "slot ?r k (pid_of j) cs" by (auto simp: received_def)
    show ?thesis
    proof (cases "k = i")
      case True
      then have "pid_of j = pid_of (length ?d)" using k sl by (simp add: slot_def)
      then have "j = length ?d" using pid_of_inj [of j "length ?d"] that(1) j(1) assms(2) by simp
      then show ?thesis by (simp add: received_def)
    next
      case False
      then show ?thesis using k r'(5) by (auto simp: received_def)
    qed
  qed (simp add: received_def)
  ultimately show ?thesis
    using assms(1) Some r'(1) received_grows [OF assms(1), of r' "?d @ [?bs]"] by (simp add: ch_inv_def)
qed (use assms in simp)


text \<open>A copy that is not new has been received.\<close>

lemma replay_received:
  assumes "receiver_ok cap q d r" "length q \<le> 2 ^ 31" "j < length q" "\<not> reliable_not_replay r (pid_of j)"
  shows "received r d j"
proof -
  have base: "rel_packet_id r = pid_of (length d)" "length d \<le> length q" using assms(1) by (auto simp: receiver_ok_def)
  consider "reliable_pid_min (pid_of j) (pid_of (length d))"
    | e where "e \<in> set (rel_array r)" "active e" "e_packet_id e = pid_of j"
    using assms(4) base by (auto simp: reliable_not_replay_def list_ex_iff)
  then show ?thesis
  proof cases
    case 1
    then have "\<not> length d \<le> j"
      using assms(2,3) base(2) unat_pid_of [of j] unat_pid_of [of "length d"]
      unfolding reliable_pid_min_eq u32_arith by (auto split: if_splits)
    then show ?thesis by (simp add: received_def)
  next
    case 2
    then show ?thesis using slot_of_active [OF 2(1,2)] by (metis received_def)
  qed
qed

lemma accepted_in_window:
  assumes "receiver_ok cap q d r" "length q \<le> 2 ^ 31" "j < length q" "reliable_not_replay r (pid_of j)"
    "reliable_wont_break_sequentiality r (pid_of j)"
  shows "length d \<le> j" "j < length d + rel_size r" "\<not> slot r k (pid_of j) bs"
proof -
  have base: "rel_packet_id r = pid_of (length d)" "length d \<le> length q" "rel_size r \<le> 12"
    using assms(1) by (auto simp: receiver_ok_def rel_ok_def)
  have n: "\<not> reliable_pid_min (pid_of j) (pid_of (length d))"
    using assms(4) base by (simp add: reliable_not_replay_def)
  have sz: "unat (word_of_nat (rel_size r) :: u32) = rel_size r" using base(3) by (simp add: unat_of_nat)
  have u: "unat (pid_of j) = j" "unat (pid_of (length d)) = length d"
    using assms(2,3) base(2) by (simp_all add: unat_pid_of)
  show ge: "length d \<le> j"
    using n u assms(2,3) base(2) unfolding reliable_pid_min_eq u32_arith by (auto split: if_splits)
  have "pid_of j - pid_of (length d) < word_of_nat (rel_size r)"
    by (rule in_range2_window) (use assms(2,5) n sz u base in \<open>auto simp: reliable_wont_break_sequentiality_def\<close>)
  then show "j < length d + rel_size r"
    using ge u sz unfolding u32_arith by auto
  show "\<not> slot r k (pid_of j) bs"
    using assms(4) unfolding reliable_not_replay_def list_ex_iff slot_def rel_size_def by (metis nth_mem)
qed

lemma datagram_ok:
  assumes "int (length bs) < BUF_SIZE_MAX"
  shows "buf_ok (datagram bs)" "buf_bytes (datagram bs) = bs"
  using assms by (auto simp: datagram_def buf_ok_def buf_bytes_def b_mem_def BUF_SIZE_MAX_def)


lemma step_arrive:
  assumes "ch_inv cap c" "length (ch_queued c) \<le> 2 ^ 31"
  shows "\<exists>c'. ch_step (Arrive n) c = Some c' \<and> ch_inv cap c'"
proof (cases "n < length (ch_net c)")
  case True
  let ?r = "ch_rec c" and ?d = "ch_delivered c" and ?q = "ch_queued c" and ?m = "ch_net c ! n"
  have inv: "receiver_ok cap ?q ?d ?r" and rok: "rel_ok cap ?r"
    using assms(1) by (auto simp: ch_inv_def receiver_ok_def)
  have "?m \<in> set (ch_net c)" using True by simp
  then obtain j where len: "int (length (snd ?m)) < BUF_SIZE_MAX" and j: "j < length ?q"
    "snd ?m = be32 (pid_of j) @ ?q ! j"
    using assms(1) unfolding ch_inv_def net_ok_def by blast
  have dg: "buf_ok (datagram (snd ?m))" "buf_bytes (datagram (snd ?m)) = be32 (pid_of j) @ ?q ! j"
    using datagram_ok [OF len] j(2) by simp_all
  from receive_data_cases [OF rok dg, of "ch_acks c" "fst ?m"]
  obtain ok r' acks' b' where
    t: "tls_receive_data ?r (ch_acks c) (fst ?m) (datagram (snd ?m)) = Some (ok, r', acks', b')"
    and r': "rel_ok cap r'" "rel_size r' = rel_size ?r" "rel_packet_id r' = rel_packet_id ?r"
    and cs: "(\<forall>k pid bs. slot r' k pid bs \<longleftrightarrow> slot ?r k pid bs) \<and>
       (acks' = ch_acks c \<or> set acks' \<subseteq> insert (pid_of j) (set (ch_acks c)) \<and> \<not> reliable_not_replay ?r (pid_of j)) \<or>
     set acks' \<subseteq> insert (pid_of j) (set (ch_acks c)) \<and> reliable_not_replay ?r (pid_of j) \<and>
       reliable_wont_break_sequentiality ?r (pid_of j) \<and>
       (\<exists>i < rel_size ?r. \<not> active (rel_array ?r ! i) \<and>
         (\<forall>k pid bs. slot r' k pid bs \<longleftrightarrow> (if k = i then pid = pid_of j \<and> bs = ?q ! j else slot ?r k pid bs)))"
    by blast
  have "receiver_ok cap ?q ?d r' \<and> (\<forall>l. received ?r ?d l \<longrightarrow> received r' ?d l) \<and>
    (\<forall>pid \<in> set acks'. pid \<in> set (ch_acks c) \<or> pid = pid_of j \<and> received r' ?d j)"
    using cs
  proof (elim disjE conjE exE)
    assume a: "\<forall>k pid bs. slot r' k pid bs \<longleftrightarrow> slot ?r k pid bs"
    then have "slot r' = slot ?r" by (intro ext) simp
    then have "receiver_ok cap ?q ?d r'" "received r' = received ?r"
      using inv r' by (auto simp: receiver_ok_def received_def fun_eq_iff)
    moreover assume "acks' = ch_acks c"
    ultimately show ?thesis by simp
  next
    assume a: "\<forall>k pid bs. slot r' k pid bs \<longleftrightarrow> slot ?r k pid bs"
    then have "slot r' = slot ?r" by (intro ext) simp
    then have "receiver_ok cap ?q ?d r'" "received r' = received ?r"
      using inv r' by (auto simp: receiver_ok_def received_def fun_eq_iff)
    moreover assume "set acks' \<subseteq> insert (pid_of j) (set (ch_acks c))" "\<not> reliable_not_replay ?r (pid_of j)"
    ultimately show ?thesis using replay_received [OF inv assms(2) j(1)] by auto
  next
    fix i
    assume a: "set acks' \<subseteq> insert (pid_of j) (set (ch_acks c))" "i < rel_size ?r" "\<not> active (rel_array ?r ! i)"
      "\<forall>k pid bs. slot r' k pid bs \<longleftrightarrow> (if k = i then pid = pid_of j \<and> bs = ?q ! j else slot ?r k pid bs)"
      "reliable_not_replay ?r (pid_of j)" "reliable_wont_break_sequentiality ?r (pid_of j)"
    note w = accepted_in_window [OF inv assms(2) j(1) a(5,6)]
    have "\<exists>j < length ?q. pid = pid_of j \<and> bs = ?q ! j \<and> length ?d \<le> j \<and> j < length ?d + rel_size r'"
      if "slot r' k pid bs" for k pid bs
    proof (cases "k = i")
      case False
      then show ?thesis using that a(4) inv r'(2) unfolding receiver_ok_def by auto
    qed (use that a(4) w j(1) r'(2) in auto)
    moreover have "k = l" if "slot r' k pid bs" "slot r' l pid cs" for k l pid bs cs
    proof -
      have "slot ?r k pid bs \<Longrightarrow> slot ?r l pid cs \<Longrightarrow> k = l" using inv unfolding receiver_ok_def by blast
      then show ?thesis using that a(4) w(3) by (auto split: if_splits)
    qed
    ultimately have "receiver_ok cap ?q ?d r'"
      using inv r' unfolding receiver_ok_def by auto
    moreover have "received r' ?d l" if "received ?r ?d l" for l
    proof -
      have "slot ?r k pid bs \<Longrightarrow> slot r' k pid bs" for k pid bs using a(3,4) by (auto simp: slot_def)
      then show ?thesis using that unfolding received_def by blast
    qed
    moreover have "received r' ?d j" using a(4) unfolding received_def by metis
    ultimately show ?thesis using a(1) by auto
  qed
  then have new: "receiver_ok cap ?q ?d r'" "\<And>l. received ?r ?d l \<Longrightarrow> received r' ?d l"
    "\<And>pid. pid \<in> set acks' \<Longrightarrow> pid \<in> set (ch_acks c) \<or> pid = pid_of j \<and> received r' ?d j"
    by auto
  note g = received_grows [OF assms(1) new(2)]
  have "acked_ok ?q r' ?d pid" if "pid \<in> set acks'" for pid
    using new(3) [OF that] g(1) j(1) by (auto simp: acked_ok_def)
  then have "ch_inv cap (c\<lparr>ch_rec := r', ch_acks := acks'\<rparr>)"
    using assms(1) new(1) g by (auto simp: ch_inv_def)
  then show ?thesis using True t by simp
qed (use assms in simp)

lemma step_send_acks:
  assumes "ch_inv cap c"
  shows "\<exists>c'. ch_step (Send_acks mx) c = Some c' \<and> ch_inv cap c'"
proof -
  let ?n = "min mx (length (ch_acks c))"
  have l: "length (ch_lru c) \<le> RELIABLE_ACK_SIZE" using assms by (simp add: ch_inv_def)
  obtain lru' where lru': "copy_acks_to_lru (ch_acks c) (ch_lru c) ?n = Some lru'"
    by (simp add: copy_acks_to_lru_def)
  note sub = lru_subset [OF l lru']
  have "acked_ok (ch_queued c) (ch_rec c) (ch_delivered c) pid"
    if "pid \<in> set (drop ?n (ch_acks c)) \<union> set lru' \<union> \<Union> (set ` set (ch_ack_net c @ [take mx lru']))" for pid
  proof -
    have "pid \<in> set (ch_acks c) \<union> set (ch_lru c) \<union> \<Union> (set ` set (ch_ack_net c))"
      using that sub in_set_takeD [of pid mx lru'] in_set_dropD [of pid ?n "ch_acks c"] by auto
    then show ?thesis using assms by (auto simp: ch_inv_def)
  qed
  then have "ch_inv cap (c\<lparr>ch_acks := drop ?n (ch_acks c), ch_lru := lru',
      ch_ack_net := ch_ack_net c @ [take mx lru']\<rparr>)"
    using assms sub by (auto simp: ch_inv_def)
  then show ?thesis using lru' by (simp add: Let_def)
qed


lemma step_queued:
  assumes "ch_step e c = Some c'"
  shows "length (ch_queued c') \<le> Suc (length (ch_queued c))"
proof (cases e)
  case (Queue opc msg)
  then show ?thesis using assms by (auto simp: bind_eq_Some_conv)
next
  case (Transmit nw)
  then show ?thesis using assms by (auto split: if_splits prod.splits option.splits)
next
  case (Arrive k)
  then show ?thesis using assms by (auto simp: bind_eq_Some_conv split: if_splits)
next
  case Consume
  then show ?thesis using assms by (auto simp: bind_eq_Some_conv split: option.splits)
next
  case (Send_acks mx)
  then show ?thesis using assms by (auto simp: bind_eq_Some_conv Let_def)
qed (use assms in \<open>auto split: if_splits\<close>)

lemma step_total:
  assumes "ch_inv cap c" "length (ch_queued c) \<le> 2 ^ 31"
  shows "\<exists>c'. ch_step e c = Some c' \<and> ch_inv cap c'"
proof (cases e)
  case (Queue opc msg)
  show ?thesis unfolding Queue by (rule step_queue [OF assms(1)])
next
  case (Transmit nw)
  show ?thesis unfolding Transmit by (rule step_transmit [OF assms(1)])
next
  case (Reschedule nw)
  show ?thesis unfolding Reschedule by (rule step_reschedule [OF assms(1)])
next
  case (Arrive k)
  show ?thesis unfolding Arrive by (rule step_arrive [OF assms])
next
  case Consume
  show ?thesis unfolding Consume by (rule step_consume [OF assms])
next
  case (Send_acks mx)
  show ?thesis unfolding Send_acks by (rule step_send_acks [OF assms(1)])
next
  case (Acks_arrive k)
  show ?thesis unfolding Acks_arrive by (rule step_acks_arrive [OF assms])
qed

lemma ch_run_total:
  assumes "ch_inv cap c" "length (ch_queued c) + length evs \<le> 2 ^ 31"
  shows "\<exists>c'. ch_run evs c = Some c' \<and> ch_inv cap c' \<and> length (ch_queued c') \<le> 2 ^ 31"
  using assms
proof (induction evs arbitrary: c)
  case (Cons e evs)
  obtain c1 where c1: "ch_step e c = Some c1" "ch_inv cap c1"
    using step_total [OF Cons.prems(1), of e] Cons.prems(2) by auto
  then have "length (ch_queued c1) + length evs \<le> 2 ^ 31"
    using step_queued [OF c1(1)] Cons.prems(2) by simp
  from Cons.IH [OF c1(2) this] c1(1) show ?case by auto
qed simp

lemma ch_run_inv:
  assumes "ch_init n off n_send n_rec pt = Some c0" "4 \<le> off" "off \<le> n" "length evs \<le> 2 ^ 31"
  shows "\<exists>c. ch_run evs c0 = Some c \<and> ch_inv n c \<and> length (ch_queued c) \<le> 2 ^ 31"
  using ch_run_total [of n c0 evs] ch_init_inv [OF assms(1)] assms(2-4) by simp

section \<open>What the channel guarantees\<close>



text \<open>
  C21. The receiving window never gets stuck: either it has a free buffer for another packet, or the
  next message of the sequence is there to be consumed. (This is what the comment in
  \<^verbatim>\<open>tls_pre_decrypt\<close> calls avoiding deadlock.)
\<close>
theorem control_channel_no_deadlock:
  assumes "ch_init n off n_send n_rec pt = Some c0" "4 \<le> off" "off \<le> n" "length evs \<le> 2 ^ 31"
    "ch_run evs c0 = Some c"
  shows "reliable_can_get (ch_rec c) \<or> reliable_get_entry_sequenced (ch_rec c) \<noteq> None"
proof (rule disjCI, simp)
  let ?r = "ch_rec c" and ?d = "ch_delivered c" and ?q = "ch_queued c"
  assume "reliable_get_entry_sequenced ?r = None"
  have inv: "ch_inv n c" using ch_run_inv [OF assms(1-4)] assms(5) by auto
  then have r: "receiver_ok n ?q ?d ?r" by (simp add: ch_inv_def)
  then have sz: "0 < rel_size ?r" and pid: "rel_packet_id ?r = pid_of (length ?d)"
    by (auto simp: receiver_ok_def rel_ok_def)
  show "reliable_can_get ?r"
  proof (rule ccontr)
    assume full: "\<not> reliable_can_get ?r"
    have act: "\<exists>pid bs. slot ?r k pid bs" if "k < rel_size ?r" for k
      using full that by (auto simp: reliable_can_get_def list_ex_iff slot_def rel_size_def)
    have "\<forall>k \<in> {..< rel_size ?r}. \<exists>j. (\<exists>bs. slot ?r k (pid_of j) bs) \<and> length ?d \<le> j \<and> j < length ?d + rel_size ?r"
    proof
      fix k assume "k \<in> {..< rel_size ?r}"
      then obtain pid bs where s: "slot ?r k pid bs" using act [of k] by auto
      then obtain j where "pid = pid_of j" "length ?d \<le> j" "j < length ?d + rel_size ?r"
        using r unfolding receiver_ok_def by blast
      then show "\<exists>j. (\<exists>bs. slot ?r k (pid_of j) bs) \<and> length ?d \<le> j \<and> j < length ?d + rel_size ?r"
        using s by blast
    qed
    from bchoice [OF this] obtain f where f: "\<And>k. k < rel_size ?r \<Longrightarrow>
        (\<exists>bs. slot ?r k (pid_of (f k)) bs) \<and> length ?d \<le> f k \<and> f k < length ?d + rel_size ?r"
      by auto
    have "inj_on f {..< rel_size ?r}"
    proof (rule inj_onI)
      fix k l assume "k \<in> {..< rel_size ?r}" "l \<in> {..< rel_size ?r}" "f k = f l"
      then obtain bs cs where "slot ?r k (pid_of (f k)) bs" "slot ?r l (pid_of (f k)) cs"
        using f [of k] f [of l] by auto
      then show "k = l" using r unfolding receiver_ok_def by blast
    qed
    moreover have "f ` {..< rel_size ?r} \<subseteq> {length ?d ..< length ?d + rel_size ?r}" using f by auto
    ultimately have "f ` {..< rel_size ?r} = {length ?d ..< length ?d + rel_size ?r}"
      by (intro card_subset_eq) (simp_all add: card_image)
    then have "length ?d \<in> f ` {..< rel_size ?r}" using sz by simp
    then obtain k where "k < rel_size ?r" "f k = length ?d" by auto
    then show False
      using f [of k] \<open>reliable_get_entry_sequenced ?r = None\<close> by (auto simp: entry_sequenced_None pid)
  qed
qed

text \<open>A run in which the first packet is lost, the second overtakes it, and both arrive twice.\<close>

definition demo_events :: "ch_event list" where
  "demo_events = [Queue 4 [1], Queue 4 [2, 3], Transmit 10, Transmit 10, Arrive 1, Arrive 1, Consume,
     Transmit 20, Arrive 2, Consume, Send_acks 4, Consume, Acks_arrive 0]"

definition demo_start :: channel where
  "demo_start = the (ch_init 8 4 2 2 2)"

lemma demo_start_init: "ch_init 8 4 2 2 2 = Some demo_start"
  by (simp add: demo_start_def ch_init_def reliable_init_def alloc_buf_def buf_init_def buf_size_valid_def
      BUF_SIZE_MAX_def RELIABLE_CAPACITY_def)

lemma demo_facts:
  "map_option (\<lambda>c. (ch_queued c, ch_delivered c, reliable_empty (ch_send c),
      reliable_get_entry_sequenced (ch_rec c))) (ch_run demo_events demo_start) = 
   Some ([[1], [2, 3]], [[1], [2, 3]], True, None)"
  by code_simp

lemma demo_run:
  "\<exists>c. ch_run demo_events demo_start = Some c \<and> ch_queued c = [[1], [2, 3]] \<and>
     reliable_empty (ch_send c) \<and> reliable_get_entry_sequenced (ch_rec c) = None"
  using demo_facts by (cases "ch_run demo_events demo_start") simp_all



theorem control_channel_no_deadlock_witness:
  "\<exists>c. ch_run demo_events demo_start = Some c \<and>
     (reliable_can_get (ch_rec c) \<or> reliable_get_entry_sequenced (ch_rec c) \<noteq> None)"
proof -
  obtain c where c: "ch_run demo_events demo_start = Some c" using demo_run by blast
  have "reliable_can_get (ch_rec c) \<or> reliable_get_entry_sequenced (ch_rec c) \<noteq> None"
    by (rule control_channel_no_deadlock [OF demo_start_init _ _ _ c]) (simp_all add: demo_events_def)
  with c show ?thesis by blast
qed

section \<open>Retransmission order and timing\<close>

text \<open>
  Retransmission: of the entries that are due (their time has come, or three later packets have
  been acknowledged), \<^verbatim>\<open>reliable_send\<close> takes the oldest, doubles its timeout, sets its next attempt
  one timeout ahead, and leaves the others alone.
\<close>
lemma reliable_send_oldest_due:
  assumes "rel_ok cap rel" "send_window rel" "reliable_send nw rel = (Some (i, opc), rel')"
  shows "due nw (rel_array rel ! i) \<and>
    (\<forall>k < rel_size rel. due nw (rel_array rel ! k) \<longrightarrow>
       unat (rel_packet_id rel - e_packet_id (rel_array rel ! k)) \<le>
       unat (rel_packet_id rel - e_packet_id (rel_array rel ! i))) \<and>
    rel_array rel' ! i = (rel_array rel ! i)\<lparr>next_try := nw + timeout (rel_array rel ! i),
      timeout := 2 * timeout (rel_array rel ! i), n_acks := 0\<rparr> \<and>
    (\<forall>k. k \<noteq> i \<longrightarrow> rel_array rel' ! k = rel_array rel ! k)"
proof -
  have sz: "rel_size rel \<le> 12" using assms(1) by (simp add: rel_ok_def)
  obtain e where e: "best_entry nw 0 (rel_array rel) None = Some (i, e)"
    using assms(3) by (auto simp: reliable_send_def split: option.splits)
  note s = reliable_send_cases [OF assms(3)] and b = best_entry_Some [OF e]
    and o = best_entry_oldest [OF e send_window_ages [OF assms(2) sz]]
  have ei: "e = rel_array rel ! i" using b by simp
  have "unat (rel_packet_id rel - e_packet_id (rel_array rel ! k)) \<le>
      unat (rel_packet_id rel - e_packet_id (rel_array rel ! i))"
    if "k < rel_size rel" "due nw (rel_array rel ! k)" for k
    using o that ei by (simp add: rel_size_def)
  moreover have "i < length (rel_array rel)" using s by (simp add: rel_size_def)
  ultimately show ?thesis using s by (simp add: mult.commute)
qed

lemma demo_send:
  "map_option (\<lambda>c. fst (reliable_send 10 (ch_send c))) (ch_run (take 2 demo_events) demo_start) = Some (Some (0, 4))"
  by code_simp

lemma reliable_send_oldest_due_witness:
  "\<exists>c rel'. ch_run (take 2 demo_events) demo_start = Some c \<and>
     reliable_send 10 (ch_send c) = (Some (0, 4), rel') \<and>
     rel_array rel' ! 0 = (rel_array (ch_send c) ! 0)\<lparr>next_try := 10 + timeout (rel_array (ch_send c) ! 0),
       timeout := 2 * timeout (rel_array (ch_send c) ! 0), n_acks := 0\<rparr>"
proof -
  obtain c where c: "ch_run (take 2 demo_events) demo_start = Some c"
    "fst (reliable_send 10 (ch_send c)) = Some (0, 4)"
    using demo_send by (cases "ch_run (take 2 demo_events) demo_start") auto
  then obtain rel' where r: "reliable_send 10 (ch_send c) = (Some (0, 4), rel')"
    by (cases "reliable_send 10 (ch_send c)") simp
  have "ch_inv 8 c"
    using ch_run_inv [OF demo_start_init, of "take 2 demo_events"] c(1) by (simp add: demo_events_def)
  then have "rel_ok 8 (ch_send c)" "send_window (ch_send c)" by (auto simp: ch_inv_def sender_ok_def)
  from reliable_send_oldest_due [OF this r] c(1) r show ?thesis by blast
qed

text \<open>
  The time to sleep: \<^verbatim>\<open>reliable_send_timeout\<close> is zero exactly if an active entry is due by its
  time, and otherwise the least time until one will be, a week at most.
\<close>
lemma reliable_send_timeout_exact:
  "reliable_send_timeout nw rel =
     (if \<exists>e \<in> set (rel_array rel). active e \<and> next_try e \<le> nw then 0
      else Min (insert BIG_TIMEOUT ((\<lambda>e. next_try e - nw) ` {e \<in> set (rel_array rel). active e})))"
proof -
  have "send_timeout_loop nw es r =
     (if \<exists>e \<in> set es. active e \<and> next_try e \<le> nw then 0
      else Min (insert r ((\<lambda>e. next_try e - nw) ` {e \<in> set es. active e})))" for es r
  proof (induction nw es r rule: send_timeout_loop.induct)
    case (2 nw e es r)
    let ?A = "(\<lambda>e. next_try e - nw) ` {e \<in> set es. active e}"
    have "{x \<in> set (e # es). active x} = (if active e then insert e {x \<in> set es. active x} else {x \<in> set es. active x})"
      by auto
    moreover have "Min (insert r (insert x A)) = Min (insert (min_int r x) A)" if "finite A" for A x
      using that by (cases "A = {}") (auto simp: min_int_def min_def)
    then have "Min (insert r (insert (next_try e - nw) ?A)) = Min (insert (min_int r (next_try e - nw)) ?A)"
      by simp
    ultimately show ?case using 2 by auto
  qed simp
  then show ?thesis by (simp add: reliable_send_timeout_def)
qed


end
