(* ===== verification/Fragment.thy ===== *)
theory Fragment
  imports Buffer
begin

text \<open>
  Datagram fragmentation (\<^verbatim>\<open>fragment.c\<close>, \<^verbatim>\<open>fragment.h\<close>): an outgoing datagram that exceeds the maximal
  fragment size is cut into at most 32 pieces, each with a header of one 32-bit word; the receiver keeps
  up to 25 datagrams under reassembly, found by an 8-bit sequence id.
\<close>

section \<open>Parameters and state\<close>

text \<open>The fields of \<^verbatim>\<open>struct frame\<close> (mtu.h) that the code reads, and \<^verbatim>\<open>BUF_SIZE\<close>.\<close>

record frame =
  headroom :: int
  payload_size :: int
  tailroom :: int
  max_fragment_size :: int

definition BUF_SIZE :: "frame \<Rightarrow> int" where
  "BUF_SIZE fr = headroom fr + payload_size fr + tailroom fr"

definition N_FRAG_BUF :: int where "N_FRAG_BUF = 25"
definition FRAG_TTL_SEC :: int where "FRAG_TTL_SEC = 10"
definition N_SEQ_ID :: int where "N_SEQ_ID = 256"
definition MAX_FRAGS :: int where "MAX_FRAGS = 32"
definition FRAG_MAP_MASK :: u32 where "FRAG_MAP_MASK = 0xFFFFFFFF"

definition FRAG_TYPE_MASK :: u32 where "FRAG_TYPE_MASK = 0x00000003"
definition FRAG_WHOLE :: u32 where "FRAG_WHOLE = 0"
definition FRAG_YES_NOTLAST :: u32 where "FRAG_YES_NOTLAST = 1"
definition FRAG_YES_LAST :: u32 where "FRAG_YES_LAST = 2"
definition FRAG_SEQ_ID_MASK :: u32 where "FRAG_SEQ_ID_MASK = 0x000000ff"
definition FRAG_SEQ_ID_SHIFT :: nat where "FRAG_SEQ_ID_SHIFT = 2"
definition FRAG_ID_MASK :: u32 where "FRAG_ID_MASK = 0x0000001f"
definition FRAG_ID_SHIFT :: nat where "FRAG_ID_SHIFT = 10"
definition FRAG_SIZE_MASK :: u32 where "FRAG_SIZE_MASK = 0x00003fff"
definition FRAG_SIZE_SHIFT :: nat where "FRAG_SIZE_SHIFT = 15"
definition FRAG_SIZE_ROUND_SHIFT :: nat where "FRAG_SIZE_ROUND_SHIFT = 2"
definition FRAG_SIZE_ROUND_MASK :: int where "FRAG_SIZE_ROUND_MASK = 3"

record fragment =
  f_defined :: bool
  f_max_frag_size :: int
  f_map :: u32
  f_timestamp :: time
  f_buf :: buffer

record fragment_list =
  fl_seq_id :: int
  fl_index :: int
  fl_fragments :: "fragment list"

text \<open>The wakeup timer of \<^verbatim>\<open>struct fragment_master\<close> only decides when the reaper below runs.\<close>

record fragment_master =
  outgoing_seq_id :: int
  outgoing_frag_size :: int
  outgoing_frag_id :: int
  outgoing :: buffer
  outgoing_return :: buffer
  incoming :: fragment_list

section \<open>Initialisation\<close>

definition fragment_init :: "int \<Rightarrow> fragment_master" where
  "fragment_init rnd =
     \<lparr>outgoing_seq_id = rnd AND (N_SEQ_ID - 1), outgoing_frag_size = 0, outgoing_frag_id = 0,
      outgoing = clear_buf, outgoing_return = clear_buf,
      incoming = \<lparr>fl_seq_id = 0, fl_index = 0,
        fl_fragments = replicate (nat N_FRAG_BUF)
          \<lparr>f_defined = False, f_max_frag_size = 0, f_map = 0, f_timestamp = 0, f_buf = clear_buf\<rparr>\<rparr>\<rparr>"

definition fragment_frame_init :: "fragment_master \<Rightarrow> frame \<Rightarrow> fragment_master option" where
  "fragment_frame_init f fr =
     do { b \<leftarrow> alloc_buf (BUF_SIZE fr);
          Some (f\<lparr>incoming := (incoming f)\<lparr>fl_fragments := map (\<lambda>g. g\<lparr>f_buf := b\<rparr>) (fl_fragments (incoming f))\<rparr>,
                  outgoing := b, outgoing_return := b\<rparr>) }"

section \<open>Reassembly\<close>

text \<open>The loop of \<^verbatim>\<open>fragment_list_get_buf\<close> that moves the window forward by \<open>diff\<close> ids.\<close>

fun fl_advance :: "nat \<Rightarrow> fragment_list \<Rightarrow> fragment_list option" where
  "fl_advance 0 l = Some l"
| "fl_advance (Suc diff) l =
     do { i \<leftarrow> modulo_add (fl_index l) 1 N_FRAG_BUF;
          s \<leftarrow> modulo_add (fl_seq_id l) 1 N_SEQ_ID;
          fl_advance diff
            (l\<lparr>fl_index := i,
               fl_fragments := (fl_fragments l)[nat i := (fl_fragments l ! nat i)\<lparr>f_defined := False\<rparr>],
               fl_seq_id := s\<rparr>) }"

text \<open>The result is the index of the fragment buffer.\<close>

definition fragment_list_get_buf :: "fragment_list \<Rightarrow> int \<Rightarrow> (fragment_list \<times> nat) option" where
  "fragment_list_get_buf l seq_id =
     do { diff \<leftarrow> modulo_subtract seq_id (fl_seq_id l) N_SEQ_ID;
          let (l, diff) =
            (if \<bar>diff\<bar> \<ge> N_FRAG_BUF
             then (l\<lparr>fl_fragments := map (\<lambda>g. g\<lparr>f_defined := False\<rparr>) (fl_fragments l),
                     fl_index := 0, fl_seq_id := seq_id\<rparr>, 0)
             else (l, diff));
          l \<leftarrow> fl_advance (nat diff) l;
          i \<leftarrow> modulo_add (fl_index l) (if diff > 0 then 0 else diff) N_FRAG_BUF;
          Some (l, nat i) }"

text \<open>
  \<^verbatim>\<open>fragment_incoming\<close>: \<open>None\<close> is a failed assertion. A buffer of length zero is one that has been
  consumed; the pieces of an error exit are in \<open>frag_drop\<close>.
\<close>

definition frag_drop :: "buffer \<Rightarrow> buffer" where
  "frag_drop b = b\<lparr>b_len := 0\<rparr>"

definition fragment_store ::
  "time \<Rightarrow> fragment_list \<Rightarrow> buffer \<Rightarrow> frame \<Rightarrow> u32 \<Rightarrow> (fragment_list \<times> buffer) option" where
  "fragment_store nw l b fr flags =
     (let frag_type = flags AND FRAG_TYPE_MASK;
          seq_id = uint (drop_bit FRAG_SEQ_ID_SHIFT flags AND FRAG_SEQ_ID_MASK);
          n = uint (drop_bit FRAG_ID_SHIFT flags AND FRAG_ID_MASK);
          sz = (if frag_type = FRAG_YES_LAST
                then uint (push_bit FRAG_SIZE_ROUND_SHIFT (drop_bit FRAG_SIZE_SHIFT flags AND FRAG_SIZE_MASK))
                else b_len b)
      in do { (l, i) \<leftarrow> fragment_list_get_buf l seq_id;
              let frag = fl_fragments l ! i;
              if sz AND FRAG_SIZE_ROUND_MASK \<noteq> 0 then Some (l, frag_drop b)
              else do {
                frag \<leftarrow> (if \<not> f_defined frag \<or> f_max_frag_size frag \<noteq> sz
                         then do { fb \<leftarrow> buf_init (f_buf frag) (headroom fr);
                                   Some (frag\<lparr>f_defined := True, f_max_frag_size := sz, f_map := 0, f_buf := fb\<rparr>) }
                         else Some frag);
                (case buf_copy_range (f_buf frag) (n * sz) b 0 (b_len b) of
                   None \<Rightarrow> Some (l\<lparr>fl_fragments := (fl_fragments l)[i := frag]\<rparr>, frag_drop b)
                 | Some fb \<Rightarrow>
                     (let mp = f_map frag OR
                                 push_bit (nat n) (if frag_type = FRAG_YES_LAST then FRAG_MAP_MASK else 1);
                          frag = frag\<lparr>f_buf := fb, f_map := mp, f_timestamp := nw\<rparr>;
                          full = (mp AND FRAG_MAP_MASK = FRAG_MAP_MASK);
                          frag = (if full then frag\<lparr>f_defined := False\<rparr> else frag)
                      in Some (l\<lparr>fl_fragments := (fl_fragments l)[i := frag]\<rparr>,
                               if full then f_buf frag else b\<lparr>b_len := 0\<rparr>))) } })"

definition fragment_incoming ::
  "time \<Rightarrow> fragment_master \<Rightarrow> buffer \<Rightarrow> frame \<Rightarrow> (fragment_master \<times> buffer) option" where
  "fragment_incoming nw f b fr =
     (if b_len b > 0
      then case buf_read b 4 of
             (None, b) \<Rightarrow> Some (f, frag_drop b)
           | (Some h, b) \<Rightarrow>
               (let flags = of_be32 h; frag_type = flags AND FRAG_TYPE_MASK in
                if frag_type = FRAG_WHOLE
                then if flags AND (FRAG_SEQ_ID_MASK OR FRAG_ID_MASK) \<noteq> 0
                     then Some (f, frag_drop b) else Some (f, b)
                else if frag_type = FRAG_YES_NOTLAST \<or> frag_type = FRAG_YES_LAST
                then do { (l, b) \<leftarrow> fragment_store nw (incoming f) b fr flags;
                          Some (f\<lparr>incoming := l\<rparr>, b) }
                else Some (f, frag_drop b))
      else Some (f, b))"

section \<open>Fragmentation\<close>

definition fragment_prepend_flags :: "buffer \<Rightarrow> u32 \<Rightarrow> int \<Rightarrow> int \<Rightarrow> int \<Rightarrow> buffer option" where
  "fragment_prepend_flags b type seq_id frag_id frag_size =
     (let flags = (type AND FRAG_TYPE_MASK)
                  OR push_bit FRAG_SEQ_ID_SHIFT (word_of_int seq_id AND FRAG_SEQ_ID_MASK)
                  OR push_bit FRAG_ID_SHIFT (word_of_int frag_id AND FRAG_ID_MASK);
          flags = (if type = FRAG_WHOLE \<or> type = FRAG_YES_NOTLAST then flags
                   else flags OR push_bit FRAG_SIZE_SHIFT
                     (drop_bit FRAG_SIZE_ROUND_SHIFT (word_of_int frag_size) AND FRAG_SIZE_MASK))
      in buf_write_prepend b (be32 flags))"

definition optimal_fragment_size :: "int \<Rightarrow> int \<Rightarrow> int" where
  "optimal_fragment_size len max_frag_size =
     (let mfs_aligned = max_frag_size AND NOT FRAG_SIZE_ROUND_MASK;
          dv = len div mfs_aligned;
          md = len mod mfs_aligned
      in if dv > 0 \<and> md > 0 \<and> md < mfs_aligned * 3 div 4
         then min_int mfs_aligned
                ((max_frag_size - (max_frag_size - md) div (dv + 1) + FRAG_SIZE_ROUND_MASK)
                 AND NOT FRAG_SIZE_ROUND_MASK)
         else mfs_aligned)"

definition fragment_outgoing_defined :: "fragment_master \<Rightarrow> bool" where
  "fragment_outgoing_defined f \<longleftrightarrow> b_len (outgoing f) > 0"

definition fragment_ready_to_send ::
  "fragment_master \<Rightarrow> buffer \<Rightarrow> frame \<Rightarrow> (bool \<times> fragment_master \<times> buffer) option" where
  "fragment_ready_to_send f b fr =
     (if fragment_outgoing_defined f
      then let is_last = (b_len (outgoing f) \<le> outgoing_frag_size f);
               sz = (if is_last then b_len (outgoing f) else outgoing_frag_size f)
           in do { b \<leftarrow> buf_init (outgoing_return f) (headroom fr);
                   (case buf_copy_n b (outgoing f) sz of
                      (False, _, _) \<Rightarrow> None
                    | (True, b, out) \<Rightarrow>
                        do { b \<leftarrow> fragment_prepend_flags b (if is_last then FRAG_YES_LAST else FRAG_YES_NOTLAST)
                                   (outgoing_seq_id f) (outgoing_frag_id f) (outgoing_frag_size f);
                             if is_last \<and> b_len out \<noteq> 0 then None
                             else Some (True, f\<lparr>outgoing := out, outgoing_frag_id := outgoing_frag_id f + 1\<rparr>, b) }) }
      else Some (False, f, b))"

definition fragment_outgoing ::
  "fragment_master \<Rightarrow> buffer \<Rightarrow> frame \<Rightarrow> (fragment_master \<times> buffer) option" where
  "fragment_outgoing f b fr =
     (if b_len b > 0
      then if b_len b > max_fragment_size fr
           then let f = f\<lparr>outgoing_frag_size := optimal_fragment_size (b_len b) (max_fragment_size fr)\<rparr> in
                if b_len b > outgoing_frag_size f * MAX_FRAGS then Some (f, frag_drop b)
                else do { out \<leftarrow> buf_init (outgoing f) (headroom fr);
                          out \<leftarrow> buf_copy out b;
                          s \<leftarrow> modulo_add (outgoing_seq_id f) 1 N_SEQ_ID;
                          (sent, f, b) \<leftarrow> fragment_ready_to_send
                            (f\<lparr>outgoing := out, outgoing_seq_id := s, outgoing_frag_id := 0\<rparr>) (b\<lparr>b_len := 0\<rparr>) fr;
                          if sent then Some (f, b) else None }
           else do { b \<leftarrow> fragment_prepend_flags b FRAG_WHOLE 0 0 0; Some (f, b) }
      else Some (f, b))"

section \<open>Expiry\<close>

definition fragment_ttl_reap :: "time \<Rightarrow> fragment_master \<Rightarrow> fragment_master" where
  "fragment_ttl_reap nw f =
     f\<lparr>incoming := (incoming f)\<lparr>fl_fragments :=
         map (\<lambda>g. if f_defined g \<and> f_timestamp g + FRAG_TTL_SEC \<le> nw then g\<lparr>f_defined := False\<rparr> else g)
           (fl_fragments (incoming f))\<rparr>\<rparr>"

definition fragment_wakeup :: "time \<Rightarrow> fragment_master \<Rightarrow> fragment_master" where
  "fragment_wakeup nw f = fragment_ttl_reap nw f"

section \<open>The header word\<close>

lemma frag_masks:
  "FRAG_TYPE_MASK = mask 2" "FRAG_SEQ_ID_MASK = mask 8" "FRAG_ID_MASK = mask 5" "FRAG_SIZE_MASK = mask 14"
  by (simp_all add: FRAG_TYPE_MASK_def FRAG_SEQ_ID_MASK_def FRAG_ID_MASK_def FRAG_SIZE_MASK_def mask_eq_exp_minus_1)

definition frag_header :: "u32 \<Rightarrow> u32 \<Rightarrow> u32 \<Rightarrow> u32 \<Rightarrow> u32" where
  "frag_header ty s n z =
     (ty AND FRAG_TYPE_MASK) OR push_bit FRAG_SEQ_ID_SHIFT (s AND FRAG_SEQ_ID_MASK)
       OR push_bit FRAG_ID_SHIFT (n AND FRAG_ID_MASK) OR push_bit FRAG_SIZE_SHIFT (z AND FRAG_SIZE_MASK)"

lemma frag_header_fields:
  "frag_header ty s n z AND FRAG_TYPE_MASK = ty AND FRAG_TYPE_MASK"
  "drop_bit FRAG_SEQ_ID_SHIFT (frag_header ty s n z) AND FRAG_SEQ_ID_MASK = s AND FRAG_SEQ_ID_MASK"
  "drop_bit FRAG_ID_SHIFT (frag_header ty s n z) AND FRAG_ID_MASK = n AND FRAG_ID_MASK"
  "drop_bit FRAG_SIZE_SHIFT (frag_header ty s n z) AND FRAG_SIZE_MASK = z AND FRAG_SIZE_MASK"
  unfolding frag_header_def frag_masks FRAG_SEQ_ID_SHIFT_def FRAG_ID_SHIFT_def FRAG_SIZE_SHIFT_def
  by (rule bit_word_eqI, auto simp: bit_simps)+

lemma uint_and_mask: "0 \<le> x \<Longrightarrow> x < 2 ^ k \<Longrightarrow> k \<le> 31 \<Longrightarrow> uint (word_of_int x AND mask k :: u32) = x"
proof -
  assume x: "0 \<le> x" "x < 2 ^ k" "k \<le> 31"
  have "(2 :: int) ^ k \<le> 2 ^ 31" using x(3) by (intro power_increasing) auto
  then have u: "uint (word_of_int x :: u32) = x" using x by (intro u32_of_int_small) auto
  have "uint (word_of_int x AND mask k :: u32) = uint (take_bit k (word_of_int x :: u32))"
    by (simp only: take_bit_eq_mask)
  also have "\<dots> = take_bit k (uint (word_of_int x :: u32))" by (rule unsigned_take_bit_eq)
  also have "\<dots> = x" using u x by (simp add: take_bit_int_eq_self)
  finally show ?thesis .
qed

text \<open>A size that is a multiple of four survives the encoding.\<close>

lemma frag_size_roundtrip:
  assumes "0 \<le> sz" "sz < 65536" "sz mod 4 = 0"
  shows "uint (push_bit FRAG_SIZE_ROUND_SHIFT
    (drop_bit FRAG_SIZE_ROUND_SHIFT (word_of_int sz) AND FRAG_SIZE_MASK) :: u32) = sz"
proof -
  have u: "uint (word_of_int sz :: u32) = sz" using assms by (intro u32_of_int_small) auto
  have d: "uint (drop_bit 2 (word_of_int sz) :: u32) = sz div 4"
    using u assms unsigned_drop_bit_eq [of 2 "word_of_int sz :: u32", where ?'a = int]
    by (simp only: take_bit_int_eq_self_iff) (simp add: drop_bit_eq_div uint_div)
  have "drop_bit 2 (word_of_int sz) = (word_of_int (sz div 4) :: u32)"
    by (rule word_uint_eqI) (use assms d in \<open>simp add: u32_of_int_small\<close>)
  moreover have "sz div 4 < 2 ^ 14" using assms by auto
  ultimately have "uint (drop_bit 2 (word_of_int sz) AND mask 14 :: u32) = sz div 4"
    using assms uint_and_mask [of "sz div 4" 14] by simp
  moreover have "uint (push_bit 2 w :: u32) = 4 * uint w" if "uint w < 2 ^ 14" for w :: u32
    using that by (simp add: push_bit_eq_mult uint_word_ariths)
  moreover have "sz div 4 < 2 ^ 14" using assms by simp
  ultimately have "uint (push_bit 2 (drop_bit 2 (word_of_int sz) AND mask 14) :: u32) = 4 * (sz div 4)"
    by (simp del: push_bit_and)
  then show ?thesis using assms(3) unfolding frag_masks FRAG_SIZE_ROUND_SHIFT_def by auto
qed


lemma and_3_mod: "(x :: int) AND FRAG_SIZE_ROUND_MASK = x mod 4"
proof -
  have "x AND mask 2 = take_bit 2 x" by (simp only: take_bit_eq_mask)
  then show ?thesis by (simp add: FRAG_SIZE_ROUND_MASK_def take_bit_eq_mod mask_eq_exp_minus_1)
qed

lemma and_not_3: "(x :: int) AND NOT FRAG_SIZE_ROUND_MASK = x - x mod 4"
proof -
  have "(x AND NOT 3) + (x AND 3) = (x AND NOT 3) OR (x AND 3)"
    by (rule disjunctive_add_eq_or) (rule bit_eqI, auto simp: bit_simps)
  also have "\<dots> = x" by (rule bit_eqI) (auto simp: bit_simps)
  finally show ?thesis using and_3_mod [of x] by (simp add: FRAG_SIZE_ROUND_MASK_def)
qed

section \<open>The fragment size\<close>

lemma optimal_fragment_size_props:
  assumes "0 < len" "4 \<le> mx"
  shows "let s = optimal_fragment_size len mx; a = mx - mx mod 4 in
    0 < s \<and> s \<le> mx \<and> s mod 4 = 0 \<and> (len + s - 1) div s \<le> (len + a - 1) div a"
proof -
  define a where "a = mx - mx mod 4"
  have a: "0 < a" "a \<le> mx" "mx < a + 4" "a mod 4 = 0" using assms(2) by (auto simp: a_def)
  define dv md where "dv = len div a" and "md = len mod a"
  have len: "len = a * dv + md" "0 \<le> md" "md < a" "0 \<le> dv"
    using a(1) assms(1) by (auto simp: dv_def md_def pos_imp_zdiv_nonneg_iff)
  define s where "s = optimal_fragment_size len mx"
  define x where "x = mx - (mx - md) div (dv + 1)"
  define y where "y = (x + 3) - (x + 3) mod 4"
  have s_eq: "s = (if dv > 0 \<and> md > 0 \<and> md < a * 3 div 4 then min a y else a)"
    unfolding s_def optimal_fragment_size_def Let_def and_not_3
    unfolding y_def x_def a_def [symmetric] FRAG_SIZE_ROUND_MASK_def min_int_eq
    unfolding dv_def [symmetric] md_def [symmetric] by (rule refl)
  have "0 < s \<and> s \<le> mx \<and> s mod 4 = 0 \<and> (len + s - 1) div s \<le> (len + a - 1) div a"
  proof (cases "dv > 0 \<and> md > 0 \<and> md < a * 3 div 4")
    case False
    then have "s = a" unfolding s_eq by (rule if_not_P)
    then show ?thesis using a by simp
  next
    case True
    have s: "s = min a y" unfolding s_eq using True by (rule if_P)
    have q: "(mx - md) div (dv + 1) * (dv + 1) \<le> mx - md" 
      using div_mult_mod_eq [of "mx - md" "dv + 1"] pos_mod_sign [of "dv + 1" "mx - md"] len(4) by linarith
    have "0 \<le> (mx - md) div (dv + 1)" using True a len by (intro pos_imp_zdiv_nonneg_iff [THEN iffD2]) auto
    have "(mx - md) div (dv + 1) \<le> (mx - md) div 1" using True a len by (intro zdiv_mono2) auto
    then have x: "md \<le> x" "x \<le> mx" unfolding x_def using \<open>0 \<le> (mx - md) div (dv + 1)\<close> by auto
    have y: "x \<le> y" "y mod 4 = 0" "0 < y" unfolding y_def using x True by (presburger, presburger, linarith+)
    have "x * (dv + 1) \<ge> mx * (dv + 1) - (mx - md)"
      using q by (simp add: x_def algebra_simps)
    then have "x * (dv + 1) \<ge> mx * dv + md" by (simp add: algebra_simps)
    moreover have "mx * dv \<ge> a * dv" using a(2) len(4) by (intro mult_right_mono) auto
    ultimately have "len \<le> x * (dv + 1)" using len(1) by linarith
    also have "\<dots> \<le> y * (dv + 1)" using y(1) len(4) by (intro mult_right_mono) auto
    finally have ly: "len \<le> y * (dv + 1)" .
    have la: "len \<le> a * (dv + 1)" using len by (simp add: algebra_simps)
    have ls: "len \<le> s * (dv + 1)" using ly la by (auto simp: s min_def)
    have s0: "0 < s" "s \<le> mx" "s mod 4 = 0" using y a by (auto simp: s min_def)
    have "(len + s - 1) div s \<le> (s * (dv + 1) + (s - 1)) div s"
      using ls s0(1) by (intro zdiv_mono1) (auto simp: algebra_simps)
    also have "\<dots> = dv + 1" using s0(1) by simp
    finally have "(len + s - 1) div s \<le> dv + 1" .
    moreover have "(a * (dv + 1)) div a \<le> (len + a - 1) div a"
      using len(1,2) True a(1) by (intro zdiv_mono1) (auto simp: algebra_simps)
    then have "dv + 1 \<le> (len + a - 1) div a" using a(1) by simp
    ultimately show ?thesis using s0 by simp
  qed
  then show ?thesis by (simp add: Let_def s_def a_def)
qed

text \<open>
  \<^verbatim>\<open>optimal_fragment_size\<close> keeps its promise: the size is a positive multiple of four, no more
  than the allowed maximum, and the datagram needs no more fragments than with the largest size.
\<close>
lemma optimal_fragment_size_correct:
  assumes "0 < len" "4 \<le> mx"
  shows "let s = optimal_fragment_size len mx; a = mx - mx mod 4 in
    0 < s \<and> s \<le> mx \<and> s mod 4 = 0 \<and> (len + s - 1) div s \<le> (len + a - 1) div a"
  using assms by (rule optimal_fragment_size_props)

lemma optimal_fragment_size_correct_witness:
  "let s = optimal_fragment_size 1700 1400; a = 1400 - 1400 mod 4 in
    0 < s \<and> s \<le> 1400 \<and> s mod 4 = 0 \<and> (1700 + s - 1) div s \<le> (1700 + a - 1) div a"
  using optimal_fragment_size_correct [of 1700 1400] by simp

section \<open>The sender cuts the datagram\<close>

definition frame_ok :: "frame \<Rightarrow> bool" where
  "frame_ok fr \<longleftrightarrow> 4 \<le> headroom fr \<and> headroom fr \<le> BUF_SIZE fr \<and> BUF_SIZE fr < BUF_SIZE_MAX \<and>
     4 \<le> max_fragment_size fr \<and> max_fragment_size fr < 65536"

definition sender_ok :: "frame \<Rightarrow> fragment_master \<Rightarrow> bool" where
  "sender_ok fr f \<longleftrightarrow> buf_ok (outgoing f) \<and> b_capacity (outgoing f) = BUF_SIZE fr \<and>
     buf_ok (outgoing_return f) \<and> b_capacity (outgoing_return f) = BUF_SIZE fr \<and>
     0 \<le> outgoing_seq_id f \<and> outgoing_seq_id f < N_SEQ_ID"

text \<open>The header of piece \<open>j\<close>: only the last piece carries the fragment size.\<close>

definition piece_header :: "bool \<Rightarrow> int \<Rightarrow> nat \<Rightarrow> nat \<Rightarrow> u32" where
  "piece_header lst seq j s = frag_header (if lst then FRAG_YES_LAST else FRAG_YES_NOTLAST)
     (word_of_int seq) (word_of_nat j)
     (if lst then drop_bit FRAG_SIZE_ROUND_SHIFT (word_of_int (int s)) else 0)"

lemma prepend_flags_eq:
  "fragment_prepend_flags b (if lst then FRAG_YES_LAST else FRAG_YES_NOTLAST) seq (int j) (int s) =
   buf_write_prepend b (be32 (piece_header lst seq j s))"
  by (simp add: fragment_prepend_flags_def piece_header_def frag_header_def Let_def FRAG_WHOLE_def
      FRAG_YES_LAST_def FRAG_YES_NOTLAST_def or.assoc)

definition n_pieces :: "nat \<Rightarrow> nat \<Rightarrow> nat" where
  "n_pieces len s = (len + s - 1) div s"

lemma n_pieces_simps:
  assumes "0 < s"
  shows "n_pieces 0 s = 0" "0 < len \<Longrightarrow> len \<le> s \<Longrightarrow> n_pieces len s = 1"
    "s < len \<Longrightarrow> n_pieces len s = Suc (n_pieces (len - s) s)" "len \<le> n_pieces len s * s"
    "n_pieces len s \<le> m \<longleftrightarrow> len \<le> m * s"
proof -
  show "n_pieces 0 s = 0" using assms by (simp add: n_pieces_def)
  show "0 < len \<Longrightarrow> len \<le> s \<Longrightarrow> n_pieces len s = 1"
    using assms by (simp add: n_pieces_def div_nat_eqI)
  show "s < len \<Longrightarrow> n_pieces len s = Suc (n_pieces (len - s) s)"
  proof -
    assume "s < len"
    then have "len + s - 1 = (len - 1) + s" "len - s + s - 1 = len - 1" using assms by simp_all
    then show ?thesis using assms by (simp only: n_pieces_def div_add_self2 Suc_eq_plus1)
  qed
  have mono: "n_pieces len s \<le> m \<longleftrightarrow> len \<le> m * s" for m
  proof -
    have "(len + s - 1) div s \<le> m \<longleftrightarrow> (len + s - 1) div s < Suc m" by (rule less_Suc_eq_le [symmetric])
    also have "\<dots> \<longleftrightarrow> len + s - 1 < Suc m * s" using assms by (rule div_less_iff_less_mult)
    also have "\<dots> \<longleftrightarrow> len \<le> m * s" using assms by auto
    finally show ?thesis by (simp add: n_pieces_def)
  qed
  then show "n_pieces len s \<le> m \<longleftrightarrow> len \<le> m * s" .
  show "len \<le> n_pieces len s * s" using mono [of "n_pieces len s"] by simp
qed

text \<open>One piece is sent.\<close>

lemma ready_to_send_step:
  assumes "sender_ok fr f" "frame_ok fr" "headroom fr \<le> b_offset (outgoing f)"
    "buf_bytes (outgoing f) = q" "q \<noteq> []" "outgoing_frag_size f = int s" "0 < s" "outgoing_frag_id f = int j"
  shows "\<exists>f' b'. fragment_ready_to_send f b fr = Some (True, f', b') \<and> sender_ok fr f' \<and>
    headroom fr \<le> b_offset (outgoing f') \<and> buf_bytes (outgoing f') = drop s q \<and>
    outgoing_frag_size f' = int s \<and> outgoing_frag_id f' = int (Suc j) \<and>
    outgoing_seq_id f' = outgoing_seq_id f \<and> incoming f' = incoming f \<and> buf_ok b' \<and>
    buf_bytes b' = be32 (piece_header (length q \<le> s) (outgoing_seq_id f) j s) @ take s q"
proof -
  have o: "buf_ok (outgoing f)" "b_capacity (outgoing f) = BUF_SIZE fr" "buf_ok (outgoing_return f)"
    "b_capacity (outgoing_return f) = BUF_SIZE fr"
    using assms(1) by (auto simp: sender_ok_def)
  have len: "b_len (outgoing f) = int (length q)" using length_buf_bytes [OF o(1)] assms(4) by simp
  have pos: "0 < length q" using assms(5) by simp
  define sz where "sz = (if length q \<le> s then int (length q) else int s)"
  have sz: "0 \<le> sz" "sz \<le> b_len (outgoing f)" "take (nat sz) q = take s q" "drop (nat sz) q = drop s q"
    using len by (auto simp: sz_def)
  have hr: "0 \<le> headroom fr" "headroom fr \<le> b_capacity (outgoing_return f)"
    using assms(2) o(4) by (auto simp: frame_ok_def)
  obtain b0 where b0: "buf_init (outgoing_return f) (headroom fr) = Some b0" "buf_ok b0" "buf_bytes b0 = []"
    "b_offset b0 = headroom fr" "b_len b0 = 0" "b_capacity b0 = BUF_SIZE fr"
    using buf_init_ok [OF o(3) hr] o(4) by metis
  have fits: "b_offset b0 + b_len b0 + sz \<le> b_capacity b0"
    using b0 buf_ok_bounds(3) [OF o(1)] o(2) assms(3) sz(2) by linarith
  obtain b1 out where c: "buf_copy_n b0 (outgoing f) sz = (True, b1, out)" "buf_ok b1" "buf_ok out"
    "buf_bytes b1 = take s q" "buf_bytes out = drop s q" "b_offset b1 = headroom fr"
    "b_capacity out = BUF_SIZE fr" "b_len out = b_len (outgoing f) - sz" "b_offset out = b_offset (outgoing f) + sz"
    using buf_copy_n_ok [OF b0(2) o(1) sz(1,2) fits] b0 o(2) assms(4) sz(3,4) by (metis append_Nil)
  let ?h = "be32 (piece_header (length q \<le> s) (outgoing_seq_id f) j s)"
  have "int (length ?h) \<le> b_offset b1" using assms(2) c(6) by (simp add: frame_ok_def)
  then obtain b2 where b2: "buf_write_prepend b1 ?h = Some b2" using buf_write_prepend_iff [OF c(2)] by metis
  note p = buf_write_prepend_Some [OF c(2) b2]
  have lst: "b_len (outgoing f) \<le> outgoing_frag_size f \<longleftrightarrow> length q \<le> s" using len assms(6) by simp
  have szeq: "(if b_len (outgoing f) \<le> outgoing_frag_size f then b_len (outgoing f) else outgoing_frag_size f) = sz"
    using len assms(6) by (simp add: sz_def)
  have fl: "fragment_prepend_flags b1 (if length q \<le> s then FRAG_YES_LAST else FRAG_YES_NOTLAST)
      (outgoing_seq_id f) (int j) (int s) = Some b2"
    using prepend_flags_eq b2 by simp
  have "b_len out = 0" if "length q \<le> s" using that c(8) len by (simp add: sz_def)
  then have "fragment_ready_to_send f b fr =
      Some (True, f\<lparr>outgoing := out, outgoing_frag_id := outgoing_frag_id f + 1\<rparr>, b2)"
    using b0(1) c(1) fl pos len
    by (simp add: fragment_ready_to_send_def fragment_outgoing_defined_def Let_def lst szeq assms(6,8))
       (use sz_def assms(6,8) in auto)
  moreover have "headroom fr \<le> b_offset out" using c(9) assms(3) sz(1) by simp
  ultimately show ?thesis
    using c p assms by (auto simp: sender_ok_def)
qed


text \<open>The caller takes pieces as long as there are any (forward.c), at most \<open>n\<close>.\<close>

fun drain :: "nat \<Rightarrow> fragment_master \<Rightarrow> frame \<Rightarrow> (buffer list \<times> fragment_master) option" where
  "drain 0 f fr = Some ([], f)"
| "drain (Suc n) f fr =
     (if fragment_outgoing_defined f
      then do { (sent, f, b) \<leftarrow> fragment_ready_to_send f clear_buf fr;
                (bs, f) \<leftarrow> drain n f fr;
                Some (b # bs, f) }
      else Some ([], f))"

text \<open>The pieces of a datagram \<open>q\<close>, from number \<open>j\<close> on.\<close>

definition pieces_ok :: "buffer list \<Rightarrow> int \<Rightarrow> nat \<Rightarrow> nat \<Rightarrow> u8 list \<Rightarrow> bool" where
  "pieces_ok bs seq j s q \<longleftrightarrow> length bs = n_pieces (length q) s \<and>
     (\<forall>i < length bs. buf_ok (bs ! i) \<and>
        buf_bytes (bs ! i) = be32 (piece_header (Suc i = length bs) seq (j + i) s) @ take s (drop (i * s) q))"

lemma pieces_ok_Cons:
  assumes "pieces_ok bs seq (Suc j) s (drop s q)" "buf_ok b" "0 < s" "q \<noteq> []"
    "buf_bytes b = be32 (piece_header (length q \<le> s) seq j s) @ take s q"
  shows "pieces_ok (b # bs) seq j s q"
proof -
  have len: "length (b # bs) = n_pieces (length q) s"
    using assms(1,3,4) n_pieces_simps(2,3) [OF assms(3), of "length q"]
    by (cases "s < length q") (auto simp: pieces_ok_def n_pieces_simps(1) [OF assms(3)])
  have one: "length q \<le> s \<longleftrightarrow> length bs = 0"
    using assms(1,3) n_pieces_simps(5) [OF assms(3), of "length q - s" 0] by (auto simp: pieces_ok_def)
  have "buf_ok ((b # bs) ! i) \<and> buf_bytes ((b # bs) ! i) =
      be32 (piece_header (Suc i = length (b # bs)) seq (j + i) s) @ take s (drop (i * s) q)"
    if "i < length (b # bs)" for i
  proof (cases i)
    case 0
    then show ?thesis using assms(2,5) one by (auto simp: neq_Nil_conv)
  next
    case (Suc k)
    then show ?thesis using that assms(1) by (auto simp: pieces_ok_def add.commute)
  qed
  then show ?thesis unfolding pieces_ok_def using len by blast
qed

lemma drain_ok:
  assumes "sender_ok fr f" "frame_ok fr" "headroom fr \<le> b_offset (outgoing f)"
    "buf_bytes (outgoing f) = q" "outgoing_frag_size f = int s" "0 < s" "outgoing_frag_id f = int j"
    "n_pieces (length q) s \<le> n"
  shows "\<exists>f' bs. drain n f fr = Some (bs, f') \<and> sender_ok fr f' \<and> b_len (outgoing f') = 0 \<and>
    outgoing_seq_id f' = outgoing_seq_id f \<and> incoming f' = incoming f \<and>
    pieces_ok bs (outgoing_seq_id f) j s q"
  using assms
proof (induction n arbitrary: f q j)
  case 0
  then have "q = []" using n_pieces_simps(5) [OF 0(6), of "length q" 0] by simp
  moreover have "b_len (outgoing f) = int (length q)"
    using 0 length_buf_bytes [of "outgoing f"] by (simp add: sender_ok_def)
  ultimately show ?case using 0 by (simp add: pieces_ok_def n_pieces_simps(1))
next
  case (Suc n)
  have len: "b_len (outgoing f) = int (length q)"
    using Suc.prems length_buf_bytes [of "outgoing f"] by (simp add: sender_ok_def)
  show ?case
  proof (cases "q = []")
    case True
    then show ?thesis using Suc.prems len
      by (simp add: pieces_ok_def n_pieces_simps(1) fragment_outgoing_defined_def)
  next
    case False
    obtain f1 b where f1: "fragment_ready_to_send f clear_buf fr = Some (True, f1, b)" "sender_ok fr f1"
      "headroom fr \<le> b_offset (outgoing f1)" "buf_bytes (outgoing f1) = drop s q"
      "outgoing_frag_size f1 = int s" "outgoing_frag_id f1 = int (Suc j)"
      "outgoing_seq_id f1 = outgoing_seq_id f" "incoming f1 = incoming f" "buf_ok b"
      "buf_bytes b = be32 (piece_header (length q \<le> s) (outgoing_seq_id f) j s) @ take s q"
      using ready_to_send_step [OF Suc.prems(1-4) False Suc.prems(5-7), of clear_buf] by blast
    have "n_pieces (length (drop s q)) s \<le> n"
      using Suc.prems(8) n_pieces_simps(5) [OF Suc.prems(6)] by simp
    from Suc.IH [OF f1(2) Suc.prems(2) f1(3-5) Suc.prems(6) f1(6) this]
    obtain f' bs where d: "drain n f1 fr = Some (bs, f')" "sender_ok fr f'" "b_len (outgoing f') = 0"
      "outgoing_seq_id f' = outgoing_seq_id f" "incoming f' = incoming f"
      "pieces_ok bs (outgoing_seq_id f) (Suc j) s (drop s q)"
      using f1(7,8) by auto
    have "fragment_outgoing_defined f" using False len by (simp add: fragment_outgoing_defined_def)
    then show ?thesis
      using f1(1) d pieces_ok_Cons [OF d(6) f1(9) Suc.prems(6) False f1(10)] by auto
  qed
qed

text \<open>A whole datagram: the first piece is returned by \<^verbatim>\<open>fragment_outgoing\<close>, the rest one by one.\<close>

definition send_datagram ::
  "fragment_master \<Rightarrow> buffer \<Rightarrow> frame \<Rightarrow> (buffer list \<times> fragment_master) option" where
  "send_datagram f b fr =
     do { (f, b) \<leftarrow> fragment_outgoing f b fr;
          (bs, f) \<leftarrow> drain (nat MAX_FRAGS) f fr;
          Some (b # bs, f) }"

lemma send_datagram_pieces:
  assumes "sender_ok fr f" "frame_ok fr" "buf_ok b" "max_fragment_size fr < b_len b"
    "b_len b \<le> optimal_fragment_size (b_len b) (max_fragment_size fr) * MAX_FRAGS"
    "headroom fr + b_len b \<le> BUF_SIZE fr"
  shows "\<exists>f' bs s. send_datagram f b fr = Some (bs, f') \<and> sender_ok fr f' \<and> b_len (outgoing f') = 0 \<and>
    incoming f' = incoming f \<and> outgoing_seq_id f' = (outgoing_seq_id f + 1) mod N_SEQ_ID \<and>
    0 < s \<and> s < 65536 \<and> s mod 4 = 0 \<and> n_pieces (length (buf_bytes b)) s \<le> 32 \<and>
    pieces_ok bs (outgoing_seq_id f') 0 s (buf_bytes b)"
proof -
  define s where "s = nat (optimal_fragment_size (b_len b) (max_fragment_size fr))"
  have fr: "4 \<le> max_fragment_size fr" "max_fragment_size fr < 65536" using assms(2) by (auto simp: frame_ok_def)
  have o: "0 < optimal_fragment_size (b_len b) (max_fragment_size fr)"
    "optimal_fragment_size (b_len b) (max_fragment_size fr) \<le> max_fragment_size fr"
    "optimal_fragment_size (b_len b) (max_fragment_size fr) mod 4 = 0"
    using optimal_fragment_size_props [of "b_len b" "max_fragment_size fr"] fr assms(4) by (auto simp: Let_def)
  have s: "int s = optimal_fragment_size (b_len b) (max_fragment_size fr)" "0 < s" "s < 65536"
    using o fr by (auto simp: s_def)
  have "int s mod 4 = 0" using o(3) s(1) by simp
  then have s4: "s mod 4 = 0" by presburger
  have len: "b_len b = int (length (buf_bytes b))" using length_buf_bytes [OF assms(3)] by simp
  then have "int (length (buf_bytes b)) \<le> int (32 * s)" using assms(5) s(1) by (simp add: MAX_FRAGS_def)
  then have np: "n_pieces (length (buf_bytes b)) s \<le> 32" using n_pieces_simps(5) [OF s(2)] by simp
  have so: "buf_ok (outgoing f)" "b_capacity (outgoing f) = BUF_SIZE fr" "0 \<le> outgoing_seq_id f" "outgoing_seq_id f < N_SEQ_ID"
    using assms(1) by (auto simp: sender_ok_def)
  have hr: "0 \<le> headroom fr" "headroom fr \<le> b_capacity (outgoing f)" using assms(2) so(2) by (auto simp: frame_ok_def)
  obtain o0 where o0: "buf_init (outgoing f) (headroom fr) = Some o0" "buf_ok o0" "buf_bytes o0 = []"
    "b_offset o0 = headroom fr" "b_len o0 = 0" "b_capacity o0 = BUF_SIZE fr"
    using buf_init_ok [OF so(1) hr] so(2) by metis
  obtain o1 where o1: "buf_copy o0 b = Some o1"
    using buf_write_iff [OF o0(2), of "buf_bytes b"] buf_copy_eq [OF assms(3)] o0 len assms(6) by auto
  note w = buf_write_Some [OF o0(2) o1 [unfolded buf_copy_eq [OF assms(3)]]]
  have sq: "modulo_add (outgoing_seq_id f) 1 N_SEQ_ID = Some ((outgoing_seq_id f + 1) mod N_SEQ_ID)"
    using so(3,4) by (intro modulo_add_eq) (auto simp: N_SEQ_ID_def)
  define f0 where "f0 = f\<lparr>outgoing_frag_size := int s, outgoing := o1,
    outgoing_seq_id := (outgoing_seq_id f + 1) mod N_SEQ_ID, outgoing_frag_id := 0\<rparr>"
  have ok0: "sender_ok fr f0" "headroom fr \<le> b_offset (outgoing f0)" "buf_bytes (outgoing f0) = buf_bytes b"
    "outgoing_frag_size f0 = int s" "outgoing_frag_id f0 = int 0"
    using assms(1) w o0 by (auto simp: sender_ok_def f0_def N_SEQ_ID_def)
  have ne: "buf_bytes b \<noteq> []" using len assms(4) fr(1) by auto
  obtain f1 b1 where f1: "fragment_ready_to_send f0 (b\<lparr>b_len := 0\<rparr>) fr = Some (True, f1, b1)" "sender_ok fr f1"
      "headroom fr \<le> b_offset (outgoing f1)" "buf_bytes (outgoing f1) = drop s (buf_bytes b)"
      "outgoing_frag_size f1 = int s" "outgoing_frag_id f1 = int (Suc 0)"
      "outgoing_seq_id f1 = outgoing_seq_id f0" "incoming f1 = incoming f0" "buf_ok b1"
      "buf_bytes b1 = be32 (piece_header (length (buf_bytes b) \<le> s) (outgoing_seq_id f0) 0 s) @ take s (buf_bytes b)"
    using ready_to_send_step [OF ok0(1) assms(2) ok0(2,3) ne ok0(4) s(2) ok0(5)] by blast
  have out: "fragment_outgoing f b fr = Some (f1, b1)"
    using assms(4,5) fr(1) o0(1) o1 sq f1(1) s(1)
    by (simp add: fragment_outgoing_def Let_def f0_def)
  have "n_pieces (length (drop s (buf_bytes b))) s \<le> nat MAX_FRAGS"
    using np n_pieces_simps(5) [OF s(2)] by (simp add: MAX_FRAGS_def)
  from drain_ok [OF f1(2) assms(2) f1(3-5) s(2) f1(6) this]
  obtain f' bs where d: "drain (nat MAX_FRAGS) f1 fr = Some (bs, f')" "sender_ok fr f'" "b_len (outgoing f') = 0"
    "outgoing_seq_id f' = outgoing_seq_id f1" "incoming f' = incoming f1"
    "pieces_ok bs (outgoing_seq_id f1) (Suc 0) s (drop s (buf_bytes b))"
    by auto
  have "send_datagram f b fr = Some (b1 # bs, f')" using out d(1) by (simp add: send_datagram_def)
  moreover have "pieces_ok (b1 # bs) (outgoing_seq_id f') 0 s (buf_bytes b)"
    using pieces_ok_Cons [OF d(6) f1(9) s(2) ne] f1(7,10) d(4) by simp
  ultimately show ?thesis using d f1 s s4 np by (auto simp: f0_def)
qed

section \<open>The receiver finds the slot\<close>

definition list_ok :: "int \<Rightarrow> fragment_list \<Rightarrow> bool" where
  "list_ok cap l \<longleftrightarrow> length (fl_fragments l) = 25 \<and> 0 \<le> fl_index l \<and> fl_index l < 25 \<and>
     0 \<le> fl_seq_id l \<and> fl_seq_id l < 256 \<and>
     (\<forall>i < 25. buf_ok (f_buf (fl_fragments l ! i)) \<and> b_capacity (f_buf (fl_fragments l ! i)) = cap)"

lemma fl_advance_ok:
  assumes "list_ok cap l"
  shows "\<exists>l'. fl_advance d l = Some l' \<and> list_ok cap l' \<and> fl_index l' = (fl_index l + int d) mod 25 \<and>
    fl_seq_id l' = (fl_seq_id l + int d) mod 256 \<and>
    (0 < d \<longrightarrow> \<not> f_defined (fl_fragments l' ! nat (fl_index l')))"
  using assms
proof (induction d arbitrary: l)
  case 0
  then show ?case by (simp add: list_ok_def)
next
  case (Suc d)
  let ?i = "(fl_index l + 1) mod 25" and ?s = "(fl_seq_id l + 1) mod 256"
  let ?l = "l\<lparr>fl_index := ?i,
    fl_fragments := (fl_fragments l)[nat ?i := (fl_fragments l ! nat ?i)\<lparr>f_defined := False\<rparr>],
    fl_seq_id := ?s\<rparr>"
  have b: "0 \<le> fl_index l" "fl_index l < 25" "0 \<le> fl_seq_id l" "fl_seq_id l < 256"
    using Suc.prems by (auto simp: list_ok_def)
  have m: "modulo_add (fl_index l) 1 N_FRAG_BUF = Some ?i" "modulo_add (fl_seq_id l) 1 N_SEQ_ID = Some ?s"
    unfolding N_FRAG_BUF_def N_SEQ_ID_def using b by (auto intro!: modulo_add_eq)
  have i: "0 \<le> ?i" "?i < 25" "0 \<le> ?s" "?s < 256" by simp_all
  have ok: "list_ok cap ?l" using Suc.prems i by (auto simp: list_ok_def nth_list_update)
  obtain l' where l': "fl_advance d ?l = Some l'" "list_ok cap l'" "fl_index l' = (?i + int d) mod 25"
    "fl_seq_id l' = (?s + int d) mod 256"
    "0 < d \<longrightarrow> \<not> f_defined (fl_fragments l' ! nat (fl_index l'))"
    using Suc.IH [OF ok] by auto
  have "\<not> f_defined (fl_fragments l' ! nat (fl_index l'))"
  proof (cases d)
    case 0
    then have "l' = ?l" using l'(1) by simp
    then show ?thesis using Suc.prems i by (simp add: list_ok_def)
  qed (use l'(5) in simp)
  note undef = this
  have md: "((x + 1) mod c + int d) mod c = (x + int (Suc d)) mod c" for x c :: int
    using mod_add_left_eq [of "x + 1" c "int d"] by (simp only: of_nat_Suc add.assoc add.commute [of 1 "int d"])
  have run: "fl_advance (Suc d) l = Some l'"
    unfolding fl_advance.simps m bind.bind_lunit by (rule l'(1))
  show ?case
    using run l'(2) l'(3) [unfolded md] l'(4) [unfolded md] undef by blast
qed

text \<open>The slot is found, found again, and empty if the sequence id is the next one.\<close>

definition tracks :: "fragment_list \<Rightarrow> int \<Rightarrow> nat \<Rightarrow> bool" where
  "tracks l seq i \<longleftrightarrow>
     (\<forall>gs. fragment_list_get_buf (l\<lparr>fl_fragments := gs\<rparr>) seq = Some (l\<lparr>fl_fragments := gs\<rparr>, i))"

lemma get_buf_ok:
  assumes "list_ok cap l" "0 \<le> seq" "seq < 256"
  shows "\<exists>l' i. fragment_list_get_buf l seq = Some (l', i) \<and> list_ok cap l' \<and> i < 25 \<and>
    tracks l' seq i \<and>
    (seq = (fl_seq_id l + 1) mod 256 \<longrightarrow> \<not> f_defined (fl_fragments l' ! i) \<and> fl_seq_id l' = seq)"
proof -
  have b: "0 \<le> fl_index l" "fl_index l < 25" "0 \<le> fl_seq_id l" "fl_seq_id l < 256" "length (fl_fragments l) = 25"
    using assms(1) by (auto simp: list_ok_def)
  obtain d where d: "modulo_subtract seq (fl_seq_id l) N_SEQ_ID = Some d" "(seq - fl_seq_id l - d) mod 256 = 0"
  proof -
    have "modulo_subtract seq (fl_seq_id l) N_SEQ_ID \<noteq> None"
      using b assms by (simp add: modulo_subtract_def N_SEQ_ID_def Let_def)
    then show ?thesis using that modulo_subtract_bounds(1) by (auto simp: N_SEQ_ID_def)
  qed
  have z: "modulo_subtract seq seq N_SEQ_ID = Some 0"
    using assms by (simp add: modulo_subtract_def N_SEQ_ID_def Let_def)
  have self: "tracks m seq (nat (fl_index m))"
    if "fl_seq_id m = seq" "0 \<le> fl_index m" "fl_index m < 25" for m
    using that z by (simp add: tracks_def fragment_list_get_buf_def N_FRAG_BUF_def modulo_add_def)
  have next1: "d = 1" if "seq = (fl_seq_id l + 1) mod 256"
  proof (cases "fl_seq_id l = 255")
    case True
    then have "seq = 0" using that by simp
    then show ?thesis using d(1) True by (simp add: modulo_subtract_def N_SEQ_ID_def Let_def)
  next
    case False
    then have "seq = fl_seq_id l + 1" using that b by simp
    then show ?thesis using d(1) b assms by (simp add: modulo_subtract_def N_SEQ_ID_def Let_def)
  qed
  consider (far) "\<bar>d\<bar> \<ge> 25" | (ahead) "0 < d" "d < 25" | (behind) "-25 < d" "d \<le> 0" by linarith
  then show ?thesis
  proof cases
    case far
    let ?l = "l\<lparr>fl_fragments := map (\<lambda>g. g\<lparr>f_defined := False\<rparr>) (fl_fragments l), fl_index := 0, fl_seq_id := seq\<rparr>"
    have "fragment_list_get_buf l seq = Some (?l, 0)"
      using d(1) far by (simp add: fragment_list_get_buf_def N_FRAG_BUF_def modulo_add_def)
    moreover have "list_ok cap ?l" using assms by (auto simp: list_ok_def)
    moreover have "tracks ?l seq 0" using self [of ?l] by simp
    moreover have "seq \<noteq> (fl_seq_id l + 1) mod 256" using far next1 by auto
    ultimately show ?thesis by (intro exI conjI) auto
  next
    case ahead
    obtain l' where l': "fl_advance (nat d) l = Some l'" "list_ok cap l'" "fl_index l' = (fl_index l + d) mod 25"
      "fl_seq_id l' = (fl_seq_id l + d) mod 256" "\<not> f_defined (fl_fragments l' ! nat (fl_index l'))"
      using fl_advance_ok [OF assms(1), of "nat d"] ahead by auto
    have i: "0 \<le> fl_index l'" "fl_index l' < 25" using l'(2) by (auto simp: list_ok_def)
    have "(fl_seq_id l + d) mod 256 = seq mod 256"
    proof -
      have "256 dvd seq - (fl_seq_id l + d)" using d(2) by (simp add: diff_diff_eq mod_0_imp_dvd)
      then show ?thesis by (metis mod_eq_dvd_iff)
    qed
    then have s: "fl_seq_id l' = seq" using assms l'(4) by simp
    have "fragment_list_get_buf l seq = Some (l', nat (fl_index l'))"
      using d(1) ahead l'(1) i by (simp add: fragment_list_get_buf_def N_FRAG_BUF_def modulo_add_def)
    then show ?thesis using l' s i self [OF s i] by auto
  next
    case behind
    have i: "modulo_add (fl_index l) d N_FRAG_BUF = Some ((fl_index l + d) mod 25)"
      unfolding N_FRAG_BUF_def using b behind by (intro modulo_add_eq) auto
    have "fragment_list_get_buf l seq = Some (l, nat ((fl_index l + d) mod 25))"
      using d(1) behind i by (simp add: fragment_list_get_buf_def) (simp add: N_FRAG_BUF_def)
    moreover have "tracks l seq (nat ((fl_index l + d) mod 25))"
      using d(1) behind i by (simp add: tracks_def fragment_list_get_buf_def) (simp add: N_FRAG_BUF_def)
    moreover have "nat ((fl_index l + d) mod 25) < 25" by (simp add: nat_less_iff)
    moreover have "seq \<noteq> (fl_seq_id l + 1) mod 256" using behind next1 by auto
    ultimately show ?thesis using assms(1) by blast
  qed
qed

section \<open>Pieces are put in place\<close>

lemma mem_write_nth:
  assumes "pos + length bs \<le> length m" "p < length m"
  shows "mem_write m pos bs ! p = (if pos \<le> p \<and> p < pos + length bs then bs ! (p - pos) else m ! p)"
  using assms by (auto simp: mem_write_def nth_append min_def)

lemma copy_range_ok:
  assumes "buf_ok dest" "buf_ok src" "0 \<le> di" "b_offset dest + di + b_len src \<le> b_capacity dest"
  shows "\<exists>d. buf_copy_range dest di src 0 (b_len src) = Some d \<and> buf_ok d \<and>
    b_offset d = b_offset dest \<and> b_capacity d = b_capacity dest \<and> b_len d = max (b_len dest) (di + b_len src) \<and>
    b_mem d = mem_write (b_mem dest) (nat (b_offset dest + di)) (buf_bytes src)"
proof -
  note bd = buf_ok_bounds [OF assms(1)] and bs = buf_ok_bounds [OF assms(2)]
  obtain m where m: "b_data dest = Some m" "int (length m) = b_capacity dest" using assms(1) by (rule buf_okE)
  let ?src = "take (nat (b_len src)) (drop (nat (b_offset src + 0)) (b_mem src))"
  have src: "?src = buf_bytes src" by (simp add: buf_bytes_def)
  have len: "length (buf_bytes src) = nat (b_len src)" by (rule length_buf_bytes_nat [OF assms(2)])
  have fits: "nat (b_offset dest + di) + length (buf_bytes src) \<le> length m"
    using assms(3,4) m(2) bd bs len by linarith
  let ?d = "poke dest (b_offset dest + di) (buf_bytes src)"
  let ?r = "if di + b_len src > b_len dest then ?d\<lparr>b_len := di + b_len src\<rparr> else ?d"
  have "buf_copy_range dest di src 0 (b_len src) = Some ?r"
    using assms(3,4) bs unfolding buf_copy_range_def src
    by (simp add: Let_def poke_def not_less)
  moreover have "buf_ok ?r"
    using assms(1,3,4) m fits bs by (auto simp: buf_ok_def poke_def)
  moreover have "b_mem ?r = mem_write (b_mem dest) (nat (b_offset dest + di)) (buf_bytes src)"
    using m by (simp add: b_mem_def poke_def)
  ultimately show ?thesis by (intro exI [of _ ?r]) (auto simp: poke_def)
qed

text \<open>
  The state of a slot in which the pieces \<open>S\<close> of the datagram \<open>q\<close> have arrived: which bits of the
  map are set, and that the bytes of these pieces are where they belong.
\<close>

definition assembling :: "int \<Rightarrow> frame \<Rightarrow> nat \<Rightarrow> u8 list \<Rightarrow> nat set \<Rightarrow> fragment \<Rightarrow> bool" where
  "assembling cap fr s q S g \<longleftrightarrow> f_defined g \<and> f_max_frag_size g = int s \<and>
     (\<forall>n < 32. bit (f_map g) n \<longleftrightarrow> (\<exists>j \<in> S. if Suc j = n_pieces (length q) s then j \<le> n else j = n)) \<and>
     buf_ok (f_buf g) \<and> b_capacity (f_buf g) = cap \<and> b_offset (f_buf g) = headroom fr \<and>
     b_len (f_buf g) \<le> int (length q) \<and>
     (\<forall>j \<in> S. Suc j = n_pieces (length q) s \<longrightarrow> b_len (f_buf g) = int (length q)) \<and>
     (\<forall>p < length q. p div s \<in> S \<longrightarrow> b_mem (f_buf g) ! (nat (headroom fr) + p) = q ! p)"

text \<open>All bits are set exactly if all pieces have arrived, and then the datagram is complete.\<close>

lemma assembled_iff:
  assumes "assembling cap fr s q S g" "S \<subseteq> {..< n_pieces (length q) s}" "n_pieces (length q) s \<le> 32" "q \<noteq> []" "0 < s"
  shows "f_map g AND FRAG_MAP_MASK = FRAG_MAP_MASK \<longleftrightarrow> S = {..< n_pieces (length q) s}"
proof -
  let ?k = "n_pieces (length q) s"
  have k: "0 < ?k" using n_pieces_simps(5) [OF assms(5), of "length q" 0] assms(4) by (cases "?k = 0") auto
  have ones: "FRAG_MAP_MASK = - 1" by (simp add: FRAG_MAP_MASK_def)
  have "f_map g AND FRAG_MAP_MASK = FRAG_MAP_MASK \<longleftrightarrow> (\<forall>n < 32. bit (f_map g) n)"
    unfolding ones by (auto simp: bit_eq_iff bit_simps)
  also have "\<dots> \<longleftrightarrow> (\<forall>n < 32. \<exists>j \<in> S. if Suc j = ?k then j \<le> n else j = n)"
    using assms(1) by (simp add: assembling_def)
  also have "\<dots> \<longleftrightarrow> S = {..< ?k}"
  proof
    assume a: "\<forall>n < 32. \<exists>j \<in> S. if Suc j = ?k then j \<le> n else j = n"
    have "j \<in> S" if "j < ?k" for j
    proof -
      have "j < 32" using that assms(3) by simp
      with a obtain i where "i \<in> S" "if Suc i = ?k then i \<le> j else i = j" by blast
      moreover have "i = j"
      proof (cases "Suc i = ?k")
        case True
        then have "i \<le> j" using \<open>if Suc i = ?k then i \<le> j else i = j\<close> by simp
        then show ?thesis using True that by linarith
      qed (use \<open>if Suc i = ?k then i \<le> j else i = j\<close> in simp)
      ultimately show ?thesis by simp
    qed
    then show "S = {..< ?k}" using assms(2) by blast
  next
    assume S: "S = {..< ?k}"
    show "\<forall>n < 32. \<exists>j \<in> S. if Suc j = ?k then j \<le> n else j = n"
    proof (intro allI impI)
      fix n :: nat assume "n < 32"
      show "\<exists>j \<in> S. if Suc j = ?k then j \<le> n else j = n"
      proof (cases "Suc n < ?k")
        case True
        then show ?thesis using S by (intro bexI [of _ n]) auto
      next
        case False
        then show ?thesis using S k by (intro bexI [of _ "?k - 1"]) auto
      qed
    qed
  qed
  finally show ?thesis .
qed

lemma assembled_bytes:
  assumes "assembling cap fr s q {..< n_pieces (length q) s} g" "q \<noteq> []" "0 < s" "0 \<le> headroom fr"
  shows "buf_bytes (f_buf g) = q"
proof -
  let ?k = "n_pieces (length q) s"
  have k: "0 < ?k" using n_pieces_simps(5) [OF assms(3), of "length q" 0] assms(2) by (cases "?k = 0") auto
  then have "?k - 1 \<in> {..< ?k}" "Suc (?k - 1) = ?k" by auto
  with assms(1) have len: "b_len (f_buf g) = int (length q)" and ok: "buf_ok (f_buf g)"
    and off: "b_offset (f_buf g) = headroom fr"
    unfolding assembling_def by blast+
  obtain m where m: "b_data (f_buf g) = Some m" "int (length m) = b_capacity (f_buf g)" using ok by (rule buf_okE)
  have "nat (headroom fr) + length q \<le> length m"
    using buf_ok_bounds(3) [OF ok] len off m(2) assms(4) by linarith
  moreover have "p div s < ?k" if "p < length q" for p
  proof -
    have "p < ?k * s" using n_pieces_simps(4) [OF assms(3), of "length q"] that by simp
    then show ?thesis using assms(3) by (simp add: div_less_iff_less_mult)
  qed
  then have "m ! (nat (headroom fr) + p) = q ! p" if "p < length q" for p
    using assms(1) that m(1) unfolding assembling_def b_mem_def by auto
  ultimately show ?thesis
    using m(1) len off by (intro nth_equalityI) (auto simp: buf_bytes_def b_mem_def)
qed


text \<open>Storing a piece.\<close>

lemma chunk_nth:
  assumes "p < length q" "p div s = j" "0 < s"
  shows "j * s \<le> p" "p < j * s + length (take s (drop (j * s) q))" "take s (drop (j * s) q) ! (p - j * s) = q ! p"
proof -
  have "p = j * s + p mod s" "p mod s < s" using assms by auto
  then show "j * s \<le> p" "p < j * s + length (take s (drop (j * s) q))"
    "take s (drop (j * s) q) ! (p - j * s) = q ! p"
    using assms(1) by (auto simp: min_def)
qed

lemma outside_chunk:
  assumes "p div s \<noteq> j" "0 < s"
  shows "\<not> (j * s \<le> p \<and> p < j * s + length (take s (drop (j * s) q)))"
proof
  assume a: "j * s \<le> p \<and> p < j * s + length (take s (drop (j * s) q))"
  then have "j * s \<le> p" "p < Suc j * s" by auto
  then have "p div s = j" by (simp add: div_nat_eqI mult.commute)
  then show False using assms(1) by simp
qed

lemma store_piece:
  assumes "assembling cap fr s q S g" "j < n_pieces (length q) s" "n_pieces (length q) s \<le> 32" "0 < s"
    "0 \<le> headroom fr" "headroom fr + int (length q) \<le> cap"
    "buf_ok b" "buf_bytes b = take s (drop (j * s) q)"
  shows "\<exists>fb. buf_copy_range (f_buf g) (int j * int s) b 0 (b_len b) = Some fb \<and>
    assembling cap fr s q (insert j S) (g\<lparr>f_buf := fb,
      f_map := f_map g OR push_bit j (if Suc j = n_pieces (length q) s then FRAG_MAP_MASK else 1),
      f_timestamp := nw\<rparr>)"
proof -
  let ?k = "n_pieces (length q) s" and ?c = "take s (drop (j * s) q)"
  have g: "buf_ok (f_buf g)" "b_capacity (f_buf g) = cap" "b_offset (f_buf g) = headroom fr"
    "b_len (f_buf g) \<le> int (length q)"
    using assms(1) by (auto simp: assembling_def)
  have jq: "j * s < length q"
    using n_pieces_simps(5) [OF assms(4), of "length q" j] assms(2) by simp
  have bl: "b_len b = int (length ?c)" using length_buf_bytes [OF assms(7)] assms(8) by simp
  have cl: "j * s + length ?c \<le> length q" using jq by simp
  have lastc: "j * s + length ?c = length q" if "Suc j = ?k"
    using n_pieces_simps(4) [OF assms(4), of "length q"] that [symmetric] jq by auto
  have fits: "b_offset (f_buf g) + int j * int s + b_len b \<le> b_capacity (f_buf g)"
    using cl bl g(2,3) assms(6) by (simp flip: of_nat_mult of_nat_add)
  obtain fb where fb: "buf_copy_range (f_buf g) (int j * int s) b 0 (b_len b) = Some fb" "buf_ok fb"
    "b_offset fb = headroom fr" "b_capacity fb = cap" "b_len fb = max (b_len (f_buf g)) (int j * int s + b_len b)"
    "b_mem fb = mem_write (b_mem (f_buf g)) (nat (b_offset (f_buf g) + int j * int s)) (buf_bytes b)"
    using copy_range_ok [OF g(1) assms(7) _ fits] g(2,3) by auto
  have pos: "nat (b_offset (f_buf g) + int j * int s) = nat (headroom fr) + j * s"
    using g(3) assms(5) by (simp add: nat_add_distrib nat_mult_distrib)
  have end_len: "int j * int s + b_len b = int (j * s + length ?c)" using bl by simp
  have e: "int j * int s + b_len b \<le> int (length q)" using cl end_len by linarith
  have len1: "b_len fb \<le> int (length q)" unfolding fb(5) using g(4) e by (rule max.boundedI)
  have len2: "b_len fb = int (length q)" if "i \<in> insert j S" "Suc i = ?k" for i
  proof (cases "i = j")
    case True
    then have "int j * int s + b_len b = int (length q)" using that(2) lastc end_len by linarith
    then show ?thesis using fb(5) g(4) by simp
  next
    case False
    then have "b_len (f_buf g) = int (length q)" using that assms(1) by (auto simp: assembling_def)
    then show ?thesis using fb(5) len1 by simp
  qed
  obtain m where m: "b_data (f_buf g) = Some m" "int (length m) = b_capacity (f_buf g)" using g(1) by (rule buf_okE)
  have mlen: "nat (headroom fr) + length q \<le> length m" using m(2) g(2) assms(5,6) by linarith
  have mem: "b_mem fb ! (nat (headroom fr) + p) = q ! p" if p: "p < length q" "p div s \<in> insert j S" for p
  proof -
    have w: "b_mem fb ! (nat (headroom fr) + p) =
        (if j * s \<le> p \<and> p < j * s + length ?c then ?c ! (p - j * s) else b_mem (f_buf g) ! (nat (headroom fr) + p))"
      unfolding fb(6) pos assms(8) using mlen p(1) cl m(1)
      by (subst mem_write_nth) (auto simp: b_mem_def)
    show ?thesis
    proof (cases "p div s = j")
      case True
      then show ?thesis using w chunk_nth [OF p(1) True assms(4)] by simp
    next
      case False
      then show ?thesis using w outside_chunk [OF False assms(4), of q] p assms(1) by (auto simp: assembling_def)
    qed
  qed
  have bits: "bit (f_map g OR push_bit j (if Suc j = ?k then FRAG_MAP_MASK else 1)) n \<longleftrightarrow>
      (\<exists>i \<in> insert j S. if Suc i = ?k then i \<le> n else i = n)" if "n < 32" for n
  proof -
    have "bit (push_bit j (if Suc j = ?k then FRAG_MAP_MASK else 1) :: u32) n \<longleftrightarrow> (if Suc j = ?k then j \<le> n else j = n)"
    proof -
      have ones: "FRAG_MAP_MASK = - 1" by (simp add: FRAG_MAP_MASK_def)
      show ?thesis using that unfolding ones by (auto simp: bit_simps bit_1_iff)
    qed
    moreover have "bit (f_map g) n \<longleftrightarrow> (\<exists>i \<in> S. if Suc i = ?k then i \<le> n else i = n)"
      using assms(1) that by (simp add: assembling_def)
    ultimately show ?thesis by (simp add: bit_or_iff) blast
  qed
  have "f_defined g" "f_max_frag_size g = int s" using assms(1) by (auto simp: assembling_def)
  then show ?thesis
    using fb(1-4) len1 len2 mem bits unfolding assembling_def by (intro exI [of _ fb]) simp
qed

section \<open>Receiving the pieces\<close>

text \<open>The slot of sequence id \<open>seq\<close> is empty, or holds the pieces \<open>S\<close> of \<open>q\<close>.\<close>

definition slot_holds :: "int \<Rightarrow> frame \<Rightarrow> nat \<Rightarrow> u8 list \<Rightarrow> nat set \<Rightarrow> fragment \<Rightarrow> bool" where
  "slot_holds cap fr s q S g \<longleftrightarrow> (\<not> f_defined g \<and> S = {}) \<or> assembling cap fr s q S g"

lemma fresh_assembling:
  assumes "buf_ok (f_buf g)" "b_capacity (f_buf g) = cap" "0 \<le> headroom fr" "headroom fr \<le> cap"
  shows "\<exists>fb. buf_init (f_buf g) (headroom fr) = Some fb \<and>
    assembling cap fr s q {} (g\<lparr>f_defined := True, f_max_frag_size := int s, f_map := 0, f_buf := fb\<rparr>)"
proof -
  have "headroom fr \<le> b_capacity (f_buf g)" using assms(2,4) by simp
  from buf_init_ok [OF assms(1,3) this] obtain fb where "buf_init (f_buf g) (headroom fr) = Some fb"
    "buf_ok fb" "b_offset fb = headroom fr" "b_len fb = 0" "b_capacity fb = cap"
    using assms(2) by metis
  then show ?thesis by (intro exI [of _ fb]) (simp add: assembling_def)
qed

lemma piece_header_fields:
  assumes "0 \<le> seq" "seq < 256" "j < 32"
  shows "piece_header lst seq j s AND FRAG_TYPE_MASK = (if lst then FRAG_YES_LAST else FRAG_YES_NOTLAST)"
    "uint (drop_bit FRAG_SEQ_ID_SHIFT (piece_header lst seq j s) AND FRAG_SEQ_ID_MASK) = seq"
    "uint (drop_bit FRAG_ID_SHIFT (piece_header lst seq j s) AND FRAG_ID_MASK) = int j"
    "s < 65536 \<Longrightarrow> s mod 4 = 0 \<Longrightarrow> uint (push_bit FRAG_SIZE_ROUND_SHIFT
       (drop_bit FRAG_SIZE_SHIFT (piece_header True seq j s) AND FRAG_SIZE_MASK)) = int s"
proof -
  have m: "FRAG_YES_LAST AND mask 2 = FRAG_YES_LAST" "FRAG_YES_NOTLAST AND mask 2 = FRAG_YES_NOTLAST"
    by (simp_all add: FRAG_YES_LAST_def FRAG_YES_NOTLAST_def mask_eq_exp_minus_1)
  show "piece_header lst seq j s AND FRAG_TYPE_MASK = (if lst then FRAG_YES_LAST else FRAG_YES_NOTLAST)"
    unfolding piece_header_def frag_header_fields(1) by (simp add: frag_masks(1) m)
  show "uint (drop_bit FRAG_SEQ_ID_SHIFT (piece_header lst seq j s) AND FRAG_SEQ_ID_MASK) = seq"
    unfolding piece_header_def frag_header_fields(2) unfolding frag_masks
    by (rule uint_and_mask) (use assms in auto)
  have "(word_of_nat j :: u32) = word_of_int (int j)" by simp
  then show "uint (drop_bit FRAG_ID_SHIFT (piece_header lst seq j s) AND FRAG_ID_MASK) = int j"
    unfolding piece_header_def frag_header_fields(3) unfolding frag_masks
    using uint_and_mask [of "int j" 5] assms by simp
next
  assume s: "s < 65536" "s mod 4 = 0"
  have "int s mod 4 = 0" using s(2) by presburger
  then show "uint (push_bit FRAG_SIZE_ROUND_SHIFT
       (drop_bit FRAG_SIZE_SHIFT (piece_header True seq j s) AND FRAG_SIZE_MASK)) = int s"
    unfolding piece_header_def frag_header_fields(4) if_True
    using s(1) by (intro frag_size_roundtrip) auto
qed

lemma receive_piece:
  assumes f: "incoming f = l" "list_ok (BUF_SIZE fr) l"
    and slot: "fragment_list_get_buf l seq = Some (l1, i)" "list_ok (BUF_SIZE fr) l1" "i < 25" "tracks l1 seq i"
      "slot_holds (BUF_SIZE fr) fr s q S (fl_fragments l1 ! i)"
    and S: "S \<subset> {..< n_pieces (length q) s}" "j < n_pieces (length q) s" "n_pieces (length q) s \<le> 32"
    and q: "q \<noteq> []" "0 < s" "s < 65536" "s mod 4 = 0" "headroom fr + int (length q) \<le> BUF_SIZE fr"
    and fr: "frame_ok fr" and seq: "0 \<le> seq" "seq < 256"
    and b: "buf_ok b" "buf_bytes b = be32 (piece_header (Suc j = n_pieces (length q) s) seq j s) @ take s (drop (j * s) q)"
  shows "\<exists>f' b' g'. fragment_incoming nw f b fr = Some (f', b') \<and>
    f' = f\<lparr>incoming := l1\<lparr>fl_fragments := (fl_fragments l1)[i := g']\<rparr>\<rparr> \<and> buf_ok (f_buf g') \<and>
    b_capacity (f_buf g') = BUF_SIZE fr \<and>
    (if insert j S = {..< n_pieces (length q) s} then buf_bytes b' = q \<and> \<not> f_defined g'
     else buf_bytes b' = [] \<and> slot_holds (BUF_SIZE fr) fr s q (insert j S) g')"
proof -
  let ?k = "n_pieces (length q) s" and ?c = "take s (drop (j * s) q)" and ?g = "fl_fragments l1 ! i"
  define h where "h = piece_header (Suc j = ?k) seq j s"
  have H: "0 \<le> headroom fr" "headroom fr \<le> BUF_SIZE fr" using fr by (auto simp: frame_ok_def)
  have jq: "j * s < length q" using n_pieces_simps(5) [OF q(2), of "length q" j] S(2) by simp
  obtain b1 where b1: "buf_read b 4 = (Some (be32 h), b1)" "buf_ok b1" "buf_bytes b1 = ?c"
    using bufq.get_u32 [OF b(1), of h ?c] b(2) by (auto simp: h_def)
  have b1len: "b_len b1 = int (length ?c)" using length_buf_bytes [OF b1(2)] b1(3) by simp
  have blen: "b_len b > 0" using length_buf_bytes [OF b(1)] b(2) by simp
  note F = piece_header_fields [OF seq, of j, OF less_le_trans [OF S(2,3)], where s = s]
  note ty = F(1) [where lst = "Suc j = ?k", folded h_def]
  note sq = F(2) [where lst = "Suc j = ?k", folded h_def]
  note n = F(3) [where lst = "Suc j = ?k", folded h_def]
  have full: "length ?c = s" if "Suc j \<noteq> ?k"
  proof -
    have "Suc j < ?k" using S(2) that by simp
    then have "Suc j * s < length q" using n_pieces_simps(5) [OF q(2), of "length q" "Suc j"] by simp
    then show ?thesis by simp
  qed
  have sz: "(if h AND FRAG_TYPE_MASK = FRAG_YES_LAST
      then uint (push_bit FRAG_SIZE_ROUND_SHIFT (drop_bit FRAG_SIZE_SHIFT h AND FRAG_SIZE_MASK)) else b_len b1) = int s"
  proof (cases "Suc j = ?k")
    case True
    then have hh: "h = piece_header True seq j s" by (simp add: h_def)
    have "uint (push_bit FRAG_SIZE_ROUND_SHIFT (drop_bit FRAG_SIZE_SHIFT h AND FRAG_SIZE_MASK)) = int s"
      unfolding hh by (rule F(4) [OF q(3,4)])
    moreover have "h AND FRAG_TYPE_MASK = FRAG_YES_LAST" using True ty by simp
    ultimately show ?thesis by (simp only: if_True simp_thms)
  next
    case False
    then have "b_len b1 = int s" using b1len full by simp
    moreover have "h AND FRAG_TYPE_MASK \<noteq> FRAG_YES_LAST"
      unfolding ty if_not_P [OF False] by (simp add: FRAG_YES_LAST_def FRAG_YES_NOTLAST_def)
    ultimately show ?thesis by (simp only: if_False simp_thms)
  qed
  have tyl: "h AND FRAG_TYPE_MASK = FRAG_YES_LAST \<longleftrightarrow> Suc j = ?k"
    unfolding ty by (simp add: FRAG_YES_LAST_def FRAG_YES_NOTLAST_def)
  have al: "int s AND FRAG_SIZE_ROUND_MASK = 0"
    unfolding and_3_mod using q(4) by presburger
  have gok: "buf_ok (f_buf ?g)" "b_capacity (f_buf ?g) = BUF_SIZE fr"
    using slot(2,3) by (auto simp: list_ok_def)
  obtain g1 where g1: "(if \<not> f_defined ?g \<or> f_max_frag_size ?g \<noteq> int s
       then do { fb \<leftarrow> buf_init (f_buf ?g) (headroom fr);
                 Some (?g\<lparr>f_defined := True, f_max_frag_size := int s, f_map := 0, f_buf := fb\<rparr>) }
       else Some ?g) = Some g1" "assembling (BUF_SIZE fr) fr s q S g1"
  proof (cases "f_defined ?g")
    case True
    then have "assembling (BUF_SIZE fr) fr s q S ?g" using slot(5) by (simp add: slot_holds_def)
    then show ?thesis using that True by (simp add: assembling_def)
  next
    case False
    then have "S = {}" using slot(5) by (auto simp: slot_holds_def assembling_def)
    then show ?thesis using that False fresh_assembling [OF gok H, of s q] by auto
  qed
  obtain fb where fb: "buf_copy_range (f_buf g1) (int j * int s) b1 0 (b_len b1) = Some fb"
    "assembling (BUF_SIZE fr) fr s q (insert j S) (g1\<lparr>f_buf := fb,
      f_map := f_map g1 OR push_bit j (if Suc j = ?k then FRAG_MAP_MASK else 1), f_timestamp := nw\<rparr>)"
    using store_piece [OF g1(2) S(2,3) q(2) H(1) q(5) b1(2,3)] by blast
  define g2 where "g2 = g1\<lparr>f_buf := fb,
      f_map := f_map g1 OR push_bit j (if Suc j = ?k then FRAG_MAP_MASK else 1), f_timestamp := nw\<rparr>"
  have fullmap: "f_map g2 AND FRAG_MAP_MASK = FRAG_MAP_MASK \<longleftrightarrow> insert j S = {..< ?k}"
    using assembled_iff [OF fb(2) _ S(3) q(1,2)] S(1,2) by (auto simp: g2_def)
  define g3 where "g3 = (if insert j S = {..< ?k} then g2\<lparr>f_defined := False\<rparr> else g2)"
  have "fragment_store nw l b1 fr h = Some (l1\<lparr>fl_fragments := (fl_fragments l1)[i := g3]\<rparr>,
      if insert j S = {..< ?k} then f_buf g2 else b1\<lparr>b_len := 0\<rparr>)"
    unfolding fragment_store_def Let_def sz unfolding sq n slot(1) bind.bind_lunit prod.case al g1(1)
      simp_thms if_False fb(1) option.case tyl nat_int
    using fullmap unfolding g3_def by (cases "insert j S = {..< ?k}") (simp_all add: g2_def)
  then have "fragment_incoming nw f b fr = Some (f\<lparr>incoming := l1\<lparr>fl_fragments := (fl_fragments l1)[i := g3]\<rparr>\<rparr>,
      if insert j S = {..< ?k} then f_buf g2 else b1\<lparr>b_len := 0\<rparr>)"
    using blen b1(1) ty f(1)
    by (auto simp: fragment_incoming_def Let_def FRAG_WHOLE_def FRAG_YES_LAST_def FRAG_YES_NOTLAST_def)
  moreover have "\<not> f_defined g3" if "insert j S = {..< ?k}" using that by (simp add: g3_def)
  moreover have "buf_bytes (f_buf g2) = q" if "insert j S = {..< ?k}"
    using assembled_bytes [OF fb(2) [unfolded that g2_def [symmetric]] q(1,2) H(1)] by simp
  moreover have "buf_ok (f_buf g3)" "b_capacity (f_buf g3) = BUF_SIZE fr"
    using fb(2) by (auto simp: assembling_def g3_def g2_def)
  moreover have "buf_bytes (b1\<lparr>b_len := 0\<rparr>) = []" by (simp add: buf_bytes_def)
  moreover have "slot_holds (BUF_SIZE fr) fr s q (insert j S) g3" if "insert j S \<noteq> {..< ?k}"
    using fb(2) that by (simp add: slot_holds_def g3_def g2_def)
  ultimately show ?thesis by (intro exI [of _ "f\<lparr>incoming := l1\<lparr>fl_fragments := (fl_fragments l1)[i := g3]\<rparr>\<rparr>"]
        exI [of _ "if insert j S = {..< ?k} then f_buf g2 else b1\<lparr>b_len := 0\<rparr>"] exI [of _ g3]) auto
qed

text \<open>
  Passing arriving buffers to \<open>fragment_incoming\<close> one after the other, each with its time; what is
  passed on to the tunnel is recorded. The state after the pieces \<open>S\<close> of \<open>q\<close> have arrived.
\<close>

fun receive_all :: "fragment_master \<Rightarrow> frame \<Rightarrow> (time \<times> buffer) list \<Rightarrow> (u8 list list \<times> fragment_master) option" where
  "receive_all f fr [] = Some ([], f)"
| "receive_all f fr ((nw, b) # es) =
     do { (f, b) \<leftarrow> fragment_incoming nw f b fr;
          (os, f) \<leftarrow> receive_all f fr es;
          Some (buf_bytes b # os, f) }"

lemma receive_all_append:
  assumes "receive_all f fr es = Some (os, f')"
  shows "receive_all f fr (es @ es') =
    do { (os', f) \<leftarrow> receive_all f' fr es'; Some (os @ os', f) }"
  using assms
proof (induction f fr es arbitrary: os rule: receive_all.induct)
  case (2 f fr nw b es)
  then show ?case by (auto split: Option.bind_splits prod.splits simp: Option.bind_eq_Some_conv)
qed simp

definition in_step :: "frame \<Rightarrow> int \<Rightarrow> fragment_list \<Rightarrow> bool" where
  "in_step fr seq l \<longleftrightarrow> list_ok (BUF_SIZE fr) l \<and>
     (fl_seq_id l = seq \<or> (\<forall>g \<in> set (fl_fragments l). \<not> f_defined g))"

definition receiving :: "frame \<Rightarrow> nat \<Rightarrow> u8 list \<Rightarrow> int \<Rightarrow> nat set \<Rightarrow> fragment_master \<Rightarrow> bool" where
  "receiving fr s q seq S f \<longleftrightarrow> list_ok (BUF_SIZE fr) (incoming f) \<and>
     (\<exists>l i. fragment_list_get_buf (incoming f) seq = Some (l, i) \<and> list_ok (BUF_SIZE fr) l \<and> i < 25 \<and>
        tracks l seq i \<and> (fl_seq_id l = seq \<or> (\<forall>k < 25. k \<noteq> i \<longrightarrow> \<not> f_defined (fl_fragments l ! k))) \<and>
        slot_holds (BUF_SIZE fr) fr s q S (fl_fragments l ! i))"

lemma fl_advance_undefined:
  assumes "fl_advance d l = Some l'" "\<forall>g \<in> set (fl_fragments l). \<not> f_defined g"
  shows "\<forall>g \<in> set (fl_fragments l'). \<not> f_defined g"
  using assms
proof (induction d arbitrary: l)
  case (Suc d)
  from Suc.prems(1) obtain i t where l': "fl_advance d (l\<lparr>fl_index := i, fl_fragments := (fl_fragments l)
      [nat i := (fl_fragments l ! nat i)\<lparr>f_defined := False\<rparr>], fl_seq_id := t\<rparr>) = Some l'"
    by (auto simp: Option.bind_eq_Some_conv)
  show ?case
    by (rule Suc.IH [OF l']) (use Suc.prems(2) in \<open>auto dest!: set_update_subset_insert [THEN subsetD]\<close>)
qed simp

lemma get_buf_undefined:
  assumes "fragment_list_get_buf l seq = Some (l', i)" "\<forall>g \<in> set (fl_fragments l). \<not> f_defined g"
  shows "\<forall>g \<in> set (fl_fragments l'). \<not> f_defined g"
  using assms
  by (auto simp: fragment_list_get_buf_def Let_def Option.bind_eq_Some_conv split: if_splits
      dest!: fl_advance_undefined)

lemma receiving_start:
  assumes "in_step fr t (incoming f)" "seq = (t + 1) mod 256"
  shows "receiving fr s q seq {} f"
proof -
  have seq: "0 \<le> seq" "seq < 256" using assms(2) by auto
  have ok: "list_ok (BUF_SIZE fr) (incoming f)" using assms(1) by (simp add: in_step_def)
  from get_buf_ok [OF ok seq]
  obtain l i where l: "fragment_list_get_buf (incoming f) seq = Some (l, i)" "list_ok (BUF_SIZE fr) l" "i < 25"
    "tracks l seq i" "seq = (fl_seq_id (incoming f) + 1) mod 256 \<longrightarrow>
       \<not> f_defined (fl_fragments l ! i) \<and> fl_seq_id l = seq" by blast
  consider "fl_seq_id (incoming f) = t" | "\<forall>g \<in> set (fl_fragments (incoming f)). \<not> f_defined g"
    using assms(1) by (auto simp: in_step_def)
  then have "\<not> f_defined (fl_fragments l ! i) \<and>
    (fl_seq_id l = seq \<or> (\<forall>k < 25. k \<noteq> i \<longrightarrow> \<not> f_defined (fl_fragments l ! k)))"
  proof cases
    case 2
    from get_buf_undefined [OF l(1) this] have "\<not> f_defined (fl_fragments l ! k)" if "k < 25" for k
      using that l(2) by (simp add: list_ok_def)
    then show ?thesis using l(3) by simp
  qed (use l(5) assms(2) in simp)
  then show ?thesis using ok l(1-4) unfolding receiving_def slot_holds_def by blast
qed

lemma list_ok_update:
  assumes "list_ok cap l" "buf_ok (f_buf g)" "b_capacity (f_buf g) = cap" "i < 25"
  shows "list_ok cap (l\<lparr>fl_fragments := (fl_fragments l)[i := g]\<rparr>)"
  using assms by (auto simp: list_ok_def nth_list_update)

lemma tracks_update: "tracks l seq i \<Longrightarrow> tracks (l\<lparr>fl_fragments := gs\<rparr>) seq i"
  by (simp add: tracks_def)

text \<open>What the buffer of piece \<open>j\<close> holds.\<close>

definition is_piece :: "int \<Rightarrow> nat \<Rightarrow> u8 list \<Rightarrow> nat \<Rightarrow> buffer \<Rightarrow> bool" where
  "is_piece seq s q j b \<longleftrightarrow> buf_ok b \<and>
     buf_bytes b = be32 (piece_header (Suc j = n_pieces (length q) s) seq j s) @ take s (drop (j * s) q)"

lemma receive_step:
  assumes "receiving fr s q seq S f"
    and S: "S \<subset> {..< n_pieces (length q) s}" "j < n_pieces (length q) s" "n_pieces (length q) s \<le> 32"
    and q: "q \<noteq> []" "0 < s" "s < 65536" "s mod 4 = 0" "headroom fr + int (length q) \<le> BUF_SIZE fr"
    and fr: "frame_ok fr" and seq: "0 \<le> seq" "seq < 256" and b: "is_piece seq s q j b"
  shows "\<exists>f' b'. fragment_incoming nw f b fr = Some (f', b') \<and>
    (if insert j S = {..< n_pieces (length q) s} then buf_bytes b' = q \<and> in_step fr seq (incoming f')
     else buf_bytes b' = [] \<and> receiving fr s q seq (insert j S) f')"
proof -
  obtain l i where l: "fragment_list_get_buf (incoming f) seq = Some (l, i)" "list_ok (BUF_SIZE fr) l" "i < 25"
    "tracks l seq i" "fl_seq_id l = seq \<or> (\<forall>k < 25. k \<noteq> i \<longrightarrow> \<not> f_defined (fl_fragments l ! k))"
    "slot_holds (BUF_SIZE fr) fr s q S (fl_fragments l ! i)"
    and ok: "list_ok (BUF_SIZE fr) (incoming f)"
    using assms(1) unfolding receiving_def by blast
  have b: "buf_ok b" "buf_bytes b = be32 (piece_header (Suc j = n_pieces (length q) s) seq j s) @ take s (drop (j * s) q)"
    using b by (auto simp: is_piece_def)
  obtain f' b' g where r: "fragment_incoming nw f b fr = Some (f', b')"
    "f' = f\<lparr>incoming := l\<lparr>fl_fragments := (fl_fragments l)[i := g]\<rparr>\<rparr>" "buf_ok (f_buf g)"
    "b_capacity (f_buf g) = BUF_SIZE fr"
    "if insert j S = {..< n_pieces (length q) s} then buf_bytes b' = q \<and> \<not> f_defined g
     else buf_bytes b' = [] \<and> slot_holds (BUF_SIZE fr) fr s q (insert j S) g"
    using receive_piece [OF refl ok l(1-4) l(6) S q fr seq b] by blast
  have inc: "incoming f' = l\<lparr>fl_fragments := (fl_fragments l)[i := g]\<rparr>" using r(2) by simp
  have lok: "list_ok (BUF_SIZE fr) (incoming f')" unfolding inc by (rule list_ok_update [OF l(2) r(3,4) l(3)])
  have get: "fragment_list_get_buf (incoming f') seq = Some (incoming f', i)"
    unfolding inc using l(4) by (simp add: tracks_def)
  have "receiving fr s q seq (insert j S) f'" if "slot_holds (BUF_SIZE fr) fr s q (insert j S) g"
    unfolding receiving_def
  proof (intro conjI exI)
    show "tracks (incoming f') seq i" unfolding inc by (rule tracks_update [OF l(4)])
    show "slot_holds (BUF_SIZE fr) fr s q (insert j S) (fl_fragments (incoming f') ! i)"
      using that l(2,3) by (simp add: inc list_ok_def)
    show "fl_seq_id (incoming f') = seq \<or> (\<forall>k < 25. k \<noteq> i \<longrightarrow> \<not> f_defined (fl_fragments (incoming f') ! k))"
      using l(5) by (simp add: inc)
  qed (use lok get l(3) in auto)
  moreover have "in_step fr seq (incoming f')" if "\<not> f_defined g"
    using l(2,3,5) that lok by (auto simp: in_step_def inc list_ok_def in_set_conv_nth nth_list_update split: if_splits)
  ultimately show ?thesis using r(1,5) by (intro exI conjI) (auto split: if_splits)
qed

lemma receive_run:
  assumes "receiving fr s q seq S f"
    and "S \<union> set js \<subset> {..< n_pieces (length q) s}" "n_pieces (length q) s \<le> 32"
    and "q \<noteq> []" "0 < s" "s < 65536" "s mod 4 = 0" "headroom fr + int (length q) \<le> BUF_SIZE fr"
    and "frame_ok fr" "0 \<le> seq" "seq < 256" "list_all2 (is_piece seq s q) js (map snd es)"
  shows "\<exists>f'. receive_all f fr es = Some (replicate (length js) [], f') \<and> receiving fr s q seq (S \<union> set js) f'"
  using assms
proof (induction js arbitrary: es f S)
  case Nil
  then show ?case by simp
next
  case (Cons j js)
  obtain nw b es' where es: "es = (nw, b) # es'" "is_piece seq s q j b" "list_all2 (is_piece seq s q) js (map snd es')"
    using Cons.prems(12) by (auto simp: list_all2_Cons1)
  have sub: "S \<subset> {..< n_pieces (length q) s}" "j < n_pieces (length q) s"
    "insert j S \<noteq> {..< n_pieces (length q) s}" "insert j S \<union> set js \<subset> {..< n_pieces (length q) s}"
    using Cons.prems(2) by auto
  obtain f1 b1 where s1: "fragment_incoming nw f b fr = Some (f1, b1)" "buf_bytes b1 = []"
    "receiving fr s q seq (insert j S) f1"
    using receive_step [OF Cons.prems(1) sub(1,2) Cons.prems(3-11) es(2), of nw] sub(3) by auto
  from Cons.IH [OF s1(3) sub(4) Cons.prems(3-11) es(3)] show ?case
    using s1(1,2) es(1) by auto
qed

lemma pieces_ok_is_piece:
  assumes "pieces_ok bs seq 0 s q" "j < length bs"
  shows "is_piece seq s q j (bs ! j)" "length bs = n_pieces (length q) s"
  using assms by (auto simp: pieces_ok_def is_piece_def)

text \<open>
  C14. A datagram longer than the fragment size, and short enough for 32 pieces, is cut by
  \<^verbatim>\<open>fragment_outgoing\<close> and \<^verbatim>\<open>fragment_ready_to_send\<close> into at most 32 pieces. When the pieces reach a receiver
  that is in step (it saw the previous sequence id, or is assembling nothing), in any order and with repetitions, nothing is passed on
  until the last missing piece arrives, and then the datagram is passed on unchanged; no assertion
  fails, and sender and receiver are in step for the next datagram.
\<close>

theorem fragment_roundtrip:
  assumes "frame_ok fr" "sender_ok fr tx" "in_step fr (outgoing_seq_id tx) (incoming rx)"
    and "buf_ok b" "max_fragment_size fr < b_len b"
    and "b_len b \<le> optimal_fragment_size (b_len b) (max_fragment_size fr) * MAX_FRAGS"
    and "headroom fr + b_len b \<le> BUF_SIZE fr"
  shows "\<exists>bs tx'. send_datagram tx b fr = Some (bs, tx') \<and> sender_ok fr tx' \<and> length bs \<le> 32 \<and>
    (\<forall>js j ts. set js \<union> {j} = {..< length bs} \<and> j \<notin> set js \<and> length ts = length js + 1 \<longrightarrow>
      (\<exists>rx'. receive_all rx fr (zip ts (map ((!) bs) (js @ [j])))
           = Some (replicate (length js) [] @ [buf_bytes b], rx') \<and>
         in_step fr (outgoing_seq_id tx') (incoming rx')))"
proof -
  define q where "q = buf_bytes b"
  obtain bs tx' s where P: "send_datagram tx b fr = Some (bs, tx')" "sender_ok fr tx'"
    "outgoing_seq_id tx' = (outgoing_seq_id tx + 1) mod N_SEQ_ID" "0 < s" "s < 65536" "s mod 4 = 0"
    "n_pieces (length q) s \<le> 32" "pieces_ok bs (outgoing_seq_id tx') 0 s q"
    using send_datagram_pieces [OF assms(2,1,4-7)] unfolding q_def by (elim exE conjE) (rule that [unfolded q_def])
  define seq where "seq = outgoing_seq_id tx'"
  have seq: "seq = (outgoing_seq_id tx + 1) mod 256" "0 \<le> seq" "seq < 256"
    using P(3) by (auto simp: seq_def N_SEQ_ID_def)
  have len: "b_len b = int (length q)" using length_buf_bytes [OF assms(4)] by (simp add: q_def)
  have "4 \<le> max_fragment_size fr" using assms(1) by (simp add: frame_ok_def)
  then have q: "q \<noteq> []" "headroom fr + int (length q) \<le> BUF_SIZE fr" using assms(5,7) len by auto
  have nb: "length bs = n_pieces (length q) s" using P(8) by (simp add: pieces_ok_def)
  have piece: "is_piece seq s q i (bs ! i)" if "i < length bs" for i
    using pieces_ok_is_piece(1) [OF P(8) that] by (simp add: seq_def)
  have "\<exists>rx'. receive_all rx fr (zip ts (map ((!) bs) (js @ [j])))
           = Some (replicate (length js) [] @ [q], rx') \<and>
         in_step fr seq (incoming rx')"
    if js: "set js \<union> {j} = {..< length bs}" "j \<notin> set js" "length ts = length js + 1" for js j ts
  proof -
    let ?es = "zip (butlast ts) (map ((!) bs) js)" and ?t = "ts ! length js"
    have ts: "ts = butlast ts @ [?t]" "length (butlast ts) = length js"
      using js(3) by (auto simp: butlast_conv_take simp flip: take_Suc_conv_app_nth)
    have "zip ts (map ((!) bs) (js @ [j])) = ?es @ [(?t, bs ! j)]"
      by (subst ts(1)) (simp add: zip_append [OF ts(2) [folded length_map [of "(!) bs" js]]] ts(2))
    note es = this
    have sub: "{} \<union> set js \<subset> {..< n_pieces (length q) s}" "j < n_pieces (length q) s"
      using js(1,2) nb by auto
    have "list_all2 (is_piece seq s q) js (map snd ?es)"
      using sub(1) nb ts(2) piece by (auto simp: list_all2_conv_all_nth dest!: nth_mem)
    from receive_run [OF receiving_start [OF assms(3) seq(1)] sub(1) P(7) q(1) P(4-6) q(2) assms(1) seq(2,3) this]
    obtain f where f: "receive_all rx fr ?es = Some (replicate (length js) [], f)"
      "receiving fr s q seq (set js) f" by auto
    have "set js \<subset> {..< n_pieces (length q) s}" using sub(1) by simp
    from receive_step [OF f(2) this sub(2) P(7) q(1) P(4-6) q(2) assms(1) seq(2,3) piece, of ?t]
    obtain f' b' where "fragment_incoming ?t f (bs ! j) fr = Some (f', b')" "in_step fr seq (incoming f')" "buf_bytes b' = q"
      using sub(2) js(1) nb by (metis Un_insert_right sup_bot_right lessThan_iff)
    then show ?thesis using receive_all_append [OF f(1)] es by auto
  qed
  then show ?thesis using P(1,2,7) nb unfolding seq_def q_def by auto
qed

text \<open>A concrete exchange: a datagram of ten bytes, in three pieces.\<close>

definition demo_frame :: frame where
  "demo_frame = \<lparr>headroom = 8, payload_size = 16, tailroom = 0, max_fragment_size = 4\<rparr>"

definition demo_buf :: "u8 list \<Rightarrow> buffer" where
  "demo_buf bs = \<lparr>b_capacity = 24, b_offset = 8, b_len = int (length bs),
     b_data = Some (replicate 8 0 @ bs @ replicate (16 - length bs) 0)\<rparr>"

definition demo_master :: "int \<Rightarrow> fragment_master" where
  "demo_master sid = \<lparr>outgoing_seq_id = sid, outgoing_frag_size = 0, outgoing_frag_id = 0,
     outgoing = demo_buf [], outgoing_return = demo_buf [],
     incoming = \<lparr>fl_seq_id = 0, fl_index = 0, fl_fragments = replicate 25
       \<lparr>f_defined = False, f_max_frag_size = 0, f_map = 0, f_timestamp = 0, f_buf = demo_buf []\<rparr>\<rparr>\<rparr>"

lemma demo_fragments: "map_option (length o fst)
    (send_datagram (demo_master 7) (demo_buf [1, 2, 3, 4, 5, 6, 7, 8, 9, 10]) demo_frame) = Some 3"
  by code_simp

text \<open>Pieces 2, 0 and 2 again pass nothing on; piece 1 completes the datagram.\<close>

theorem fragment_roundtrip_witness:
  "\<exists>bs tx' rx'. send_datagram (demo_master 7) (demo_buf [1, 2, 3, 4, 5, 6, 7, 8, 9, 10]) demo_frame = Some (bs, tx') \<and>
     receive_all (demo_master 99) demo_frame [(1000, bs ! 2), (1001, bs ! 0), (1002, bs ! 2), (1003, bs ! 1)] =
       Some ([[], [], [], [1, 2, 3, 4, 5, 6, 7, 8, 9, 10]], rx')"
proof -
  let ?b = "demo_buf [1, 2, 3, 4, 5, 6, 7, 8, 9, 10]"
  have 1: "frame_ok demo_frame" by (simp add: frame_ok_def demo_frame_def BUF_SIZE_def BUF_SIZE_MAX_def)
  have ok: "buf_ok (demo_buf bs)" if "length bs \<le> 16" for bs
    using that by (simp add: buf_ok_def demo_buf_def BUF_SIZE_MAX_def)
  have 2: "sender_ok demo_frame (demo_master 7)" using ok [of "[]"]
    by (simp add: sender_ok_def demo_master_def BUF_SIZE_def demo_frame_def N_SEQ_ID_def) (simp add: demo_buf_def)
  have 3: "in_step demo_frame (outgoing_seq_id (demo_master 7)) (incoming (demo_master 99))" using ok [of "[]"]
    by (simp add: in_step_def list_ok_def demo_master_def BUF_SIZE_def demo_frame_def) (simp add: demo_buf_def)
  have 4: "b_len ?b \<le> optimal_fragment_size (b_len ?b) (max_fragment_size demo_frame) * MAX_FRAGS"
    by code_simp
  have 5: "max_fragment_size demo_frame < b_len ?b" "headroom demo_frame + b_len ?b \<le> BUF_SIZE demo_frame"
    by (simp_all add: demo_frame_def demo_buf_def BUF_SIZE_def)
  have okb: "buf_ok ?b" by (rule ok) simp
  from fragment_roundtrip [OF 1 2 3 okb 5(1) 4 5(2)] obtain bs tx' where
    s: "send_datagram (demo_master 7) ?b demo_frame = Some (bs, tx')"
    and r: "\<forall>js j ts. set js \<union> {j} = {..< length bs} \<and> j \<notin> set js \<and> length ts = length js + 1 \<longrightarrow>
      (\<exists>rx'. receive_all (demo_master 99) demo_frame (zip ts (map ((!) bs) (js @ [j])))
         = Some (replicate (length js) [] @ [buf_bytes ?b], rx') \<and>
         in_step demo_frame (outgoing_seq_id tx') (incoming rx'))"
    by (elim exE conjE) (rule that)
  have "length bs = 3" using demo_fragments s by simp
  then have "set [2, 0, 2] \<union> {1} = {..< length bs} \<and> 1 \<notin> set [2, 0, 2 :: nat] \<and>
    length [1000, 1001, 1002, 1003 :: int] = length [2, 0, 2 :: nat] + 1" by auto
  from r [THEN spec, THEN spec, THEN spec, THEN mp, OF this] obtain rx' where
    "receive_all (demo_master 99) demo_frame
      (zip [1000, 1001, 1002, 1003] (map ((!) bs) ([2, 0, 2] @ [1]))) =
       Some (replicate (length [2, 0, 2 :: nat]) [] @ [buf_bytes ?b], rx')" by (elim exE conjE) (rule that)
  moreover have "buf_bytes ?b = [1, 2, 3, 4, 5, 6, 7, 8, 9, 10]"
    by (simp add: buf_bytes_def demo_buf_def b_mem_def)
  moreover have "zip [1000, 1001, 1002, 1003] (map ((!) bs) ([2, 0, 2] @ [1])) =
    [(1000 :: int, bs ! 2), (1001, bs ! 0), (1002, bs ! 2), (1003, bs ! 1)]" by simp
  moreover have "replicate (length [2, 0, 2 :: nat]) [] = [[], [], [] :: u8 list]" by (simp add: numeral_eq_Suc)
  ultimately show ?thesis using s by (auto simp del: receive_all.simps)
qed

section \<open>Whole datagrams\<close>

text \<open>
  C26. The check that a header of type \<open>FRAG_WHOLE\<close> has no sequence and fragment id tests the masks
  unshifted: a header with these ids is accepted as soon as the low six bits of its sequence id are
  zero, whatever the fragment id is.
\<close>

theorem whole_header_check_is_partial:
  assumes "buf_ok b" "buf_bytes b = be32 (frag_header FRAG_WHOLE s n z) @ d"
  shows "\<exists>b'. buf_bytes b' = d \<and> fragment_incoming nw f b fr =
    Some (f, if s AND 0x3f = 0 then b' else b'\<lparr>b_len := 0\<rparr>)"
proof -
  let ?h = "frag_header FRAG_WHOLE s n z"
  have len: "b_len b > 0" using length_buf_bytes [OF assms(1)] assms(2) by simp
  obtain b' where b': "buf_read b 4 = (Some (be32 ?h), b')" "buf_bytes b' = d"
    using bufq.get_u32 [OF assms] by auto
  have ty: "?h AND FRAG_TYPE_MASK = FRAG_WHOLE" unfolding frag_header_fields(1) by (simp add: FRAG_WHOLE_def)
  have m: "(0x3f :: u32) = mask 6" "(0xff :: u32) = mask 8" by (simp_all add: mask_eq_exp_minus_1)
  have "?h AND (FRAG_SEQ_ID_MASK OR FRAG_ID_MASK) = push_bit 2 (s AND 0x3f)"
  proof -
    have "FRAG_SEQ_ID_MASK OR FRAG_ID_MASK = (0xff :: u32)" by (simp add: FRAG_SEQ_ID_MASK_def FRAG_ID_MASK_def)
    then show ?thesis
      unfolding frag_header_def frag_masks m FRAG_SEQ_ID_SHIFT_def FRAG_ID_SHIFT_def FRAG_SIZE_SHIFT_def FRAG_WHOLE_def
      by (intro bit_word_eqI) (auto simp: bit_simps)
  qed
  moreover have "push_bit 2 (s AND 0x3f) = 0 \<longleftrightarrow> s AND 0x3f = 0"
  proof -
    have "bit (push_bit 2 (s AND 0x3f) :: u32) (k + 2) \<longleftrightarrow> bit (s AND 0x3f) k" for k
      unfolding m by (auto simp: bit_simps)
    then show ?thesis by (metis bit_0_eq bit_eqI push_bit_of_0 bot_apply bot_bool_def)
  qed
  ultimately show ?thesis using len b' ty
    by (auto simp: fragment_incoming_def Let_def frag_drop_def)
qed

theorem whole_header_check_is_partial_witness:
  "\<exists>b'. buf_bytes b' = [9] \<and> fragment_incoming 0 (demo_master 7)
     (demo_buf (be32 (frag_header FRAG_WHOLE 0x40 5 0) @ [9])) demo_frame = Some (demo_master 7, b')"
proof -
  have 1: "buf_ok (demo_buf (be32 (frag_header FRAG_WHOLE 0x40 5 0) @ [9]))"
    by (simp add: buf_ok_def demo_buf_def BUF_SIZE_MAX_def)
  have 2: "buf_bytes (demo_buf (be32 (frag_header FRAG_WHOLE 0x40 5 0) @ [9])) =
    be32 (frag_header FRAG_WHOLE 0x40 5 0) @ [9]"
    by (simp add: buf_bytes_def demo_buf_def b_mem_def)
  show ?thesis using whole_header_check_is_partial [OF 1 2, of 0 "demo_master 7" demo_frame] by simp
qed

end
