(* ===== verification/Keyed_Store.thy ===== *)
theory Keyed_Store
  imports Vpn_Prelude
begin

text \<open>
  The interface of a keyed container, which the hash tables of \<^verbatim>\<open>list.c\<close> provide to the
  multi-client server: lookups (which may rearrange the container), insertions that may or may not
  replace, removals. The specification is a map up to a comparison of keys; a run of any list of
  operations gives the same results on both.
\<close>

datatype ('k, 'v) store_op =
    Lookup_op 'k
  | Add_op 'k 'v bool
  | Remove_op 'k

datatype 'v store_result =
    Value "'v option"
  | Done bool

fun spec_step :: "('k \<Rightarrow> 'k \<Rightarrow> bool) \<Rightarrow> ('k, 'v) store_op \<Rightarrow> ('k \<Rightarrow> 'v option) \<Rightarrow>
    'v store_result \<times> ('k \<Rightarrow> 'v option)" where
  "spec_step eq (Lookup_op k) m = (Value (m k), m)"
| "spec_step eq (Add_op k v replace) m =
     (if m k = None \<or> replace then (Done True, \<lambda>k'. if eq k' k then Some v else m k') else (Done False, m))"
| "spec_step eq (Remove_op k) m = (Done (m k \<noteq> None), \<lambda>k'. if eq k' k then None else m k')"

fun store_run :: "('o \<Rightarrow> 's \<Rightarrow> 'r \<times> 's) \<Rightarrow> 'o list \<Rightarrow> 's \<Rightarrow> 'r list \<times> 's" where
  "store_run step [] s = ([], s)"
| "store_run step (op # ops) s =
     (case step op s of (r, s) \<Rightarrow> (case store_run step ops s of (rs, s) \<Rightarrow> (r # rs, s)))"

fun store_step :: "('s \<Rightarrow> 'k \<Rightarrow> 'v option \<times> 's) \<Rightarrow> ('s \<Rightarrow> 'k \<Rightarrow> 'v \<Rightarrow> bool \<Rightarrow> bool \<times> 's) \<Rightarrow>
    ('s \<Rightarrow> 'k \<Rightarrow> bool \<times> 's) \<Rightarrow> ('k, 'v) store_op \<Rightarrow> 's \<Rightarrow> 'v store_result \<times> 's" where
  "store_step lookup add remove (Lookup_op k) s = (case lookup s k of (v, s) \<Rightarrow> (Value v, s))"
| "store_step lookup add remove (Add_op k v replace) s = (case add s k v replace of (b, s) \<Rightarrow> (Done b, s))"
| "store_step lookup add remove (Remove_op k) s = (case remove s k of (b, s) \<Rightarrow> (Done b, s))"

locale keyed_store =
  fixes lookup :: "'s \<Rightarrow> 'k \<Rightarrow> 'v option \<times> 's"
    and add :: "'s \<Rightarrow> 'k \<Rightarrow> 'v \<Rightarrow> bool \<Rightarrow> bool \<times> 's"
    and remove :: "'s \<Rightarrow> 'k \<Rightarrow> bool \<times> 's"
    and content :: "'s \<Rightarrow> 'k \<Rightarrow> 'v option"
    and same :: "'s \<Rightarrow> 'k \<Rightarrow> 'k \<Rightarrow> bool"
    and inv :: "'s \<Rightarrow> bool"
  assumes lookup_law: "inv s \<Longrightarrow> lookup s k = (r, s') \<Longrightarrow>
      r = content s k \<and> inv s' \<and> content s' = content s \<and> same s' = same s"
    and add_law: "inv s \<Longrightarrow> add s k v replace = (b, s') \<Longrightarrow>
      b = (content s k = None \<or> replace) \<and> inv s' \<and> same s' = same s \<and>
      content s' = (if content s k = None \<or> replace then (\<lambda>k'. if same s k' k then Some v else content s k') else content s)"
    and remove_law: "inv s \<Longrightarrow> remove s k = (b, s') \<Longrightarrow>
      b = (content s k \<noteq> None) \<and> inv s' \<and> same s' = same s \<and>
      content s' = (\<lambda>k'. if same s k' k then None else content s k')"
begin

lemma step_refines:
  assumes "inv s" "store_step lookup add remove op s = (r, s')"
  shows "inv s' \<and> same s' = same s \<and> spec_step (same s) op (content s) = (r, content s')"
proof (cases op)
  case (Lookup_op k)
  then obtain v where "lookup s k = (v, s')" "r = Value v" using assms(2) by (auto split: prod.splits)
  then show ?thesis using lookup_law [OF assms(1)] Lookup_op by auto
next
  case (Add_op k v replace)
  then obtain b where "add s k v replace = (b, s')" "r = Done b" using assms(2) by (auto split: prod.splits)
  then show ?thesis using add_law [OF assms(1)] Add_op by auto
next
  case (Remove_op k)
  then obtain b where "remove s k = (b, s')" "r = Done b" using assms(2) by (auto split: prod.splits)
  then show ?thesis using remove_law [OF assms(1)] Remove_op by auto
qed

lemma run_refines:
  assumes "inv s" "store_run (store_step lookup add remove) ops s = (rs, s')"
  shows "inv s' \<and> same s' = same s \<and> store_run (spec_step (same s)) ops (content s) = (rs, content s')"
  using assms
proof (induction ops arbitrary: s rs)
  case (Cons op ops)
  obtain r s1 where st: "store_step lookup add remove op s = (r, s1)" by fastforce
  obtain rs1 where run: "store_run (store_step lookup add remove) ops s1 = (rs1, s')" "rs = r # rs1"
    using Cons.prems(2) st by (auto split: prod.splits)
  note r = step_refines [OF Cons.prems(1) st]
  show ?case using Cons.IH [of s1 rs1] r run by (auto simp: st)
qed simp

text \<open>What was added last is found, and nothing else changes.\<close>

lemma lookup_after_add:
  assumes "inv s" "same s k k" "add s k v True = (b, s1)" "lookup s1 k = (r, s2)"
  shows "r = Some v"
  using add_law [OF assms(1,3)] lookup_law [OF _ assms(4)] assms(2) by auto

lemma lookup_after_remove:
  assumes "inv s" "same s k k" "remove s k = (b, s1)" "lookup s1 k = (r, s2)"
  shows "r = None"
  using remove_law [OF assms(1,3)] lookup_law [OF _ assms(4)] assms(2) by auto

end

end
