(* ===== verification/Hash_Table.thy ===== *)
theory Hash_Table
  imports Keyed_Store
begin

text \<open>
  The hash tables of \<^verbatim>\<open>list.c\<close> and \<^verbatim>\<open>list.h\<close>, which hold the clients of a server by address. A bucket
  is a linked list of elements, here a list with its head first; \<^verbatim>\<open>he->key == NULL\<close>, the mark of an
  element to be deleted, is \<open>None\<close>. Keys are hashed and compared with the two functions that the
  table carries, as in the code. The table refines a map, up to the comparison of keys.
\<close>

section \<open>State (list.h)\<close>

record ('k, 'v) hash_element =
  he_value :: 'v
  he_key :: "'k option"
  he_hash :: u32

type_synonym ('k, 'v) hash_bucket = "('k, 'v) hash_element list"

record ('k, 'v) hash =
  n_buckets :: int
  n_elements :: int
  hash_mask :: int
  hash_iv :: u32
  hash_function :: "'k \<Rightarrow> u32 \<Rightarrow> u32"
  compare_function :: "'k \<Rightarrow> 'k \<Rightarrow> bool"
  buckets :: "('k, 'v) hash_bucket list"

section \<open>Operations\<close>

definition hash_init ::
  "int \<Rightarrow> u32 \<Rightarrow> ('k \<Rightarrow> u32 \<Rightarrow> u32) \<Rightarrow> ('k \<Rightarrow> 'k \<Rightarrow> bool) \<Rightarrow> ('k, 'v) hash option" where
  "hash_init n iv hf cf =
     (if n > 0
      then do { m \<leftarrow> adjust_power_of_2 (nat n);
                let nb = sint (word_of_nat m :: u32);
                Some \<lparr>n_buckets = nb, n_elements = 0, hash_mask = nb - 1, hash_iv = iv,
                      hash_function = hf, compare_function = cf, buckets = replicate (nat nb) []\<rparr> }
      else None)"

definition hash_value :: "('k, 'v) hash \<Rightarrow> 'k \<Rightarrow> u32" where
  "hash_value h key = hash_function h key (hash_iv h)"

text \<open>The index of the bucket of a hash value, \<^verbatim>\<open>hv & hash->mask\<close>.\<close>

definition bucket_index :: "('k, 'v) hash \<Rightarrow> u32 \<Rightarrow> nat" where
  "bucket_index h hv = unat (hv AND word_of_int (hash_mask h))"

text \<open>Does an element have this key? (A marked element is never compared: its key is null.)\<close>

definition he_matches :: "('k, 'v) hash \<Rightarrow> 'k \<Rightarrow> u32 \<Rightarrow> ('k, 'v) hash_element \<Rightarrow> bool" where
  "he_matches h key hv he \<longleftrightarrow>
     hv = he_hash he \<and> (case he_key he of None \<Rightarrow> False | Some k \<Rightarrow> compare_function h key k)"

text \<open>The loop over a bucket: the first matching element, and the bucket without it.\<close>

fun bucket_find :: "(('k, 'v) hash_element \<Rightarrow> bool) \<Rightarrow> ('k, 'v) hash_bucket \<Rightarrow>
    (('k, 'v) hash_element \<times> ('k, 'v) hash_bucket) option" where
  "bucket_find P [] = None"
| "bucket_find P (he # b) =
     (if P he then Some (he, b) else map_option (\<lambda>(r, b). (r, he # b)) (bucket_find P b))"

definition set_bucket :: "('k, 'v) hash \<Rightarrow> nat \<Rightarrow> ('k, 'v) hash_bucket \<Rightarrow> ('k, 'v) hash" where
  "set_bucket h i b = h\<lparr>buckets := (buckets h)[i := b]\<rparr>"

text \<open>A lookup moves the element that it finds to the head of its bucket.\<close>

definition hash_lookup_fast ::
  "('k, 'v) hash \<Rightarrow> nat \<Rightarrow> 'k \<Rightarrow> u32 \<Rightarrow> ('k, 'v) hash_element option \<times> ('k, 'v) hash" where
  "hash_lookup_fast h i key hv =
     (case bucket_find (he_matches h key hv) (buckets h ! i) of
        None \<Rightarrow> (None, h)
      | Some (he, b) \<Rightarrow> (Some he, set_bucket h i (he # b)))"

definition hash_remove_fast :: "('k, 'v) hash \<Rightarrow> nat \<Rightarrow> 'k \<Rightarrow> u32 \<Rightarrow> bool \<times> ('k, 'v) hash" where
  "hash_remove_fast h i key hv =
     (case bucket_find (he_matches h key hv) (buckets h ! i) of
        None \<Rightarrow> (False, h)
      | Some (he, b) \<Rightarrow> (True, (set_bucket h i b)\<lparr>n_elements := n_elements h - 1\<rparr>))"

definition hash_add_fast :: "('k, 'v) hash \<Rightarrow> nat \<Rightarrow> 'k \<Rightarrow> u32 \<Rightarrow> 'v \<Rightarrow> ('k, 'v) hash" where
  "hash_add_fast h i key hv v =
     (set_bucket h i (\<lparr>he_value = v, he_key = Some key, he_hash = hv\<rparr> # (buckets h ! i)))
       \<lparr>n_elements := n_elements h + 1\<rparr>"

definition hash_lookup :: "('k, 'v) hash \<Rightarrow> 'k \<Rightarrow> 'v option \<times> ('k, 'v) hash" where
  "hash_lookup h key =
     (let hv = hash_value h key in
      case hash_lookup_fast h (bucket_index h hv) key hv of
        (he, h) \<Rightarrow> (map_option he_value he, h))"

text \<open>The found element is at the head of its bucket when \<^verbatim>\<open>hash_add\<close> replaces its value.\<close>

definition hash_add :: "('k, 'v) hash \<Rightarrow> 'k \<Rightarrow> 'v \<Rightarrow> bool \<Rightarrow> bool \<times> ('k, 'v) hash" where
  "hash_add h key v replace =
     (let hv = hash_value h key; i = bucket_index h hv in
      case hash_lookup_fast h i key hv of
        (Some he, h) \<Rightarrow>
          (if replace then (True, set_bucket h i (he\<lparr>he_value := v\<rparr> # tl (buckets h ! i))) else (False, h))
      | (None, h) \<Rightarrow> (True, hash_add_fast h i key hv v))"

definition hash_remove :: "('k, 'v) hash \<Rightarrow> 'k \<Rightarrow> bool \<times> ('k, 'v) hash" where
  "hash_remove h key =
     (let hv = hash_value h key in hash_remove_fast h (bucket_index h hv) key hv)"

section \<open>Iteration\<close>

text \<open>
  A pointer to an element of the locked bucket is the element's position in it: deletions are
  deferred until the bucket is unlocked, so positions stay what they are. \<open>it_bucket\<close> is the
  locked bucket.
\<close>

record hash_iterator =
  it_index :: int
  it_bucket :: "nat option"
  it_elem :: "nat option"
  it_last :: "nat option"
  it_marked :: bool
  it_start :: int
  it_end :: int

definition hash_remove_marked :: "('k, 'v) hash \<Rightarrow> nat \<Rightarrow> ('k, 'v) hash" where
  "hash_remove_marked h i =
     (let b = buckets h ! i; b' = filter (\<lambda>he. he_key he \<noteq> None) b in
      (set_bucket h i b')\<lparr>n_elements := n_elements h - int (length b - length b')\<rparr>)"

definition hash_iterator_init_range :: "('k, 'v) hash \<Rightarrow> int \<Rightarrow> int \<Rightarrow> hash_iterator option" where
  "hash_iterator_init_range h s e =
     (let e = (if e > n_buckets h then n_buckets h else e) in
      if s \<ge> 0 \<and> s \<le> e
      then Some \<lparr>it_index = s - 1, it_bucket = None, it_elem = None, it_last = None, it_marked = False,
                 it_start = s, it_end = e\<rparr>
      else None)"

definition hash_iterator_init :: "('k, 'v) hash \<Rightarrow> hash_iterator option" where
  "hash_iterator_init h = hash_iterator_init_range h 0 (n_buckets h)"

definition hash_iterator_lock :: "hash_iterator \<Rightarrow> nat \<Rightarrow> hash_iterator" where
  "hash_iterator_lock hi i = hi\<lparr>it_bucket := Some i, it_last := None, it_marked := False\<rparr>"

definition hash_iterator_unlock :: "('k, 'v) hash \<Rightarrow> hash_iterator \<Rightarrow> ('k, 'v) hash \<times> hash_iterator" where
  "hash_iterator_unlock h hi =
     (case it_bucket hi of
        None \<Rightarrow> (h, hi)
      | Some i \<Rightarrow>
          (let h = (if it_marked hi then hash_remove_marked h i else h)
           in (h, hi\<lparr>it_marked := False, it_bucket := None, it_last := None\<rparr>)))"

text \<open>\<^verbatim>\<open>hi->last = hi->elem; hi->elem = hi->elem->next\<close>.\<close>

definition hash_iterator_advance :: "('k, 'v) hash_bucket \<Rightarrow> hash_iterator \<Rightarrow> hash_iterator" where
  "hash_iterator_advance b hi =
     (case it_elem hi of
        None \<Rightarrow> hi
      | Some p \<Rightarrow> hi\<lparr>it_last := Some p, it_elem := (if Suc p < length b then Some (Suc p) else None)\<rparr>)"

text \<open>The search for the next bucket that is not empty: \<open>k\<close> is the index to try next.\<close>

function next_bucket :: "('k, 'v) hash \<Rightarrow> hash_iterator \<Rightarrow> (('k, 'v) hash_element option) \<times> ('k, 'v) hash \<times> hash_iterator" where
  "next_bucket h hi =
     (let hi = hi\<lparr>it_index := it_index hi + 1\<rparr> in
      if it_index hi < it_end hi
      then case hash_iterator_unlock h hi of
             (h, hi) \<Rightarrow>
               (let i = nat (it_index hi); b = buckets h ! i in
                if b \<noteq> []
                then (Some (hd b), h, hash_iterator_advance b ((hash_iterator_lock hi i)\<lparr>it_elem := Some 0\<rparr>))
                else next_bucket h hi)
      else (None, h, hi))"
  by pat_completeness auto

termination
  by (relation "measure (\<lambda>(h, hi). nat (it_end hi - it_index hi))")
     (auto simp: hash_iterator_unlock_def Let_def split: option.splits)

declare next_bucket.simps [simp del]

definition hash_iterator_next ::
  "('k, 'v) hash \<Rightarrow> hash_iterator \<Rightarrow> (('k, 'v) hash_element option) \<times> ('k, 'v) hash \<times> hash_iterator" where
  "hash_iterator_next h hi =
     (case it_elem hi of
        Some p \<Rightarrow>
          (let b = buckets h ! the (it_bucket hi)
           in (Some (b ! p), h, hash_iterator_advance b hi))
      | None \<Rightarrow> next_bucket h hi)"

text \<open>Marking the element returned last; without one the assertion fails.\<close>

definition hash_iterator_delete_element ::
  "('k, 'v) hash \<Rightarrow> hash_iterator \<Rightarrow> (('k, 'v) hash \<times> hash_iterator) option" where
  "hash_iterator_delete_element h hi =
     (case it_last hi of
        None \<Rightarrow> None
      | Some p \<Rightarrow>
          (let i = the (it_bucket hi); b = buckets h ! i in
           Some (set_bucket h i (b[p := (b ! p)\<lparr>he_key := None\<rparr>]), hi\<lparr>it_marked := True\<rparr>)))"

definition hash_iterator_free :: "('k, 'v) hash \<Rightarrow> hash_iterator \<Rightarrow> ('k, 'v) hash" where
  "hash_iterator_free h hi = fst (hash_iterator_unlock h hi)"

text \<open>
  The loop over the elements of a range of buckets, with the body \<open>f\<close>: it changes a state of its own and
  tells whether the element is deleted. \<open>None\<close> is a failed assertion or a loop that does not end.
\<close>

partial_function (option) hash_iterate ::
  "('v \<Rightarrow> 's \<Rightarrow> (bool \<times> 's) option) \<Rightarrow> ('k, 'v) hash \<Rightarrow> hash_iterator \<Rightarrow> 's \<Rightarrow> (('k, 'v) hash \<times> 's) option" where
  "hash_iterate f h hi s =
     (case hash_iterator_next h hi of
        (None, h, hi) \<Rightarrow> Some (hash_iterator_free h hi, s)
      | (Some he, h, hi) \<Rightarrow>
          (case f (he_value he) s of
             None \<Rightarrow> None
           | Some (delete, s) \<Rightarrow>
               if delete
               then (case hash_iterator_delete_element h hi of
                       None \<Rightarrow> None
                     | Some (h, hi) \<Rightarrow> hash_iterate f h hi s)
               else hash_iterate f h hi s))"

declare hash_iterate.simps [code]

definition hash_remove_by_value :: "('k, 'v) hash \<Rightarrow> 'v \<Rightarrow> ('k, 'v) hash option" where
  "hash_remove_by_value h v =
     (case hash_iterator_init h of
        None \<Rightarrow> None
      | Some hi \<Rightarrow> map_option fst (hash_iterate (\<lambda>w s. Some (w = v, s)) h hi ()))"

section \<open>The hash function\<close>

text \<open>\<^verbatim>\<open>mix(a, b, c)\<close>: one line of the macro changes one of the three words.\<close>

definition mix_a :: "nat \<Rightarrow> u32 \<times> u32 \<times> u32 \<Rightarrow> u32 \<times> u32 \<times> u32" where
  "mix_a n = (\<lambda>(a, b, c). ((a - b - c) XOR drop_bit n c, b, c))"

definition mix_b :: "nat \<Rightarrow> u32 \<times> u32 \<times> u32 \<Rightarrow> u32 \<times> u32 \<times> u32" where
  "mix_b n = (\<lambda>(a, b, c). (a, (b - c - a) XOR push_bit n a, c))"

definition mix_c :: "nat \<Rightarrow> u32 \<times> u32 \<times> u32 \<Rightarrow> u32 \<times> u32 \<times> u32" where
  "mix_c n = (\<lambda>(a, b, c). (a, b, (c - a - b) XOR drop_bit n b))"

definition mix :: "u32 \<times> u32 \<times> u32 \<Rightarrow> u32 \<times> u32 \<times> u32" where
  "mix s = mix_c 15 (mix_b 10 (mix_a 3 (mix_c 5 (mix_b 16 (mix_a 12 (mix_c 13 (mix_b 8 (mix_a 13 s))))))))"

text \<open>Byte \<open>i\<close> of the rest of the key, shifted left by \<open>n\<close>; a case that the switch skips adds nothing.\<close>

definition key_byte :: "u8 list \<Rightarrow> nat \<Rightarrow> nat \<Rightarrow> u32" where
  "key_byte k i n = (if i < length k then push_bit n (ucast (k ! i)) else 0)"

function hash_blocks :: "u8 list \<Rightarrow> u32 \<times> u32 \<times> u32 \<Rightarrow> u8 list \<times> u32 \<times> u32 \<times> u32" where
  "hash_blocks k s =
     (if length k \<ge> 12
      then case s of (a, b, c) \<Rightarrow>
        hash_blocks (drop 12 k)
          (mix (a + (key_byte k 0 0 + key_byte k 1 8 + key_byte k 2 16 + key_byte k 3 24),
                b + (key_byte k 4 0 + key_byte k 5 8 + key_byte k 6 16 + key_byte k 7 24),
                c + (key_byte k 8 0 + key_byte k 9 8 + key_byte k 10 16 + key_byte k 11 24)))
      else (k, s))"
  by pat_completeness auto

termination
  by (relation "measure (\<lambda>(k, s). length k)") auto

declare hash_blocks.simps [simp del]

definition hash_func :: "u8 list \<Rightarrow> u32 \<Rightarrow> u32" where
  "hash_func key initval =
     (case hash_blocks key (0x9e3779b9, 0x9e3779b9, initval) of
        (k, a, b, c) \<Rightarrow>
          (let c = c + word_of_nat (length key) + key_byte k 10 24 + key_byte k 9 16 + key_byte k 8 8;
               b = b + key_byte k 7 24 + key_byte k 6 16 + key_byte k 5 8 + key_byte k 4 0;
               a = a + key_byte k 3 24 + key_byte k 2 16 + key_byte k 1 8 + key_byte k 0 0
           in snd (snd (mix (a, b, c)))))"

section \<open>Well-formed tables\<close>

text \<open>Elements with the same key (up to the comparison) do not occur twice in a bucket.\<close>

definition apart :: "('k \<Rightarrow> 'k \<Rightarrow> bool) \<Rightarrow> ('k, 'v) hash_element \<Rightarrow> ('k, 'v) hash_element \<Rightarrow> bool" where
  "apart cf e1 e2 \<longleftrightarrow> \<not> cf (the (he_key e1)) (the (he_key e2))"

definition bucket_ok :: "('k, 'v) hash \<Rightarrow> nat \<Rightarrow> ('k, 'v) hash_bucket \<Rightarrow> bool" where
  "bucket_ok h i b \<longleftrightarrow> sorted_wrt (apart (compare_function h)) b \<and>
     (\<forall>he \<in> set b. he_key he \<noteq> None \<and> he_hash he = hash_value h (the (he_key he)) \<and>
        bucket_index h (he_hash he) = i)"

definition functions_ok :: "('k \<Rightarrow> u32 \<Rightarrow> u32) \<Rightarrow> ('k \<Rightarrow> 'k \<Rightarrow> bool) \<Rightarrow> bool" where
  "functions_ok hf cf \<longleftrightarrow> equivp cf \<and> (\<forall>x y iv. cf x y \<longrightarrow> hf x iv = hf y iv)"

definition hash_ok :: "('k, 'v) hash \<Rightarrow> bool" where
  "hash_ok h \<longleftrightarrow>
     (\<exists>k \<le> 30. n_buckets h = 2 ^ k) \<and> hash_mask h = n_buckets h - 1 \<and>
     length (buckets h) = nat (n_buckets h) \<and>
     n_elements h = (\<Sum>b \<leftarrow> buckets h. int (length b)) \<and>
     (\<forall>i < length (buckets h). bucket_ok h i (buckets h ! i)) \<and>
     functions_ok (hash_function h) (compare_function h)"

text \<open>The map that a table stands for.\<close>

definition table_map :: "('k, 'v) hash \<Rightarrow> 'k \<Rightarrow> 'v option" where
  "table_map h key = map_option he_value
     (find (he_matches h key (hash_value h key)) (buckets h ! bucket_index h (hash_value h key)))"

lemma bucket_index_bound:
  assumes "hash_ok h"
  shows "bucket_index h hv < length (buckets h)"
proof -
  obtain k where k: "k \<le> 30" "n_buckets h = 2 ^ k" "hash_mask h = n_buckets h - 1"
    "length (buckets h) = nat (n_buckets h)"
    using assms by (auto simp: hash_ok_def)
  have "word_of_int (hash_mask h) = (word_of_nat (2 ^ k - 1) :: u32)"
    using k by (simp add: of_nat_diff)
  then have "bucket_index h hv = unat hv mod 2 ^ k"
    using mask_index [of "2 ^ k" k hv] k(1) by (simp add: bucket_index_def)
  then show ?thesis using k by (simp add: nat_power_eq)
qed

lemma hash_init_ok:
  assumes "hash_init n iv hf cf = Some h" "n \<le> 2 ^ 30" "functions_ok hf cf"
  shows "hash_ok h" "table_map h = (\<lambda>_. None)" "compare_function h = cf"
proof -
  obtain m where m: "adjust_power_of_2 (nat n) = Some m" "0 < n"
    "h = \<lparr>n_buckets = sint (word_of_nat m :: u32), n_elements = 0, hash_mask = sint (word_of_nat m :: u32) - 1,
          hash_iv = iv, hash_function = hf, compare_function = cf,
          buckets = replicate (nat (sint (word_of_nat m :: u32))) []\<rparr>"
    using assms(1) by (auto simp: hash_init_def Let_def bind_eq_Some_conv split: if_splits)
  obtain k where k: "m = 2 ^ k" using adjust_power_of_2_Some(2) [OF m(1)] by blast
  have "m < 2 ^ 31" using adjust_power_of_2_Some(3) [OF m(1)] assms(2) m(2) by auto
  then have k30: "k \<le> 30" using k power_less_imp_less_exp [of "2 :: nat" k 31] by simp
  have "int m < 2 ^ 31" using \<open>m < 2 ^ 31\<close> by simp
  then have s: "sint (word_of_nat m :: u32) = int m"
    by (simp add: sint_uint unsigned_of_nat take_bit_nat_eq_self signed_take_bit_int_eq_self of_nat_take_bit take_bit_int_eq_self)
  have z: "(\<Sum>b \<leftarrow> replicate j ([] :: ('a, 'b) hash_bucket). int (length b)) = 0" for j
    by (induction j) auto
  show ok: "hash_ok h"
  proof -
    have h: "n_buckets h = int m" "hash_mask h = int m - 1" "buckets h = replicate m []" "n_elements h = 0"
      "hash_function h = hf" "compare_function h = cf"
      unfolding m(3) s by simp_all
    have "\<exists>k \<le> 30. n_buckets h = 2 ^ k" using h(1) k k30 by (intro exI [of _ k]) simp
    then show ?thesis using h z assms(3) by (simp add: hash_ok_def bucket_ok_def)
  qed
  have "buckets h ! bucket_index h hv = []" for hv
    using bucket_index_bound [OF ok, of hv] m(3) by simp
  then show "table_map h = (\<lambda>_. None)" by (simp add: table_map_def fun_eq_iff)
  show "compare_function h = cf" by (simp add: m(3))
qed

lemma bucket_find_None: "bucket_find P b = None \<longleftrightarrow> (\<forall>he \<in> set b. \<not> P he)"
  by (induction b) auto

lemma bucket_find_Some:
  "bucket_find P b = Some (he, b') \<Longrightarrow>
   \<exists>xs ys. b = xs @ he # ys \<and> b' = xs @ ys \<and> P he \<and> (\<forall>x \<in> set xs. \<not> P x)"
proof (induction b arbitrary: b')
  case (Cons x b)
  show ?case
  proof (cases "P x")
    case True
    then show ?thesis using Cons.prems by (intro exI [of _ "[]"] exI [of _ b]) auto
  next
    case False
    then obtain b1 where "bucket_find P b = Some (he, b1)" "b' = x # b1" using Cons.prems by auto
    with Cons.IH [of b1] obtain xs ys where "b = xs @ he # ys" "b1 = xs @ ys" "P he" "\<forall>x \<in> set xs. \<not> P x"
      by blast
    then show ?thesis using False \<open>b' = x # b1\<close> by (intro exI [of _ "x # xs"] exI [of _ ys]) auto
  qed
qed simp

lemma find_bucket_find: "find P b = map_option fst (bucket_find P b)"
proof (induction b)
  case (Cons x b)
  then show ?case by (cases "bucket_find P b") auto
qed simp


text \<open>Within a bucket at most one element matches a key, so only the set of elements matters.\<close>

definition bucket_map :: "('k, 'v) hash \<Rightarrow> ('k, 'v) hash_bucket \<Rightarrow> 'k \<Rightarrow> 'v option" where
  "bucket_map h b key = map_option he_value (find (he_matches h key (hash_value h key)) b)"

lemma he_matches_ok:
  assumes "bucket_ok h i b" "functions_ok (hash_function h) (compare_function h)" "he \<in> set b"
  shows "he_matches h key (hash_value h key) he \<longleftrightarrow> compare_function h key (the (he_key he))"
  using assms by (auto simp: he_matches_def bucket_ok_def functions_ok_def hash_value_def)

lemma bucket_map_Some:
  assumes "bucket_ok h i b" "functions_ok (hash_function h) (compare_function h)"
  shows "bucket_map h b key = Some v \<longleftrightarrow>
    (\<exists>he \<in> set b. compare_function h key (the (he_key he)) \<and> he_value he = v)"
  using assms(1)
proof (induction b)
  case (Cons x b)
  have eq: "equivp (compare_function h)" using assms(2) by (simp add: functions_ok_def)
  have b: "bucket_ok h i b" and x: "\<forall>y \<in> set b. apart (compare_function h) x y"
    using Cons.prems by (auto simp: bucket_ok_def)
  note m = he_matches_ok [OF Cons.prems assms(2), of x key]
  show ?case
  proof (cases "compare_function h key (the (he_key x))")
    case True
    then have "\<not> compare_function h key (the (he_key y))" if "y \<in> set b" for y
      using x that eq unfolding apart_def by (meson equivp_symp equivp_transp)
    then show ?thesis using True m by (auto simp: bucket_map_def)
  next
    case False
    then show ?thesis using m Cons.IH [OF b] by (auto simp: bucket_map_def)
  qed
qed (simp add: bucket_map_def)

lemma bucket_map_cong:
  assumes "bucket_ok h i b" "bucket_ok h i b'" "functions_ok (hash_function h) (compare_function h)" "set b = set b'"
  shows "bucket_map h b = bucket_map h b'"
proof
  fix key
  have "bucket_map h b key = Some v \<longleftrightarrow> bucket_map h b' key = Some v" for v
    by (simp add: bucket_map_Some [OF assms(1,3)] bucket_map_Some [OF assms(2,3)] assms(4))
  then show "bucket_map h b key = bucket_map h b' key"
    by (metis not_Some_eq)
qed

text \<open>Exchanging a bucket for another well-formed one.\<close>

lemma sum_list_update_int:
  "i < length xs \<Longrightarrow> (\<Sum>x \<leftarrow> xs[i := b]. f x) = (\<Sum>x \<leftarrow> xs. f x) - f (xs ! i) + (f b :: int)"
  by (induction xs arbitrary: i) (auto split: nat.splits)

definition with_bucket :: "('k, 'v) hash \<Rightarrow> nat \<Rightarrow> ('k, 'v) hash_bucket \<Rightarrow> ('k, 'v) hash" where
  "with_bucket h i b = (set_bucket h i b)\<lparr>n_elements := n_elements h + int (length b) - int (length (buckets h ! i))\<rparr>"

lemma with_bucket_fields [simp]:
  "compare_function (with_bucket h i b) = compare_function h"
  "hash_function (with_bucket h i b) = hash_function h"
  "n_buckets (with_bucket h i b) = n_buckets h"
  "hash_mask (with_bucket h i b) = hash_mask h"
  "hash_iv (with_bucket h i b) = hash_iv h"
  "buckets (with_bucket h i b) = (buckets h)[i := b]"
  "hash_value (with_bucket h i b) = hash_value h"
  "bucket_index (with_bucket h i b) = bucket_index h"
  by (auto simp: with_bucket_def set_bucket_def hash_value_def bucket_index_def)

lemma with_bucket_functions [simp]:
  "he_matches (with_bucket h i b) = he_matches h"
  "bucket_ok (with_bucket h i b) = bucket_ok h"
  "bucket_map (with_bucket h i b) = bucket_map h"
proof -
  show m: "he_matches (with_bucket h i b) = he_matches h"
    by (intro ext) (simp only: he_matches_def with_bucket_fields)
  show "bucket_ok (with_bucket h i b) = bucket_ok h" "bucket_map (with_bucket h i b) = bucket_map h"
    by (simp_all add: bucket_ok_def bucket_map_def fun_eq_iff m)
qed

lemma table_map_bucket: "table_map h key = bucket_map h (buckets h ! bucket_index h (hash_value h key)) key"
  by (simp add: table_map_def bucket_map_def)

lemma with_bucket_ok:
  assumes "hash_ok h" "i < length (buckets h)" "bucket_ok h i b"
  shows "hash_ok (with_bucket h i b)"
    "table_map (with_bucket h i b) key =
       (if bucket_index h (hash_value h key) = i then bucket_map h b key else table_map h key)"
proof -
  have "n_elements (with_bucket h i b) = (\<Sum>b \<leftarrow> buckets (with_bucket h i b). int (length b))"
    using assms(1,2) by (simp add: sum_list_update_int hash_ok_def) (simp add: with_bucket_def)
  then show "hash_ok (with_bucket h i b)"
    using assms by (auto simp: hash_ok_def nth_list_update)
  show "table_map (with_bucket h i b) key =
       (if bucket_index h (hash_value h key) = i then bucket_map h b key else table_map h key)"
    using assms(2) by (auto simp: table_map_bucket)
qed

section \<open>The operations refine a map\<close>

abbreviation home :: "('k, 'v) hash \<Rightarrow> 'k \<Rightarrow> nat" where
  "home h key \<equiv> bucket_index h (hash_value h key)"

lemma hash_ok_bucket:
  assumes "hash_ok h"
  shows "home h key < length (buckets h)" "bucket_ok h (home h key) (buckets h ! home h key)"
    "functions_ok (hash_function h) (compare_function h)"
  using assms bucket_index_bound [OF assms] by (auto simp: hash_ok_def)

text \<open>Equal keys live in the same bucket.\<close>

lemma same_home:
  "hash_ok h \<Longrightarrow> compare_function h k k' \<Longrightarrow> hash_value h k = hash_value h k'"
  by (auto simp: hash_ok_def functions_ok_def hash_value_def)

text \<open>The three rearrangements of a bucket around the element that a search finds.\<close>

lemma found_bucket:
  assumes "hash_ok h" "bucket_find (he_matches h key (hash_value h key)) (buckets h ! home h key) = Some (he, b)"
  shows "compare_function h key (the (he_key he))" "table_map h key = Some (he_value he)"
    "bucket_ok h (home h key) (he # b)" "bucket_ok h (home h key) b"
    "bucket_ok h (home h key) (he\<lparr>he_value := v\<rparr> # b)"
    "set (he # b) = set (buckets h ! home h key)" "length (buckets h ! home h key) = Suc (length b)"
proof -
  note hb = hash_ok_bucket(1,2) [OF assms(1), of key] hash_ok_bucket(3) [OF assms(1)]
  from bucket_find_Some [OF assms(2)] obtain xs ys where b: "buckets h ! home h key = xs @ he # ys"
    "b = xs @ ys" "he_matches h key (hash_value h key) he" by blast
  have eq: "equivp (compare_function h)" using hb(3) by (simp add: functions_ok_def)
  show cmp: "compare_function h key (the (he_key he))"
    using he_matches_ok [OF hb(2,3), of he key] b by simp
  show "table_map h key = Some (he_value he)"
    using assms(2) by (simp add: table_map_bucket bucket_map_def find_bucket_find)
  have "apart (compare_function h) x y \<longleftrightarrow> apart (compare_function h) y x" for x y :: "('a, 'b) hash_element"
    using eq unfolding apart_def by (metis equivp_symp)
  then have ap: "\<forall>x \<in> set b. apart (compare_function h) he x" "sorted_wrt (apart (compare_function h)) b"
    using hb(2) by (auto simp: bucket_ok_def b sorted_wrt_append)
  have el: "\<forall>x \<in> set (he # b). he_key x \<noteq> None \<and> he_hash x = hash_value h (the (he_key x)) \<and>
      bucket_index h (he_hash x) = home h key"
  proof -
    have "set (he # b) = set (buckets h ! home h key)" by (auto simp: b)
    then show ?thesis using hb(2) unfolding bucket_ok_def by blast
  qed
  show "bucket_ok h (home h key) (he # b)" "bucket_ok h (home h key) b"
    using ap el by (auto simp: bucket_ok_def)
  show "bucket_ok h (home h key) (he\<lparr>he_value := v\<rparr> # b)"
    using ap el by (auto simp: bucket_ok_def apart_def)
  show "set (he # b) = set (buckets h ! home h key)" "length (buckets h ! home h key) = Suc (length b)"
    by (auto simp: b)
qed

lemma notfound_bucket:
  assumes "hash_ok h" "bucket_find (he_matches h key (hash_value h key)) (buckets h ! home h key) = None"
  shows "table_map h key = None"
    "bucket_ok h (home h key) (\<lparr>he_value = v, he_key = Some key, he_hash = hash_value h key\<rparr> # buckets h ! home h key)"
proof -
  note hb = hash_ok_bucket(1,2) [OF assms(1), of key] hash_ok_bucket(3) [OF assms(1)]
  show "table_map h key = None"
    using assms(2) by (simp add: table_map_bucket bucket_map_def find_bucket_find)
  have "\<not> compare_function h key (the (he_key x))" if "x \<in> set (buckets h ! home h key)" for x
    using assms(2) he_matches_ok [OF hb(2,3) that, of key] that by (simp add: bucket_find_None)
  then show "bucket_ok h (home h key)
      (\<lparr>he_value = v, he_key = Some key, he_hash = hash_value h key\<rparr> # buckets h ! home h key)"
    using hb(2) by (auto simp: bucket_ok_def apart_def)
qed

lemma bucket_map_Cons:
  assumes "bucket_ok h i (he # b)" "functions_ok (hash_function h) (compare_function h)"
  shows "bucket_map h (he # b) key =
    (if compare_function h key (the (he_key he)) then Some (he_value he) else bucket_map h b key)"
  using he_matches_ok [OF assms, of he key] by (simp add: bucket_map_def)

lemma compare_sym_trans:
  assumes "hash_ok h" "compare_function h key k1"
  shows "compare_function h k k1 \<longleftrightarrow> compare_function h k key"
  using assms unfolding hash_ok_def functions_ok_def by (meson equivp_symp equivp_transp)

lemma hash_lookup_ok:
  assumes "hash_ok h"
  shows "fst (hash_lookup h key) = table_map h key" "hash_ok (snd (hash_lookup h key))"
    "table_map (snd (hash_lookup h key)) = table_map h"
    "compare_function (snd (hash_lookup h key)) = compare_function h"
proof -
  note hb = hash_ok_bucket(1,2) [OF assms, of key] hash_ok_bucket(3) [OF assms]
  have "fst (hash_lookup h key) = table_map h key \<and> hash_ok (snd (hash_lookup h key)) \<and>
    table_map (snd (hash_lookup h key)) = table_map h \<and>
    compare_function (snd (hash_lookup h key)) = compare_function h"
  proof (cases "bucket_find (he_matches h key (hash_value h key)) (buckets h ! home h key)")
    case None
    then show ?thesis
      using assms notfound_bucket(1) [OF assms None] by (simp add: hash_lookup_def hash_lookup_fast_def Let_def)
  next
    case (Some r)
    then obtain he b where r: "bucket_find (he_matches h key (hash_value h key)) (buckets h ! home h key) = Some (he, b)"
      by (cases r) auto
    note f = found_bucket [OF assms r]
    let ?h = "with_bucket h (home h key) (he # b)"
    have h: "set_bucket h (home h key) (he # b) = ?h"
      using f(7) by (simp add: with_bucket_def set_bucket_def)
    note w = with_bucket_ok [OF assms hb(1) f(3)]
    have "table_map ?h = table_map h"
      using w(2) bucket_map_cong [OF f(3) hb(2,3) f(6)] by (auto simp: table_map_bucket fun_eq_iff)
    then show ?thesis
      using r h w(1) f(2) by (simp add: hash_lookup_def hash_lookup_fast_def Let_def)
  qed
  then show "fst (hash_lookup h key) = table_map h key" "hash_ok (snd (hash_lookup h key))"
    "table_map (snd (hash_lookup h key)) = table_map h"
    "compare_function (snd (hash_lookup h key)) = compare_function h" by auto
qed

lemma hash_add_ok:
  assumes "hash_ok h"
  shows "fst (hash_add h key v replace) = (table_map h key = None \<or> replace)"
    "hash_ok (snd (hash_add h key v replace))"
    "table_map (snd (hash_add h key v replace)) k =
       (if compare_function h k key \<and> (table_map h key = None \<or> replace) then Some v else table_map h k)"
    "compare_function (snd (hash_add h key v replace)) = compare_function h"
proof -
  note hb = hash_ok_bucket(1,2) [OF assms, of key] hash_ok_bucket(3) [OF assms]
  have "fst (hash_add h key v replace) = (table_map h key = None \<or> replace) \<and>
    hash_ok (snd (hash_add h key v replace)) \<and>
    table_map (snd (hash_add h key v replace)) k =
       (if compare_function h k key \<and> (table_map h key = None \<or> replace) then Some v else table_map h k) \<and>
    compare_function (snd (hash_add h key v replace)) = compare_function h"
  proof (cases "bucket_find (he_matches h key (hash_value h key)) (buckets h ! home h key)")
    case None
    let ?e = "\<lparr>he_value = v, he_key = Some key, he_hash = hash_value h key\<rparr>"
    let ?h = "with_bucket h (home h key) (?e # buckets h ! home h key)"
    note f = notfound_bucket [OF assms None]
    have h: "hash_add_fast h (home h key) key (hash_value h key) v = ?h"
      by (simp add: hash_add_fast_def with_bucket_def)
    note w = with_bucket_ok [OF assms hb(1) f(2) [of v]]
    have "table_map ?h k = (if compare_function h k key then Some v else table_map h k)"
      using w(2) [of k] bucket_map_Cons [OF f(2) [of v] hb(3), of k] same_home [OF assms, of k key]
      by (auto simp: table_map_bucket)
    then show ?thesis
      using None h w(1) f(1) by (simp add: hash_add_def hash_lookup_fast_def Let_def)
  next
    case (Some r)
    then obtain he b where r: "bucket_find (he_matches h key (hash_value h key)) (buckets h ! home h key) = Some (he, b)"
      by (cases r) auto
    note f = found_bucket [OF assms r]
    show ?thesis
    proof (cases replace)
      case False
      have "hash_add h key v replace = (False, snd (hash_lookup h key))"
        using r False by (simp add: hash_add_def hash_lookup_def hash_lookup_fast_def Let_def)
      then show ?thesis using hash_lookup_ok [OF assms, of key] f(2) False by simp
    next
      case True
      let ?h = "with_bucket h (home h key) (he\<lparr>he_value := v\<rparr> # b)"
      have h: "hash_add h key v replace = (True, ?h)"
        using r True f(7) hb(1)
        by (simp add: hash_add_def hash_lookup_fast_def Let_def set_bucket_def with_bucket_def)
      note w = with_bucket_ok [OF assms hb(1) f(5) [of v]]
      note c = compare_sym_trans [OF assms f(1)]
      have old: "bucket_map h (buckets h ! home h key) k =
          (if compare_function h k key then Some (he_value he) else bucket_map h b k)"
        using bucket_map_cong [OF hb(2) f(3) hb(3) f(6) [symmetric]] bucket_map_Cons [OF f(3) hb(3), of k] c [of k]
        by simp
      have "bucket_map h (he\<lparr>he_value := v\<rparr> # b) k = (if compare_function h k key then Some v else bucket_map h b k)"
        using bucket_map_Cons [OF f(5) [of v] hb(3), of k] c [of k] by simp
      then have "table_map ?h k = (if compare_function h k key then Some v else table_map h k)"
        using w(2) [of k] old same_home [OF assms, of k key] by (auto simp: table_map_bucket)
      then show ?thesis using h w(1) True by simp
    qed
  qed
  then show "fst (hash_add h key v replace) = (table_map h key = None \<or> replace)"
    "hash_ok (snd (hash_add h key v replace))"
    "table_map (snd (hash_add h key v replace)) k =
       (if compare_function h k key \<and> (table_map h key = None \<or> replace) then Some v else table_map h k)"
    "compare_function (snd (hash_add h key v replace)) = compare_function h" by auto
qed

lemma hash_remove_ok:
  assumes "hash_ok h"
  shows "fst (hash_remove h key) = (table_map h key \<noteq> None)" "hash_ok (snd (hash_remove h key))"
    "table_map (snd (hash_remove h key)) k = (if compare_function h k key then None else table_map h k)"
    "compare_function (snd (hash_remove h key)) = compare_function h"
proof -
  note hb = hash_ok_bucket(1,2) [OF assms, of key] hash_ok_bucket(3) [OF assms]
  have "fst (hash_remove h key) = (table_map h key \<noteq> None) \<and> hash_ok (snd (hash_remove h key)) \<and>
    table_map (snd (hash_remove h key)) k = (if compare_function h k key then None else table_map h k) \<and>
    compare_function (snd (hash_remove h key)) = compare_function h"
  proof (cases "bucket_find (he_matches h key (hash_value h key)) (buckets h ! home h key)")
    case None
    note f = notfound_bucket [OF assms None]
    have "table_map h k = None" if c: "compare_function h k key"
    proof (rule ccontr)
      assume "table_map h k \<noteq> None"
      then obtain v where "bucket_map h (buckets h ! home h key) k = Some v"
        using same_home [OF assms c] by (auto simp: table_map_bucket)
      then obtain he where he: "he \<in> set (buckets h ! home h key)" "compare_function h k (the (he_key he))"
        using bucket_map_Some [OF hb(2,3)] by blast
      then have "compare_function h key (the (he_key he))"
        using c hb(3) unfolding functions_ok_def by (meson equivp_symp equivp_transp)
      then have "bucket_map h (buckets h ! home h key) key = Some (he_value he)"
        using bucket_map_Some [OF hb(2,3)] he(1) by blast
      then show False using f(1) by (simp add: table_map_bucket)
    qed
    then show ?thesis
      using None f(1) assms by (simp add: hash_remove_def hash_remove_fast_def Let_def)
  next
    case (Some r)
    then obtain he b where r: "bucket_find (he_matches h key (hash_value h key)) (buckets h ! home h key) = Some (he, b)"
      by (cases r) auto
    note f = found_bucket [OF assms r]
    let ?h = "with_bucket h (home h key) b"
    have h: "hash_remove h key = (True, ?h)"
      using r f(7) by (simp add: hash_remove_def hash_remove_fast_def Let_def with_bucket_def)
    note w = with_bucket_ok [OF assms hb(1) f(4)] and c = compare_sym_trans [OF assms f(1)]
    have old: "bucket_map h (buckets h ! home h key) k =
        (if compare_function h k key then Some (he_value he) else bucket_map h b k)"
      using bucket_map_cong [OF hb(2) f(3) hb(3) f(6) [symmetric]] bucket_map_Cons [OF f(3) hb(3), of k] c [of k]
      by simp
    have "bucket_map h b k = None" if "compare_function h k key"
    proof -
      have "\<not> compare_function h k (the (he_key x))" if "x \<in> set b" for x
        using f(3) \<open>compare_function h k key\<close> c [of k] \<open>x \<in> set b\<close> hb(3)
        unfolding bucket_ok_def apart_def functions_ok_def sorted_wrt.simps
        by (meson equivp_symp equivp_transp)
      then show ?thesis using bucket_map_Some [OF f(4) hb(3), of k] by (metis not_Some_eq)
    qed
    then have "table_map ?h k = (if compare_function h k key then None else table_map h k)"
      using w(2) [of k] old same_home [OF assms, of k key] by (auto simp: table_map_bucket)
    then show ?thesis using h w(1) f(2) by simp
  qed
  then show "fst (hash_remove h key) = (table_map h key \<noteq> None)" "hash_ok (snd (hash_remove h key))"
    "table_map (snd (hash_remove h key)) k = (if compare_function h k key then None else table_map h k)"
    "compare_function (snd (hash_remove h key)) = compare_function h" by auto
qed

section \<open>Deletion while iterating\<close>

text \<open>
  The table when the buckets from \<open>s\<close> below \<open>j\<close> have been visited and unlocked, a bucket of which the
  first \<open>p\<close> elements have been visited, and the iterator over the range from \<open>s\<close> to \<open>e\<close> in both
  situations.
\<close>

definition sweep :: "('v \<Rightarrow> bool) \<Rightarrow> ('k, 'v) hash_bucket \<Rightarrow> ('k, 'v) hash_bucket" where
  "sweep P b = filter (\<lambda>he. \<not> P (he_value he)) b"

definition swept :: "('v \<Rightarrow> bool) \<Rightarrow> ('k, 'v) hash \<Rightarrow> nat \<Rightarrow> nat \<Rightarrow> ('k, 'v) hash" where
  "swept P h s j =
     (let bs = map (\<lambda>i. if s \<le> i \<and> i < j then sweep P (buckets h ! i) else buckets h ! i) [0..<length (buckets h)]
      in h\<lparr>buckets := bs, n_elements := (\<Sum>b \<leftarrow> bs. int (length b))\<rparr>)"

definition marked :: "('v \<Rightarrow> bool) \<Rightarrow> nat \<Rightarrow> ('k, 'v) hash_bucket \<Rightarrow> ('k, 'v) hash_bucket" where
  "marked P p b = map (\<lambda>he. if P (he_value he) then he\<lparr>he_key := None\<rparr> else he) (take p b) @ drop p b"

definition at_clean :: "nat \<Rightarrow> nat \<Rightarrow> nat \<Rightarrow> hash_iterator" where
  "at_clean s e j = \<lparr>it_index = int j - 1, it_bucket = None, it_elem = None, it_last = None, it_marked = False,
     it_start = int s, it_end = int e\<rparr>"

definition at_pos :: "('v \<Rightarrow> bool) \<Rightarrow> ('k, 'v) hash \<Rightarrow> nat \<Rightarrow> nat \<Rightarrow> nat \<Rightarrow> nat \<Rightarrow> hash_iterator" where
  "at_pos P h s e i p = \<lparr>it_index = int i, it_bucket = Some i,
     it_elem = (if p < length (buckets h ! i) then Some p else None), it_last = Some (p - 1),
     it_marked = list_ex (\<lambda>he. P (he_value he)) (take p (buckets h ! i)),
     it_start = int s, it_end = int e\<rparr>"

definition in_bucket :: "('v \<Rightarrow> bool) \<Rightarrow> ('k, 'v) hash \<Rightarrow> nat \<Rightarrow> nat \<Rightarrow> nat \<Rightarrow> ('k, 'v) hash" where
  "in_bucket P h s i p = set_bucket (swept P h s i) i (marked P p (buckets h ! i))"

definition keyed :: "('k, 'v) hash \<Rightarrow> bool" where
  "keyed h \<longleftrightarrow> (\<forall>b \<in> set (buckets h). \<forall>he \<in> set b. he_key he \<noteq> None)"

text \<open>
  The values in the order of the visits, and the state after them: \<open>None\<close> where the body fails or does
  not delete exactly the values of \<open>P\<close>.
\<close>

definition iter_values :: "('k, 'v) hash \<Rightarrow> nat \<Rightarrow> nat \<Rightarrow> 'v list" where
  "iter_values h j e = concat (map (\<lambda>i. map he_value (buckets h ! i)) [j..<e])"

fun visits :: "('v \<Rightarrow> 's \<Rightarrow> (bool \<times> 's) option) \<Rightarrow> ('v \<Rightarrow> bool) \<Rightarrow> 'v list \<Rightarrow> 's \<Rightarrow> 's option" where
  "visits f P [] s = Some s"
| "visits f P (v # vs) s =
     (case f v s of None \<Rightarrow> None | Some (d, s) \<Rightarrow> if d = P v then visits f P vs s else None)"

lemma visits_append: "visits f P (vs @ ws) s = (case visits f P vs s of None \<Rightarrow> None | Some s \<Rightarrow> visits f P ws s)"
  by (induction vs arbitrary: s) (auto split: option.splits)

lemma length_marked [simp]: "length (marked P p b) = length b"
  by (simp add: marked_def)

lemma swept_bucket [simp]: "i < length (buckets h) \<Longrightarrow> i \<ge> j \<Longrightarrow> buckets (swept P h s j) ! i = buckets h ! i"
  by (simp add: swept_def Let_def)

lemma length_swept [simp]: "length (buckets (swept P h s j)) = length (buckets h)"
  by (simp add: swept_def Let_def)

lemma in_bucket_nth [simp]:
  "i < length (buckets h) \<Longrightarrow> buckets (in_bucket P h s i p) ! i = marked P p (buckets h ! i)"
  by (simp add: in_bucket_def set_bucket_def)

lemma marked_nth: "p < length b \<Longrightarrow> marked P p b ! p = b ! p"
  by (simp add: marked_def nth_append)

lemma marked_0 [simp]: "marked P 0 b = b"
  by (simp add: marked_def)

lemma marked_Suc:
  assumes "p < length b"
  shows "marked P (Suc p) b = (if P (he_value (b ! p)) then (marked P p b)[p := (b ! p)\<lparr>he_key := None\<rparr>] else marked P p b)"
  using assms
  by (auto simp: marked_def take_Suc_conv_app_nth list_update_append Cons_nth_drop_Suc [symmetric])

lemma marked_length: "p \<ge> length b \<Longrightarrow> marked P p b = map (\<lambda>he. if P (he_value he) then he\<lparr>he_key := None\<rparr> else he) b"
  by (simp add: marked_def)

lemma sweep_marked:
  "\<forall>he \<in> set b. he_key he \<noteq> None \<Longrightarrow>
   filter (\<lambda>he. he_key he \<noteq> None) (map (\<lambda>he. if P (he_value he) then he\<lparr>he_key := None\<rparr> else he) b) = sweep P b"
  by (induction b) (auto simp: sweep_def)

lemma swept_Suc:
  assumes "s \<le> i" "i < length (buckets h)"
  shows "swept P h s (Suc i) =
    (set_bucket (swept P h s i) i (sweep P (buckets h ! i)))
      \<lparr>n_elements := n_elements (swept P h s i) - int (length (buckets h ! i)) + int (length (sweep P (buckets h ! i)))\<rparr>"
proof -
  let ?bs = "\<lambda>j. map (\<lambda>i. if s \<le> i \<and> i < j then sweep P (buckets h ! i) else buckets h ! i) [0..<length (buckets h)]"
  have bs: "?bs (Suc i) = (?bs i)[i := sweep P (buckets h ! i)]"
    by (rule nth_equalityI) (use assms in \<open>auto simp: nth_list_update\<close>)
  have "?bs i ! i = buckets h ! i" using assms by simp
  then have "(\<Sum>b \<leftarrow> (?bs i)[i := sweep P (buckets h ! i)]. int (length b)) =
      (\<Sum>b \<leftarrow> ?bs i. int (length b)) - int (length (buckets h ! i)) + int (length (sweep P (buckets h ! i)))"
    using assms sum_list_update_int [of i "?bs i"] by simp
  then show ?thesis by (simp only: swept_def Let_def bs set_bucket_def) simp
qed

text \<open>Unlocking a bucket that has been visited to its end.\<close>

lemma unlock_visited:
  assumes "s \<le> i" "i < length (buckets h)" "keyed h" "p = length (buckets h ! i)"
  shows "hash_iterator_unlock (in_bucket P h s i p) ((at_pos P h s e i p)\<lparr>it_index := k\<rparr>) =
    (swept P h s (Suc i), (at_clean s e (Suc i))\<lparr>it_index := k\<rparr>)"
proof -
  let ?b = "buckets h ! i"
  have nn: "\<forall>he \<in> set ?b. he_key he \<noteq> None" using assms(2,3) by (auto simp: keyed_def)
  have m: "marked P p ?b = map (\<lambda>he. if P (he_value he) then he\<lparr>he_key := None\<rparr> else he) ?b"
    using assms(4) by (simp add: marked_length)
  show ?thesis
  proof (cases "list_ex (\<lambda>he. P (he_value he)) ?b")
    case True
    have "hash_remove_marked (in_bucket P h s i p) i = swept P h s (Suc i)"
      using assms(1,2) sweep_marked [OF nn, of P]
      by (simp add: hash_remove_marked_def m Let_def swept_Suc)
        (simp add: in_bucket_def set_bucket_def sweep_def of_nat_diff)
    then show ?thesis
      using True assms(4) by (simp add: hash_iterator_unlock_def at_pos_def at_clean_def)
  next
    case False
    then have "sweep P ?b = ?b" by (auto simp: sweep_def list_ex_iff filter_id_conv)
    moreover have "marked P p ?b = ?b" using False by (auto simp: m list_ex_iff intro: map_idI)
    ultimately have "in_bucket P h s i p = swept P h s (Suc i)"
      using assms(1,2) by (simp add: swept_Suc in_bucket_def set_bucket_def)
    then show ?thesis
      using False assms(4) by (simp add: hash_iterator_unlock_def at_pos_def at_clean_def)
  qed
qed

text \<open>One turn of the loop, in each of the situations.\<close>

lemma next_in_bucket:
  assumes "i < length (buckets h)" "p < length (buckets h ! i)"
  shows "hash_iterator_next (in_bucket P h s i p) (at_pos P h s e i p) =
    (Some (buckets h ! i ! p), in_bucket P h s i p,
     (at_pos P h s e i (Suc p))\<lparr>it_marked := list_ex (\<lambda>he. P (he_value he)) (take p (buckets h ! i))\<rparr>)"
  using assms
proof -
  have "it_elem (at_pos P h s e i p) = Some p" "it_bucket (at_pos P h s e i p) = Some i"
    using assms by (simp_all add: at_pos_def)
  moreover have "hash_iterator_advance (marked P p (buckets h ! i)) (at_pos P h s e i p) =
      (at_pos P h s e i (Suc p))\<lparr>it_marked := list_ex (\<lambda>he. P (he_value he)) (take p (buckets h ! i))\<rparr>"
    using assms by (simp add: hash_iterator_advance_def at_pos_def)
  ultimately show ?thesis using assms by (simp add: hash_iterator_next_def Let_def marked_nth)
qed

lemma visit:
  assumes "i < length (buckets h)" "p < length (buckets h ! i)"
  shows "(if P (he_value (buckets h ! i ! p))
      then hash_iterator_delete_element (in_bucket P h s i p)
        ((at_pos P h s e i (Suc p))\<lparr>it_marked := list_ex (\<lambda>he. P (he_value he)) (take p (buckets h ! i))\<rparr>)
      else Some (in_bucket P h s i p,
        (at_pos P h s e i (Suc p))\<lparr>it_marked := list_ex (\<lambda>he. P (he_value he)) (take p (buckets h ! i))\<rparr>)) =
    Some (in_bucket P h s i (Suc p), at_pos P h s e i (Suc p))"
proof -
  have i: "i < length (buckets (swept P h s i))" using assms(1) by simp
  have m: "list_ex (\<lambda>he. P (he_value he)) (take (Suc p) (buckets h ! i)) \<longleftrightarrow>
      list_ex (\<lambda>he. P (he_value he)) (take p (buckets h ! i)) \<or> P (he_value (buckets h ! i ! p))"
    using assms(2) by (auto simp: take_Suc_conv_app_nth)
  have "in_bucket P h s i (Suc p) = (if P (he_value (buckets h ! i ! p))
      then set_bucket (in_bucket P h s i p) i ((marked P p (buckets h ! i))[p := (buckets h ! i ! p)\<lparr>he_key := None\<rparr>])
      else in_bucket P h s i p)"
    using marked_Suc [OF assms(2), of P] by (simp add: in_bucket_def set_bucket_def)
  then show ?thesis
    using assms m by (simp add: hash_iterator_delete_element_def at_pos_def Let_def marked_nth)
qed

lemma iterate_step:
  assumes "hash_iterator_next h hi = (Some he, h1, hi1)" "f (he_value he) st = Some (P (he_value he), st')"
    "(if P (he_value he) then hash_iterator_delete_element h1 hi1 else Some (h1, hi1)) = Some (h2, hi2)"
  shows "hash_iterate f h hi st = hash_iterate f h2 hi2 st'"
  using assms by (subst hash_iterate.simps) (auto split: if_splits)

lemma loop_in_bucket:
  assumes "i < length (buckets h)" "p \<le> length (buckets h ! i)"
    "visits f P (map he_value (drop p (buckets h ! i))) st = Some st'"
  shows "hash_iterate f (in_bucket P h s i p) (at_pos P h s e i p) st =
    hash_iterate f (in_bucket P h s i (length (buckets h ! i))) (at_pos P h s e i (length (buckets h ! i))) st'"
  using assms(2,3)
proof (induction arbitrary: st rule: inc_induct)
  case (step p)
  then have p: "p < length (buckets h ! i)" by simp
  have "drop p (buckets h ! i) = buckets h ! i ! p # drop (Suc p) (buckets h ! i)" using p by (simp add: Cons_nth_drop_Suc)
  then obtain st1 where "f (he_value (buckets h ! i ! p)) st = Some (P (he_value (buckets h ! i ! p)), st1)"
    "visits f P (map he_value (drop (Suc p) (buckets h ! i))) st1 = Some st'"
    using step.prems by (auto split: option.splits if_splits)
  then show ?case
    using iterate_step [where P = P and f = f, OF next_in_bucket [where P = P, OF assms(1) p] _ visit [OF assms(1) p]] step.IH
    by simp
qed simp

lemma next_bucket_clean:
  assumes "j < e" "e \<le> length (buckets h)"
  shows "next_bucket (swept P h s j) (at_clean s e j) =
    (if buckets h ! j = [] then next_bucket (swept P h s j) (at_clean s e (Suc j))
     else (Some (hd (buckets h ! j)), swept P h s j, (at_pos P h s e j 1)\<lparr>it_marked := False\<rparr>))"
  using assms
  by (subst next_bucket.simps)
     (auto simp: hash_iterator_unlock_def at_clean_def hash_iterator_advance_def hash_iterator_lock_def
        at_pos_def Let_def)

lemma loop_visited:
  assumes "s \<le> i" "i < length (buckets h)" "keyed h" "buckets h ! i \<noteq> []" "p = length (buckets h ! i)"
  shows "hash_iterate f (in_bucket P h s i p) (at_pos P h s e i p) st =
    hash_iterate f (swept P h s (Suc i)) (at_clean s e (Suc i)) st"
proof -
  have e: "it_elem (at_pos P h s e i p) = None" "it_elem (at_clean s e (Suc i)) = None"
    using assms(5) by (auto simp: at_pos_def at_clean_def)
  have idx: "it_index (at_pos P h s e i p) + 1 = int i + 1" "it_index (at_clean s e (Suc i)) + 1 = int i + 1"
    "it_end (at_pos P h s e i p) = int e" "it_end (at_clean s e (Suc i)) = int e"
    by (auto simp: at_pos_def at_clean_def)
  note u = unlock_visited [OF assms(1,2,3,5), where P = P and e = e]
  have cu: "hash_iterator_unlock (swept P h s (Suc i)) ((at_clean s e (Suc i))\<lparr>it_index := k\<rparr>) =
      (swept P h s (Suc i), (at_clean s e (Suc i))\<lparr>it_index := k\<rparr>)" for k
    by (simp add: hash_iterator_unlock_def at_clean_def)
  show ?thesis
  proof (cases "Suc i < e")
    case True
    then have "next_bucket (in_bucket P h s i p) (at_pos P h s e i p) = next_bucket (swept P h s (Suc i)) (at_clean s e (Suc i))"
      using u [of "int i + 1"] cu [of "int i + 1"] idx
      by (subst (1 2) next_bucket.simps) (simp add: Let_def)
    then show ?thesis
      by (subst (1 2) hash_iterate.simps) (simp add: hash_iterator_next_def e)
  next
    case False
    then have "next_bucket (in_bucket P h s i p) (at_pos P h s e i p) =
        (None, in_bucket P h s i p, (at_pos P h s e i p)\<lparr>it_index := int i + 1\<rparr>)"
      "next_bucket (swept P h s (Suc i)) (at_clean s e (Suc i)) =
        (None, swept P h s (Suc i), (at_clean s e (Suc i))\<lparr>it_index := int i + 1\<rparr>)"
      using idx by (subst next_bucket.simps, simp add: Let_def)+
    then show ?thesis
      using u [of "int i + 1"] cu [of "int i + 1"]
      by (subst (1 2) hash_iterate.simps) (simp add: hash_iterator_next_def e hash_iterator_free_def)
  qed
qed

lemma swept_empty:
  assumes "buckets h ! j = []"
  shows "swept P h s (Suc j) = swept P h s j"
proof -
  have "map (\<lambda>i. if s \<le> i \<and> i < Suc j then sweep P (buckets h ! i) else buckets h ! i) [0..<length (buckets h)] =
      map (\<lambda>i. if s \<le> i \<and> i < j then sweep P (buckets h ! i) else buckets h ! i) [0..<length (buckets h)]"
    using assms by (auto simp: less_Suc_eq sweep_def)
  then show ?thesis by (simp only: swept_def)
qed

lemma swept_same: "n_elements h = (\<Sum>b \<leftarrow> buckets h. int (length b)) \<Longrightarrow> swept P h s s = h"
proof -
  assume n: "n_elements h = (\<Sum>b \<leftarrow> buckets h. int (length b))"
  have "map (\<lambda>i. if s \<le> i \<and> i < s then sweep P (buckets h ! i) else buckets h ! i) [0..<length (buckets h)] = buckets h"
    by (rule nth_equalityI) auto
  then show ?thesis unfolding swept_def Let_def using n by simp
qed

text \<open>
  The loop visits every element of the range once, in order, although elements are deleted meanwhile,
  and leaves the table without the deleted ones.
\<close>

lemma loop_clean:
  assumes "keyed h" "s \<le> j" "j \<le> e" "e \<le> length (buckets h)" "visits f P (iter_values h j e) st = Some st'"
  shows "hash_iterate f (swept P h s j) (at_clean s e j) st = Some (swept P h s e, st')"
  using assms(3,2,5)
proof (induction arbitrary: st rule: inc_induct)
  case base
  have "next_bucket (swept P h s e) (at_clean s e e) = (None, swept P h s e, (at_clean s e e)\<lparr>it_index := int e\<rparr>)"
    by (subst next_bucket.simps) (simp add: at_clean_def)
  then show ?case using base
    by (subst hash_iterate.simps)
       (simp add: hash_iterator_next_def hash_iterator_free_def hash_iterator_unlock_def at_clean_def iter_values_def)
next
  case (step j)
  have e: "it_elem (at_clean s e k) = None" for k by (simp add: at_clean_def)
  have j: "j < length (buckets h)" using step assms(4) by simp
  have "iter_values h j e = map he_value (buckets h ! j) @ iter_values h (Suc j) e"
    using step(2) by (simp add: iter_values_def upt_conv_Cons)
  then obtain st1 where v: "visits f P (map he_value (buckets h ! j)) st = Some st1"
    "visits f P (iter_values h (Suc j) e) st1 = Some st'"
    using step.prems(2) by (auto simp: visits_append split: option.splits)
  show ?case
  proof (cases "buckets h ! j = []")
    case True
    have "hash_iterate f (swept P h s j) (at_clean s e j) st = hash_iterate f (swept P h s j) (at_clean s e (Suc j)) st"
      by (subst (1 2) hash_iterate.simps) (simp add: hash_iterator_next_def e next_bucket_clean [OF step(2) assms(4)] True)
    then show ?thesis using step.IH [of st1] step.prems(1) v swept_empty [OF True, of P s] True by simp
  next
    case False
    then have len: "0 < length (buckets h ! j)" by simp
    have sw: "in_bucket P h s j 0 = swept P h s j"
    proof -
      have "(buckets (swept P h s j))[j := buckets h ! j] = buckets (swept P h s j)"
        using j by (metis list_update_id order_refl swept_bucket)
      then show ?thesis by (simp add: in_bucket_def set_bucket_def)
    qed
    have m: "map he_value (buckets h ! j) = he_value (buckets h ! j ! 0) # map he_value (drop (Suc 0) (buckets h ! j))"
      using len by (metis Cons_nth_drop_Suc drop0 list.simps(9))
    obtain st0 where v0: "f (he_value (buckets h ! j ! 0)) st = Some (P (he_value (buckets h ! j ! 0)), st0)"
      "visits f P (map he_value (drop (Suc 0) (buckets h ! j))) st0 = Some st1"
      using v(1) [unfolded m] by (auto split: option.splits if_splits)
    have "hash_iterator_next (swept P h s j) (at_clean s e j) =
        (Some (buckets h ! j ! 0), in_bucket P h s j 0, (at_pos P h s e j (Suc 0))\<lparr>it_marked :=
           list_ex (\<lambda>he. P (he_value he)) (take 0 (buckets h ! j))\<rparr>)"
      using False by (simp add: hash_iterator_next_def e next_bucket_clean [OF step(2) assms(4)] hd_conv_nth sw)
    from iterate_step [where P = P and f = f, OF this v0(1) visit [where P = P, OF j len]]
    have "hash_iterate f (swept P h s j) (at_clean s e j) st =
        hash_iterate f (in_bucket P h s j (Suc 0)) (at_pos P h s e j (Suc 0)) st0" .
    also have "\<dots> = hash_iterate f (in_bucket P h s j (length (buckets h ! j))) (at_pos P h s e j (length (buckets h ! j))) st1"
      by (rule loop_in_bucket [OF j Suc_leI [OF len] v0(2)])
    also have "\<dots> = hash_iterate f (swept P h s (Suc j)) (at_clean s e (Suc j)) st1"
      by (rule loop_visited [OF step.prems(1) j assms(1) False refl])
    finally show ?thesis using step.IH [OF _ v(2)] step.prems(1) by simp
  qed
qed

lemma keyed_ok: "hash_ok h \<Longrightarrow> keyed h"
  by (fastforce simp: hash_ok_def keyed_def bucket_ok_def in_set_conv_nth)

lemma swept_ok:
  assumes "hash_ok h"
  shows "hash_ok (swept P h s e)"
    "table_map (swept P h s e) key = (if s \<le> home h key \<and> home h key < e
      then case table_map h key of None \<Rightarrow> None | Some v \<Rightarrow> if P v then None else Some v
      else table_map h key)"
proof -
  let ?h = "swept P h s e"
  have f: "compare_function ?h = compare_function h" "hash_function ?h = hash_function h" "hash_iv ?h = hash_iv h"
    "hash_mask ?h = hash_mask h" "n_buckets ?h = n_buckets h" "n_elements ?h = (\<Sum>b \<leftarrow> buckets ?h. int (length b))"
    by (simp_all add: swept_def Let_def)
  have bs: "buckets ?h ! i = (if s \<le> i \<and> i < e then sweep P (buckets h ! i) else buckets h ! i)"
    if "i < length (buckets h)" for i using that by (simp add: swept_def Let_def)
  have g: "hash_value ?h = hash_value h" "bucket_index ?h = bucket_index h"
    by (intro ext, simp add: hash_value_def bucket_index_def f)+
  have g2: "bucket_ok ?h = bucket_ok h" "he_matches ?h = he_matches h"
    by (intro ext, simp only: bucket_ok_def he_matches_def f g)+
  then have g3: "bucket_map ?h = bucket_map h" by (intro ext) (simp add: bucket_map_def g)
  have ok: "bucket_ok h i (sweep P b)" if "bucket_ok h i b" for i b
    using that by (auto simp: bucket_ok_def sweep_def sorted_wrt_filter)
  show "hash_ok ?h"
    using assms ok f(1-5) g2 f(6) bs unfolding hash_ok_def length_swept by simp
  note hb = hash_ok_bucket(1,2) [OF assms, of key] hash_ok_bucket(3) [OF assms]
  have t: "table_map ?h key = bucket_map h (buckets ?h ! home h key) key"
    "table_map h key = bucket_map h (buckets h ! home h key) key"
    by (simp_all add: table_map_bucket g g3)
  have m: "bucket_map h (sweep P (buckets h ! home h key)) key = Some v \<longleftrightarrow> table_map h key = Some v \<and> \<not> P v" for v
    unfolding t(2) bucket_map_Some [OF hb(2,3)] bucket_map_Some [OF ok [OF hb(2)] hb(3)]
    by (auto simp: sweep_def)
  have "bucket_map h (sweep P (buckets h ! home h key)) key =
      (case table_map h key of None \<Rightarrow> None | Some v \<Rightarrow> if P v then None else Some v)"
  proof (cases "bucket_map h (sweep P (buckets h ! home h key)) key")
    case None
    then have "table_map h key = None \<or> (\<exists>v. table_map h key = Some v \<and> P v)" using m by fastforce
    then show ?thesis using None by auto
  next
    case (Some v)
    then show ?thesis using m [of v] by simp
  qed
  then show "table_map (swept P h s e) key = (if s \<le> home h key \<and> home h key < e
      then case table_map h key of None \<Rightarrow> None | Some v \<Rightarrow> if P v then None else Some v
      else table_map h key)" using t bs [OF hb(1)] by simp
qed

lemma visits_pure: "visits (\<lambda>w s. Some (P w, s)) P vs st = Some st"
  by (induction vs) auto

text \<open>
  C25. \<^verbatim>\<open>hash_remove_by_value\<close> ends, fails no assertion, keeps the table well formed, and removes the
  bindings with the given value and no others, although it deletes while it iterates.
\<close>
theorem hash_remove_by_value_correct:
  assumes "hash_ok h"
  shows "\<exists>h'. hash_remove_by_value h v = Some h' \<and> hash_ok h' \<and>
    (\<forall>key. table_map h' key = (if table_map h key = Some v then None else table_map h key))"
proof -
  note k = keyed_ok [OF assms]
  let ?n = "length (buckets h)"
  have n: "hash_iterator_init h = Some (at_clean 0 ?n 0)"
    using assms by (auto simp: hash_iterator_init_def hash_iterator_init_range_def at_clean_def hash_ok_def)
  have "swept (\<lambda>w. w = v) h 0 0 = h"
    using assms by (intro swept_same) (simp add: hash_ok_def)
  then have "hash_iterate (\<lambda>w s. Some (w = v, s)) h (at_clean 0 ?n 0) () = Some (swept (\<lambda>w. w = v) h 0 ?n, ())"
    using loop_clean [OF k _ _ _ visits_pure, of 0 0 ?n "\<lambda>w. w = v" "()"] by simp
  then have "hash_remove_by_value h v = Some (swept (\<lambda>w. w = v) h 0 ?n)" by (simp add: hash_remove_by_value_def n)
  then show ?thesis
    using swept_ok [OF assms, of "\<lambda>w. w = v" 0 ?n] hash_ok_bucket(1) [OF assms] by (auto split: option.splits)
qed

section \<open>The hash function mixes reversibly\<close>

lemma mix_steps_inj: "inj (mix_a n)" "inj (mix_b n)" "inj (mix_c n)"
proof -
  have x: "x XOR z = y XOR z \<longleftrightarrow> x = y" for x y z :: u32
    by (metis xor.assoc xor.right_neutral xor_self_eq)
  show "inj (mix_a n)" "inj (mix_b n)" "inj (mix_c n)"
    by (auto simp: inj_on_def mix_a_def mix_b_def mix_c_def x)
qed

text \<open>
  The comment on \<^verbatim>\<open>mix\<close> says that it mixes three 32-bit values reversibly: different states stay
  different, so no information about the key is lost between the blocks.
\<close>
lemma hash_mix_reversible: "bij mix"
proof -
  have "inj mix"
    unfolding mix_def inj_on_def by (auto dest!: injD [OF mix_steps_inj(1)] injD [OF mix_steps_inj(2)] injD [OF mix_steps_inj(3)])
  then show ?thesis
    using finite_UNIV_inj_surj [of mix] by (simp add: bij_def)
qed

section \<open>The table as a keyed store\<close>

interpretation table: keyed_store hash_lookup hash_add hash_remove table_map compare_function hash_ok
proof
  fix s :: "('a, 'b) hash" and k r s'
  assume "hash_ok s" "hash_lookup s k = (r, s')"
  then show "r = table_map s k \<and> hash_ok s' \<and> table_map s' = table_map s \<and>
      compare_function s' = compare_function s"
    using hash_lookup_ok [of s k] by simp
next
  fix s :: "('a, 'b) hash" and k v replace b s'
  assume a: "hash_ok s" "hash_add s k v replace = (b, s')"
  then show "b = (table_map s k = None \<or> replace) \<and> hash_ok s' \<and> compare_function s' = compare_function s \<and>
      table_map s' = (if table_map s k = None \<or> replace
        then (\<lambda>k'. if compare_function s k' k then Some v else table_map s k') else table_map s)"
    using hash_add_ok(1,2,4) [of s k v replace] hash_add_ok(3) [OF a(1), of k v replace]
    by (auto simp: fun_eq_iff)
next
  fix s :: "('a, 'b) hash" and k b s'
  assume a: "hash_ok s" "hash_remove s k = (b, s')"
  then show "b = (table_map s k \<noteq> None) \<and> hash_ok s' \<and> compare_function s' = compare_function s \<and>
      table_map s' = (\<lambda>k'. if compare_function s k' k then None else table_map s k')"
    using hash_remove_ok(1,2,4) [of s k] hash_remove_ok(3) [OF a(1), of k] by (auto simp: fun_eq_iff)
qed

text \<open>
  C24. The hash table is a map: from a fresh table, every sequence of lookups, insertions and removals
  returns what it returns on a map up to the comparison of keys, although lookups reorder the buckets.
\<close>
theorem hash_table_refines_map:
  assumes "hash_init n iv hf cf = Some h" "n \<le> 2 ^ 30" "functions_ok hf cf"
  shows "fst (store_run (store_step hash_lookup hash_add hash_remove) ops h) =
    fst (store_run (spec_step cf) ops (\<lambda>_. None))"
proof -
  obtain rs h' where r: "store_run (store_step hash_lookup hash_add hash_remove) ops h = (rs, h')" by fastforce
  show ?thesis
    using table.run_refines [OF hash_init_ok(1) [OF assms] r] hash_init_ok(2,3) [OF assms] r by simp
qed

lemma hash_func_ok: "functions_ok hash_func (=)"
  by (simp add: functions_ok_def identity_equivp)

theorem hash_table_refines_map_witness:
  "\<exists>h. hash_init 3 7 hash_func (=) = Some h \<and>
    fst (store_run (store_step hash_lookup hash_add hash_remove)
      [Add_op [1, 2] (10 :: nat) True, Add_op [1, 2] 11 False, Lookup_op [1, 2], Remove_op [1, 2], Lookup_op [1, 2]] h) =
    [Done True, Done False, Value (Some 10), Done True, Value None]"
proof -
  have "hash_init 3 7 hash_func (=) \<noteq> (None :: (u8 list, nat) hash option)"
    by (simp add: hash_init_def adjust_power_of_2_def adjust_loop.simps)
  then obtain h :: "(u8 list, nat) hash" where h: "hash_init 3 7 hash_func (=) = Some h" by blast
  have "(3 :: int) \<le> 2 ^ 30" by simp
  note r = hash_table_refines_map [OF h this hash_func_ok]
  show ?thesis by (intro exI [of _ h] conjI h, subst r) simp
qed

theorem hash_remove_by_value_correct_witness:
  "\<exists>h h'. hash_init 3 7 hash_func (=) = Some h \<and>
    hash_remove_by_value (snd (hash_add (snd (hash_add h [1] (5 :: nat) True)) [2] 6 True)) 5 = Some h' \<and>
    table_map h' [1] = None \<and> table_map h' [2] = Some 6"
proof -
  have "hash_init 3 7 hash_func (=) \<noteq> (None :: (u8 list, nat) hash option)"
    by (simp add: hash_init_def adjust_power_of_2_def adjust_loop.simps)
  then obtain h :: "(u8 list, nat) hash" where h: "hash_init 3 7 hash_func (=) = Some h" by blast
  have "(3 :: int) \<le> 2 ^ 30" by simp
  note i = hash_init_ok [OF h this hash_func_ok]
  let ?h1 = "snd (hash_add h [1] 5 True)"
  let ?h2 = "snd (hash_add ?h1 [2] 6 True)"
  have c: "compare_function ?h1 = (=)" using hash_add_ok(4) [OF i(1)] i(3) by simp
  note a = hash_add_ok(2) [OF i(1), where key = "[1]" and v = 5 and replace = True]
  have m: "table_map ?h2 [1] = Some 5" "table_map ?h2 [2] = Some 6"
    using hash_add_ok(3) [OF i(1), where key = "[1]" and v = 5 and replace = True] hash_add_ok(3) [OF a, where key = "[2]" and v = 6 and replace = True] i c by simp_all
  obtain h' where "hash_remove_by_value ?h2 5 = Some h'"
    "\<forall>key. table_map h' key = (if table_map ?h2 key = Some 5 then None else table_map ?h2 key)"
    using hash_remove_by_value_correct [of ?h2 5, OF hash_add_ok(2) [OF a]] by blast
  then show ?thesis using h m by (intro exI [of _ h] exI [of _ h']) simp
qed

end
