(* ===== verification/Inner_Packet.thy ===== *)
theory Inner_Packet
  imports Buffer
begin

text \<open>
  What OpenVPN does with the IP packets inside the tunnel: header recognition and Internet checksums
  (\<^verbatim>\<open>proto.h\<close>, \<^verbatim>\<open>proto.c\<close>), clamping of the TCP maximum segment size (\<^verbatim>\<open>mss.c\<close>) and client NAT
  (\<^verbatim>\<open>clinat.c\<close>). A packet is the list of its bytes, from \<^verbatim>\<open>BPTR\<close> on. Fields that the code reads without
  byte swapping are taken as a little-endian host reads them.
\<close>

section \<open>Fields of a packet\<close>

text \<open>Two bytes at an offset as the host reads them (\<open>raw16\<close>), and after \<^verbatim>\<open>ntohs\<close> (\<open>net16\<close>).\<close>

definition raw16 :: "u8 list \<Rightarrow> nat \<Rightarrow> u16" where
  "raw16 p i = ucast (p ! i) OR push_bit 8 (ucast (p ! (i + 1)))"

definition net16 :: "u8 list \<Rightarrow> nat \<Rightarrow> u16" where
  "net16 p i = push_bit 8 (ucast (p ! i)) OR ucast (p ! (i + 1))"

definition put_raw16 :: "u8 list \<Rightarrow> nat \<Rightarrow> u16 \<Rightarrow> u8 list" where
  "put_raw16 p i w = p[i := ucast w, i + 1 := ucast (drop_bit 8 w)]"

definition raw32 :: "u8 list \<Rightarrow> nat \<Rightarrow> u32" where
  "raw32 p i = ucast (raw16 p i) OR push_bit 16 (ucast (raw16 p (i + 2)))"

definition put_raw32 :: "u8 list \<Rightarrow> nat \<Rightarrow> u32 \<Rightarrow> u8 list" where
  "put_raw32 p i w = put_raw16 (put_raw16 p i (ucast w)) (i + 2) (ucast (drop_bit 16 w))"

definition swap16 :: "u16 \<Rightarrow> u16" where
  "swap16 w = push_bit 8 w OR drop_bit 8 w"

definition sizeof_iphdr :: nat where "sizeof_iphdr = 20"
definition sizeof_ipv6hdr :: nat where "sizeof_ipv6hdr = 40"
definition sizeof_tcphdr :: nat where "sizeof_tcphdr = 20"
definition sizeof_udphdr :: nat where "sizeof_udphdr = 8"
definition sizeof_ethhdr :: nat where "sizeof_ethhdr = 14"
definition sizeof_8021qhdr :: nat where "sizeof_8021qhdr = 18"

definition OPENVPN_IPH_GET_VER :: "u8 \<Rightarrow> int" where
  "OPENVPN_IPH_GET_VER v = uint (drop_bit 4 v AND 0x0F)"

definition OPENVPN_IPH_GET_LEN :: "u8 \<Rightarrow> nat" where
  "OPENVPN_IPH_GET_LEN v = 4 * unat (v AND 0x0F)"

definition OPENVPN_TCPH_GET_DOFF :: "u8 \<Rightarrow> nat" where
  "OPENVPN_TCPH_GET_DOFF d = unat (d AND 0xF0) div 4"

definition OPENVPN_IP_OFFMASK :: u16 where "OPENVPN_IP_OFFMASK = 0x1fff"
definition OPENVPN_IPPROTO_TCP :: u8 where "OPENVPN_IPPROTO_TCP = 6"
definition OPENVPN_IPPROTO_UDP :: u8 where "OPENVPN_IPPROTO_UDP = 17"
definition OPENVPN_TCPH_SYN_MASK :: u8 where "OPENVPN_TCPH_SYN_MASK = 2"
definition OPENVPN_TCPOPT_EOL :: u8 where "OPENVPN_TCPOPT_EOL = 0"
definition OPENVPN_TCPOPT_NOP :: u8 where "OPENVPN_TCPOPT_NOP = 1"
definition OPENVPN_TCPOPT_MAXSEG :: u8 where "OPENVPN_TCPOPT_MAXSEG = 2"
definition OPENVPN_TCPOLEN_MAXSEG :: nat where "OPENVPN_TCPOLEN_MAXSEG = 4"
definition OPENVPN_ETH_P_IPV4 :: u16 where "OPENVPN_ETH_P_IPV4 = 0x0800"
definition OPENVPN_ETH_P_IPV6 :: u16 where "OPENVPN_ETH_P_IPV6 = 0x86DD"
definition OPENVPN_ETH_P_8021Q :: u16 where "OPENVPN_ETH_P_8021Q = 0x8100"

section \<open>Recognising IP packets (proto.h, proto.c)\<close>

datatype dev_type = DEV_TYPE_TUN | DEV_TYPE_TAP | DEV_TYPE_OTHER

text \<open>The IP version, or -1, and the offset of the IP header where it is set.\<close>

definition get_tun_ip_ver :: "dev_type \<Rightarrow> u8 list \<Rightarrow> nat \<Rightarrow> int \<times> nat" where
  "get_tun_ip_ver tunnel_type p hdr_offset =
     (case tunnel_type of
        DEV_TYPE_TUN \<Rightarrow> (if length p \<ge> sizeof_iphdr then OPENVPN_IPH_GET_VER (p ! 0) else - 1, 0)
      | DEV_TYPE_TAP \<Rightarrow>
          (if length p \<ge> sizeof_ethhdr
           then if net16 p 12 = OPENVPN_ETH_P_IPV6 then 6
                else if net16 p 12 = OPENVPN_ETH_P_IPV4 then 4 else - 1
           else - 1, sizeof_ethhdr)
      | DEV_TYPE_OTHER \<Rightarrow> (- 1, hdr_offset))"

text \<open>The packet from its IP header on, if the result is true. Bytes read beyond the packet give \<open>None\<close>.\<close>

definition is_ipv_X :: "dev_type \<Rightarrow> u8 list \<Rightarrow> int \<Rightarrow> (bool \<times> u8 list) option" where
  "is_ipv_X tunnel_type p ip_ver =
     (let check = (\<lambda>offset. if length p \<le> offset then None
                    else if OPENVPN_IPH_GET_VER (p ! offset) = ip_ver then Some (True, drop offset p)
                    else Some (False, p))
      in case tunnel_type of
           DEV_TYPE_TUN \<Rightarrow> if length p < sizeof_iphdr then Some (False, p) else check 0
         | DEV_TYPE_TAP \<Rightarrow>
             if length p < sizeof_ethhdr + sizeof_iphdr then Some (False, p)
             else let (proto, offset) =
                    (if net16 p 12 = OPENVPN_ETH_P_8021Q then (net16 p 16, sizeof_8021qhdr)
                     else (net16 p 12, sizeof_ethhdr))
                  in if proto \<noteq> (if ip_ver = 6 then OPENVPN_ETH_P_IPV6 else OPENVPN_ETH_P_IPV4)
                     then Some (False, p) else check offset
         | DEV_TYPE_OTHER \<Rightarrow> Some (False, p))"

definition is_ipv4 :: "dev_type \<Rightarrow> u8 list \<Rightarrow> (bool \<times> u8 list) option" where
  "is_ipv4 tunnel_type p = is_ipv_X tunnel_type p 4"

definition is_ipv6 :: "dev_type \<Rightarrow> u8 list \<Rightarrow> (bool \<times> u8 list) option" where
  "is_ipv6 tunnel_type p = is_ipv_X tunnel_type p 6"

section \<open>Internet checksums (proto.h, proto.c)\<close>

text \<open>The macro that applies an accumulated change to a checksum.\<close>

definition ADJUST_CHECKSUM :: "int \<Rightarrow> u16 \<Rightarrow> u16" where
  "ADJUST_CHECKSUM acc cksum =
     (let a = acc + uint cksum
      in if a < 0
         then let a = - a; a = drop_bit 16 a + (a AND 0xffff); a = a + drop_bit 16 a
              in word_of_int (NOT a)
         else let a = drop_bit 16 a + (a AND 0xffff); a = a + drop_bit 16 a
              in word_of_int a)"

definition ADD_CHECKSUM_32 :: "int \<Rightarrow> u32 \<Rightarrow> int" where
  "ADD_CHECKSUM_32 acc w = acc + uint (w AND 0xffff) + uint (drop_bit 16 w)"

definition SUB_CHECKSUM_32 :: "int \<Rightarrow> u32 \<Rightarrow> int" where
  "SUB_CHECKSUM_32 acc w = acc - uint (w AND 0xffff) - uint (drop_bit 16 w)"

fun sum_words :: "u32 \<Rightarrow> u8 list \<Rightarrow> u32" where
  "sum_words acc [] = acc"
| "sum_words acc [a] = acc + push_bit 8 (ucast a)"
| "sum_words acc (a # b # p) = sum_words (acc + (push_bit 8 (ucast a) + ucast b)) p"

lemma unat_halves: "unat (s :: u32) = 65536 * unat (drop_bit 16 s) + unat (s AND 0xFFFF)"
  "unat (drop_bit 16 s) < 65536" "unat (s AND 0xFFFF) < 65536"
proof -
  have m: "(0xFFFF :: u32) = mask 16" by (simp add: mask_eq_exp_minus_1)
  have d: "unat (drop_bit 16 s) = unat s div 65536" using unsigned_drop_bit_eq [of 16 s, where ?'a = nat] unsigned_less [of s, where ?'a = nat]
    by (simp add: drop_bit_eq_div take_bit_eq_mod)
  have "s AND mask 16 = take_bit 16 s" by (simp add: take_bit_eq_mask)
  then have t: "unat (s AND 0xFFFF) = unat s mod 65536"
    unfolding m using unsigned_take_bit_eq [of 16 s, where ?'a = nat] by (simp add: take_bit_eq_mod)
  show "unat s = 65536 * unat (drop_bit 16 s) + unat (s AND 0xFFFF)" by (simp add: d t)
  show "unat (s AND 0xFFFF) < 65536" by (simp add: t)
  have "unat s < 65536 * 65536" using unsigned_less [of s, where ?'a = nat] by simp
  then show "unat (drop_bit 16 s) < 65536" unfolding d by (simp add: less_mult_imp_div_less)
qed

lemma unat_fold_step: "unat ((s AND 0xFFFF) + drop_bit 16 (s :: u32)) = unat (s AND 0xFFFF) + unat (drop_bit 16 s)"
  using unat_halves(2,3) [of s] by (simp add: unat_word_ariths)

function fold_carries :: "u32 \<Rightarrow> u32" where
  "fold_carries s = (if drop_bit 16 s \<noteq> 0 then fold_carries ((s AND 0xFFFF) + drop_bit 16 s) else s)"
  by pat_completeness auto

termination
proof (relation "measure unat")
  fix s :: u32 assume "drop_bit 16 s \<noteq> 0"
  then have "unat (drop_bit 16 s) \<noteq> 0" by (simp add: unat_eq_0)
  then show "((s AND 0xFFFF) + drop_bit 16 s, s) \<in> measure unat"
    unfolding in_measure unat_fold_step using unat_halves(1) [of s] by linarith
qed simp

declare fold_carries.simps [simp del]

definition ip_checksum :: "u8 list \<Rightarrow> u8 list \<Rightarrow> u8 list \<Rightarrow> u8 \<Rightarrow> u16" where
  "ip_checksum payload src_addr dest_addr proto =
     (let s = sum_words 0 payload;
          s = sum_words s src_addr;
          s = sum_words s dest_addr;
          s = s + ucast (word_of_nat (length payload) :: u16);
          s = s + ucast proto
      in NOT (ucast (fold_carries s)))"


section \<open>Maximum segment size (mss.c)\<close>

text \<open>
  The walk over the TCP options of \<^verbatim>\<open>mss_fixup_dowork\<close>: \<open>seg\<close> is the segment, \<open>opt\<close> the offset of the
  option and \<open>olen\<close> the number of option bytes left.
\<close>

function mss_option_loop :: "u8 list \<Rightarrow> nat \<Rightarrow> nat \<Rightarrow> u16 \<Rightarrow> u8 list" where
  "mss_option_loop seg opt olen maxmss =
     (if olen > 1 then
        if seg ! opt = OPENVPN_TCPOPT_EOL then seg
        else if seg ! opt = OPENVPN_TCPOPT_NOP then mss_option_loop seg (opt + 1) (olen - 1) maxmss
        else let optlen = unat (seg ! (opt + 1)) in
             if optlen = 0 \<or> optlen > olen then seg
             else if seg ! opt = OPENVPN_TCPOPT_MAXSEG \<and> optlen = OPENVPN_TCPOLEN_MAXSEG
             then let mssval = net16 seg (opt + 2) in
                  if mssval > maxmss
                  then let accumulate = uint (swap16 mssval) - uint (swap16 maxmss);
                           seg = seg[opt + 2 := ucast (drop_bit 8 maxmss), opt + 3 := ucast maxmss];
                           seg = put_raw16 seg 16 (ADJUST_CHECKSUM accumulate (raw16 seg 16))
                       in mss_option_loop seg (opt + optlen) (olen - optlen) maxmss
                  else mss_option_loop seg (opt + optlen) (olen - optlen) maxmss
             else mss_option_loop seg (opt + optlen) (olen - optlen) maxmss
      else seg)"
  by pat_completeness auto

termination
  by (relation "measure (\<lambda>(seg, opt, olen, maxmss). olen)") auto

declare mss_option_loop.simps [simp del]

definition mss_fixup_dowork :: "u8 list \<Rightarrow> u16 \<Rightarrow> u8 list" where
  "mss_fixup_dowork seg maxmss =
     (if length seg < sizeof_tcphdr then seg
      else let hlen = OPENVPN_TCPH_GET_DOFF (seg ! 12) in
           if hlen \<le> sizeof_tcphdr \<or> hlen > length seg then seg
           else mss_option_loop seg sizeof_tcphdr (hlen - sizeof_tcphdr) maxmss)"

definition mss_fixup_ipv4 :: "u8 list \<Rightarrow> int \<Rightarrow> u8 list" where
  "mss_fixup_ipv4 p maxmss =
     (if length p < sizeof_iphdr then p
      else let hlen = OPENVPN_IPH_GET_LEN (p ! 0) in
           if p ! 9 = OPENVPN_IPPROTO_TCP \<and> unat (net16 p 2) = length p
              \<and> net16 p 6 AND OPENVPN_IP_OFFMASK = 0 \<and> hlen \<le> length p
              \<and> length p - hlen \<ge> sizeof_tcphdr
           then if (p ! (hlen + 13)) AND OPENVPN_TCPH_SYN_MASK \<noteq> 0
                then take hlen p @ mss_fixup_dowork (drop hlen p) (word_of_int maxmss) else p
           else p)"

definition mss_fixup_ipv6 :: "u8 list \<Rightarrow> int \<Rightarrow> u8 list" where
  "mss_fixup_ipv6 p maxmss =
     (if length p < sizeof_ipv6hdr then p
      else if length p \<noteq> unat (net16 p 4) + 40 then p
      else if p ! 6 \<noteq> OPENVPN_IPPROTO_TCP then p
      else if length p - 40 \<ge> sizeof_tcphdr
      then if (p ! (40 + 13)) AND OPENVPN_TCPH_SYN_MASK \<noteq> 0
           then take 40 p @ mss_fixup_dowork (drop 40 p) (word_of_int (uint (word_of_int maxmss :: u16) - 20)) else p
      else p)"

section \<open>Client NAT (clinat.c)\<close>

definition MAX_CLIENT_NAT :: nat where "MAX_CLIENT_NAT = 64"

datatype cn_type = CN_SNAT | CN_DNAT
datatype cn_direction = CN_OUTGOING | CN_INCOMING

record client_nat_entry =
  cn_type :: cn_type
  cn_network :: u32
  cn_netmask :: u32
  cn_foreign_network :: u32

definition cn_add_entry :: "client_nat_entry list \<Rightarrow> client_nat_entry \<Rightarrow> bool \<times> client_nat_entry list" where
  "cn_add_entry dest e = (if length dest \<ge> MAX_CLIENT_NAT then (False, dest) else (True, dest @ [e]))"

fun copy_client_nat_option_list :: "client_nat_entry list \<Rightarrow> client_nat_entry list \<Rightarrow> client_nat_entry list" where
  "copy_client_nat_option_list dest [] = dest"
| "copy_client_nat_option_list dest (e # src) =
     (let (ok, dest) = cn_add_entry dest e in if ok then copy_client_nat_option_list dest src else dest)"

text \<open>\<open>getaddr\<close> is the address parser of \<^verbatim>\<open>socket.c\<close>; its results are in network byte order.\<close>

definition add_client_nat_to_option_list ::
  "(string \<Rightarrow> u32 option) \<Rightarrow> client_nat_entry list \<Rightarrow> string \<Rightarrow> string \<Rightarrow> string \<Rightarrow> string \<Rightarrow> client_nat_entry list" where
  "add_client_nat_to_option_list getaddr dest type network netmask foreign_network =
     (case (if type = ''snat'' then Some CN_SNAT else if type = ''dnat'' then Some CN_DNAT else None) of
        None \<Rightarrow> dest
      | Some t \<Rightarrow>
         (case getaddr network of None \<Rightarrow> dest | Some nw \<Rightarrow>
         (case getaddr netmask of None \<Rightarrow> dest | Some nm \<Rightarrow>
         (case getaddr foreign_network of None \<Rightarrow> dest | Some fn \<Rightarrow>
           snd (cn_add_entry dest
             \<lparr>cn_type = t, cn_network = nw, cn_netmask = nm, cn_foreign_network = fn\<rparr>)))))"

text \<open>
  One rule of the loop of \<^verbatim>\<open>client_nat_transform\<close>; the state is the packet, the accumulated change and the
  two bits of \<^verbatim>\<open>alog\<close>: source and destination modified.
\<close>

definition nat_rule ::
  "cn_direction \<Rightarrow> client_nat_entry \<Rightarrow> u8 list \<times> int \<times> bool \<times> bool \<Rightarrow> u8 list \<times> int \<times> bool \<times> bool" where
  "nat_rule direction e = (\<lambda>(p, acc, src_done, dst_done).
     (let dst = ((cn_type e = CN_DNAT) \<noteq> (direction = CN_INCOMING));
          off = (if dst then 16 else 12);
          addr = raw32 p off;
          (frm, to) = (if direction = CN_INCOMING then (cn_foreign_network e, cn_network e)
                       else (cn_network e, cn_foreign_network e))
      in if (addr AND cn_netmask e) = frm \<and> \<not> (if dst then dst_done else src_done)
         then let acc = ADD_CHECKSUM_32 acc addr;
                  addr = (addr AND NOT (cn_netmask e)) OR to;
                  acc = SUB_CHECKSUM_32 acc addr
              in (put_raw32 p off addr, acc, if dst then src_done else True, if dst then True else dst_done)
         else (p, acc, src_done, dst_done)))"

definition adjust_field :: "u8 list \<Rightarrow> nat \<Rightarrow> int \<Rightarrow> u8 list" where
  "adjust_field p i acc = put_raw16 p i (ADJUST_CHECKSUM acc (raw16 p i))"

definition client_nat_transform :: "client_nat_entry list \<Rightarrow> u8 list \<Rightarrow> cn_direction \<Rightarrow> u8 list" where
  "client_nat_transform list p direction =
     (let (p, acc, src_done, dst_done) = fold (nat_rule direction) list (p, 0, False, False)
      in if src_done \<or> dst_done
         then let p = adjust_field p 10 acc
              in if p ! 9 = OPENVPN_IPPROTO_TCP
                 then if length p \<ge> sizeof_iphdr + sizeof_tcphdr then adjust_field p 36 acc else p
                 else if p ! 9 = OPENVPN_IPPROTO_UDP
                 then if length p \<ge> sizeof_iphdr + sizeof_udphdr then adjust_field p 26 acc else p
                 else p
         else p)"

section \<open>Words and bytes\<close>

lemma u8_less: "uint (b :: u8) < 256"
  using unsigned_less [of b, where ?'a = int] by simp

lemma u16_less: "uint (w :: u16) < 65536"
  using unsigned_less [of w, where ?'a = int] by simp

lemma uint_push8: "uint (push_bit 8 (ucast (a :: u8)) :: u16) = 256 * uint a"
  "uint (push_bit 8 (ucast (a :: u8)) :: u32) = 256 * uint a"
  using u8_less [of a]
  by (simp_all only: unsigned_push_bit_eq) (simp_all add: push_bit_eq_mult take_bit_eq_mod unsigned_ucast_eq)

lemma uint_ucast_u8: "uint (ucast (a :: u8) :: u16) = uint a" "uint (ucast (a :: u8) :: u32) = uint a"
  using u8_less [of a] by (simp_all add: unsigned_ucast_eq take_bit_eq_mod)

lemma uint_or_push8:
  "uint (push_bit 8 (ucast (a :: u8)) OR ucast (b :: u8) :: u16) = 256 * uint a + uint b"
proof -
  have d: "push_bit 8 (ucast a) AND (ucast b :: u16) = 0"
    by (rule bit_word_eqI) (auto simp: bit_simps dest: bit_imp_le_length)
  have "push_bit 8 (ucast a) OR (ucast b :: u16) = push_bit 8 (ucast a) + ucast b"
    using d by (simp add: disjunctive_add_eq_or)
  then have "uint (push_bit 8 (ucast a) OR (ucast b :: u16)) = (256 * uint a + uint b) mod 65536"
    by (simp only: uint_word_ariths uint_push8 uint_ucast_u8) simp
  then show ?thesis using u8_less [of a] u8_less [of b] by simp
qed

lemma uint_net16: "uint (net16 p i) = 256 * uint (p ! i) + uint (p ! (i + 1))"
  unfolding net16_def by (rule uint_or_push8)

lemma uint_raw16: "uint (raw16 p i) = uint (p ! i) + 256 * uint (p ! (i + 1))"
  unfolding raw16_def or.commute [of "ucast (p ! i)"] uint_or_push8 by simp

lemma uint_low_byte: "uint (ucast (w :: u16) :: u8) = uint w mod 256"
  by (simp add: unsigned_ucast_eq take_bit_eq_mod)

lemma uint_high_byte: "uint (ucast (drop_bit 8 (w :: u16)) :: u8) = uint w div 256"
proof -
  have "uint (drop_bit 8 w) = uint w div 256"
    using unsigned_drop_bit_eq [of 8 w, where ?'a = int] u16_less [of w]
    by (simp add: drop_bit_eq_div take_bit_int_eq_self)
  moreover have "0 \<le> uint w div 256" "uint w div 256 < 256" using u16_less [of w] by (simp_all add: pos_imp_zdiv_nonneg_iff)
  ultimately show ?thesis by (simp only: unsigned_ucast_eq) (simp add: take_bit_eq_mod)
qed

lemma uint_swap16: "uint (swap16 w) = 256 * (uint w mod 256) + uint w div 256"
proof -
  have "swap16 w = push_bit 8 (ucast (ucast w :: u8)) OR ucast (ucast (drop_bit 8 w) :: u8)"
    unfolding swap16_def by (rule bit_word_eqI) (auto simp: bit_simps dest: bit_imp_le_length)
  then show ?thesis unfolding uint_low_byte [symmetric] uint_high_byte [symmetric] by (simp only: uint_or_push8)
qed

text \<open>Swapping the bytes of a word multiplies it by 256, modulo 65535.\<close>

lemma swap_cong: "(65535 :: int) dvd 256 * (lo + 256 * hi) - (256 * lo + hi)"
proof -
  have "256 * (lo + 256 * hi) - (256 * lo + hi) = 65535 * hi" by simp
  then show ?thesis by simp
qed

lemma swap16_cong: "65535 dvd 256 * uint (swap16 w) - uint w"
proof -
  define hi lo where "hi = uint w div 256" and "lo = uint w mod 256"
  have "uint w = 256 * hi + lo" "uint (swap16 w) = 256 * lo + hi" by (simp_all add: hi_def lo_def uint_swap16)
  then have "256 * uint (swap16 w) - uint w = 65535 * lo" by simp
  then show ?thesis by simp
qed

section \<open>Sums of words\<close>

fun bsum :: "u8 list \<Rightarrow> int" where
  "bsum [] = 0"
| "bsum [a] = 256 * uint a"
| "bsum (a # b # p) = 256 * uint a + uint b + bsum p"

lemma bsum_nonneg: "0 \<le> bsum p"
  by (induction p rule: bsum.induct) auto

lemma bsum_bound: "bsum p \<le> 65535 * ((int (length p) + 1) div 2)"
proof (induction p rule: bsum.induct)
  case (2 a)
  then show ?case using u8_less [of a] by simp
next
  case (3 a b p)
  have "(int (length (a # b # p)) + 1) div 2 = 1 + (int (length p) + 1) div 2" by simp
  then show ?case using 3 u8_less [of a] u8_less [of b] by (simp add: algebra_simps)
qed simp

lemma bsum_update:
  assumes "even i" "i + 1 < length p"
  shows "bsum (p[i := a, i + 1 := b]) = bsum p - (256 * uint (p ! i) + uint (p ! (i + 1))) + 256 * uint a + uint b"
  using assms
proof (induction p arbitrary: i rule: bsum.induct)
  case (3 x y p)
  show ?case
  proof (cases i)
    case (Suc j)
    then obtain k where k: "i = Suc (Suc k)" using 3(2) by (cases j) auto
    then show ?thesis using 3(1) [of k] 3(2,3) by simp
  qed simp
qed auto

lemma bsum_append: "even (length p) \<Longrightarrow> bsum (p @ q) = bsum p + bsum q"
  by (induction p rule: bsum.induct) auto

lemma uint_sum_words:
  "uint acc + bsum p < 2 ^ 32 \<Longrightarrow> uint (sum_words acc p) = uint acc + bsum p"
proof (induction acc p rule: sum_words.induct)
  case (2 acc a)
  then show ?case using uint_ge_0 [of acc] uint_ge_0 [of a] by (simp add: uint_word_ariths uint_push8)
next
  case (3 acc a b p)
  have "uint (acc + (push_bit 8 (ucast a) + ucast b)) = uint acc + 256 * uint a + uint b"
    using 3(2) bsum_nonneg [of p] uint_ge_0 [of acc] u8_less [of a] u8_less [of b]
    by (simp add: uint_word_ariths uint_push8 uint_ucast_u8)
  then show ?case using 3 by simp
qed simp

lemma fold_carries_spec:
  "uint (fold_carries s) < 65536 \<and> 65535 dvd uint s - uint (fold_carries s) \<and> (uint (fold_carries s) = 0 \<longleftrightarrow> uint s = 0)"
proof (induction s rule: fold_carries.induct)
  case (1 s)
  have halves: "uint s = 65536 * uint (drop_bit 16 s) + uint (s AND 0xFFFF)"
    "uint ((s AND 0xFFFF) + drop_bit 16 s) = uint (s AND 0xFFFF) + uint (drop_bit 16 s)" "uint (s AND 0xFFFF) < 65536"
    unfolding of_nat_unat [where ?'a = int, symmetric] using unat_halves(1,3) [of s] unat_fold_step [of s] by linarith+
  show ?case
  proof (cases "drop_bit 16 s = 0")
    case True
    then have "fold_carries s = s" by (subst fold_carries.simps) simp
    then show ?thesis using halves True by simp
  next
    case False
    define t where "t = (s AND 0xFFFF) + drop_bit 16 s"
    have f: "fold_carries s = fold_carries t" using False by (subst fold_carries.simps) (simp add: t_def)
    have "uint s - uint t = 65535 * uint (drop_bit 16 s)" unfolding t_def halves(2) using halves(1) by simp
    then have st: "65535 dvd uint s - uint t" by simp
    have "uint t = 0 \<longleftrightarrow> uint s = 0"
      unfolding t_def halves(2) using halves(1) uint_ge_0 [of "drop_bit 16 s"] uint_ge_0 [of "s AND 0xFFFF"] by linarith
    then show ?thesis using 1 [OF False] st dvd_add [of 65535 "uint s - uint t" "uint t - uint (fold_carries t)"]
      unfolding f t_def [symmetric] by auto
  qed
qed

text \<open>The two foldings of a non-negative sum to 16 bits.\<close>

definition fold16 :: "int \<Rightarrow> int" where
  "fold16 a = (let b = drop_bit 16 a + (a AND 0xffff) in b + drop_bit 16 b)"

lemma fold16_spec:
  assumes "0 \<le> a" "a < 2147483648"
  shows "65535 dvd fold16 a mod 65536 - a"
proof -
  define h l where "h = a div 65536" and "l = a mod 65536"
  have a: "a = 65536 * h + l" "0 \<le> l" "l < 65536" by (simp_all add: h_def l_def)
  have h: "0 \<le> h" "h < 32768" using assms by (auto simp: h_def pos_imp_zdiv_nonneg_iff)
  have d: "drop_bit 16 x = x div 65536" for x :: int by (simp add: drop_bit_eq_div)
  have "a AND 0xffff = l"
    using take_bit_eq_mask [of 16 a] by (simp add: take_bit_eq_mod mask_eq_exp_minus_1 l_def)
  then have f: "fold16 a = h + l + (h + l) div 65536" unfolding fold16_def Let_def d h_def [symmetric] by simp
  consider "h + l < 65536" | "65536 \<le> h + l" by linarith
  then show ?thesis
  proof cases
    case 1
    then have "fold16 a = h + l" using f a(2) h(1) by (simp add: div_pos_pos_trivial)
    then have "fold16 a mod 65536 - a = 65535 * - h" using 1 a h(1) by simp
    then show ?thesis by (metis dvd_triv_left)
  next
    case 2
    have "(h + l) div 65536 = 1" using 2 a(3) h(2) by (intro int_div_pos_eq [where r = "h + l - 65536"]) auto
    then have "fold16 a = h + l + 1" using f by simp
    moreover have "(h + l + 1) mod 65536 = h + l + 1 - 65536"
      using 2 a(3) h(2) by (intro int_mod_pos_eq [where q = 1]) auto
    ultimately have "fold16 a mod 65536 - a = 65535 * - (h + 1)" using a(1) by simp
    then show ?thesis by (metis dvd_triv_left)
  qed
qed

lemma ADJUST_CHECKSUM_cong:
  assumes "\<bar>acc + uint c\<bar> < 2147483648"
  shows "65535 dvd uint (ADJUST_CHECKSUM acc c) - (acc + uint c)"
proof (cases "acc + uint c < 0")
  case True
  let ?a = "- (acc + uint c)"
  have "ADJUST_CHECKSUM acc c = word_of_int (NOT (fold16 ?a))"
    using True by (simp add: ADJUST_CHECKSUM_def fold16_def Let_def)
  then have "uint (ADJUST_CHECKSUM acc c) = NOT (fold16 ?a) mod 65536" by (simp add: unsigned_of_int take_bit_eq_mod)
  also have "\<dots> = 65535 - fold16 ?a mod 65536"
  proof -
    define q r where "q = fold16 ?a div 65536" and "r = fold16 ?a mod 65536"
    have r: "fold16 ?a = 65536 * q + r" "0 \<le> r" "r < 65536" by (simp_all add: q_def r_def)
    have "NOT (fold16 ?a) mod 65536 = 65535 - r"
      by (rule int_mod_pos_eq [where q = "- q - 1"]) (use r in \<open>simp_all add: not_int_def\<close>)
    then show ?thesis by (simp only: r_def)
  qed
  finally have eq: "uint (ADJUST_CHECKSUM acc c) - (acc + uint c) = 65535 - (fold16 ?a mod 65536 - ?a)" by simp
  moreover have "65535 dvd 65535 - (fold16 ?a mod 65536 - ?a)"
    by (rule dvd_diff [OF dvd_refl fold16_spec]) (use True assms in auto)
  ultimately show ?thesis by (simp only: eq)
next
  case False
  have "ADJUST_CHECKSUM acc c = word_of_int (fold16 (acc + uint c))"
    using False by (simp add: ADJUST_CHECKSUM_def fold16_def Let_def)
  then have "uint (ADJUST_CHECKSUM acc c) = fold16 (acc + uint c) mod 65536"
    by (simp add: unsigned_of_int take_bit_eq_mod)
  then show ?thesis using fold16_spec [of "acc + uint c"] False assms by simp
qed

text \<open>Writing an adjusted checksum changes the sum of the words by the accumulated change.\<close>

lemma length_put_raw16 [simp]: "length (put_raw16 p i w) = length p"
  by (simp add: put_raw16_def)

lemma bsum_adjust:
  assumes "even i" "i + 1 < length p" "\<bar>acc\<bar> < 1073741824"
  shows "65535 dvd bsum (put_raw16 p i (ADJUST_CHECKSUM acc (raw16 p i))) - (bsum p + 256 * acc)"
proof -
  define w where "w = ADJUST_CHECKSUM acc (raw16 p i)"
  have "\<bar>acc + uint (raw16 p i)\<bar> < 2147483648" using assms(3) u16_less [of "raw16 p i"] uint_ge_0 [of "raw16 p i"] by linarith
  from ADJUST_CHECKSUM_cong [OF this] obtain k where
    k: "uint w = acc + uint (p ! i) + 256 * uint (p ! (i + 1)) + 65535 * k"
    unfolding w_def [symmetric] uint_raw16 by (auto simp: dvd_def algebra_simps)
  define hi lo where "hi = uint w div 256" and "lo = uint w mod 256"
  have w: "uint w = 256 * hi + lo" by (simp add: hi_def lo_def)
  have "bsum (put_raw16 p i w) - (bsum p + 256 * acc) =
      256 * lo + hi - (256 * uint (p ! i) + uint (p ! (i + 1))) - 256 * acc"
    unfolding put_raw16_def bsum_update [OF assms(1,2)] uint_high_byte unfolding uint_low_byte by (simp add: hi_def lo_def)
  also have "\<dots> = 65535 * (uint (p ! (i + 1)) - hi + 256 * k)"
  proof -
    have acc: "acc = 256 * hi + lo - uint (p ! i) - 256 * uint (p ! (i + 1)) - 65535 * k" using k w by simp
    show ?thesis unfolding acc by (simp add: algebra_simps)
  qed
  finally show ?thesis unfolding w_def by simp
qed

section \<open>What a valid checksum is\<close>

definition total_sum :: "u8 list \<Rightarrow> u8 list \<Rightarrow> u8 list \<Rightarrow> u8 \<Rightarrow> int" where
  "total_sum payload src dst proto = bsum payload + bsum src + bsum dst + int (length payload) + uint proto"

text \<open>A packet verifies, that is the checksum over all of it is zero, iff its words sum up to a non-zero multiple of 65535.\<close>

lemma bsum_le:
  assumes "length p \<le> 2 * k"
  shows "bsum p \<le> 65535 * int k"
proof -
  have "(int (length p) + 1) div 2 \<le> int k" using assms by presburger
  then show ?thesis using bsum_bound [of p] by linarith
qed

lemma ip_checksum_zero_iff:
  assumes "length payload < 65536" "length src \<le> 16" "length dst \<le> 16"
  shows "ip_checksum payload src dst proto = 0 \<longleftrightarrow>
    65535 dvd total_sum payload src dst proto \<and> total_sum payload src dst proto \<noteq> 0"
proof -
  define s1 where "s1 = sum_words (sum_words (sum_words 0 payload) src) dst"
  define s where "s = s1 + ucast (word_of_nat (length payload) :: u16) + ucast proto"
  have b: "bsum payload \<le> 65535 * 32768" "bsum src \<le> 65535 * 8" "bsum dst \<le> 65535 * 8"
    using bsum_le [of payload 32768] bsum_le [of src 8] bsum_le [of dst 8] assms by simp_all
  note nn = bsum_nonneg [of payload] bsum_nonneg [of src] bsum_nonneg [of dst]
  have s1: "uint s1 = bsum payload + bsum src + bsum dst"
    unfolding s1_def using b nn by (simp add: uint_sum_words)
  have len: "uint (ucast (word_of_nat (length payload) :: u16) :: u32) = int (length payload)"
    using assms(1) by (simp add: unsigned_ucast_eq unsigned_of_nat take_bit_eq_mod)
  have s: "uint s = total_sum payload src dst proto"
    unfolding s_def uint_word_ariths len uint_ucast_u8 s1 total_sum_def
    using b nn u8_less [of proto] uint_ge_0 [of proto] assms(1) by simp
  define f where "f = fold_carries s"
  have f: "uint f < 65536" "65535 dvd uint s - uint f" "uint f = 0 \<longleftrightarrow> uint s = 0"
    using fold_carries_spec [of s] by (auto simp: f_def)
  have uf: "uint (ucast f :: u16) = uint f" using f(1) by (simp add: unsigned_ucast_eq take_bit_eq_mod)
  have "ip_checksum payload src dst proto = NOT (ucast f)"
    by (simp add: ip_checksum_def Let_def f_def s_def s1_def)
  moreover have "NOT (ucast f :: u16) = 0 \<longleftrightarrow> uint f = 65535"
  proof -
    have "NOT (ucast f :: u16) = 0 \<longleftrightarrow> (ucast f :: u16) = - 1" by (metis bit.compl_zero bit.double_compl)
    also have "\<dots> \<longleftrightarrow> uint (ucast f :: u16) = uint (- 1 :: u16)"
      by (rule word_eq_iff_unsigned)
    finally show ?thesis unfolding uf by (simp add: unsigned_minus_1_eq_mask mask_eq_exp_minus_1)
  qed
  moreover have "uint f = 65535 \<longleftrightarrow> 65535 dvd uint s \<and> uint s \<noteq> 0"
  proof
    assume f': "uint f = 65535"
    have "65535 dvd (uint s - 65535) + 65535" using f(2) unfolding f' by (rule dvd_add) simp
    moreover have "uint s \<noteq> 0" using f(3) f' by simp
    ultimately show "65535 dvd uint s \<and> uint s \<noteq> 0" by simp
  next
    assume s: "65535 dvd uint s \<and> uint s \<noteq> 0"
    then have "65535 dvd uint f" using f(2) by (metis dvd_diff_right_iff)
    then obtain k where k: "uint f = 65535 * k" by (auto simp: dvd_def)
    then have "k = 1" using f(1,3) s uint_ge_0 [of f] by auto
    then show "uint f = 65535" using k by simp
  qed
  ultimately show ?thesis unfolding s by simp
qed

section \<open>Clamping the segment size\<close>

text \<open>
  One option of the walk: its length and whether it is an MSS option; none if the walk ends. The offsets
  of the MSS options of a segment, in the order in which the walk meets them.
\<close>

definition option_step :: "u8 list \<Rightarrow> nat \<Rightarrow> nat \<Rightarrow> (nat \<times> bool) option" where
  "option_step seg opt olen =
     (if olen \<le> 1 \<or> seg ! opt = OPENVPN_TCPOPT_EOL then None
      else if seg ! opt = OPENVPN_TCPOPT_NOP then Some (1, False)
      else let l = unat (seg ! (opt + 1)) in
           if l = 0 \<or> l > olen then None
           else Some (l, seg ! opt = OPENVPN_TCPOPT_MAXSEG \<and> l = OPENVPN_TCPOLEN_MAXSEG))"

lemma option_step_Some:
  assumes "option_step seg opt olen = Some (l, b)"
  shows "0 < l" "l \<le> olen" "1 < olen" "b \<Longrightarrow> l = 4"
  using assms by (auto simp: option_step_def Let_def OPENVPN_TCPOLEN_MAXSEG_def split: if_splits)

function mss_offsets :: "u8 list \<Rightarrow> nat \<Rightarrow> nat \<Rightarrow> nat list" where
  "mss_offsets seg opt olen =
     (case option_step seg opt olen of
        None \<Rightarrow> []
      | Some (l, b) \<Rightarrow> (if b then [opt] else []) @ mss_offsets seg (opt + l) (olen - l))"
  by pat_completeness auto

termination
proof (relation "measure (\<lambda>(seg, opt, olen). olen)")
  fix seg opt olen lb l b assume "option_step seg opt olen = Some lb" "(l, b) = lb"
  then have "option_step seg opt olen = Some (l, b)" by simp
  from option_step_Some(1,3) [OF this]
  show "((seg, opt + l, olen - l), seg, opt, olen) \<in> measure (\<lambda>(seg, opt, olen). olen)" by simp
qed simp

declare mss_offsets.simps [simp del]

definition clamp :: "u16 \<Rightarrow> u8 list \<Rightarrow> nat \<Rightarrow> u8 list" where
  "clamp m seg k =
     (if net16 seg (k + 2) > m
      then let acc = uint (swap16 (net16 seg (k + 2))) - uint (swap16 m);
               seg = seg[k + 2 := ucast (drop_bit 8 m), k + 3 := ucast m]
           in put_raw16 seg 16 (ADJUST_CHECKSUM acc (raw16 seg 16))
      else seg)"

lemma length_clamp [simp]: "length (clamp m seg k) = length seg"
  by (simp add: clamp_def Let_def)

lemma clamp_other: "i \<noteq> 16 \<Longrightarrow> i \<noteq> 17 \<Longrightarrow> i \<noteq> k + 2 \<Longrightarrow> i \<noteq> k + 3 \<Longrightarrow> clamp m seg k ! i = seg ! i"
  by (simp add: clamp_def Let_def put_raw16_def)

lemma net16_bytes [simp]: "push_bit 8 (ucast (ucast (drop_bit 8 m) :: u8)) OR ucast (ucast (m :: u16) :: u8) = m"
  by (rule bit_word_eqI) (auto simp: bit_simps)

lemma clamp_value:
  assumes "20 \<le> k" "k + 4 \<le> length seg"
  shows "net16 (clamp m seg k) (k + 2) = min m (net16 seg (k + 2))"
proof (cases "net16 seg (k + 2) > m")
  case True
  have i: "k + 2 + 1 = k + 3" by simp
  have "clamp m seg k ! (k + 2) = ucast (drop_bit 8 m)" "clamp m seg k ! (k + 3) = ucast m"
    using True assms by (simp_all add: clamp_def Let_def put_raw16_def)
  then have "net16 (clamp m seg k) (k + 2) = m" unfolding net16_def i by (simp only: net16_bytes)
  then show ?thesis using True by (simp only: min_absorb1 less_imp_le)
qed (simp add: clamp_def min_absorb2)

lemma clamp_sum:
  assumes "even k" "20 \<le> k" "k + 4 \<le> length seg"
  shows "65535 dvd bsum (clamp m seg k) - bsum seg"
proof (cases "net16 seg (k + 2) > m")
  case True
  let ?v = "net16 seg (k + 2)"
  define acc where "acc = uint (swap16 ?v) - uint (swap16 m)"
  define s1 where "s1 = seg[k + 2 := ucast (drop_bit 8 m), k + 2 + 1 := ucast m]"
  have c: "clamp m seg k = put_raw16 s1 16 (ADJUST_CHECKSUM acc (raw16 s1 16))"
    using True by (simp add: clamp_def Let_def s1_def acc_def numeral_3_eq_3)
  have m: "uint m = 256 * (uint m div 256) + uint m mod 256" by simp
  have "even (k + 2)" "k + 2 + 1 < length seg" using assms by auto
  from bsum_update [OF this, of "ucast (drop_bit 8 m)" "ucast m"]
  have s1: "bsum s1 = bsum seg - uint ?v + uint m"
    unfolding s1_def uint_net16 uint_high_byte unfolding uint_low_byte using m by linarith
  have "\<bar>acc\<bar> < 1073741824"
    using u16_less [of "swap16 ?v"] u16_less [of "swap16 m"] uint_ge_0 [of "swap16 ?v"] uint_ge_0 [of "swap16 m"]
    unfolding acc_def by linarith
  then have "65535 dvd bsum (clamp m seg k) - (bsum s1 + 256 * acc)"
    unfolding c using assms by (intro bsum_adjust) (auto simp: s1_def)
  moreover have "65535 dvd (256 * uint (swap16 ?v) - uint ?v) - (256 * uint (swap16 m) - uint m)"
    by (intro dvd_diff swap16_cong)
  ultimately have "65535 dvd (bsum (clamp m seg k) - (bsum s1 + 256 * acc)) +
      ((256 * uint (swap16 ?v) - uint ?v) - (256 * uint (swap16 m) - uint m))" by (rule dvd_add)
  also have "\<dots> = bsum (clamp m seg k) - bsum seg" unfolding s1 acc_def by simp
  finally show ?thesis .
qed (simp add: clamp_def)

lemma mss_option_loop_step:
  "mss_option_loop seg opt olen m =
     (case option_step seg opt olen of
        None \<Rightarrow> seg
      | Some (l, b) \<Rightarrow> mss_option_loop (if b then clamp m seg opt else seg) (opt + l) (olen - l) m)"
  by (subst mss_option_loop.simps)
    (auto simp: option_step_def clamp_def Let_def OPENVPN_TCPOLEN_MAXSEG_def split: if_splits)

lemma mss_offsets_cong:
  assumes "\<And>i. opt \<le> i \<Longrightarrow> i < opt + olen \<Longrightarrow> seg' ! i = seg ! i"
  shows "mss_offsets seg' opt olen = mss_offsets seg opt olen"
  using assms
proof (induction seg opt olen rule: mss_offsets.induct)
  case (1 seg opt olen)
  have st: "option_step seg' opt olen = option_step seg opt olen"
    using 1(2) [of opt] 1(2) [of "opt + 1"] by (cases "olen \<le> 1") (simp_all add: option_step_def Let_def)
  show ?case
  proof (cases "option_step seg opt olen")
    case (Some lb)
    obtain l b where lb: "lb = (l, b)" by (cases lb)
    have "mss_offsets seg' (opt + l) (olen - l) = mss_offsets seg (opt + l) (olen - l)"
      by (rule 1(1) [OF Some lb [symmetric]]) (use 1(2) in auto)
    then show ?thesis using Some lb st by (subst (1 2) mss_offsets.simps) simp
  qed (use st in \<open>simp add: mss_offsets.simps\<close>)
qed

lemma mss_offsets_range:
  "(\<forall>k \<in> set (mss_offsets seg opt olen). opt \<le> k \<and> k + 4 \<le> opt + olen) \<and>
   sorted_wrt (\<lambda>a b. a + 4 \<le> b) (mss_offsets seg opt olen)"
proof (induction seg opt olen rule: mss_offsets.induct)
  case (1 seg opt olen)
  show ?case
  proof (cases "option_step seg opt olen")
    case (Some lb)
    obtain l b where lb: "lb = (l, b)" by (cases lb)
    note l = option_step_Some [OF Some [unfolded lb]]
    have eq: "mss_offsets seg opt olen = (if b then [opt] else []) @ mss_offsets seg (opt + l) (olen - l)"
      using Some lb by (subst mss_offsets.simps) simp
    show ?thesis using 1 [OF Some lb [symmetric]] l unfolding eq by (force simp: sorted_wrt_append)
  qed (simp add: mss_offsets.simps)
qed

lemma mss_option_loop_foldl:
  assumes "20 \<le> opt" "opt + olen \<le> length seg"
  shows "mss_option_loop seg opt olen m = foldl (clamp m) seg (mss_offsets seg opt olen)"
  using assms
proof (induction "olen" arbitrary: seg opt rule: less_induct)
  case (less len)
  show ?case
  proof (cases "option_step seg opt len")
    case None
    then show ?thesis by (subst mss_option_loop_step, subst mss_offsets.simps) simp
  next
    case (Some lb)
    obtain l b where lb: "lb = (l, b)" by (cases lb)
    note l = option_step_Some [OF Some [unfolded lb]]
    define s where "s = (if b then clamp m seg opt else seg)"
    have "mss_option_loop seg opt len m = mss_option_loop s (opt + l) (len - l) m"
      using Some lb by (subst mss_option_loop_step) (simp add: s_def)
    also have "\<dots> = foldl (clamp m) s (mss_offsets s (opt + l) (len - l))"
      using less.prems l by (intro less.IH) (auto simp: s_def)
    also have "mss_offsets s (opt + l) (len - l) = mss_offsets seg (opt + l) (len - l)"
      by (rule mss_offsets_cong) (use l less.prems in \<open>auto simp: s_def clamp_other\<close>)
    also have "foldl (clamp m) s (mss_offsets seg (opt + l) (len - l)) = foldl (clamp m) seg (mss_offsets seg opt len)"
      using Some lb by (subst (2) mss_offsets.simps) (simp add: s_def)
    finally show ?thesis .
  qed
qed

lemma foldl_clamp:
  assumes "\<forall>k \<in> set os. 20 \<le> k \<and> k + 4 \<le> length seg" "sorted_wrt (\<lambda>a b. a + 4 \<le> b) os"
  shows "length (foldl (clamp m) seg os) = length seg"
    "\<forall>i. i \<noteq> 16 \<and> i \<noteq> 17 \<and> (\<forall>k \<in> set os. i \<noteq> k + 2 \<and> i \<noteq> k + 3) \<longrightarrow> foldl (clamp m) seg os ! i = seg ! i"
    "\<forall>k \<in> set os. net16 (foldl (clamp m) seg os) (k + 2) = min m (net16 seg (k + 2))"
    "(\<forall>k \<in> set os. even k) \<longrightarrow> 65535 dvd bsum (foldl (clamp m) seg os) - bsum seg"
proof -
  have "length (foldl (clamp m) seg os) = length seg \<and>
    (\<forall>i. i \<noteq> 16 \<and> i \<noteq> 17 \<and> (\<forall>k \<in> set os. i \<noteq> k + 2 \<and> i \<noteq> k + 3) \<longrightarrow> foldl (clamp m) seg os ! i = seg ! i) \<and>
    (\<forall>k \<in> set os. net16 (foldl (clamp m) seg os) (k + 2) = min m (net16 seg (k + 2))) \<and>
    ((\<forall>k \<in> set os. even k) \<longrightarrow> 65535 dvd bsum (foldl (clamp m) seg os) - bsum seg)"
    using assms
  proof (induction os arbitrary: seg)
    case (Cons k os)
    let ?s = "clamp m seg k" and ?f = "foldl (clamp m) (clamp m seg k) os"
    have k: "20 \<le> k" "k + 4 \<le> length seg" "\<forall>a \<in> set os. k + 4 \<le> a" using Cons.prems by auto
    have IH: "length ?f = length ?s"
      "\<forall>i. i \<noteq> 16 \<and> i \<noteq> 17 \<and> (\<forall>k \<in> set os. i \<noteq> k + 2 \<and> i \<noteq> k + 3) \<longrightarrow> ?f ! i = ?s ! i"
      "\<forall>k \<in> set os. net16 ?f (k + 2) = min m (net16 ?s (k + 2))"
      "(\<forall>k \<in> set os. even k) \<longrightarrow> 65535 dvd bsum ?f - bsum ?s"
      using Cons.IH [of ?s] Cons.prems by auto
    have "?f ! (k + 2) = ?s ! (k + 2)" "?f ! (k + 2 + 1) = ?s ! (k + 2 + 1)" by (rule IH(2) [rule_format]; use k in force)+
    then have v: "net16 ?f (k + 2) = min m (net16 seg (k + 2))"
      using clamp_value [OF k(1,2), of m] by (simp add: net16_def)
    have n: "net16 ?s (a + 2) = net16 seg (a + 2)" if "a \<in> set os" for a
      using k(1,3) that by (auto simp: net16_def clamp_other)
    have sum: "65535 dvd bsum ?f - bsum seg" if "even k" "\<forall>k \<in> set os. even k"
      using dvd_add [OF IH(4) [THEN mp, OF that(2)] clamp_sum [OF that(1) k(1,2), of m]] by simp
    show ?case using IH(1-3) v n sum by (auto simp: clamp_other)
  qed simp
  then show "length (foldl (clamp m) seg os) = length seg"
    "\<forall>i. i \<noteq> 16 \<and> i \<noteq> 17 \<and> (\<forall>k \<in> set os. i \<noteq> k + 2 \<and> i \<noteq> k + 3) \<longrightarrow> foldl (clamp m) seg os ! i = seg ! i"
    "\<forall>k \<in> set os. net16 (foldl (clamp m) seg os) (k + 2) = min m (net16 seg (k + 2))"
    "(\<forall>k \<in> set os. even k) \<longrightarrow> 65535 dvd bsum (foldl (clamp m) seg os) - bsum seg"
    by blast+
qed

definition tcp_mss_options :: "u8 list \<Rightarrow> nat list" where
  "tcp_mss_options seg =
     (let hlen = OPENVPN_TCPH_GET_DOFF (seg ! 12) in
      if length seg < sizeof_tcphdr \<or> hlen \<le> sizeof_tcphdr \<or> hlen > length seg then []
      else mss_offsets seg sizeof_tcphdr (hlen - sizeof_tcphdr))"

lemma mss_fixup_dowork_foldl: "mss_fixup_dowork seg m = foldl (clamp m) seg (tcp_mss_options seg)"
  by (auto simp: mss_fixup_dowork_def tcp_mss_options_def Let_def sizeof_tcphdr_def mss_option_loop_foldl)

lemma tcp_mss_options_range:
  "\<forall>k \<in> set (tcp_mss_options seg). 20 \<le> k \<and> k + 4 \<le> length seg"
  "sorted_wrt (\<lambda>a b. a + 4 \<le> b) (tcp_mss_options seg)"
proof -
  let ?l = "OPENVPN_TCPH_GET_DOFF (seg ! 12) - 20"
  note r = mss_offsets_range [of seg 20 ?l]
  show "\<forall>k \<in> set (tcp_mss_options seg). 20 \<le> k \<and> k + 4 \<le> length seg"
  proof
    fix k assume "k \<in> set (tcp_mss_options seg)"
    then have "k \<in> set (mss_offsets seg 20 ?l)" "20 + ?l \<le> length seg"
      by (auto simp: tcp_mss_options_def Let_def sizeof_tcphdr_def split: if_splits)
    then show "20 \<le> k \<and> k + 4 \<le> length seg" using r by auto
  qed
  show "sorted_wrt (\<lambda>a b. a + 4 \<le> b) (tcp_mss_options seg)"
    using r by (simp add: tcp_mss_options_def Let_def sizeof_tcphdr_def)
qed

lemmas dowork_spec = foldl_clamp [OF tcp_mss_options_range, folded mss_fixup_dowork_foldl]

text \<open>
  \<^verbatim>\<open>mss_fixup_dowork\<close> replaces the value of every MSS option of the segment by the minimum of it and
  the limit, and changes no other byte than these values and the checksum.
\<close>

lemma mss_fixup_clamps:
  "map (\<lambda>k. net16 (mss_fixup_dowork seg m) (k + 2)) (tcp_mss_options seg)
     = map (\<lambda>k. min m (net16 seg (k + 2))) (tcp_mss_options seg) \<and>
   length (mss_fixup_dowork seg m) = length seg \<and>
   {i. mss_fixup_dowork seg m ! i \<noteq> seg ! i} \<subseteq> {16, 17} \<union> (\<Union>k \<in> set (tcp_mss_options seg). {k + 2, k + 3})"
proof (intro conjI subsetI)
  fix i assume i: "i \<in> {i. mss_fixup_dowork seg m ! i \<noteq> seg ! i}"
  show "i \<in> {16, 17} \<union> (\<Union>k \<in> set (tcp_mss_options seg). {k + 2, k + 3})"
  proof (rule ccontr)
    assume "\<not> ?thesis"
    then have "mss_fixup_dowork seg m ! i = seg ! i" by (intro dowork_spec(2) [rule_format]) auto
    then show False using i by simp
  qed
qed (use dowork_spec(1,3) in auto)

lemma total_sum_pos:
  assumes "seg \<noteq> []"
  shows "0 < total_sum seg src dst proto"
proof -
  have "0 < int (length seg)" using assms by simp
  then show ?thesis
    using bsum_nonneg [of seg] bsum_nonneg [of src] bsum_nonneg [of dst] uint_ge_0 [of proto]
    unfolding total_sum_def by linarith
qed

lemma mss_fixup_dowork_checksum:
  assumes "ip_checksum seg src dst proto = 0" "length seg < 65536" "length src \<le> 16" "length dst \<le> 16"
    and "\<forall>k \<in> set (tcp_mss_options seg). even k"
  shows "ip_checksum (mss_fixup_dowork seg m) src dst proto = 0"
proof (cases "seg = []")
  case True
  then show ?thesis using assms(1) by (simp add: mss_fixup_dowork_def sizeof_tcphdr_def)
next
  case False
  let ?s = "mss_fixup_dowork seg m"
  have len: "length ?s = length seg" by (rule dowork_spec(1))
  have "65535 dvd bsum ?s - bsum seg" using dowork_spec(4) assms(5) by blast
  moreover have "65535 dvd total_sum seg src dst proto"
    using assms(1) unfolding ip_checksum_zero_iff [OF assms(2-4)] by blast
  ultimately have "65535 dvd (bsum ?s - bsum seg) + total_sum seg src dst proto" by (rule dvd_add)
  also have "(bsum ?s - bsum seg) + total_sum seg src dst proto = total_sum ?s src dst proto"
    by (simp add: total_sum_def len)
  finally have "65535 dvd total_sum ?s src dst proto" .
  moreover have "total_sum ?s src dst proto \<noteq> 0" using total_sum_pos [of ?s src dst proto] False len by fastforce
  ultimately show ?thesis
    using ip_checksum_zero_iff [of ?s src dst proto] assms(2-4) len by simp
qed


text \<open>A SYN packet of 44 bytes with one MSS option of 1460.\<close>

definition demo_syn :: "u8 list" where
  "demo_syn = [0x45, 0, 0, 44, 0, 0, 0, 0, 64, 6, 0, 0, 10, 0, 0, 1, 10, 0, 0, 2,
     0x30, 0x39, 0, 80, 0, 0, 0, 1, 0, 0, 0, 0, 0x60, 2, 0x20, 0, 0x33, 0x9A, 0, 0, 2, 4, 5, 0xB4]"

definition demo_odd_syn :: "u8 list" where
  "demo_odd_syn = [0x30, 0x39, 0, 80, 0, 0, 0, 1, 0, 0, 0, 0, 0x70, 2, 0x20, 0, 0x72, 0x46, 0, 0, 1, 2, 4, 5, 0xB4, 0, 0, 0]"




section \<open>Address translation\<close>

lemma bsum_put_raw16:
  assumes "even i" "i + 1 < length p"
  shows "65535 dvd bsum (put_raw16 p i w) - (bsum p - 256 * uint (raw16 p i) + 256 * uint w)"
proof -
  define hi lo where "hi = uint w div 256" and "lo = uint w mod 256"
  have w: "uint w = lo + 256 * hi" by (simp add: hi_def lo_def)
  have "bsum (put_raw16 p i w) = bsum p - (256 * uint (p ! i) + uint (p ! (i + 1))) + 256 * lo + hi"
    unfolding put_raw16_def bsum_update [OF assms] uint_high_byte unfolding uint_low_byte by (simp add: hi_def lo_def)
  then have "bsum (put_raw16 p i w) - (bsum p - 256 * uint (raw16 p i) + 256 * uint w) =
      (256 * (uint (p ! i) + 256 * uint (p ! (i + 1))) - (256 * uint (p ! i) + uint (p ! (i + 1)))) -
      (256 * (lo + 256 * hi) - (256 * lo + hi))" unfolding uint_raw16 w by linarith
  then show ?thesis by (simp only: dvd_diff swap_cong)
qed

lemma raw16_put_other: "j \<noteq> i \<Longrightarrow> j \<noteq> i + 1 \<Longrightarrow> j + 1 \<noteq> i \<Longrightarrow> raw16 (put_raw16 p i w) j = raw16 p j"
  by (simp add: raw16_def put_raw16_def)

lemma length_put_raw32 [simp]: "length (put_raw32 p i w) = length p"
  by (simp add: put_raw32_def)

definition halves :: "u32 \<Rightarrow> int" where
  "halves w = uint (w AND 0xffff) + uint (drop_bit 16 w)"

lemma halves_eq: "halves w = uint (ucast w :: u16) + uint (ucast (drop_bit 16 w) :: u16)"
proof -
  have "w AND 0xffff = ucast (ucast w :: u16)" "drop_bit 16 w = ucast (ucast (drop_bit 16 w) :: u16)"
  proof -
    have m: "(0xffff :: u32) = mask 16" by (simp add: mask_eq_exp_minus_1)
    show "w AND 0xffff = ucast (ucast w :: u16)" unfolding m by (rule bit_word_eqI) (auto simp: bit_simps)
    show "drop_bit 16 w = ucast (ucast (drop_bit 16 w) :: u16)"
      by (rule bit_word_eqI) (auto simp: bit_simps dest: bit_imp_le_length)
  qed
  moreover have "uint (ucast (x :: u16) :: u32) = uint x" for x
    using u16_less [of x] by (simp add: unsigned_ucast_eq take_bit_eq_mod)
  ultimately show ?thesis unfolding halves_def by metis
qed

lemma halves_bounds: "0 \<le> halves w" "halves w \<le> 131070"
  unfolding halves_eq using u16_less [of "ucast w"] u16_less [of "ucast (drop_bit 16 w)"] by (auto simp: halves_eq)

lemma halves_raw32: "halves (raw32 p i) = uint (raw16 p i) + uint (raw16 p (i + 2))"
proof -
  have "ucast (raw32 p i) = raw16 p i" "ucast (drop_bit 16 (raw32 p i)) = raw16 p (i + 2)"
    unfolding raw32_def by (rule bit_word_eqI; auto simp: bit_simps dest: bit_imp_le_length)+
  then show ?thesis by (simp add: halves_eq)
qed

lemma checksum_halves: "ADD_CHECKSUM_32 acc w = acc + halves w" "SUB_CHECKSUM_32 acc w = acc - halves w"
  by (simp_all add: ADD_CHECKSUM_32_def SUB_CHECKSUM_32_def halves_def)

lemma bsum_put_raw32:
  assumes "even i" "i + 3 < length p"
  shows "65535 dvd bsum (put_raw32 p i w) - (bsum p - 256 * halves (raw32 p i) + 256 * halves w)"
proof -
  let ?q = "put_raw16 p i (ucast w)"
  have "65535 dvd bsum (put_raw32 p i w) - (bsum ?q - 256 * uint (raw16 ?q (i + 2)) + 256 * uint (ucast (drop_bit 16 w) :: u16))"
    unfolding put_raw32_def using assms by (intro bsum_put_raw16) auto
  moreover have "raw16 ?q (i + 2) = raw16 p (i + 2)" by (rule raw16_put_other) auto
  moreover have "65535 dvd bsum ?q - (bsum p - 256 * uint (raw16 p i) + 256 * uint (ucast w :: u16))"
    using assms by (intro bsum_put_raw16) auto
  ultimately have "65535 dvd (bsum (put_raw32 p i w) - (bsum ?q - 256 * uint (raw16 p (i + 2)) + 256 * uint (ucast (drop_bit 16 w) :: u16)))
     + (bsum ?q - (bsum p - 256 * uint (raw16 p i) + 256 * uint (ucast w :: u16)))" by (metis dvd_add)
  also have "\<dots> = bsum (put_raw32 p i w) - (bsum p - 256 * halves (raw32 p i) + 256 * halves w)"
    unfolding halves_raw32 unfolding halves_eq by simp
  finally show ?thesis .
qed

text \<open>What every rule keeps: the sum of the words plus the accumulated change, and the bytes outside the addresses.\<close>

definition nat_inv :: "u8 list \<Rightarrow> u8 list \<times> int \<times> bool \<times> bool \<Rightarrow> bool" where
  "nat_inv p0 = (\<lambda>(p, acc, sd, dd). length p = length p0 \<and> take 12 p = take 12 p0 \<and> drop 20 p = drop 20 p0 \<and>
     65535 dvd bsum p + 256 * acc - bsum p0 \<and> \<bar>acc\<bar> \<le> 131070 * (of_bool sd + of_bool dd) \<and>
     (\<not> sd \<and> \<not> dd \<longrightarrow> p = p0))"

lemma take_drop_put_raw32:
  assumes "i = 12 \<or> i = 16"
  shows "take 12 (put_raw32 p i w) = take 12 p" "drop 20 (put_raw32 p i w) = drop 20 p"
  using assms by (auto simp: put_raw32_def put_raw16_def take_update_cancel drop_update_cancel)

lemma nat_rule_inv:
  assumes "nat_inv p0 st" "20 \<le> length p0"
  shows "nat_inv p0 (nat_rule direction e st)"
proof -
  obtain p acc sd dd where st: "st = (p, acc, sd, dd)" by (cases st)
  define dst where "dst = ((cn_type e = CN_DNAT) \<noteq> (direction = CN_INCOMING))"
  define off :: nat where "off = (if dst then 16 else 12)"
  define frm to where "frm = (if direction = CN_INCOMING then cn_foreign_network e else cn_network e)"
    and "to = (if direction = CN_INCOMING then cn_network e else cn_foreign_network e)"
  define addr where "addr = (raw32 p off AND NOT (cn_netmask e)) OR to"
  have off: "off = 12 \<or> off = 16" "even off" by (auto simp: off_def)
  have inv: "length p = length p0" "take 12 p = take 12 p0" "drop 20 p = drop 20 p0"
    "65535 dvd bsum p + 256 * acc - bsum p0" "\<bar>acc\<bar> \<le> 131070 * (of_bool sd + of_bool dd)"
    using assms(1) by (auto simp: nat_inv_def st)
  have rule: "nat_rule direction e st =
    (if (raw32 p off AND cn_netmask e) = frm \<and> \<not> (if dst then dd else sd)
     then (put_raw32 p off addr, acc + halves (raw32 p off) - halves addr, if dst then sd else True, if dst then True else dd)
     else (p, acc, sd, dd))"
    by (simp add: nat_rule_def st Let_def dst_def off_def frm_def to_def addr_def checksum_halves)
  show ?thesis
  proof (cases "(raw32 p off AND cn_netmask e) = frm \<and> \<not> (if dst then dd else sd)")
    case True
    let ?acc = "acc + halves (raw32 p off) - halves addr"
    have "65535 dvd bsum (put_raw32 p off addr) - (bsum p - 256 * halves (raw32 p off) + 256 * halves addr)"
      using off inv(1) assms(2) by (intro bsum_put_raw32) auto
    then have "65535 dvd (bsum (put_raw32 p off addr) - (bsum p - 256 * halves (raw32 p off) + 256 * halves addr)) +
      (bsum p + 256 * acc - bsum p0)" using inv(4) by (rule dvd_add)
    also have "\<dots> = bsum (put_raw32 p off addr) + 256 * ?acc - bsum p0" by simp
    finally have "65535 dvd bsum (put_raw32 p off addr) + 256 * ?acc - bsum p0" .
    moreover have "\<bar>?acc\<bar> \<le> 131070 * (of_bool (if dst then sd else True) + of_bool (if dst then True else dd))"
      using inv(5) True halves_bounds [of "raw32 p off"] halves_bounds [of addr] by (auto split: if_splits)
    ultimately show ?thesis
      unfolding rule if_P [OF True] nat_inv_def using inv(1-3) take_drop_put_raw32 [OF off(1), of p addr] by simp
  next
    case False
    then show ?thesis using assms(1) unfolding rule if_not_P [OF False] by (simp only: st)
  qed
qed

lemma fold_nat_inv:
  assumes "nat_inv p0 st" "20 \<le> length p0"
  shows "nat_inv p0 (fold (nat_rule direction) es st)"
  using assms(1)
proof (induction es arbitrary: st)
  case (Cons e es)
  then show ?case using nat_rule_inv [OF _ assms(2)] by simp
qed simp


lemma adjust_field_sum:
  assumes "even i" "i + 1 < length p" "\<bar>acc\<bar> \<le> 262140"
  shows "65535 dvd bsum (adjust_field p i acc) - (bsum p + 256 * acc)"
  unfolding adjust_field_def using assms by (intro bsum_adjust) auto

lemma adjust_field_split:
  "i < 19 \<Longrightarrow> drop 20 (adjust_field p i acc) = drop 20 p"
  "20 \<le> i \<Longrightarrow> take 20 (adjust_field p i acc) = take 20 p"
  "i < 11 \<Longrightarrow> drop 12 (adjust_field p i acc) = drop 12 p"
  "length (adjust_field p i acc) = length p"
  by (auto simp: adjust_field_def put_raw16_def take_update_cancel drop_update_cancel)

lemma adjust_field_drop:
  assumes "20 \<le> length p"
  shows "drop 20 (adjust_field p (20 + i) acc) = adjust_field (drop 20 p) i acc"
  using assms by (simp add: adjust_field_def put_raw16_def raw16_def drop_update_swap)

lemma take_drop_prefix:
  assumes "take n x = take n y" "j + k \<le> n"
  shows "take k (drop j x) = take k (drop j y)"
proof -
  have "take (j + k) x = take (j + k) y" using assms by (metis min.absorb1 take_take)
  then show ?thesis by (simp add: take_drop add.commute)
qed

text \<open>The sums of header, addresses and payload when the loop is over, \<open>acc\<close> being the accumulated change.\<close>

lemma nat_inv_sums:
  assumes "nat_inv p (q, acc, sd, dd)" "20 \<le> length p"
  shows "65535 dvd bsum (take 20 q) + 256 * acc - bsum (take 20 p)"
    "65535 dvd bsum (take 4 (drop 12 q)) + bsum (take 4 (drop 16 q)) + 256 * acc
       - (bsum (take 4 (drop 12 p)) + bsum (take 4 (drop 16 p)))"
    "drop 20 q = drop 20 p" "length q = length p" "\<bar>acc\<bar> \<le> 262140"
proof -
  have i: "length q = length p" "take 12 q = take 12 p" "drop 20 q = drop 20 p"
    "65535 dvd bsum q + 256 * acc - bsum p" "\<bar>acc\<bar> \<le> 131070 * (of_bool sd + of_bool dd)"
    using assms(1) by (auto simp: nat_inv_def)
  have s20: "bsum r = bsum (take 20 r) + bsum (drop 20 r)" if "20 \<le> length r" for r
    using bsum_append [of "take 20 r" "drop 20 r"] that by simp
  have s12: "bsum (take 20 r) = bsum (take 12 r) + (bsum (take 4 (drop 12 r)) + bsum (take 4 (drop 16 r)))"
    if "20 \<le> length r" for r
  proof -
    have "take 20 r = take 12 r @ take 4 (drop 12 r) @ take 4 (drop 16 r)"
      using take_add [of 12 8 r] take_add [of 4 4 "drop 12 r"] by simp
    then show ?thesis using that by (simp add: bsum_append)
  qed
  show h: "65535 dvd bsum (take 20 q) + 256 * acc - bsum (take 20 p)"
    using i(4) s20 [of q] s20 [of p] assms(2) i(1,3) by (simp add: algebra_simps)
  show "65535 dvd bsum (take 4 (drop 12 q)) + bsum (take 4 (drop 16 q)) + 256 * acc
       - (bsum (take 4 (drop 12 p)) + bsum (take 4 (drop 16 p)))"
    using h s12 [of q] s12 [of p] assms(2) i(1,2) by (simp add: algebra_simps)
  show "drop 20 q = drop 20 p" "length q = length p" by (fact i)+
  show "\<bar>acc\<bar> \<le> 262140" using i(5) by (auto simp: of_bool_def split: if_splits)
qed

text \<open>
  The header sum, and a checksum field at the even offset \<open>i\<close> of the payload which covers the addresses:
  both adjustments bring the sums back to their old values.
\<close>

lemma nat_payload_checksum:
  assumes "nat_inv p (q, acc, sd, dd)" "20 \<le> length p" "length p < 65536" "even i" "20 + i + 1 < length p"
    and "ip_checksum (drop 20 p) (take 4 (drop 12 p)) (take 4 (drop 16 p)) proto = 0"
  shows "ip_checksum (drop 20 (adjust_field (adjust_field q 10 acc) (20 + i) acc))
    (take 4 (drop 12 (adjust_field (adjust_field q 10 acc) (20 + i) acc)))
    (take 4 (drop 16 (adjust_field (adjust_field q 10 acc) (20 + i) acc))) proto = 0"
proof -
  note s = nat_inv_sums [OF assms(1,2)]
  let ?r = "adjust_field (adjust_field q 10 acc) (20 + i) acc"
  have len: "length ?r = length p" using s(4) by (simp add: adjust_field_split(4))
  have d20: "drop 20 ?r = adjust_field (drop 20 p) i acc"
    using s(3,4) assms(2) by (simp add: adjust_field_drop adjust_field_split)
  have t20: "take 20 ?r = take 20 (adjust_field q 10 acc)" by (simp add: adjust_field_split(2))
  have addr: "take 4 (drop j ?r) = take 4 (drop j q)" if "j = 12 \<or> j = 16" for j
  proof -
    have "take 4 (drop j ?r) = take 4 (drop j (adjust_field q 10 acc))"
      using that by (intro take_drop_prefix [OF t20]) auto
    also have "drop j (adjust_field q 10 acc) = drop (j - 12) (drop 12 (adjust_field q 10 acc))" using that by auto
    also have "\<dots> = drop j q" using that by (auto simp: adjust_field_split(3))
    finally show ?thesis .
  qed
  have "65535 dvd bsum (adjust_field (drop 20 p) i acc) - (bsum (drop 20 p) + 256 * acc)"
    using assms(4,5) s(5) by (intro adjust_field_sum) auto
  moreover have "65535 dvd total_sum (drop 20 p) (take 4 (drop 12 p)) (take 4 (drop 16 p)) proto"
    using assms(6) ip_checksum_zero_iff [of "drop 20 p" "take 4 (drop 12 p)" "take 4 (drop 16 p)" proto] assms(3) by simp
  ultimately have "65535 dvd ((bsum (adjust_field (drop 20 p) i acc) - (bsum (drop 20 p) + 256 * acc)) +
     (bsum (take 4 (drop 12 q)) + bsum (take 4 (drop 16 q)) + 256 * acc
       - (bsum (take 4 (drop 12 p)) + bsum (take 4 (drop 16 p))))) +
     total_sum (drop 20 p) (take 4 (drop 12 p)) (take 4 (drop 16 p)) proto" using s(2) by (intro dvd_add)
  also have "\<dots> = total_sum (drop 20 ?r) (take 4 (drop 12 ?r)) (take 4 (drop 16 ?r)) proto"
    using len s(4) unfolding total_sum_def d20 addr [of 12, simplified] addr [of 16, simplified]
    by (simp add: adjust_field_split(4))
  finally have "65535 dvd total_sum (drop 20 ?r) (take 4 (drop 12 ?r)) (take 4 (drop 16 ?r)) proto" .
  moreover have "drop 20 ?r \<noteq> []" using len assms(5) by simp
  from total_sum_pos [OF this] have "total_sum (drop 20 ?r) (take 4 (drop 12 ?r)) (take 4 (drop 16 ?r)) proto \<noteq> 0"
    by (metis less_irrefl)
  ultimately show ?thesis
    using ip_checksum_zero_iff [of "drop 20 ?r" "take 4 (drop 12 ?r)" "take 4 (drop 16 ?r)" proto] assms(3) len by simp
qed




definition demo_rules :: "client_nat_entry list" where
  "demo_rules = [\<lparr>cn_type = CN_SNAT, cn_network = 0x0000000A, cn_netmask = 0x000000FF, cn_foreign_network = 0x000000AC\<rparr>]"


end
