(* ===== verification/Mbuf.thy ===== *)
theory Mbuf
  imports Vpn_Prelude "HOL-Library.Multiset"
begin

text \<open>
  The queue of packets for the clients, from \<^verbatim>\<open>mbuf.h\<close> and \<^verbatim>\<open>mbuf.c\<close>: a ring of items, each a packet and
  the client it is for. A packet that goes to several clients is stored once, with a reference count; the
  packets live in a heap, and using one that was freed is \<open>None\<close>. When a client goes away its items stay in
  the ring without a packet and a client, and are skipped when the ring is emptied.

  The lemmas read the ring as the list of its items and show that the counts of the packets are exact.
\<close>

section \<open>State\<close>

definition MF_UNICAST :: u32 where "MF_UNICAST = push_bit 0 1"

record mbuf_buffer =
  mb_buf :: "u8 list"
  mb_refcount :: int
  mb_flags :: u32

text \<open>Null pointers are \<open>None\<close>.\<close>

record mbuf_item =
  mbi_buffer :: "nat option"
  mbi_instance :: "nat option"

record mbuf_set =
  ms_head :: u32
  ms_len :: u32
  ms_capacity :: u32
  ms_max_queued :: u32
  ms_array :: "mbuf_item list"

type_synonym mbufs = "nat \<rightharpoonup> mbuf_buffer"

definition MBUF_INDEX :: "u32 \<Rightarrow> u32 \<Rightarrow> u32 \<Rightarrow> u32" where
  "MBUF_INDEX head offset n = (head + offset) AND (n - 1)"

definition ms_item :: "mbuf_set \<Rightarrow> u32 \<Rightarrow> mbuf_item" where
  "ms_item ms i = ms_array ms ! unat (MBUF_INDEX (ms_head ms) i (ms_capacity ms))"

section \<open>Operations\<close>

text \<open>The array is not initialised: its content is \<open>junk\<close>, of the length that was asked for.\<close>

definition mbuf_init :: "(nat \<Rightarrow> mbuf_item) \<Rightarrow> nat \<Rightarrow> mbuf_set option" where
  "mbuf_init junk n =
     do { capacity \<leftarrow> adjust_power_of_2 n;
          let capacity = (word_of_nat capacity :: u32);
          Some \<lparr>ms_head = 0, ms_len = 0, ms_capacity = capacity, ms_max_queued = 0,
                ms_array = map junk [0..<unat capacity]\<rparr> }"

text \<open>A new packet at an unused address, with a copy of the content.\<close>

definition mbuf_alloc_buf :: "mbufs \<Rightarrow> nat \<Rightarrow> u8 list \<Rightarrow> mbufs option" where
  "mbuf_alloc_buf mbs b buf =
     (if mbs b \<noteq> None then None else Some (mbs(b \<mapsto> \<lparr>mb_buf = buf, mb_refcount = 1, mb_flags = 0\<rparr>)))"

definition mbuf_free_buf :: "mbufs \<Rightarrow> nat option \<Rightarrow> mbufs option" where
  "mbuf_free_buf mbs mb =
     (case mb of
        None \<Rightarrow> Some mbs
      | Some b \<Rightarrow> do { x \<leftarrow> mbs b;
                       let x = x\<lparr>mb_refcount := mb_refcount x - 1\<rparr>;
                       Some (mbs(b := if mb_refcount x \<le> 0 then None else Some x)) })"

fun free_loop :: "mbufs \<Rightarrow> mbuf_set \<Rightarrow> nat list \<Rightarrow> mbufs option" where
  "free_loop mbs ms [] = Some mbs"
| "free_loop mbs ms (i # is) =
     do { mbs \<leftarrow> mbuf_free_buf mbs (mbi_buffer (ms_item ms (word_of_nat i))); free_loop mbs ms is }"

definition mbuf_free :: "mbufs \<Rightarrow> mbuf_set \<Rightarrow> mbufs option" where
  "mbuf_free mbs ms = free_loop mbs ms [0..<unat (ms_len ms)]"

text \<open>The item, if one with a client was found, and the ring.\<close>

function mbuf_extract_item :: "mbuf_set \<Rightarrow> mbuf_item option \<times> mbuf_set" where
  "mbuf_extract_item ms =
     (if ms_len ms \<noteq> 0
      then let item = ms_array ms ! unat (ms_head ms);
               ms = ms\<lparr>ms_head := MBUF_INDEX (ms_head ms) 1 (ms_capacity ms), ms_len := ms_len ms - 1\<rparr>
           in if mbi_instance item \<noteq> None then (Some item, ms) else mbuf_extract_item ms
      else (None, ms))"
  by pat_completeness auto
termination
  by (relation "measure (\<lambda>ms. unat (ms_len ms))") (auto simp: measure_unat)

declare mbuf_extract_item.simps [simp del]

text \<open>The two halves of \<^verbatim>\<open>mbuf_add_item\<close>: making room in a full ring, and writing the item.\<close>

definition mbuf_drop_oldest :: "mbufs \<Rightarrow> mbuf_set \<Rightarrow> (mbufs \<times> mbuf_set) option" where
  "mbuf_drop_oldest mbs ms =
     (case mbuf_extract_item ms of
        (None, ms) \<Rightarrow> None
      | (Some rm, ms) \<Rightarrow> do { mbs \<leftarrow> mbuf_free_buf mbs (mbi_buffer rm); Some (mbs, ms) })"

definition mbuf_append :: "mbufs \<Rightarrow> mbuf_set \<Rightarrow> mbuf_item \<Rightarrow> (mbufs \<times> mbuf_set) option" where
  "mbuf_append mbs ms item =
     (if ms_len ms < ms_capacity ms
      then do { let i = unat (MBUF_INDEX (ms_head ms) (ms_len ms) (ms_capacity ms));
                let ms = ms\<lparr>ms_array := (ms_array ms)[i := item], ms_len := ms_len ms + 1\<rparr>;
                let ms = (if ms_len ms > ms_max_queued ms then ms\<lparr>ms_max_queued := ms_len ms\<rparr> else ms);
                b \<leftarrow> mbi_buffer item;
                x \<leftarrow> mbs b;
                Some (mbs(b \<mapsto> x\<lparr>mb_refcount := mb_refcount x + 1\<rparr>), ms) }
      else None)"

definition mbuf_add_item :: "mbufs \<Rightarrow> mbuf_set \<Rightarrow> mbuf_item \<Rightarrow> (mbufs \<times> mbuf_set) option" where
  "mbuf_add_item mbs ms item =
     do { (mbs, ms) \<leftarrow> (if ms_len ms = ms_capacity ms then mbuf_drop_oldest mbs ms else Some (mbs, ms));
          mbuf_append mbs ms item }"

fun peek_loop :: "mbuf_set \<Rightarrow> nat list \<Rightarrow> nat option" where
  "peek_loop ms [] = None"
| "peek_loop ms (i # is) =
     (let item = ms_item ms (word_of_nat i) in if mbi_instance item \<noteq> None then mbi_instance item else peek_loop ms is)"

definition mbuf_peek_dowork :: "mbuf_set \<Rightarrow> nat option" where
  "mbuf_peek_dowork ms = peek_loop ms [0..<unat (ms_len ms)]"

definition mbuf_defined :: "mbuf_set \<Rightarrow> bool" where
  "mbuf_defined ms \<longleftrightarrow> ms_len ms \<noteq> 0"

definition mbuf_peek :: "mbuf_set \<Rightarrow> nat option" where
  "mbuf_peek ms = (if mbuf_defined ms then mbuf_peek_dowork ms else None)"

fun dereference_loop :: "mbufs \<Rightarrow> mbuf_set \<Rightarrow> nat \<Rightarrow> nat list \<Rightarrow> (mbufs \<times> mbuf_set) option" where
  "dereference_loop mbs ms mi [] = Some (mbs, ms)"
| "dereference_loop mbs ms mi (i # is) =
     (let item = ms_item ms (word_of_nat i) in
      if mbi_instance item = Some mi
      then do { mbs \<leftarrow> mbuf_free_buf mbs (mbi_buffer item);
                let k = unat (MBUF_INDEX (ms_head ms) (word_of_nat i) (ms_capacity ms));
                dereference_loop mbs (ms\<lparr>ms_array := (ms_array ms)[k := \<lparr>mbi_buffer = None, mbi_instance = None\<rparr>]\<rparr>) mi is }
      else dereference_loop mbs ms mi is)"

definition mbuf_dereference_instance :: "mbufs \<Rightarrow> mbuf_set \<Rightarrow> nat \<Rightarrow> (mbufs \<times> mbuf_set) option" where
  "mbuf_dereference_instance mbs ms mi = dereference_loop mbs ms mi [0..<unat (ms_len ms)]"

section \<open>The ring as a list\<close>

definition ms_ok :: "mbuf_set \<Rightarrow> bool" where
  "ms_ok ms \<longleftrightarrow> (\<exists>k < 32. ms_capacity ms = 2 ^ k) \<and> ms_head ms < ms_capacity ms \<and> ms_len ms \<le> ms_capacity ms \<and>
     length (ms_array ms) = unat (ms_capacity ms) \<and> ms_len ms \<le> ms_max_queued ms"

definition slots :: "mbuf_set \<Rightarrow> mbuf_item list" where
  "slots ms = take (unat (ms_len ms)) (rotate (unat (ms_head ms)) (ms_array ms))"

lemma power_small: "k < 32 \<Longrightarrow> (2 :: nat) ^ k < 4294967296"
  using power_strict_increasing [of k 32 "2 :: nat"] by simp

lemma unat_power_small: "k < 32 \<Longrightarrow> unat ((2 :: u32) ^ k) = 2 ^ k"
proof -
  assume "k < 32"
  then have "take_bit 32 ((2 :: nat) ^ k) = 2 ^ k" using power_small by (intro take_bit_nat_eq_self) simp
  then have "unat (word_of_nat (2 ^ k) :: u32) = 2 ^ k" by (simp only: unsigned_of_nat) simp
  then show ?thesis by simp
qed

lemma index_mod:
  assumes "k < 32"
  shows "unat (MBUF_INDEX h i (2 ^ k)) = (unat h + unat i) mod 2 ^ k"
proof -
  have "MBUF_INDEX h i (2 ^ k) = take_bit k (h + i)"
    by (simp add: MBUF_INDEX_def take_bit_eq_mask mask_eq_exp_minus_1)
  moreover have "unat (take_bit k (h + i)) = take_bit k ((unat h + unat i) mod 2 ^ 32)"
    by (simp add: unsigned_take_bit_eq unat_word_ariths)
  moreover have "take_bit k ((unat h + unat i) mod 2 ^ 32) = (unat h + unat i) mod 2 ^ k"
    using mod_mod_cancel [OF le_imp_power_dvd [of k 32 2], of "unat h + unat i"] assms by (simp add: take_bit_eq_mod)
  ultimately show ?thesis by simp
qed

lemma ms_okD:
  assumes "ms_ok ms"
  obtains k where "k < 32" "ms_capacity ms = 2 ^ k" "length (ms_array ms) = 2 ^ k" "unat (ms_capacity ms) = 2 ^ k"
    "unat (ms_head ms) < 2 ^ k" "unat (ms_len ms) \<le> 2 ^ k"
proof -
  obtain k where k: "k < 32" "ms_capacity ms = 2 ^ k" using assms unfolding ms_ok_def by blast
  have u: "unat (ms_capacity ms) = 2 ^ k" unfolding k(2) by (rule unat_power_small [OF k(1)])
  have o: "ms_head ms < ms_capacity ms" "ms_len ms \<le> ms_capacity ms" "length (ms_array ms) = unat (ms_capacity ms)"
    using assms unfolding ms_ok_def by blast+
  from o(1,2) show ?thesis
    using that [OF k] o(3) u by (simp add: word_less_nat_alt word_le_nat_alt)
qed

lemma length_slots:
  assumes "ms_ok ms"
  shows "length (slots ms) = unat (ms_len ms)"
  by (rule ms_okD [OF assms]) (simp add: slots_def)

text \<open>Reading and writing an item of the ring.\<close>

lemma ms_item_slots:
  assumes "ms_ok ms" "i < unat (ms_len ms)"
  shows "ms_item ms (word_of_nat i) = slots ms ! i"
proof -
  obtain k where k: "k < 32" "ms_capacity ms = 2 ^ k" "length (ms_array ms) = 2 ^ k" "unat (ms_len ms) \<le> 2 ^ k"
    by (rule ms_okD [OF assms(1)])
  have "(2 :: nat) ^ k < 4294967296" by (rule power_small [OF k(1)])
  then have i: "unat (word_of_nat i :: u32) = i" using assms(2) k(4) by (simp add: unsigned_of_nat take_bit_nat_eq_self)
  have "ms_item ms (word_of_nat i) = ms_array ms ! ((unat (ms_head ms) + i) mod 2 ^ k)"
    by (simp add: ms_item_def k(2) index_mod [OF k(1)] i)
  also have "\<dots> = slots ms ! i" using assms(2) k(3,4) by (simp add: slots_def nth_rotate add.commute)
  finally show ?thesis .
qed

lemma rotate_update:
  assumes "i < length xs"
  shows "rotate h (xs[(h + i) mod length xs := v]) = (rotate h xs)[i := v]"
proof (rule nth_equalityI)
  fix j assume j: "j < length (rotate h (xs[(h + i) mod length xs := v]))"
  have "(h + j) mod length xs = (h + i) mod length xs \<longleftrightarrow> j = i"
  proof
    assume "(h + j) mod length xs = (h + i) mod length xs"
    then have "j mod length xs = i mod length xs" by (simp add: nat_mod_eq_iff)
    then show "j = i" using j assms by simp
  qed simp
  moreover have "(h + j) mod length xs < length xs" by (rule mod_less_divisor) (use assms in linarith)
  ultimately show "rotate h (xs[(h + i) mod length xs := v]) ! j = (rotate h xs)[i := v] ! j"
    using j assms by (auto simp: nth_rotate nth_list_update add.commute)
qed simp

lemma slots_write:
  assumes "ms_ok ms" "i < unat (ms_len ms)"
    "ms' = ms\<lparr>ms_array := (ms_array ms)[unat (MBUF_INDEX (ms_head ms) (word_of_nat i) (ms_capacity ms)) := v]\<rparr>"
  shows "slots ms' = (slots ms)[i := v]" "ms_ok ms'"
proof -
  obtain k where k: "k < 32" "ms_capacity ms = 2 ^ k" "length (ms_array ms) = 2 ^ k" "unat (ms_len ms) \<le> 2 ^ k"
    by (rule ms_okD [OF assms(1)])
  have "(2 :: nat) ^ k < 4294967296" by (rule power_small [OF k(1)])
  then have i: "unat (word_of_nat i :: u32) = i" using assms(2) k(4) by (simp add: unsigned_of_nat take_bit_nat_eq_self)
  have "i < length (ms_array ms)" using assms(2) k(3,4) by simp
  from rotate_update [OF this, of "unat (ms_head ms)" v] show "slots ms' = (slots ms)[i := v]"
    by (simp add: assms(3) slots_def k(2,3) index_mod [OF k(1)] i take_update_swap)
  show "ms_ok ms'" using assms(1) by (simp add: assms(3) ms_ok_def)
qed

text \<open>Appending an item.\<close>

lemma slots_append:
  assumes "ms_ok ms" "ms_len ms < ms_capacity ms"
    "ms' = ms\<lparr>ms_array := (ms_array ms)[unat (MBUF_INDEX (ms_head ms) (ms_len ms) (ms_capacity ms)) := v],
       ms_len := ms_len ms + 1, ms_max_queued := q\<rparr>" "ms_len ms + 1 \<le> q"
  shows "slots ms' = slots ms @ [v]" "ms_ok ms'"
proof -
  obtain k where k: "k < 32" "ms_capacity ms = 2 ^ k" "length (ms_array ms) = 2 ^ k" "unat (ms_capacity ms) = 2 ^ k"
    by (rule ms_okD [OF assms(1)])
  have n: "unat (ms_len ms) < 2 ^ k" using assms(2) k(4) by (simp add: word_less_nat_alt)
  moreover have "(2 :: nat) ^ k < 4294967296" by (rule power_small [OF k(1)])
  ultimately have s: "unat (ms_len ms + 1) = unat (ms_len ms) + 1" by (simp add: unat_word_ariths)
  have "unat (ms_len ms) < length (ms_array ms)" using n k(3) by simp
  from rotate_update [OF this, of "unat (ms_head ms)" v] show "slots ms' = slots ms @ [v]"
    using n by (simp add: assms(3) slots_def k(2,3) index_mod [OF k(1)] s take_Suc_conv_app_nth)
  show "ms_ok ms'" using assms(1,4) n k(4) s by (simp add: assms(3) ms_ok_def word_le_nat_alt)
qed

text \<open>Removing the first one.\<close>

lemma slots_remove:
  assumes "ms_ok ms" "ms_len ms \<noteq> 0"
    "ms' = ms\<lparr>ms_head := MBUF_INDEX (ms_head ms) 1 (ms_capacity ms), ms_len := ms_len ms - 1\<rparr>"
  shows "slots ms = ms_array ms ! unat (ms_head ms) # slots ms'" "ms_ok ms'"
proof -
  obtain k where k: "k < 32" "ms_capacity ms = 2 ^ k" "length (ms_array ms) = 2 ^ k" "unat (ms_capacity ms) = 2 ^ k"
    "unat (ms_head ms) < 2 ^ k" "unat (ms_len ms) \<le> 2 ^ k"
    by (rule ms_okD [OF assms(1)])
  have n0: "unat (ms_len ms) \<noteq> 0" using assms(2) by (simp add: unat_eq_0)
  then have n: "unat (ms_len ms - 1) = unat (ms_len ms) - 1" "0 < unat (ms_len ms)"
    using assms(2) by (simp_all add: unat_minus_one)
  let ?ys = "rotate (unat (ms_head ms)) (ms_array ms)"
  have h: "unat (MBUF_INDEX (ms_head ms) 1 (ms_capacity ms)) = Suc (unat (ms_head ms)) mod 2 ^ k"
    by (simp add: k(2) index_mod [OF k(1)])
  have r: "rotate (Suc (unat (ms_head ms)) mod 2 ^ k) (ms_array ms) = rotate1 ?ys"
    using rotate_conv_mod [of "Suc (unat (ms_head ms))" "ms_array ms"] k(3) by simp
  have ne: "?ys \<noteq> []" using k(3) by auto
  have "hd ?ys = ms_array ms ! unat (ms_head ms)" using k(3,5) ne by (simp add: hd_conv_nth nth_rotate)
  then obtain zs where ys: "?ys = ms_array ms ! unat (ms_head ms) # zs" using ne by (cases ?ys) auto
  then have "length zs = 2 ^ k - 1" using k(3) by (metis length_rotate length_tl list.sel(3))
  then show "slots ms = ms_array ms ! unat (ms_head ms) # slots ms'"
    unfolding slots_def assms(3) using n k(6) by (simp add: h r ys take_Cons')
  have "Suc (unat (ms_head ms)) mod 2 ^ k < 2 ^ k" by simp
  moreover have "ms_len ms - 1 \<le> ms_len ms" using n by (simp add: word_le_nat_alt)
  ultimately show "ms_ok ms'" using assms(1) k(4) h unfolding ms_ok_def
    by (auto simp: assms(3) word_less_nat_alt)
qed

section \<open>Emptying the ring\<close>

definition dead :: "mbuf_item \<Rightarrow> bool" where
  "dead it \<longleftrightarrow> mbi_instance it = None"

lemma extract_slots:
  assumes "ms_ok ms"
  shows "\<exists>ms'. mbuf_extract_item ms = (case dropWhile dead (slots ms) of [] \<Rightarrow> None | it # _ \<Rightarrow> Some it, ms') \<and>
    slots ms' = tl (dropWhile dead (slots ms)) \<and> ms_ok ms' \<and> ms_capacity ms' = ms_capacity ms"
  using assms
proof (induction ms rule: mbuf_extract_item.induct)
  case (1 ms)
  let ?ms = "ms\<lparr>ms_head := MBUF_INDEX (ms_head ms) 1 (ms_capacity ms), ms_len := ms_len ms - 1\<rparr>"
  let ?it = "ms_array ms ! unat (ms_head ms)"
  show ?case
  proof (cases "ms_len ms = 0")
    case True
    then have "slots ms = []" by (simp add: slots_def)
    moreover have "mbuf_extract_item ms = (None, ms)" using True by (subst mbuf_extract_item.simps) simp
    ultimately show ?thesis using 1 by simp
  next
    case False
    note rm = slots_remove [OF 1(2) False refl]
    show ?thesis
    proof (cases "mbi_instance ?it = None")
      case True
      have "mbuf_extract_item ms = mbuf_extract_item ?ms"
        using False True by (subst mbuf_extract_item.simps) (simp add: Let_def)
      moreover have "dropWhile dead (slots ms) = dropWhile dead (slots ?ms)" unfolding rm(1) using True by (simp add: dead_def)
      ultimately show ?thesis using 1(1) [OF False refl refl] True rm(2) by simp
    next
      case live: False
      have "mbuf_extract_item ms = (Some ?it, ?ms)"
        using False live by (subst mbuf_extract_item.simps) (simp add: Let_def)
      moreover have "dropWhile dead (slots ms) = ?it # slots ?ms" unfolding rm(1) using live by (auto simp: dead_def)
      ultimately show ?thesis using rm(2) by simp
    qed
  qed
qed

section \<open>The counts of the packets\<close>

text \<open>\<open>N\<close> is the number of references to each packet.\<close>

definition counts_exact :: "mbufs \<Rightarrow> (nat \<Rightarrow> nat) \<Rightarrow> bool" where
  "counts_exact mbs N \<longleftrightarrow> finite (dom mbs) \<and>
     (\<forall>b. case mbs b of None \<Rightarrow> N b = 0 | Some x \<Rightarrow> mb_refcount x = int (N b) \<and> 0 < N b)"

definition refs :: "mbuf_item list \<Rightarrow> nat \<Rightarrow> nat" where
  "refs its b = count_list (map mbi_buffer its) (Some b)"

text \<open>The content of the packets that are still there is the same.\<close>

definition same_bufs :: "mbufs \<Rightarrow> mbufs \<Rightarrow> bool" where
  "same_bufs mbs mbs' \<longleftrightarrow> (\<forall>b x'. mbs' b = Some x' \<longrightarrow> (\<exists>x. mbs b = Some x \<and> mb_buf x = mb_buf x'))"

lemma same_bufs_refl [simp]: "same_bufs mbs mbs"
  by (simp add: same_bufs_def)

lemma same_bufs_trans: "same_bufs a b \<Longrightarrow> same_bufs b c \<Longrightarrow> same_bufs a c"
  unfolding same_bufs_def by metis

lemma counts_exactD:
  assumes "counts_exact mbs N"
  shows "0 < N b \<longleftrightarrow> mbs b \<noteq> None" "mbs b = Some x \<Longrightarrow> mb_refcount x = int (N b)"
proof -
  have "case mbs b of None \<Rightarrow> N b = 0 | Some x \<Rightarrow> mb_refcount x = int (N b) \<and> 0 < N b"
    using assms by (simp add: counts_exact_def)
  then show "0 < N b \<longleftrightarrow> mbs b \<noteq> None" "mbs b = Some x \<Longrightarrow> mb_refcount x = int (N b)"
    by (auto split: option.splits)
qed

lemma counts_update:
  assumes "counts_exact mbs N" "case v of None \<Rightarrow> n = 0 | Some x \<Rightarrow> mb_refcount x = int n \<and> 0 < n"
  shows "counts_exact (mbs(b := v)) (N(b := n))"
proof -
  have "finite (dom (mbs(b := v)))"
    by (rule finite_subset [of _ "insert b (dom mbs)"]) (use assms(1) in \<open>auto simp: counts_exact_def split: if_splits\<close>)
  moreover have "case (mbs(b := v)) c of None \<Rightarrow> (N(b := n)) c = 0
      | Some x \<Rightarrow> mb_refcount x = int ((N(b := n)) c) \<and> 0 < (N(b := n)) c" for c
  proof -
    have "case mbs c of None \<Rightarrow> N c = 0 | Some x \<Rightarrow> mb_refcount x = int (N c) \<and> 0 < N c"
      using assms(1) by (simp add: counts_exact_def)
    then show ?thesis using assms(2) by (cases "c = b"; cases v; cases "mbs c") auto
  qed
  ultimately show ?thesis unfolding counts_exact_def by blast
qed

lemma free_buf_counts:
  assumes "counts_exact mbs N" "0 < N b"
  shows "\<exists>mbs'. mbuf_free_buf mbs (Some b) = Some mbs' \<and> counts_exact mbs' (N(b := N b - 1)) \<and> same_bufs mbs mbs'"
proof -
  obtain x where x: "mbs b = Some x" "mb_refcount x = int (N b)" using counts_exactD [OF assms(1)] assms(2) by blast
  let ?v = "if mb_refcount x - 1 \<le> 0 then None else Some (x\<lparr>mb_refcount := mb_refcount x - 1\<rparr>)"
  have "counts_exact (mbs(b := ?v)) (N(b := N b - 1))"
    by (rule counts_update [OF assms(1)]) (use x(2) assms(2) in auto)
  moreover have "mbuf_free_buf mbs (Some b) = Some (mbs(b := ?v))" using x(1) by (simp add: mbuf_free_buf_def Let_def)
  moreover have "same_bufs mbs (mbs(b := ?v))" using x(1) by (auto simp: same_bufs_def split: if_splits)
  ultimately show ?thesis by blast
qed

lemma refs_simps [simp]:
  "refs [] b = 0"
  "refs (it # its) b = (if mbi_buffer it = Some b then 1 else 0) + refs its b"
  "refs (its @ its') b = refs its b + refs its' b"
  by (simp_all add: refs_def)

text \<open>An item without a client has no packet.\<close>

definition items_ok :: "mbuf_item list \<Rightarrow> bool" where
  "items_ok its \<longleftrightarrow> (\<forall>it \<in> set its. mbi_instance it = None \<longleftrightarrow> mbi_buffer it = None)"

lemma refs_dead:
  assumes "items_ok its"
  shows "refs (dropWhile dead its) b = refs its b" "items_ok (dropWhile dead its)"
proof -
  show "refs (dropWhile dead its) b = refs its b"
    using assms by (induction its) (auto simp: dead_def items_ok_def)
  show "items_ok (dropWhile dead its)" using assms set_dropWhileD [of _ dead its] by (auto simp: items_ok_def)
qed

section \<open>Adding and dereferencing\<close>

text \<open>
  A queue of a given capacity: when it is full, the oldest item with a client makes room, with those without
  a client before it. Where there is none with a client, the assertion fails.
\<close>

definition enqueue :: "('a \<Rightarrow> bool) \<Rightarrow> nat \<Rightarrow> 'a list \<Rightarrow> 'a \<Rightarrow> 'a list option" where
  "enqueue gone cap q it =
     (if length q = cap then (case dropWhile gone q of [] \<Rightarrow> None | _ # q' \<Rightarrow> Some (q' @ [it])) else Some (q @ [it]))"

definition forget :: "nat \<Rightarrow> mbuf_item \<Rightarrow> mbuf_item" where
  "forget mi it = (if mbi_instance it = Some mi then \<lparr>mbi_buffer = None, mbi_instance = None\<rparr> else it)"

text \<open>\<open>H\<close> are the references that are held outside of the queue.\<close>

definition queue_ok :: "mbufs \<Rightarrow> mbuf_set \<Rightarrow> (nat \<Rightarrow> nat) \<Rightarrow> bool" where
  "queue_ok mbs ms H \<longleftrightarrow> ms_ok ms \<and> items_ok (slots ms) \<and> counts_exact mbs (\<lambda>b. refs (slots ms) b + H b)"

lemma append_queue:
  assumes "queue_ok mbs ms H" "0 < H b" "item = \<lparr>mbi_buffer = Some b, mbi_instance = Some i\<rparr>" "ms_len ms < ms_capacity ms"
  shows "\<exists>mbs' ms'. mbuf_append mbs ms item = Some (mbs', ms') \<and> slots ms' = slots ms @ [item] \<and> queue_ok mbs' ms' H \<and>
    same_bufs mbs mbs' \<and> ms_capacity ms' = ms_capacity ms"
proof -
  have ok: "ms_ok ms" "items_ok (slots ms)" "counts_exact mbs (\<lambda>b. refs (slots ms) b + H b)"
    using assms(1) by (auto simp: queue_ok_def)
  obtain x where x: "mbs b = Some x" "mb_refcount x = int (refs (slots ms) b + H b)"
    using counts_exactD [OF ok(3), of b] assms(2) by auto
  let ?mq = "if ms_len ms + 1 > ms_max_queued ms then ms_len ms + 1 else ms_max_queued ms"
  let ?ms = "ms\<lparr>ms_array := (ms_array ms)[unat (MBUF_INDEX (ms_head ms) (ms_len ms) (ms_capacity ms)) := item],
    ms_len := ms_len ms + 1, ms_max_queued := ?mq\<rparr>"
  let ?mbs = "mbs(b \<mapsto> x\<lparr>mb_refcount := mb_refcount x + 1\<rparr>)"
  have "ms_len ms + 1 \<le> ?mq" by auto
  note sa = slots_append [OF ok(1) assms(4) refl this, of item]
  have N: "(\<lambda>b. refs (slots ms) b + H b)(b := refs (slots ms) b + H b + 1) = (\<lambda>b. refs (slots ms @ [item]) b + H b)"
    by (rule ext) (simp add: assms(3))
  have "counts_exact ?mbs (\<lambda>b. refs (slots ms @ [item]) b + H b)"
    unfolding N [symmetric] by (rule counts_update [OF ok(3)]) (use x(2) in simp)
  then have "queue_ok ?mbs ?ms H"
    unfolding queue_ok_def sa(1) using sa(2) ok(2) by (auto simp: items_ok_def assms(3))
  moreover have "mbuf_append mbs ms item = Some (?mbs, ?ms)"
    using assms(4) x(1) by (simp add: mbuf_append_def assms(3) Let_def)
  moreover have "same_bufs mbs ?mbs" using x(1) by (auto simp: same_bufs_def)
  ultimately show ?thesis using sa(1) by (intro exI [of _ ?mbs] exI [of _ ?ms]) simp
qed

lemma drop_oldest_queue:
  assumes "queue_ok mbs ms H"
  shows "case dropWhile dead (slots ms) of
      [] \<Rightarrow> mbuf_drop_oldest mbs ms = None
    | it # its \<Rightarrow> \<exists>mbs' ms'. mbuf_drop_oldest mbs ms = Some (mbs', ms') \<and> slots ms' = its \<and> queue_ok mbs' ms' H \<and>
        same_bufs mbs mbs' \<and> ms_capacity ms' = ms_capacity ms"
proof -
  have ok: "ms_ok ms" "items_ok (slots ms)" "counts_exact mbs (\<lambda>b. refs (slots ms) b + H b)"
    using assms(1) by (auto simp: queue_ok_def)
  obtain ms' where ms': "mbuf_extract_item ms = (case dropWhile dead (slots ms) of [] \<Rightarrow> None | it # _ \<Rightarrow> Some it, ms')"
    "slots ms' = tl (dropWhile dead (slots ms))" "ms_ok ms'" "ms_capacity ms' = ms_capacity ms"
    using extract_slots [OF ok(1)] by blast
  show ?thesis
  proof (cases "dropWhile dead (slots ms)")
    case Nil
    show ?thesis unfolding Nil list.case mbuf_drop_oldest_def ms'(1) by simp
  next
    case (Cons it its)
    have it: "mbi_instance it \<noteq> None" using Cons by (auto simp: dropWhile_eq_Cons_conv dead_def)
    note rd = refs_dead [OF ok(2)]
    have io: "items_ok its" "mbi_instance it = None \<longleftrightarrow> mbi_buffer it = None"
      using rd(2) unfolding Cons by (auto simp: items_ok_def)
    then obtain c where c: "mbi_buffer it = Some c" using it by blast
    have r: "refs (slots ms) d = (if d = c then 1 else 0) + refs its d" for d using rd(1) [of d] unfolding Cons by (auto simp: c)
    have "0 < refs (slots ms) c + H c" by (simp add: r)
    from free_buf_counts [OF ok(3) this] obtain mbs' where mbs': "mbuf_free_buf mbs (Some c) = Some mbs'"
      "counts_exact mbs' ((\<lambda>b. refs (slots ms) b + H b)(c := refs (slots ms) c + H c - 1))" "same_bufs mbs mbs'" by blast
    have "(\<lambda>b. refs (slots ms) b + H b)(c := refs (slots ms) c + H c - 1) = (\<lambda>b. refs its b + H b)"
      by (rule ext) (simp add: r)
    then have "queue_ok mbs' ms' H" using mbs'(2) ms'(2,3) io(1) by (simp add: queue_ok_def Cons)
    moreover have "mbuf_drop_oldest mbs ms = Some (mbs', ms')"
      unfolding mbuf_drop_oldest_def ms'(1) Cons list.case prod.case option.case c mbs'(1) by simp
    ultimately show ?thesis using ms'(2,4) mbs'(3) unfolding Cons list.case by auto
  qed
qed

lemma add_item_queue:
  assumes "queue_ok mbs ms H" "0 < H b" "item = \<lparr>mbi_buffer = Some b, mbi_instance = Some i\<rparr>"
  shows "case enqueue dead (unat (ms_capacity ms)) (slots ms) item of
      None \<Rightarrow> mbuf_add_item mbs ms item = None
    | Some q \<Rightarrow> \<exists>mbs' ms'. mbuf_add_item mbs ms item = Some (mbs', ms') \<and> slots ms' = q \<and> queue_ok mbs' ms' H \<and>
        same_bufs mbs mbs' \<and> ms_capacity ms' = ms_capacity ms"
proof -
  have ok: "ms_ok ms" using assms(1) by (auto simp: queue_ok_def)
  have full: "length (slots ms) = unat (ms_capacity ms) \<longleftrightarrow> ms_len ms = ms_capacity ms"
    by (simp add: length_slots [OF ok] word_unat_eq_iff)
  show ?thesis
  proof (cases "ms_len ms = ms_capacity ms")
    case False
    have "ms_len ms \<le> ms_capacity ms" using ok by (simp add: ms_ok_def)
    then have "ms_len ms < ms_capacity ms" using False by simp
    from append_queue [OF assms this] show ?thesis unfolding enqueue_def full mbuf_add_item_def using False by simp
  next
    case True
    note d = drop_oldest_queue [OF assms(1)]
    show ?thesis
    proof (cases "dropWhile dead (slots ms)")
      case Nil
      have "mbuf_drop_oldest mbs ms = None" using d unfolding Nil list.case .
      moreover have e: "enqueue dead (unat (ms_capacity ms)) (slots ms) item = None"
        unfolding enqueue_def full Nil using True by simp
      ultimately show ?thesis unfolding e using True by (simp add: mbuf_add_item_def)
    next
      case (Cons it its)
      then obtain mbs1 ms1 where ms1: "mbuf_drop_oldest mbs ms = Some (mbs1, ms1)" "slots ms1 = its" "queue_ok mbs1 ms1 H"
        "same_bufs mbs mbs1" "ms_capacity ms1 = ms_capacity ms" using d by auto
      have "ms_ok ms1" using ms1(3) by (simp add: queue_ok_def)
      moreover have "length its < length (slots ms)" using length_dropWhile_le [of dead "slots ms"] Cons by simp
      ultimately have "ms_len ms1 < ms_capacity ms1"
        using length_slots [of ms1] length_slots [OF ok] ms1(2,5) True by (simp add: word_less_nat_alt)
      from append_queue [OF ms1(3) assms(2,3) this] show ?thesis
        using True ms1 Cons same_bufs_trans [OF ms1(4)] unfolding mbuf_add_item_def enqueue_def full by auto
    qed
  qed
qed

text \<open>Dereferencing a client.\<close>

lemma dereference_loop_queue:
  assumes "queue_ok mbs ms H" "k \<le> length (slots ms)"
  shows "\<exists>mbs' ms'. dereference_loop mbs ms mi [k..<length (slots ms)] = Some (mbs', ms') \<and>
    slots ms' = take k (slots ms) @ map (forget mi) (drop k (slots ms)) \<and> queue_ok mbs' ms' H \<and>
    same_bufs mbs mbs' \<and> ms_capacity ms' = ms_capacity ms"
  using assms
proof (induction "length (slots ms) - k" arbitrary: mbs ms k)
  case 0
  then have "k = length (slots ms)" by simp
  then show ?case using 0 by simp
next
  case (Suc n)
  have ok: "ms_ok ms" "items_ok (slots ms)" "counts_exact mbs (\<lambda>b. refs (slots ms) b + H b)"
    using Suc.prems(1) by (auto simp: queue_ok_def)
  have k: "k < length (slots ms)" "k < unat (ms_len ms)" using Suc.hyps(2) length_slots [OF ok(1)] by simp_all
  let ?q = "slots ms" and ?it = "slots ms ! k"
  have u: "[k..<length ?q] = k # [Suc k..<length ?q]" using k(1) by (simp add: upt_conv_Cons)
  have it: "ms_item ms (word_of_nat k) = ?it" by (rule ms_item_slots [OF ok(1) k(2)])
  have dk: "drop k ?q = ?it # drop (Suc k) ?q" using k(1) by (simp add: Cons_nth_drop_Suc)
  show ?case
  proof (cases "mbi_instance ?it = Some mi")
    case False
    have "forget mi ?it = ?it" using False by (simp add: forget_def)
    then have e: "take k ?q @ map (forget mi) (drop k ?q) = take (Suc k) ?q @ map (forget mi) (drop (Suc k) ?q)"
      using k(1) by (simp add: dk take_Suc_conv_app_nth)
    from Suc.hyps(1) [of ms "Suc k" mbs] Suc.hyps(2) Suc.prems(1) k(1) show ?thesis
      unfolding e u by (simp add: it False)
  next
    case True
    have "?it \<in> set ?q" using k(1) by simp
    then obtain c where c: "mbi_buffer ?it = Some c" using ok(2) True by (fastforce simp: items_ok_def)
    let ?null = "\<lparr>mbi_buffer = None, mbi_instance = None\<rparr>"
    define ms1 where "ms1 = ms\<lparr>ms_array := (ms_array ms)[unat (MBUF_INDEX (ms_head ms) (word_of_nat k) (ms_capacity ms)) := ?null]\<rparr>"
    note sw = slots_write [OF ok(1) k(2) ms1_def]
    have split: "?q = take k ?q @ ?it # drop (Suc k) ?q" using dk by (metis append_take_drop_id)
    have w: "?q[k := ?null] = take k ?q @ ?null # drop (Suc k) ?q" using k(1) by (simp add: upd_conv_take_nth_drop)
    have r: "refs ?q d = (if d = c then 1 else 0) + refs (?q[k := ?null]) d" for d
      by (subst split, simp add: w c)
    have "0 < refs ?q c + H c" by (simp add: r)
    from free_buf_counts [OF ok(3) this] obtain mbs1 where mbs1: "mbuf_free_buf mbs (Some c) = Some mbs1"
      "counts_exact mbs1 ((\<lambda>b. refs ?q b + H b)(c := refs ?q c + H c - 1))" "same_bufs mbs mbs1" by blast
    have "(\<lambda>b. refs ?q b + H b)(c := refs ?q c + H c - 1) = (\<lambda>b. refs (slots ms1) b + H b)"
      unfolding sw(1) by (rule ext) (simp add: r)
    moreover have "items_ok (slots ms1)" unfolding sw(1) w using ok(2) set_take_subset [of k ?q] set_drop_subset [of "Suc k" ?q]
      by (auto simp: items_ok_def)
    ultimately have q1: "queue_ok mbs1 ms1 H" using mbs1(2) sw(2) by (simp add: queue_ok_def)
    have l1: "length (slots ms1) = length ?q" unfolding sw(1) by simp
    have n: "n = length ?q - Suc k" "Suc k \<le> length ?q" using Suc.hyps(2) by arith+
    from Suc.hyps(1) [of ms1 "Suc k" mbs1, unfolded l1, OF n(1) q1 n(2)] obtain mbs2 ms2 where r2:
      "dereference_loop mbs1 ms1 mi [Suc k..<length ?q] = Some (mbs2, ms2)"
      "slots ms2 = take (Suc k) (slots ms1) @ map (forget mi) (drop (Suc k) (slots ms1))" "queue_ok mbs2 ms2 H"
      "same_bufs mbs1 mbs2" "ms_capacity ms2 = ms_capacity ms1" by blast
    have "slots ms2 = take k ?q @ map (forget mi) (drop k ?q)"
      using True k(1) unfolding r2(2) sw(1) dk by (simp add: w forget_def min_def)
    moreover have "dereference_loop mbs ms mi [k..<length ?q] = Some (mbs2, ms2)"
      unfolding u using r2(1) True c mbs1(1) by (simp add: it ms1_def Let_def)
    moreover have "ms_capacity ms2 = ms_capacity ms" using r2(5) by (simp add: ms1_def)
    ultimately show ?thesis using r2(3,4) same_bufs_trans [OF mbs1(3)] by blast
  qed
qed

lemma dereference_queue:
  assumes "queue_ok mbs ms H"
  shows "\<exists>mbs' ms'. mbuf_dereference_instance mbs ms mi = Some (mbs', ms') \<and>
    slots ms' = map (forget mi) (slots ms) \<and> queue_ok mbs' ms' H \<and> same_bufs mbs mbs' \<and> ms_capacity ms' = ms_capacity ms"
proof -
  have "length (slots ms) = unat (ms_len ms)" using assms length_slots by (simp add: queue_ok_def)
  then show ?thesis using dereference_loop_queue [OF assms, of 0 mi] by (simp add: mbuf_dereference_instance_def)
qed

text \<open>Looking at the first client without taking its packet.\<close>

lemma peek_slots:
  assumes "ms_ok ms"
  shows "mbuf_peek ms = (case dropWhile dead (slots ms) of [] \<Rightarrow> None | it # _ \<Rightarrow> mbi_instance it)"
proof -
  have "peek_loop ms is = (case dropWhile dead (map (\<lambda>i. ms_item ms (word_of_nat i)) is) of [] \<Rightarrow> None | it # _ \<Rightarrow> mbi_instance it)" for "is"
    by (induction "is") (auto simp: dead_def Let_def)
  moreover have "map (\<lambda>i. ms_item ms (word_of_nat i)) [0..<unat (ms_len ms)] = slots ms"
    by (rule nth_equalityI) (auto simp: length_slots [OF assms] ms_item_slots [OF assms])
  ultimately have "mbuf_peek_dowork ms = (case dropWhile dead (slots ms) of [] \<Rightarrow> None | it # _ \<Rightarrow> mbi_instance it)"
    by (simp add: mbuf_peek_dowork_def)
  moreover have "slots ms = []" if "ms_len ms = 0" using that by (simp add: slots_def)
  ultimately show ?thesis by (auto simp: mbuf_peek_def mbuf_defined_def)
qed

section \<open>The ring as a bounded queue\<close>

text \<open>
  What the server does with the queue: a packet is stored and queued for some clients, the first packet is
  taken out, a client is forgotten. \<open>pick\<close> is the allocator, which returns an unused address.
\<close>

datatype mbuf_op = Send "u8 list" "nat list" | Take | Forget nat

fun add_loop :: "mbufs \<Rightarrow> mbuf_set \<Rightarrow> nat \<Rightarrow> nat list \<Rightarrow> (mbufs \<times> mbuf_set) option" where
  "add_loop mbs ms b [] = Some (mbs, ms)"
| "add_loop mbs ms b (i # is) =
     do { (mbs, ms) \<leftarrow> mbuf_add_item mbs ms \<lparr>mbi_buffer = Some b, mbi_instance = Some i\<rparr>; add_loop mbs ms b is }"

definition send_packet :: "(mbufs \<Rightarrow> nat) \<Rightarrow> mbufs \<Rightarrow> mbuf_set \<Rightarrow> u8 list \<Rightarrow> nat list \<Rightarrow> (mbufs \<times> mbuf_set) option" where
  "send_packet pick mbs ms p is =
     do { let b = pick mbs;
          mbs \<leftarrow> mbuf_alloc_buf mbs b p;
          (mbs, ms) \<leftarrow> add_loop mbs ms b is;
          mbs \<leftarrow> mbuf_free_buf mbs (Some b);
          Some (mbs, ms) }"

definition take_packet :: "mbufs \<Rightarrow> mbuf_set \<Rightarrow> ((nat \<times> u8 list) option \<times> mbufs \<times> mbuf_set) option" where
  "take_packet mbs ms =
     (case mbuf_extract_item ms of
        (None, ms) \<Rightarrow> Some (None, mbs, ms)
      | (Some item, ms) \<Rightarrow>
          do { i \<leftarrow> mbi_instance item;
               b \<leftarrow> mbi_buffer item;
               x \<leftarrow> mbs b;
               mbs \<leftarrow> mbuf_free_buf mbs (Some b);
               Some (Some (i, mb_buf x), mbs, ms) })"

fun mbuf_step :: "(mbufs \<Rightarrow> nat) \<Rightarrow> mbuf_op \<Rightarrow> mbufs \<times> mbuf_set \<Rightarrow> ((nat \<times> u8 list) option \<times> mbufs \<times> mbuf_set) option" where
  "mbuf_step pick (Send p is) (mbs, ms) = map_option (Pair None) (send_packet pick mbs ms p is)"
| "mbuf_step pick Take (mbs, ms) = take_packet mbs ms"
| "mbuf_step pick (Forget mi) (mbs, ms) = map_option (Pair None) (mbuf_dereference_instance mbs ms mi)"

fun mbuf_run :: "(mbufs \<Rightarrow> nat) \<Rightarrow> mbuf_op list \<Rightarrow> mbufs \<times> mbuf_set \<Rightarrow> (nat \<times> u8 list) option list option" where
  "mbuf_run pick [] s = Some []"
| "mbuf_run pick (x # xs) s = do { (out, s) \<leftarrow> mbuf_step pick x s; outs \<leftarrow> mbuf_run pick xs s; Some (out # outs) }"

text \<open>The specification: a list of clients with what they are sent, and \<open>None\<close> for the clients that are gone.\<close>

type_synonym packet_queue = "(nat \<times> u8 list) option list"

fun enqueue_all :: "nat \<Rightarrow> packet_queue \<Rightarrow> u8 list \<Rightarrow> nat list \<Rightarrow> packet_queue option" where
  "enqueue_all cap q p [] = Some q"
| "enqueue_all cap q p (i # is) = do { q \<leftarrow> enqueue (\<lambda>e. e = None) cap q (Some (i, p)); enqueue_all cap q p is }"

fun queue_step :: "nat \<Rightarrow> mbuf_op \<Rightarrow> packet_queue \<Rightarrow> ((nat \<times> u8 list) option \<times> packet_queue) option" where
  "queue_step cap (Send p is) q = map_option (Pair None) (enqueue_all cap q p is)"
| "queue_step cap Take q =
     (case dropWhile (\<lambda>e. e = None) q of [] \<Rightarrow> Some (None, []) | e # q' \<Rightarrow> Some (e, q'))"
| "queue_step cap (Forget mi) q = Some (None, map (\<lambda>e. if map_option fst e = Some mi then None else e) q)"

fun queue_run :: "nat \<Rightarrow> mbuf_op list \<Rightarrow> packet_queue \<Rightarrow> (nat \<times> u8 list) option list option" where
  "queue_run cap [] q = Some []"
| "queue_run cap (x # xs) q = do { (out, q) \<leftarrow> queue_step cap x q; outs \<leftarrow> queue_run cap xs q; Some (out # outs) }"

text \<open>The entry that an item stands for.\<close>

definition view :: "mbufs \<Rightarrow> mbuf_item \<Rightarrow> (nat \<times> u8 list) option" where
  "view mbs it = (case (mbi_instance it, mbi_buffer it) of
     (Some i, Some b) \<Rightarrow> map_option (\<lambda>x. (i, mb_buf x)) (mbs b) | _ \<Rightarrow> None)"

lemma queue_ok_live:
  assumes "queue_ok mbs ms H" "it \<in> set (slots ms)"
  shows "dead it \<longleftrightarrow> view mbs it = None"
    "\<not> dead it \<Longrightarrow> \<exists>b x i. mbi_buffer it = Some b \<and> mbs b = Some x \<and> mbi_instance it = Some i"
proof -
  have io: "mbi_instance it = None \<longleftrightarrow> mbi_buffer it = None" using assms by (auto simp: queue_ok_def items_ok_def)
  have "mbs b \<noteq> None" if "mbi_buffer it = Some b" for b
  proof -
    have "Some b \<in> set (map mbi_buffer (slots ms))" using assms(2) that by force
    then have "refs (slots ms) b \<noteq> 0" by (simp add: refs_def count_list_0_iff)
    then show ?thesis using counts_exactD(1) [of mbs "\<lambda>b. refs (slots ms) b + H b" b] assms(1) by (simp add: queue_ok_def)
  qed
  then show "dead it \<longleftrightarrow> view mbs it = None"
    "\<not> dead it \<Longrightarrow> \<exists>b x i. mbi_buffer it = Some b \<and> mbs b = Some x \<and> mbi_instance it = Some i"
    using io by (cases "mbi_buffer it"; cases "mbi_instance it"; force simp: dead_def view_def)+
qed

lemma view_same:
  assumes "queue_ok mbs' ms' H" "same_bufs mbs mbs'"
  shows "map (view mbs') (slots ms') = map (view mbs) (slots ms')"
proof (rule map_cong [OF refl])
  fix it assume it: "it \<in> set (slots ms')"
  show "view mbs' it = view mbs it"
  proof (cases "dead it")
    case True
    then show ?thesis by (simp add: view_def dead_def)
  next
    case False
    then obtain b x' i where b: "mbi_buffer it = Some b" "mbs' b = Some x'" "mbi_instance it = Some i"
      using queue_ok_live(2) [OF assms(1) it] by blast
    then obtain x where "mbs b = Some x" "mb_buf x = mb_buf x'" using assms(2) by (auto simp: same_bufs_def)
    then show ?thesis using b by (simp add: view_def)
  qed
qed

lemma dropWhile_dead:
  assumes "queue_ok mbs ms H"
  shows "dropWhile (\<lambda>e. e = None) (map (view mbs) (slots ms)) = map (view mbs) (dropWhile dead (slots ms))"
proof -
  have "dropWhile ((\<lambda>e. e = None) \<circ> view mbs) its = dropWhile dead its" if "set its \<subseteq> set (slots ms)" for its
    using that by (induction its) (auto simp: queue_ok_live(1) [OF assms])
  then show ?thesis by (simp add: dropWhile_map)
qed

lemma enqueue_view:
  assumes "queue_ok mbs ms H"
  shows "enqueue (\<lambda>e. e = None) cap (map (view mbs) (slots ms)) (view mbs it) =
    map_option (map (view mbs)) (enqueue dead cap (slots ms) it)"
proof (cases "dropWhile dead (slots ms)")
  case Nil
  show ?thesis unfolding enqueue_def dropWhile_dead [OF assms] Nil by simp
next
  case (Cons x xs)
  show ?thesis unfolding enqueue_def dropWhile_dead [OF assms] Cons by simp
qed

lemma add_loop_view:
  assumes "queue_ok mbs ms H" "0 < H b" "mbs b = Some x" "mb_buf x = p"
  shows "case enqueue_all (unat (ms_capacity ms)) (map (view mbs) (slots ms)) p is of
      None \<Rightarrow> add_loop mbs ms b is = None
    | Some q \<Rightarrow> \<exists>mbs' ms'. add_loop mbs ms b is = Some (mbs', ms') \<and> q = map (view mbs') (slots ms') \<and>
        queue_ok mbs' ms' H \<and> ms_capacity ms' = ms_capacity ms"
  using assms
proof (induction "is" arbitrary: mbs ms x)
  case (Cons i "is")
  let ?it = "\<lparr>mbi_buffer = Some b, mbi_instance = Some i\<rparr>" and ?cap = "unat (ms_capacity ms)"
  note add = add_item_queue [OF Cons.prems(1,2) refl, of i]
  have vi: "Some (i, p) = view mbs ?it" using Cons.prems(3,4) by (simp add: view_def)
  show ?case
  proof (cases "enqueue dead ?cap (slots ms) ?it")
    case None
    then show ?thesis using add by (simp add: vi enqueue_view [OF Cons.prems(1)])
  next
    case (Some its)
    then obtain mbs1 ms1 where m1: "mbuf_add_item mbs ms ?it = Some (mbs1, ms1)" "slots ms1 = its" "queue_ok mbs1 ms1 H"
      "same_bufs mbs mbs1" "ms_capacity ms1 = ms_capacity ms" using add by auto
    have v: "map (view mbs) its = map (view mbs1) (slots ms1)" using view_same [OF m1(3,4)] m1(2) by simp
    have "counts_exact mbs1 (\<lambda>b. refs (slots ms1) b + H b)" using m1(3) by (simp add: queue_ok_def)
    then obtain x1 where x1: "mbs1 b = Some x1" using counts_exactD(1) [of mbs1 "\<lambda>b. refs (slots ms1) b + H b" b] Cons.prems(2) by auto
    then have "mb_buf x1 = p" using m1(4) Cons.prems(3,4) unfolding same_bufs_def by fastforce
    moreover have al: "add_loop mbs ms b (i # is) = add_loop mbs1 ms1 b is" using m1(1) by simp
    ultimately show ?thesis using Cons.IH [OF m1(3) Cons.prems(2) x1, unfolded m1(5)] Some unfolding al by (simp add: vi enqueue_view [OF Cons.prems(1)] v)
  qed
qed auto

lemma send_view:
  assumes "queue_ok mbs ms (\<lambda>_. 0)" "mbs (pick mbs) = None"
  shows "case enqueue_all (unat (ms_capacity ms)) (map (view mbs) (slots ms)) p ids of
      None \<Rightarrow> send_packet pick mbs ms p ids = None
    | Some q \<Rightarrow> \<exists>mbs' ms'. send_packet pick mbs ms p ids = Some (mbs', ms') \<and> q = map (view mbs') (slots ms') \<and>
        queue_ok mbs' ms' (\<lambda>_. 0) \<and> ms_capacity ms' = ms_capacity ms"
proof -
  let ?b = "pick mbs" and ?x = "\<lparr>mb_buf = p, mb_refcount = 1, mb_flags = 0\<rparr>"
  let ?H = "\<lambda>c. if c = pick mbs then 1 else 0 :: nat"
  have ok: "ms_ok ms" "items_ok (slots ms)" "counts_exact mbs (\<lambda>b. refs (slots ms) b + 0)"
    using assms(1) by (auto simp: queue_ok_def)
  have r0: "refs (slots ms) ?b = 0" using counts_exactD(1) [OF ok(3), of ?b] assms(2) by simp
  have "(\<lambda>b. refs (slots ms) b + 0)(?b := 1) = (\<lambda>b. refs (slots ms) b + ?H b)" using r0 by (auto simp: fun_eq_iff)
  moreover have "counts_exact (mbs(?b \<mapsto> ?x)) ((\<lambda>b. refs (slots ms) b + 0)(?b := 1))"
    by (rule counts_update [OF ok(3)]) simp
  ultimately have q1: "queue_ok (mbs(?b \<mapsto> ?x)) ms ?H" using ok(1,2) by (simp add: queue_ok_def)
  have v: "map (view (mbs(?b \<mapsto> ?x))) (slots ms) = map (view mbs) (slots ms)"
  proof (rule map_cong [OF refl])
    fix it assume it: "it \<in> set (slots ms)"
    have "mbi_buffer it \<noteq> Some ?b" using r0 it by (force simp: refs_def count_list_0_iff)
    then show "view (mbs(?b \<mapsto> ?x)) it = view mbs it" by (auto simp: view_def split: option.splits)
  qed
  have "0 < ?H ?b" "(mbs(?b \<mapsto> ?x)) ?b = Some ?x" "mb_buf ?x = p" by simp_all
  note al = add_loop_view [OF q1 this, of ids, unfolded v]
  have alloc: "mbuf_alloc_buf mbs ?b p = Some (mbs(?b \<mapsto> ?x))" using assms(2) by (simp add: mbuf_alloc_buf_def)
  show ?thesis
  proof (cases "enqueue_all (unat (ms_capacity ms)) (map (view mbs) (slots ms)) p ids")
    case None
    then show ?thesis using al alloc by (simp add: send_packet_def Let_def)
  next
    case (Some q)
    then obtain mbs1 ms1 where m1: "add_loop (mbs(?b \<mapsto> ?x)) ms ?b ids = Some (mbs1, ms1)" "q = map (view mbs1) (slots ms1)"
      "queue_ok mbs1 ms1 ?H" "ms_capacity ms1 = ms_capacity ms" using al by auto
    have c1: "counts_exact mbs1 (\<lambda>b. refs (slots ms1) b + ?H b)" using m1(3) by (simp add: queue_ok_def)
    have "0 < refs (slots ms1) ?b + ?H ?b" by simp
    from free_buf_counts [OF c1 this] obtain mbs2 where mbs2: "mbuf_free_buf mbs1 (Some ?b) = Some mbs2"
      "counts_exact mbs2 ((\<lambda>b. refs (slots ms1) b + ?H b)(?b := refs (slots ms1) ?b + ?H ?b - 1))" "same_bufs mbs1 mbs2" by blast
    have "(\<lambda>b. refs (slots ms1) b + ?H b)(?b := refs (slots ms1) ?b + ?H ?b - 1) = (\<lambda>b. refs (slots ms1) b + 0)"
      by (rule ext) simp
    then have q2: "queue_ok mbs2 ms1 (\<lambda>_. 0)" using mbs2(2) m1(3) unfolding queue_ok_def by simp
    have "q = map (view mbs2) (slots ms1)" using m1(2) view_same [OF q2 mbs2(3)] by simp
    moreover have "send_packet pick mbs ms p ids = Some (mbs2, ms1)"
      using alloc m1(1) mbs2(1) by (simp add: send_packet_def Let_def)
    ultimately show ?thesis using Some q2 m1(4) by auto
  qed
qed

lemma take_view:
  assumes "queue_ok mbs ms (\<lambda>_. 0)"
  shows "\<exists>out mbs' ms'. take_packet mbs ms = Some (out, mbs', ms') \<and>
    queue_step cap Take (map (view mbs) (slots ms)) = Some (out, map (view mbs') (slots ms')) \<and>
    queue_ok mbs' ms' (\<lambda>_. 0) \<and> ms_capacity ms' = ms_capacity ms"
proof -
  have ok: "ms_ok ms" "items_ok (slots ms)" "counts_exact mbs (\<lambda>b. refs (slots ms) b + 0)"
    using assms by (auto simp: queue_ok_def)
  obtain ms1 where ms1: "mbuf_extract_item ms = (case dropWhile dead (slots ms) of [] \<Rightarrow> None | it # _ \<Rightarrow> Some it, ms1)"
    "slots ms1 = tl (dropWhile dead (slots ms))" "ms_ok ms1" "ms_capacity ms1 = ms_capacity ms"
    using extract_slots [OF ok(1)] by blast
  note rd = refs_dead [OF ok(2)]
  show ?thesis
  proof (cases "dropWhile dead (slots ms)")
    case Nil
    have "refs (slots ms) b = 0" for b using rd(1) [of b] unfolding Nil by simp
    then have "queue_ok mbs ms1 (\<lambda>_. 0)" using ok ms1(2,3) by (simp add: queue_ok_def Nil items_ok_def)
    moreover have "take_packet mbs ms = Some (None, mbs, ms1)" unfolding take_packet_def ms1(1) Nil by simp
    moreover have "queue_step cap Take (map (view mbs) (slots ms)) = Some (None, map (view mbs) (slots ms1))"
      unfolding queue_step.simps dropWhile_dead [OF assms] Nil ms1(2) by simp
    ultimately show ?thesis using ms1(4) by blast
  next
    case (Cons it its)
    have live: "\<not> dead it" using Cons by (auto simp: dropWhile_eq_Cons_conv)
    have "it \<in> set (slots ms)" using Cons by (metis list.set_intros(1) set_dropWhileD)
    from queue_ok_live(2) [OF assms this live] obtain b x i where
      b: "mbi_buffer it = Some b" "mbs b = Some x" "mbi_instance it = Some i" by blast
    have r: "refs (slots ms) d = (if d = b then 1 else 0) + refs its d" for d using rd(1) [of d] unfolding Cons by (auto simp: b(1))
    have "0 < refs (slots ms) b + 0" by (simp add: r)
    from free_buf_counts [OF ok(3) this] obtain mbs1 where mbs1: "mbuf_free_buf mbs (Some b) = Some mbs1"
      "counts_exact mbs1 ((\<lambda>b. refs (slots ms) b + 0)(b := refs (slots ms) b + 0 - 1))" "same_bufs mbs mbs1" by blast
    have "(\<lambda>b. refs (slots ms) b + 0)(b := refs (slots ms) b + 0 - 1) = (\<lambda>b. refs its b + 0)"
      by (rule ext) (simp add: r)
    moreover have "items_ok its" using rd(2) unfolding Cons by (simp add: items_ok_def)
    ultimately have q1: "queue_ok mbs1 ms1 (\<lambda>_. 0)" using mbs1(2) ms1(2,3) unfolding queue_ok_def Cons by simp
    have "take_packet mbs ms = Some (Some (i, mb_buf x), mbs1, ms1)"
      unfolding take_packet_def ms1(1) Cons list.case prod.case option.case b bind.bind_lunit mbs1(1) by (rule refl)
    moreover have "queue_step cap Take (map (view mbs) (slots ms)) = Some (Some (i, mb_buf x), map (view mbs1) (slots ms1))"
      using view_same [OF q1 mbs1(3)]
      unfolding queue_step.simps dropWhile_dead [OF assms] Cons ms1(2) list.map list.case list.sel by (simp add: view_def b)
    ultimately show ?thesis using q1 ms1(4) by blast
  qed
qed

definition allocates :: "(mbufs \<Rightarrow> nat) \<Rightarrow> bool" where
  "allocates pick \<longleftrightarrow> (\<forall>mbs. finite (dom mbs) \<longrightarrow> mbs (pick mbs) = None)"

lemma mbuf_step_view:
  assumes "queue_ok mbs ms (\<lambda>_. 0)" "allocates pick"
  shows "case queue_step (unat (ms_capacity ms)) x (map (view mbs) (slots ms)) of
      None \<Rightarrow> mbuf_step pick x (mbs, ms) = None
    | Some (out, q) \<Rightarrow> \<exists>mbs' ms'. mbuf_step pick x (mbs, ms) = Some (out, mbs', ms') \<and> q = map (view mbs') (slots ms') \<and>
        queue_ok mbs' ms' (\<lambda>_. 0) \<and> ms_capacity ms' = ms_capacity ms"
proof (cases x)
  case (Send p "is")
  have "mbs (pick mbs) = None" using assms by (simp add: queue_ok_def counts_exact_def allocates_def)
  from send_view [where mbs = mbs and ms = ms and pick = pick and p = p, OF assms(1) this, of "is"] show ?thesis
    unfolding Send queue_step.simps mbuf_step.simps
    by (cases "enqueue_all (unat (ms_capacity ms)) (map (view mbs) (slots ms)) p is") auto
next
  case Take
  from take_view [OF assms(1), of "unat (ms_capacity ms)"] show ?thesis unfolding Take mbuf_step.simps by auto
next
  case (Forget mi)
  obtain mbs' ms' where m: "mbuf_dereference_instance mbs ms mi = Some (mbs', ms')" "slots ms' = map (forget mi) (slots ms)"
    "queue_ok mbs' ms' (\<lambda>_. 0)" "same_bufs mbs mbs'" "ms_capacity ms' = ms_capacity ms"
    using dereference_queue [OF assms(1)] by blast
  have "view mbs (forget mi it) = (if map_option fst (view mbs it) = Some mi then None else view mbs it)"
    if it: "it \<in> set (slots ms)" for it
  proof (cases "dead it")
    case True
    then show ?thesis by (simp add: view_def dead_def forget_def)
  next
    case False
    then show ?thesis using queue_ok_live(2) [OF assms(1) it] by (auto simp: view_def forget_def)
  qed
  then have "map (view mbs) (map (forget mi) (slots ms)) =
      map (\<lambda>e. if map_option fst e = Some mi then None else e) (map (view mbs) (slots ms))" by simp
  then have "map (view mbs') (slots ms') = map (\<lambda>e. if map_option fst e = Some mi then None else e) (map (view mbs) (slots ms))"
    using view_same [OF m(3,4)] m(2) by simp
  then show ?thesis using m unfolding Forget by simp
qed

lemma mbuf_run_view:
  assumes "queue_ok mbs ms (\<lambda>_. 0)" "allocates pick"
  shows "mbuf_run pick xs (mbs, ms) = queue_run (unat (ms_capacity ms)) xs (map (view mbs) (slots ms))"
  using assms(1)
proof (induction xs arbitrary: mbs ms)
  case (Cons x xs)
  note st = mbuf_step_view [OF Cons.prems assms(2), of x]
  show ?case
  proof (cases "queue_step (unat (ms_capacity ms)) x (map (view mbs) (slots ms))")
    case None
    then show ?thesis using st by simp
  next
    case (Some r)
    obtain out q where r: "r = (out, q)" by (cases r)
    then obtain mbs' ms' where "mbuf_step pick x (mbs, ms) = Some (out, mbs', ms')" "q = map (view mbs') (slots ms')"
      "queue_ok mbs' ms' (\<lambda>_. 0)" "ms_capacity ms' = ms_capacity ms" using st Some by auto
    then show ?thesis using Some r Cons.IH [of mbs' ms'] by simp
  qed
qed simp

lemma mbuf_init_ok:
  assumes "mbuf_init junk n = Some ms" "n \<le> 2 ^ 31"
  shows "queue_ok Map.empty ms (\<lambda>_. 0)" "slots ms = []" "n \<le> unat (ms_capacity ms)"
proof -
  obtain c where c: "adjust_power_of_2 n = Some c" "ms = \<lparr>ms_head = 0, ms_len = 0, ms_capacity = word_of_nat c,
      ms_max_queued = 0, ms_array = map junk [0..<unat (word_of_nat c :: u32)]\<rparr>"
    using assms(1) by (auto simp: mbuf_init_def Let_def bind_eq_Some_conv)
  note a = adjust_power_of_2_Some [OF c(1)]
  obtain k where k: "c = 2 ^ k" using a(2) by blast
  have "c < 2 ^ 32" using a(3) assms(2) by (cases "n = 0") auto
  then have k32: "k < 32" unfolding k by (metis one_less_numeral_iff power_less_imp_less_exp semiring_norm(76))
  have w: "(word_of_nat c :: u32) = 2 ^ k" by (simp add: k)
  have u: "unat (word_of_nat c :: u32) = 2 ^ k" unfolding w by (rule unat_power_small [OF k32])
  show s: "slots ms = []" by (simp add: c(2) slots_def)
  have "(0 :: u32) < 2 ^ k" using unat_power_small [OF k32] by (simp add: word_less_nat_alt)
  then have "ms_ok ms" using k32 u w unfolding ms_ok_def c(2) by auto
  then show "queue_ok Map.empty ms (\<lambda>_. 0)" using s by (simp add: queue_ok_def items_ok_def counts_exact_def)
  show "n \<le> unat (ms_capacity ms)" using a(1) u k by (simp add: c(2))
qed

text \<open>
  C9. The ring of items with reference counts is a bounded queue: from an empty ring, every sequence of
  packets queued for clients, packets taken out and clients forgotten gives the packets, in the order and to
  the clients, that a list gives which drops its oldest entry when it is full. No packet is used after it
  was freed, and the two fail on the same sequences.
\<close>
theorem mbuf_refines_queue:
  assumes "mbuf_init junk n = Some ms" "n \<le> 2 ^ 31" "allocates pick"
  shows "mbuf_run pick ops (Map.empty, ms) = queue_run (unat (ms_capacity ms)) ops []"
  using mbuf_run_view [OF mbuf_init_ok(1) [OF assms(1,2)] assms(3)] mbuf_init_ok(2) [OF assms(1,2)] by simp

lemma allocates_least: "allocates (\<lambda>mbs. LEAST b. mbs b = None)"
  unfolding allocates_def
proof (intro allI impI)
  fix mbs :: mbufs
  assume "finite (dom mbs)"
  then have "\<exists>b. b \<notin> dom mbs" using ex_new_if_finite infinite_UNIV_nat by blast
  then have "\<exists>b. mbs b = None" by (auto simp: dom_def)
  then show "mbs (LEAST b. mbs b = None) = None" by (rule LeastI_ex)
qed

theorem mbuf_refines_queue_witness:
  "\<exists>ms. mbuf_init (\<lambda>_. \<lparr>mbi_buffer = None, mbi_instance = None\<rparr>) 2 = Some ms \<and>
    mbuf_run (\<lambda>mbs. LEAST b. mbs b = None) [Send [7] [1, 2, 3], Send [8] [4], Forget 3, Take, Take] (Map.empty, ms) =
      Some [None, None, None, Some (4, [8]), None]"
proof -
  let ?j = "\<lambda>_ :: nat. \<lparr>mbi_buffer = None, mbi_instance = None\<rparr>"
  have "mbuf_init ?j 2 = Some \<lparr>ms_head = 0, ms_len = 0, ms_capacity = 2, ms_max_queued = 0, ms_array = map ?j [0..<2]\<rparr>"
    by (simp add: mbuf_init_def adjust_power_of_2_def adjust_loop.simps)
  note r = this mbuf_refines_queue [OF this _ allocates_least]
  show ?thesis by (intro exI conjI, rule r(1), subst r(2)) (simp_all add: enqueue_def)
qed

text \<open>
  C40. When the ring is full and every item in it is of a client that has gone, adding a packet fails the
  assertion of \<^verbatim>\<open>mbuf_add_item\<close> that a packet can be dropped, and the server stops.
\<close>
theorem mbuf_add_item_asserts:
  assumes "ms_ok ms" "ms_len ms = ms_capacity ms" "\<forall>it \<in> set (slots ms). dead it"
  shows "mbuf_add_item mbs ms item = None"
proof -
  have e: "dropWhile dead (slots ms) = []" using assms(3) by simp
  obtain ms' where "mbuf_extract_item ms = (None, ms')" using extract_slots [OF assms(1)] unfolding e list.case by blast
  then show ?thesis using assms(2) by (simp add: mbuf_add_item_def mbuf_drop_oldest_def)
qed

definition demo_ring :: "mbufs \<times> mbuf_set" where
  "demo_ring = (Map.empty, \<lparr>ms_head = 0, ms_len = 0, ms_capacity = 1, ms_max_queued = 0,
     ms_array = [\<lparr>mbi_buffer = None, mbi_instance = None\<rparr>]\<rparr>)"

theorem mbuf_add_item_asserts_witness:
  "\<exists>mbs1 ms1 mbs2 ms2. mbuf_init (\<lambda>_. \<lparr>mbi_buffer = None, mbi_instance = None\<rparr>) 1 = Some (snd demo_ring) \<and>
    send_packet (\<lambda>_. 0) Map.empty (snd demo_ring) [7] [1] = Some (mbs1, ms1) \<and>
    mbuf_dereference_instance mbs1 ms1 1 = Some (mbs2, ms2) \<and>
    mbuf_add_item (mbs2(5 \<mapsto> \<lparr>mb_buf = [8], mb_refcount = 1, mb_flags = 0\<rparr>)) ms2
      \<lparr>mbi_buffer = Some 5, mbi_instance = Some 2\<rparr> = None"
proof -
  let ?ms = "\<lparr>ms_head = 0, ms_len = 1, ms_capacity = 1, ms_max_queued = 1,
    ms_array = [\<lparr>mbi_buffer = None, mbi_instance = None\<rparr>]\<rparr>"
  obtain mbs1 ms1 mbs2 where m: "mbuf_init (\<lambda>_. \<lparr>mbi_buffer = None, mbi_instance = None\<rparr>) 1 = Some (snd demo_ring)"
    "send_packet (\<lambda>_. 0) Map.empty (snd demo_ring) [7] [1] = Some (mbs1, ms1)"
    "mbuf_dereference_instance mbs1 ms1 1 = Some (mbs2, ?ms)"
    by (auto simp: demo_ring_def mbuf_init_def adjust_power_of_2_def adjust_loop.simps send_packet_def mbuf_alloc_buf_def
      mbuf_add_item_def mbuf_append_def mbuf_free_buf_def MBUF_INDEX_def mbuf_dereference_instance_def ms_item_def Let_def)
  have "ms_ok ?ms" "\<forall>it \<in> set (slots ?ms). dead it" by (auto simp: ms_ok_def slots_def dead_def intro: exI [of _ 0])
  from mbuf_add_item_asserts [OF this(1) _ this(2)] show ?thesis
    using m by (intro exI [of _ mbs1] exI [of _ ms1] exI [of _ mbs2] exI [of _ ?ms]) simp
qed

end
