(* ===== verification/Mroute.thy ===== *)
theory Mroute
  imports Inner_Packet Hash_Table
begin

text \<open>
  Addresses of the multi-client server, \<^verbatim>\<open>mroute.h\<close> and \<^verbatim>\<open>mroute.c\<close>: the keys of its hash tables, the
  addresses of packets, networks and their masks, and the helper that counts the prefix lengths in
  use. Of \<^verbatim>\<open>raw_addr\<close>, \<open>ma_raw\<close> holds the first \<^verbatim>\<open>len\<close> bytes, which are all that is read, in the order of
  memory. The lemmas show that keys may be hashed and compared, which bits masking keeps, and that
  the helper lists the lengths in use from the longest on.
\<close>

section \<open>Addresses\<close>

definition MR_ADDR_NONE :: u8 where "MR_ADDR_NONE = 0"
definition MR_ADDR_ETHER :: u8 where "MR_ADDR_ETHER = 1"
definition MR_ADDR_IPV4 :: u8 where "MR_ADDR_IPV4 = 2"
definition MR_ADDR_IPV6 :: u8 where "MR_ADDR_IPV6 = 3"
definition MR_ADDR_MASK :: u8 where "MR_ADDR_MASK = 3"
definition MR_WITH_PORT :: u8 where "MR_WITH_PORT = 4"
definition MR_WITH_NETBITS :: u8 where "MR_WITH_NETBITS = 8"

lemmas mr_defs = MR_ADDR_NONE_def MR_ADDR_ETHER_def MR_ADDR_IPV4_def MR_ADDR_IPV6_def MR_ADDR_MASK_def
  MR_WITH_PORT_def MR_WITH_NETBITS_def

record mroute_addr =
  ma_type :: u8
  ma_netbits :: u8
  ma_raw :: "u8 list"

definition mroute_addr_init :: mroute_addr where
  "mroute_addr_init = \<lparr>ma_type = MR_ADDR_NONE, ma_netbits = 0, ma_raw = []\<rparr>"

definition mroute_addr_reset :: "mroute_addr \<Rightarrow> mroute_addr" where
  "mroute_addr_reset ma = ma\<lparr>ma_raw := [], ma_type := MR_ADDR_NONE\<rparr>"

definition mroute_addr_equal :: "mroute_addr \<Rightarrow> mroute_addr \<Rightarrow> bool" where
  "mroute_addr_equal a1 a2 =
     (if ma_type a1 \<noteq> ma_type a2 then False
      else if ma_netbits a1 \<noteq> ma_netbits a2 then False
      else if length (ma_raw a1) \<noteq> length (ma_raw a2) then False
      else ma_raw a1 = ma_raw a2)"

text \<open>The bytes from \<^verbatim>\<open>&a->type\<close> on, \<^verbatim>\<open>len + 2\<close> of them.\<close>

definition mroute_addr_hash_bytes :: "mroute_addr \<Rightarrow> u8 list" where
  "mroute_addr_hash_bytes a = ma_type a # ma_netbits a # ma_raw a"

definition mroute_addr_hash_function :: "mroute_addr \<Rightarrow> u32 \<Rightarrow> u32" where
  "mroute_addr_hash_function key iv = hash_func (mroute_addr_hash_bytes key) iv"

definition mroute_addr_compare_function :: "mroute_addr \<Rightarrow> mroute_addr \<Rightarrow> bool" where
  "mroute_addr_compare_function key1 key2 = mroute_addr_equal key1 key2"

definition is_mac_mcast_addr :: "u8 list \<Rightarrow> bool" where
  "is_mac_mcast_addr mac \<longleftrightarrow> mac ! 0 AND 1 \<noteq> 0"

definition is_mac_mcast_maddr :: "mroute_addr \<Rightarrow> bool" where
  "is_mac_mcast_maddr addr \<longleftrightarrow>
     ma_type addr AND MR_ADDR_MASK = MR_ADDR_ETHER \<and> is_mac_mcast_addr (ma_raw addr)"

text \<open>The flags of the loop, \<^verbatim>\<open>all_zeros\<close> and \<^verbatim>\<open>all_ones\<close>.\<close>

fun all_loop :: "u8 list \<Rightarrow> bool \<Rightarrow> bool \<Rightarrow> bool \<times> bool" where
  "all_loop [] all_zeros all_ones = (all_zeros, all_ones)"
| "all_loop (b # bs) all_zeros all_ones =
     all_loop bs (if b \<noteq> 0x00 then False else all_zeros) (if b \<noteq> 0xFF then False else all_ones)"

definition mroute_learnable_address :: "mroute_addr \<Rightarrow> bool" where
  "mroute_learnable_address addr =
     (case all_loop (ma_raw addr) True True of
        (all_zeros, all_ones) \<Rightarrow>
          if all_zeros \<and> \<not> (ma_type addr AND MR_WITH_NETBITS \<noteq> 0 \<and> ma_netbits addr < 8) then False
          else if all_ones then False
          else if is_mac_mcast_maddr addr then False
          else True)"

section \<open>Addresses of packets and peers\<close>

definition MROUTE_EXTRACT_SUCCEEDED :: u32 where "MROUTE_EXTRACT_SUCCEEDED = push_bit 0 1"
definition MROUTE_EXTRACT_BCAST :: u32 where "MROUTE_EXTRACT_BCAST = push_bit 1 1"
definition MROUTE_EXTRACT_MCAST :: u32 where "MROUTE_EXTRACT_MCAST = push_bit 2 1"
definition MROUTE_EXTRACT_IGMP :: u32 where "MROUTE_EXTRACT_IGMP = push_bit 3 1"

definition IP_MCAST_SUBNET_MASK :: u32 where "IP_MCAST_SUBNET_MASK = push_bit 24 240"
definition IP_MCAST_NETWORK :: u32 where "IP_MCAST_NETWORK = push_bit 24 224"
definition OPENVPN_IPPROTO_IGMP :: u8 where "OPENVPN_IPPROTO_IGMP = 2"

text \<open>A null pointer to the destination is \<open>None\<close>.\<close>

definition mroute_get_in_addr_t :: "mroute_addr option \<Rightarrow> u8 list \<Rightarrow> u8 \<Rightarrow> mroute_addr option" where
  "mroute_get_in_addr_t ma src msk =
     map_option (\<lambda>ma. ma\<lparr>ma_type := MR_ADDR_IPV4 OR msk, ma_netbits := 0, ma_raw := src\<rparr>) ma"

definition mroute_get_in6_addr :: "mroute_addr option \<Rightarrow> u8 list \<Rightarrow> u8 \<Rightarrow> mroute_addr option" where
  "mroute_get_in6_addr ma src msk =
     map_option (\<lambda>ma. ma\<lparr>ma_type := MR_ADDR_IPV6 OR msk, ma_netbits := 0, ma_raw := src\<rparr>) ma"

definition mroute_is_mcast :: "u8 list \<Rightarrow> bool" where
  "mroute_is_mcast addr \<longleftrightarrow> of_be32 addr AND IP_MCAST_SUBNET_MASK = IP_MCAST_NETWORK"

definition mroute_is_mcast_ipv6 :: "u8 list \<Rightarrow> bool" where
  "mroute_is_mcast_ipv6 addr \<longleftrightarrow> addr ! 0 = 0xff"

text \<open>The content of the buffer is the list \<open>p\<close>; the addresses written and the flags.\<close>

definition mroute_extract_addr_ip :: "mroute_addr option \<Rightarrow> mroute_addr option \<Rightarrow> u8 list \<Rightarrow>
    mroute_addr option \<times> mroute_addr option \<times> u32" where
  "mroute_extract_addr_ip src dest p =
     (if length p \<ge> 1
      then if OPENVPN_IPH_GET_VER (p ! 0) = 4
        then if length p \<ge> sizeof_iphdr
          then let saddr = take 4 (drop 12 p); daddr = take 4 (drop 16 p);
                   ret = 0;
                   ret = (if mroute_is_mcast daddr then ret OR MROUTE_EXTRACT_MCAST else ret);
                   ret = (if p ! 9 = OPENVPN_IPPROTO_IGMP then ret OR MROUTE_EXTRACT_IGMP else ret)
               in (mroute_get_in_addr_t src saddr 0, mroute_get_in_addr_t dest daddr 0,
                   ret OR MROUTE_EXTRACT_SUCCEEDED)
          else (src, dest, 0)
        else if OPENVPN_IPH_GET_VER (p ! 0) = 6
        then if length p \<ge> sizeof_ipv6hdr
          then let saddr = take 16 (drop 8 p); daddr = take 16 (drop 24 p);
                   ret = (if mroute_is_mcast_ipv6 daddr then MROUTE_EXTRACT_MCAST else 0)
               in (mroute_get_in6_addr src saddr 0, mroute_get_in6_addr dest daddr 0,
                   ret OR MROUTE_EXTRACT_SUCCEEDED)
          else (src, dest, 0)
        else (src, dest, 0)
      else (src, dest, 0))"

text \<open>The VLAN id is stored in the byte order of the host.\<close>

definition mroute_copy_ether_to_addr :: "mroute_addr \<Rightarrow> u8 list \<Rightarrow> u16 \<Rightarrow> mroute_addr" where
  "mroute_copy_ether_to_addr maddr ether_addr vid =
     maddr\<lparr>ma_type := MR_ADDR_ETHER, ma_netbits := 0, ma_raw := ether_addr @ [ucast vid, ucast (drop_bit 8 vid)]\<rparr>"

definition mroute_extract_addr_ether :: "mroute_addr option \<Rightarrow> mroute_addr option \<Rightarrow> u16 \<Rightarrow> u8 list \<Rightarrow>
    mroute_addr option \<times> mroute_addr option \<times> u32" where
  "mroute_extract_addr_ether src dest vid p =
     (if length p \<ge> sizeof_ethhdr
      then let eth_dest = take 6 p; eth_source = take 6 (drop 6 p);
               ret = (if dest \<noteq> None \<and> is_mac_mcast_addr eth_dest then MROUTE_EXTRACT_BCAST else 0)
           in (map_option (\<lambda>ma. mroute_copy_ether_to_addr ma eth_source vid) src,
               map_option (\<lambda>ma. mroute_copy_ether_to_addr ma eth_dest vid) dest,
               ret OR MROUTE_EXTRACT_SUCCEEDED)
      else (src, dest, 0))"

definition mroute_extract_addr_from_packet :: "mroute_addr option \<Rightarrow> mroute_addr option \<Rightarrow> u16 \<Rightarrow> u8 list \<Rightarrow>
    dev_type \<Rightarrow> mroute_addr option \<times> mroute_addr option \<times> u32" where
  "mroute_extract_addr_from_packet src dest vid p tunnel_type =
     (case tunnel_type of
        DEV_TYPE_TUN \<Rightarrow> mroute_extract_addr_ip src dest p
      | DEV_TYPE_TAP \<Rightarrow> mroute_extract_addr_ether src dest vid p
      | DEV_TYPE_OTHER \<Rightarrow> (src, dest, 0))"

text \<open>The address of a peer: its family, address and port in network byte order.\<close>

datatype openvpn_sockaddr =
    AF_INET "u8 list" "u8 list"
  | AF_INET6 "u8 list" "u8 list"
  | AF_OTHER

fun mroute_extract_openvpn_sockaddr :: "mroute_addr \<Rightarrow> openvpn_sockaddr \<Rightarrow> bool \<Rightarrow> mroute_addr option" where
  "mroute_extract_openvpn_sockaddr addr (AF_INET a port) use_port =
     (if use_port then Some (addr\<lparr>ma_type := MR_ADDR_IPV4 OR MR_WITH_PORT, ma_netbits := 0, ma_raw := a @ port\<rparr>)
      else Some (addr\<lparr>ma_type := MR_ADDR_IPV4, ma_netbits := 0, ma_raw := a\<rparr>))"
| "mroute_extract_openvpn_sockaddr addr (AF_INET6 a port) use_port =
     (if use_port then Some (addr\<lparr>ma_type := MR_ADDR_IPV6 OR MR_WITH_PORT, ma_netbits := 0, ma_raw := a @ port\<rparr>)
      else Some (addr\<lparr>ma_type := MR_ADDR_IPV6, ma_netbits := 0, ma_raw := a\<rparr>))"
| "mroute_extract_openvpn_sockaddr addr AF_OTHER use_port = None"

definition mroute_extract_in_addr_t :: "mroute_addr \<Rightarrow> u32 \<Rightarrow> mroute_addr" where
  "mroute_extract_in_addr_t dest src = dest\<lparr>ma_type := MR_ADDR_IPV4, ma_netbits := 0, ma_raw := be32 src\<rparr>"

definition in_addr_t_from_mroute_addr :: "mroute_addr \<Rightarrow> u32" where
  "in_addr_t_from_mroute_addr addr =
     (if ma_type addr AND MR_ADDR_MASK = MR_ADDR_IPV4 \<and> ma_netbits addr = 0 \<and> length (ma_raw addr) = 4
      then of_be32 (ma_raw addr) else 0)"

section \<open>Networks\<close>

definition IPV4_NETMASK_HOST :: u32 where "IPV4_NETMASK_HOST = 0xffffffff"

definition netbits_to_netmask :: "int \<Rightarrow> u32" where
  "netbits_to_netmask netbits =
     (if netbits > 0 \<and> netbits \<le> 32 then push_bit (nat (32 - netbits)) IPV4_NETMASK_HOST else 0)"

text \<open>The loop of \<^verbatim>\<open>netmask_to_netbits\<close>.\<close>

function netmask_loop :: "u32 \<Rightarrow> int \<Rightarrow> int option" where
  "netmask_loop netmask i =
     (if i \<le> 32
      then if netbits_to_netmask i = netmask then (if i = 32 then Some (- 1) else Some i)
           else netmask_loop netmask (i + 1)
      else None)"
  by pat_completeness auto

termination
  by (relation "measure (\<lambda>(netmask, i). nat (33 - i))") auto

declare netmask_loop.simps [simp del]

text \<open>\<open>None\<close> is the result \<^verbatim>\<open>false\<close>.\<close>

definition netmask_to_netbits :: "u32 \<Rightarrow> u32 \<Rightarrow> int option" where
  "netmask_to_netbits network netmask =
     (if network AND netmask = network then netmask_loop netmask 0 else None)"

text \<open>The loop over the bytes of an IPv6 address, from the last on; \<open>Suc byte\<close> stands for \<^verbatim>\<open>byte\<close>.\<close>

fun clear_loop :: "nat \<Rightarrow> int \<Rightarrow> u8 list \<Rightarrow> int \<times> u8 list" where
  "clear_loop 0 bits_to_clear addr = (bits_to_clear, addr)"
| "clear_loop (Suc byte) bits_to_clear addr =
     (if bits_to_clear > 0
      then if bits_to_clear \<ge> 8 then clear_loop byte (bits_to_clear - 8) (addr[byte := 0])
           else clear_loop byte 0 (addr[byte := addr ! byte AND ucast (push_bit (nat bits_to_clear) IPV4_NETMASK_HOST)])
      else (bits_to_clear, addr))"

definition mroute_addr_mask_host_bits :: "mroute_addr \<Rightarrow> mroute_addr option" where
  "mroute_addr_mask_host_bits ma =
     (if ma_type ma AND MR_ADDR_MASK = MR_ADDR_IPV4
      then let addr = of_be32 (take 4 (ma_raw ma)) AND netbits_to_netmask (uint (ma_netbits ma))
           in Some (ma\<lparr>ma_raw := be32 addr @ drop 4 (ma_raw ma)\<rparr>)
      else if ma_type ma AND MR_ADDR_MASK = MR_ADDR_IPV6
      then case clear_loop 16 (128 - uint (ma_netbits ma)) (ma_raw ma) of
             (bits_to_clear, addr) \<Rightarrow> if bits_to_clear = 0 then Some (ma\<lparr>ma_raw := addr\<rparr>) else None
      else None)"

section \<open>The prefix lengths in use\<close>

definition MR_HELPER_NET_LEN :: nat where "MR_HELPER_NET_LEN = 129"

record mroute_helper =
  mh_cache_generation :: u32
  mh_ageable_ttl_secs :: int
  mh_n_net_len :: nat
  mh_net_len :: "u8 list"
  mh_net_len_refcount :: "int list"

definition mroute_helper_init :: "int \<Rightarrow> mroute_helper" where
  "mroute_helper_init ageable_ttl_secs =
     \<lparr>mh_cache_generation = 0, mh_ageable_ttl_secs = ageable_ttl_secs, mh_n_net_len = 0,
      mh_net_len = replicate MR_HELPER_NET_LEN 0, mh_net_len_refcount = replicate MR_HELPER_NET_LEN 0\<rparr>"

text \<open>The loop from length \<open>i - 1\<close> down to 0, with the number \<open>j\<close> of lengths written.\<close>

fun regenerate_loop :: "nat \<Rightarrow> nat \<Rightarrow> mroute_helper \<Rightarrow> mroute_helper" where
  "regenerate_loop 0 j mh = mh\<lparr>mh_n_net_len := j\<rparr>"
| "regenerate_loop (Suc i) j mh =
     (if mh_net_len_refcount mh ! i > 0
      then regenerate_loop i (j + 1) (mh\<lparr>mh_net_len := (mh_net_len mh)[j := word_of_nat i]\<rparr>)
      else regenerate_loop i j mh)"

definition mroute_helper_regenerate :: "mroute_helper \<Rightarrow> mroute_helper" where
  "mroute_helper_regenerate mh = regenerate_loop MR_HELPER_NET_LEN 0 mh"

definition mroute_helper_add_iroute46 :: "mroute_helper \<Rightarrow> int \<Rightarrow> mroute_helper option" where
  "mroute_helper_add_iroute46 mh netbits =
     (if netbits \<ge> 0
      then if netbits < int MR_HELPER_NET_LEN
           then let k = nat netbits;
                    mh = mh\<lparr>mh_cache_generation := mh_cache_generation mh + 1\<rparr>;
                    mh = mh\<lparr>mh_net_len_refcount := (mh_net_len_refcount mh)[k := mh_net_len_refcount mh ! k + 1]\<rparr>
                in if mh_net_len_refcount mh ! k = 1 then Some (mroute_helper_regenerate mh) else Some mh
           else None
      else Some mh)"

definition mroute_helper_del_iroute46 :: "mroute_helper \<Rightarrow> int \<Rightarrow> mroute_helper option" where
  "mroute_helper_del_iroute46 mh netbits =
     (if netbits \<ge> 0
      then if netbits < int MR_HELPER_NET_LEN
           then let k = nat netbits;
                    mh = mh\<lparr>mh_cache_generation := mh_cache_generation mh + 1\<rparr>;
                    mh = mh\<lparr>mh_net_len_refcount := (mh_net_len_refcount mh)[k := mh_net_len_refcount mh ! k - 1]\<rparr>
                in if mh_net_len_refcount mh ! k \<ge> 0
                   then if mh_net_len_refcount mh ! k = 0 then Some (mroute_helper_regenerate mh) else Some mh
                   else None
           else None
      else Some mh)"

section \<open>Keys of the hash tables\<close>

lemma mroute_addr_equal_iff [simp]: "mroute_addr_equal a b \<longleftrightarrow> a = b"
  by (auto simp: mroute_addr_equal_def)

lemma mroute_compare_iff [simp]: "mroute_addr_compare_function = (=)"
  by (intro ext) (simp add: mroute_addr_compare_function_def)

lemma mroute_functions_ok: "functions_ok mroute_addr_hash_function mroute_addr_compare_function"
  by (simp add: functions_ok_def identity_equivp)

lemma all_loop_eq: "all_loop bs z o1 = (z \<and> list_all ((=) 0) bs, o1 \<and> list_all ((=) 0xFF) bs)"
  by (induction bs arbitrary: z o1) auto

section \<open>The bits of an address\<close>

text \<open>Bit \<open>i\<close> of an address, counted from the most significant bit of its first byte.\<close>

definition addr_bit :: "u8 list \<Rightarrow> nat \<Rightarrow> bool" where
  "addr_bit raw i = bit (raw ! (i div 8)) (7 - i mod 8)"

lemma addr_bits_eq:
  assumes "length r = length s" "\<And>i. i < 8 * length r \<Longrightarrow> addr_bit r i = addr_bit s i"
  shows "r = s"
proof (rule nth_equalityI [OF assms(1)])
  fix k assume k: "k < length r"
  show "r ! k = s ! k"
  proof (rule bit_word_eqI)
    fix n assume "n < LENGTH(8)"
    then have n: "n < 8" by simp
    define m where "m = 7 - n"
    have m: "m < 8" "7 - m = n" using n by (auto simp: m_def)
    then have "8 * k + m < 8 * length r" "(8 * k + m) div 8 = k" "(8 * k + m) mod 8 = m"
      using k by auto
    then show "bit (r ! k) n = bit (s ! k) n" using assms(2) [of "8 * k + m"] m(2) by (simp add: addr_bit_def)
  qed
qed

lemma addr_bit_update: "k \<noteq> i div 8 \<Longrightarrow> addr_bit (raw[k := v]) i = addr_bit raw i"
  by (simp add: addr_bit_def)

lemma host_mask_bit: "bit IPV4_NETMASK_HOST n \<longleftrightarrow> n < 32"
proof -
  have "IPV4_NETMASK_HOST = (mask 32 :: u32)" by (simp add: IPV4_NETMASK_HOST_def mask_eq_exp_minus_1)
  then show ?thesis unfolding \<open>IPV4_NETMASK_HOST = mask 32\<close> by (auto simp: bit_simps)
qed

lemma mask_byte_bit:
  assumes "b < 8" "j < 8"
  shows "bit (ucast (push_bit b IPV4_NETMASK_HOST) :: u8) j \<longleftrightarrow> b \<le> j"
  using assms by (auto simp: bit_simps host_mask_bit)

lemma clear_loop_spec:
  assumes "n \<le> length raw" "0 \<le> b" "b \<le> 8 * int n"
  shows "\<exists>r. clear_loop n b raw = (0, r) \<and> length r = length raw \<and>
    (\<forall>i < 8 * n. addr_bit r i \<longleftrightarrow> int i < 8 * int n - b \<and> addr_bit raw i) \<and> (\<forall>k \<ge> n. r ! k = raw ! k)"
  using assms
proof (induction n arbitrary: b raw)
  case (Suc n)
  consider "b = 0" | "0 < b" "b < 8" | "8 \<le> b" using Suc.prems(2) by linarith
  then show ?case
  proof cases
    case 1
    then show ?thesis by auto
  next
    case 2
    define v where "v = raw ! n AND ucast (push_bit (nat b) IPV4_NETMASK_HOST)"
    have "clear_loop n 0 (raw[n := v]) = (0, raw[n := v])" by (cases n) auto
    then have c: "clear_loop (Suc n) b raw = (0, raw[n := v])" using 2 by (simp add: v_def)
    have "addr_bit (raw[n := v]) i \<longleftrightarrow> int i < 8 * int (Suc n) - b \<and> addr_bit raw i" if "i < 8 * Suc n" for i
    proof (cases "i div 8 = n")
      case True
      then have i: "i = 8 * n + i mod 8" using div_mult_mod_eq [of i 8] by simp
      have "n < length raw" using Suc.prems(1) by simp
      moreover have "bit v (7 - i mod 8) \<longleftrightarrow> bit (raw ! n) (7 - i mod 8) \<and> nat b \<le> 7 - i mod 8"
        using mask_byte_bit [of "nat b" "7 - i mod 8"] 2 by (auto simp: v_def bit_and_iff)
      moreover have "nat b \<le> 7 - i mod 8 \<longleftrightarrow> int i < 8 * int (Suc n) - b"
      proof -
        have "int i = 8 * int n + int (i mod 8)" "i mod 8 < 8" using i by (simp_all flip: of_nat_add of_nat_mult)
        then show ?thesis using 2 by auto
      qed
      ultimately show ?thesis using True by (auto simp: addr_bit_def)
    next
      case False
      have "i < 8 * n"
      proof (rule ccontr)
        assume "\<not> i < 8 * n"
        then have "i div 8 = n" using that by auto
        then show False using False by simp
      qed
      then show ?thesis using False 2 by (auto simp: addr_bit_update)
    qed
    then show ?thesis using c by auto
  next
    case 3
    have n: "n \<le> length (raw[n := 0])" "n < length raw" using Suc.prems(1) by auto
    obtain r where r: "clear_loop n (b - 8) (raw[n := 0]) = (0, r)" "length r = length raw"
      "\<And>i. i < 8 * n \<Longrightarrow> addr_bit r i \<longleftrightarrow> int i < 8 * int n - (b - 8) \<and> addr_bit (raw[n := 0]) i"
      "\<And>k. k \<ge> n \<Longrightarrow> r ! k = raw[n := 0] ! k"
      using Suc.IH [OF n(1), of "b - 8"] 3 Suc.prems(3) by auto
    have "addr_bit r i \<longleftrightarrow> int i < 8 * int (Suc n) - b \<and> addr_bit raw i" if "i < 8 * Suc n" for i
    proof (cases "i < 8 * n")
      case True
      then have "n \<noteq> i div 8" by auto
      then show ?thesis using r(3) [OF True] by (auto simp: addr_bit_update)
    next
      case False
      then have "i div 8 = n" using that by auto
      then show ?thesis using r(4) [of n] n(2) False 3 by (auto simp: addr_bit_def)
    qed
    moreover have "r ! k = raw ! k" if "k \<ge> Suc n" for k using r(4) [of k] that by auto
    ultimately show ?thesis using r(1,2) 3 by auto
  qed
qed auto

lemma addr_bit_be32: "i < 32 \<Longrightarrow> addr_bit (be32 w) i = bit w (31 - i)"
proof -
  assume i: "i < 32"
  have e: "i = 8 * (i div 8) + i mod 8" by simp
  have l: "7 - j < (8 :: nat)" for j by simp
  have "i div 8 = 0 \<or> i div 8 = 1 \<or> i div 8 = 2 \<or> i div 8 = 3" using i by linarith
  then show ?thesis
  proof (elim disjE)
    assume d: "i div 8 = 0"
    then have "31 - i = 24 + (7 - i mod 8)" using e by linarith
    then show ?thesis using d l [of "i mod 8"] by (simp add: addr_bit_def be32_def bit_simps)
  next
    assume d: "i div 8 = 1"
    then have "31 - i = 16 + (7 - i mod 8)" using e by linarith
    then show ?thesis using d l [of "i mod 8"] by (simp add: addr_bit_def be32_def bit_simps)
  next
    assume d: "i div 8 = 2"
    then have "31 - i = 8 + (7 - i mod 8)" using e by linarith
    then show ?thesis using d l [of "i mod 8"] by (simp add: addr_bit_def be32_def bit_simps)
  next
    assume d: "i div 8 = 3"
    then have "31 - i = 7 - i mod 8" using e by linarith
    then show ?thesis using d l [of "i mod 8"] by (simp add: addr_bit_def be32_def bit_simps)
  qed
qed

lemma netmask_bit:
  assumes "0 \<le> n" "n \<le> 32" "i < 32"
  shows "bit (netbits_to_netmask n) (31 - i) \<longleftrightarrow> int i < n"
  using assms by (auto simp: netbits_to_netmask_def bit_simps host_mask_bit)

text \<open>An IPv4 or IPv6 address without port.\<close>

definition ip_addr :: "mroute_addr \<Rightarrow> bool" where
  "ip_addr a \<longleftrightarrow> ma_type a AND MR_ADDR_MASK = MR_ADDR_IPV4 \<and> length (ma_raw a) = 4 \<or>
     ma_type a AND MR_ADDR_MASK = MR_ADDR_IPV6 \<and> length (ma_raw a) = 16"

lemma mask_host_bits_spec:
  assumes "ip_addr a" "unat (ma_netbits a) \<le> 8 * length (ma_raw a)"
  shows "\<exists>r. mroute_addr_mask_host_bits a = Some (a\<lparr>ma_raw := r\<rparr>) \<and> length r = length (ma_raw a) \<and>
    (\<forall>i < 8 * length r. addr_bit r i \<longleftrightarrow> i < unat (ma_netbits a) \<and> addr_bit (ma_raw a) i)"
proof -
  consider "ma_type a AND MR_ADDR_MASK = MR_ADDR_IPV4" "length (ma_raw a) = 4"
    | "ma_type a AND MR_ADDR_MASK = MR_ADDR_IPV6" "length (ma_raw a) = 16"
    using assms(1) by (auto simp: ip_addr_def)
  then show ?thesis
  proof cases
    case 1
    have u: "int (unat (ma_netbits a)) = uint (ma_netbits a)" by simp
    have n: "0 \<le> uint (ma_netbits a)" "uint (ma_netbits a) \<le> 32" using assms(2) 1(2) u by linarith+
    have "addr_bit (be32 (of_be32 (ma_raw a) AND netbits_to_netmask (uint (ma_netbits a)))) i \<longleftrightarrow>
        i < unat (ma_netbits a) \<and> addr_bit (ma_raw a) i" if i: "i < 32" for i
    proof -
      have "addr_bit (ma_raw a) i = bit (of_be32 (ma_raw a)) (31 - i)"
        using addr_bit_be32 [OF i, of "of_be32 (ma_raw a)"] be32_of_be32 [OF 1(2)] by simp
      moreover have "int i < uint (ma_netbits a) \<longleftrightarrow> i < unat (ma_netbits a)" using u by linarith
      ultimately show ?thesis using addr_bit_be32 [OF i] netmask_bit [OF n i] by (auto simp: bit_and_iff)
    qed
    then show ?thesis using 1 by (intro exI [of _ "be32 (of_be32 (ma_raw a) AND netbits_to_netmask (uint (ma_netbits a)))"])
        (simp add: mroute_addr_mask_host_bits_def)
  next
    case 2
    have u: "int (unat (ma_netbits a)) = uint (ma_netbits a)" by simp
    have b: "0 \<le> 128 - uint (ma_netbits a)" "128 - uint (ma_netbits a) \<le> 8 * int 16" "16 \<le> length (ma_raw a)"
      using assms(2) 2(2) u by linarith+
    obtain r where r: "clear_loop 16 (128 - uint (ma_netbits a)) (ma_raw a) = (0, r)" "length r = length (ma_raw a)"
      "\<forall>i < 8 * 16. addr_bit r i \<longleftrightarrow> int i < 8 * int 16 - (128 - uint (ma_netbits a)) \<and> addr_bit (ma_raw a) i"
      using clear_loop_spec [OF b(3,1,2)] by blast
    have t: "ma_type a AND MR_ADDR_MASK \<noteq> MR_ADDR_IPV4" using 2(1) by (simp add: mr_defs)
    have "int i < 8 * int 16 - (128 - uint (ma_netbits a)) \<longleftrightarrow> i < unat (ma_netbits a)" for i
      using u by linarith
    then show ?thesis using r 2 t by (intro exI [of _ r]) (simp add: mroute_addr_mask_host_bits_def)
  qed
qed

text \<open>A length that is too large for an IPv4 address masks it to zero.\<close>

lemma mask_host_bits_total:
  assumes "ip_addr a" "unat (ma_netbits a) \<le> 128"
  shows "\<exists>r. mroute_addr_mask_host_bits a = Some (a\<lparr>ma_raw := r\<rparr>) \<and> length r = length (ma_raw a)"
proof (cases "unat (ma_netbits a) \<le> 8 * length (ma_raw a)")
  case True
  then show ?thesis using mask_host_bits_spec [OF assms(1)] by blast
next
  case False
  then have "ma_type a AND MR_ADDR_MASK = MR_ADDR_IPV4" "length (ma_raw a) = 4"
    using assms by (auto simp: ip_addr_def)
  then show ?thesis
    by (intro exI [of _ "be32 (of_be32 (ma_raw a) AND netbits_to_netmask (uint (ma_netbits a)))"])
       (simp add: mroute_addr_mask_host_bits_def Let_def)
qed

text \<open>
  Masking an address gives a network exactly when they agree on the bits of the prefix, for a
  network whose other bits are zero.
\<close>

lemma mask_host_bits_eq:
  assumes "ip_addr a" "unat (ma_netbits a) \<le> 8 * length (ma_raw a)" "length net = length (ma_raw a)"
    "\<And>i. i < 8 * length net \<Longrightarrow> unat (ma_netbits a) \<le> i \<Longrightarrow> \<not> addr_bit net i"
  shows "mroute_addr_mask_host_bits a = Some (a\<lparr>ma_raw := net\<rparr>) \<longleftrightarrow>
    (\<forall>i < unat (ma_netbits a). addr_bit (ma_raw a) i = addr_bit net i)"
proof -
  obtain r where r: "mroute_addr_mask_host_bits a = Some (a\<lparr>ma_raw := r\<rparr>)" "length r = length (ma_raw a)"
    "\<And>i. i < 8 * length r \<Longrightarrow> addr_bit r i \<longleftrightarrow> i < unat (ma_netbits a) \<and> addr_bit (ma_raw a) i"
    using mask_host_bits_spec [OF assms(1,2)] by blast
  have "r = net \<longleftrightarrow> (\<forall>i < unat (ma_netbits a). addr_bit (ma_raw a) i = addr_bit net i)"
  proof
    assume "r = net"
    then show "\<forall>i < unat (ma_netbits a). addr_bit (ma_raw a) i = addr_bit net i" using r(2,3) assms(2) by auto
  next
    assume p: "\<forall>i < unat (ma_netbits a). addr_bit (ma_raw a) i = addr_bit net i"
    show "r = net"
    proof (rule addr_bits_eq)
      show "length r = length net" using r(2) assms(3) by simp
      fix i assume "i < 8 * length r"
      then show "addr_bit r i = addr_bit net i" using r(2) r(3) [of i] assms(3) assms(4) [of i] p
        by (cases "i < unat (ma_netbits a)") auto
    qed
  qed
  moreover have "a\<lparr>ma_raw := r\<rparr> = a\<lparr>ma_raw := net\<rparr> \<longleftrightarrow> r = net"
    by (metis mroute_addr.select_convs(3) mroute_addr.surjective mroute_addr.update_convs(3))
  ultimately show ?thesis using r(1) by simp
qed

lemma netmask_loop_Some:
  assumes "netmask_loop netmask i = Some n" "0 \<le> i"
  shows "n = - 1 \<and> netmask = netbits_to_netmask 32 \<or> 0 \<le> n \<and> n < 32 \<and> netmask = netbits_to_netmask n"
  using assms
proof (induction netmask i rule: netmask_loop.induct)
  case (1 netmask i)
  show ?case
  proof (cases "i \<le> 32 \<and> netbits_to_netmask i \<noteq> netmask")
    case True
    then have "netmask_loop netmask (i + 1) = Some n" using "1.prems"(1) by (subst (asm) netmask_loop.simps) simp
    then show ?thesis using "1.IH" True "1.prems"(2) by simp
  next
    case False
    then show ?thesis using "1.prems" by (subst (asm) netmask_loop.simps) (auto split: if_splits)
  qed
qed

section \<open>The helper\<close>

definition lengths_used :: "int list \<Rightarrow> nat \<Rightarrow> nat list" where
  "lengths_used rc n = filter (\<lambda>k. rc ! k > 0) (rev [0..<n])"

lemma regenerate_loop_eq:
  assumes "j + i \<le> length (mh_net_len mh)"
  shows "\<exists>ls. regenerate_loop i j mh =
      mh\<lparr>mh_n_net_len := j + length (lengths_used (mh_net_len_refcount mh) i), mh_net_len := ls\<rparr> \<and>
    length ls = length (mh_net_len mh) \<and>
    take (j + length (lengths_used (mh_net_len_refcount mh) i)) ls =
      take j (mh_net_len mh) @ map word_of_nat (lengths_used (mh_net_len_refcount mh) i)"
  using assms
proof (induction i arbitrary: j mh)
  case 0
  have e: "lengths_used rc 0 = []" for rc by (simp add: lengths_used_def)
  show ?case by (intro exI [of _ "mh_net_len mh"]) (simp add: e)
next
  case (Suc i)
  have u: "lengths_used rc (Suc i) = (if rc ! i > 0 then i # lengths_used rc i else lengths_used rc i)" for rc
    by (simp add: lengths_used_def)
  show ?case
  proof (cases "mh_net_len_refcount mh ! i > 0")
    case True
    let ?mh = "mh\<lparr>mh_net_len := (mh_net_len mh)[j := word_of_nat i]\<rparr>"
    have "j + 1 + i \<le> length (mh_net_len ?mh)" using Suc.prems by simp
    from Suc.IH [OF this] obtain ls where ls: "regenerate_loop i (j + 1) ?mh =
        ?mh\<lparr>mh_n_net_len := j + 1 + length (lengths_used (mh_net_len_refcount mh) i), mh_net_len := ls\<rparr>"
      "length ls = length (mh_net_len mh)"
      "take (j + 1 + length (lengths_used (mh_net_len_refcount mh) i)) ls =
        take (j + 1) (mh_net_len ?mh) @ map word_of_nat (lengths_used (mh_net_len_refcount mh) i)"
      by (auto simp del: take_append)
    have "take (j + 1) (mh_net_len ?mh) = take j (mh_net_len mh) @ [word_of_nat i]"
      using Suc.prems by (simp add: take_Suc_conv_app_nth)
    then show ?thesis using ls True by (intro exI [of _ ls]) (simp add: u)
  next
    case False
    then show ?thesis using Suc.IH [of j mh] Suc.prems by (simp add: u)
  qed
qed

definition helper_ok :: "mroute_helper \<Rightarrow> bool" where
  "helper_ok mh \<longleftrightarrow> length (mh_net_len mh) = 129 \<and> length (mh_net_len_refcount mh) = 129 \<and>
     (\<forall>k < 129. mh_net_len_refcount mh ! k \<ge> 0) \<and>
     take (mh_n_net_len mh) (mh_net_len mh) = map word_of_nat (lengths_used (mh_net_len_refcount mh) 129) \<and>
     mh_n_net_len mh = length (lengths_used (mh_net_len_refcount mh) 129)"

lemma helper_init_ok: "helper_ok (mroute_helper_init ttl)"
proof -
  have "lengths_used (replicate 129 0) 129 = []" by (auto simp: lengths_used_def filter_empty_conv)
  then show ?thesis by (simp add: helper_ok_def mroute_helper_init_def MR_HELPER_NET_LEN_def)
qed

lemma regenerate_ok:
  assumes "length (mh_net_len mh) = 129" "length (mh_net_len_refcount mh) = 129"
    "\<forall>k < 129. mh_net_len_refcount mh ! k \<ge> 0"
  shows "helper_ok (mroute_helper_regenerate mh)"
    "mh_net_len_refcount (mroute_helper_regenerate mh) = mh_net_len_refcount mh"
    "mh_cache_generation (mroute_helper_regenerate mh) = mh_cache_generation mh"
    "mh_ageable_ttl_secs (mroute_helper_regenerate mh) = mh_ageable_ttl_secs mh"
proof -
  have "0 + 129 \<le> length (mh_net_len mh)" using assms(1) by simp
  from regenerate_loop_eq [OF this] obtain ls where ls: "mroute_helper_regenerate mh =
      mh\<lparr>mh_n_net_len := length (lengths_used (mh_net_len_refcount mh) 129), mh_net_len := ls\<rparr>"
    "length ls = length (mh_net_len mh)"
    "take (length (lengths_used (mh_net_len_refcount mh) 129)) ls = map word_of_nat (lengths_used (mh_net_len_refcount mh) 129)"
    by (auto simp: mroute_helper_regenerate_def MR_HELPER_NET_LEN_def)
  show "helper_ok (mroute_helper_regenerate mh)" unfolding ls(1) using assms ls(2,3) by (simp add: helper_ok_def)
  show "mh_net_len_refcount (mroute_helper_regenerate mh) = mh_net_len_refcount mh"
    "mh_cache_generation (mroute_helper_regenerate mh) = mh_cache_generation mh"
    "mh_ageable_ttl_secs (mroute_helper_regenerate mh) = mh_ageable_ttl_secs mh" by (simp_all add: ls(1))
qed

lemma lengths_used_cong:
  assumes "length rc' = length rc" "\<And>k. k < n \<Longrightarrow> rc' ! k > 0 \<longleftrightarrow> rc ! k > 0"
  shows "lengths_used rc' n = lengths_used rc n"
  unfolding lengths_used_def by (rule filter_cong) (use assms in auto)

lemma helper_add_ok:
  assumes "helper_ok mh" "0 \<le> netbits" "netbits < 129"
  shows "\<exists>mh'. mroute_helper_add_iroute46 mh netbits = Some mh' \<and> helper_ok mh' \<and>
    mh_net_len_refcount mh' = (mh_net_len_refcount mh)[nat netbits := mh_net_len_refcount mh ! nat netbits + 1] \<and>
    mh_cache_generation mh' = mh_cache_generation mh + 1 \<and> mh_ageable_ttl_secs mh' = mh_ageable_ttl_secs mh"
proof -
  let ?rc = "mh_net_len_refcount mh" and ?k = "nat netbits"
  define mh1 where "mh1 = mh\<lparr>mh_cache_generation := mh_cache_generation mh + 1, mh_net_len_refcount := ?rc[?k := ?rc ! ?k + 1]\<rparr>"
  have f: "length ?rc = 129" "\<forall>k < 129. ?rc ! k \<ge> 0" "?k < 129" using assms by (auto simp: helper_ok_def)
  have a: "mroute_helper_add_iroute46 mh netbits = Some (if ?rc ! ?k = 0 then mroute_helper_regenerate mh1 else mh1)"
    using assms(2,3) f(1,3) by (simp add: mroute_helper_add_iroute46_def MR_HELPER_NET_LEN_def mh1_def Let_def)
  have nn: "\<forall>k < 129. (?rc[?k := ?rc ! ?k + 1]) ! k \<ge> 0" using f by (auto simp: nth_list_update)
  have r: "length (mh_net_len mh1) = 129" "length (mh_net_len_refcount mh1) = 129" "\<forall>k < 129. mh_net_len_refcount mh1 ! k \<ge> 0"
    using assms(1) f(1) nn by (simp_all add: mh1_def helper_ok_def)
  have o1: "helper_ok mh1" if "?rc ! ?k \<noteq> 0"
  proof -
    have "?rc ! ?k > 0" using f(2,3) that by (metis order_le_imp_less_or_eq)
    then have "lengths_used (?rc[?k := ?rc ! ?k + 1]) 129 = lengths_used ?rc 129"
      by (intro lengths_used_cong) (use f(1,3) in \<open>auto simp: nth_list_update split: if_splits\<close>)
    then show ?thesis using assms(1) r unfolding helper_ok_def mh1_def by (elim conjE) (intro conjI; simp)
  qed
  show ?thesis unfolding a using regenerate_ok [OF r] o1 by (auto simp: mh1_def)
qed

lemma helper_del_ok:
  assumes "helper_ok mh" "0 \<le> netbits" "netbits < 129" "mh_net_len_refcount mh ! nat netbits > 0"
  shows "\<exists>mh'. mroute_helper_del_iroute46 mh netbits = Some mh' \<and> helper_ok mh' \<and>
    mh_net_len_refcount mh' = (mh_net_len_refcount mh)[nat netbits := mh_net_len_refcount mh ! nat netbits - 1] \<and>
    mh_cache_generation mh' = mh_cache_generation mh + 1 \<and> mh_ageable_ttl_secs mh' = mh_ageable_ttl_secs mh"
proof -
  let ?rc = "mh_net_len_refcount mh" and ?k = "nat netbits"
  define mh1 where "mh1 = mh\<lparr>mh_cache_generation := mh_cache_generation mh + 1, mh_net_len_refcount := ?rc[?k := ?rc ! ?k - 1]\<rparr>"
  have f: "length ?rc = 129" "\<forall>k < 129. ?rc ! k \<ge> 0" "?k < 129" using assms by (auto simp: helper_ok_def)
  have a: "mroute_helper_del_iroute46 mh netbits = Some (if ?rc ! ?k = 1 then mroute_helper_regenerate mh1 else mh1)"
    using assms(2-4) f(1,3) by (auto simp: mroute_helper_del_iroute46_def MR_HELPER_NET_LEN_def mh1_def Let_def)
  have nn: "\<forall>k < 129. (?rc[?k := ?rc ! ?k - 1]) ! k \<ge> 0" using f assms(4) by (auto simp: nth_list_update)
  have r: "length (mh_net_len mh1) = 129" "length (mh_net_len_refcount mh1) = 129" "\<forall>k < 129. mh_net_len_refcount mh1 ! k \<ge> 0"
    using assms(1) f(1) nn by (simp_all add: mh1_def helper_ok_def)
  have o1: "helper_ok mh1" if "?rc ! ?k \<noteq> 1"
  proof -
    have "?rc ! ?k > 1" using assms(4) that by linarith
    then have "lengths_used (?rc[?k := ?rc ! ?k - 1]) 129 = lengths_used ?rc 129"
      by (intro lengths_used_cong) (use f(1,3) in \<open>auto simp: nth_list_update split: if_splits\<close>)
    then show ?thesis using assms(1) r unfolding helper_ok_def mh1_def by (elim conjE) (intro conjI; simp)
  qed
  show ?thesis unfolding a using regenerate_ok [OF r] o1 by (auto simp: mh1_def)
qed

lemma helper_host_route:
  "netbits < 0 \<Longrightarrow> mroute_helper_add_iroute46 mh netbits = Some mh"
  "netbits < 0 \<Longrightarrow> mroute_helper_del_iroute46 mh netbits = Some mh"
  by (simp_all add: mroute_helper_add_iroute46_def mroute_helper_del_iroute46_def)

text \<open>The lengths that the lookups go through, from the longest on.\<close>

lemma lengths_used_props:
  "set (lengths_used rc n) = {k. k < n \<and> rc ! k > 0}" "sorted_wrt (>) (lengths_used rc n)"
proof -
  show "set (lengths_used rc n) = {k. k < n \<and> rc ! k > 0}" by (auto simp: lengths_used_def)
  have "sorted_wrt (>) (rev [0..<n])" by (simp add: sorted_wrt_rev)
  then show "sorted_wrt (>) (lengths_used rc n)" unfolding lengths_used_def by (rule sorted_wrt_filter)
qed

end
