(* ===== verification/Multi_Route.thy ===== *)
theory Multi_Route
  imports Mroute
begin

text \<open>
  The routing table of the multi-client server, from \<^verbatim>\<open>multi.h\<close> and \<^verbatim>\<open>multi.c\<close>: which client a virtual address
  belongs to. Client addresses and iroutes are learned into a hash table when a client connects; a
  lookup that has to search the networks caches its result as a host route; routes of closed clients and
  outdated cache entries stay in the table until they are reaped. Client instances live in a heap, with a
  reference count, and are freed when the count drops to zero: using a freed instance is \<open>None\<close>, as a
  failed assertion is.

  The lemmas give the laws of the table as a map and show that the counts of the instances stay right.
\<close>

section \<open>State\<close>

record multi_route =
  mr_addr :: mroute_addr
  mr_instance :: nat
  mr_flags :: u32
  mr_cache_generation :: u32
  mr_last_reference :: int

definition MULTI_ROUTE_CACHE :: u32 where "MULTI_ROUTE_CACHE = push_bit 0 1"
definition MULTI_ROUTE_AGEABLE :: u32 where "MULTI_ROUTE_AGEABLE = push_bit 1 1"
definition MULTI_CACHE_ROUTE_TTL :: int where "MULTI_CACHE_ROUTE_TTL = 60"
definition REAP_DIVISOR :: int where "REAP_DIVISOR = 256"
definition REAP_MIN :: int where "REAP_MIN = 16"
definition REAP_MAX :: int where "REAP_MAX = 1024"

record iroute =
  ir_network :: u32
  ir_netbits :: int

record iroute_ipv6 =
  ir6_network :: "u8 list"
  ir6_netbits :: int

text \<open>The fields of an instance, and of the options in its context, that routing reads.\<close>

record multi_instance =
  mi_halt :: bool
  mi_refcount :: int
  mi_route_count :: int
  mi_did_iroutes :: bool
  mi_tunnel_type :: dev_type
  mi_iroutes :: "iroute list"
  mi_iroutes_ipv6 :: "iroute_ipv6 list"
  mi_max_routes_per_client :: int
  mi_push_ifconfig_defined :: bool
  mi_push_ifconfig_local :: u32
  mi_push_ifconfig_ipv6_defined :: bool
  mi_push_ifconfig_ipv6_local :: "u8 list"

record multi_reap =
  bucket_base :: int
  buckets_per_pass :: int
  last_call :: int

text \<open>The fields of \<^verbatim>\<open>struct multi_context\<close> for routing, with the heap of the instances.\<close>

record multi_context =
  m_vhash :: "(mroute_addr, multi_route) hash"
  m_route_helper :: mroute_helper
  m_reaper :: multi_reap
  m_local :: mroute_addr
  m_stale_routes_ageing_time :: int
  m_heap :: "nat \<rightharpoonup> multi_instance"

text \<open>The answers of \<^verbatim>\<open>learn_address_script\<close> to an instance, an operation and an address.\<close>

type_synonym learn_script = "nat option \<Rightarrow> string \<Rightarrow> mroute_addr \<Rightarrow> bool"

section \<open>Instances and routes\<close>

definition change_instance :: "multi_context \<Rightarrow> nat \<Rightarrow> (multi_instance \<Rightarrow> multi_instance) \<Rightarrow> multi_context option" where
  "change_instance m mi f = do { i \<leftarrow> m_heap m mi; Some (m\<lparr>m_heap := (m_heap m)(mi \<mapsto> f i)\<rparr>) }"

definition multi_instance_inc_refcount :: "multi_context \<Rightarrow> nat \<Rightarrow> multi_context option" where
  "multi_instance_inc_refcount m mi = change_instance m mi (\<lambda>i. i\<lparr>mi_refcount := mi_refcount i + 1\<rparr>)"

definition multi_instance_dec_refcount :: "multi_context \<Rightarrow> nat \<Rightarrow> multi_context option" where
  "multi_instance_dec_refcount m mi =
     do { i \<leftarrow> m_heap m mi;
          let i = i\<lparr>mi_refcount := mi_refcount i - 1\<rparr>;
          Some (m\<lparr>m_heap := (m_heap m)(mi := if mi_refcount i \<le> 0 then None else Some i)\<rparr>) }"

definition route_quota_inc :: "multi_context \<Rightarrow> nat \<Rightarrow> multi_context option" where
  "route_quota_inc m mi = change_instance m mi (\<lambda>i. i\<lparr>mi_route_count := mi_route_count i + 1\<rparr>)"

definition route_quota_dec :: "multi_context \<Rightarrow> nat \<Rightarrow> multi_context option" where
  "route_quota_dec m mi = change_instance m mi (\<lambda>i. i\<lparr>mi_route_count := mi_route_count i - 1\<rparr>)"

definition route_quota_test :: "multi_context \<Rightarrow> nat \<Rightarrow> bool option" where
  "route_quota_test m mi =
     do { i \<leftarrow> m_heap m mi; Some (\<not> mi_route_count i \<ge> mi_max_routes_per_client i) }"

definition multi_route_del :: "multi_context \<Rightarrow> multi_route \<Rightarrow> multi_context option" where
  "multi_route_del m route =
     do { m \<leftarrow> route_quota_dec m (mr_instance route);
          multi_instance_dec_refcount m (mr_instance route) }"

definition multi_route_defined :: "multi_context \<Rightarrow> int \<Rightarrow> multi_route \<Rightarrow> bool option" where
  "multi_route_defined m nw r =
     do { i \<leftarrow> m_heap m (mr_instance r);
          Some (if mi_halt i then False
                else if mr_flags r AND MULTI_ROUTE_CACHE \<noteq> 0 \<and>
                  mr_cache_generation r \<noteq> mh_cache_generation (m_route_helper m) then False
                else if mr_flags r AND MULTI_ROUTE_AGEABLE \<noteq> 0 \<and>
                  mr_last_reference r + mh_ageable_ttl_secs (m_route_helper m) < nw then False
                else True) }"

section \<open>Learning\<close>

text \<open>Writing to the element that a lookup has just moved to the head of its bucket.\<close>

definition set_found :: "('k, 'v) hash \<Rightarrow> nat \<Rightarrow> ('k, 'v) hash_element \<Rightarrow> ('k, 'v) hash" where
  "set_found h i he = set_bucket h i (he # tl (buckets h ! i))"

text \<open>The owner of the route, if any, and the new state.\<close>

definition multi_learn_addr :: "multi_context \<Rightarrow> int \<Rightarrow> learn_script \<Rightarrow> nat \<Rightarrow> mroute_addr \<Rightarrow> u32 \<Rightarrow>
    (nat option \<times> multi_context) option" where
  "multi_learn_addr m nw learn_address_script mi addr flags =
     (let hv = hash_value (m_vhash m) addr;
          bucket = bucket_index (m_vhash m) hv
      in case hash_lookup_fast (m_vhash m) bucket addr hv of
        (he, vhash) \<Rightarrow>
          let m = m\<lparr>m_vhash := vhash\<rparr>;
              oldroute = map_option he_value he
          in do { defined \<leftarrow> (case oldroute of None \<Rightarrow> Some False | Some r \<Rightarrow> multi_route_defined m nw r);
                  let owner = (if defined then map_option mr_instance oldroute else None);
                  if (owner = None \<or> owner \<noteq> Some mi) \<and> mroute_learnable_address addr \<and>
                    \<not> mroute_addr_equal addr (m_local m)
                  then let newroute = \<lparr>mr_addr = addr, mr_instance = mi, mr_flags = flags,
                             mr_cache_generation =
                               (if flags AND MULTI_ROUTE_CACHE \<noteq> 0 then mh_cache_generation (m_route_helper m) else 0),
                             mr_last_reference = nw\<rparr>
                       in case he of
                            Some he \<Rightarrow>
                              do { quota \<leftarrow> route_quota_test m mi;
                                   if quota \<and> learn_address_script (Some mi) ''update'' addr
                                   then do { m \<leftarrow> multi_instance_inc_refcount m mi;
                                             m \<leftarrow> route_quota_inc m mi;
                                             m \<leftarrow> multi_route_del m (he_value he);
                                             Some (Some mi, m\<lparr>m_vhash := set_found (m_vhash m) bucket
                                               (he\<lparr>he_key := Some addr, he_value := newroute\<rparr>)\<rparr>) }
                                   else Some (owner, m) }
                          | None \<Rightarrow>
                              do { quota \<leftarrow> route_quota_test m mi;
                                   if quota \<and> learn_address_script (Some mi) ''add'' addr
                                   then do { m \<leftarrow> multi_instance_inc_refcount m mi;
                                             m \<leftarrow> route_quota_inc m mi;
                                             Some (Some mi, m\<lparr>m_vhash := hash_add_fast (m_vhash m) bucket addr hv newroute\<rparr>) }
                                   else Some (owner, m) }
                  else Some (owner, m) })"

text \<open>
  \<^verbatim>\<open>-1\<close> for the prefix length stands for a host route. What the management interface and the data
  channel offload are told is left out.
\<close>

definition multi_learn_in_addr_t :: "multi_context \<Rightarrow> int \<Rightarrow> learn_script \<Rightarrow> nat \<Rightarrow> u32 \<Rightarrow> int \<Rightarrow>
    (nat option \<times> multi_context) option" where
  "multi_learn_in_addr_t m nw learn_address_script mi a netbits =
     do { addr \<leftarrow> mroute_extract_openvpn_sockaddr mroute_addr_init (AF_INET (be32 a) [0, 0]) False;
          let addr = (if netbits \<ge> 0
                then addr\<lparr>ma_type := ma_type addr OR MR_WITH_NETBITS, ma_netbits := word_of_int netbits\<rparr> else addr);
          multi_learn_addr m nw learn_address_script mi addr 0 }"

definition multi_learn_in6_addr :: "multi_context \<Rightarrow> int \<Rightarrow> learn_script \<Rightarrow> nat \<Rightarrow> u8 list \<Rightarrow> int \<Rightarrow>
    (nat option \<times> multi_context) option" where
  "multi_learn_in6_addr m nw learn_address_script mi a6 netbits =
     do { let addr = \<lparr>ma_type = MR_ADDR_IPV6, ma_netbits = 0, ma_raw = a6\<rparr>;
          addr \<leftarrow> (if netbits \<ge> 0
             then mroute_addr_mask_host_bits
               (addr\<lparr>ma_type := ma_type addr OR MR_WITH_NETBITS, ma_netbits := word_of_int netbits\<rparr>)
             else Some addr);
          multi_learn_addr m nw learn_address_script mi addr 0 }"

section \<open>Looking up\<close>

text \<open>The loop over the prefix lengths in use; the client found and the new state.\<close>

fun cidr_loop :: "u8 list \<Rightarrow> multi_context \<Rightarrow> int \<Rightarrow> learn_script \<Rightarrow> mroute_addr \<Rightarrow> (nat option \<times> multi_context) option" where
  "cidr_loop [] m nw learn_address_script addr = Some (None, m)"
| "cidr_loop (len # lens) m nw learn_address_script addr =
     do { tryaddr \<leftarrow> mroute_addr_mask_host_bits
            (addr\<lparr>ma_type := ma_type addr OR MR_WITH_NETBITS, ma_netbits := len\<rparr>);
          let (route, vhash) = hash_lookup (m_vhash m) tryaddr;
          let m = m\<lparr>m_vhash := vhash\<rparr>;
          defined \<leftarrow> (case route of None \<Rightarrow> Some False | Some r \<Rightarrow> multi_route_defined m nw r);
          if defined
          then do { let mi = mr_instance (the route);
                    (_, m) \<leftarrow> multi_learn_addr m nw learn_address_script mi addr (MULTI_ROUTE_CACHE OR MULTI_ROUTE_AGEABLE);
                    Some (Some mi, m) }
          else cidr_loop lens m nw learn_address_script addr }"

definition multi_get_instance_by_virtual_addr :: "multi_context \<Rightarrow> int \<Rightarrow> learn_script \<Rightarrow> mroute_addr \<Rightarrow> bool \<Rightarrow>
    (nat option \<times> multi_context) option" where
  "multi_get_instance_by_virtual_addr m nw learn_address_script addr cidr_routing =
     (if mroute_addr_equal addr (m_local m) then Some (None, m)
      else do { let (route, vhash) = hash_lookup (m_vhash m) addr;
                let m = m\<lparr>m_vhash := vhash\<rparr>;
                defined \<leftarrow> (case route of None \<Rightarrow> Some False | Some r \<Rightarrow> multi_route_defined m nw r);
                (ret, m) \<leftarrow>
                  (if defined
                   then let r = the route;
                            bucket = bucket_index (m_vhash m) (hash_value (m_vhash m) addr);
                            he = hd (buckets (m_vhash m) ! bucket)
                        in Some (Some (mr_instance r), m\<lparr>m_vhash := set_found (m_vhash m) bucket
                             (he\<lparr>he_value := r\<lparr>mr_last_reference := nw\<rparr>\<rparr>)\<rparr>)
                   else if cidr_routing
                   then cidr_loop (take (mh_n_net_len (m_route_helper m)) (mh_net_len (m_route_helper m)))
                          m nw learn_address_script addr
                   else Some (None, m));
                case ret of
                  None \<Rightarrow> Some (None, m)
                | Some mi \<Rightarrow> do { i \<leftarrow> m_heap m mi; if mi_halt i then None else Some (Some mi, m) } })"

section \<open>Connecting and closing\<close>

definition helper_add :: "multi_context \<Rightarrow> int \<Rightarrow> multi_context option" where
  "helper_add m netbits =
     do { rh \<leftarrow> mroute_helper_add_iroute46 (m_route_helper m) netbits; Some (m\<lparr>m_route_helper := rh\<rparr>) }"

definition helper_del :: "multi_context \<Rightarrow> int \<Rightarrow> multi_context option" where
  "helper_del m netbits =
     do { rh \<leftarrow> mroute_helper_del_iroute46 (m_route_helper m) netbits; Some (m\<lparr>m_route_helper := rh\<rparr>) }"

fun add_iroutes_loop :: "iroute list \<Rightarrow> multi_context \<Rightarrow> int \<Rightarrow> learn_script \<Rightarrow> nat \<Rightarrow> multi_context option" where
  "add_iroutes_loop [] m nw learn_address_script mi = Some m"
| "add_iroutes_loop (ir # irs) m nw learn_address_script mi =
     do { m \<leftarrow> helper_add m (ir_netbits ir);
          (_, m) \<leftarrow> multi_learn_in_addr_t m nw learn_address_script mi (ir_network ir) (ir_netbits ir);
          add_iroutes_loop irs m nw learn_address_script mi }"

fun add_iroutes6_loop :: "iroute_ipv6 list \<Rightarrow> multi_context \<Rightarrow> int \<Rightarrow> learn_script \<Rightarrow> nat \<Rightarrow> multi_context option" where
  "add_iroutes6_loop [] m nw learn_address_script mi = Some m"
| "add_iroutes6_loop (ir6 # irs) m nw learn_address_script mi =
     do { m \<leftarrow> helper_add m (ir6_netbits ir6);
          (_, m) \<leftarrow> multi_learn_in6_addr m nw learn_address_script mi (ir6_network ir6) (ir6_netbits ir6);
          add_iroutes6_loop irs m nw learn_address_script mi }"

definition multi_add_iroutes :: "multi_context \<Rightarrow> int \<Rightarrow> learn_script \<Rightarrow> nat \<Rightarrow> multi_context option" where
  "multi_add_iroutes m nw learn_address_script mi =
     do { i \<leftarrow> m_heap m mi;
          if mi_tunnel_type i = DEV_TYPE_TUN
          then do { m \<leftarrow> change_instance m mi (\<lambda>i. i\<lparr>mi_did_iroutes := True\<rparr>);
                    m \<leftarrow> add_iroutes_loop (mi_iroutes i) m nw learn_address_script mi;
                    add_iroutes6_loop (mi_iroutes_ipv6 i) m nw learn_address_script mi }
          else Some m }"

fun del_iroutes_loop :: "int list \<Rightarrow> multi_context \<Rightarrow> multi_context option" where
  "del_iroutes_loop [] m = Some m"
| "del_iroutes_loop (netbits # ns) m = do { m \<leftarrow> helper_del m netbits; del_iroutes_loop ns m }"

definition multi_del_iroutes :: "multi_context \<Rightarrow> nat \<Rightarrow> multi_context option" where
  "multi_del_iroutes m mi =
     do { i \<leftarrow> m_heap m mi;
          if mi_tunnel_type i = DEV_TYPE_TUN
          then do { m \<leftarrow> del_iroutes_loop (map ir_netbits (mi_iroutes i)) m;
                    del_iroutes_loop (map ir6_netbits (mi_iroutes_ipv6 i)) m }
          else Some m }"

text \<open>The routes of a client whose connection is established, part of \<^verbatim>\<open>multi_client_connect_late_setup\<close>.\<close>

definition late_setup_routes :: "multi_context \<Rightarrow> int \<Rightarrow> learn_script \<Rightarrow> nat \<Rightarrow> multi_context option" where
  "late_setup_routes m nw learn_address_script mi =
     do { i \<leftarrow> m_heap m mi;
          if mi_tunnel_type i = DEV_TYPE_TUN
          then do { m \<leftarrow> (if mi_push_ifconfig_defined i
                       then map_option snd (multi_learn_in_addr_t m nw learn_address_script mi (mi_push_ifconfig_local i) (- 1))
                       else Some m);
                    m \<leftarrow> (if mi_push_ifconfig_ipv6_defined i
                       then map_option snd (multi_learn_in6_addr m nw learn_address_script mi (mi_push_ifconfig_ipv6_local i) (- 1))
                       else Some m);
                    multi_add_iroutes m nw learn_address_script mi }
          else Some m }"

text \<open>
  A new instance at an unused address, with the options inherited from the top level, and then with those
  that the connection of the client has brought: addresses, networks and quota.
\<close>

definition create_instance :: "multi_context \<Rightarrow> nat \<Rightarrow> multi_instance \<Rightarrow> multi_context option" where
  "create_instance m mi opts =
     (if m_heap m mi \<noteq> None then None
      else multi_instance_inc_refcount (m\<lparr>m_heap := (m_heap m)(mi \<mapsto>
        opts\<lparr>mi_halt := False, mi_refcount := 0, mi_route_count := 0, mi_did_iroutes := False\<rparr>)\<rparr>) mi)"

definition client_options :: "multi_instance \<Rightarrow> multi_instance \<Rightarrow> multi_instance" where
  "client_options opts x = opts\<lparr>mi_halt := mi_halt x, mi_refcount := mi_refcount x,
     mi_route_count := mi_route_count x, mi_did_iroutes := mi_did_iroutes x\<rparr>"

text \<open>What closing an instance does to its routes, part of \<^verbatim>\<open>multi_close_instance\<close>.\<close>

definition close_instance_routes :: "multi_context \<Rightarrow> nat \<Rightarrow> bool \<Rightarrow> multi_context option" where
  "close_instance_routes m mi shutdown =
     do { i \<leftarrow> m_heap m mi;
          if mi_halt i then None
          else do {
            m \<leftarrow> change_instance m mi (\<lambda>i. i\<lparr>mi_halt := True\<rparr>);
            m \<leftarrow> (if \<not> shutdown \<and> mi_did_iroutes i
                 then do { m \<leftarrow> multi_del_iroutes m mi; change_instance m mi (\<lambda>i. i\<lparr>mi_did_iroutes := False\<rparr>) }
                 else Some m);
            multi_instance_dec_refcount m mi } }"

section \<open>Reaping\<close>

text \<open>
  The bodies of the loops over the table: whether the route is deleted, and the new state. The result of
  the script is not used.
\<close>

definition reap_body :: "int \<Rightarrow> multi_route \<Rightarrow> multi_context \<Rightarrow> (bool \<times> multi_context) option" where
  "reap_body nw r m =
     do { defined \<leftarrow> multi_route_defined m nw r;
          if \<not> defined then do { m \<leftarrow> multi_route_del m r; Some (True, m) } else Some (False, m) }"

definition multi_reap_range :: "multi_context \<Rightarrow> int \<Rightarrow> int \<Rightarrow> int \<Rightarrow> multi_context option" where
  "multi_reap_range m nw start_bucket end_bucket =
     (let (start_bucket, end_bucket) = (if start_bucket < 0 then (0, n_buckets (m_vhash m)) else (start_bucket, end_bucket))
      in do { hi \<leftarrow> hash_iterator_init_range (m_vhash m) start_bucket end_bucket;
              (vhash, m) \<leftarrow> hash_iterate (reap_body nw) (m_vhash m) hi m;
              Some (m\<lparr>m_vhash := vhash\<rparr>) })"

definition multi_reap_all :: "multi_context \<Rightarrow> int \<Rightarrow> multi_context option" where
  "multi_reap_all m nw = multi_reap_range m nw (- 1) 0"

definition reap_buckets_per_pass :: "int \<Rightarrow> int" where
  "reap_buckets_per_pass n = constrain_int (n div REAP_DIVISOR) REAP_MIN REAP_MAX"

definition multi_reap_new :: "int \<Rightarrow> int \<Rightarrow> multi_reap" where
  "multi_reap_new nw n = \<lparr>bucket_base = 0, buckets_per_pass = n, last_call = nw\<rparr>"

definition multi_reap_process_dowork :: "multi_context \<Rightarrow> int \<Rightarrow> multi_context option" where
  "multi_reap_process_dowork m nw =
     do { let mr = m_reaper m;
          let mr = (if bucket_base mr \<ge> n_buckets (m_vhash m) then mr\<lparr>bucket_base := 0\<rparr> else mr);
          m \<leftarrow> multi_reap_range m nw (bucket_base mr) (bucket_base mr + buckets_per_pass mr);
          Some (m\<lparr>m_reaper := mr\<lparr>bucket_base := bucket_base mr + buckets_per_pass mr, last_call := nw\<rparr>\<rparr>) }"

definition multi_reap_process :: "multi_context \<Rightarrow> int \<Rightarrow> multi_context option" where
  "multi_reap_process m nw = (if last_call (m_reaper m) \<noteq> nw then multi_reap_process_dowork m nw else Some m)"

definition stale_body :: "int \<Rightarrow> multi_route \<Rightarrow> multi_context \<Rightarrow> (bool \<times> multi_context) option" where
  "stale_body nw r m =
     do { defined \<leftarrow> multi_route_defined m nw r;
          if defined \<and> nw - mr_last_reference r \<ge> m_stale_routes_ageing_time m
          then do { m \<leftarrow> multi_route_del m r; Some (True, m) } else Some (False, m) }"

definition check_stale_routes :: "multi_context \<Rightarrow> int \<Rightarrow> multi_context option" where
  "check_stale_routes m nw =
     do { hi \<leftarrow> hash_iterator_init_range (m_vhash m) 0 (n_buckets (m_vhash m));
          (vhash, m) \<leftarrow> hash_iterate (stale_body nw) (m_vhash m) hi m;
          Some (m\<lparr>m_vhash := vhash\<rparr>) }"

section \<open>Options\<close>

text \<open>\<^verbatim>\<open>--iroute\<close> with the addresses that \<^verbatim>\<open>getaddr\<close> returned; a bad netmask leaves the list alone.\<close>

definition option_iroute :: "iroute list \<Rightarrow> u32 \<Rightarrow> u32 option \<Rightarrow> iroute list" where
  "option_iroute irs network netmask =
     (case netmask of
        None \<Rightarrow> \<lparr>ir_network = network, ir_netbits = - 1\<rparr> # irs
      | Some netmask \<Rightarrow>
          (case netmask_to_netbits network netmask of
             None \<Rightarrow> irs
           | Some netbits \<Rightarrow> \<lparr>ir_network = network, ir_netbits = netbits\<rparr> # irs))"

section \<open>The table as a map\<close>

text \<open>The laws of the hash table where keys are compared with equality.\<close>

definition table_ok :: "('k, 'v) hash \<Rightarrow> bool" where
  "table_ok h \<longleftrightarrow> hash_ok h \<and> compare_function h = (=)"

lemma table_lookup:
  assumes "table_ok h" "hash_lookup h k = (r, h1)"
  shows "r = table_map h k" "table_ok h1" "table_map h1 = table_map h"
  using hash_lookup_ok [of h k] assms by (auto simp: table_ok_def)

lemma table_lookup_fast:
  assumes "table_ok h" "hash_lookup_fast h (home h k) k (hash_value h k) = (he, h1)"
  shows "map_option he_value he = table_map h k" "table_ok h1" "table_map h1 = table_map h"
    "hash_value h1 = hash_value h" "bucket_index h1 = bucket_index h" "n_buckets h1 = n_buckets h"
proof -
  have "hash_lookup h k = (map_option he_value he, h1)" using assms(2) by (simp add: hash_lookup_def Let_def)
  from table_lookup [OF assms(1) this]
  show "map_option he_value he = table_map h k" "table_ok h1" "table_map h1 = table_map h" by auto
  have "h1 = h \<or> (\<exists>b. h1 = set_bucket h (home h k) b)"
    using assms(2) by (auto simp: hash_lookup_fast_def split: option.splits)
  then show "hash_value h1 = hash_value h" "bucket_index h1 = bucket_index h" "n_buckets h1 = n_buckets h"
    by (auto simp: fun_eq_iff hash_value_def bucket_index_def set_bucket_def)
qed

lemma table_lookup_n: "table_ok h \<Longrightarrow> hash_lookup h k = (r, h1) \<Longrightarrow> n_buckets h1 = n_buckets h"
  using table_lookup_fast(6) [of h k] by (auto simp: hash_lookup_def Let_def split: prod.splits)

lemma table_found:
  assumes "table_ok h" "hash_lookup_fast h (home h k) k (hash_value h k) = (Some e, h1)"
  shows "he_key e = Some k" "hd (buckets h1 ! home h k) = e"
    "table_ok (set_found h1 (home h k) (e\<lparr>he_value := v\<rparr>))"
    "table_map (set_found h1 (home h k) (e\<lparr>he_value := v\<rparr>)) = (table_map h)(k \<mapsto> v)"
    "n_buckets (set_found h1 (home h k) (e\<lparr>he_value := v\<rparr>)) = n_buckets h"
proof -
  have ok: "hash_ok h" "compare_function h = (=)" using assms(1) by (auto simp: table_ok_def)
  obtain b where b: "bucket_find (he_matches h k (hash_value h k)) (buckets h ! home h k) = Some (e, b)"
    "h1 = set_bucket h (home h k) (e # b)"
    using assms(2) by (auto simp: hash_lookup_fast_def split: option.splits)
  have "he_matches h k (hash_value h k) e" using bucket_find_Some [OF b(1)] by blast
  then show "he_key e = Some k" by (auto simp: he_matches_def ok(2) split: option.splits)
  have l: "home h k < length (buckets h)" by (rule hash_ok_bucket(1) [OF ok(1)])
  then show "hd (buckets h1 ! home h k) = e" by (simp add: b(2) set_bucket_def)
  have a: "snd (hash_add h k v True) = set_found h1 (home h k) (e\<lparr>he_value := v\<rparr>)"
    using assms(2) by (simp add: hash_add_def Let_def set_found_def)
  note law = hash_add_ok(2-4) [OF ok(1), of k v True, unfolded a]
  show "table_ok (set_found h1 (home h k) (e\<lparr>he_value := v\<rparr>))" using law(1,3) ok(2) by (simp add: table_ok_def)
  show "table_map (set_found h1 (home h k) (e\<lparr>he_value := v\<rparr>)) = (table_map h)(k \<mapsto> v)"
    using law(2) ok(2) by (auto simp: fun_eq_iff)
  show "n_buckets (set_found h1 (home h k) (e\<lparr>he_value := v\<rparr>)) = n_buckets h"
    by (simp add: set_found_def set_bucket_def b(2))
qed

lemma table_add_fast:
  assumes "table_ok h" "hash_lookup_fast h (home h k) k (hash_value h k) = (None, h1)"
  shows "h1 = h" "table_ok (hash_add_fast h (home h k) k (hash_value h k) v)"
    "table_map (hash_add_fast h (home h k) k (hash_value h k) v) = (table_map h)(k \<mapsto> v)"
    "n_buckets (hash_add_fast h (home h k) k (hash_value h k) v) = n_buckets h"
proof -
  have ok: "hash_ok h" "compare_function h = (=)" using assms(1) by (auto simp: table_ok_def)
  show h: "h1 = h" using assms(2) by (auto simp: hash_lookup_fast_def split: option.splits)
  have "table_map h k = None" using table_lookup_fast(1) [OF assms] by simp
  have a: "snd (hash_add h k v True) = hash_add_fast h (home h k) k (hash_value h k) v"
    using assms(2) h by (simp add: hash_add_def Let_def)
  note law = hash_add_ok(2-4) [OF ok(1), of k v True, unfolded a]
  show "table_ok (hash_add_fast h (home h k) k (hash_value h k) v)" using law(1,3) ok(2) by (simp add: table_ok_def)
  show "table_map (hash_add_fast h (home h k) k (hash_value h k) v) = (table_map h)(k \<mapsto> v)"
    using law(2) ok(2) by (auto simp: fun_eq_iff)
  show "n_buckets (hash_add_fast h (home h k) k (hash_value h k) v) = n_buckets h"
    by (simp add: hash_add_fast_def set_bucket_def)
qed

lemma table_element:
  assumes "table_ok h"
  shows "table_map h k = Some v \<longleftrightarrow>
    (\<exists>i < length (buckets h). \<exists>he \<in> set (buckets h ! i). he_key he = Some k \<and> he_value he = v)"
proof -
  have ok: "hash_ok h" "compare_function h = (=)" using assms by (auto simp: table_ok_def)
  note hb = hash_ok_bucket(1,2) [OF ok(1), of k] hash_ok_bucket(3) [OF ok(1)]
  have b: "bucket_ok h i (buckets h ! i)" if "i < length (buckets h)" for i using ok(1) that by (simp add: hash_ok_def)
  have "table_map h k = Some v \<longleftrightarrow> (\<exists>he \<in> set (buckets h ! home h k). k = the (he_key he) \<and> he_value he = v)"
    unfolding table_map_bucket bucket_map_Some [OF hb(2,3)] ok(2) by (rule refl)
  also have "\<dots> \<longleftrightarrow> (\<exists>i < length (buckets h). \<exists>he \<in> set (buckets h ! i). he_key he = Some k \<and> he_value he = v)"
    (is "?l = ?r")
  proof
    assume ?l
    then obtain he where he: "he \<in> set (buckets h ! home h k)" "k = the (he_key he)" "he_value he = v" by blast
    then have "he_key he = Some k" using hb(2) by (auto simp: bucket_ok_def)
    then show ?r using hb(1) he by blast
  next
    assume ?r
    then obtain i he where i: "i < length (buckets h)" "he \<in> set (buckets h ! i)" "he_key he = Some k" "he_value he = v"
      by blast
    then have "i = home h k" using b [OF i(1)] by (auto simp: bucket_ok_def)
    then show ?l using i by force
  qed
  finally show ?thesis .
qed

lemma table_finite: "table_ok h \<Longrightarrow> finite (dom (table_map h))"
proof -
  assume t: "table_ok h"
  have "dom (table_map h) \<subseteq> (\<Union>i < length (buckets h). (\<lambda>he. the (he_key he)) ` set (buckets h ! i))"
  proof
    fix k assume "k \<in> dom (table_map h)"
    then obtain v where "table_map h k = Some v" by blast
    then obtain i he where "i < length (buckets h)" "he \<in> set (buckets h ! i)" "he_key he = Some k"
      unfolding table_element [OF t] by blast
    then show "k \<in> (\<Union>i < length (buckets h). (\<lambda>he. the (he_key he)) ` set (buckets h ! i))" by force
  qed
  then show ?thesis by (rule finite_subset) simp
qed

lemma iter_values_set:
  assumes "table_ok h" "e \<le> length (buckets h)"
  shows "v \<in> set (iter_values h s e) \<longleftrightarrow> (\<exists>k. table_map h k = Some v \<and> s \<le> home h k \<and> home h k < e)"
proof -
  have b: "bucket_ok h i (buckets h ! i)" if "i < length (buckets h)" for i
    using assms(1) that by (simp add: table_ok_def hash_ok_def)
  have "v \<in> set (iter_values h s e) \<longleftrightarrow> (\<exists>i. s \<le> i \<and> i < e \<and> (\<exists>he \<in> set (buckets h ! i). he_value he = v))"
    by (auto simp: iter_values_def)
  also have "\<dots> \<longleftrightarrow> (\<exists>k. table_map h k = Some v \<and> s \<le> home h k \<and> home h k < e)" (is "?l = ?r")
  proof
    assume ?l
    then obtain i he where i: "s \<le> i" "i < e" "he \<in> set (buckets h ! i)" "he_value he = v" by blast
    then have il: "i < length (buckets h)" using assms(2) by simp
    obtain k where k: "he_key he = Some k" "i = home h k" using b [OF il] i(3) by (fastforce simp: bucket_ok_def)
    have "table_map h k = Some v" unfolding table_element [OF assms(1)] using il i k by blast
    then show ?r using k i by blast
  next
    assume ?r
    then obtain k where k: "table_map h k = Some v" "s \<le> home h k" "home h k < e" by blast
    then obtain i he where i: "i < length (buckets h)" "he \<in> set (buckets h ! i)" "he_key he = Some k" "he_value he = v"
      unfolding table_element [OF assms(1)] by blast
    then have "i = home h k" using b [OF i(1)] by (auto simp: bucket_ok_def)
    then show ?l using i k by blast
  qed
  finally show ?thesis .
qed

lemma iter_values_distinct:
  assumes "table_ok h" "e \<le> length (buckets h)" "\<And>k v. table_map h k = Some v \<Longrightarrow> g v = k"
  shows "distinct (iter_values h s e)"
  using assms(2)
proof (induction e)
  case (Suc e)
  have b: "bucket_ok h e (buckets h ! e)" using assms(1) Suc.prems by (simp add: table_ok_def hash_ok_def)
  have g: "he_key he = Some (g (he_value he))" if "he \<in> set (buckets h ! e)" for he
  proof -
    have "he_key he \<noteq> None" using b that unfolding bucket_ok_def by blast
    then obtain k where k: "he_key he = Some k" by blast
    have "e < length (buckets h)" using Suc.prems by simp
    then have "table_map h k = Some (he_value he)" unfolding table_element [OF assms(1)] using k that by blast
    then show ?thesis using assms(3) k by simp
  qed
  have "sorted_wrt (\<lambda>x y. he_value x \<noteq> he_value y) (buckets h ! e)"
  proof (rule sorted_wrt_mono_rel)
    show "sorted_wrt (apart (compare_function h)) (buckets h ! e)" using b by (simp add: bucket_ok_def)
    fix x y assume "x \<in> set (buckets h ! e)" "y \<in> set (buckets h ! e)" "apart (compare_function h) x y"
    then show "he_value x \<noteq> he_value y" using g assms(1) by (auto simp: apart_def table_ok_def)
  qed
  moreover have "distinct (map he_value xs)" if "sorted_wrt (\<lambda>x y. he_value x \<noteq> he_value y) xs" for xs :: "('a, 'b) hash_bucket"
    using that by (induction xs) auto
  ultimately have d: "distinct (map he_value (buckets h ! e))" by blast
  show ?case
  proof (cases "s \<le> e")
    case True
    then have "iter_values h s (Suc e) = iter_values h s e @ map he_value (buckets h ! e)"
      by (simp add: iter_values_def)
    moreover have "set (iter_values h s e) \<inter> set (map he_value (buckets h ! e)) = {}"
    proof (rule ccontr)
      assume "set (iter_values h s e) \<inter> set (map he_value (buckets h ! e)) \<noteq> {}"
      then obtain he where he: "he \<in> set (buckets h ! e)" "he_value he \<in> set (iter_values h s e)" by auto
      have "e \<le> length (buckets h)" using Suc.prems by simp
      then obtain k where k: "table_map h k = Some (he_value he)" "home h k < e"
        using iter_values_set [OF assms(1)] he(2) by blast
      have "he_key he = Some k" using g [OF he(1)] assms(3) [OF k(1)] by simp
      then have "home h k = e" using b he(1) by (auto simp: bucket_ok_def)
      then show False using k(2) by simp
    qed
    ultimately show ?thesis using Suc d by simp
  next
    case False
    then show ?thesis by (simp add: iter_values_def)
  qed
qed (simp add: iter_values_def)

section \<open>Reference counts\<close>

abbreviation routes :: "multi_context \<Rightarrow> mroute_addr \<rightharpoonup> multi_route" where
  "routes m \<equiv> table_map (m_vhash m)"

definition owned_in :: "(mroute_addr \<rightharpoonup> multi_route) \<Rightarrow> nat \<Rightarrow> mroute_addr set" where
  "owned_in t i = {a. \<exists>r. t a = Some r \<and> mr_instance r = i}"

text \<open>
  The counts of every instance are the number of its routes in the table, with one reference more while it is
  open; routes only point to instances that are not freed.
\<close>

definition counts_ok :: "(mroute_addr \<rightharpoonup> multi_route) \<Rightarrow> (nat \<rightharpoonup> multi_instance) \<Rightarrow> bool" where
  "counts_ok t heap \<longleftrightarrow> finite (dom t) \<and>
     (\<forall>a r. t a = Some r \<longrightarrow> mr_addr r = a \<and> heap (mr_instance r) \<noteq> None) \<and>
     (\<forall>i x. heap i = Some x \<longrightarrow> mi_route_count x = int (card (owned_in t i)) \<and>
        mi_refcount x = int (card (owned_in t i)) + (if mi_halt x then 0 else 1) \<and> 0 < mi_refcount x)"

text \<open>The instances are the same but for their counts, and only closed ones have been freed.\<close>

definition same_clients :: "(nat \<rightharpoonup> multi_instance) \<Rightarrow> (nat \<rightharpoonup> multi_instance) \<Rightarrow> bool" where
  "same_clients h h' \<longleftrightarrow> (\<forall>i.
     (case h' i of
        Some x' \<Rightarrow> (\<exists>x a b. h i = Some x \<and> x' = x\<lparr>mi_refcount := a, mi_route_count := b\<rparr>)
      | None \<Rightarrow> (\<forall>x. h i = Some x \<longrightarrow> mi_halt x)))"

lemma same_clients_refl [simp]: "same_clients h h"
proof -
  have "\<exists>a b. x = x\<lparr>mi_refcount := a, mi_route_count := b\<rparr>" for x
    by (intro exI [of _ "mi_refcount x"] exI [of _ "mi_route_count x"]) simp
  then show ?thesis by (auto simp: same_clients_def split: option.splits)
qed

lemma same_clients_trans:
  assumes "same_clients h1 h2" "same_clients h2 h3"
  shows "same_clients h1 h3"
  unfolding same_clients_def
proof
  fix i
  have a: "case h2 i of Some x' \<Rightarrow> (\<exists>x a b. h1 i = Some x \<and> x' = x\<lparr>mi_refcount := a, mi_route_count := b\<rparr>)
      | None \<Rightarrow> (\<forall>x. h1 i = Some x \<longrightarrow> mi_halt x)"
    "case h3 i of Some x' \<Rightarrow> (\<exists>x a b. h2 i = Some x \<and> x' = x\<lparr>mi_refcount := a, mi_route_count := b\<rparr>)
      | None \<Rightarrow> (\<forall>x. h2 i = Some x \<longrightarrow> mi_halt x)"
    using assms unfolding same_clients_def by blast+
  show "case h3 i of Some x' \<Rightarrow> (\<exists>x a b. h1 i = Some x \<and> x' = x\<lparr>mi_refcount := a, mi_route_count := b\<rparr>)
      | None \<Rightarrow> (\<forall>x. h1 i = Some x \<longrightarrow> mi_halt x)"
    using a by (cases "h3 i"; cases "h2 i") (auto, blast)
qed

lemma same_clients_open:
  assumes "same_clients h h'" "h i = Some x" "\<not> mi_halt x"
  obtains a b where "h' i = Some (x\<lparr>mi_refcount := a, mi_route_count := b\<rparr>)"
proof -
  have "case h' i of Some x' \<Rightarrow> (\<exists>x a b. h i = Some x \<and> x' = x\<lparr>mi_refcount := a, mi_route_count := b\<rparr>)
      | None \<Rightarrow> (\<forall>x. h i = Some x \<longrightarrow> mi_halt x)"
    using assms(1) unfolding same_clients_def by blast
  then show ?thesis using that assms(2,3) by (cases "h' i") auto
qed

lemma same_clients_back:
  assumes "same_clients h h'" "h' i = Some x'"
  obtains x a b where "h i = Some x" "x' = x\<lparr>mi_refcount := a, mi_route_count := b\<rparr>"
proof -
  have "case h' i of Some x' \<Rightarrow> (\<exists>x a b. h i = Some x \<and> x' = x\<lparr>mi_refcount := a, mi_route_count := b\<rparr>)
      | None \<Rightarrow> (\<forall>x. h i = Some x \<longrightarrow> mi_halt x)"
    using assms(1) unfolding same_clients_def by blast
  then show ?thesis using that assms(2) by auto
qed

lemma counts_okD:
  assumes "counts_ok t heap" "heap i = Some x"
  shows "mi_route_count x = int (card (owned_in t i))"
    "mi_refcount x = int (card (owned_in t i)) + (if mi_halt x then 0 else 1)" "0 < mi_refcount x"
  using assms unfolding counts_ok_def by blast+

lemma owned_in_finite: "finite (dom t) \<Longrightarrow> finite (owned_in t i)"
  by (rule finite_subset [of _ "dom t"]) (auto simp: owned_in_def)

text \<open>Counting one more route of an open instance, at an address without a route.\<close>

lemma counts_add:
  assumes "counts_ok t heap" "heap (mr_instance r) = Some x" "\<not> mi_halt x" "t (mr_addr r) = None"
  shows "counts_ok (t(mr_addr r \<mapsto> r)) (heap(mr_instance r \<mapsto>
    x\<lparr>mi_refcount := mi_refcount x + 1, mi_route_count := mi_route_count x + 1\<rparr>))"
proof -
  let ?a = "mr_addr r" and ?i = "mr_instance r"
  have fin: "finite (dom t)" using assms(1) by (simp add: counts_ok_def)
  have o: "owned_in (t(?a \<mapsto> r)) i = (if i = ?i then insert ?a (owned_in t i) else owned_in t i)" for i
    using assms(4) by (auto simp: owned_in_def)
  have "?a \<notin> owned_in t i" for i using assms(4) by (simp add: owned_in_def)
  then have c: "card (owned_in (t(?a \<mapsto> r)) i) = card (owned_in t i) + (if i = ?i then 1 else 0)" for i
    using owned_in_finite [OF fin] by (simp add: o)
  let ?heap = "heap(?i \<mapsto> x\<lparr>mi_refcount := mi_refcount x + 1, mi_route_count := mi_route_count x + 1\<rparr>)"
  have q: "mi_route_count y = int (card (owned_in (t(?a \<mapsto> r)) i)) \<and>
      mi_refcount y = int (card (owned_in (t(?a \<mapsto> r)) i)) + (if mi_halt y then 0 else 1) \<and> 0 < mi_refcount y"
    if "?heap i = Some y" for i y
  proof (cases "i = ?i")
    case True
    then have "y = x\<lparr>mi_refcount := mi_refcount x + 1, mi_route_count := mi_route_count x + 1\<rparr>" using that by simp
    then show ?thesis using counts_okD [OF assms(1,2)] c [of i] True by simp
  next
    case False
    then have "heap i = Some y" using that by simp
    then show ?thesis using counts_okD [OF assms(1), of i y] c [of i] False by simp
  qed
  have p: "mr_addr r' = a' \<and> ?heap (mr_instance r') \<noteq> None" if "(t(?a \<mapsto> r)) a' = Some r'" for a' r'
    using that assms(1) unfolding counts_ok_def by (auto split: if_splits)
  have d: "finite (dom (t(?a \<mapsto> r)))" using fin by simp
  show ?thesis unfolding counts_ok_def by (intro conjI allI impI) (use p q d in blast)+
qed

text \<open>Giving up a route: \<^verbatim>\<open>multi_route_del\<close>.\<close>

lemma counts_remove:
  assumes "counts_ok t heap" "t a = Some r" "heap (mr_instance r) = Some x"
  shows "counts_ok (t(a := None)) (heap(mr_instance r := if mi_refcount x \<le> 1 then None
      else Some (x\<lparr>mi_refcount := mi_refcount x - 1, mi_route_count := mi_route_count x - 1\<rparr>)))"
    "mi_refcount x \<le> 1 \<longrightarrow> mi_halt x"
proof -
  let ?i = "mr_instance r"
  have fin: "finite (dom t)" using assms(1) by (simp add: counts_ok_def)
  have o: "owned_in (t(a := None)) i = (if i = ?i then owned_in t i - {a} else owned_in t i)" for i
    using assms(2) by (auto simp: owned_in_def)
  have in_o: "a \<in> owned_in t ?i" using assms(2) by (auto simp: owned_in_def)
  then have pos: "0 < card (owned_in t ?i)" using owned_in_finite [OF fin] card_gt_0_iff by blast
  then have c: "int (card (owned_in (t(a := None)) i)) = int (card (owned_in t i)) - (if i = ?i then 1 else 0)" for i
    using owned_in_finite [OF fin] in_o by (simp add: o of_nat_diff)
  have x: "mi_route_count x = int (card (owned_in t ?i))"
    "mi_refcount x = int (card (owned_in t ?i)) + (if mi_halt x then 0 else 1)"
    using assms(1,3) unfolding counts_ok_def by blast+
  show h: "mi_refcount x \<le> 1 \<longrightarrow> mi_halt x" using x(2) pos by auto
  have empty: "owned_in (t(a := None)) ?i = {}" if "mi_refcount x \<le> 1"
  proof -
    have "card (owned_in (t(a := None)) ?i) = 0" using c [of ?i] x(2) h that pos by auto
    then show ?thesis using owned_in_finite [of "t(a := None)"] fin by simp
  qed
  have p: "mr_addr r' = a' \<and> (heap(?i := if mi_refcount x \<le> 1 then None
      else Some (x\<lparr>mi_refcount := mi_refcount x - 1, mi_route_count := mi_route_count x - 1\<rparr>))) (mr_instance r') \<noteq> None"
    if "(t(a := None)) a' = Some r'" for a' r'
  proof -
    have "t a' = Some r'" using that by (auto split: if_splits)
    then have "mr_addr r' = a'" "heap (mr_instance r') \<noteq> None" using assms(1) by (auto simp: counts_ok_def)
    moreover have "mr_instance r' \<noteq> ?i" if "mi_refcount x \<le> 1"
      using empty [OF that] \<open>(t(a := None)) a' = Some r'\<close> unfolding owned_in_def by blast
    ultimately show ?thesis by auto
  qed
  show "counts_ok (t(a := None)) (heap(?i := if mi_refcount x \<le> 1 then None
      else Some (x\<lparr>mi_refcount := mi_refcount x - 1, mi_route_count := mi_route_count x - 1\<rparr>)))"
    unfolding counts_ok_def
  proof (intro conjI allI impI)
    show "finite (dom (t(a := None)))" using fin by simp
  next
    fix i y assume y: "(heap(?i := if mi_refcount x \<le> 1 then None
      else Some (x\<lparr>mi_refcount := mi_refcount x - 1, mi_route_count := mi_route_count x - 1\<rparr>))) i = Some y"
    have "mi_route_count y = int (card (owned_in (t(a := None)) i)) \<and>
      mi_refcount y = int (card (owned_in (t(a := None)) i)) + (if mi_halt y then 0 else 1) \<and> 0 < mi_refcount y"
    proof (cases "i = ?i")
      case True
      then have "\<not> mi_refcount x \<le> 1" "y = x\<lparr>mi_refcount := mi_refcount x - 1, mi_route_count := mi_route_count x - 1\<rparr>"
        using y by (auto split: if_splits)
      then show ?thesis using x True c [of ?i] by auto
    next
      case False
      then have "heap i = Some y" using y by simp
      then show ?thesis using counts_okD [OF assms(1), of i y] c [of i] False by simp
    qed
    then show "mi_route_count y = int (card (owned_in (t(a := None)) i))"
      "mi_refcount y = int (card (owned_in (t(a := None)) i)) + (if mi_halt y then 0 else 1)" "0 < mi_refcount y"
      by blast+
  qed (use p in blast)+
qed

definition state_ok :: "multi_context \<Rightarrow> bool" where
  "state_ok m \<longleftrightarrow> table_ok (m_vhash m) \<and> counts_ok (routes m) (m_heap m)"

text \<open>What the operations on routes do not change.\<close>

definition only_routes :: "multi_context \<Rightarrow> multi_context \<Rightarrow> bool" where
  "only_routes m m' \<longleftrightarrow> m_route_helper m' = m_route_helper m \<and> m_reaper m' = m_reaper m \<and>
     m_local m' = m_local m \<and> m_stale_routes_ageing_time m' = m_stale_routes_ageing_time m \<and>
     n_buckets (m_vhash m') = n_buckets (m_vhash m) \<and> same_clients (m_heap m) (m_heap m')"

lemma only_routes_trans: "only_routes m1 m2 \<Longrightarrow> only_routes m2 m3 \<Longrightarrow> only_routes m1 m3"
  unfolding only_routes_def using same_clients_trans [of "m_heap m1" "m_heap m2" "m_heap m3"] by simp

text \<open>The owner of the route at an address, where it is defined.\<close>

definition owner_at :: "multi_context \<Rightarrow> int \<Rightarrow> mroute_addr \<Rightarrow> nat option" where
  "owner_at m nw a =
     (case routes m a of
        None \<Rightarrow> None
      | Some r \<Rightarrow> if multi_route_defined m nw r = Some True then Some (mr_instance r) else None)"

lemma defined_evaluates:
  assumes "state_ok m"
  shows "\<exists>d. (case routes m a of None \<Rightarrow> Some False | Some r \<Rightarrow> multi_route_defined m nw r) = Some d \<and>
    (if d then map_option mr_instance (routes m a) else None) = owner_at m nw a \<and> d = (owner_at m nw a \<noteq> None)"
proof (cases "routes m a")
  case (Some r)
  then have "m_heap m (mr_instance r) \<noteq> None" using assms unfolding state_ok_def counts_ok_def by blast
  then obtain d where d: "multi_route_defined m nw r = Some d" by (auto simp: multi_route_defined_def)
  show ?thesis unfolding Some option.case owner_at_def d by (cases d) auto
qed (auto simp: owner_at_def)

lemma route_del_eval:
  assumes "m_heap m (mr_instance r) = Some y"
  shows "multi_route_del m r = Some (m\<lparr>m_heap := (m_heap m)(mr_instance r :=
    if mi_refcount y \<le> 1 then None
    else Some (y\<lparr>mi_refcount := mi_refcount y - 1, mi_route_count := mi_route_count y - 1\<rparr>))\<rparr>)"
proof -
  have swap: "y\<lparr>mi_route_count := c, mi_refcount := k\<rparr> = y\<lparr>mi_refcount := k, mi_route_count := c\<rparr>" for c k by (cases y) simp
  show ?thesis using assms
    by (auto simp: swap multi_route_del_def route_quota_dec_def change_instance_def multi_instance_dec_refcount_def Let_def)
qed

lemma count_eval:
  assumes "m_heap m mi = Some x"
  shows "(multi_instance_inc_refcount m mi \<bind> (\<lambda>m. route_quota_inc m mi)) =
    Some (m\<lparr>m_heap := (m_heap m)(mi \<mapsto> x\<lparr>mi_refcount := mi_refcount x + 1, mi_route_count := mi_route_count x + 1\<rparr>)\<rparr>)"
  using assms by (simp add: multi_instance_inc_refcount_def route_quota_inc_def change_instance_def)

lemma same_clients_count:
  assumes "h mi = Some x"
  shows "same_clients h (h(mi \<mapsto> x\<lparr>mi_refcount := a, mi_route_count := b\<rparr>))"
  using same_clients_refl [of h] assms unfolding same_clients_def by auto

lemma same_clients_free:
  assumes "h mi = Some x" "mi_halt x"
  shows "same_clients h (h(mi := None))"
  using same_clients_refl [of h] assms unfolding same_clients_def by auto

text \<open>
  The heap after one more reference from an instance and one less from the owner of the route that is
  replaced.
\<close>

lemma counts_replace:
  assumes "counts_ok t heap" "t a = Some old" "heap mi = Some x" "\<not> mi_halt x"
    "mr_addr new = a" "mr_instance new = mi"
    "heap1 = heap(mi \<mapsto> x\<lparr>mi_refcount := mi_refcount x + 1, mi_route_count := mi_route_count x + 1\<rparr>)"
  obtains y where "heap1 (mr_instance old) = Some y"
    "counts_ok (t(a \<mapsto> new)) (heap1(mr_instance old := if mi_refcount y \<le> 1 then None
      else Some (y\<lparr>mi_refcount := mi_refcount y - 1, mi_route_count := mi_route_count y - 1\<rparr>)))"
    "same_clients heap (heap1(mr_instance old := if mi_refcount y \<le> 1 then None
      else Some (y\<lparr>mi_refcount := mi_refcount y - 1, mi_route_count := mi_route_count y - 1\<rparr>)))"
proof -
  let ?j = "mr_instance old"
  obtain z where z: "heap ?j = Some z" using assms(1,2) unfolding counts_ok_def by blast
  define heap2 where "heap2 = heap(?j := if mi_refcount z \<le> 1 then None
      else Some (z\<lparr>mi_refcount := mi_refcount z - 1, mi_route_count := mi_route_count z - 1\<rparr>))"
  note rem = counts_remove [OF assms(1,2) z, folded heap2_def]
  have tn: "(t(a := None)) (mr_addr new) = None" using assms(5) by simp
  have t: "(t(a := None))(mr_addr new \<mapsto> new) = t(a \<mapsto> new)" using assms(5) by simp
  show ?thesis
  proof (cases "?j = mi")
    case True
    then have zx: "z = x" using z assms(3) by simp
    then have big: "\<not> mi_refcount x \<le> 1" using rem(2) assms(4) by blast
    define x2 where "x2 = x\<lparr>mi_refcount := mi_refcount x - 1, mi_route_count := mi_route_count x - 1\<rparr>"
    have h2: "heap2 mi = Some x2" using big True by (simp add: heap2_def zx x2_def)
    define y where "y = x\<lparr>mi_refcount := mi_refcount x + 1, mi_route_count := mi_route_count x + 1\<rparr>"
    have x2: "x2\<lparr>mi_refcount := mi_refcount x2 + 1, mi_route_count := mi_route_count x2 + 1\<rparr> = x" "\<not> mi_halt x2"
      using assms(4) by (simp_all add: x2_def)
    have e1: "heap2(mi \<mapsto> x) = heap" using assms(3) True by (auto simp: heap2_def fun_eq_iff)
    have e2: "heap1(?j := if mi_refcount y \<le> 1 then None
      else Some (y\<lparr>mi_refcount := mi_refcount y - 1, mi_route_count := mi_route_count y - 1\<rparr>)) = heap"
      using big assms(3) True by (auto simp: y_def assms(7) fun_eq_iff)
    have "counts_ok ((t(a := None))(mr_addr new \<mapsto> new)) (heap2(mr_instance new \<mapsto>
        x2\<lparr>mi_refcount := mi_refcount x2 + 1, mi_route_count := mi_route_count x2 + 1\<rparr>))"
      by (rule counts_add [OF rem(1) _ x2(2) tn]) (simp add: h2 assms(6))
    then have "counts_ok (t(a \<mapsto> new)) heap" unfolding t assms(6) x2(1) e1 .
    then show ?thesis using that [of y] True e2 by (simp add: y_def assms(7))
  next
    case False
    have h2: "heap2 mi = Some x" using assms(3) False by (simp add: heap2_def)
    have e: "heap1(?j := if mi_refcount z \<le> 1 then None
        else Some (z\<lparr>mi_refcount := mi_refcount z - 1, mi_route_count := mi_route_count z - 1\<rparr>)) =
      heap2(mi \<mapsto> x\<lparr>mi_refcount := mi_refcount x + 1, mi_route_count := mi_route_count x + 1\<rparr>)"
      using False by (auto simp: heap2_def assms(7) fun_eq_iff)
    have c: "counts_ok (t(a \<mapsto> new)) (heap2(mi \<mapsto> x\<lparr>mi_refcount := mi_refcount x + 1, mi_route_count := mi_route_count x + 1\<rparr>))"
    proof -
      have "counts_ok ((t(a := None))(mr_addr new \<mapsto> new)) (heap2(mr_instance new \<mapsto>
          x\<lparr>mi_refcount := mi_refcount x + 1, mi_route_count := mi_route_count x + 1\<rparr>))"
        by (rule counts_add [OF rem(1) _ assms(4) tn]) (simp add: h2 assms(6))
      then show ?thesis unfolding t assms(6) .
    qed
    have "same_clients heap heap2"
      using same_clients_count [where h = heap and mi = ?j, OF z] same_clients_free [where h = heap and mi = ?j, OF z] rem(2)
      by (simp add: heap2_def)
    then have s: "same_clients heap (heap2(mi \<mapsto> x\<lparr>mi_refcount := mi_refcount x + 1, mi_route_count := mi_route_count x + 1\<rparr>))"
      using same_clients_count [where h = heap2 and mi = mi, OF h2] same_clients_trans by blast
    show ?thesis by (rule that [of z]) (use z False c s e in \<open>simp_all add: assms(7)\<close>)
  qed
qed

text \<open>The effect of \<^verbatim>\<open>multi_learn_addr\<close>, for any flags.\<close>

definition learn_wanted :: "multi_context \<Rightarrow> int \<Rightarrow> nat \<Rightarrow> mroute_addr \<Rightarrow> bool" where
  "learn_wanted m nw mi a \<longleftrightarrow> owner_at m nw a \<noteq> Some mi \<and> mroute_learnable_address a \<and> a \<noteq> m_local m"

definition learn_granted :: "multi_context \<Rightarrow> learn_script \<Rightarrow> nat \<Rightarrow> mroute_addr \<Rightarrow> bool" where
  "learn_granted m sc mi a \<longleftrightarrow> (\<exists>x. m_heap m mi = Some x \<and> mi_route_count x < mi_max_routes_per_client x) \<and>
     sc (Some mi) (if routes m a = None then ''add'' else ''update'') a"

definition new_route :: "multi_context \<Rightarrow> int \<Rightarrow> nat \<Rightarrow> mroute_addr \<Rightarrow> u32 \<Rightarrow> multi_route" where
  "new_route m nw mi a flags =
     \<lparr>mr_addr = a, mr_instance = mi, mr_flags = flags,
      mr_cache_generation = (if flags AND MULTI_ROUTE_CACHE \<noteq> 0 then mh_cache_generation (m_route_helper m) else 0),
      mr_last_reference = nw\<rparr>"

lemma learn_effect:
  assumes "state_ok m" "m_heap m mi = Some x" "\<not> mi_halt x"
  shows "\<exists>m'. multi_learn_addr m nw sc mi a flags =
      Some (if learn_wanted m nw mi a \<and> learn_granted m sc mi a then Some mi else owner_at m nw a, m') \<and>
    state_ok m' \<and> only_routes m m' \<and>
    routes m' = (if learn_wanted m nw mi a \<and> learn_granted m sc mi a
      then (routes m)(a \<mapsto> new_route m nw mi a flags) else routes m)"
proof -
  let ?h = "m_vhash m" and ?new = "new_route m nw mi a flags"
  let ?hv = "hash_value (m_vhash m) a" and ?b = "home (m_vhash m) a"
  have ok: "table_ok ?h" "counts_ok (routes m) (m_heap m)" using assms(1) by (auto simp: state_ok_def)
  obtain he vh where look: "hash_lookup_fast ?h ?b a ?hv = (he, vh)" by fastforce
  note l = table_lookup_fast [OF ok(1) look]
  define m1 where "m1 = m\<lparr>m_vhash := vh\<rparr>"
  have m1: "m_vhash m1 = vh" "m_heap m1 = m_heap m" "m_route_helper m1 = m_route_helper m" "m_local m1 = m_local m"
    "m_reaper m1 = m_reaper m" "m_stale_routes_ageing_time m1 = m_stale_routes_ageing_time m"
    by (simp_all add: m1_def)
  have def1: "multi_route_defined m1 = multi_route_defined m"
    by (intro ext) (simp add: multi_route_defined_def m1)
  obtain d where d: "(case routes m a of None \<Rightarrow> Some False | Some r \<Rightarrow> multi_route_defined m nw r) = Some d"
    "(if d then map_option mr_instance (routes m a) else None) = owner_at m nw a"
    using defined_evaluates [OF assms(1)] by blast
  have s1: "state_ok m1" "only_routes m m1" "routes m1 = routes m"
    using ok l by (auto simp: state_ok_def only_routes_def m1)
  let ?inc = "m1\<lparr>m_heap := (m_heap m)(mi \<mapsto> x\<lparr>mi_refcount := mi_refcount x + 1, mi_route_count := mi_route_count x + 1\<rparr>)\<rparr>"
  have inc: "(multi_instance_inc_refcount m1 mi \<bind> (\<lambda>m. route_quota_inc m mi)) = Some ?inc"
    using count_eval [of m1 mi x] assms(2) by (simp add: m1)
  have quota: "route_quota_test m1 mi = Some (mi_route_count x < mi_max_routes_per_client x)"
    using assms(2) by (auto simp: route_quota_test_def m1)
  have run: "multi_learn_addr m nw sc mi a flags =
      (if learn_wanted m nw mi a
       then case he of
           Some he \<Rightarrow>
             (if mi_route_count x < mi_max_routes_per_client x \<and> sc (Some mi) ''update'' a
              then do { m \<leftarrow> multi_route_del ?inc (he_value he);
                        Some (Some mi, m\<lparr>m_vhash := set_found (m_vhash m) ?b (he\<lparr>he_key := Some a, he_value := ?new\<rparr>)\<rparr>) }
              else Some (owner_at m nw a, m1))
         | None \<Rightarrow>
             (if mi_route_count x < mi_max_routes_per_client x \<and> sc (Some mi) ''add'' a
              then Some (Some mi, ?inc\<lparr>m_vhash := hash_add_fast vh ?b a ?hv ?new\<rparr>)
              else Some (owner_at m nw a, m1))
       else Some (owner_at m nw a, m1))"
  proof -
    have e: "(case map_option he_value he of None \<Rightarrow> Some False | Some r \<Rightarrow> multi_route_defined (m\<lparr>m_vhash := vh\<rparr>) nw r) = Some d"
      "(if d then map_option mr_instance (map_option he_value he) else None) = owner_at m nw a"
      using d unfolding l(1) m1_def [symmetric] def1 by auto
    have inc': "multi_instance_inc_refcount (m\<lparr>m_vhash := vh\<rparr>) mi \<bind> (\<lambda>m. route_quota_inc m mi \<bind> f) = f ?inc" for f
      using inc unfolding m1_def by (cases "multi_instance_inc_refcount (m\<lparr>m_vhash := vh\<rparr>) mi") auto
    have w: "(owner_at m nw a = None \<or> owner_at m nw a \<noteq> Some mi) \<and> mroute_learnable_address a \<and> a \<noteq> m_local m \<longleftrightarrow>
        learn_wanted m nw mi a"
      by (auto simp: learn_wanted_def)
    show ?thesis
      unfolding multi_learn_addr_def Let_def look prod.case e bind.bind_lunit
      by (cases he) (auto simp: w quota [unfolded m1_def] inc' new_route_def m1_def)
  qed
  show ?thesis
  proof (cases "learn_wanted m nw mi a \<and> learn_granted m sc mi a")
    case False
    have "multi_learn_addr m nw sc mi a flags = Some (owner_at m nw a, m1)"
      unfolding run using False l(1) [symmetric] assms(2) by (cases he) (auto simp: learn_granted_def)
    then show ?thesis using s1 False by auto
  next
    case True
    then have w: "learn_wanted m nw mi a" and q: "mi_route_count x < mi_max_routes_per_client x"
      and sc: "sc (Some mi) (if routes m a = None then ''add'' else ''update'') a"
      using assms(2) by (auto simp: learn_granted_def)
    show ?thesis
    proof (cases he)
      case None
      then have look': "hash_lookup_fast ?h ?b a ?hv = (None, vh)" using look by simp
      have n: "routes m a = None" using l(1) None by simp
      note add = table_add_fast [OF ok(1) look']
      define m2 where "m2 = ?inc\<lparr>m_vhash := hash_add_fast vh ?b a ?hv ?new\<rparr>"
      have r: "multi_learn_addr m nw sc mi a flags = Some (Some mi, m2)"
        unfolding run m2_def using w q sc n None by simp
      have "counts_ok ((routes m)(mr_addr ?new \<mapsto> ?new)) ((m_heap m)(mr_instance ?new \<mapsto>
          x\<lparr>mi_refcount := mi_refcount x + 1, mi_route_count := mi_route_count x + 1\<rparr>))"
        by (rule counts_add [OF ok(2)]) (simp_all add: new_route_def assms n)
      then have "state_ok m2" using add by (simp add: state_ok_def m2_def m1 new_route_def)
      moreover have "only_routes m m2"
        using add(1,4) same_clients_count [where h = "m_heap m" and mi = mi, OF assms(2)]
        by (simp add: only_routes_def m2_def m1)
      moreover have "routes m2 = (routes m)(a \<mapsto> ?new)" using add(1,3) by (simp add: m2_def)
      ultimately show ?thesis using r True by auto
    next
      case (Some e)
      then have look': "hash_lookup_fast ?h ?b a ?hv = (Some e, vh)" using look by simp
      have n: "routes m a = Some (he_value e)" using l(1) Some by simp
      note fnd = table_found [OF ok(1) look']
      have key: "e\<lparr>he_key := Some a, he_value := ?new\<rparr> = e\<lparr>he_value := ?new\<rparr>" using fnd(1) by (cases e) simp
      obtain y where y: "m_heap ?inc (mr_instance (he_value e)) = Some y"
        "counts_ok ((routes m)(a \<mapsto> ?new)) ((m_heap ?inc)(mr_instance (he_value e) := if mi_refcount y \<le> 1 then None
          else Some (y\<lparr>mi_refcount := mi_refcount y - 1, mi_route_count := mi_route_count y - 1\<rparr>)))"
        "same_clients (m_heap m) ((m_heap ?inc)(mr_instance (he_value e) := if mi_refcount y \<le> 1 then None
          else Some (y\<lparr>mi_refcount := mi_refcount y - 1, mi_route_count := mi_route_count y - 1\<rparr>)))"
        by (rule counts_replace [OF ok(2) n assms(2,3), of ?new "m_heap ?inc"]) (simp_all add: new_route_def)
      define m2 where "m2 = ?inc\<lparr>m_heap := (m_heap ?inc)(mr_instance (he_value e) := if mi_refcount y \<le> 1 then None
          else Some (y\<lparr>mi_refcount := mi_refcount y - 1, mi_route_count := mi_route_count y - 1\<rparr>)),
        m_vhash := set_found vh ?b (e\<lparr>he_value := ?new\<rparr>)\<rparr>"
      have del: "multi_route_del ?inc (he_value e) = Some (?inc\<lparr>m_heap := (m_heap ?inc)(mr_instance (he_value e) :=
          if mi_refcount y \<le> 1 then None
          else Some (y\<lparr>mi_refcount := mi_refcount y - 1, mi_route_count := mi_route_count y - 1\<rparr>))\<rparr>)"
        by (rule route_del_eval [OF y(1)])
      have r: "multi_learn_addr m nw sc mi a flags = Some (Some mi, m2)"
        unfolding run Some option.case del bind.bind_lunit key using w q sc n by (simp add: m2_def m1)
      have "state_ok m2" using y(2) fnd(3,4) unfolding state_ok_def m2_def by simp
      moreover have "only_routes m m2" using y(3) fnd(5) unfolding only_routes_def m2_def by (simp add: m1)
      moreover have "routes m2 = (routes m)(a \<mapsto> ?new)" using fnd(4) by (simp add: m2_def)
      ultimately show ?thesis using r True by auto
    qed
  qed
qed

end
