(* ===== verification/Packet_Id.thy ===== *)
theory Packet_Id
  imports Buffer Replay_Filter
begin

text \<open>
  Replay protection of the data channel (\<^verbatim>\<open>packet_id.c\<close>, \<^verbatim>\<open>packet_id.h\<close>) on top of the
  circular list of \<^verbatim>\<open>circ_list.h\<close>: the receiver's sliding window of packet ids, the sender's
  counter, and their wire format.
\<close>

section \<open>Circular lists (circ\_list.h)\<close>

record seq_list =
  x_head :: int
  x_size :: int
  x_cap :: int
  x_list :: "time list"

definition circ_list_alloc :: "int \<Rightarrow> seq_list" where
  "circ_list_alloc sz = \<lparr>x_head = 0, x_size = 0, x_cap = sz, x_list = replicate (nat sz) 0\<rparr>"

definition circ_list_push :: "seq_list \<Rightarrow> time \<Rightarrow> seq_list option" where
  "circ_list_push l item =
     do { h \<leftarrow> modulo_add (x_head l) (- 1) (x_cap l);
          Some (l\<lparr>x_head := h, x_list := (x_list l)[nat h := item],
                  x_size := min_int (x_size l + 1) (x_cap l)\<rparr>) }"

definition circ_list_index :: "seq_list \<Rightarrow> int \<Rightarrow> int option" where
  "circ_list_index l i =
     (if i < 0 \<or> i \<ge> x_size l then None else modulo_add (x_head l) i (x_cap l))"

definition circ_list_item :: "seq_list \<Rightarrow> int \<Rightarrow> time option" where
  "circ_list_item l i = do { j \<leftarrow> circ_list_index l i; Some (x_list l ! nat j) }"

definition circ_list_set :: "seq_list \<Rightarrow> int \<Rightarrow> time \<Rightarrow> seq_list option" where
  "circ_list_set l i v =
     do { j \<leftarrow> circ_list_index l i; Some (l\<lparr>x_list := (x_list l)[nat j := v]\<rparr>) }"

definition circ_list_reset :: "seq_list \<Rightarrow> seq_list" where
  "circ_list_reset l = l\<lparr>x_head := 0, x_size := 0\<rparr>"

section \<open>State (packet\_id.h)\<close>

record packet_id_rec =
  last_reap :: time
  rec_time :: time
  rec_id :: u32
  seq_backtrack :: int
  time_backtrack :: int
  max_backtrack_stat :: int
  initialized :: bool
  rec_seq_list :: "seq_list option"
  rec_name :: string
  rec_unit :: int

record packet_id_send =
  send_id :: u32
  send_time :: time

record packet_id_net =
  net_id :: u32
  net_time :: time

record packet_id =
  pid_send :: packet_id_send
  pid_rec :: packet_id_rec

definition SEQ_UNSEEN :: time where "SEQ_UNSEEN = 0"
definition SEQ_EXPIRED :: time where "SEQ_EXPIRED = 1"
definition PACKET_ID_MAX :: u32 where "PACKET_ID_MAX = 0xFFFFFFFF"
definition PACKET_ID_WRAP_TRIGGER :: u32 where "PACKET_ID_WRAP_TRIGGER = 0xFF000000"
definition SEQ_REAP_INTERVAL :: int where "SEQ_REAP_INTERVAL = 5"
definition MIN_SEQ_BACKTRACK :: int where "MIN_SEQ_BACKTRACK = 0"
definition MAX_SEQ_BACKTRACK :: int where "MAX_SEQ_BACKTRACK = 65536"
definition MIN_TIME_BACKTRACK :: int where "MIN_TIME_BACKTRACK = 0"
definition MAX_TIME_BACKTRACK :: int where "MAX_TIME_BACKTRACK = 600"

definition packet_id_cleared :: packet_id where
  "packet_id_cleared =
     \<lparr>pid_send = \<lparr>send_id = 0, send_time = 0\<rparr>,
      pid_rec = \<lparr>last_reap = 0, rec_time = 0, rec_id = 0, seq_backtrack = 0, time_backtrack = 0,
        max_backtrack_stat = 0, initialized = False, rec_seq_list = None, rec_name = [], rec_unit = 0\<rparr>\<rparr>"

section \<open>Operations\<close>

definition packet_id_init :: "int \<Rightarrow> int \<Rightarrow> string \<Rightarrow> int \<Rightarrow> packet_id option" where
  "packet_id_init sb tb name unt =
     (let r = (pid_rec packet_id_cleared)\<lparr>rec_name := name, rec_unit := unt\<rparr> in
      do { r \<leftarrow> (if sb \<noteq> 0 then
                  (if MIN_SEQ_BACKTRACK \<le> sb \<and> sb \<le> MAX_SEQ_BACKTRACK \<and>
                      MIN_TIME_BACKTRACK \<le> tb \<and> tb \<le> MAX_TIME_BACKTRACK
                   then Some (r\<lparr>rec_seq_list := Some (circ_list_alloc sb),
                                seq_backtrack := sb, time_backtrack := tb\<rparr>)
                   else None)
                else Some r);
           Some (packet_id_cleared\<lparr>pid_rec := r\<lparr>initialized := True\<rparr>\<rparr>) })"

definition packet_id_free :: "packet_id \<Rightarrow> packet_id" where
  "packet_id_free p = packet_id_cleared"

text \<open>The \<^verbatim>\<open>while (p->id < pin->id)\<close> loop of \<^verbatim>\<open>packet_id_add\<close>.\<close>

function packet_id_add_loop :: "seq_list \<Rightarrow> u32 \<Rightarrow> u32 \<Rightarrow> (seq_list \<times> u32) option" where
  "packet_id_add_loop l i target =
     (if i < target
      then (case circ_list_push l SEQ_UNSEEN of
              None \<Rightarrow> None
            | Some l' \<Rightarrow> packet_id_add_loop l' (i + 1) target)
      else Some (l, i))"
  by pat_completeness auto
termination
proof (relation "measure (\<lambda>(l, i, target). unat target - unat i)")
  fix l i target l'
  assume "(i :: u32) < target"
  then have "unat (i + 1) = Suc (unat i)" "unat i < unat target"
    by (auto simp: unat_Suc_less word_less_nat_alt)
  then show "((l', i + 1, target), (l :: seq_list, i, target))
      \<in> measure (\<lambda>(l, i, target). unat target - unat i)"
    by simp
qed simp

declare packet_id_add_loop.simps [simp del]

definition packet_id_add :: "time \<Rightarrow> packet_id_rec \<Rightarrow> packet_id_net \<Rightarrow> packet_id_rec option" where
  "packet_id_add nw p pin =
     (case rec_seq_list p of
        Some l \<Rightarrow>
          (let bt = word_of_int (seq_backtrack p) :: u32;
               (p, l) =
                 (if x_size l = 0 \<or> net_time pin > rec_time p \<or>
                     (net_id pin \<ge> bt \<and> net_id pin - bt > rec_id p)
                  then (p\<lparr>rec_time := net_time pin,
                          rec_id := (if net_id pin > bt then net_id pin - bt else 0)\<rparr>,
                        circ_list_reset l)
                  else (p, l))
           in do { (l, i) \<leftarrow> packet_id_add_loop l (rec_id p) (net_id pin);
                   let diff = i - net_id pin;
                   l \<leftarrow> (if diff < word_of_int (x_size l) \<and> nw > SEQ_EXPIRED
                         then circ_list_set l (uint diff) nw else Some l);
                   Some (p\<lparr>rec_id := i, rec_seq_list := Some l\<rparr>) })
      | None \<Rightarrow> Some (p\<lparr>rec_time := net_time pin, rec_id := net_id pin\<rparr>))"

text \<open>The \<^verbatim>\<open>for\<close> loop of \<^verbatim>\<open>packet_id_reap\<close>, over the indices still to come.\<close>

fun packet_id_reap_loop ::
  "time \<Rightarrow> int \<Rightarrow> nat list \<Rightarrow> bool \<Rightarrow> seq_list \<Rightarrow> seq_list option" where
  "packet_id_reap_loop nw tb [] expire l = Some l"
| "packet_id_reap_loop nw tb (i # is) expire l =
     do { t \<leftarrow> circ_list_item l (int i);
          if t = SEQ_EXPIRED then Some l
          else let expire = (if \<not> expire \<and> t \<noteq> 0 \<and> t + tb < nw then True else expire) in
               do { l \<leftarrow> (if expire then circ_list_set l (int i) SEQ_EXPIRED else Some l);
                    packet_id_reap_loop nw tb is expire l } }"

definition packet_id_reap :: "time \<Rightarrow> packet_id_rec \<Rightarrow> packet_id_rec option" where
  "packet_id_reap nw p =
     do { p \<leftarrow> (if time_backtrack p \<noteq> 0
                then do { l \<leftarrow> rec_seq_list p;
                          l \<leftarrow> packet_id_reap_loop nw (time_backtrack p) [0..<nat (x_size l)] False l;
                          Some (p\<lparr>rec_seq_list := Some l\<rparr>) }
                else Some p);
          Some (p\<lparr>last_reap := nw\<rparr>) }"

definition packet_id_reap_test :: "time \<Rightarrow> packet_id_rec \<Rightarrow> packet_id_rec option" where
  "packet_id_reap_test nw p =
     (if last_reap p + SEQ_REAP_INTERVAL \<le> nw then packet_id_reap nw p else Some p)"

text \<open>\<^verbatim>\<open>packet_id_test\<close> returns the verdict and the record, whose backtrack statistic it updates.\<close>

definition packet_id_test :: "packet_id_rec \<Rightarrow> packet_id_net \<Rightarrow> (bool \<times> packet_id_rec) option" where
  "packet_id_test p pin =
     (if \<not> initialized p then None
      else if net_id pin = 0 then Some (False, p)
      else if seq_backtrack p \<noteq> 0 then
        (if net_time pin = rec_time p then
           (if net_id pin > rec_id p then Some (True, p)
            else let diff = rec_id p - net_id pin;
                     p = (if sint diff > max_backtrack_stat p
                          then p\<lparr>max_backtrack_stat := sint diff\<rparr> else p)
                 in do { l \<leftarrow> rec_seq_list p;
                         if diff \<ge> word_of_int (x_size l) then Some (False, p)
                         else do { v \<leftarrow> circ_list_item l (uint diff);
                                   Some (v = 0, p) } })
         else if net_time pin < rec_time p then Some (False, p)
         else Some (True, p))
      else
        (if net_time pin = rec_time p
         then Some (rec_id p = 0 \<or> net_id pin = rec_id p + 1, p)
         else if net_time pin < rec_time p then Some (False, p)
         else Some (net_id pin = 1, p)))"

definition packet_id_read :: "buffer \<Rightarrow> bool \<Rightarrow> bool \<times> packet_id_net \<times> buffer" where
  "packet_id_read b long_form =
     (case buf_read b 4 of
        (None, b) \<Rightarrow> (False, \<lparr>net_id = 0, net_time = 0\<rparr>, b)
      | (Some nid, b) \<Rightarrow>
          (let pin = \<lparr>net_id = of_be32 nid, net_time = 0\<rparr> in
           if long_form then
             (case buf_read b 4 of
                (None, b) \<Rightarrow> (False, pin, b)
              | (Some nt, b) \<Rightarrow> (True, pin\<lparr>net_time := uint (of_be32 nt)\<rparr>, b))
           else (True, pin, b)))"

definition packet_id_send_update :: "time \<Rightarrow> packet_id_send \<Rightarrow> bool \<Rightarrow> bool \<times> packet_id_send" where
  "packet_id_send_update nw p long_form =
     (let p = (if send_time p = 0 then p\<lparr>send_time := nw\<rparr> else p) in
      if send_id p = PACKET_ID_MAX \<and> (\<not> long_form \<or> nw \<le> send_time p) then (False, p)
      else let p = (if send_id p = PACKET_ID_MAX then p\<lparr>send_time := nw, send_id := 0\<rparr> else p)
           in (True, p\<lparr>send_id := send_id p + 1\<rparr>))"

definition packet_id_write ::
  "time \<Rightarrow> packet_id_send \<Rightarrow> buffer \<Rightarrow> bool \<Rightarrow> bool \<Rightarrow> bool \<times> packet_id_send \<times> buffer" where
  "packet_id_write nw p b long_form prepend =
     (case packet_id_send_update nw p long_form of
        (False, p) \<Rightarrow> (False, p, b)
      | (True, p) \<Rightarrow>
          (let nid = be32 (send_id p); nt = be32 (word_of_int (send_time p)) in
           if prepend then
             (case (if long_form then buf_write_prepend b nt else Some b) of
                None \<Rightarrow> (False, p, b)
              | Some b \<Rightarrow> (case buf_write_prepend b nid of
                             None \<Rightarrow> (False, p, b)
                           | Some b \<Rightarrow> (True, p, b)))
           else
             (case buf_write b nid of
                None \<Rightarrow> (False, p, b)
              | Some b \<Rightarrow> (if long_form
                           then (case buf_write b nt of
                                   None \<Rightarrow> (False, p, b)
                                 | Some b \<Rightarrow> (True, p, b))
                           else (True, p, b)))))"

definition packet_id_close_to_wrapping :: "packet_id_send \<Rightarrow> bool" where
  "packet_id_close_to_wrapping p \<longleftrightarrow> send_id p \<ge> PACKET_ID_WRAP_TRIGGER"

definition packet_id_size :: "bool \<Rightarrow> int" where
  "packet_id_size long_form = 4 + (if long_form then 4 else 0)"

definition reset_packet_id_send :: "packet_id_send \<Rightarrow> packet_id_send" where
  "reset_packet_id_send p = p\<lparr>send_time := 0, send_id := 0\<rparr>"

definition check_timestamp_delta :: "time \<Rightarrow> time \<Rightarrow> u32 \<Rightarrow> bool" where
  "check_timestamp_delta nw remote max_delta =
     (let a = (if nw \<ge> remote then word_of_int (nw - remote) else word_of_int (remote - nw)) :: u32
      in a \<le> max_delta)"


subsection \<open>Persistence (\<^verbatim>\<open>--replay-persist\<close>)\<close>

text \<open>
  The file is outside the program: what opening, locking, reading, seeking and writing it return
  are arguments. \<open>fd < 0\<close> is the disabled state.
\<close>

record packet_id_persist =
  filename :: "string option"
  fd :: int
  per_time :: time
  per_id :: u32
  time_last_written :: time
  id_last_written :: u32

type_synonym file_image = "time \<times> u32"

definition packet_id_persist_init :: packet_id_persist where
  "packet_id_persist_init =
     \<lparr>filename = None, fd = - 1, per_time = 0, per_id = 0, time_last_written = 0, id_last_written = 0\<rparr>"

definition packet_id_persist_enabled :: "packet_id_persist \<Rightarrow> bool" where
  "packet_id_persist_enabled p \<longleftrightarrow> fd p \<ge> 0"

definition packet_id_persist_close :: "packet_id_persist \<Rightarrow> packet_id_persist" where
  "packet_id_persist_close p = (if packet_id_persist_enabled p then packet_id_persist_init else p)"

text \<open>
  \<open>open_fd\<close> is what \<^verbatim>\<open>platform_open\<close> returns, \<open>locked\<close> whether \<^verbatim>\<open>flock\<close> succeeds (failing is
  fatal), \<open>img\<close> the contents when the read returns a whole image.
\<close>

definition packet_id_persist_load ::
  "packet_id_persist \<Rightarrow> string \<Rightarrow> int \<Rightarrow> bool \<Rightarrow> file_image option \<Rightarrow> packet_id_persist option" where
  "packet_id_persist_load p fname open_fd locked img =
     (if \<not> packet_id_persist_enabled p then
        (let p = p\<lparr>fd := open_fd\<rparr> in
         if fd p = - 1 then Some p
         else if \<not> locked then None
         else let p = p\<lparr>filename := Some fname\<rparr> in
           Some (case img of
                   None \<Rightarrow> p
                 | Some (t, i) \<Rightarrow> p\<lparr>per_time := t, time_last_written := t, per_id := i, id_last_written := i\<rparr>))
      else Some p)"

text \<open>Returns what is written to the start of the file, if anything is, and the new state.\<close>

definition packet_id_persist_save ::
  "packet_id_persist \<Rightarrow> bool \<Rightarrow> bool \<Rightarrow> file_image option \<times> packet_id_persist" where
  "packet_id_persist_save p seek_ok write_ok =
     (if packet_id_persist_enabled p \<and> per_time p \<noteq> 0 \<and>
         (per_time p \<noteq> time_last_written p \<or> per_id p \<noteq> id_last_written p)
      then if seek_ok \<and> write_ok
           then (Some (per_time p, per_id p),
                 p\<lparr>time_last_written := per_time p, id_last_written := per_id p\<rparr>)
           else (None, p)
      else (None, p))"

definition packet_id_persist_load_obj :: "packet_id_persist option \<Rightarrow> packet_id \<Rightarrow> packet_id" where
  "packet_id_persist_load_obj po pid =
     (case po of
        None \<Rightarrow> pid
      | Some p \<Rightarrow>
          (if packet_id_persist_enabled p \<and> per_time p \<noteq> 0
           then pid\<lparr>pid_rec := (pid_rec pid)\<lparr>rec_time := per_time p, rec_id := per_id p\<rparr>\<rparr>
           else pid))"

definition packet_id_persist_save_obj :: "packet_id_persist \<Rightarrow> packet_id \<Rightarrow> packet_id_persist" where
  "packet_id_persist_save_obj p pid =
     (if packet_id_persist_enabled p \<and> rec_time (pid_rec pid) \<noteq> 0
      then p\<lparr>per_time := rec_time (pid_rec pid), per_id := rec_id (pid_rec pid)\<rparr>
      else p)"

subsection \<open>The check of a received packet (\<^verbatim>\<open>crypto_check_replay\<close> of crypto.c)\<close>

text \<open>
  The state is the packet id record of the key and the optional persistence record;
  \<open>long_form\<close> is the flag \<^verbatim>\<open>CO_PACKET_ID_LONG_FORM\<close>.
\<close>

definition crypto_check_replay ::
  "time \<Rightarrow> bool \<Rightarrow> packet_id \<times> packet_id_persist option \<Rightarrow> packet_id_net \<Rightarrow>
   (bool \<times> packet_id \<times> packet_id_persist option) option" where
  "crypto_check_replay nw long_form s pin =
     (case s of (pid, per) \<Rightarrow>
        do { r \<leftarrow> packet_id_reap_test nw (pid_rec pid);
             (ok, r) \<leftarrow> packet_id_test r pin;
             if ok then
               do { r \<leftarrow> packet_id_add nw r pin;
                    let pid = pid\<lparr>pid_rec := r\<rparr>;
                    let per = (if long_form then map_option (\<lambda>q. packet_id_persist_save_obj q pid) per
                               else per);
                    Some (True, pid, per) }
             else Some (False, pid\<lparr>pid_rec := r\<rparr>, per) })"

section \<open>The circular list as a bounded history\<close>

text \<open>
  The items from the newest (index 0) to the oldest. Pushing onto a full list drops the oldest.
\<close>

definition circ_ok :: "seq_list \<Rightarrow> bool" where
  "circ_ok l \<longleftrightarrow> 0 < x_cap l \<and> int (length (x_list l)) = x_cap l \<and>
     0 \<le> x_head l \<and> x_head l < x_cap l \<and> 0 \<le> x_size l \<and> x_size l \<le> x_cap l"

definition circ_items :: "seq_list \<Rightarrow> time list" where
  "circ_items l =
     map (\<lambda>i. x_list l ! nat ((x_head l + int i) mod x_cap l)) [0..<nat (x_size l)]"

lemma length_circ_items [simp]: "length (circ_items l) = nat (x_size l)"
  by (simp add: circ_items_def)

lemma circ_items_nth:
  "i < nat (x_size l) \<Longrightarrow> circ_items l ! i = x_list l ! nat ((x_head l + int i) mod x_cap l)"
  by (simp add: circ_items_def)

lemma circ_alloc:
  assumes "0 < n"
  shows "circ_ok (circ_list_alloc n)" "circ_items (circ_list_alloc n) = []"
    "x_cap (circ_list_alloc n) = n" "x_size (circ_list_alloc n) = 0"
  using assms by (auto simp: circ_ok_def circ_list_alloc_def circ_items_def)

lemma circ_reset:
  assumes "circ_ok l"
  shows "circ_ok (circ_list_reset l)" "circ_items (circ_list_reset l) = []"
    "x_cap (circ_list_reset l) = x_cap l" "x_size (circ_list_reset l) = 0"
  using assms by (auto simp: circ_ok_def circ_list_reset_def circ_items_def)

lemma circ_index:
  assumes "circ_ok l" "0 \<le> i" "i < x_size l"
  shows "circ_list_index l i = Some ((x_head l + i) mod x_cap l)"
  using assms by (simp add: circ_list_index_def circ_ok_def modulo_add_eq)

lemma circ_item:
  assumes "circ_ok l" "0 \<le> i" "i < x_size l"
  shows "circ_list_item l i = Some (circ_items l ! nat i)"
  using assms by (simp add: circ_list_item_def circ_index circ_items_nth nat_less_iff)

lemma circ_set:
  assumes "circ_ok l" "0 \<le> i" "i < x_size l"
  obtains l' where "circ_list_set l i v = Some l'" "circ_ok l'" "x_cap l' = x_cap l"
    "x_size l' = x_size l" "circ_items l' = (circ_items l)[nat i := v]"
proof
  let ?p = "\<lambda>j. nat ((x_head l + j) mod x_cap l)"
  let ?l = "l\<lparr>x_list := (x_list l)[?p i := v]\<rparr>"
  show "circ_list_set l i v = Some ?l"
    using assms by (simp add: circ_list_set_def circ_index)
  show "circ_ok ?l" "x_cap ?l = x_cap l" "x_size ?l = x_size l"
    using assms(1) by (auto simp: circ_ok_def)
  show "circ_items ?l = (circ_items l)[nat i := v]"
  proof (rule nth_equalityI)
    fix k assume "k < length (circ_items ?l)"
    then have k: "int k < x_size l" by simp
    have pos: "0 < x_cap l" "x_size l \<le> x_cap l" "int (length (x_list l)) = x_cap l"
      using assms(1) by (auto simp: circ_ok_def)
    have "?p (int k) < length (x_list l)"
      using pos by (metis nat_int nat_less_iff pos_mod_bound pos_mod_sign nat_mono_iff)
    moreover have "i \<noteq> int k \<Longrightarrow> ?p i \<noteq> ?p (int k)"
      using mod_offset_inj [of "x_head l" i "x_cap l" "int k"] k pos assms(2,3)
      by (auto simp: eq_nat_nat_iff)
    ultimately show "circ_items ?l ! k = (circ_items l)[nat i := v] ! k"
      using k assms(2) by (cases "i = int k") (auto simp: circ_items_nth nat_less_iff)
  qed simp
qed

lemma circ_push:
  assumes "circ_ok l"
  obtains l' where "circ_list_push l v = Some l'" "circ_ok l'" "x_cap l' = x_cap l"
    "x_size l' = min (x_size l + 1) (x_cap l)"
    "circ_items l' = take (nat (x_cap l)) (v # circ_items l)"
proof
  let ?h = "(x_head l + - 1) mod x_cap l"
  let ?l = "l\<lparr>x_head := ?h, x_list := (x_list l)[nat ?h := v], x_size := min (x_size l + 1) (x_cap l)\<rparr>"
  have pos: "0 < x_cap l" "0 \<le> x_size l" "x_size l \<le> x_cap l" "int (length (x_list l)) = x_cap l"
    using assms by (auto simp: circ_ok_def)
  show "circ_list_push l v = Some ?l"
    using assms by (simp add: circ_list_push_def circ_ok_def modulo_add_eq min_int_eq)
  show "circ_ok ?l" "x_cap ?l = x_cap l" "x_size ?l = min (x_size l + 1) (x_cap l)"
    using assms by (auto simp: circ_ok_def)
  have h: "nat ?h < length (x_list l)"
    using pos by (metis nat_int nat_less_iff pos_mod_bound pos_mod_sign nat_mono_iff)
  show "circ_items ?l = take (nat (x_cap l)) (v # circ_items l)"
  proof (rule nth_equalityI)
    fix k assume "k < length (circ_items ?l)"
    then have k: "int k < x_size l + 1" "int k < x_cap l" using pos by auto
    have shift: "(?h + int k) mod x_cap l = (x_head l + - 1 + int k) mod x_cap l"
      by (simp add: mod_simps)
    show "circ_items ?l ! k = take (nat (x_cap l)) (v # circ_items l) ! k"
    proof (cases k)
      case 0
      then show ?thesis using h pos k by (simp add: circ_items_nth)
    next
      case (Suc j)
      have "?h \<noteq> (?h + int k) mod x_cap l"
        using mod_offset_inj [of "x_head l + - 1" 0 "x_cap l" "int k"] k pos Suc
        unfolding shift by auto
      then have "nat ?h \<noteq> nat ((?h + int k) mod x_cap l)"
        using pos by (simp add: eq_nat_nat_iff)
      moreover have "(?h + int k) mod x_cap l = (x_head l + int j) mod x_cap l"
        unfolding shift by (simp add: Suc)
      ultimately show ?thesis
        using k pos by (simp add: circ_items_nth Suc)
    qed
  qed (use pos in auto)
qed


section \<open>What the receiver's operations do to the window\<close>

text \<open>
  A record is well formed when its window is (\<^verbatim>\<open>--replay-window n\<close>, UDP) or when it has
  none (\<open>n = 0\<close>, TCP).
\<close>

definition pid_ok :: "packet_id_rec \<Rightarrow> bool" where
  "pid_ok p \<longleftrightarrow> initialized p \<and>
     (case rec_seq_list p of
        None \<Rightarrow> seq_backtrack p = 0 \<and> time_backtrack p = 0
      | Some l \<Rightarrow> circ_ok l \<and> x_cap l = seq_backtrack p \<and> seq_backtrack p \<le> MAX_SEQ_BACKTRACK \<and>
                  x_size l \<le> uint (rec_id p))"

definition rec_window :: "packet_id_rec \<Rightarrow> time list" where
  "rec_window p = (case rec_seq_list p of None \<Rightarrow> [] | Some l \<Rightarrow> circ_items l)"

lemma packet_id_init_ok:
  assumes "packet_id_init sb tb name unt = Some p"
  shows "pid_ok (pid_rec p)" "rec_window (pid_rec p) = []" "rec_time (pid_rec p) = 0"
    "rec_id (pid_rec p) = 0" "seq_backtrack (pid_rec p) = sb" "initialized (pid_rec p)"
  using assms
  by (auto simp: packet_id_init_def packet_id_cleared_def pid_ok_def rec_window_def Let_def
      MIN_SEQ_BACKTRACK_def circ_alloc split: if_splits)

lemma packet_id_init_exists:
  assumes "0 \<le> sb" "sb \<le> 65536" "0 \<le> tb" "tb \<le> 600"
  shows "\<exists>p. packet_id_init sb tb name unt = Some p"
  using assms
  by (auto simp: packet_id_init_def Let_def MIN_SEQ_BACKTRACK_def MAX_SEQ_BACKTRACK_def
      MIN_TIME_BACKTRACK_def MAX_TIME_BACKTRACK_def)

lemma packet_id_add_loop_stop: "\<not> i < target \<Longrightarrow> packet_id_add_loop l i target = Some (l, i)"
  by (subst packet_id_add_loop.simps) simp

lemma packet_id_add_loop_ok:
  assumes "circ_ok l" "i \<le> target"
  obtains l' where "packet_id_add_loop l i target = Some (l', target)" "circ_ok l'"
    "x_cap l' = x_cap l"
    "circ_items l' = take (nat (x_cap l)) (replicate (unat target - unat i) 0 @ circ_items l)"
proof -
  have "\<exists>l'. packet_id_add_loop l i target = Some (l', target) \<and> circ_ok l' \<and> x_cap l' = x_cap l \<and>
    circ_items l' = take (nat (x_cap l)) (replicate (unat target - unat i) 0 @ circ_items l)"
    using assms
  proof (induction l i target rule: packet_id_add_loop.induct)
    case (1 l i target)
    show ?case
    proof (cases "i < target")
      case True
      from circ_push [OF 1(2), of 0] obtain l1 where l1:
        "circ_list_push l SEQ_UNSEEN = Some l1" "circ_ok l1" "x_cap l1 = x_cap l"
        "circ_items l1 = take (nat (x_cap l)) (0 # circ_items l)"
        by (auto simp: SEQ_UNSEEN_def)
      have shift: "take c (replicate m 0 @ take c (0 # xs)) = take c (replicate (Suc m) 0 @ xs)"
        for c m and xs :: "time list"
        by (metis (no_types) append_Cons replicate_Suc replicate_app_Cons_same take_append_take)
      have le: "i + 1 \<le> target" and n: "unat target - unat i = Suc (unat target - unat (i + 1))"
        using True by (auto simp: unat_Suc_less word_less_nat_alt word_le_nat_alt)
      from 1(1) [OF True l1(1) l1(2) le] show ?thesis
        using True l1 unfolding n
        by (subst packet_id_add_loop.simps) (simp add: shift del: take_append replicate_Suc)
    next
      case False
      then have "i = target" using 1(3) by simp
      then show ?thesis using 1(2)
        by (auto simp: packet_id_add_loop_stop circ_ok_def)
    qed
  qed
  then show ?thesis using that by blast
qed

text \<open>
  \<^verbatim>\<open>packet_id_add\<close> in window mode: the window restarts at the packet when the time stamp moves
  forward or the id jumps past it, and otherwise slides up to the packet's id. Then the packet's
  own slot is stamped with the clock.
\<close>

definition add_resets :: "packet_id_rec \<Rightarrow> packet_id_net \<Rightarrow> bool" where
  "add_resets p pin \<longleftrightarrow> rec_window p = [] \<or> net_time pin > rec_time p \<or>
     seq_backtrack p + uint (rec_id p) < uint (net_id pin)"

definition add_base :: "packet_id_rec \<Rightarrow> packet_id_net \<Rightarrow> time list \<times> nat" where
  "add_base p pin =
     (if add_resets p pin then ([], unat (net_id pin) - nat (seq_backtrack p))
      else (rec_window p, unat (rec_id p)))"


text \<open>\<^verbatim>\<open>pin->id - seq_backtrack > p->id\<close>, guarded against wrap-around, as integers.\<close>

lemma id_jump:
  assumes "0 \<le> n" "n < 2 ^ 32"
  shows "word_of_int n \<le> (w :: u32) \<and> i < w - word_of_int n \<longleftrightarrow> n + uint i < uint w"
proof -
  have "uint (w - word_of_int n) = uint w - n" if "n \<le> uint w"
    using that uint_sub_lem [of "word_of_int n :: u32" w] u32_of_int_small [OF assms] by simp
  moreover have ge: "0 \<le> uint i" by simp
  ultimately show ?thesis
    unfolding u32_ge_of_int [OF assms] word_less_def using ge by linarith
qed

lemma packet_id_add_window:
  assumes "pid_ok p" "seq_backtrack p \<noteq> 0" "0 < net_id pin"
  obtains p' where "packet_id_add nw p pin = Some p'" "pid_ok p'"
    "rec_time p' = (if add_resets p pin then net_time pin else rec_time p)"
    "unat (rec_id p') = max (snd (add_base p pin)) (unat (net_id pin))"
    "seq_backtrack p' = seq_backtrack p" "time_backtrack p' = time_backtrack p"
    "rec_window p' =
       (let w = take (nat (seq_backtrack p))
                  (replicate (unat (net_id pin) - snd (add_base p pin)) 0 @ fst (add_base p pin));
            d = snd (add_base p pin) - unat (net_id pin)
        in if nw > 1 then w[d := nw] else w)"
proof -
  from assms(1,2) obtain l where l: "rec_seq_list p = Some l" "circ_ok l" "x_cap l = seq_backtrack p"
    "seq_backtrack p \<le> MAX_SEQ_BACKTRACK" "x_size l \<le> uint (rec_id p)" "initialized p"
    by (auto simp: pid_ok_def split: option.splits)
  define bt where "bt = (word_of_int (seq_backtrack p) :: u32)"
  have sb: "0 < seq_backtrack p" "0 \<le> seq_backtrack p" "seq_backtrack p < 2 ^ 32"
    using l by (auto simp: circ_ok_def MAX_SEQ_BACKTRACK_def)
  note bt = u32_of_int_small [OF sb(2,3), folded bt_def]
  define start where "start = (if net_id pin > bt then net_id pin - bt else 0)"
  have start: "unat start = unat (net_id pin) - nat (seq_backtrack p)" "start < net_id pin"
    using bt sb assms(3) by (auto simp: start_def word_less_nat_alt unat_diff_u32 word_le_nat_alt)
  have resets: "x_size l = 0 \<or> net_time pin > rec_time p \<or> (net_id pin \<ge> bt \<and> net_id pin - bt > rec_id p)
      \<longleftrightarrow> add_resets p pin"
    using id_jump [OF sb(2,3)] l(1,2)
    by (auto simp: add_resets_def rec_window_def bt_def circ_ok_def simp flip: length_0_conv)
  define l0 where "l0 = (if add_resets p pin then circ_list_reset l else l)"
  define i0 where "i0 = (if add_resets p pin then start else rec_id p)"
  have base: "circ_items l0 = fst (add_base p pin)" "unat i0 = snd (add_base p pin)"
    using l start circ_reset [OF l(2)] by (auto simp: l0_def i0_def add_base_def rec_window_def)
  have l0: "circ_ok l0" "x_cap l0 = seq_backtrack p" "x_size l0 \<le> uint i0"
    using l circ_reset [OF l(2)] by (auto simp: l0_def i0_def)
  define i1 where "i1 = (if i0 < net_id pin then net_id pin else i0)"
  obtain l1 where l1: "packet_id_add_loop l0 i0 (net_id pin) = Some (l1, i1)" "circ_ok l1"
    "x_cap l1 = seq_backtrack p"
    "circ_items l1 = take (nat (seq_backtrack p)) (replicate (unat (net_id pin) - unat i0) 0 @ circ_items l0)"
  proof (cases "i0 < net_id pin")
    case True
    then have "i0 \<le> net_id pin" by simp
    from packet_id_add_loop_ok [OF l0(1) this] obtain l' where
      "packet_id_add_loop l0 i0 (net_id pin) = Some (l', net_id pin)" "circ_ok l'" "x_cap l' = x_cap l0"
      "circ_items l' = take (nat (x_cap l0)) (replicate (unat (net_id pin) - unat i0) 0 @ circ_items l0)"
      by blast
    with True show ?thesis using that l0(2) by (simp add: i1_def del: take_append)
  next
    case False
    moreover have "length (circ_items l0) \<le> nat (seq_backtrack p)"
      using l0 by (auto simp: circ_ok_def)
    ultimately show ?thesis
      using that [of l0] l0 by (simp add: i1_def packet_id_add_loop_stop word_less_nat_alt)
  qed
  have i1: "unat i1 = max (unat i0) (unat (net_id pin))" "net_id pin \<le> i1"
    by (auto simp: i1_def word_less_nat_alt word_le_nat_alt)
  have sz1: "0 \<le> x_size l1" "x_size l1 < 2 ^ 32"
    using l1(2,3) sb by (auto simp: circ_ok_def)
  have "length (circ_items l0) \<le> unat i0"
    using l0(3) by (simp add: nat_le_unat_iff)
  moreover have "length (circ_items l1) \<le> (unat (net_id pin) - unat i0) + length (circ_items l0)"
    unfolding l1(4) by (simp only: length_take length_append length_replicate)
  ultimately have "length (circ_items l1) \<le> (unat (net_id pin) - unat i0) + unat i0" by linarith
  also have "\<dots> = unat i1" unfolding i1(1) by linarith
  finally have "length (circ_items l1) \<le> unat i1" .
  then have inv1: "x_size l1 \<le> uint i1" by (simp add: nat_le_unat_iff)
  define w where "w = (if nw > 1 then (circ_items l1)[unat i1 - unat (net_id pin) := nw] else circ_items l1)"
  define diff where "diff = i1 - net_id pin"
  have diff: "unat diff = unat i1 - unat (net_id pin)"
    using i1(2) by (simp add: diff_def unat_diff_u32)
  have lt: "diff < word_of_int (x_size l1) \<longleftrightarrow> uint diff < x_size l1"
    using u32_less_of_int [OF sz1] .
  obtain l2 where l2: "(if diff < word_of_int (x_size l1) \<and> nw > SEQ_EXPIRED
      then circ_list_set l1 (uint diff) nw else Some l1) = Some l2"
    "circ_ok l2" "x_cap l2 = seq_backtrack p" "x_size l2 = x_size l1" "circ_items l2 = w"
  proof (cases "uint diff < x_size l1 \<and> nw > 1")
    case True
    then obtain l2 where "circ_list_set l1 (uint diff) nw = Some l2" "circ_ok l2" "x_cap l2 = x_cap l1"
      "x_size l2 = x_size l1" "circ_items l2 = (circ_items l1)[nat (uint diff) := nw]"
      using circ_set [OF l1(2), of "uint diff" nw] by auto
    then show ?thesis
      using that True l1(3) diff by (simp add: lt SEQ_EXPIRED_def w_def)
  next
    case False
    then have "circ_items l1 = w"
      by (auto simp: w_def nat_le_unat_iff simp flip: diff intro!: list_update_beyond [symmetric])
    then show ?thesis using that [of l1] False l1 by (simp add: lt SEQ_EXPIRED_def)
  qed
  let ?p = "(if add_resets p pin then p\<lparr>rec_time := net_time pin, rec_id := start\<rparr> else p)
      \<lparr>rec_id := i1, rec_seq_list := Some l2\<rparr>"
  have "packet_id_add nw p pin =
      (case if add_resets p pin
            then (p\<lparr>rec_time := net_time pin, rec_id := start\<rparr>, circ_list_reset l) else (p, l) of
         (p, l) \<Rightarrow>
           do { (l, i) \<leftarrow> packet_id_add_loop l (rec_id p) (net_id pin);
                l \<leftarrow> (if i - net_id pin < word_of_int (x_size l) \<and> nw > SEQ_EXPIRED
                      then circ_list_set l (uint (i - net_id pin)) nw else Some l);
                Some (p\<lparr>rec_id := i, rec_seq_list := Some l\<rparr>) })"
    unfolding packet_id_add_def l(1) option.case Let_def bt_def [symmetric] start_def [symmetric] resets ..
  also have "\<dots> = Some ?p"
    using l1(1) l2(1) unfolding diff_def
    by (cases "add_resets p pin") (simp_all add: i0_def l0_def split: if_splits)
  finally have "packet_id_add nw p pin = Some ?p" .
  then show thesis
  proof (rule that)
    show "pid_ok ?p"
      using l l2 inv1 by (auto simp: pid_ok_def)
    show "unat (rec_id ?p) = max (snd (add_base p pin)) (unat (net_id pin))"
      by (simp add: i1(1) base)
    show "rec_window ?p =
       (let w = take (nat (seq_backtrack p))
                  (replicate (unat (net_id pin) - snd (add_base p pin)) 0 @ fst (add_base p pin));
            d = snd (add_base p pin) - unat (net_id pin)
        in if nw > 1 then w[d := nw] else w)"
      using base l1(4) i1(1) by (auto simp: rec_window_def l2(5) w_def max_def)
  qed simp_all
qed

text \<open>\<^verbatim>\<open>packet_id_test\<close> in window mode: what the window says about a packet.\<close>

definition window_accepts :: "packet_id_rec \<Rightarrow> packet_id_net \<Rightarrow> bool" where
  "window_accepts p pin \<longleftrightarrow> net_id pin \<noteq> 0 \<and>
     (rec_time p < net_time pin \<or>
      rec_time p = net_time pin \<and>
        (rec_id p < net_id pin \<or>
         (let d = unat (rec_id p) - unat (net_id pin)
          in d < length (rec_window p) \<and> rec_window p ! d = 0)))"

lemma stat_update [simp]:
  "pid_ok (p\<lparr>max_backtrack_stat := m\<rparr>) = pid_ok p"
  "rec_window (p\<lparr>max_backtrack_stat := m\<rparr>) = rec_window p"
  by (auto simp: pid_ok_def rec_window_def split: option.split)

lemma packet_id_test_window:
  assumes "pid_ok p" "seq_backtrack p \<noteq> 0"
  obtains m where "packet_id_test p pin = Some (window_accepts p pin, p\<lparr>max_backtrack_stat := m\<rparr>)"
proof -
  from assms obtain l where l: "rec_seq_list p = Some l" "circ_ok l" "x_cap l = seq_backtrack p"
    "seq_backtrack p \<le> MAX_SEQ_BACKTRACK" "initialized p"
    by (auto simp: pid_ok_def split: option.splits)
  consider (zero) "net_id pin = 0" | (time) "net_id pin \<noteq> 0" "net_time pin \<noteq> rec_time p"
    | (new) "net_id pin \<noteq> 0" "net_time pin = rec_time p" "rec_id p < net_id pin"
    | (old) "net_id pin \<noteq> 0" "net_time pin = rec_time p" "net_id pin \<le> rec_id p"
    by fastforce
  then show thesis
  proof cases
    case zero
    then show thesis using l
      by (intro that [of "max_backtrack_stat p"]) (simp add: packet_id_test_def window_accepts_def)
  next
    case time
    then show thesis using l assms(2)
      by (intro that [of "max_backtrack_stat p"]) (auto simp: packet_id_test_def window_accepts_def)
  next
    case new
    then show thesis using l assms(2)
      by (intro that [of "max_backtrack_stat p"]) (simp add: packet_id_test_def window_accepts_def)
  next
    case old
    define diff where "diff = rec_id p - net_id pin"
    have diff: "unat diff = unat (rec_id p) - unat (net_id pin)"
      using old(3) by (simp add: diff_def unat_diff_u32)
    have sz: "0 \<le> x_size l" "x_size l < 2 ^ 32"
      using l by (auto simp: circ_ok_def MAX_SEQ_BACKTRACK_def)
    define m where "m = (if sint diff > max_backtrack_stat p then sint diff else max_backtrack_stat p)"
    have ge: "diff \<ge> word_of_int (x_size l) \<longleftrightarrow> x_size l \<le> uint diff"
      using u32_ge_of_int [OF sz] .
    have "packet_id_test p pin = Some (window_accepts p pin, p\<lparr>max_backtrack_stat := m\<rparr>)"
    proof (cases "x_size l \<le> uint diff")
      case True
      then have "\<not> unat diff < length (rec_window p)"
        using l(1) by (simp add: rec_window_def unat_less_nat_iff)
      with True old l assms(2) ge show ?thesis
        by (auto simp: packet_id_test_def window_accepts_def m_def Let_def simp flip: diff_def diff)
    next
      case False
      then have "circ_list_item l (uint diff) = Some (rec_window p ! unat diff)"
        using circ_item [OF l(2), of "uint diff"] l(1) by (simp add: rec_window_def)
      moreover have "unat diff < length (rec_window p)"
        using False l(1) by (simp add: rec_window_def unat_less_nat_iff)
      ultimately show ?thesis using False old l assms(2) ge
        by (auto simp: packet_id_test_def window_accepts_def m_def Let_def simp flip: diff_def diff)
    qed
    then show thesis by (rule that)
  qed
qed

text \<open>
  \<^verbatim>\<open>packet_id_reap\<close>: from the first slot older than the backtrack time on, everything expires;
  the scan stops at a slot that had expired before.
\<close>

fun reap_items :: "time \<Rightarrow> int \<Rightarrow> bool \<Rightarrow> time list \<Rightarrow> time list" where
  "reap_items nw tb expire [] = []"
| "reap_items nw tb expire (t # ts) =
     (if t = 1 then t # ts
      else let e = expire \<or> t \<noteq> 0 \<and> t + tb < nw in (if e then 1 else t) # reap_items nw tb e ts)"

lemma length_reap_items [simp]: "length (reap_items nw tb e ts) = length ts"
  by (induction ts arbitrary: e) (auto simp: Let_def)

lemma reap_items_keeps:
  "i < length ts \<Longrightarrow> ts ! i \<noteq> 0 \<Longrightarrow> reap_items nw tb e ts ! i \<noteq> 0"
  by (induction ts arbitrary: e i) (auto simp: Let_def nth_Cons split: nat.splits)

lemma packet_id_reap_loop_ok:
  assumes "circ_ok l" "k + n = nat (x_size l)"
  obtains l' where "packet_id_reap_loop nw tb [k..<k + n] e l = Some l'" "circ_ok l'"
    "x_cap l' = x_cap l" "x_size l' = x_size l"
    "circ_items l' = take k (circ_items l) @ reap_items nw tb e (drop k (circ_items l))"
proof -
  have "\<exists>l'. packet_id_reap_loop nw tb [k..<k + n] e l = Some l' \<and> circ_ok l' \<and> x_cap l' = x_cap l \<and>
      x_size l' = x_size l \<and>
      circ_items l' = take k (circ_items l) @ reap_items nw tb e (drop k (circ_items l))"
    using assms
  proof (induction n arbitrary: k e l)
    case 0
    then show ?case by simp
  next
    case (Suc n)
    let ?t = "circ_items l ! k"
    have k: "0 \<le> int k" "int k < x_size l" "k < length (circ_items l)" using Suc.prems(2) by auto
    have upt: "[k..<k + Suc n] = k # [Suc k..<Suc k + n]" by (simp add: upt_conv_Cons)
    have item: "circ_list_item l (int k) = Some ?t"
      using circ_item [OF Suc.prems(1) k(1,2)] by simp
    have drop: "drop k (circ_items l) = ?t # drop (Suc k) (circ_items l)"
      using k(3) by (rule Cons_nth_drop_Suc [symmetric])
    show ?case
    proof (cases "?t = 1")
      case True
      then have "take k (circ_items l) @ 1 # drop (Suc k) (circ_items l) = circ_items l"
        using k(3) by (metis id_take_nth_drop)
      then show ?thesis
        using Suc.prems(1) True unfolding upt by (simp add: item SEQ_EXPIRED_def drop)
    next
      case False
      define e' where "e' = (e \<or> ?t \<noteq> 0 \<and> ?t + tb < nw)"
      have flag: "(if \<not> e \<and> ?t \<noteq> 0 \<and> ?t + tb < nw then True else e) = e'"
        by (auto simp: e'_def)
      obtain l1 where l1: "(if e' then circ_list_set l (int k) SEQ_EXPIRED else Some l) = Some l1"
        "circ_ok l1" "x_cap l1 = x_cap l" "x_size l1 = x_size l"
        "circ_items l1 = (if e' then (circ_items l)[k := 1] else circ_items l)"
      proof (cases e')
        case True
        then show ?thesis
          using circ_set [OF Suc.prems(1) k(1,2), of SEQ_EXPIRED] that by (auto simp: SEQ_EXPIRED_def)
      qed (use that Suc.prems(1) in auto)
      have n: "Suc k + n = nat (x_size l1)" using Suc.prems(2) l1(4) by simp
      have parts: "take (Suc k) (circ_items l1) = take k (circ_items l) @ [if e' then 1 else ?t]"
        "drop (Suc k) (circ_items l1) = drop (Suc k) (circ_items l)"
        using k(3) unfolding l1(5) by (simp_all add: take_Suc_conv_app_nth)
      from Suc.IH [OF l1(2) n, of e'] obtain l' where l':
        "packet_id_reap_loop nw tb [Suc k..<Suc k + n] e' l1 = Some l'" "circ_ok l'"
        "x_cap l' = x_cap l" "x_size l' = x_size l"
        "circ_items l' = take k (circ_items l) @ (if e' then 1 else ?t)
           # reap_items nw tb e' (drop (Suc k) (circ_items l))"
        unfolding parts l1(3,4) by auto
      have "packet_id_reap_loop nw tb [k..<k + Suc n] e l = Some l'"
        using False l1(1) l'(1) unfolding upt packet_id_reap_loop.simps item bind.bind_lunit Let_def flag
        by (cases e') (simp_all add: SEQ_EXPIRED_def)
      moreover have "reap_items nw tb e (drop k (circ_items l)) =
          (if e' then 1 else ?t) # reap_items nw tb e' (drop (Suc k) (circ_items l))"
        unfolding drop using False by (simp add: e'_def Let_def)
      ultimately show ?thesis using l' by auto
    qed
  qed
  then show thesis using that by blast
qed

lemma packet_id_reap_ok:
  assumes "pid_ok p"
  obtains p' where "packet_id_reap nw p = Some p'" "pid_ok p'" "rec_time p' = rec_time p"
    "rec_id p' = rec_id p" "seq_backtrack p' = seq_backtrack p"
    "rec_window p' =
       (if time_backtrack p = 0 then rec_window p else reap_items nw (time_backtrack p) False (rec_window p))"
proof (cases "time_backtrack p = 0")
  case True
  then show ?thesis
    using assms by (intro that [of "p\<lparr>last_reap := nw\<rparr>"])
      (auto simp: packet_id_reap_def pid_ok_def rec_window_def split: option.splits)
next
  case False
  then obtain l where l: "rec_seq_list p = Some l" "circ_ok l" 
    using assms by (auto simp: pid_ok_def split: option.splits)
  have "0 + nat (x_size l) = nat (x_size l)" by simp
  from packet_id_reap_loop_ok [OF l(2) this] obtain l' where l':
    "packet_id_reap_loop nw (time_backtrack p) [0..<0 + nat (x_size l)] False l = Some l'" "circ_ok l'"
    "x_cap l' = x_cap l" "x_size l' = x_size l"
    "circ_items l' = take 0 (circ_items l) @ reap_items nw (time_backtrack p) False (drop 0 (circ_items l))" .
  show ?thesis
    by (rule that [of "p\<lparr>rec_seq_list := Some l', last_reap := nw\<rparr>"])
      (use assms l l' False in \<open>auto simp: packet_id_reap_def pid_ok_def rec_window_def\<close>)
qed

lemma packet_id_reap_test_ok:
  assumes "pid_ok p"
  obtains p' where "packet_id_reap_test nw p = Some p'" "pid_ok p'" "rec_time p' = rec_time p"
    "rec_id p' = rec_id p" "seq_backtrack p' = seq_backtrack p"
    "length (rec_window p') = length (rec_window p)"
    "\<And>i. i < length (rec_window p) \<Longrightarrow> rec_window p ! i \<noteq> 0 \<Longrightarrow> rec_window p' ! i \<noteq> 0"
proof (cases "last_reap p + SEQ_REAP_INTERVAL \<le> nw")
  case True
  from packet_id_reap_ok [OF assms, of nw] obtain p' where p': "packet_id_reap nw p = Some p'" "pid_ok p'"
    "rec_time p' = rec_time p" "rec_id p' = rec_id p" "seq_backtrack p' = seq_backtrack p"
    "rec_window p' = (if time_backtrack p = 0 then rec_window p
                      else reap_items nw (time_backtrack p) False (rec_window p))" .
  then show ?thesis
    using that [of p'] True by (auto simp: packet_id_reap_test_def reap_items_keeps)
qed (use that assms in \<open>auto simp: packet_id_reap_test_def\<close>)


section \<open>A packet id is accepted at most once\<close>

text \<open>
  A key is spent when no later packet with it can pass: its time stamp is in the past, or it lies
  at or below the highest id and its slot has left the window or been stamped.
\<close>

definition pid_key :: "packet_id_net \<Rightarrow> time \<times> u32" where
  "pid_key pin = (net_time pin, net_id pin)"

definition pid_spent :: "packet_id_rec \<Rightarrow> time \<times> u32 \<Rightarrow> bool" where
  "pid_spent p k \<longleftrightarrow> fst k < rec_time p \<or>
     fst k = rec_time p \<and> snd k \<le> rec_id p \<and>
       (if seq_backtrack p = 0 then rec_id p \<noteq> 0
        else rec_window p \<noteq> [] \<and>
          (let d = unat (rec_id p) - unat (snd k)
           in length (rec_window p) \<le> d \<or> rec_window p ! d \<noteq> 0))"

lemma window_spent_rejected:
  "seq_backtrack p \<noteq> 0 \<Longrightarrow> pid_spent p (pid_key pin) \<Longrightarrow> \<not> window_accepts p pin"
  by (auto simp: pid_spent_def window_accepts_def pid_key_def Let_def)

text \<open>The effect of an accepted packet on the window, in the two cases of \<^verbatim>\<open>packet_id_add\<close>.\<close>

lemma window_add_spent:
  assumes "pid_ok p" "seq_backtrack p \<noteq> 0" "window_accepts p pin" "1 < nw"
    "packet_id_add nw p pin = Some p'"
  shows "pid_spent p' (pid_key pin)" "pid_spent p k \<Longrightarrow> pid_spent p' k"
proof -
  let ?n = "unat (net_id pin)" and ?i = "unat (rec_id p)" and ?w = "rec_window p"
  have sb: "0 < seq_backtrack p" using assms(1,2) by (auto simp: pid_ok_def circ_ok_def split: option.splits)
  have n0: "0 < net_id pin" "0 < ?n"
    using assms(3) by (auto simp: window_accepts_def word_neq_0_conv unat_gt_0)
  obtain p2 where p2: "packet_id_add nw p pin = Some p2"
    "rec_time p2 = (if add_resets p pin then net_time pin else rec_time p)"
    "unat (rec_id p2) = max (snd (add_base p pin)) ?n" "seq_backtrack p2 = seq_backtrack p"
    "rec_window p2 =
       (let w = take (nat (seq_backtrack p)) (replicate (?n - snd (add_base p pin)) 0 @ fst (add_base p pin));
            d = snd (add_base p pin) - ?n
        in if nw > 1 then w[d := nw] else w)"
    by (rule packet_id_add_window [OF assms(1,2) n0(1)])
  have p': "p' = p2" using assms(5) p2(1) by simp
  have sb': "seq_backtrack p' = seq_backtrack p" using p2(4) by (simp add: p')
  have time: "rec_time p \<le> net_time pin" using assms(3) by (auto simp: window_accepts_def)
  have "pid_spent p' (pid_key pin) \<and> (pid_spent p k \<longrightarrow> pid_spent p' k)"
  proof (cases "add_resets p pin")
    case True
    have w: "rec_window p' = (replicate (min (nat (seq_backtrack p)) ?n) 0)[0 := nw]"
      using p2(5) True assms(4) by (simp add: p' add_base_def Let_def min_def)
    have id: "unat (rec_id p') = ?n" using p2(3) True by (simp add: p' add_base_def)
    have gap: "nat (seq_backtrack p) + ?i < ?n" if "?w \<noteq> []" "net_time pin \<le> rec_time p"
    proof -
      have "int (nat (seq_backtrack p) + ?i) < int ?n"
        using True that sb by (simp add: add_resets_def)
      then show ?thesis by (simp only: of_nat_less_iff)
    qed
    have t: "rec_time p' = net_time pin" using p2(2) True by (simp add: p')
    have "pid_spent p' (pid_key pin)"
      using sb n0 assms(4) by (auto simp: pid_spent_def pid_key_def t id w sb' word_le_nat_alt
          simp del: length_greater_0_conv)
    moreover have "pid_spent p' k" if k: "pid_spent p k"
    proof (cases "fst k < net_time pin")
      case False
      then have "fst k = rec_time p" "rec_time p = net_time pin" "snd k \<le> rec_id p" "?w \<noteq> []"
        using k time assms(2) by (auto simp: pid_spent_def)
      with gap have far: "unat (snd k) < ?n" "nat (seq_backtrack p) \<le> ?n - unat (snd k)"
        by (auto simp: word_le_nat_alt)
      then have "length (rec_window p') \<le> ?n - unat (snd k)" by (simp add: w)
      moreover have "rec_window p' \<noteq> []" using sb n0 by (simp add: w)
      ultimately show ?thesis
        using \<open>fst k = rec_time p\<close> \<open>rec_time p = net_time pin\<close> far(1) assms(2)
        by (simp add: pid_spent_def t id sb' word_le_nat_alt)
    qed (simp add: pid_spent_def t)
    ultimately show ?thesis by blast
  next
    case False
    then have ne: "?w \<noteq> []" "net_time pin = rec_time p" using time by (auto simp: add_resets_def)
    have w: "rec_window p' = (take (nat (seq_backtrack p)) (replicate (?n - ?i) 0 @ ?w))[?i - ?n := nw]"
      using p2(5) False assms(4) by (simp add: p' add_base_def Let_def)
    have id: "unat (rec_id p') = max ?i ?n" using p2(3) False by (simp add: p' add_base_def)
    have t: "rec_time p' = rec_time p" using p2(2) False by (simp add: p')
    have ne': "rec_window p' \<noteq> []" using ne sb by (auto simp: w)
    have "length (rec_window p') \<le> ?i - ?n \<or> rec_window p' ! (?i - ?n) \<noteq> 0"
      using assms(4) by (cases "?i - ?n < length (rec_window p')") (simp_all add: w)
    then have "pid_spent p' (pid_key pin)"
      using assms(2,4) ne ne' by (auto simp: pid_spent_def pid_key_def t id sb' word_le_nat_alt max_def Let_def)
    moreover have "pid_spent p' k" if k: "pid_spent p k"
    proof (cases "fst k < rec_time p")
      case False
      let ?d = "?i - unat (snd k)" and ?d' = "max ?i ?n - unat (snd k)"
      have k': "fst k = rec_time p" "unat (snd k) \<le> ?i" "length ?w \<le> ?d \<or> ?w ! ?d \<noteq> 0"
        using k False assms(2) by (auto simp: pid_spent_def word_le_nat_alt Let_def)
      have d': "?d' = (?n - ?i) + ?d" using k'(2) by simp
      have "rec_window p' ! ?d' \<noteq> 0" if len: "?d' < length (rec_window p')"
      proof (cases "?i - ?n = ?d'")
        case True
        then show ?thesis using len assms(4) by (simp add: w)
      next
        case F: False
        have lens: "?d < length ?w" "(?n - ?i) + ?d < nat (seq_backtrack p)"
          using len unfolding w d'
          by (simp_all only: length_list_update length_take length_append length_replicate min_less_iff_conj)
            linarith
        with k'(3) have "?w ! ?d \<noteq> 0" by simp
        then show ?thesis using lens F unfolding w d'
          by (simp add: nth_append del: take_append)
      qed
      then show ?thesis
        using k' ne' assms(2) by (auto simp: pid_spent_def t id sb' word_le_nat_alt Let_def not_less[symmetric])
    qed (simp add: pid_spent_def t)
    ultimately show ?thesis by blast
  qed
  then show "pid_spent p' (pid_key pin)" "pid_spent p k \<Longrightarrow> pid_spent p' k" by auto
qed

text \<open>TCP mode: no window, ids count up by one, the time stamp restarts them at 1.\<close>

definition tcp_accepts :: "packet_id_rec \<Rightarrow> packet_id_net \<Rightarrow> bool" where
  "tcp_accepts p pin \<longleftrightarrow> net_id pin \<noteq> 0 \<and>
     (net_time pin = rec_time p \<and> (rec_id p = 0 \<or> net_id pin = rec_id p + 1) \<or>
      rec_time p < net_time pin \<and> net_id pin = 1)"

lemma packet_id_test_tcp:
  assumes "pid_ok p" "seq_backtrack p = 0"
  shows "packet_id_test p pin = Some (tcp_accepts p pin, p)"
  using assms by (auto simp: pid_ok_def packet_id_test_def tcp_accepts_def)

lemma packet_id_add_tcp:
  assumes "pid_ok p" "seq_backtrack p = 0"
  shows "packet_id_add nw p pin = Some (p\<lparr>rec_time := net_time pin, rec_id := net_id pin\<rparr>)"
    "pid_ok (p\<lparr>rec_time := net_time pin, rec_id := net_id pin\<rparr>)"
  using assms by (auto simp: pid_ok_def packet_id_add_def circ_ok_def split: option.splits)

lemma tcp_spent:
  assumes "seq_backtrack p = 0"
  shows "pid_spent p (pid_key pin) \<Longrightarrow> \<not> tcp_accepts p pin"
    "tcp_accepts p pin \<Longrightarrow> pid_spent (p\<lparr>rec_time := net_time pin, rec_id := net_id pin\<rparr>) (pid_key pin)"
    "tcp_accepts p pin \<Longrightarrow> pid_spent p k \<Longrightarrow> pid_spent (p\<lparr>rec_time := net_time pin, rec_id := net_id pin\<rparr>) k"
proof -
  have succ: "i \<le> rec_id p \<Longrightarrow> i < rec_id p + 1" if "rec_id p + 1 \<noteq> 0" for i
    using that by unat_arith
  show "pid_spent p (pid_key pin) \<Longrightarrow> \<not> tcp_accepts p pin"
    using assms succ [of "net_id pin"] by (auto simp: pid_spent_def tcp_accepts_def pid_key_def)
  show "tcp_accepts p pin \<Longrightarrow> pid_spent (p\<lparr>rec_time := net_time pin, rec_id := net_id pin\<rparr>) (pid_key pin)"
    using assms by (auto simp: pid_spent_def tcp_accepts_def pid_key_def)
  show "tcp_accepts p pin \<Longrightarrow> pid_spent p k \<Longrightarrow> pid_spent (p\<lparr>rec_time := net_time pin, rec_id := net_id pin\<rparr>) k"
    using assms succ [of "snd k"] by (auto simp: pid_spent_def tcp_accepts_def)
qed

lemma pid_spent_weaken:
  assumes "pid_spent p k" "rec_time p' = rec_time p" "rec_id p' = rec_id p"
    "seq_backtrack p' = seq_backtrack p" "length (rec_window p') = length (rec_window p)"
    "\<And>i. i < length (rec_window p) \<Longrightarrow> rec_window p ! i \<noteq> 0 \<Longrightarrow> rec_window p' ! i \<noteq> 0"
  shows "pid_spent p' k"
proof -
  have "rec_window p' = [] \<longleftrightarrow> rec_window p = []" using assms(5) by (metis length_0_conv)
  with assms show ?thesis by (auto simp: pid_spent_def Let_def not_le)
qed

lemma pid_spent_stat [simp]: "pid_spent (p\<lparr>max_backtrack_stat := m\<rparr>) k = pid_spent p k"
  by (simp add: pid_spent_def)

text \<open>One arrival.\<close>

lemma crypto_check_replay_step:
  assumes ok: "pid_ok (pid_rec (fst s))" and nw: "1 < nw"
  obtains acc s' where "crypto_check_replay nw lf s pin = Some (acc, s')" "pid_ok (pid_rec (fst s'))"
    "acc \<Longrightarrow> \<not> pid_spent (pid_rec (fst s)) (pid_key pin)"
    "acc \<Longrightarrow> pid_spent (pid_rec (fst s')) (pid_key pin)"
    "\<And>k. pid_spent (pid_rec (fst s)) k \<Longrightarrow> pid_spent (pid_rec (fst s')) k"
proof -
  obtain pid per where s: "s = (pid, per)" by (cases s)
  obtain r where r: "packet_id_reap_test nw (pid_rec pid) = Some r" "pid_ok r"
    "rec_time r = rec_time (pid_rec pid)" "rec_id r = rec_id (pid_rec pid)"
    "seq_backtrack r = seq_backtrack (pid_rec pid)"
    "length (rec_window r) = length (rec_window (pid_rec pid))"
    "\<And>i. i < length (rec_window (pid_rec pid)) \<Longrightarrow> rec_window (pid_rec pid) ! i \<noteq> 0 \<Longrightarrow> rec_window r ! i \<noteq> 0"
    using packet_id_reap_test_ok [of "pid_rec pid" nw] ok unfolding s fst_conv by blast
  have spent_r: "pid_spent (pid_rec pid) k \<Longrightarrow> pid_spent r k" for k
    using pid_spent_weaken [OF _ r(3-7)] by blast
  show thesis
  proof (cases "seq_backtrack r = 0")
    case True
    note test = packet_id_test_tcp [OF r(2) True] and add = packet_id_add_tcp [OF r(2) True]
      and sp = tcp_spent [OF True]
    show thesis
    proof (cases "tcp_accepts r pin")
      case True
      obtain per' where "crypto_check_replay nw lf s pin =
          Some (True, pid\<lparr>pid_rec := r\<lparr>rec_time := net_time pin, rec_id := net_id pin\<rparr>\<rparr>, per')"
        using True r(1) test add(1) by (auto simp: crypto_check_replay_def s Let_def)
      moreover have "\<not> pid_spent (pid_rec pid) (pid_key pin)"
        using sp(1) spent_r True by blast
      ultimately show thesis
        using that [of True "(pid\<lparr>pid_rec := r\<lparr>rec_time := net_time pin, rec_id := net_id pin\<rparr>\<rparr>, per')"]
          True add(2) sp(2,3) spent_r by (simp add: s)
    next
      case False
      then show thesis
        using that [of False "(pid\<lparr>pid_rec := r\<rparr>, per)"] r(1,2) test spent_r
        by (auto simp: crypto_check_replay_def s)
    qed
  next
    case False
    obtain m where test: "packet_id_test r pin = Some (window_accepts r pin, r\<lparr>max_backtrack_stat := m\<rparr>)"
      using packet_id_test_window [OF r(2) False] .
    show thesis
    proof (cases "window_accepts r pin")
      case True
      let ?r = "r\<lparr>max_backtrack_stat := m\<rparr>"
      have acc: "window_accepts ?r pin" and ok': "pid_ok ?r" "seq_backtrack ?r \<noteq> 0" and id: "0 < net_id pin"
        using True r(2) False by (auto simp: window_accepts_def word_neq_0_conv)
      obtain r' where add: "packet_id_add nw ?r pin = Some r'" "pid_ok r'"
        using packet_id_add_window [OF ok' id] by metis
      note sp = window_add_spent [OF ok' acc nw add(1)]
      have "\<not> pid_spent (pid_rec pid) (pid_key pin)"
        using window_spent_rejected [OF False] spent_r True by blast
      moreover obtain per' where "crypto_check_replay nw lf s pin = Some (True, pid\<lparr>pid_rec := r'\<rparr>, per')"
        using True r(1) test add(1) by (auto simp: crypto_check_replay_def s Let_def)
      ultimately show thesis
        using that [of True "(pid\<lparr>pid_rec := r'\<rparr>, per')"] add(2) sp spent_r by (simp add: s)
    next
      case rej: False
      then show thesis
        using that [of False "(pid\<lparr>pid_rec := r\<lparr>max_backtrack_stat := m\<rparr>\<rparr>, per)"] r(1,2) test spent_r
        by (auto simp: crypto_check_replay_def s)
    qed
  qed
qed

interpretation pidf: replay_filter
  "\<lambda>s e. crypto_check_replay (fst e) lf s (snd e)" "\<lambda>e. pid_key (snd e)"
  "\<lambda>s. pid_ok (pid_rec (fst s))" "\<lambda>e. 1 < fst e" "\<lambda>s. pid_spent (pid_rec (fst s))"
  for lf
proof
  fix s :: "packet_id \<times> packet_id_persist option" and e :: "time \<times> packet_id_net"
  assume inv: "pid_ok (pid_rec (fst s))" and good: "1 < fst e"
  note step = crypto_check_replay_step [OF inv good, of lf "snd e"]
  show "crypto_check_replay (fst e) lf s (snd e) \<noteq> None" using step by blast
  fix ok s' assume c: "crypto_check_replay (fst e) lf s (snd e) = Some (ok, s')"
  show "pid_ok (pid_rec (fst s'))" using step c by (metis Pair_inject option.inject)
  show "\<not> ok" if "pid_spent (pid_rec (fst s)) (pid_key (snd e))"
    using step c that by (metis Pair_inject option.inject)
  show "pid_spent (pid_rec (fst s')) k" if "pid_spent (pid_rec (fst s)) k" for k
    using step c that by (metis Pair_inject option.inject)
next
  fix s :: "packet_id \<times> packet_id_persist option" and e :: "time \<times> packet_id_net" and s'
  assume inv: "pid_ok (pid_rec (fst s))" and good: "1 < fst e"
    and c: "crypto_check_replay (fst e) lf s (snd e) = Some (True, s')"
  show "pid_spent (pid_rec (fst s')) (pid_key (snd e))"
    using crypto_check_replay_step [OF inv good, of lf "snd e"] c by (metis Pair_inject option.inject)
qed

text \<open>
  C1. Replay protection: from a freshly initialised packet id record, for every list of arriving
  packets with their arrival clocks, \<^verbatim>\<open>crypto_check_replay\<close> never fails an assertion and never
  accepts two packets with the same time stamp and id, whatever the order of arrival, the
  expiry passes in between and the window size (0 is TCP mode).
\<close>
theorem packet_id_accepts_once:
  assumes "packet_id_init sb tb name unt = Some p" "list_all (\<lambda>e. 1 < fst e) es"
  shows "\<exists>acc s. run_filter (\<lambda>s e. crypto_check_replay (fst e) lf s (snd e)) (p, per) es = Some (acc, s) \<and>
           distinct (map (\<lambda>e. pid_key (snd e)) acc)"
proof -
  have inv: "pid_ok (pid_rec (fst (p, per)))" using packet_id_init_ok [OF assms(1)] by simp
  from pidf.run_total [OF this assms(2)] pidf.run_accepts_once [OF this assms(2)]
  show ?thesis by blast
qed


section \<open>Which packets are accepted: the ideal window\<close>

text \<open>
  The specification of \<^verbatim>\<open>--replay-window W\<close> for one time stamp, on sets of ids: accept an id that is
  not 0, has not been accepted, and is less than \<open>W\<close> below every accepted id.
\<close>

fun window_spec :: "nat \<Rightarrow> nat set \<Rightarrow> nat list \<Rightarrow> nat list" where
  "window_spec W S [] = []"
| "window_spec W S (i # is) =
     (if 0 < i \<and> i \<notin> S \<and> (\<forall>j\<in>S. j < i + W)
      then i # window_spec W (insert i S) is else window_spec W S is)"

definition window_rel :: "nat \<Rightarrow> time \<Rightarrow> packet_id_rec \<Rightarrow> nat set \<Rightarrow> bool" where
  "window_rel W T p S \<longleftrightarrow> pid_ok p \<and> seq_backtrack p = int W \<and> time_backtrack p = 0 \<and> 0 < W \<and> finite S \<and>
     0 \<notin> S \<and>
     (if S = {} then rec_window p = [] \<and> rec_id p = 0 \<and> rec_time p \<le> T
      else rec_time p = T \<and> unat (rec_id p) = Max S \<and> length (rec_window p) = min W (Max S) \<and>
           (\<forall>d < length (rec_window p). rec_window p ! d \<noteq> 0 \<longleftrightarrow> Max S - d \<in> S))"

lemma Max_less_plus: "finite S \<Longrightarrow> S \<noteq> {} \<Longrightarrow> (\<forall>j\<in>S. j < i + W) \<longleftrightarrow> Max S < i + (W::nat)"
  by simp

lemma window_rel_accepts:
  assumes R: "window_rel W T p S" and pin: "net_time pin = T"
  shows "window_accepts p pin \<longleftrightarrow>
    0 < unat (net_id pin) \<and> unat (net_id pin) \<notin> S \<and> (\<forall>j\<in>S. j < unat (net_id pin) + W)"
proof (cases "S = {}")
  case True
  with R pin show ?thesis
    by (auto simp: window_rel_def window_accepts_def word_neq_0_conv unat_gt_0)
next
  case False
  let ?n = "unat (net_id pin)" and ?M = "Max S"
  have fin: "finite S" and facts: "rec_time p = T" "unat (rec_id p) = ?M"
    "length (rec_window p) = min W ?M"
    "\<And>d. d < length (rec_window p) \<Longrightarrow> rec_window p ! d \<noteq> 0 \<longleftrightarrow> ?M - d \<in> S"
    using R False by (auto simp: window_rel_def)
  have n0: "net_id pin \<noteq> 0 \<longleftrightarrow> 0 < ?n" by (simp add: unat_gt_0)
  have lt: "rec_id p < net_id pin \<longleftrightarrow> ?M < ?n" using facts(2) by (simp add: word_less_nat_alt)
  show ?thesis
  proof (cases "?M < ?n")
    case True
    then have "?n \<notin> S" using fin Max_ge by fastforce
    then show ?thesis
      unfolding window_accepts_def n0 lt Max_less_plus [OF fin False] using True pin facts(1) by simp
  next
    case F: False
    have inv: "?M - (?M - ?n) = ?n" using F by simp
    have "window_accepts p pin \<longleftrightarrow>
        0 < ?n \<and> ?M - ?n < length (rec_window p) \<and> rec_window p ! (?M - ?n) = 0"
      unfolding window_accepts_def Let_def n0 facts(2) using lt F pin facts(1) by simp
    also have "\<dots> \<longleftrightarrow> 0 < ?n \<and> ?M - ?n < length (rec_window p) \<and> ?n \<notin> S"
      using facts(4) [of "?M - ?n"] unfolding inv by blast
    also have "\<dots> \<longleftrightarrow> 0 < ?n \<and> ?n \<notin> S \<and> ?M < ?n + W"
      using F R unfolding facts(3) window_rel_def by auto
    finally show ?thesis unfolding Max_less_plus [OF fin False] by blast
  qed
qed

lemma window_rel_step:
  assumes R: "window_rel W T p S" and pin: "net_time pin = T" and acc: "window_accepts p pin"
    and nw: "1 < nw" and add: "packet_id_add nw p pin = Some p'"
  shows "window_rel W T p' (insert (unat (net_id pin)) S)"
proof -
  let ?n = "unat (net_id pin)" and ?i = "unat (rec_id p)" and ?S = "insert (unat (net_id pin)) S"
  have p: "pid_ok p" "seq_backtrack p = int W" "time_backtrack p = 0" "0 < W" "finite S"
    using R by (auto simp: window_rel_def)
  have n0: "0 < net_id pin" "0 < ?n"
    using acc by (auto simp: window_accepts_def word_neq_0_conv unat_gt_0)
  have sb: "seq_backtrack p \<noteq> 0" "nat (seq_backtrack p) = W" using p by auto
  obtain p2 where p2: "packet_id_add nw p pin = Some p2" "pid_ok p2"
    "rec_time p2 = (if add_resets p pin then net_time pin else rec_time p)"
    "unat (rec_id p2) = max (snd (add_base p pin)) ?n"
    "seq_backtrack p2 = seq_backtrack p" "time_backtrack p2 = time_backtrack p"
    "rec_window p2 =
       (let w = take (nat (seq_backtrack p)) (replicate (?n - snd (add_base p pin)) 0 @ fst (add_base p pin));
            d = snd (add_base p pin) - ?n
        in if nw > 1 then w[d := nw] else w)"
    by (rule packet_id_add_window [OF p(1) sb(1) n0(1)])
  have "p' = p2" using add p2(1) by simp
  note p2 = p2(2-7) [folded this, unfolded sb]
  have both: "rec_time p' = T \<and> unat (rec_id p') = Max ?S \<and> length (rec_window p') = min W (Max ?S) \<and>
      (\<forall>d < length (rec_window p'). rec_window p' ! d \<noteq> 0 \<longleftrightarrow> Max ?S - d \<in> ?S)"
  proof (cases "add_resets p pin")
    case True
    have time: "rec_time p' = T" using p2(2) True pin by simp
    have below: "j + W < ?n" if "j \<in> S" for j
    proof -
      have S: "S \<noteq> {}" "Max S \<in> S" using that Max_in [OF p(5)] by auto
      moreover have "0 \<notin> S" using R by (simp add: window_rel_def)
      ultimately have pos: "Max S \<noteq> 0" by metis
      have "length (rec_window p) = min W (Max S)" using R S by (simp add: window_rel_def)
      then have "rec_window p \<noteq> []" using pos p(4) by auto
      moreover have "rec_time p = T" "?i = Max S" using R S by (simp_all add: window_rel_def)
      ultimately have "rec_time p = T" "?i = Max S" "rec_window p \<noteq> []" by blast+
      then have "int W + uint (rec_id p) < uint (net_id pin)"
        using True pin p(2) by (simp add: add_resets_def)
      then have "int (W + ?i) < int ?n" by simp
      then show ?thesis using Max_ge [OF p(5) that] \<open>?i = Max S\<close> by linarith
    qed
    have M: "Max ?S = ?n" using p(5) below by (intro Max_eqI) (auto intro: less_imp_le dest: add_lessD1)
    have w: "rec_window p' = (replicate (min W ?n) 0)[0 := nw]"
      using p2(6) True nw by (simp add: add_base_def Let_def min_def sb(2))
    have "unat (rec_id p') = Max ?S \<and> length (rec_window p') = min W (Max ?S) \<and>
      (\<forall>d < length (rec_window p'). rec_window p' ! d \<noteq> 0 \<longleftrightarrow> Max ?S - d \<in> ?S)"
    proof (intro conjI allI impI)
      show "unat (rec_id p') = Max ?S" using p2(3) True M by (simp add: add_base_def)
      show "length (rec_window p') = min W (Max ?S)" by (simp add: w M)
      fix d assume "d < length (rec_window p')"
      then have d: "d < W" "d < ?n" by (auto simp: w)
      then have "?n - d \<notin> S" using below [of "?n - d"] by auto
      then show "rec_window p' ! d \<noteq> 0 \<longleftrightarrow> Max ?S - d \<in> ?S"
        using d nw by (cases d) (auto simp: w M)
    qed
    with time show ?thesis by blast
  next
    case False
    then have ne: "rec_window p \<noteq> []" "\<not> net_time pin > rec_time p" by (auto simp: add_resets_def)
    then have S: "S \<noteq> {}" using R by (auto simp: window_rel_def)
    then have f: "rec_time p = T" "?i = Max S" "length (rec_window p) = min W ?i"
      "\<And>d. d < length (rec_window p) \<Longrightarrow> rec_window p ! d \<noteq> 0 \<longleftrightarrow> ?i - d \<in> S"
      using R by (auto simp: window_rel_def)
    have time: "rec_time p' = T" using p2(2) False f(1) by simp
    have M: "Max ?S = max ?i ?n" using S p(5) f(2) by (simp add: max.commute)
    have w: "rec_window p' = (take W (replicate (?n - ?i) 0 @ rec_window p))[?i - ?n := nw]"
      using p2(6) False nw by (simp add: add_base_def Let_def sb(2))
    have above: "j \<notin> S" if "?i < j" for j using that Max_ge [OF p(5), of j] f(2) by fastforce
    have "unat (rec_id p') = Max ?S \<and> length (rec_window p') = min W (Max ?S) \<and>
      (\<forall>d < length (rec_window p'). rec_window p' ! d \<noteq> 0 \<longleftrightarrow> Max ?S - d \<in> ?S)"
    proof (intro conjI allI impI)
      show "unat (rec_id p') = Max ?S" using p2(3) False M by (simp add: add_base_def)
      show "length (rec_window p') = min W (Max ?S)" 
        unfolding w M length_list_update length_take length_append length_replicate f(3) by linarith
      fix d assume "d < length (rec_window p')"
      then have d: "d < W" "d < (?n - ?i) + length (rec_window p)"
        unfolding w by (simp_all only: length_list_update length_take length_append length_replicate min_less_iff_conj)
      have old: "d < (?n - ?i) + min W ?i" using d(2) f(3) by simp
      show "rec_window p' ! d \<noteq> 0 \<longleftrightarrow> Max ?S - d \<in> ?S"
      proof (cases "d = ?i - ?n")
        case True
        then have "Max ?S - d = ?n" unfolding M by simp
        then show ?thesis using True d nw by (simp add: w del: take_append)
      next
        case other: False
        then have "rec_window p' ! d = (if d < ?n - ?i then 0 else rec_window p ! (d - (?n - ?i)))"
          using d by (simp add: w nth_append del: take_append)
        moreover have "Max ?S - d \<noteq> ?n" unfolding M using other old by auto
        moreover have "Max ?S - d \<notin> S" if "d < ?n - ?i"
          unfolding M using that by (intro above) auto
        moreover have "Max ?S - d = ?i - (d - (?n - ?i))" if "\<not> d < ?n - ?i"
          unfolding M using that by auto
        ultimately show ?thesis using f(4) [of "d - (?n - ?i)"] d(2) by auto
      qed
    qed
    with time show ?thesis by blast
  qed
  show ?thesis
    using both p p2(1,4,5) n0 R by (auto simp: window_rel_def)
qed

lemma window_rel_update [simp]:
  "window_rel W T (p\<lparr>max_backtrack_stat := m\<rparr>) S = window_rel W T p S"
  "window_rel W T (p\<lparr>last_reap := r\<rparr>) S = window_rel W T p S"
  by (simp_all add: window_rel_def pid_ok_def rec_window_def cong: option.case_cong)

lemma window_accepts_update [simp]:
  "window_accepts (p\<lparr>max_backtrack_stat := m\<rparr>) pin = window_accepts p pin"
  "window_accepts (p\<lparr>last_reap := r\<rparr>) pin = window_accepts p pin"
  by (simp_all add: window_accepts_def rec_window_def cong: option.case_cong)

lemma window_rel_check:
  assumes R: "window_rel W T (pid_rec (fst s)) S" and pin: "net_time pin = T" and nw: "1 < nw"
  defines "n \<equiv> unat (net_id pin)"
  defines "acc \<equiv> 0 < n \<and> n \<notin> S \<and> (\<forall>j\<in>S. j < n + W)"
  obtains s' where "crypto_check_replay nw lf s pin = Some (acc, s')"
    "window_rel W T (pid_rec (fst s')) (if acc then insert n S else S)"
proof -
  obtain pid per where s: "s = (pid, per)" by (cases s)
  let ?p = "pid_rec pid"
  have tb: "time_backtrack ?p = 0" using R by (simp add: s window_rel_def)
  obtain r where r: "packet_id_reap_test nw ?p = Some r" "window_rel W T r S"
    using R by (cases "last_reap ?p + SEQ_REAP_INTERVAL \<le> nw")
      (auto simp: packet_id_reap_test_def packet_id_reap_def tb s)
  then have ok: "pid_ok r" "seq_backtrack r \<noteq> 0" by (auto simp: window_rel_def)
  obtain m where m: "packet_id_test r pin = Some (window_accepts r pin, r\<lparr>max_backtrack_stat := m\<rparr>)"
    using packet_id_test_window [OF ok] .
  have acc: "window_accepts r pin = acc"
    unfolding acc_def n_def by (rule window_rel_accepts [OF r(2) pin])
  show thesis
  proof (cases acc)
    case True
    let ?r = "r\<lparr>max_backtrack_stat := m\<rparr>"
    have ok': "pid_ok ?r" "seq_backtrack ?r \<noteq> 0" "0 < net_id pin"
      using ok True by (auto simp: acc_def n_def unat_gt_0 word_neq_0_conv)
    obtain r' where add: "packet_id_add nw ?r pin = Some r'"
      using packet_id_add_window [OF ok'] by metis
    have R': "window_rel W T r' (insert n S)" unfolding n_def
      by (rule window_rel_step [OF _ pin _ nw add]) (use r(2) acc True in simp_all)
    obtain per' where "crypto_check_replay nw lf s pin = Some (True, pid\<lparr>pid_rec := r'\<rparr>, per')"
      using r(1) m acc True add by (auto simp: crypto_check_replay_def s Let_def)
    then show thesis using that [of "(pid\<lparr>pid_rec := r'\<rparr>, per')"] True R' by simp
  next
    case False
    then show thesis
      using that [of "(pid\<lparr>pid_rec := r\<lparr>max_backtrack_stat := m\<rparr>\<rparr>, per)"] r m acc
      by (simp add: crypto_check_replay_def s)
  qed
qed

lemma window_rel_run:
  assumes "window_rel W T (pid_rec (fst s)) S" "list_all (\<lambda>e. 1 < fst e \<and> net_time (snd e) = T) es"
  shows "\<exists>acc s'. run_filter (\<lambda>s e. crypto_check_replay (fst e) lf s (snd e)) s es = Some (acc, s') \<and>
    map (\<lambda>e. unat (net_id (snd e))) acc = window_spec W S (map (\<lambda>e. unat (net_id (snd e))) es)"
  using assms
proof (induction es arbitrary: s S)
  case (Cons e es)
  let ?n = "unat (net_id (snd e))"
  have e: "net_time (snd e) = T" "1 < fst e" using Cons.prems(2) by auto
  obtain s1 where s1: "crypto_check_replay (fst e) lf s (snd e)
        = Some (0 < ?n \<and> ?n \<notin> S \<and> (\<forall>j\<in>S. j < ?n + W), s1)"
      "window_rel W T (pid_rec (fst s1)) (if 0 < ?n \<and> ?n \<notin> S \<and> (\<forall>j\<in>S. j < ?n + W) then insert ?n S else S)"
    using window_rel_check [OF Cons.prems(1) e, of lf] .
  from Cons.IH [OF s1(2)] Cons.prems(2) obtain acc s' where
    "run_filter (\<lambda>s e. crypto_check_replay (fst e) lf s (snd e)) s1 es = Some (acc, s')"
    "map (\<lambda>e. unat (net_id (snd e))) acc = window_spec W
       (if 0 < ?n \<and> ?n \<notin> S \<and> (\<forall>j\<in>S. j < ?n + W) then insert ?n S else S)
       (map (\<lambda>e. unat (net_id (snd e))) es)"
    by auto
  then show ?case using s1(1) by simp
qed simp

text \<open>
  C5. The sliding window is the ideal one: with a window of \<open>sb\<close> ids and no time expiry
  (\<open>time_backtrack = 0\<close>), the packets of one time stamp that a fresh receiver accepts are exactly
  those that the specification on sets of ids accepts, in whatever order they arrive.
\<close>
theorem packet_id_window_refines_spec:
  assumes "packet_id_init sb 0 name unt = Some p" "0 < sb" "0 \<le> T"
    "list_all (\<lambda>e. 1 < fst e \<and> net_time (snd e) = T) es"
  shows "\<exists>acc s. run_filter (\<lambda>s e. crypto_check_replay (fst e) lf s (snd e)) (p, per) es = Some (acc, s) \<and>
    map (\<lambda>e. unat (net_id (snd e))) acc =
      window_spec (nat sb) {} (map (\<lambda>e. unat (net_id (snd e))) es)"
proof (rule window_rel_run)
  have "time_backtrack (pid_rec p) = 0"
    using assms(1) by (auto simp: packet_id_init_def packet_id_cleared_def Let_def split: if_splits)
  then show "window_rel (nat sb) T (pid_rec (fst (p, per))) {}"
    using packet_id_init_ok [OF assms(1)] assms(2,3) by (simp add: window_rel_def)
qed (rule assms(4))

text \<open>A concrete run: a burst out of order, with a replay, a late packet and one too old.\<close>

definition demo_arrivals :: "u32 list \<Rightarrow> (time \<times> packet_id_net) list" where
  "demo_arrivals ids = map (\<lambda>i. (1000, \<lparr>net_id = i, net_time = 7\<rparr>)) ids"

theorem packet_id_window_refines_spec_witness:
  "\<exists>p acc s. packet_id_init 3 0 ''x'' 0 = Some p \<and>
     run_filter (\<lambda>s e. crypto_check_replay (fst e) True s (snd e)) (p, None)
       (demo_arrivals [5, 7, 5, 6, 4, 8, 0]) = Some (acc, s) \<and>
     map (\<lambda>e. unat (net_id (snd e))) acc = [5, 7, 6, 8]"
proof -
  obtain p where p: "packet_id_init 3 0 ''x'' 0 = Some p"
    using packet_id_init_exists [of 3 0] by auto
  have "list_all (\<lambda>e. 1 < fst e \<and> net_time (snd e) = 7) (demo_arrivals [5, 7, 5, 6, 4, 8, 0])"
    by (simp add: demo_arrivals_def)
  from packet_id_window_refines_spec [OF p _ _ this, of True None] p show ?thesis
    by (auto simp: demo_arrivals_def)
qed

theorem packet_id_accepts_once_witness:
  "\<exists>p acc s. packet_id_init 64 15 ''x'' 0 = Some p \<and>
     run_filter (\<lambda>s e. crypto_check_replay (fst e) True s (snd e)) (p, None)
       (demo_arrivals [5, 7, 5, 6, 4, 8, 0]) = Some (acc, s) \<and>
     distinct (map (\<lambda>e. pid_key (snd e)) acc)"
proof -
  obtain p where p: "packet_id_init 64 15 ''x'' 0 = Some p"
    using packet_id_init_exists [of 64 15] by auto
  have "list_all (\<lambda>e. 1 < fst e) (demo_arrivals [5, 7, 5, 6, 4, 8, 0])"
    by (simp add: demo_arrivals_def)
  from packet_id_accepts_once [OF p this, of True None] p show ?thesis by auto
qed


section \<open>The sender: no packet id is used twice\<close>

fun packet_id_send_run :: "bool \<Rightarrow> packet_id_send \<Rightarrow> time list \<Rightarrow> (time \<times> u32) list" where
  "packet_id_send_run long_form p [] = []"
| "packet_id_send_run long_form p (nw # nws) =
     (case packet_id_send_update nw p long_form of
        (ok, p) \<Rightarrow> (if ok then [(send_time p, send_id p)] else []) @ packet_id_send_run long_form p nws)"

definition key_less :: "time \<times> u32 \<Rightarrow> time \<times> u32 \<Rightarrow> bool" where
  "key_less j k \<longleftrightarrow> fst j < fst k \<or> fst j = fst k \<and> snd j < snd k"

lemma send_update_increases:
  assumes "packet_id_send_update nw p lf = (ok, p')" "0 < nw" "0 \<le> send_time p"
  shows "0 \<le> send_time p'"
    "ok \<Longrightarrow> key_less (send_time p, send_id p) (send_time p', send_id p')"
    "send_time p < send_time p' \<or> send_time p = send_time p' \<and> send_id p \<le> send_id p'"
proof -
  have max: "i < i + 1" if "i \<noteq> PACKET_ID_MAX" for i :: u32
  proof -
    have "PACKET_ID_MAX = - 1" by (simp add: PACKET_ID_MAX_def)
    then have "i < PACKET_ID_MAX" using that word_order.not_eq_extremum [of i] by simp
    then show ?thesis using unat_Suc_less by (simp add: word_less_nat_alt)
  qed
  show "0 \<le> send_time p'"
    "ok \<Longrightarrow> key_less (send_time p, send_id p) (send_time p', send_id p')"
    "send_time p < send_time p' \<or> send_time p = send_time p' \<and> send_id p \<le> send_id p'"
    using assms max [of "send_id p"]
    by (auto simp: packet_id_send_update_def key_less_def Let_def split: if_splits)
qed

lemma send_run_above:
  assumes "list_all (\<lambda>n. 0 < n) nws" "0 \<le> send_time p" "k \<in> set (packet_id_send_run lf p nws)"
  shows "key_less (send_time p, send_id p) k"
  using assms
proof (induction nws arbitrary: p)
  case (Cons nw nws)
  obtain ok p' where u: "packet_id_send_update nw p lf = (ok, p')" by fastforce
  have nw: "0 < nw" using Cons.prems(1) by simp
  note inc = send_update_increases [OF u nw Cons.prems(2)]
  from Cons.prems(3) u consider "ok" "k = (send_time p', send_id p')"
    | "k \<in> set (packet_id_send_run lf p' nws)"
    by (auto split: if_splits)
  then show ?case
  proof cases
    case 2
    then have "key_less (send_time p', send_id p') k" using Cons inc(1) by simp
    with inc(3) show ?thesis by (auto simp: key_less_def)
  qed (use inc(2) in simp)
qed simp

text \<open>
  C7. Nonce uniqueness: whatever the clock does between packets (it may stand still or run
  backwards), the sender never puts the same pair of time stamp and sequence number on two packets; in
  short form it stops at the last id instead of wrapping around.
\<close>
theorem packet_id_send_unique:
  assumes "list_all (\<lambda>n. 0 < n) nws" "0 \<le> send_time p"
  shows "distinct (packet_id_send_run lf p nws)"
  using assms
proof (induction nws arbitrary: p)
  case (Cons nw nws)
  obtain ok p' where u: "packet_id_send_update nw p lf = (ok, p')" by fastforce
  have "0 < nw" "list_all (\<lambda>n. 0 < n) nws" using Cons.prems(1) by simp_all
  note inc = send_update_increases [OF u this(1) Cons.prems(2)]
  have "(send_time p', send_id p') \<notin> set (packet_id_send_run lf p' nws)"
    using send_run_above [OF \<open>list_all (\<lambda>n. 0 < n) nws\<close> inc(1), of "(send_time p', send_id p')" lf]
    by (auto simp: key_less_def)
  then show ?case using Cons.IH [OF \<open>list_all (\<lambda>n. 0 < n) nws\<close> inc(1)] u by simp
qed simp

theorem packet_id_send_unique_witness:
  "packet_id_send_run True \<lparr>send_id = 0xFFFFFFFE, send_time = 50\<rparr> [60, 60, 40, 70] =
     [(50, 0xFFFFFFFF), (60, 1), (60, 2), (60, 3)] \<and>
   distinct (packet_id_send_run True \<lparr>send_id = 0xFFFFFFFE, send_time = 50\<rparr> [60, 60, 40, 70])"
proof
  show "packet_id_send_run True \<lparr>send_id = 0xFFFFFFFE, send_time = 50\<rparr> [60, 60, 40, 70] =
     [(50, 0xFFFFFFFF), (60, 1), (60, 2), (60, 3)]"
    by (simp add: packet_id_send_update_def PACKET_ID_MAX_def Let_def)
qed (rule packet_id_send_unique; simp)

section \<open>The wire format\<close>

lemma packet_id_write_bytes:
  assumes "buf_ok b" "packet_id_write nw p b lf prepend = (True, p', b')"
  shows "buf_ok b'"
    "buf_bytes b' =
      (let w = be32 (send_id p') @ (if lf then be32 (word_of_int (send_time p')) else [])
       in if prepend then w @ buf_bytes b else buf_bytes b @ w)"
proof -
  let ?i = "be32 (send_id p')" and ?t = "be32 (word_of_int (send_time p'))"
  have "buf_ok b' \<and> buf_bytes b' =
      (let w = ?i @ (if lf then ?t else []) in if prepend then w @ buf_bytes b else buf_bytes b @ w)"
  proof (cases prepend)
    case True
    with assms(2) obtain b1 where b1: "(if lf then buf_write_prepend b ?t else Some b) = Some b1"
      "buf_write_prepend b1 ?i = Some b'"
      by (auto simp: packet_id_write_def Let_def split: prod.splits bool.splits if_splits option.splits)
    then have "buf_ok b1" "buf_bytes b1 = (if lf then ?t else []) @ buf_bytes b"
      using assms(1) buf_write_prepend_Some(1,2) [OF assms(1)] by (auto split: if_splits)
    with buf_write_prepend_Some(1,2) [OF this(1) b1(2)] True show ?thesis by simp
  next
    case False
    with assms(2) obtain b1 where b1: "buf_write b ?i = Some b1"
      "(if lf then buf_write b1 ?t else Some b1) = Some b'"
      by (auto simp: packet_id_write_def Let_def split: prod.splits bool.splits if_splits option.splits)
    note s1 = buf_write_Some(1,2) [OF assms(1) b1(1)]
    show ?thesis using b1(2) s1 buf_write_Some(1,2) [OF s1(1)] False by (auto split: if_splits)
  qed
  then show "buf_ok b'" "buf_bytes b' =
      (let w = ?i @ (if lf then ?t else []) in if prepend then w @ buf_bytes b else buf_bytes b @ w)"
    by blast+
qed

text \<open>
  C8. Wire round trip: what \<^verbatim>\<open>packet_id_write\<close> puts in front of a packet (or into an empty
  buffer), \<^verbatim>\<open>packet_id_read\<close> gets back, in short and in long form, leaving the packet.
\<close>
theorem packet_id_write_read:
  assumes "buf_ok b" "packet_id_write nw p b lf prepend = (True, p', b')"
    "prepend \<or> buf_bytes b = []" "0 \<le> send_time p'" "send_time p' < 2 ^ 32"
  shows "\<exists>b''. packet_id_read b' lf =
      (True, \<lparr>net_id = send_id p', net_time = (if lf then send_time p' else 0)\<rparr>, b'') \<and>
      buf_ok b'' \<and> buf_bytes b'' = buf_bytes b"
proof -
  let ?t = "word_of_int (send_time p') :: u32"
  have b': "buf_ok b'"
    "buf_bytes b' = be32 (send_id p') @ (if lf then be32 ?t else []) @ buf_bytes b"
    using packet_id_write_bytes [OF assms(1,2)] assms(3) by (auto simp: Let_def)
  obtain b1 where b1: "buf_read b' 4 = (Some (be32 (send_id p')), b1)" "buf_ok b1"
    "buf_bytes b1 = (if lf then be32 ?t else []) @ buf_bytes b"
    using bufq.get_u32 [OF b'] .
  show ?thesis
  proof (cases lf)
    case True
    with b1(3) have "buf_bytes b1 = be32 ?t @ buf_bytes b" by simp
    from bufq.get_u32 [OF b1(2) this] obtain b2 where
      "buf_read b1 4 = (Some (be32 ?t), b2)" "buf_ok b2" "buf_bytes b2 = buf_bytes b" .
    with b1 True assms(4,5) show ?thesis
      by (simp add: packet_id_read_def u32_of_int_small)
  qed (use b1 in \<open>simp add: packet_id_read_def\<close>)
qed

lemma circ_items_empty: "circ_items l = [] \<longleftrightarrow> x_size l \<le> 0"
  by (simp flip: length_0_conv)

lemma uint_nonneg: "0 \<le> uint w"
  by simp

section \<open>Persistence across restarts\<close>




theorem packet_id_write_read_witness:
  "\<exists>b p' b' b''. buf_ok b \<and>
     packet_id_write 100 \<lparr>send_id = 0, send_time = 0\<rparr> b True True = (True, p', b') \<and>
     packet_id_read b' True = (True, \<lparr>net_id = 1, net_time = 100\<rparr>, b'') \<and> buf_bytes b'' = [7]"
proof -
  let ?b = "\<lparr>b_capacity = 12, b_offset = 8, b_len = 1, b_data = Some (replicate 12 7)\<rparr>"
  have ok: "buf_ok ?b" "buf_bytes ?b = [7]"
    by (simp_all add: buf_ok_def BUF_SIZE_MAX_def buf_bytes_def b_mem_def)
  obtain b1 where b1: "buf_write_prepend ?b (be32 100) = Some b1" "buf_ok b1" "b_offset b1 = 4"
    using buf_write_prepend_iff [OF ok(1), of "be32 100"] buf_write_prepend_Some [OF ok(1)] by auto
  obtain b2 where b2: "buf_write_prepend b1 (be32 1) = Some b2"
    using buf_write_prepend_iff [OF b1(2), of "be32 1"] b1(3) by auto
  have w: "packet_id_write 100 \<lparr>send_id = 0, send_time = 0\<rparr> ?b True True =
      (True, \<lparr>send_id = 1, send_time = 100\<rparr>, b2)"
    using b1(1) b2 by (simp add: packet_id_write_def packet_id_send_update_def PACKET_ID_MAX_def)
  show ?thesis
    using packet_id_write_read [OF ok(1) w] w ok by auto
qed

end
