(* ===== verification/Pool_Persist.thy ===== *)
theory Pool_Persist
  imports Pool
begin

text \<open>
  The file the address pool is saved in: the status files of \<^verbatim>\<open>status.h\<close> and \<^verbatim>\<open>status.c\<close> and the functions
  of \<^verbatim>\<open>pool.c\<close> that write and read a pool. The printing and parsing of addresses, which \<^verbatim>\<open>socket.c\<close> leaves
  to the C library, are arguments. The theorem shows that a saved pool is restored.
\<close>

section \<open>Status files\<close>

text \<open>
  An open status file: the bytes of the file and the offset of the descriptor, the read buffer and
  the flags. Reads return what is there, up to the size asked for, and writes succeed.
\<close>

record status_output =
  so_data :: "u8 list"
  so_pos :: nat
  so_read_buf :: buffer
  so_can_read :: bool
  so_can_write :: bool
  so_errors :: bool

definition STATUS_PRINTF_MAXLEN :: nat where "STATUS_PRINTF_MAXLEN = 512"

definition status_open :: "u8 list \<Rightarrow> bool \<Rightarrow> bool \<Rightarrow> status_output option" where
  "status_open data rd wr = do {
     b \<leftarrow> (if rd then alloc_buf 512 else Some clear_buf);
     Some \<lparr>so_data = (if wr \<and> \<not> rd then [] else data), so_pos = 0, so_read_buf = b,
           so_can_read = rd, so_can_write = wr, so_errors = False\<rparr> }"

definition status_reset :: "status_output \<Rightarrow> status_output" where
  "status_reset so = so\<lparr>so_pos := 0\<rparr>"

definition status_flush :: "status_output \<Rightarrow> status_output option" where
  "status_flush so =
     (if so_can_write so
      then let so = so\<lparr>so_data := take (so_pos so) (so_data so)\<rparr>
           in if buf_defined (so_read_buf so)
              then do { b \<leftarrow> buf_init (so_read_buf so) 0; Some (so\<lparr>so_read_buf := b\<rparr>) }
              else Some so
      else Some so)"

definition status_printf :: "status_output \<Rightarrow> u8 list \<Rightarrow> status_output" where
  "status_printf so str =
     (if so_can_write so
      then let so = (if length str \<ge> STATUS_PRINTF_MAXLEN then so\<lparr>so_errors := True\<rparr> else so)
           in if \<not> so_errors so
              then so\<lparr>so_data := mem_write (so_data so) (so_pos so) (str @ [10]),
                      so_pos := so_pos so + length str + 1\<rparr>
              else so
      else so)"

text \<open>What is left to read, in the buffer and in the file.\<close>

definition so_rest :: "status_output \<Rightarrow> u8 list" where
  "so_rest so = buf_bytes (so_read_buf so) @ drop (so_pos so) (so_data so)"

lemma buf_read_u8_consumes:
  assumes "(c, b') = buf_read_u8 b" "c \<noteq> - 1"
  shows "b_len b' < b_len b" "0 < b_len b"
proof -
  have "c \<ge> 0" using assms by (auto simp: buf_read_u8_def split: if_splits)
  then show "b_len b' < b_len b" "0 < b_len b" using buf_read_u8_shrinks [OF assms(1) [symmetric]] by auto
qed

function status_read_loop ::
  "status_output \<Rightarrow> buffer \<Rightarrow> bool \<Rightarrow> (bool \<times> status_output \<times> buffer) option" where
  "status_read_loop so b ret =
     (let (c, rb) = buf_read_u8 (so_read_buf so)
      in if c = - 1
         then (case buf_init rb 0 of
             None \<Rightarrow> None
           | Some rb \<Rightarrow>
             (let len = min (buf_forward_capacity rb) (int (length (so_data so) - so_pos so))
              in if len \<le> 0 then Some (ret, so\<lparr>so_read_buf := rb\<rparr>, b)
                 else (case buf_inc_len (poke rb (b_offset rb) (take (nat len) (drop (so_pos so) (so_data so)))) len of
                     None \<Rightarrow> None
                   | Some rb \<Rightarrow>
                       status_read_loop (so\<lparr>so_read_buf := rb, so_pos := so_pos so + nat len\<rparr>) b ret)))
         else let so = so\<lparr>so_read_buf := rb\<rparr>
         in if c = 13 then status_read_loop so b True
            else if c = 10 then Some (True, so, b)
            else status_read_loop so (case buf_write_u8 b (word_of_int c) of None \<Rightarrow> b | Some b' \<Rightarrow> b') True)"
  by pat_completeness auto

termination
proof (relation "measure (\<lambda>(so, b, r). 2 * (length (so_data so) - so_pos so) + nat (b_len (so_read_buf so)))")
qed (auto dest: buf_read_u8_consumes simp: buf_init_def buf_inc_len_def poke_def split: if_splits)

declare status_read_loop.simps [simp del]


text \<open>A buffer without memory fails the assertion on it.\<close>

definition status_read :: "status_output \<Rightarrow> buffer \<Rightarrow> (bool \<times> status_output \<times> buffer) option" where
  "status_read so b =
     (if so_can_read so
      then if buf_defined (so_read_buf so) \<and> buf_defined b
           then do {
             (ret, so, b) \<leftarrow> status_read_loop so b False;
             Some (ret, so, buf_null_terminate b) }
           else None
      else Some (False, so, b))"

definition so_left :: "status_output \<Rightarrow> nat" where
  "so_left so = 2 * (length (so_data so) - so_pos so) + nat (b_len (so_read_buf so))"

lemma status_read_loop_consumes:
  assumes "status_read_loop so b ret = Some (True, so', b')"
  shows "ret \<and> so_left so' \<le> so_left so \<or> so_left so' < so_left so"
  using assms
proof (induction so b ret rule: status_read_loop.induct)
  case (1 so b ret)
  obtain c rb where c: "buf_read_u8 (so_read_buf so) = (c, rb)" by fastforce
  show ?case
  proof (cases "c = - 1")
    case True
    note c = c [unfolded True]
    obtain rb0 where rb0: "buf_init rb 0 = Some rb0"
      using "1.prems" c by (subst (asm) status_read_loop.simps) (auto split: option.splits)
    define len where "len = min (buf_forward_capacity rb0) (int (length (so_data so) - so_pos so))"
    have b0: "b_len rb0 = 0" using rb0 by (auto simp: buf_init_def split: if_splits)
    show ?thesis
    proof (cases "len \<le> 0")
      case True
      then show ?thesis using "1.prems" c rb0 b0
        by (subst (asm) status_read_loop.simps) (auto simp: len_def [symmetric] so_left_def)
    next
      case False
      obtain rb1 where rb1: "buf_inc_len (poke rb0 (b_offset rb0) (take (nat len) (drop (so_pos so) (so_data so)))) len = Some rb1"
        and rest: "status_read_loop (so\<lparr>so_read_buf := rb1, so_pos := so_pos so + nat len\<rparr>) b ret = Some (True, so', b')"
        using "1.prems" c rb0 False
        by (subst (asm) status_read_loop.simps) (auto simp: len_def [symmetric] split: option.splits)
      have "b_len rb1 = len" using rb1 b0 by (auto simp: buf_inc_len_def poke_def split: if_splits)
      moreover have "nat len \<le> length (so_data so) - so_pos so" "0 < nat len" using False unfolding len_def by linarith+
      ultimately have "so_left (so\<lparr>so_read_buf := rb1, so_pos := so_pos so + nat len\<rparr>) < so_left so"
        by (simp add: so_left_def)
      moreover have "ret \<and> so_left so' \<le> so_left (so\<lparr>so_read_buf := rb1, so_pos := so_pos so + nat len\<rparr>)
          \<or> so_left so' < so_left (so\<lparr>so_read_buf := rb1, so_pos := so_pos so + nat len\<rparr>)"
        by (rule "1.IH"(1) [OF c [symmetric] refl refl rb0 len_def _ rb1 rest]) (use False in simp)
      ultimately show ?thesis by linarith
    qed
  next
    case False
    note shrink = buf_read_u8_consumes [OF c [symmetric] False]
    have left: "so_left (so\<lparr>so_read_buf := rb\<rparr>) < so_left so" using shrink by (simp add: so_left_def)
    show ?thesis
    proof (cases "c = 10")
      case True
      then have "so' = so\<lparr>so_read_buf := rb\<rparr>" using "1.prems" c by (subst (asm) status_read_loop.simps) auto
      then show ?thesis using left by simp
    next
      case c10: False
      define b0 where "b0 = (if c = 13 then b else case buf_write_u8 b (word_of_int c) of None \<Rightarrow> b | Some b' \<Rightarrow> b')"
      have "status_read_loop so b ret = status_read_loop (so\<lparr>so_read_buf := rb\<rparr>) b0 True"
        using c False c10 by (subst status_read_loop.simps) (simp add: b0_def)
      then have rest: "status_read_loop (so\<lparr>so_read_buf := rb\<rparr>) b0 True = Some (True, so', b')" using "1.prems" by simp
      have ih: "c = 13 \<and> b0 = b \<or> c \<noteq> 13 \<and> b0 = (case buf_write_u8 b (word_of_int c) of None \<Rightarrow> b | Some b' \<Rightarrow> b')"
        by (simp add: b0_def)
      have "so_left so' \<le> so_left (so\<lparr>so_read_buf := rb\<rparr>)"
        using ih
      proof (elim disjE conjE)
        assume "c = 13" "b0 = b"
        then show ?thesis using "1.IH"(2) [OF c [symmetric] refl False refl] rest by auto
      next
        assume "c \<noteq> 13" "b0 = (case buf_write_u8 b (word_of_int c) of None \<Rightarrow> b | Some b' \<Rightarrow> b')"
        then show ?thesis using "1.IH"(3) [OF c [symmetric] refl False refl _ c10] rest by auto
      qed
      then show ?thesis using left by simp
    qed
  qed
qed

section \<open>Saving and restoring a pool\<close>

text \<open>The persistence file and whether its entries are reservations; there is no structure without a file here.\<close>

record ifconfig_pool_persist =
  pp_file :: status_output
  pp_fixed :: bool

definition ifconfig_pool_persist_init :: "u8 list \<Rightarrow> int \<Rightarrow> ifconfig_pool_persist option" where
  "ifconfig_pool_persist_init data refresh_freq =
     (if refresh_freq > 0
      then do { f \<leftarrow> status_open data True True; Some \<lparr>pp_file = f, pp_fixed = False\<rparr> }
      else do { f \<leftarrow> status_open data True False; Some \<lparr>pp_file = f, pp_fixed = True\<rparr> })"

text \<open>The line of an entry that carries a name; \<open>print4\<close> and \<open>print6\<close> format addresses.\<close>

definition pool_line ::
  "(in_addr \<Rightarrow> u8 list) \<Rightarrow> (in6_addr \<Rightarrow> u8 list) \<Rightarrow> ifconfig_pool \<Rightarrow> int \<Rightarrow> u8 list \<Rightarrow> u8 list" where
  "pool_line print4 print6 p i cn =
     (let ip_str = (if ipv4_enabled p then print4 (ifconfig_pool_handle_to_ip_base p i) else []);
          ip6_str = (if ipv6_enabled p then print6 (ifconfig_pool_handle_to_ipv6_base p i) else [])
      in cn @ [44] @ ip_str @ [44] @ ip6_str)"

definition ifconfig_pool_list ::
  "(in_addr \<Rightarrow> u8 list) \<Rightarrow> (in6_addr \<Rightarrow> u8 list) \<Rightarrow> ifconfig_pool \<Rightarrow> status_output \<Rightarrow> status_output" where
  "ifconfig_pool_list print4 print6 p out =
     fold (\<lambda>i out. case pe_common_name (pool_list p ! i) of
         None \<Rightarrow> out
       | Some cn \<Rightarrow> status_printf out (pool_line print4 print6 p (int i) cn))
       [0..<length (pool_list p)] out"

definition ifconfig_pool_write ::
  "(in_addr \<Rightarrow> u8 list) \<Rightarrow> (in6_addr \<Rightarrow> u8 list) \<Rightarrow> ifconfig_pool_persist \<Rightarrow> ifconfig_pool \<Rightarrow> ifconfig_pool_persist option" where
  "ifconfig_pool_write print4 print6 persist p =
     (if so_can_write (pp_file persist)
      then do {
        f \<leftarrow> status_flush (ifconfig_pool_list print4 print6 p (status_reset (pp_file persist)));
        Some (persist\<lparr>pp_file := f\<rparr>) }
      else Some persist)"

text \<open>
  What \<^verbatim>\<open>ifconfig_pool_read\<close> does with one line, in the buffer \<open>inb\<close>; \<open>parse4\<close> is \<^verbatim>\<open>getaddr\<close> and \<open>parse6\<close>
  \<^verbatim>\<open>get_ipv6_addr\<close>.
\<close>

definition pool_read_line ::
  "(u8 list \<Rightarrow> in_addr option) \<Rightarrow> (u8 list \<Rightarrow> in6_addr option) \<Rightarrow> bool \<Rightarrow> time \<Rightarrow> buffer \<Rightarrow> ifconfig_pool \<Rightarrow>
   ifconfig_pool option" where
  "pool_read_line parse4 parse6 fixd nw inb p =
     (if buf_len inb = 0 then Some p
      else let c = b_mem inb ! nat (b_offset inb)
      in if c = ch CHR ''#'' \<or> c = ch CHR '';'' then Some p
      else do {
        (ok, cn_buf, inb) \<leftarrow> buf_parse inb 44 128;
        if \<not> ok then Some p
        else do {
        (ok, ip_buf, inb) \<leftarrow> buf_parse inb 44 128;
        if \<not> ok then Some p
        else do {
        let h = (if length ip_buf > 0
                 then case parse4 ip_buf of None \<Rightarrow> - 1 | Some addr \<Rightarrow> ifconfig_pool_ip_base_to_handle p addr
                 else - 1);
        (ok, ip6_buf, inb) \<leftarrow> buf_parse inb 44 128;
        let h = (if ok \<and> length ip6_buf > 0
                 then case parse6 ip6_buf of
                     None \<Rightarrow> h
                   | Some addr6 \<Rightarrow> (let h6 = ifconfig_pool_ipv6_base_to_handle p addr6 in if h < 0 then h6 else h)
                 else h);
        Some (if h \<ge> 0 then ifconfig_pool_set p cn_buf h fixd nw else p) } } })"

lemma status_read_consumes:
  assumes "status_read so b = Some (True, so', b')"
  shows "so_left so' < so_left so"
  using assms status_read_loop_consumes [of so b False so']
  by (auto simp: status_read_def split: if_splits Option.bind_splits)

function pool_read_loop ::
  "(u8 list \<Rightarrow> in_addr option) \<Rightarrow> (u8 list \<Rightarrow> in6_addr option) \<Rightarrow> bool \<Rightarrow> time \<Rightarrow> buffer \<Rightarrow> status_output \<Rightarrow>
   ifconfig_pool \<Rightarrow> (status_output \<times> ifconfig_pool) option" where
  "pool_read_loop parse4 parse6 fixd nw inb so p =
     (case buf_init inb 0 of
        None \<Rightarrow> None
      | Some inb \<Rightarrow>
        (case status_read so inb of
           None \<Rightarrow> None
         | Some (False, so, inb) \<Rightarrow> Some (so, p)
         | Some (True, so, inb) \<Rightarrow>
             (case pool_read_line parse4 parse6 fixd nw inb p of
                None \<Rightarrow> None
              | Some p \<Rightarrow> pool_read_loop parse4 parse6 fixd nw inb so p)))"
  by pat_completeness auto

termination
  by (relation "measure (\<lambda>(parse4, parse6, fixd, nw, inb, so, p). so_left so)")
    (auto dest: status_read_consumes)

declare pool_read_loop.simps [simp del]

definition ifconfig_pool_read ::
  "(u8 list \<Rightarrow> in_addr option) \<Rightarrow> (u8 list \<Rightarrow> in6_addr option) \<Rightarrow> time \<Rightarrow> ifconfig_pool_persist \<Rightarrow> ifconfig_pool \<Rightarrow>
   (ifconfig_pool_persist \<times> ifconfig_pool) option" where
  "ifconfig_pool_read parse4 parse6 nw persist p = do {
     inb \<leftarrow> alloc_buf 256;
     (f, p) \<leftarrow> pool_read_loop parse4 parse6 (pp_fixed persist) nw inb (pp_file persist) p;
     Some (persist\<lparr>pp_file := f\<rparr>, p) }"

section \<open>Reading lines\<close>

definition status_ok :: "status_output \<Rightarrow> bool" where
  "status_ok so \<longleftrightarrow> so_can_read so \<and> buf_ok (so_read_buf so) \<and> 0 < b_capacity (so_read_buf so) \<and>
     so_pos so \<le> length (so_data so)"

lemma buf_first:
  assumes "buf_ok b" "buf_bytes b = c # bs"
  shows "b_mem b ! nat (b_offset b) = c" "0 < buf_len b"
proof -
  show len: "0 < buf_len b" using length_buf_bytes [OF assms(1)] assms by simp
  have "buf_bytes b ! 0 = b_mem b ! nat (b_offset b)" using len assms(1)
    by (auto simp: buf_bytes_def b_mem_def nth_append elim!: buf_okE)
  then show "b_mem b ! nat (b_offset b) = c" using assms(2) by simp
qed

lemma status_refill:
  assumes "status_ok so" "buf_bytes (so_read_buf so) = []" "so_rest so \<noteq> []"
  obtains so' where "\<And>b ret. status_read_loop so b ret = status_read_loop so' b ret" "status_ok so'"
    "so_rest so' = so_rest so" "buf_bytes (so_read_buf so') \<noteq> []"
proof -
  let ?rb = "so_read_buf so" and ?n = "length (so_data so) - so_pos so"
  obtain m where m: "b_data ?rb = Some m" "int (length m) = b_capacity ?rb" "0 < b_capacity ?rb" "b_capacity ?rb < BUF_SIZE_MAX"
    using assms(1) by (auto simp: status_ok_def elim: buf_okE)
  define len where "len = min (b_capacity ?rb) (int ?n)"
  define rb0 where "rb0 = ?rb\<lparr>b_len := 0, b_offset := 0\<rparr>"
  define bs where "bs = take (nat len) (drop (so_pos so) (so_data so))"
  define rb1 where "rb1 = (poke rb0 0 bs)\<lparr>b_len := len\<rparr>"
  have drop: "drop (so_pos so) (so_data so) \<noteq> []" using assms(2,3) by (simp add: so_rest_def)
  then have len: "0 < len" "len \<le> b_capacity ?rb" "nat len \<le> ?n" using m unfolding len_def by auto
  then have nl: "\<not> len \<le> 0" by simp
  have bs: "length bs = nat len" using len by (simp add: bs_def)
  have init: "buf_init ?rb 0 = Some rb0" using m by (simp add: buf_init_def rb0_def)
  have cap: "buf_forward_capacity rb0 = b_capacity ?rb" using m
    by (simp add: buf_forward_capacity_def buf_valid_def rb0_def Let_def)
  have inc: "buf_inc_len (poke rb0 (b_offset rb0) bs) len = Some rb1" using m len
    by (simp add: buf_inc_len_def buf_safe_bidir_def buf_valid_def buf_size_valid_signed_def poke_def rb0_def rb1_def Let_def)
  have ok: "buf_ok rb1" using m len bs
    by (simp add: rb1_def rb0_def poke_def buf_ok_def mem_write_def)
  have bytes: "buf_bytes rb1 = bs" using m len bs
    by (simp add: rb1_def rb0_def poke_def buf_bytes_def b_mem_def mem_write_def)
  define so' where "so' = so\<lparr>so_read_buf := rb1, so_pos := so_pos so + nat len\<rparr>"
  have rd: "buf_read_u8 ?rb = (- 1, ?rb)" using assms(1,2) by (intro buf_read_u8_end) (simp_all add: status_ok_def)
  have "status_read_loop so b ret = status_read_loop so' b ret" for b ret
    by (subst status_read_loop.simps)
      (simp add: rd init cap len_def [symmetric] bs_def [symmetric] inc so'_def nl Let_def)
  moreover have "status_ok so'" using assms(1) len ok m
    by (auto simp: status_ok_def so'_def rb1_def rb0_def poke_def)
  moreover have "so_rest so' = so_rest so"
    using assms(2) bytes by (simp add: so_rest_def so'_def bs_def) (metis add.commute append_take_drop_id drop_drop)
  moreover have "buf_bytes (so_read_buf so') \<noteq> []" using bytes bs len by (auto simp: so'_def)
  ultimately show ?thesis by (rule that)
qed

lemma status_next:
  assumes "status_ok so" "so_rest so = c # cs"
  obtains so' where "status_ok so'" "so_rest so' = cs"
    "\<And>b ret. status_read_loop so b ret = (if c = 13 then status_read_loop so' b True
       else if c = 10 then Some (True, so', b)
       else status_read_loop so' (case buf_write_u8 b c of None \<Rightarrow> b | Some b' \<Rightarrow> b') True)"
proof -
  obtain s where s: "\<And>b ret. status_read_loop so b ret = status_read_loop s b ret" "status_ok s"
    "so_rest s = c # cs" "buf_bytes (so_read_buf s) \<noteq> []"
  proof (cases "buf_bytes (so_read_buf so) = []")
    case True
    show ?thesis by (rule status_refill [OF assms(1) True]) (use assms(2) in \<open>auto intro: that\<close>)
  next
    case False
    show ?thesis by (rule that [of so]) (use assms False in simp_all)
  qed
  then obtain bs where bs: "buf_bytes (so_read_buf s) = c # bs" by (cases "buf_bytes (so_read_buf s)") (auto simp: so_rest_def)
  have ok: "buf_ok (so_read_buf s)" using s(2) by (simp add: status_ok_def)
  obtain rb where rb: "buf_read_u8 (so_read_buf s) = (uint c, rb)" "buf_ok rb" "buf_bytes rb = bs"
    by (rule buf_read_u8_ok [OF ok bs])
  have cap: "b_capacity rb = b_capacity (so_read_buf s)"
    using rb(1) by (auto simp: buf_read_u8_def buf_advance_def split: if_splits)
  show ?thesis
  proof (rule that [of "s\<lparr>so_read_buf := rb\<rparr>"])
    show "status_ok (s\<lparr>so_read_buf := rb\<rparr>)" using s(2) rb(2) cap by (simp add: status_ok_def)
    show "so_rest (s\<lparr>so_read_buf := rb\<rparr>) = cs" using s(3) bs rb(3) by (simp add: so_rest_def)
    fix b ret
    have u: "uint c = 13 \<longleftrightarrow> c = 13" "uint c = 10 \<longleftrightarrow> c = 10"
      by (simp_all add: word_uint_eq_iff)
    have n: "uint c \<noteq> - 1" using uint_u8_bounds(1) [of c] by linarith
    show "status_read_loop so b ret = (if c = 13 then status_read_loop (s\<lparr>so_read_buf := rb\<rparr>) b True
       else if c = 10 then Some (True, s\<lparr>so_read_buf := rb\<rparr>, b)
       else status_read_loop (s\<lparr>so_read_buf := rb\<rparr>) (case buf_write_u8 b c of None \<Rightarrow> b | Some b' \<Rightarrow> b') True)"
      unfolding s(1) by (subst status_read_loop.simps) (simp add: rb(1) u n)
  qed
qed

lemma status_end:
  assumes "status_ok so" "so_rest so = []"
  obtains so' where "status_read_loop so b ret = Some (ret, so', b)"
proof -
  have e: "buf_bytes (so_read_buf so) = []" "length (so_data so) - so_pos so = 0" using assms by (auto simp: so_rest_def)
  have rd: "buf_read_u8 (so_read_buf so) = (- 1, so_read_buf so)"
    using assms(1) e by (intro buf_read_u8_end) (simp_all add: status_ok_def)
  obtain rb where "buf_init (so_read_buf so) 0 = Some rb"
    using assms(1) by (auto simp: status_ok_def buf_init_def buf_ok_def)
  then have "status_read_loop so b ret = Some (ret, so\<lparr>so_read_buf := rb\<rparr>, b)"
    by (subst status_read_loop.simps) (simp add: rd e Let_def min_def)
  then show ?thesis by (rule that)
qed

lemma read_loop_line:
  assumes "status_ok so" "so_rest so = line @ 10 # rest" "10 \<notin> set line" "13 \<notin> set line" "buf_ok b"
    and "b_offset b + b_len b + int (length line) \<le> b_capacity b"
  shows "\<exists>so' b'. status_read_loop so b ret = Some (True, so', b') \<and> status_ok so' \<and> so_rest so' = rest \<and>
    buf_ok b' \<and> buf_bytes b' = buf_bytes b @ line \<and> b_offset b' = b_offset b \<and> b_capacity b' = b_capacity b"
  using assms
proof (induction line arbitrary: so b ret)
  case Nil
  then obtain so' where so': "status_ok so'" "so_rest so' = rest"
    "\<And>b ret. status_read_loop so b ret = (if (10 :: u8) = 13 then status_read_loop so' b True
       else if (10 :: u8) = 10 then Some (True, so', b)
       else status_read_loop so' (case buf_write_u8 b 10 of None \<Rightarrow> b | Some b' \<Rightarrow> b') True)"
    using status_next [of so 10 rest] by auto
  then have "status_read_loop so b ret = Some (True, so', b)" using so'(3) [of b ret] by simp
  then show ?case using so' Nil by simp
next
  case (Cons c line)
  obtain so1 where so1: "status_ok so1" "so_rest so1 = line @ 10 # rest"
    "\<And>b ret. status_read_loop so b ret = (if c = 13 then status_read_loop so1 b True
       else if c = 10 then Some (True, so1, b)
       else status_read_loop so1 (case buf_write_u8 b c of None \<Rightarrow> b | Some b' \<Rightarrow> b') True)"
    using status_next [of so c "line @ 10 # rest"] Cons.prems by auto
  obtain b1 where b1: "buf_write b [c] = Some b1"
    using buf_write_iff [OF Cons.prems(5), of "[c]"] Cons.prems(6) by auto
  note w = buf_write_Some [OF Cons.prems(5) b1]
  have "status_read_loop so b ret = status_read_loop so1 b1 True"
    using so1(3) [of b ret] Cons.prems(3,4) b1 by (simp add: buf_write_u8_def)
  moreover have "\<exists>so' b'. status_read_loop so1 b1 True = Some (True, so', b') \<and> status_ok so' \<and> so_rest so' = rest \<and>
    buf_ok b' \<and> buf_bytes b' = buf_bytes b1 @ line \<and> b_offset b' = b_offset b1 \<and> b_capacity b' = b_capacity b1"
    by (rule Cons.IH) (use so1 w Cons.prems in auto)
  ultimately show ?case using w by auto
qed

lemma null_terminate_ok:
  assumes "buf_ok b" "0 \<notin> set (buf_bytes b)" "b_offset b + b_len b < b_capacity b"
  shows "buf_ok (buf_null_terminate b)" "buf_bytes (buf_null_terminate b) = buf_bytes b @ [0]"
proof -
  have safe: "buf_safe b 1" using assms buf_ok_bounds [OF assms(1)]
    by (simp add: buf_safe_def buf_size_valid_def BUF_SIZE_MAX_def)
  obtain b' where b': "buf_write b [0] = Some b'" using buf_write_iff [OF assms(1), of "[0]"] assms(3) by auto
  have "b_mem b ! nat cp \<noteq> 0" if "buf_blast b = Some cp" for cp
  proof -
    have cp: "0 < b_len b" "cp = b_offset b + b_len b - 1" using that assms(1) by (auto simp: buf_blast_def split: if_splits)
    obtain m where m: "b_data b = Some m" "int (length m) = b_capacity b" "0 \<le> b_offset b" "b_offset b + b_len b \<le> b_capacity b"
      using assms(1) by (auto elim: buf_okE)
    have "nat cp = nat (b_offset b) + nat (b_len b - 1)" "nat (b_len b - 1) < nat (b_len b)"
      using cp m by auto
    then have "b_mem b ! nat cp = buf_bytes b ! nat (b_len b - 1)" "nat (b_len b - 1) < length (buf_bytes b)"
      using m cp by (auto simp: buf_bytes_def b_mem_def)
    then show ?thesis using assms(2) by (metis nth_mem)
  qed
  then have "buf_null_terminate b = b'" using safe b'
    by (auto simp: buf_null_terminate_def buf_write_u8_def split: option.splits)
  then show "buf_ok (buf_null_terminate b)" "buf_bytes (buf_null_terminate b) = buf_bytes b @ [0]"
    using buf_write_Some [OF assms(1) b'] by simp_all
qed

lemma status_read_line:
  assumes "status_ok so" "so_rest so = line @ 10 # rest" "10 \<notin> set line" "13 \<notin> set line" "0 \<notin> set line"
    and "buf_ok b" "buf_bytes b = []" "b_offset b + int (length line) < b_capacity b"
  obtains so' b' where "status_read so b = Some (True, so', b')" "status_ok so'" "so_rest so' = rest"
    "buf_ok b'" "buf_bytes b' = line @ [0]" "b_capacity b' = b_capacity b"
proof -
  have b0: "b_len b = 0" using length_buf_bytes [OF assms(6)] assms(7) by simp
  obtain so' b' where r: "status_read_loop so b False = Some (True, so', b')" "status_ok so'" "so_rest so' = rest"
    "buf_ok b'" "buf_bytes b' = line" "b_offset b' = b_offset b" "b_capacity b' = b_capacity b"
    using read_loop_line [OF assms(1-4,6), of False] assms(7,8) b0 by auto
  have len: "b_len b' = int (length line)" using length_buf_bytes [OF r(4)] r(5) by simp
  note nt = null_terminate_ok [OF r(4)]
  have cap: "b_capacity (buf_null_terminate x) = b_capacity x" for x
    by (auto simp: buf_null_terminate_def buf_write_u8_def buf_write_def buf_write_alloc_def buf_inc_len_def poke_def Let_def
        split: option.splits if_splits)
  have "buf_defined (so_read_buf so)" "buf_defined b" "so_can_read so"
    using assms(1,6) by (auto simp: status_ok_def buf_defined_def buf_ok_def)
  then have "status_read so b = Some (True, so', buf_null_terminate b')" using r(1) by (simp add: status_read_def)
  then show ?thesis
    by (rule that) (use r nt assms(5,8) len cap in auto)
qed

section \<open>Restoring what was saved\<close>

text \<open>A field fits the arrays of the reader and contains no separator.\<close>

definition field_ok :: "u8 list \<Rightarrow> bool" where
  "field_ok s \<longleftrightarrow> length s < 128 \<and> 0 \<notin> set s \<and> 10 \<notin> set s \<and> 13 \<notin> set s \<and> 44 \<notin> set s"

lemma field_ok_char: "field_ok s \<Longrightarrow> \<forall>c \<in> set s. c \<noteq> 0 \<and> uint c \<noteq> 44"
proof
  fix c assume "field_ok s" "c \<in> set s"
  then have "c \<noteq> 0" "c \<noteq> 44" by (auto simp: field_ok_def)
  moreover have "uint c = 44 \<longleftrightarrow> c = 44" by (simp add: word_uint_eq_iff)
  ultimately show "c \<noteq> 0 \<and> uint c \<noteq> 44" by simp
qed

lemma pool_read_line_ok:
  assumes "buf_ok inb" "buf_bytes inb = (cn @ 44 # ip @ 44 # ip6) @ [0]"
    and "field_ok cn" "field_ok ip" "field_ok ip6" "ip \<noteq> []"
    and "cn = [] \<or> hd cn \<noteq> ch CHR ''#'' \<and> hd cn \<noteq> ch CHR '';''"
    and "parse4 ip = Some a" "ifconfig_pool_ip_base_to_handle p a = i" "i \<ge> 0"
  shows "pool_read_line parse4 parse6 fixd nw inb p = Some (ifconfig_pool_set p cn i fixd nw)"
proof -
  have u44: "uint (44 :: u8) = 44" by simp
  have hash: "ch CHR ''#'' = (35 :: u8)" "ch CHR '';'' = (59 :: u8)" by simp_all
  obtain c bs where c: "buf_bytes inb = c # bs" "c \<noteq> ch CHR ''#''" "c \<noteq> ch CHR '';''"
    using assms(2,7) by (cases cn) (auto simp: hash)
  note first = buf_first [OF assms(1) c(1)]
  obtain b1 where b1: "buf_parse inb 44 128 = Some (True, cn, b1)" "buf_ok b1" "buf_bytes b1 = ip @ 44 # ip6 @ [0]"
    by (rule buf_parse_field [OF assms(1) field_ok_char [OF assms(3)], of 128 "44 # ip @ 44 # ip6 @ [0]"])
      (use assms(2,3) u44 in \<open>auto simp: field_ok_def\<close>)
  obtain b2 where b2: "buf_parse b1 44 128 = Some (True, ip, b2)" "buf_ok b2" "buf_bytes b2 = ip6 @ [0]"
    by (rule buf_parse_field [OF b1(2) field_ok_char [OF assms(4)], of 128 "44 # ip6 @ [0]"])
      (use assms(4) b1 u44 in \<open>auto simp: field_ok_def\<close>)
  obtain b3 where b3: "buf_parse b2 44 128 = Some (True, ip6, b3)"
    by (rule buf_parse_field [OF b2(2) field_ok_char [OF assms(5)], of 128 "[0]"])
      (use assms(5) b2 in \<open>auto simp: field_ok_def\<close>)
  have ip: "0 < length ip" using assms(6) by simp
  have h: "(if 0 < length ip6 then case parse6 ip6 of None \<Rightarrow> i
      | Some addr6 \<Rightarrow> (let h6 = ifconfig_pool_ipv6_base_to_handle p addr6 in if i < 0 then h6 else i) else i) = i"
    using assms(10) by (auto simp: Let_def split: option.splits)
  show ?thesis
    using first c(2,3) b1(1) b2(1) b3 ip assms(8-10) h
    by (simp add: pool_read_line_def)
qed

text \<open>The named entries, what is written for them and what becomes of a pool that reads it.\<close>

definition named :: "ifconfig_pool \<Rightarrow> (nat \<times> u8 list) list" where
  "named p = List.map_filter (\<lambda>i. map_option (\<lambda>cn. (i, cn)) (pe_common_name (pool_list p ! i))) [0..<length (pool_list p)]"

definition restored :: "bool \<Rightarrow> time \<Rightarrow> (nat \<times> u8 list) list \<Rightarrow> ifconfig_pool \<Rightarrow> ifconfig_pool" where
  "restored fixd nw xs p = fold (\<lambda>(i, cn) p. ifconfig_pool_set p cn (int i) fixd nw) xs p"

lemma set_named: "(i, cn) \<in> set (named p) \<longleftrightarrow> i < length (pool_list p) \<and> pe_common_name (pool_list p ! i) = Some cn"
  by (force simp: named_def map_filter_def image_iff)

lemma distinct_named: "distinct (map fst (named p))"
proof -
  have "map fst (List.map_filter (\<lambda>i. map_option (\<lambda>cn. (i, cn)) (f i)) xs) = filter (\<lambda>i. f i \<noteq> None) xs"
    for f :: "nat \<Rightarrow> u8 list option" and xs
    by (induction xs) (auto simp: map_filter_simps split: option.splits)
  then show ?thesis by (simp add: named_def)
qed

lemma ifconfig_pool_set_entry:
  "ifconfig_pool_set p cn (int i) fixd nw =
     p\<lparr>pool_list := (pool_list p)[i := \<lparr>pe_in_use = False, pe_common_name = Some cn, pe_last_release = nw, pe_fixed = fixd\<rparr>]\<rparr>"
proof -
  have "e\<lparr>pe_in_use := False, pe_common_name := Some cn, pe_last_release := nw, pe_fixed := fixd\<rparr> =
      \<lparr>pe_in_use = False, pe_common_name = Some cn, pe_last_release = nw, pe_fixed = fixd\<rparr>" for e :: ifconfig_pool_entry
    by (cases e) simp
  note rec = this [of "ifconfig_pool_entry_free e True nw" for e]
  show ?thesis unfolding ifconfig_pool_set_def set_entry_def Let_def nat_int rec by (rule refl)
qed

lemma restored_same_config: "same_config p (restored fixd nw xs p)"
proof (induction xs arbitrary: p)
  case (Cons x xs)
  obtain i cn where x: "x = (i, cn)" by fastforce
  have "same_config p (ifconfig_pool_set p cn (int i) fixd nw)"
    by (auto simp: ifconfig_pool_set_entry same_config_def)
  then show ?case using Cons.IH same_config_trans by (auto simp: restored_def x)
qed (simp add: restored_def same_config_refl)

lemma restored_entry:
  assumes "distinct (map fst xs)" "i < length (pool_list p)" "\<forall>(j, cn) \<in> set xs. j < length (pool_list p)"
  shows "pool_list (restored fixd nw xs p) ! i =
    (case map_of xs i of
       None \<Rightarrow> pool_list p ! i
     | Some cn \<Rightarrow> \<lparr>pe_in_use = False, pe_common_name = Some cn, pe_last_release = nw, pe_fixed = fixd\<rparr>)"
  using assms
proof (induction xs arbitrary: p)
  case (Cons x xs)
  obtain j cn where x: "x = (j, cn)" by fastforce
  let ?p = "ifconfig_pool_set p cn (int j) fixd nw"
  have IH: "pool_list (restored fixd nw xs ?p) ! i =
    (case map_of xs i of
       None \<Rightarrow> pool_list ?p ! i
     | Some cn \<Rightarrow> \<lparr>pe_in_use = False, pe_common_name = Some cn, pe_last_release = nw, pe_fixed = fixd\<rparr>)"
    by (rule Cons.IH) (use Cons.prems in \<open>auto simp: x ifconfig_pool_set_entry\<close>)
  have "map_of xs j = None" using Cons.prems(1) by (auto simp: x map_of_eq_None_iff)
  then show ?case using IH Cons.prems
    by (auto simp: restored_def x ifconfig_pool_set_entry split: option.splits)
qed (simp add: restored_def)

lemma handle_roundtrip:
  assumes "ipv4_enabled p" "0 \<le> i" "i < pool_size p" "pool_size p \<le> 65536"
  shows "ifconfig_pool_ip_base_to_handle p (ifconfig_pool_handle_to_ip_base p i) = i"
proof (cases "ipv4_type p")
  case IFCONFIG_POOL_30NET
  have "uint (drop_bit 2 (word_of_int (4 * i) :: u32)) = i"
    using assms unsigned_drop_bit_eq [of 2 "word_of_int (4 * i) :: u32", where ?'a = int] uint_word_of_int32 [of "4 * i"]
    by (simp add: drop_bit_eq_div take_bit_eq_mod del: of_int_mult)
  then show ?thesis using IFCONFIG_POOL_30NET assms
    by (simp add: ifconfig_pool_handle_to_ip_base_def ifconfig_pool_ip_base_to_handle_def Let_def del: of_int_mult)
next
  case IFCONFIG_POOL_INDIV
  then show ?thesis using assms uint_word_of_int32 [of i]
    by (simp add: ifconfig_pool_handle_to_ip_base_def ifconfig_pool_ip_base_to_handle_def Let_def)
qed

lemma same_config_handles:
  assumes "same_config p q"
  shows "pool_size q = pool_size p" "ifconfig_pool_ip_base_to_handle q = ifconfig_pool_ip_base_to_handle p"
    "ifconfig_pool_handle_to_ip_base q = ifconfig_pool_handle_to_ip_base p"
    "ifconfig_pool_handle_to_ipv6_base q = ifconfig_pool_handle_to_ipv6_base p"
    "ipv4_enabled q = ipv4_enabled p" "ipv6_enabled q = ipv6_enabled p"
proof -
  obtain es where q: "q = p\<lparr>pool_list := es\<rparr>" "length es = length (pool_list p)" using assms by (auto simp: same_config_def)
  have f: "pool_size q = pool_size p" "ipv4_enabled q = ipv4_enabled p" "ipv6_enabled q = ipv6_enabled p"
    "ipv4_type q = ipv4_type p" "ipv4_base q = ipv4_base p" "ipv6_base q = ipv6_base p"
    unfolding q(1) by (simp_all add: pool_size_def q(2))
  then show "pool_size q = pool_size p" "ipv4_enabled q = ipv4_enabled p" "ipv6_enabled q = ipv6_enabled p" by simp_all
  show "ifconfig_pool_ip_base_to_handle q = ifconfig_pool_ip_base_to_handle p"
    "ifconfig_pool_handle_to_ip_base q = ifconfig_pool_handle_to_ip_base p"
    "ifconfig_pool_handle_to_ipv6_base q = ifconfig_pool_handle_to_ipv6_base p"
    unfolding ifconfig_pool_ip_base_to_handle_def [abs_def] ifconfig_pool_handle_to_ip_base_def [abs_def]
      ifconfig_pool_handle_to_ipv6_base_def [abs_def] f by (rule refl)+
qed

lemma fold_map_filter:
  "fold (\<lambda>i out. case h i of None \<Rightarrow> out | Some cn \<Rightarrow> g i cn out) xs out =
   fold (\<lambda>(i, cn). g i cn) (List.map_filter (\<lambda>i. map_option (\<lambda>cn. (i, cn)) (h i)) xs) out"
  by (induction xs arbitrary: out) (auto split: option.splits)

lemma ifconfig_pool_list_named:
  "ifconfig_pool_list print4 print6 p out =
     fold (\<lambda>(i, cn) out. status_printf out (pool_line print4 print6 p (int i) cn)) (named p) out"
  unfolding ifconfig_pool_list_def named_def by (rule fold_map_filter)

definition writing :: "status_output \<Rightarrow> bool" where
  "writing so \<longleftrightarrow> so_can_write so \<and> \<not> so_errors so \<and> so_pos so \<le> length (so_data so)"

definition written :: "status_output \<Rightarrow> u8 list" where
  "written so = take (so_pos so) (so_data so)"

lemma status_printf_ok:
  assumes "writing so" "length str < 512"
  shows "writing (status_printf so str)" "written (status_printf so str) = written so @ str @ [10]"
    "so_read_buf (status_printf so str) = so_read_buf so" "so_can_read (status_printf so str) = so_can_read so"
proof -
  have eq: "status_printf so str = so\<lparr>so_data := mem_write (so_data so) (so_pos so) (str @ [10]),
      so_pos := so_pos so + length str + 1\<rparr>"
    using assms by (simp add: status_printf_def writing_def STATUS_PRINTF_MAXLEN_def)
  show "writing (status_printf so str)" "written (status_printf so str) = written so @ str @ [10]"
    "so_read_buf (status_printf so str) = so_read_buf so" "so_can_read (status_printf so str) = so_can_read so"
    unfolding eq using assms by (auto simp: writing_def written_def mem_write_def)
qed

lemma printf_fold:
  assumes "writing so" "\<forall>x \<in> set xs. length (f x) < 512"
  shows "writing (fold (\<lambda>x so. status_printf so (f x)) xs so) \<and>
    written (fold (\<lambda>x so. status_printf so (f x)) xs so) = written so @ concat (map (\<lambda>x. f x @ [10]) xs) \<and>
    so_read_buf (fold (\<lambda>x so. status_printf so (f x)) xs so) = so_read_buf so"
  using assms
proof (induction xs arbitrary: so)
  case (Cons x xs)
  note p = status_printf_ok [OF Cons.prems(1), of "f x"]
  have "length (f x) < 512" using Cons.prems(2) by simp
  then show ?case using Cons.IH [OF p(1)] p Cons.prems(2) by simp
qed simp

text \<open>What the theorem asks of the printed form of an entry.\<close>

definition line_ok ::
  "(in_addr \<Rightarrow> u8 list) \<Rightarrow> (u8 list \<Rightarrow> in_addr option) \<Rightarrow> (in6_addr \<Rightarrow> u8 list) \<Rightarrow> ifconfig_pool \<Rightarrow> int \<Rightarrow> u8 list \<Rightarrow> bool" where
  "line_ok print4 parse4 print6 p i cn \<longleftrightarrow>
     (let a = ifconfig_pool_handle_to_ip_base p i
      in field_ok cn \<and> (cn = [] \<or> hd cn \<noteq> ch CHR ''#'' \<and> hd cn \<noteq> ch CHR '';'') \<and>
         field_ok (print4 a) \<and> print4 a \<noteq> [] \<and> parse4 (print4 a) = Some a \<and>
         field_ok (print6 (ifconfig_pool_handle_to_ipv6_base p i)) \<and>
         length (pool_line print4 print6 p i cn) < 256)"

lemma pool_read_loop_ok:
  assumes "status_ok so" "so_rest so = concat (map (\<lambda>(i, cn). pool_line print4 print6 p (int i) cn @ [10]) xs)"
    and "ipv4_enabled p" "pool_size p \<le> 65536" "same_config p q"
    and "\<forall>(i, cn) \<in> set xs. i < length (pool_list p) \<and> line_ok print4 parse4 print6 p (int i) cn"
    and "buf_ok inb" "b_capacity inb = 256"
  shows "\<exists>so'. pool_read_loop parse4 parse6 fixd nw inb so q = Some (so', restored fixd nw xs q)"
  using assms
proof (induction xs arbitrary: so inb q)
  case Nil
  obtain inb0 where inb0: "buf_init inb 0 = Some inb0" "buf_ok inb0"
    by (rule buf_init_ok [OF Nil.prems(7), of 0]) (use Nil.prems(8) in auto)
  obtain so' where "status_read_loop so inb0 False = Some (False, so', inb0)"
    by (rule status_end [OF Nil.prems(1)]) (use Nil.prems(2) in auto)
  moreover have "buf_defined (so_read_buf so)" "buf_defined inb0" "so_can_read so"
    using Nil.prems(1) inb0 by (auto simp: status_ok_def buf_defined_def buf_ok_def)
  ultimately show ?case using inb0
    by (subst pool_read_loop.simps) (simp add: status_read_def restored_def)
next
  case (Cons x xs)
  obtain i cn where x: "x = (i, cn)" by fastforce
  let ?a = "ifconfig_pool_handle_to_ip_base p (int i)" and ?line = "pool_line print4 print6 p (int i) cn"
  define ip6 where "ip6 = (if ipv6_enabled p then print6 (ifconfig_pool_handle_to_ipv6_base p (int i)) else [])"
  have i: "i < length (pool_list p)" and ok: "line_ok print4 parse4 print6 p (int i) cn"
    using Cons.prems(6) by (auto simp: x)
  have line: "?line = cn @ 44 # print4 ?a @ 44 # ip6"
    using Cons.prems(3) by (simp add: pool_line_def ip6_def Let_def)
  have fields: "field_ok cn" "field_ok (print4 ?a)" "field_ok ip6" "print4 ?a \<noteq> []" "parse4 (print4 ?a) = Some ?a"
    "cn = [] \<or> hd cn \<noteq> ch CHR ''#'' \<and> hd cn \<noteq> ch CHR '';''" "length ?line < 256"
    using ok by (auto simp: line_ok_def ip6_def field_ok_def Let_def)
  have chars: "10 \<notin> set ?line" "13 \<notin> set ?line" "0 \<notin> set ?line"
    using fields(1-3) by (auto simp: line field_ok_def)
  obtain inb0 where inb0: "buf_init inb 0 = Some inb0" "buf_ok inb0" "buf_bytes inb0 = []" "b_offset inb0 = 0"
      "b_capacity inb0 = 256"
    by (rule buf_init_ok [OF Cons.prems(7), of 0]) (use Cons.prems(8) in auto)
  obtain so1 inb1 where rd: "status_read so inb0 = Some (True, so1, inb1)" "status_ok so1"
      "so_rest so1 = concat (map (\<lambda>(i, cn). pool_line print4 print6 p (int i) cn @ [10]) xs)"
      "buf_ok inb1" "buf_bytes inb1 = ?line @ [0]" "b_capacity inb1 = 256"
    by (rule status_read_line [of so ?line "concat (map (\<lambda>(i, cn). pool_line print4 print6 p (int i) cn @ [10]) xs)" inb0])
      (use Cons.prems(1,2) chars inb0 fields(7) in \<open>auto simp: x\<close>)
  have h: "ifconfig_pool_ip_base_to_handle q ?a = int i"
    using handle_roundtrip [OF Cons.prems(3), of "int i"] i Cons.prems(4) same_config_handles(2) [OF Cons.prems(5)]
    by (simp add: pool_size_def)
  have step: "pool_read_line parse4 parse6 fixd nw inb1 q = Some (ifconfig_pool_set q cn (int i) fixd nw)"
    by (rule pool_read_line_ok [where a = ?a and ip = "print4 ?a" and ?ip6.0 = ip6])
      (use rd fields h line in auto)
  have "same_config p (ifconfig_pool_set q cn (int i) fixd nw)"
    using Cons.prems(5) same_config_trans by (auto simp: ifconfig_pool_set_entry same_config_def)
  then obtain so' where "pool_read_loop parse4 parse6 fixd nw inb1 so1 (ifconfig_pool_set q cn (int i) fixd nw) =
      Some (so', restored fixd nw xs (ifconfig_pool_set q cn (int i) fixd nw))"
    using Cons.IH [OF rd(2,3) Cons.prems(3,4) _ _ rd(4,6)] Cons.prems(6) by auto
  then show ?case using inb0 rd(1) step
    by (subst pool_read_loop.simps) (simp add: restored_def x)
qed

lemma pool_size_ipv4:
  assumes "ifconfig_pool_init True type start end' dup v6 base6 netbits = Some p"
  shows "pool_size p \<le> 65536"
proof -
  note init = pool_init_Some [OF assms]
  have "0 < snd (pool_ipv4_extent type start end')" using init(5,9) by simp
  then have "snd (pool_ipv4_extent type start end') \<le> 65536"
    using extent_30net(3) [OF init(1,2), of 0] extent_indiv(3) [OF init(1,2), of 0] by (cases type) auto
  then show ?thesis using init(5) by simp
qed

lemma status_open_ok:
  obtains so where "status_open data True wr = Some so" "status_ok so" "so_data so = data" "so_pos so = 0"
    "so_rest so = data" "so_can_write so = wr" "\<not> so_errors so"
proof -
  obtain b where b: "alloc_buf 512 = Some b" by (simp add: alloc_buf_def buf_size_valid_def BUF_SIZE_MAX_def)
  note a = alloc_buf_ok [OF b]
  have "status_open data True wr = Some \<lparr>so_data = data, so_pos = 0, so_read_buf = b,
           so_can_read = True, so_can_write = wr, so_errors = False\<rparr>"
    by (simp add: status_open_def b)
  then show ?thesis by (rule that) (use a in \<open>simp_all add: status_ok_def so_rest_def\<close>)
qed



text \<open>A pool of two names, saved and restored; addresses are written in binary.\<close>

definition demo_print :: "in_addr \<Rightarrow> u8 list" where
  "demo_print a = map (\<lambda>k. if bit a k then ch CHR ''1'' else ch CHR ''0'') [0..<32]"

definition demo_parse :: "u8 list \<Rightarrow> in_addr option" where
  "demo_parse s = Some (foldr (\<lambda>c a. 2 * a + (if c = ch CHR ''1'' then 1 else 0)) s 0)"

definition demo_pool :: "ifconfig_pool option" where
  "demo_pool = ifconfig_pool_init True IFCONFIG_POOL_INDIV 0x0a080002 0x0a080004 False False [] 0"


end
