(* ===== verification/Route_Match.thy ===== *)
theory Route_Match
  imports Multi_Route "HOL-Library.Multiset"
begin

text \<open>
  What the routing table of \<^verbatim>\<open>multi.c\<close> is for: in every reachable state a lookup finds the longest matching
  prefix among the routes of the connected clients, as if there were no cache, and no freed instance is
  used, whatever clients come and go and however the lookups, the reaper and the clock interleave.
\<close>

section \<open>Longest prefix match\<close>

text \<open>Host addresses and networks, the routes of a table of owners that cover an address, and what a lookup returns.\<close>

definition host_addr :: "mroute_addr \<Rightarrow> bool" where
  "host_addr a \<longleftrightarrow> (ma_type a = MR_ADDR_IPV4 \<and> length (ma_raw a) = 4 \<or>
     ma_type a = MR_ADDR_IPV6 \<and> length (ma_raw a) = 16) \<and> ma_netbits a = 0"

definition net_addr :: "mroute_addr \<Rightarrow> bool" where
  "net_addr a \<longleftrightarrow> (ma_type a = MR_ADDR_IPV4 OR MR_WITH_NETBITS \<and> length (ma_raw a) = 4 \<or>
     ma_type a = MR_ADDR_IPV6 OR MR_WITH_NETBITS \<and> length (ma_raw a) = 16) \<and>
     unat (ma_netbits a) \<le> 8 * length (ma_raw a) \<and>
     (\<forall>i < 8 * length (ma_raw a). unat (ma_netbits a) \<le> i \<longrightarrow> \<not> addr_bit (ma_raw a) i)"

definition covers :: "mroute_addr \<Rightarrow> mroute_addr \<Rightarrow> bool" where
  "covers k a \<longleftrightarrow> k = a \<or>
     ma_type k = ma_type a OR MR_WITH_NETBITS \<and> length (ma_raw k) = length (ma_raw a) \<and>
     (\<forall>i < unat (ma_netbits k). addr_bit (ma_raw k) i = addr_bit (ma_raw a) i)"

definition prefix_length :: "mroute_addr \<Rightarrow> nat" where
  "prefix_length k = (if ma_type k AND MR_WITH_NETBITS \<noteq> 0 then unat (ma_netbits k) else 8 * length (ma_raw k) + 1)"

definition longest_match :: "(mroute_addr \<rightharpoonup> nat) \<Rightarrow> mroute_addr \<Rightarrow> nat option \<Rightarrow> bool" where
  "longest_match R a r \<longleftrightarrow>
     (case r of
        None \<Rightarrow> (\<forall>k. R k \<noteq> None \<longrightarrow> \<not> covers k a)
      | Some i \<Rightarrow> (\<exists>k. R k = Some i \<and> covers k a \<and>
          (\<forall>k'. R k' \<noteq> None \<longrightarrow> covers k' a \<longrightarrow> prefix_length k' \<le> prefix_length k)))"

lemma addr_types:
  "host_addr a \<Longrightarrow> ma_type a AND MR_WITH_NETBITS = 0"
  "net_addr a \<Longrightarrow> ma_type a AND MR_WITH_NETBITS \<noteq> 0"
  "host_addr a \<Longrightarrow> \<not> net_addr a"
  by (auto simp: host_addr_def net_addr_def mr_defs)

lemma host_covers: "host_addr k \<Longrightarrow> host_addr a \<Longrightarrow> covers k a \<longleftrightarrow> k = a"
  by (auto simp: covers_def host_addr_def mr_defs)

text \<open>The network of a given length around a host address.\<close>

definition net_try :: "mroute_addr \<Rightarrow> nat \<Rightarrow> mroute_addr" where
  "net_try a n = a\<lparr>ma_type := ma_type a OR MR_WITH_NETBITS, ma_netbits := word_of_nat n\<rparr>"

lemma net_try_ip:
  assumes "host_addr a"
  shows "ip_addr (net_try a n)" "ma_raw (net_try a n) = ma_raw a" "ma_type (net_try a n) = ma_type a OR MR_WITH_NETBITS"
    "ma_netbits (net_try a n) = word_of_nat n"
  using assms by (auto simp: host_addr_def ip_addr_def net_try_def mr_defs)

lemma unat_u8_small: "n \<le> 128 \<Longrightarrow> unat (word_of_nat n :: u8) = n"
  by (simp add: unsigned_of_nat take_bit_nat_eq_self)

lemma net_try_masks:
  assumes "host_addr a" "n \<le> 128"
  obtains t where "mroute_addr_mask_host_bits (net_try a n) = Some t" "ma_type t = ma_type a OR MR_WITH_NETBITS"
    "ma_netbits t = word_of_nat n" "length (ma_raw t) = length (ma_raw a)"
    "\<And>k. net_addr k \<Longrightarrow> covers k a \<Longrightarrow> unat (ma_netbits k) = n \<Longrightarrow> k = t"
    "net_addr t \<Longrightarrow> covers t a"
proof -
  note f = net_try_ip [OF assms(1), of n]
  have u: "unat (ma_netbits (net_try a n)) = n" using f(4) unat_u8_small [OF assms(2)] by simp
  obtain r where r: "mroute_addr_mask_host_bits (net_try a n) = Some ((net_try a n)\<lparr>ma_raw := r\<rparr>)"
    "length r = length (ma_raw (net_try a n))"
    using mask_host_bits_total [OF f(1)] u assms(2) by auto
  define t where "t = (net_try a n)\<lparr>ma_raw := r\<rparr>"
  have t: "ma_type t = ma_type a OR MR_WITH_NETBITS" "ma_netbits t = word_of_nat n" "length (ma_raw t) = length (ma_raw a)"
    using r(2) f by (simp_all add: t_def)
  have k: "k = t" if "net_addr k" "covers k a" "unat (ma_netbits k) = n" for k
  proof -
    have "k \<noteq> a" using addr_types(3) assms(1) that(1) by blast
    then have c: "ma_type k = ma_type a OR MR_WITH_NETBITS" "length (ma_raw k) = length (ma_raw a)"
      "\<forall>i < n. addr_bit (ma_raw k) i = addr_bit (ma_raw a) i"
      using that(2,3) by (auto simp: covers_def)
    have le: "n \<le> 8 * length (ma_raw a)" using that(1,3) c(2) by (auto simp: net_addr_def)
    have "mroute_addr_mask_host_bits (net_try a n) = Some ((net_try a n)\<lparr>ma_raw := ma_raw k\<rparr>)"
    proof (rule iffD2 [OF mask_host_bits_eq [OF f(1)]])
      show "unat (ma_netbits (net_try a n)) \<le> 8 * length (ma_raw (net_try a n))" using u le f(2) by simp
      show "length (ma_raw k) = length (ma_raw (net_try a n))" using c(2) f(2) by simp
      show "\<not> addr_bit (ma_raw k) i" if "i < 8 * length (ma_raw k)" "unat (ma_netbits (net_try a n)) \<le> i" for i
        using that u \<open>net_addr k\<close> \<open>unat (ma_netbits k) = n\<close> by (simp add: net_addr_def)
      show "\<forall>i < unat (ma_netbits (net_try a n)). addr_bit (ma_raw (net_try a n)) i = addr_bit (ma_raw k) i"
        using c(3) u f(2) by simp
    qed
    then have "t = (net_try a n)\<lparr>ma_raw := ma_raw k\<rparr>" using r(1) by (simp add: t_def)
    moreover have "word_of_nat (unat (ma_netbits k)) = ma_netbits k" by simp
    then have "ma_netbits k = word_of_nat n" using that(3) by simp
    ultimately show ?thesis using c(1) f(3,4) by (cases k) (simp add: net_try_def)
  qed
  have cov: "covers t a" if "net_addr t"
  proof -
    have le: "n \<le> 8 * length (ma_raw a)" using that t unat_u8_small [OF assms(2)] by (auto simp: net_addr_def)
    have "unat (ma_netbits (net_try a n)) \<le> 8 * length (ma_raw (net_try a n))" using u le f(2) by simp
    from mask_host_bits_spec [OF f(1) this] obtain s where
      s: "mroute_addr_mask_host_bits (net_try a n) = Some ((net_try a n)\<lparr>ma_raw := s\<rparr>)"
        "\<forall>i < 8 * length s. addr_bit s i \<longleftrightarrow> i < n \<and> addr_bit (ma_raw a) i"
      unfolding u f(2) by blast
    have "(net_try a n)\<lparr>ma_raw := s\<rparr> = (net_try a n)\<lparr>ma_raw := r\<rparr>" using s(1) r(1) by simp
    then have "ma_raw ((net_try a n)\<lparr>ma_raw := s\<rparr>) = ma_raw ((net_try a n)\<lparr>ma_raw := r\<rparr>)" by (rule arg_cong)
    then have "s = r" by simp
    then have "\<forall>i < 8 * length r. addr_bit r i \<longleftrightarrow> i < n \<and> addr_bit (ma_raw a) i" using s(2) by simp
    then show ?thesis using t le r(2) f(2) unat_u8_small [OF assms(2)] by (simp add: covers_def t_def)
  qed
  have "mroute_addr_mask_host_bits (net_try a n) = Some t" using r(1) by (simp add: t_def)
  then show ?thesis by (rule that [OF _ t k cov])
qed

section \<open>The invariant of the routing table\<close>

definition opened :: "multi_context \<Rightarrow> nat \<Rightarrow> bool" where
  "opened m i \<longleftrightarrow> (\<exists>x. m_heap m i = Some x \<and> \<not> mi_halt x)"

text \<open>The routes in force: those of open clients that are not cache entries.\<close>

definition installed :: "multi_context \<Rightarrow> mroute_addr \<rightharpoonup> nat" where
  "installed m a =
     (case routes m a of
        None \<Rightarrow> None
      | Some r \<Rightarrow> if mr_flags r = 0 \<and> opened m (mr_instance r) then Some (mr_instance r) else None)"

text \<open>
  \<open>C\<close> gives the prefix lengths that each client has counted in the helper. A route is either permanent, and
  then its length is counted while its client is open, or cached, and then it is right as long as it is
  current.
\<close>

definition CACHED :: u32 where "CACHED = MULTI_ROUTE_CACHE OR MULTI_ROUTE_AGEABLE"

definition route_ok :: "(nat \<Rightarrow> int multiset) \<Rightarrow> multi_context \<Rightarrow> mroute_addr \<Rightarrow> multi_route \<Rightarrow> bool" where
  "route_ok C m a r \<longleftrightarrow>
     (mr_flags r = 0 \<and> (host_addr a \<or>
        net_addr a \<and> (opened m (mr_instance r) \<longrightarrow> int (unat (ma_netbits a)) \<in># C (mr_instance r)))) \<or>
     (mr_flags r = CACHED \<and> host_addr a \<and> mr_cache_generation r \<le> mh_cache_generation (m_route_helper m) \<and>
        (opened m (mr_instance r) \<longrightarrow> C (mr_instance r) \<noteq> {#}) \<and>
        (opened m (mr_instance r) \<and> mr_cache_generation r = mh_cache_generation (m_route_helper m) \<longrightarrow>
           longest_match (installed m) a (Some (mr_instance r))))"

definition counted :: "(nat \<Rightarrow> int multiset) \<Rightarrow> nat \<Rightarrow> int" where
  "counted C n = (\<Sum>i | C i \<noteq> {#}. int (count (C i) (int n)))"

definition route_inv :: "(nat \<Rightarrow> int multiset) \<Rightarrow> multi_context \<Rightarrow> bool" where
  "route_inv C m \<longleftrightarrow> state_ok m \<and> helper_ok (m_route_helper m) \<and> finite {i. C i \<noteq> {#}} \<and>
     (\<forall>n < 129. mh_net_len_refcount (m_route_helper m) ! n = counted C n) \<and>
     (\<forall>a r. routes m a = Some r \<longrightarrow> route_ok C m a r)"

definition claims_open :: "(nat \<Rightarrow> int multiset) \<Rightarrow> multi_context \<Rightarrow> bool" where
  "claims_open C m \<longleftrightarrow> (\<forall>i. C i \<noteq> {#} \<longrightarrow> opened m i)"

lemma cached_flags: "CACHED AND MULTI_ROUTE_CACHE \<noteq> 0" "CACHED AND MULTI_ROUTE_AGEABLE \<noteq> 0" "CACHED \<noteq> 0"
  "(0 :: u32) AND MULTI_ROUTE_CACHE = 0" "(0 :: u32) AND MULTI_ROUTE_AGEABLE = 0"
  by (simp_all add: CACHED_def MULTI_ROUTE_CACHE_def MULTI_ROUTE_AGEABLE_def)

lemma opened_same:
  assumes "same_clients (m_heap m) (m_heap m')"
  shows "opened m' i = opened m i"
proof
  assume "opened m' i"
  then obtain x' where "m_heap m' i = Some x'" "\<not> mi_halt x'" by (auto simp: opened_def)
  then show "opened m i" by (elim same_clients_back [OF assms, of i x']) (auto simp: opened_def)
next
  assume "opened m i"
  then obtain x where "m_heap m i = Some x" "\<not> mi_halt x" by (auto simp: opened_def)
  then show "opened m' i" by (elim same_clients_open [OF assms, of i x]) (auto simp: opened_def)
qed

lemma installed_update:
  assumes "same_clients (m_heap m) (m_heap m')" "routes m' = (routes m)(a \<mapsto> r)"
  shows "installed m' = (installed m)(a := if mr_flags r = 0 \<and> opened m (mr_instance r) then Some (mr_instance r) else None)"
proof -
  have op: "opened m' = opened m" by (intro ext opened_same [OF assms(1)])
  show ?thesis unfolding installed_def op assms(2) by (rule ext) simp
qed

lemma installed_same:
  assumes "same_clients (m_heap m) (m_heap m')" "routes m' = routes m"
  shows "installed m' = installed m"
proof -
  have op: "opened m' = opened m" by (intro ext opened_same [OF assms(1)])
  show ?thesis unfolding installed_def op assms(2) by (rule ext) simp
qed

text \<open>A permanent route is defined exactly while its client is open, a cached one not beyond its generation.\<close>

lemma defined_permanent:
  assumes "state_ok m" "routes m a = Some r" "mr_flags r = 0"
  shows "multi_route_defined m nw r = Some (opened m (mr_instance r))"
proof -
  have "m_heap m (mr_instance r) \<noteq> None" using assms(1,2) unfolding state_ok_def counts_ok_def by blast
  then show ?thesis using assms(3) cached_flags(4,5) by (auto simp: multi_route_defined_def opened_def)
qed

lemma defined_cached:
  assumes "multi_route_defined m nw r = Some True" "mr_flags r = CACHED"
  shows "opened m (mr_instance r)" "mr_cache_generation r = mh_cache_generation (m_route_helper m)"
  using assms cached_flags(1) by (auto simp: multi_route_defined_def opened_def bind_eq_Some_conv split: if_splits)

lemma installed_net:
  assumes "route_inv C m" "installed m k = Some i" "\<not> host_addr k"
  shows "net_addr k" "int (unat (ma_netbits k)) \<in># C i"
proof -
  obtain r where r: "routes m k = Some r" "mr_flags r = 0" "opened m (mr_instance r)" "mr_instance r = i"
    using assms(2) by (auto simp: installed_def split: option.splits if_splits)
  have "route_ok C m k r" using assms(1) r(1) unfolding route_inv_def by blast
  then show "net_addr k" "int (unat (ma_netbits k)) \<in># C i" using r assms(3) cached_flags(3) by (auto simp: route_ok_def)
qed

lemma owner_at_installed:
  assumes "route_inv C m" "\<not> host_addr a"
  shows "owner_at m nw a = installed m a"
proof (cases "routes m a")
  case (Some r)
  have "route_ok C m a r" using assms(1) Some unfolding route_inv_def by blast
  then have f: "mr_flags r = 0" using assms(2) by (auto simp: route_ok_def)
  have "state_ok m" using assms(1) by (simp add: route_inv_def)
  from defined_permanent [OF this Some f] show ?thesis by (simp add: owner_at_def installed_def Some f)
qed (simp add: owner_at_def installed_def)

text \<open>The owner of a route that is defined is the longest match: the cache is coherent.\<close>

lemma owner_at_longest:
  assumes "route_inv C m" "host_addr a" "owner_at m nw a = Some i"
  shows "longest_match (installed m) a (Some i)" "opened m i"
proof -
  obtain r where r: "routes m a = Some r" "multi_route_defined m nw r = Some True" "mr_instance r = i"
    using assms(3) by (auto simp: owner_at_def split: option.splits if_splits)
  have ok: "route_ok C m a r" "state_ok m" using assms(1) r(1) unfolding route_inv_def by blast+
  have "longest_match (installed m) a (Some i) \<and> opened m i"
  proof (cases "mr_flags r = 0")
    case True
    have "opened m i" using defined_permanent [OF ok(2) r(1) True, of nw] r(2,3) by simp
    then have "installed m a = Some i" using r True by (simp add: installed_def)
    moreover have "prefix_length k \<le> prefix_length a" if "installed m k \<noteq> None" "covers k a" for k
    proof (cases "host_addr k")
      case True
      then show ?thesis using host_covers assms(2) that(2) by blast
    next
      case False
      then have n: "net_addr k" using installed_net [OF assms(1)] that(1) by blast
      have "k \<noteq> a" using False assms(2) by blast
      then have "length (ma_raw k) = length (ma_raw a)" using that(2) by (auto simp: covers_def)
      then show ?thesis using n addr_types(2) [OF n] addr_types(1) [OF assms(2)]
        by (auto simp: prefix_length_def net_addr_def)
    qed
    ultimately have "longest_match (installed m) a (Some i)" by (auto simp: longest_match_def covers_def)
    then show ?thesis using \<open>opened m i\<close> by blast
  next
    case False
    then have f: "mr_flags r = CACHED" using ok(1) by (auto simp: route_ok_def)
    then show ?thesis using ok(1) defined_cached [OF r(2) f] r(3) cached_flags(3) by (auto simp: route_ok_def)
  qed
  then show "longest_match (installed m) a (Some i)" "opened m i" by blast+
qed

text \<open>Where no route is defined at a host address, none is installed there.\<close>

lemma owner_at_None:
  assumes "state_ok m" "owner_at m nw a = None"
  shows "installed m a = None"
proof (cases "routes m a")
  case (Some r)
  then show ?thesis using defined_permanent [OF assms(1) Some, of nw] assms(2)
    by (auto simp: owner_at_def installed_def)
qed (simp add: installed_def)

text \<open>No cache entry of the current generation: what adding or removing a network achieves.\<close>

definition no_current_cache :: "multi_context \<Rightarrow> bool" where
  "no_current_cache m \<longleftrightarrow> (\<forall>a r. routes m a = Some r \<and> mr_flags r = CACHED \<longrightarrow>
     mr_cache_generation r \<noteq> mh_cache_generation (m_route_helper m))"

definition all_permanent :: "multi_context \<Rightarrow> nat \<Rightarrow> bool" where
  "all_permanent m mi \<longleftrightarrow> (\<forall>a r. routes m a = Some r \<and> mr_instance r = mi \<longrightarrow> mr_flags r = 0)"

lemma longest_match_other:
  assumes "host_addr a" "host_addr b" "a \<noteq> b"
  shows "longest_match (R(a := v)) b r \<longleftrightarrow> longest_match R b r"
proof -
  have n: "\<not> covers a b" using host_covers [OF assms(1,2)] assms(3) by simp
  have k: "((R(a := v)) k \<noteq> None \<and> covers k b) = (R k \<noteq> None \<and> covers k b)"
    "((R(a := v)) k = Some i \<and> covers k b) = (R k = Some i \<and> covers k b)" for k i using n by auto
  show ?thesis
  proof (cases r)
    case None
    have lm: "longest_match R' b None \<longleftrightarrow> (\<forall>k. \<not> (R' k \<noteq> None \<and> covers k b))" for R'
      unfolding longest_match_def option.case by blast
    show ?thesis unfolding None lm k(1) by (rule refl)
  next
    case (Some i)
    have lm: "longest_match R' b (Some i) \<longleftrightarrow> (\<exists>k. (R' k = Some i \<and> covers k b) \<and>
        (\<forall>k'. R' k' \<noteq> None \<and> covers k' b \<longrightarrow> prefix_length k' \<le> prefix_length k))" for R'
      unfolding longest_match_def option.case by blast
    show ?thesis unfolding Some lm k by (rule refl)
  qed
qed

lemma route_inv_update:
  assumes "route_inv C m" "state_ok m'" "only_routes m m'" "routes m' = (routes m)(a \<mapsto> r)" "route_ok C m' a r"
    "\<And>b i. b \<noteq> a \<Longrightarrow> host_addr b \<Longrightarrow> \<not> no_current_cache m \<Longrightarrow>
       longest_match (installed m) b (Some i) \<Longrightarrow> longest_match (installed m') b (Some i)"
  shows "route_inv C m'"
proof -
  have h: "m_route_helper m' = m_route_helper m" and sc: "same_clients (m_heap m) (m_heap m')"
    using assms(3) by (auto simp: only_routes_def)
  note op = opened_same [OF sc]
  have "route_ok C m' b q" if q: "routes m' b = Some q" for b q
  proof (cases "b = a")
    case True
    then show ?thesis using q assms(4,5) by simp
  next
    case False
    then have old: "routes m b = Some q" using q assms(4) by simp
    then have ok: "route_ok C m b q" using assms(1) unfolding route_inv_def by blast
    have "longest_match (installed m') b (Some (mr_instance q))"
      if "mr_flags q = CACHED" "host_addr b" "mr_cache_generation q = mh_cache_generation (m_route_helper m)"
        "longest_match (installed m) b (Some (mr_instance q))"
    proof (rule assms(6) [OF False that(2) _ that(4)])
      show "\<not> no_current_cache m" using old that(1,3) unfolding no_current_cache_def by blast
    qed
    then show ?thesis using ok unfolding route_ok_def h op by blast
  qed
  then show ?thesis using assms(1,2) unfolding route_inv_def h by blast
qed

lemma route_inv_same:
  assumes "route_inv C m" "state_ok m'" "only_routes m m'" "routes m' = routes m"
  shows "route_inv C m'"
proof -
  have h: "m_route_helper m' = m_route_helper m" and sc: "same_clients (m_heap m) (m_heap m')"
    using assms(3) by (auto simp: only_routes_def)
  have "route_ok C m' b q" if "routes m' b = Some q" for b q
  proof -
    have "route_ok C m b q" using assms(1,4) that unfolding route_inv_def by simp
    then show ?thesis unfolding route_ok_def h opened_same [OF sc] installed_same [OF sc assms(4)] .
  qed
  then show ?thesis using assms(1,2) unfolding route_inv_def h by blast
qed

text \<open>Learning a route into the cache.\<close>

text \<open>Routes change at one address only.\<close>

definition only_at :: "mroute_addr \<Rightarrow> multi_context \<Rightarrow> multi_context \<Rightarrow> bool" where
  "only_at a m m' \<longleftrightarrow> (\<forall>b. b \<noteq> a \<longrightarrow> routes m' b = routes m b)"

lemma only_at_eq: "routes m' = routes m \<Longrightarrow> only_at a m m'" "routes m' = (routes m)(a \<mapsto> r) \<Longrightarrow> only_at a m m'"
  by (simp_all add: only_at_def)

lemma only_at_trans: "only_at a m1 m2 \<Longrightarrow> only_at a m2 m3 \<Longrightarrow> only_at a m1 m3"
  by (simp add: only_at_def)

lemma learn_cached:
  assumes "route_inv C m" "host_addr a" "opened m mi" "longest_match (installed m) a (Some mi)" "owner_at m nw a = None"
    "C mi \<noteq> {#}"
  shows "\<exists>own m'. multi_learn_addr m nw sc mi a CACHED = Some (own, m') \<and> route_inv C m' \<and> only_routes m m' \<and>
    installed m' = installed m \<and> only_at a m m'"
proof -
  have st: "state_ok m" using assms(1) by (simp add: route_inv_def)
  obtain x where x: "m_heap m mi = Some x" "\<not> mi_halt x" using assms(3) by (auto simp: opened_def)
  obtain m' where m': "multi_learn_addr m nw sc mi a CACHED =
      Some (if learn_wanted m nw mi a \<and> learn_granted m sc mi a then Some mi else owner_at m nw a, m')"
    "state_ok m'" "only_routes m m'"
    "routes m' = (if learn_wanted m nw mi a \<and> learn_granted m sc mi a then (routes m)(a \<mapsto> new_route m nw mi a CACHED) else routes m)"
    using learn_effect [OF st x] by blast
  have h: "m_route_helper m' = m_route_helper m" and sc': "same_clients (m_heap m) (m_heap m')"
    using m'(3) by (auto simp: only_routes_def)
  show ?thesis
  proof (cases "learn_wanted m nw mi a \<and> learn_granted m sc mi a")
    case True
    define r where "r = new_route m nw mi a CACHED"
    have r: "routes m' = (routes m)(a \<mapsto> r)" using m'(4) True by (simp add: r_def)
    have rf: "mr_flags r = CACHED" "mr_instance r = mi" "mr_cache_generation r = mh_cache_generation (m_route_helper m)"
      using cached_flags(1) by (simp_all add: r_def new_route_def)
    have i: "installed m' = installed m"
      using installed_update [OF sc' r] owner_at_None [OF st assms(5)] rf(1) cached_flags(3) by (simp add: fun_upd_idem)
    have "route_inv C m'"
      by (rule route_inv_update [OF assms(1) m'(2,3) r]) (use assms(2,4,6) rf h i in \<open>auto simp: route_ok_def\<close>)
    then show ?thesis using m'(1,3) i only_at_eq(2) [OF r] by blast
  next
    case False
    then have r: "routes m' = routes m" using m'(4) by auto
    show ?thesis
      using m'(1,3) route_inv_same [OF assms(1) m'(2,3) r] installed_same [OF sc' r] only_at_eq(1) [OF r] by blast
  qed
qed

text \<open>Learning an address or a network of a client that is being connected.\<close>

lemma learn_permanent:
  assumes "route_inv C m" "opened m mi" "all_permanent m mi"
    "host_addr a \<or> net_addr a \<and> int (unat (ma_netbits a)) \<in># C mi \<and> no_current_cache m"
  shows "\<exists>m'. multi_learn_addr m nw sc mi a 0 =
      Some (if learn_wanted m nw mi a \<and> learn_granted m sc mi a then Some mi else owner_at m nw a, m') \<and>
    route_inv C m' \<and> only_routes m m' \<and> all_permanent m' mi \<and> (no_current_cache m \<longrightarrow> no_current_cache m') \<and>
    installed m' = (if learn_wanted m nw mi a \<and> learn_granted m sc mi a then (installed m)(a \<mapsto> mi) else installed m)"
proof -
  have st: "state_ok m" using assms(1) by (simp add: route_inv_def)
  obtain x where x: "m_heap m mi = Some x" "\<not> mi_halt x" using assms(2) by (auto simp: opened_def)
  obtain m' where m': "multi_learn_addr m nw sc mi a 0 =
      Some (if learn_wanted m nw mi a \<and> learn_granted m sc mi a then Some mi else owner_at m nw a, m')"
    "state_ok m'" "only_routes m m'"
    "routes m' = (if learn_wanted m nw mi a \<and> learn_granted m sc mi a then (routes m)(a \<mapsto> new_route m nw mi a 0) else routes m)"
    using learn_effect [OF st x] by blast
  have h: "m_route_helper m' = m_route_helper m" and sc': "same_clients (m_heap m) (m_heap m')"
    using m'(3) by (auto simp: only_routes_def)
  show ?thesis
  proof (cases "learn_wanted m nw mi a \<and> learn_granted m sc mi a")
    case True
    define r where "r = new_route m nw mi a 0"
    have r: "routes m' = (routes m)(a \<mapsto> r)" using m'(4) True by (simp add: r_def)
    have rf: "mr_flags r = 0" "mr_instance r = mi" by (simp_all add: r_def new_route_def)
    have i: "installed m' = (installed m)(a \<mapsto> mi)" using installed_update [OF sc' r] rf assms(2) by simp
    have inv: "route_inv C m'"
    proof (rule route_inv_update [OF assms(1) m'(2,3) r])
      show "route_ok C m' a r" using assms(4) rf by (auto simp: route_ok_def)
      fix b i assume b: "b \<noteq> a" "host_addr b" "\<not> no_current_cache m" "longest_match (installed m) b (Some i)"
      then have "host_addr a" using assms(4) by blast
      then show "longest_match (installed m') b (Some i)"
        using longest_match_other [of a b] b \<open>installed m' = (installed m)(a \<mapsto> mi)\<close> by simp
    qed
    have "all_permanent m' mi" using assms(3) r rf by (auto simp: all_permanent_def)
    moreover have "no_current_cache m \<longrightarrow> no_current_cache m'" using r rf h cached_flags(3) by (auto simp: no_current_cache_def)
    ultimately show ?thesis using m'(1,3) inv i True by auto
  next
    case False
    then have r: "routes m' = routes m" using m'(4) by auto
    have "all_permanent m' mi" "no_current_cache m \<longrightarrow> no_current_cache m'"
      using assms(3) r h by (auto simp: all_permanent_def no_current_cache_def)
    then show ?thesis using m'(1,3) route_inv_same [OF assms(1) m'(2,3) r] installed_same [OF sc' r] False by auto
  qed
qed

section \<open>Lookups\<close>

lemma lookup_moves:
  assumes "state_ok m" "hash_lookup (m_vhash m) a = (r, vh)"
  shows "r = routes m a" "state_ok (m\<lparr>m_vhash := vh\<rparr>)" "only_routes m (m\<lparr>m_vhash := vh\<rparr>)"
    "routes (m\<lparr>m_vhash := vh\<rparr>) = routes m" "owner_at (m\<lparr>m_vhash := vh\<rparr>) nw b = owner_at m nw b"
proof -
  have t: "table_ok (m_vhash m)" using assms(1) by (simp add: state_ok_def)
  note l = table_lookup [OF t assms(2)] table_lookup_n [OF t assms(2)]
  show "r = routes m a" "state_ok (m\<lparr>m_vhash := vh\<rparr>)" "only_routes m (m\<lparr>m_vhash := vh\<rparr>)"
    "routes (m\<lparr>m_vhash := vh\<rparr>) = routes m" using l assms(1) by (auto simp: state_ok_def only_routes_def)
  have d: "multi_route_defined (m\<lparr>m_vhash := vh\<rparr>) = multi_route_defined m"
    by (intro ext) (simp add: multi_route_defined_def)
  show "owner_at (m\<lparr>m_vhash := vh\<rparr>) nw b = owner_at m nw b" using l(3) unfolding owner_at_def d by simp
qed

lemma prefix_length_net: "net_addr k \<Longrightarrow> prefix_length k = unat (ma_netbits k)"
  using addr_types(2) by (simp add: prefix_length_def)

text \<open>
  The loop over the lengths, where the installed routes that cover the address are networks of the lengths
  that are left.
\<close>

lemma cidr_loop_correct:
  assumes "route_inv C m" "host_addr a" "owner_at m nw a = None" "sorted_wrt (>) ls" "set ls \<subseteq> {..128}"
    "\<And>k. installed m k \<noteq> None \<Longrightarrow> covers k a \<Longrightarrow> net_addr k \<and> unat (ma_netbits k) \<in> set ls"
  shows "\<exists>r m'. cidr_loop (map word_of_nat ls) m nw sc a = Some (r, m') \<and> longest_match (installed m) a r \<and>
    route_inv C m' \<and> only_routes m m' \<and> installed m' = installed m \<and> (\<forall>i. r = Some i \<longrightarrow> opened m i) \<and>
    only_at a m m'"
  using assms
proof (induction ls arbitrary: m)
  case Nil
  have "longest_match (installed m) a None" using Nil.prems(6) by (auto simp: longest_match_def)
  moreover have "only_routes m m" by (simp add: only_routes_def)
  ultimately show ?case using Nil.prems(1) by (simp add: only_at_def)
next
  case (Cons l ls)
  have l: "l \<le> 128" using Cons.prems(5) by simp
  have st: "state_ok m" using Cons.prems(1) by (simp add: route_inv_def)
  obtain t where t: "mroute_addr_mask_host_bits (net_try a l) = Some t" "ma_type t = ma_type a OR MR_WITH_NETBITS"
    "ma_netbits t = word_of_nat l" "\<And>k. net_addr k \<Longrightarrow> covers k a \<Longrightarrow> unat (ma_netbits k) = l \<Longrightarrow> k = t"
    "net_addr t \<Longrightarrow> covers t a"
    using net_try_masks [OF Cons.prems(2) l] by metis
  have nh: "\<not> host_addr t" using t(2) by (auto simp: host_addr_def mr_defs) (use Cons.prems(2) in \<open>auto simp: host_addr_def mr_defs\<close>)
  obtain r vh where look: "hash_lookup (m_vhash m) t = (r, vh)" by fastforce
  define m1 where "m1 = m\<lparr>m_vhash := vh\<rparr>"
  note lm = lookup_moves [OF st look, folded m1_def]
  have inv1: "route_inv C m1" by (rule route_inv_same [OF Cons.prems(1) lm(2,3,4)])
  have sc1: "same_clients (m_heap m) (m_heap m1)" using lm(3) by (simp add: only_routes_def)
  note ins1 = installed_same [OF sc1 lm(4)]
  obtain d where d: "(case r of None \<Rightarrow> Some False | Some r \<Rightarrow> multi_route_defined m1 nw r) = Some d"
    "(if d then map_option mr_instance r else None) = owner_at m nw t" "d = (owner_at m nw t \<noteq> None)"
    using defined_evaluates [OF lm(2), where a = t and nw = nw] unfolding lm(4,5) lm(1) [symmetric] by blast
  have own: "owner_at m nw t = installed m t" by (rule owner_at_installed [OF Cons.prems(1) nh])
  have run: "cidr_loop (map word_of_nat (l # ls)) m nw sc a =
      (if d then do { (_, m) \<leftarrow> multi_learn_addr m1 nw sc (mr_instance (the r)) a CACHED; Some (Some (mr_instance (the r)), m) }
       else cidr_loop (map word_of_nat ls) m1 nw sc a)"
    unfolding list.map cidr_loop.simps Let_def t(1) [unfolded net_try_def] bind.bind_lunit look prod.case
      d(1) [unfolded m1_def] CACHED_def m1_def by (rule refl)
  show ?case
  proof (cases d)
    case False
    then have n: "installed m t = None" using d(3) own by simp
    have "\<exists>r m'. cidr_loop (map word_of_nat ls) m1 nw sc a = Some (r, m') \<and> longest_match (installed m1) a r \<and>
        route_inv C m' \<and> only_routes m1 m' \<and> installed m' = installed m1 \<and> (\<forall>i. r = Some i \<longrightarrow> opened m1 i) \<and>
        only_at a m1 m'"
    proof (rule Cons.IH [OF inv1 Cons.prems(2)])
      show "owner_at m1 nw a = None" using Cons.prems(3) lm(5) by simp
      show "sorted_wrt (>) ls" "set ls \<subseteq> {..128}" using Cons.prems(4,5) by auto
      fix k assume k: "installed m1 k \<noteq> None" "covers k a"
      then have "net_addr k \<and> unat (ma_netbits k) \<in> set (l # ls)" using Cons.prems(6) unfolding ins1 by blast
      moreover have "unat (ma_netbits k) \<noteq> l" using t(4) [of k] k n ins1 \<open>net_addr k \<and> _\<close> by metis
      ultimately show "net_addr k \<and> unat (ma_netbits k) \<in> set ls" by simp
    qed
    then obtain r' m' where m': "cidr_loop (map word_of_nat ls) m1 nw sc a = Some (r', m')" "longest_match (installed m1) a r'"
      "route_inv C m'" "only_routes m1 m'" "installed m' = installed m1" "\<forall>i. r' = Some i \<longrightarrow> opened m1 i" "only_at a m1 m'" by blast
    note at = only_at_trans [OF only_at_eq(1) [OF lm(4)] m'(7)]
    show ?thesis
      by (intro exI [of _ r'] exI [of _ m'])
         (use m' run False ins1 only_routes_trans [OF lm(3) m'(4)] opened_same [OF sc1] at in auto)
  next
    case True
    then obtain q where q: "r = Some q" "installed m t = Some (mr_instance q)" using d(2,3) own by (cases r) auto
    let ?i = "mr_instance q"
    have op: "opened m ?i" using q(2) by (auto simp: installed_def split: option.splits if_splits)
    have nt: "net_addr t" by (rule installed_net(1) [OF Cons.prems(1) q(2) nh])
    have cm: "C ?i \<noteq> {#}" using installed_net(2) [OF Cons.prems(1) q(2) nh] by auto
    have "prefix_length k \<le> prefix_length t" if k: "installed m k \<noteq> None" "covers k a" for k
    proof -
      have kn: "net_addr k" "unat (ma_netbits k) \<in> set (l # ls)" using Cons.prems(6) [OF k] by blast+
      then have "unat (ma_netbits k) \<le> l" using Cons.prems(4) by auto
      then show ?thesis using prefix_length_net [OF kn(1)] prefix_length_net [OF nt] t(3) unat_u8_small [OF l] by simp
    qed
    then have lng: "longest_match (installed m) a (Some ?i)"
      using q(2) t(5) [OF nt] by (auto simp: longest_match_def)
    obtain own' m' where m': "multi_learn_addr m1 nw sc ?i a CACHED = Some (own', m')" "route_inv C m'" "only_routes m1 m'"
      "installed m' = installed m1" "only_at a m1 m'"
      using learn_cached [OF inv1 Cons.prems(2), of ?i nw sc] opened_same [OF sc1] op lng ins1 lm(5) Cons.prems(3) cm by metis
    show ?thesis
      by (intro exI [of _ "Some ?i"] exI [of _ m'])
         (use m' run True q lng ins1 op only_routes_trans [OF lm(3) m'(3)]
          only_at_trans [OF only_at_eq(1) [OF lm(4)] m'(5)] in auto)
  qed
qed

lemma counted_pos:
  assumes "finite {i. C i \<noteq> {#}}" "int n \<in># C i"
  shows "counted C n > 0"
proof -
  have i: "i \<in> {i. C i \<noteq> {#}}" using assms(2) by auto
  have "0 < int (count (C i) (int n))" using assms(2) by simp
  also have "\<dots> \<le> counted C n" unfolding counted_def
    by (rule member_le_sum [OF i]) (use assms(1) in auto)
  finally show ?thesis .
qed

lemma counts_touch:
  assumes "counts_ok t heap" "t a = Some r" "mr_addr r' = mr_addr r" "mr_instance r' = mr_instance r"
  shows "counts_ok (t(a \<mapsto> r')) heap"
proof -
  have o: "owned_in (t(a \<mapsto> r')) i = owned_in t i" for i using assms(2,4) by (auto simp: owned_in_def)
  have p: "mr_addr q = b \<and> heap (mr_instance q) \<noteq> None" if "(t(a \<mapsto> r')) b = Some q" for b q
    using that assms unfolding counts_ok_def by (metis fun_upd_other fun_upd_same option.inject)
  have f: "finite (dom (t(a \<mapsto> r')))" using assms(1) by (simp add: counts_ok_def)
  show ?thesis unfolding counts_ok_def o by (intro conjI allI impI) (use p f counts_okD [OF assms(1)] in blast)+
qed

text \<open>The host route that a lookup finds is stamped with the time.\<close>

definition touched :: "multi_context \<Rightarrow> int \<Rightarrow> mroute_addr \<Rightarrow> multi_route \<Rightarrow> multi_context" where
  "touched m nw a r = (let bucket = bucket_index (m_vhash m) (hash_value (m_vhash m) a)
     in m\<lparr>m_vhash := set_found (m_vhash m) bucket
       ((hd (buckets (m_vhash m) ! bucket))\<lparr>he_value := r\<lparr>mr_last_reference := nw\<rparr>\<rparr>)\<rparr>)"

lemma touch_effect:
  assumes "state_ok m" "hash_lookup (m_vhash m) a = (Some r, vh)"
  shows "state_ok (touched (m\<lparr>m_vhash := vh\<rparr>) nw a r)" "only_routes m (touched (m\<lparr>m_vhash := vh\<rparr>) nw a r)"
    "routes (touched (m\<lparr>m_vhash := vh\<rparr>) nw a r) = (routes m)(a \<mapsto> r\<lparr>mr_last_reference := nw\<rparr>)"
proof -
  have t: "table_ok (m_vhash m)" "counts_ok (routes m) (m_heap m)" using assms(1) by (auto simp: state_ok_def)
  obtain e where e: "hash_lookup_fast (m_vhash m) (home (m_vhash m) a) a (hash_value (m_vhash m) a) = (Some e, vh)"
    "he_value e = r" using assms(2) by (auto simp: hash_lookup_def Let_def split: prod.splits)
  note l = table_lookup_fast [OF t(1) e(1)] and fnd = table_found [OF t(1) e(1)]
  have h: "home vh a = home (m_vhash m) a" using l(4,5) by simp
  have m2: "touched (m\<lparr>m_vhash := vh\<rparr>) nw a r =
      m\<lparr>m_vhash := set_found vh (home (m_vhash m) a) (e\<lparr>he_value := r\<lparr>mr_last_reference := nw\<rparr>\<rparr>)\<rparr>"
    by (simp add: touched_def Let_def h fnd(2))
  have r: "routes m a = Some r" using l(1) e(2) by simp
  show "routes (touched (m\<lparr>m_vhash := vh\<rparr>) nw a r) = (routes m)(a \<mapsto> r\<lparr>mr_last_reference := nw\<rparr>)"
    using fnd(4) by (simp add: m2)
  then show "state_ok (touched (m\<lparr>m_vhash := vh\<rparr>) nw a r)"
    using fnd(3) counts_touch [OF t(2) r, of "r\<lparr>mr_last_reference := nw\<rparr>"] by (simp add: state_ok_def m2)
  show "only_routes m (touched (m\<lparr>m_vhash := vh\<rparr>) nw a r)" using fnd(5) by (simp add: only_routes_def m2)
qed

lemma installed_lengths:
  assumes "route_inv C m" "installed m k = Some i" "net_addr k"
  shows "unat (ma_netbits k) \<in> set (lengths_used (mh_net_len_refcount (m_route_helper m)) 129)"
proof -
  have nh: "\<not> host_addr k" using addr_types(3) assms(3) by blast
  have c: "finite {i. C i \<noteq> {#}}" "\<forall>n < 129. mh_net_len_refcount (m_route_helper m) ! n = counted C n"
    using assms(1) by (auto simp: route_inv_def)
  have "unat (ma_netbits k) < 129" using assms(3) by (auto simp: net_addr_def)
  then show ?thesis using counted_pos [OF c(1) installed_net(2) [OF assms(1,2) nh]] c(2) by (simp add: lengths_used_props(1))
qed

lemma lookup_correct:
  assumes "route_inv C m" "host_addr a"
  shows "\<exists>r m'. multi_get_instance_by_virtual_addr m nw sc a True = Some (r, m') \<and>
    (if a = m_local m then r = None else longest_match (installed m) a r) \<and>
    route_inv C m' \<and> only_routes m m' \<and> installed m' = installed m \<and> only_at a m m'"
proof (cases "a = m_local m")
  case True
  have "only_routes m m" by (simp add: only_routes_def)
  then show ?thesis using True assms(1) by (simp add: multi_get_instance_by_virtual_addr_def only_at_def)
next
  case False
  have st: "state_ok m" using assms(1) by (simp add: route_inv_def)
  obtain q vh where look: "hash_lookup (m_vhash m) a = (q, vh)" by fastforce
  define m1 where "m1 = m\<lparr>m_vhash := vh\<rparr>"
  note lm = lookup_moves [OF st look, folded m1_def]
  have inv1: "route_inv C m1" by (rule route_inv_same [OF assms(1) lm(2,3,4)])
  have sc1: "same_clients (m_heap m) (m_heap m1)" using lm(3) by (simp add: only_routes_def)
  note ins1 = installed_same [OF sc1 lm(4)]
  have helper1: "m_route_helper m1 = m_route_helper m" by (simp add: m1_def)
  obtain d where d: "(case q of None \<Rightarrow> Some False | Some r \<Rightarrow> multi_route_defined m1 nw r) = Some d"
    "(if d then map_option mr_instance q else None) = owner_at m nw a" "d = (owner_at m nw a \<noteq> None)"
    using defined_evaluates [OF lm(2), where a = a and nw = nw] unfolding lm(4,5) lm(1) [symmetric] by blast
  define check where "check = (\<lambda>(ret, m :: multi_context). case ret of
                  None \<Rightarrow> Some (None, m)
                | Some mi \<Rightarrow> do { i \<leftarrow> m_heap m mi; if mi_halt i then None else Some (Some mi, m) })"
  have check_ok: "check (r, m') = Some (r, m')" if "\<forall>i. r = Some i \<longrightarrow> opened m' i" for r m'
    using that by (cases r) (auto simp: check_def opened_def)
  have run: "multi_get_instance_by_virtual_addr m nw sc a True =
      (if d then Some (Some (mr_instance (the q)), touched m1 nw a (the q))
       else cidr_loop (take (mh_n_net_len (m_route_helper m1)) (mh_net_len (m_route_helper m1))) m1 nw sc a) \<bind> check"
    unfolding multi_get_instance_by_virtual_addr_def mroute_addr_equal_iff if_not_P [OF False] Let_def look prod.case
      d(1) [unfolded m1_def] bind.bind_lunit touched_def m1_def check_def by (simp only: if_True simp_thms)
  show ?thesis
  proof (cases d)
    case True
    then obtain r where r: "q = Some r" "owner_at m nw a = Some (mr_instance r)" using d(2,3) by (cases q) auto
    define m2 where "m2 = touched m1 nw a r"
    have look': "hash_lookup (m_vhash m) a = (Some r, vh)" using look r(1) by simp
    note te = touch_effect [OF st look', of nw, folded m1_def, folded m2_def]
    have ra: "routes m a = Some r" using lm(1) r(1) by simp
    have sc2: "same_clients (m_heap m) (m_heap m2)" using te(2) by (simp add: only_routes_def)
    have f: "mr_flags (r\<lparr>mr_last_reference := nw\<rparr>) = mr_flags r" by simp
    have ins2: "installed m2 = installed m"
      using installed_update [OF sc2 te(3)] ra by (auto simp: fun_eq_iff installed_def)
    have "route_ok C m a r" using assms(1) ra unfolding route_inv_def by blast
    then have ok2: "route_ok C m2 a (r\<lparr>mr_last_reference := nw\<rparr>)"
      using te(2) unfolding route_ok_def ins2 opened_same [OF sc2] by (simp add: only_routes_def)
    have inv2: "route_inv C m2"
      by (rule route_inv_update [OF assms(1) te(1,2,3) ok2]) (simp add: ins2)
    note lg = owner_at_longest [OF assms(1,2) r(2)]
    have "multi_get_instance_by_virtual_addr m nw sc a True = Some (Some (mr_instance r), m2)"
      unfolding run using True r(1) check_ok [of "Some (mr_instance r)" m2] opened_same [OF sc2] lg(2) by (simp add: m2_def)
    then show ?thesis using False lg(1) inv2 te(2) ins2 only_at_eq(2) [OF te(3)] by auto
  next
    case False2: False
    let ?ls = "lengths_used (mh_net_len_refcount (m_route_helper m)) 129"
    have none: "owner_at m nw a = None" using d(3) False2 by simp
    have lens: "take (mh_n_net_len (m_route_helper m1)) (mh_net_len (m_route_helper m1)) = map word_of_nat ?ls"
      using assms(1) unfolding helper1 route_inv_def helper_ok_def by blast
    have "\<exists>r m'. cidr_loop (map word_of_nat ?ls) m1 nw sc a = Some (r, m') \<and> longest_match (installed m1) a r \<and>
        route_inv C m' \<and> only_routes m1 m' \<and> installed m' = installed m1 \<and> (\<forall>i. r = Some i \<longrightarrow> opened m1 i) \<and>
        only_at a m1 m'"
    proof (rule cidr_loop_correct [OF inv1 assms(2)])
      show "owner_at m1 nw a = None" using none lm(5) by simp
      show "sorted_wrt (>) ?ls" by (rule lengths_used_props(2))
      show "set ?ls \<subseteq> {..128}" by (auto simp: lengths_used_props(1))
      fix k assume k: "installed m1 k \<noteq> None" "covers k a"
      then obtain i where i: "installed m k = Some i" using ins1 by auto
      have "\<not> host_addr k" using k(2) host_covers [OF _ assms(2)] i owner_at_None [OF st none] by auto
      then have n: "net_addr k" by (rule installed_net(1) [OF assms(1) i])
      then show "net_addr k \<and> unat (ma_netbits k) \<in> set ?ls" using installed_lengths [OF assms(1) i n] by blast
    qed
    then obtain r m' where m': "cidr_loop (map word_of_nat ?ls) m1 nw sc a = Some (r, m')" "longest_match (installed m1) a r"
      "route_inv C m'" "only_routes m1 m'" "installed m' = installed m1" "\<forall>i. r = Some i \<longrightarrow> opened m1 i" "only_at a m1 m'" by blast
    have "same_clients (m_heap m1) (m_heap m')" using m'(4) by (simp add: only_routes_def)
    then have "\<forall>i. r = Some i \<longrightarrow> opened m' i" using m'(6) opened_same by blast
    then have "multi_get_instance_by_virtual_addr m nw sc a True = Some (r, m')"
      unfolding run lens using False2 m'(1) check_ok by simp
    then show ?thesis
      using False m'(2,3,5) ins1 only_routes_trans [OF lm(3) m'(4)] only_at_trans [OF only_at_eq(1) [OF lm(4)] m'(7)] by auto
  qed
qed

section \<open>Networks of a client\<close>

lemma counted_sum:
  assumes "finite S" "{i. C i \<noteq> {#}} \<subseteq> S"
  shows "counted C n = (\<Sum>i\<in>S. int (count (C i) (int n)))"
  unfolding counted_def by (rule sum.mono_neutral_left) (use assms in auto)

lemma counted_update:
  assumes "finite {i. C i \<noteq> {#}}"
  shows "counted (C(mi := M)) n = counted C n - int (count (C mi) (int n)) + int (count M (int n))"
    "finite {i. (C(mi := M)) i \<noteq> {#}}"
proof -
  let ?S = "insert mi {i. C i \<noteq> {#}}"
  have S: "finite ?S" "{i. C i \<noteq> {#}} \<subseteq> ?S" "{i. (C(mi := M)) i \<noteq> {#}} \<subseteq> ?S" using assms by auto
  have "counted (C(mi := M)) n = int (count M (int n)) + (\<Sum>i \<in> ?S - {mi}. int (count ((C(mi := M)) i) (int n)))"
    unfolding counted_sum [OF S(1,3)] by (subst sum.remove [OF S(1), of mi]) auto
  moreover have "counted C n = int (count (C mi) (int n)) + (\<Sum>i \<in> ?S - {mi}. int (count (C i) (int n)))"
    unfolding counted_sum [OF S(1,2)] by (subst sum.remove [OF S(1), of mi]) auto
  moreover have "(\<Sum>i \<in> ?S - {mi}. int (count ((C(mi := M)) i) (int n))) = (\<Sum>i \<in> ?S - {mi}. int (count (C i) (int n)))"
    by (rule sum.cong) auto
  ultimately show "counted (C(mi := M)) n = counted C n - int (count (C mi) (int n)) + int (count M (int n))" by linarith
  show "finite {i. (C(mi := M)) i \<noteq> {#}}" by (rule finite_subset [OF S(3,1)])
qed

text \<open>The same state but for the helper.\<close>

definition only_helper :: "multi_context \<Rightarrow> multi_context \<Rightarrow> bool" where
  "only_helper m m' \<longleftrightarrow> (\<exists>rh. m' = m\<lparr>m_route_helper := rh\<rparr> \<and>
     mh_ageable_ttl_secs rh = mh_ageable_ttl_secs (m_route_helper m))"

lemma only_helperD:
  assumes "only_helper m m'"
  shows "m_vhash m' = m_vhash m" "m_heap m' = m_heap m" "m_local m' = m_local m" "m_reaper m' = m_reaper m"
    "m_stale_routes_ageing_time m' = m_stale_routes_ageing_time m" "opened m' = opened m" "installed m' = installed m"
    "state_ok m' = state_ok m"
  using assms by (auto simp: only_helper_def opened_def fun_eq_iff installed_def state_ok_def split: option.splits)

lemma generation_succ:
  assumes "uint (g :: u32) + 1 < 2 ^ 32" "h \<le> g"
  shows "h \<le> g + 1" "h \<noteq> g + 1" "uint (g + 1) = uint g + 1"
proof -
  have u: "uint (g + 1) = uint g + 1" using assms(1) unsigned_greater_eq [of g] by (simp add: uint_word_ariths take_bit_eq_mod)
  then show "uint (g + 1) = uint g + 1" .
  have "uint h \<le> uint g" using assms(2) by (simp add: word_le_def)
  then show "h \<le> g + 1" "h \<noteq> g + 1" using u by (auto simp: word_le_def)
qed

lemma helper_change:
  assumes "route_inv C m" "helper_ok rh" "finite {i. C' i \<noteq> {#}}"
    "\<And>n. n < 129 \<Longrightarrow> mh_net_len_refcount rh ! n = counted C' n"
    "mh_cache_generation rh = mh_cache_generation (m_route_helper m) + 1"
    "mh_ageable_ttl_secs rh = mh_ageable_ttl_secs (m_route_helper m)"
    "uint (mh_cache_generation (m_route_helper m)) + 1 < 2 ^ 32"
    "\<And>i n. opened m i \<Longrightarrow> n \<in># C i \<Longrightarrow> n \<in># C' i"
  shows "route_inv C' (m\<lparr>m_route_helper := rh\<rparr>)" "only_helper m (m\<lparr>m_route_helper := rh\<rparr>)"
    "no_current_cache (m\<lparr>m_route_helper := rh\<rparr>)"
proof -
  let ?m = "m\<lparr>m_route_helper := rh\<rparr>"
  show oh: "only_helper m ?m" using assms(6) by (auto simp: only_helper_def)
  note f = only_helperD [OF oh]
  have r: "route_ok C' ?m a r \<and> (mr_flags r = CACHED \<longrightarrow> mr_cache_generation r \<noteq> mh_cache_generation rh)"
    if "routes m a = Some r" for a r
  proof -
    have ok: "route_ok C m a r" using assms(1) that unfolding route_inv_def by blast
    show ?thesis
    proof (cases "mr_flags r = CACHED")
      case True
      then have c: "host_addr a" "mr_cache_generation r \<le> mh_cache_generation (m_route_helper m)"
        using ok cached_flags(3) by (auto simp: route_ok_def)
      note g = generation_succ [OF assms(7) c(2), folded assms(5)]
      have "opened m (mr_instance r) \<longrightarrow> C (mr_instance r) \<noteq> {#}" using ok True cached_flags(3) by (auto simp: route_ok_def)
      then have "opened ?m (mr_instance r) \<longrightarrow> C' (mr_instance r) \<noteq> {#}"
        unfolding f(6) using assms(8) by (metis empty_not_add_mset multi_member_split multiset_nonemptyE)
      then have "route_ok C' ?m a r" using True c(1) g(1,2) unfolding route_ok_def by auto
      then show ?thesis using g(2) by blast
    next
      case False
      then have "route_ok C' ?m a r" using ok assms(8) unfolding route_ok_def f by auto
      then show ?thesis using False by blast
    qed
  qed
  then show "no_current_cache ?m" by (auto simp: no_current_cache_def)
  have st: "state_ok ?m" using assms(1) f(8) by (simp add: route_inv_def)
  show "route_inv C' ?m"
    unfolding route_inv_def f(1) by (intro conjI allI impI) (use st assms(2,3,4) r in auto)
qed

lemma helper_add_inv:
  assumes "route_inv C m" "0 \<le> n" "n < 129" "uint (mh_cache_generation (m_route_helper m)) + 1 < 2 ^ 32"
  shows "\<exists>m'. helper_add m n = Some m' \<and> route_inv (C(mi := add_mset n (C mi))) m' \<and> only_helper m m' \<and>
    no_current_cache m' \<and> uint (mh_cache_generation (m_route_helper m')) = uint (mh_cache_generation (m_route_helper m)) + 1"
proof -
  have h: "helper_ok (m_route_helper m)" "finite {i. C i \<noteq> {#}}"
    "\<forall>k < 129. mh_net_len_refcount (m_route_helper m) ! k = counted C k" using assms(1) by (auto simp: route_inv_def)
  obtain rh where rh: "mroute_helper_add_iroute46 (m_route_helper m) n = Some rh" "helper_ok rh"
    "mh_net_len_refcount rh = (mh_net_len_refcount (m_route_helper m))[nat n := mh_net_len_refcount (m_route_helper m) ! nat n + 1]"
    "mh_cache_generation rh = mh_cache_generation (m_route_helper m) + 1"
    "mh_ageable_ttl_secs rh = mh_ageable_ttl_secs (m_route_helper m)"
    using helper_add_ok [OF h(1) assms(2,3)] by blast
  have len: "length (mh_net_len_refcount (m_route_helper m)) = 129" using h(1) by (simp add: helper_ok_def)
  have c: "mh_net_len_refcount rh ! k = counted (C(mi := add_mset n (C mi))) k" if "k < 129" for k
  proof (cases "k = nat n")
    case True
    then have "int k = n" using assms(2) by simp
    then show ?thesis unfolding counted_update(1) [OF h(2)] using h(3) that len True by (simp add: rh(3))
  next
    case False
    then have "int k \<noteq> n" using assms(2) by auto
    then show ?thesis unfolding counted_update(1) [OF h(2)] using h(3) that False by (simp add: rh(3))
  qed
  note hc = helper_change [OF assms(1) rh(2) counted_update(2) [OF h(2), of mi "add_mset n (C mi)"] c rh(4,5) assms(4)]
  have sub: "k \<in># (C(mi := add_mset n (C mi))) i" if "k \<in># C i" for i k using that by auto
  have "uint (mh_cache_generation rh) = uint (mh_cache_generation (m_route_helper m)) + 1"
    unfolding rh(4) by (rule generation_succ(3) [OF assms(4) order_refl])
  then show ?thesis using hc sub by (intro exI [of _ "m\<lparr>m_route_helper := rh\<rparr>"]) (simp add: helper_add_def rh(1))
qed

lemma helper_del_inv:
  assumes "route_inv C m" "0 \<le> n" "n < 129" "n \<in># C mi" "\<not> opened m mi"
    "uint (mh_cache_generation (m_route_helper m)) + 1 < 2 ^ 32"
  shows "\<exists>m'. helper_del m n = Some m' \<and> route_inv (C(mi := C mi - {#n#})) m' \<and> only_helper m m' \<and>
    uint (mh_cache_generation (m_route_helper m')) = uint (mh_cache_generation (m_route_helper m)) + 1"
proof -
  have h: "helper_ok (m_route_helper m)" "finite {i. C i \<noteq> {#}}"
    "\<forall>k < 129. mh_net_len_refcount (m_route_helper m) ! k = counted C k" using assms(1) by (auto simp: route_inv_def)
  have "mh_net_len_refcount (m_route_helper m) ! nat n > 0"
    using counted_pos [OF h(2), of "nat n" mi] h(3) assms(2-4) by simp
  then obtain rh where rh: "mroute_helper_del_iroute46 (m_route_helper m) n = Some rh" "helper_ok rh"
    "mh_net_len_refcount rh = (mh_net_len_refcount (m_route_helper m))[nat n := mh_net_len_refcount (m_route_helper m) ! nat n - 1]"
    "mh_cache_generation rh = mh_cache_generation (m_route_helper m) + 1"
    "mh_ageable_ttl_secs rh = mh_ageable_ttl_secs (m_route_helper m)"
    using helper_del_ok [OF h(1) assms(2,3)] by blast
  have len: "length (mh_net_len_refcount (m_route_helper m)) = 129" using h(1) by (simp add: helper_ok_def)
  have c: "mh_net_len_refcount rh ! k = counted (C(mi := C mi - {#n#})) k" if "k < 129" for k
  proof (cases "k = nat n")
    case True
    then have "int k = n" using assms(2) by simp
    moreover have "0 < count (C mi) n" using assms(4) by simp
    ultimately show ?thesis unfolding counted_update(1) [OF h(2)] using h(3) that len True by (simp add: rh(3) of_nat_diff)
  next
    case False
    then have "int k \<noteq> n" using assms(2) by auto
    then show ?thesis unfolding counted_update(1) [OF h(2)] using h(3) that False by (simp add: rh(3))
  qed
  note hc = helper_change [OF assms(1) rh(2) counted_update(2) [OF h(2), of mi "C mi - {#n#}"] c rh(4,5) assms(6)]
  have sub: "k \<in># (C(mi := C mi - {#n#})) i" if "opened m i" "k \<in># C i" for i k using that assms(5) by auto
  have "uint (mh_cache_generation rh) = uint (mh_cache_generation (m_route_helper m)) + 1"
    unfolding rh(4) by (rule generation_succ(3) [OF assms(6) order_refl])
  then show ?thesis using hc sub by (intro exI [of _ "m\<lparr>m_route_helper := rh\<rparr>"]) (simp add: helper_del_def rh(1))
qed

section \<open>Connecting a client\<close>

definition connecting :: "(nat \<Rightarrow> int multiset) \<Rightarrow> multi_context \<Rightarrow> nat \<Rightarrow> bool" where
  "connecting C m mi \<longleftrightarrow> route_inv C m \<and> claims_open C m \<and> opened m mi \<and> all_permanent m mi"

definition override :: "(mroute_addr \<rightharpoonup> nat) \<Rightarrow> mroute_addr set \<Rightarrow> nat \<Rightarrow> mroute_addr \<rightharpoonup> nat" where
  "override R L mi = (\<lambda>a. if a \<in> L then Some mi else R a)"

text \<open>Room for more routes in the quota of a client.\<close>

definition room :: "multi_context \<Rightarrow> nat \<Rightarrow> nat \<Rightarrow> bool" where
  "room m mi k \<longleftrightarrow> (\<exists>x. m_heap m mi = Some x \<and> mi_route_count x + int k \<le> mi_max_routes_per_client x)"

definition kept :: "multi_context \<Rightarrow> multi_context \<Rightarrow> bool" where
  "kept m m' \<longleftrightarrow> mh_ageable_ttl_secs (m_route_helper m') = mh_ageable_ttl_secs (m_route_helper m) \<and>
     m_reaper m' = m_reaper m \<and> m_local m' = m_local m \<and>
     m_stale_routes_ageing_time m' = m_stale_routes_ageing_time m \<and>
     n_buckets (m_vhash m') = n_buckets (m_vhash m) \<and> same_clients (m_heap m) (m_heap m')"

lemma kept_refl [simp]: "kept m m"
  by (simp add: kept_def)

lemma kept_trans: "kept m1 m2 \<Longrightarrow> kept m2 m3 \<Longrightarrow> kept m1 m3"
  unfolding kept_def using same_clients_trans [of "m_heap m1" "m_heap m2" "m_heap m3"] by simp

lemma kept_routes: "only_routes m m' \<Longrightarrow> kept m m'"
  by (simp add: only_routes_def kept_def)

lemma kept_helper: "only_helper m m' \<Longrightarrow> kept m m'"
  by (auto simp: only_helper_def kept_def)

lemma room_shrink:
  assumes "state_ok m" "state_ok m'" "same_clients (m_heap m) (m_heap m')" "opened m mi"
    "routes m' = routes m \<or> routes m' = (routes m)(a \<mapsto> r)" "room m mi (Suc k)"
  shows "room m' mi k"
proof -
  obtain x where x: "m_heap m mi = Some x" "\<not> mi_halt x" using assms(4) by (auto simp: opened_def)
  obtain c d where x': "m_heap m' mi = Some (x\<lparr>mi_refcount := c, mi_route_count := d\<rparr>)"
    by (rule same_clients_open [OF assms(3) x])
  have co: "counts_ok (routes m) (m_heap m)" "counts_ok (routes m') (m_heap m')" using assms(1,2) by (auto simp: state_ok_def)
  have fin: "finite (owned_in (routes m) mi)" using co(1) owned_in_finite by (auto simp: counts_ok_def)
  have "owned_in (routes m') mi \<subseteq> insert a (owned_in (routes m) mi)"
    using assms(5) by (auto simp: owned_in_def split: if_splits)
  then have "card (owned_in (routes m') mi) \<le> Suc (card (owned_in (routes m) mi))"
    using card_mono [of "insert a (owned_in (routes m) mi)" "owned_in (routes m') mi"] fin
    by (auto simp: card_insert_if split: if_splits)
  then show ?thesis using assms(6) x x' counts_okD(1) [OF co(1) x(1)] counts_okD(1) [OF co(2) x'] by (auto simp: room_def)
qed

lemma learn_connect:
  assumes "connecting C m mi" "host_addr a \<or> net_addr a \<and> int (unat (ma_netbits a)) \<in># C mi \<and> no_current_cache m"
  shows "\<exists>own m' L. multi_learn_addr m nw sc mi a 0 = Some (own, m') \<and> connecting C m' mi \<and> only_routes m m' \<and>
    L \<subseteq> {a} \<and> installed m' = override (installed m) L mi \<and>
    ((\<forall>op b. sc (Some mi) op b) \<and> room m mi 1 \<and> mroute_learnable_address a \<and> a \<noteq> m_local m \<longrightarrow> a \<in> L) \<and>
    (\<forall>k. room m mi (Suc k) \<longrightarrow> room m' mi k)"
proof -
  have c: "route_inv C m" "claims_open C m" "opened m mi" "all_permanent m mi" using assms(1) by (auto simp: connecting_def)
  have st: "state_ok m" using c(1) by (simp add: route_inv_def)
  obtain x where x: "m_heap m mi = Some x" "\<not> mi_halt x" using c(3) by (auto simp: opened_def)
  let ?ok = "learn_wanted m nw mi a \<and> learn_granted m sc mi a"
  obtain m' where m': "multi_learn_addr m nw sc mi a 0 = Some (if ?ok then Some mi else owner_at m nw a, m')"
    "route_inv C m'" "only_routes m m'" "all_permanent m' mi" "installed m' = (if ?ok then (installed m)(a \<mapsto> mi) else installed m)"
    using learn_permanent [OF c(1,3,4) assms(2)] by blast
  obtain m2 where m2: "multi_learn_addr m nw sc mi a 0 = Some (if ?ok then Some mi else owner_at m nw a, m2)"
    "routes m2 = (if ?ok then (routes m)(a \<mapsto> new_route m nw mi a 0) else routes m)"
    using learn_effect [OF st x] by blast
  have r: "routes m' = (if ?ok then (routes m)(a \<mapsto> new_route m nw mi a 0) else routes m)" using m'(1) m2 by simp
  have sc': "same_clients (m_heap m) (m_heap m')" using m'(3) by (simp add: only_routes_def)
  have "connecting C m' mi" using m'(2,4) c(2,3) opened_same [OF sc'] by (auto simp: connecting_def claims_open_def)
  moreover have "room m' mi k" if "room m mi (Suc k)" for k
    by (rule room_shrink [OF st _ sc' c(3) _ that, of a "new_route m nw mi a 0"]) (use m'(2) r in \<open>auto simp: route_inv_def\<close>)
  moreover have "\<exists>L \<subseteq> {a}. installed m' = override (installed m) L mi \<and>
    ((\<forall>op b. sc (Some mi) op b) \<and> room m mi 1 \<and> mroute_learnable_address a \<and> a \<noteq> m_local m \<longrightarrow> a \<in> L)"
  proof (cases "?ok \<or> owner_at m nw a = Some mi")
    case True
    have "installed m' = (installed m)(a \<mapsto> mi)"
    proof (cases ?ok)
      case False
      then have own: "owner_at m nw a = Some mi" using True by blast
      then obtain q where q: "routes m a = Some q" "mr_instance q = mi" by (auto simp: owner_at_def split: option.splits if_splits)
      then have "mr_flags q = 0" using c(4) by (auto simp: all_permanent_def)
      then have "installed m a = Some mi" using q c(3) by (simp add: installed_def)
      then have "(installed m)(a \<mapsto> mi) = installed m" by (simp add: fun_upd_idem)
      then show ?thesis using m'(5) False by simp
    qed (simp add: m'(5))
    then have "installed m' = override (installed m) {a} mi" by (auto simp: override_def fun_eq_iff)
    then show ?thesis by blast
  next
    case False
    then have "installed m' = override (installed m) {} mi" using m'(5) by (auto simp: override_def)
    moreover have "\<not> ((\<forall>op b. sc (Some mi) op b) \<and> room m mi 1 \<and> mroute_learnable_address a \<and> a \<noteq> m_local m)"
      using False x(1) by (auto simp: learn_wanted_def learn_granted_def room_def)
    ultimately show ?thesis by blast
  qed
  ultimately show ?thesis using m'(1,3) by blast
qed

text \<open>A list of addresses, with the lengths to be counted first: \<open>-1\<close> for hosts.\<close>

definition item_ok :: "int \<times> mroute_addr \<Rightarrow> bool" where
  "item_ok p \<longleftrightarrow> fst p < 0 \<and> host_addr (snd p) \<or>
     0 \<le> fst p \<and> fst p < 129 \<and> net_addr (snd p) \<and> int (unat (ma_netbits (snd p))) = fst p"

fun learn_all :: "(int \<times> mroute_addr) list \<Rightarrow> multi_context \<Rightarrow> int \<Rightarrow> learn_script \<Rightarrow> nat \<Rightarrow> multi_context option" where
  "learn_all [] m nw sc mi = Some m"
| "learn_all (p # ps) m nw sc mi =
     do { m \<leftarrow> helper_add m (fst p);
          (_, m) \<leftarrow> multi_learn_addr m nw sc mi (snd p) 0;
          learn_all ps m nw sc mi }"

definition lengths_of :: "(int \<times> mroute_addr) list \<Rightarrow> int multiset" where
  "lengths_of ps = mset (filter (\<lambda>n. 0 \<le> n) (map fst ps))"

lemma lengths_of_simps:
  "lengths_of [] = {#}"
  "lengths_of ((n, a) # ps) = (if n < 0 then lengths_of ps else add_mset n (lengths_of ps))"
  by (auto simp: lengths_of_def)

lemma learn_all_ok:
  assumes "connecting C m mi" "\<forall>p \<in> set ps. item_ok p"
    "uint (mh_cache_generation (m_route_helper m)) + int (size (lengths_of ps)) < 2 ^ 32"
  shows "\<exists>m' L. learn_all ps m nw sc mi = Some m' \<and> connecting (C(mi := C mi + lengths_of ps)) m' mi \<and> kept m m' \<and>
    uint (mh_cache_generation (m_route_helper m')) = uint (mh_cache_generation (m_route_helper m)) + int (size (lengths_of ps)) \<and>
    L \<subseteq> snd ` set ps \<and> installed m' = override (installed m) L mi \<and>
    ((\<forall>op b. sc (Some mi) op b) \<and> room m mi (length ps) \<longrightarrow>
       {a \<in> snd ` set ps. mroute_learnable_address a \<and> a \<noteq> m_local m} \<subseteq> L) \<and>
    (\<forall>k. room m mi (length ps + k) \<longrightarrow> room m' mi k)"
  using assms
proof (induction ps arbitrary: m C)
  case Nil
  have e: "installed m = override (installed m) {} mi" by (simp add: override_def)
  show ?case by (rule exI [of _ m], rule exI [of _ "{}"]) (use Nil e in \<open>auto simp: lengths_of_simps\<close>)
next
  case (Cons p ps)
  obtain n a where p: "p = (n, a)" by (cases p)
  have ip: "item_ok p" using Cons.prems(2) by simp
  have c: "route_inv C m" "claims_open C m" "opened m mi" "all_permanent m mi"
    using Cons.prems(1) by (auto simp: connecting_def)
  define g where "g = (if n < 0 then 0 else 1 :: int)"
  define C1 where "C1 = (if n < 0 then C else C(mi := add_mset n (C mi)))"
  have sz: "int (size (lengths_of (p # ps))) = g + int (size (lengths_of ps))" by (simp add: lengths_of_simps p g_def)
  obtain m1 where m1: "helper_add m n = Some m1" "connecting C1 m1 mi" "only_helper m m1"
    "host_addr a \<or> net_addr a \<and> int (unat (ma_netbits a)) \<in># C1 mi \<and> no_current_cache m1"
    "uint (mh_cache_generation (m_route_helper m1)) = uint (mh_cache_generation (m_route_helper m)) + g"
  proof (cases "n < 0")
    case True
    then have "helper_add m n = Some m" by (simp add: helper_add_def helper_host_route)
    moreover have "only_helper m m" unfolding only_helper_def by (intro exI [of _ "m_route_helper m"]) simp
    moreover have "host_addr a" using ip True by (auto simp: item_ok_def p)
    ultimately show ?thesis using that [of m] Cons.prems(1) True by (simp add: C1_def g_def)
  next
    case False
    then have n: "0 \<le> n" "n < 129" "net_addr a" "int (unat (ma_netbits a)) = n" using ip by (auto simp: item_ok_def p)
    have "uint (mh_cache_generation (m_route_helper m)) + 1 < 2 ^ 32" using Cons.prems(3) sz False by (simp add: g_def)
    from helper_add_inv [OF c(1) n(1,2) this, of mi] obtain m1 where m1: "helper_add m n = Some m1"
      "route_inv (C(mi := add_mset n (C mi))) m1" "only_helper m m1" "no_current_cache m1"
      "uint (mh_cache_generation (m_route_helper m1)) = uint (mh_cache_generation (m_route_helper m)) + 1" by blast
    note f = only_helperD [OF m1(3)]
    have "connecting C1 m1 mi" using m1(2) c(2-4) False
      by (auto simp: connecting_def C1_def claims_open_def all_permanent_def f)
    then show ?thesis using that [OF m1(1) _ m1(3)] m1(4,5) n(3,4) False by (simp add: C1_def g_def)
  qed
  note f1 = only_helperD [OF m1(3)]
  have room1: "room m1 mi = room m mi" by (intro ext) (simp add: room_def f1(2))
  obtain own m2 L1 where m2: "multi_learn_addr m1 nw sc mi a 0 = Some (own, m2)" "connecting C1 m2 mi" "only_routes m1 m2"
    "L1 \<subseteq> {a}" "installed m2 = override (installed m1) L1 mi"
    "(\<forall>op b. sc (Some mi) op b) \<and> room m1 mi 1 \<and> mroute_learnable_address a \<and> a \<noteq> m_local m1 \<longrightarrow> a \<in> L1"
    "\<And>k. room m1 mi (Suc k) \<Longrightarrow> room m2 mi k"
    using learn_connect [OF m1(2,4)] by blast
  have h2: "m_route_helper m2 = m_route_helper m1" "m_local m2 = m_local m" using m2(3) f1(3) by (auto simp: only_routes_def)
  have g2: "uint (mh_cache_generation (m_route_helper m2)) + int (size (lengths_of ps)) < 2 ^ 32"
    using Cons.prems(3) sz m1(5) h2(1) by simp
  have ok2: "\<forall>p \<in> set ps. item_ok p" using Cons.prems(2) by simp
  from Cons.IH [OF m2(2) ok2 g2] obtain m3 L2 where m3: "learn_all ps m2 nw sc mi = Some m3"
    "connecting (C1(mi := C1 mi + lengths_of ps)) m3 mi" "kept m2 m3"
    "uint (mh_cache_generation (m_route_helper m3)) = uint (mh_cache_generation (m_route_helper m2)) + int (size (lengths_of ps))"
    "L2 \<subseteq> snd ` set ps" "installed m3 = override (installed m2) L2 mi"
    "(\<forall>op b. sc (Some mi) op b) \<and> room m2 mi (length ps) \<longrightarrow>
       {a \<in> snd ` set ps. mroute_learnable_address a \<and> a \<noteq> m_local m2} \<subseteq> L2"
    "\<forall>k. room m2 mi (length ps + k) \<longrightarrow> room m3 mi k" by (elim exE conjE) (rule that)
  have "C1(mi := C1 mi + lengths_of ps) = C(mi := C mi + lengths_of (p # ps))"
    by (auto simp: C1_def lengths_of_simps p)
  then have "connecting (C(mi := C mi + lengths_of (p # ps))) m3 mi" using m3(2) by (simp only:)
  moreover have "kept m m3" using kept_trans [OF kept_helper [OF m1(3)] kept_trans [OF kept_routes [OF m2(3)] m3(3)]] .
  moreover have "installed m3 = override (installed m) (L1 \<union> L2) mi"
    using m3(6) m2(5) f1(7) by (auto simp: override_def fun_eq_iff)
  moreover have "{b \<in> snd ` set (p # ps). mroute_learnable_address b \<and> b \<noteq> m_local m} \<subseteq> L1 \<union> L2"
    if "\<forall>op b. sc (Some mi) op b" "room m mi (length (p # ps))"
  proof -
    have r1: "room m1 mi (Suc (length ps))" using that(2) room1 by simp
    then have "room m1 mi 1" by (auto simp: room_def)
    then show ?thesis using m2(6) m3(7) m2(7) [OF r1] that(1) h2(2) f1(3) by (auto simp: p)
  qed
  moreover have "room m3 mi k" if "room m mi (length (p # ps) + k)" for k
    using m3(8) m2(7) [of "length ps + k"] that room1 by simp
  moreover have "L1 \<union> L2 \<subseteq> snd ` set (p # ps)" using m2(4) m3(5) by (auto simp: p)
  moreover have "learn_all (p # ps) m nw sc mi = Some m3" using m1(1) m2(1) m3(1) by (simp add: p)
  moreover have "uint (mh_cache_generation (m_route_helper m3)) =
      uint (mh_cache_generation (m_route_helper m)) + int (size (lengths_of (p # ps)))" using m3(4) h2(1) m1(5) sz by simp
  ultimately show ?case by (intro exI [of _ m3] exI [of _ "L1 \<union> L2"] conjI allI impI) blast+
qed

section \<open>The routes of a client\<close>

definition iroute_ok :: "iroute \<Rightarrow> bool" where
  "iroute_ok ir \<longleftrightarrow> ir_netbits ir = - 1 \<or> 0 \<le> ir_netbits ir \<and> ir_netbits ir < 32 \<and>
     ir_network ir AND netbits_to_netmask (ir_netbits ir) = ir_network ir"

definition iroute6_ok :: "iroute_ipv6 \<Rightarrow> bool" where
  "iroute6_ok ir \<longleftrightarrow> 0 \<le> ir6_netbits ir \<and> ir6_netbits ir \<le> 128 \<and> length (ir6_network ir) = 16"

definition client_ok :: "multi_instance \<Rightarrow> bool" where
  "client_ok x \<longleftrightarrow> mi_tunnel_type x = DEV_TYPE_TUN \<and> list_all iroute_ok (mi_iroutes x) \<and>
     list_all iroute6_ok (mi_iroutes_ipv6 x) \<and> length (mi_push_ifconfig_ipv6_local x) = 16"

text \<open>The addresses that the options of a client stand for.\<close>

definition host4 :: "u32 \<Rightarrow> mroute_addr" where
  "host4 a = \<lparr>ma_type = MR_ADDR_IPV4, ma_netbits = 0, ma_raw = be32 a\<rparr>"

definition host6 :: "u8 list \<Rightarrow> mroute_addr" where
  "host6 a = \<lparr>ma_type = MR_ADDR_IPV6, ma_netbits = 0, ma_raw = a\<rparr>"

definition iroute_addr :: "iroute \<Rightarrow> mroute_addr" where
  "iroute_addr ir =
     (if ir_netbits ir \<ge> 0
      then (host4 (ir_network ir))\<lparr>ma_type := MR_ADDR_IPV4 OR MR_WITH_NETBITS, ma_netbits := word_of_int (ir_netbits ir)\<rparr>
      else host4 (ir_network ir))"

definition iroute6_addr :: "iroute_ipv6 \<Rightarrow> mroute_addr" where
  "iroute6_addr ir = the (mroute_addr_mask_host_bits
     ((host6 (ir6_network ir))\<lparr>ma_type := MR_ADDR_IPV6 OR MR_WITH_NETBITS, ma_netbits := word_of_int (ir6_netbits ir)\<rparr>))"

definition primary_items :: "multi_instance \<Rightarrow> (int \<times> mroute_addr) list" where
  "primary_items x =
     (if mi_push_ifconfig_defined x then [(- 1, host4 (mi_push_ifconfig_local x))] else []) @
     (if mi_push_ifconfig_ipv6_defined x then [(- 1, host6 (mi_push_ifconfig_ipv6_local x))] else [])"

definition iroute_items :: "multi_instance \<Rightarrow> (int \<times> mroute_addr) list" where
  "iroute_items x = map (\<lambda>ir. (ir_netbits ir, iroute_addr ir)) (mi_iroutes x) @
     map (\<lambda>ir. (ir6_netbits ir, iroute6_addr ir)) (mi_iroutes_ipv6 x)"

lemma host4_ok: "host_addr (host4 a)"
  by (simp add: host_addr_def host4_def)

lemma host6_ok: "length a = 16 \<Longrightarrow> host_addr (host6 a)"
  by (simp add: host_addr_def host6_def)

lemma unat_of_int_u8: "0 \<le> n \<Longrightarrow> n \<le> 128 \<Longrightarrow> unat (word_of_int n :: u8) = nat n"
  using unat_u8_small [of "nat n"] by simp

lemma iroute_item_ok:
  assumes "iroute_ok ir"
  shows "item_ok (ir_netbits ir, iroute_addr ir)"
proof (cases "ir_netbits ir \<ge> 0")
  case True
  then have n: "ir_netbits ir < 32" "ir_network ir AND netbits_to_netmask (ir_netbits ir) = ir_network ir"
    using assms by (auto simp: iroute_ok_def)
  have u: "unat (word_of_int (ir_netbits ir) :: u8) = nat (ir_netbits ir)" using unat_of_int_u8 True n(1) by simp
  have "\<not> addr_bit (be32 (ir_network ir)) i" if "i < 32" "nat (ir_netbits ir) \<le> i" for i
  proof -
    have "\<not> bit (netbits_to_netmask (ir_netbits ir)) (31 - i)"
      using netmask_bit [of "ir_netbits ir" i] True n(1) that by simp
    then have "\<not> bit (ir_network ir) (31 - i)" using n(2) by (metis bit_and_iff)
    then show ?thesis using addr_bit_be32 [OF that(1)] by simp
  qed
  then have "net_addr (iroute_addr ir)" using True n(1) u by (simp add: net_addr_def iroute_addr_def host4_def)
  then show ?thesis using True n(1) u by (simp add: item_ok_def iroute_addr_def)
next
  case False
  then show ?thesis using host4_ok by (simp add: item_ok_def iroute_addr_def)
qed

lemma iroute6_item_ok:
  assumes "iroute6_ok ir"
  shows "item_ok (ir6_netbits ir, iroute6_addr ir)"
    "mroute_addr_mask_host_bits ((host6 (ir6_network ir))\<lparr>ma_type := MR_ADDR_IPV6 OR MR_WITH_NETBITS,
       ma_netbits := word_of_int (ir6_netbits ir)\<rparr>) = Some (iroute6_addr ir)"
proof -
  let ?a = "(host6 (ir6_network ir))\<lparr>ma_type := MR_ADDR_IPV6 OR MR_WITH_NETBITS, ma_netbits := word_of_int (ir6_netbits ir)\<rparr>"
  have n: "0 \<le> ir6_netbits ir" "ir6_netbits ir \<le> 128" "length (ir6_network ir) = 16" using assms by (auto simp: iroute6_ok_def)
  have u: "unat (ma_netbits ?a) = nat (ir6_netbits ir)" using unat_of_int_u8 [OF n(1,2)] by simp
  have ip: "ip_addr ?a" using n(3) by (simp add: ip_addr_def host6_def mr_defs)
  have "unat (ma_netbits ?a) \<le> 8 * length (ma_raw ?a)" using u n by (simp add: host6_def)
  from mask_host_bits_spec [OF ip this] obtain r where r: "mroute_addr_mask_host_bits ?a = Some (?a\<lparr>ma_raw := r\<rparr>)"
    "length r = length (ma_raw ?a)" "\<forall>i < 8 * length r. addr_bit r i \<longleftrightarrow> i < unat (ma_netbits ?a) \<and> addr_bit (ma_raw ?a) i"
    by blast
  show m: "mroute_addr_mask_host_bits ?a = Some (iroute6_addr ir)" unfolding iroute6_addr_def r(1) by simp
  have e: "iroute6_addr ir = ?a\<lparr>ma_raw := r\<rparr>" using m r(1) by simp
  have "net_addr (iroute6_addr ir)" unfolding e net_addr_def using r(2,3) u n by (simp add: host6_def)
  then show "item_ok (ir6_netbits ir, iroute6_addr ir)" using n u by (simp add: item_ok_def e)
qed

lemma client_items_ok:
  assumes "client_ok x"
  shows "\<forall>p \<in> set (primary_items x). item_ok p" "\<forall>p \<in> set (iroute_items x). item_ok p" "lengths_of (primary_items x) = {#}"
proof -
  show "\<forall>p \<in> set (primary_items x). item_ok p"
    using assms host4_ok host6_ok by (auto simp: client_ok_def primary_items_def item_ok_def)
  have "item_ok (ir_netbits ir, iroute_addr ir)" if "ir \<in> set (mi_iroutes x)" for ir
    using assms that by (intro iroute_item_ok) (auto simp: client_ok_def list_all_iff)
  moreover have "item_ok (ir6_netbits ir, iroute6_addr ir)" if "ir \<in> set (mi_iroutes_ipv6 x)" for ir
    using assms that by (intro iroute6_item_ok(1)) (auto simp: client_ok_def list_all_iff)
  ultimately show "\<forall>p \<in> set (iroute_items x). item_ok p" unfolding iroute_items_def by auto
  show "lengths_of (primary_items x) = {#}" by (simp add: primary_items_def lengths_of_simps)
qed

lemma learn_all_append: "learn_all (ps @ qs) m nw sc mi = learn_all ps m nw sc mi \<bind> (\<lambda>m. learn_all qs m nw sc mi)"
  by (induction ps arbitrary: m) (auto simp: case_prod_beta split: Option.bind_splits)

lemma in_addr_learn:
  "multi_learn_in_addr_t m nw sc mi a n = multi_learn_addr m nw sc mi (iroute_addr \<lparr>ir_network = a, ir_netbits = n\<rparr>) 0"
  by (simp add: multi_learn_in_addr_t_def iroute_addr_def host4_def mroute_addr_init_def Let_def)

lemma add_iroutes_loop_all:
  "add_iroutes_loop irs m nw sc mi = learn_all (map (\<lambda>ir. (ir_netbits ir, iroute_addr ir)) irs) m nw sc mi"
proof -
  have e: "\<lparr>ir_network = ir_network ir, ir_netbits = ir_netbits ir\<rparr> = ir" for ir by (cases ir) simp
  show ?thesis by (induction irs arbitrary: m) (simp_all add: in_addr_learn e)
qed

lemma add_iroutes6_loop_all:
  assumes "list_all iroute6_ok irs"
  shows "add_iroutes6_loop irs m nw sc mi = learn_all (map (\<lambda>ir. (ir6_netbits ir, iroute6_addr ir)) irs) m nw sc mi"
  using assms
proof (induction irs arbitrary: m)
  case (Cons ir irs)
  have n: "0 \<le> ir6_netbits ir" using Cons.prems by (simp add: iroute6_ok_def)
  have "multi_learn_in6_addr m' nw sc mi (ir6_network ir) (ir6_netbits ir) = multi_learn_addr m' nw sc mi (iroute6_addr ir) 0" for m'
    using iroute6_item_ok(2) [of ir] Cons.prems n by (simp add: multi_learn_in6_addr_def host6_def Let_def)
  then show ?case using Cons by simp
qed simp

text \<open>The set-up of a connection learns its addresses, then the networks.\<close>

lemma late_setup_all:
  assumes "m_heap m mi = Some x" "client_ok x"
    "\<And>m1. learn_all (primary_items x) m nw sc mi = Some m1 \<Longrightarrow> \<exists>c d. m_heap m1 mi = Some (x\<lparr>mi_refcount := c, mi_route_count := d\<rparr>)"
  shows "late_setup_routes m nw sc mi =
    do { m \<leftarrow> learn_all (primary_items x) m nw sc mi;
         m \<leftarrow> change_instance m mi (\<lambda>i. i\<lparr>mi_did_iroutes := True\<rparr>);
         learn_all (iroute_items x) m nw sc mi }"
proof -
  have t: "mi_tunnel_type x = DEV_TYPE_TUN" "list_all iroute6_ok (mi_iroutes_ipv6 x)" using assms(2) by (auto simp: client_ok_def)
  have i4: "multi_learn_in_addr_t m nw sc mi a (- 1) = multi_learn_addr m nw sc mi (host4 a) 0" for m a
    by (simp add: in_addr_learn iroute_addr_def)
  have i6: "multi_learn_in6_addr m nw sc mi a (- 1) = multi_learn_addr m nw sc mi (host6 a) 0" for m a
    by (simp add: multi_learn_in6_addr_def host6_def)
  have p: "learn_all (primary_items x) m nw sc mi =
      do { m \<leftarrow> (if mi_push_ifconfig_defined x
             then map_option snd (multi_learn_in_addr_t m nw sc mi (mi_push_ifconfig_local x) (- 1)) else Some m);
           if mi_push_ifconfig_ipv6_defined x
             then map_option snd (multi_learn_in6_addr m nw sc mi (mi_push_ifconfig_ipv6_local x) (- 1)) else Some m }"
    by (auto simp: primary_items_def i4 i6 helper_add_def helper_host_route case_prod_beta split: Option.bind_splits)
  have a: "multi_add_iroutes m1 nw sc mi = do { m \<leftarrow> change_instance m1 mi (\<lambda>i. i\<lparr>mi_did_iroutes := True\<rparr>);
         learn_all (iroute_items x) m nw sc mi }"
    if "m_heap m1 mi = Some (x\<lparr>mi_refcount := c, mi_route_count := d\<rparr>)" for m1 c d
    using that t by (simp add: multi_add_iroutes_def add_iroutes_loop_all add_iroutes6_loop_all iroute_items_def learn_all_append)
  have ls: "late_setup_routes m nw sc mi = learn_all (primary_items x) m nw sc mi \<bind> (\<lambda>m. multi_add_iroutes m nw sc mi)"
    unfolding p late_setup_routes_def using assms(1) t(1) by simp
  show ?thesis
  proof (cases "learn_all (primary_items x) m nw sc mi")
    case (Some m1)
    then obtain c d where "m_heap m1 mi = Some (x\<lparr>mi_refcount := c, mi_route_count := d\<rparr>)" using assms(3) by blast
    from a [OF this] Some show ?thesis unfolding ls by simp
  qed (simp add: ls)
qed

section \<open>Closing a client\<close>

lemma counts_heap:
  assumes "counts_ok t heap" "heap mi = Some x"
    "case y of None \<Rightarrow> owned_in t mi = {}
     | Some x' \<Rightarrow> mi_route_count x' = mi_route_count x \<and> 0 < mi_refcount x' \<and>
         mi_refcount x' = mi_route_count x + (if mi_halt x' then 0 else 1)"
  shows "counts_ok t (heap(mi := y))"
proof -
  note d = counts_okD [OF assms(1)]
  have p: "mr_addr r = a \<and> (heap(mi := y)) (mr_instance r) \<noteq> None" if "t a = Some r" for a r
  proof -
    have "mr_addr r = a" "heap (mr_instance r) \<noteq> None" using assms(1) that by (auto simp: counts_ok_def)
    moreover have "a \<in> owned_in t (mr_instance r)" using that by (auto simp: owned_in_def)
    ultimately show ?thesis using assms(3) by (auto split: option.splits)
  qed
  have q: "mi_route_count z = int (card (owned_in t i)) \<and>
      mi_refcount z = int (card (owned_in t i)) + (if mi_halt z then 0 else 1) \<and> 0 < mi_refcount z"
    if "(heap(mi := y)) i = Some z" for i z
  proof (cases "i = mi")
    case True
    then have "y = Some z" using that by simp
    then show ?thesis using assms(3) d(1) [OF assms(2)] True by auto
  next
    case False
    then show ?thesis using that d [of i z] by auto
  qed
  have f: "finite (dom t)" using assms(1) by (simp add: counts_ok_def)
  show ?thesis unfolding counts_ok_def by (intro conjI allI impI) (use p q f in blast)+
qed

text \<open>A change of the heap that only closes some clients, or changes their flags.\<close>

definition without :: "(mroute_addr \<rightharpoonup> nat) \<Rightarrow> nat set \<Rightarrow> mroute_addr \<rightharpoonup> nat" where
  "without R G a = (case R a of None \<Rightarrow> None | Some i \<Rightarrow> if i \<in> G then None else Some i)"

lemma without_none [simp]: "without R {} = R"
  by (rule ext) (simp add: without_def split: option.splits)

lemma heap_change:
  assumes "route_inv C m" "counts_ok (routes m) h"
    "\<And>i. opened (m\<lparr>m_heap := h\<rparr>) i \<longleftrightarrow> opened m i \<and> i \<notin> G"
  shows "route_inv C (m\<lparr>m_heap := h\<rparr>)" "installed (m\<lparr>m_heap := h\<rparr>) = without (installed m) G"
proof -
  let ?m = "m\<lparr>m_heap := h\<rparr>"
  show i: "installed ?m = without (installed m) G"
    by (rule ext) (auto simp: installed_def without_def assms(3) split: option.splits)
  have lm: "longest_match (installed ?m) a (Some k)" if "longest_match (installed m) a (Some k)" "k \<notin> G" for a k
  proof -
    note lk = that(1)
    obtain n where n: "installed m n = Some k" "covers n a"
      "\<forall>n'. installed m n' \<noteq> None \<longrightarrow> covers n' a \<longrightarrow> prefix_length n' \<le> prefix_length n"
      using lk unfolding longest_match_def option.case by blast
    have "installed ?m n = Some k" using n(1) that(2) by (simp add: i without_def)
    moreover have "installed m n' \<noteq> None" if "installed ?m n' \<noteq> None" for n' using that by (auto simp: i without_def split: option.splits)
    ultimately show ?thesis unfolding longest_match_def option.case using n(2,3) by blast
  qed
  have hm: "m_route_helper ?m = m_route_helper m" "m_vhash ?m = m_vhash m" "m_heap ?m = h" by simp_all
  have "route_ok C ?m a r" if "routes m a = Some r" for a r
  proof -
    have "route_ok C m a r" using assms(1) that unfolding route_inv_def by blast
    then show ?thesis unfolding route_ok_def hm(1) assms(3) using lm [of a "mr_instance r"] by blast
  qed
  then show "route_inv C ?m" using assms(1,2) unfolding route_inv_def state_ok_def hm by blast
qed

lemma del_loop_inv:
  assumes "route_inv C m" "\<not> opened m mi" "\<forall>n \<in> set ns. n < 129" "mset (filter (\<lambda>n. 0 \<le> n) ns) \<subseteq># C mi"
    "uint (mh_cache_generation (m_route_helper m)) + int (length (filter (\<lambda>n. 0 \<le> n) ns)) < 2 ^ 32"
  shows "\<exists>m'. del_iroutes_loop ns m = Some m' \<and> route_inv (C(mi := C mi - mset (filter (\<lambda>n. 0 \<le> n) ns))) m' \<and> only_helper m m' \<and>
    uint (mh_cache_generation (m_route_helper m')) =
      uint (mh_cache_generation (m_route_helper m)) + int (length (filter (\<lambda>n. 0 \<le> n) ns))"
  using assms
proof (induction ns arbitrary: m C)
  case Nil
  have "only_helper m m" unfolding only_helper_def by (intro exI [of _ "m_route_helper m"]) simp
  then show ?case using Nil.prems(1) by simp
next
  case (Cons n ns)
  show ?case
  proof (cases "n < 0")
    case True
    then have h: "helper_del m n = Some m" by (simp add: helper_del_def helper_host_route)
    have f: "filter (\<lambda>n. 0 \<le> n) (n # ns) = filter (\<lambda>n. 0 \<le> n) ns" using True by simp
    show ?thesis using Cons.IH [OF Cons.prems(1,2) _ Cons.prems(4,5) [unfolded f]] Cons.prems(3) unfolding f by (simp add: h)
  next
    case False
    let ?M = "mset (filter (\<lambda>n. 0 \<le> n) ns)"
    have f: "filter (\<lambda>n. 0 \<le> n) (n # ns) = n # filter (\<lambda>n. 0 \<le> n) ns" using False by simp
    have n: "0 \<le> n" "n < 129" using False Cons.prems(3) by auto
    have sub: "add_mset n ?M \<subseteq># C mi" using Cons.prems(4) f by simp
    then have mem: "n \<in># C mi" by (meson insert_subset_eq_iff)
    have g: "uint (mh_cache_generation (m_route_helper m)) + 1 < 2 ^ 32" using Cons.prems(5) f by simp
    obtain m1 where m1: "helper_del m n = Some m1" "route_inv (C(mi := C mi - {#n#})) m1" "only_helper m m1"
      "uint (mh_cache_generation (m_route_helper m1)) = uint (mh_cache_generation (m_route_helper m)) + 1"
      using helper_del_inv [OF Cons.prems(1) n mem Cons.prems(2) g] by blast
    note f1 = only_helperD [OF m1(3)]
    have s1: "?M \<subseteq># (C(mi := C mi - {#n#})) mi" using sub by (simp add: insert_subset_eq_iff)
    have g1: "uint (mh_cache_generation (m_route_helper m1)) + int (length (filter (\<lambda>n. 0 \<le> n) ns)) < 2 ^ 32"
      using Cons.prems(5) f m1(4) by simp
    have o1: "\<not> opened m1 mi" using Cons.prems(2) f1(6) by simp
    have l1: "\<forall>n \<in> set ns. n < 129" using Cons.prems(3) by simp
    from Cons.IH [OF m1(2) o1 l1 s1 g1] obtain m2 where m2: "del_iroutes_loop ns m1 = Some m2"
      "route_inv ((C(mi := C mi - {#n#}))(mi := (C(mi := C mi - {#n#})) mi - ?M)) m2" "only_helper m1 m2"
      "uint (mh_cache_generation (m_route_helper m2)) = uint (mh_cache_generation (m_route_helper m1)) + int (length (filter (\<lambda>n. 0 \<le> n) ns))"
      by blast
    have "(C(mi := C mi - {#n#}))(mi := (C(mi := C mi - {#n#})) mi - ?M) = C(mi := C mi - mset (filter (\<lambda>n. 0 \<le> n) (n # ns)))"
      using f by simp
    then have "route_inv (C(mi := C mi - mset (filter (\<lambda>n. 0 \<le> n) (n # ns)))) m2" using m2(2) by (simp only:)
    moreover have "only_helper m m2" using m1(3) m2(3) by (auto simp: only_helper_def)
    moreover have "del_iroutes_loop (n # ns) m = Some m2" using m1(1) m2(1) by simp
    moreover have "uint (mh_cache_generation (m_route_helper m2)) = uint (mh_cache_generation (m_route_helper m)) +
        int (length (filter (\<lambda>n. 0 \<le> n) (n # ns)))" using m2(4) m1(4) f by simp
    ultimately show ?thesis by (intro exI [of _ m2] conjI) blast+
  qed
qed

lemma del_loop_heap:
  "del_iroutes_loop ns (m\<lparr>m_heap := h\<rparr>) = map_option (\<lambda>m. m\<lparr>m_heap := h\<rparr>) (del_iroutes_loop ns m)"
proof (induction ns arbitrary: m)
  case (Cons n ns)
  have "helper_del (m\<lparr>m_heap := h\<rparr>) n = map_option (\<lambda>m. m\<lparr>m_heap := h\<rparr>) (helper_del m n)"
    by (cases "mroute_helper_del_iroute46 (m_route_helper m) n") (auto simp: helper_del_def)
  then show ?case using Cons.IH by (cases "helper_del m n") auto
qed simp

lemma del_loop_append: "del_iroutes_loop (ns @ ns') m = del_iroutes_loop ns m \<bind> del_iroutes_loop ns'"
  by (induction ns arbitrary: m) (auto split: Option.bind_splits)

section \<open>The invariant between events\<close>

definition claims :: "multi_context \<Rightarrow> nat \<Rightarrow> int multiset" where
  "claims m i =
     (case m_heap m i of
        None \<Rightarrow> {#}
      | Some x \<Rightarrow> if mi_did_iroutes x then lengths_of (iroute_items x) else {#})"

definition client_inv :: "multi_context \<Rightarrow> nat \<Rightarrow> multi_instance \<Rightarrow> bool" where
  "client_inv m i x \<longleftrightarrow> client_ok x \<and> (mi_did_iroutes x \<longrightarrow> \<not> mi_halt x) \<and>
     (\<not> mi_did_iroutes x \<and> \<not> mi_halt x \<longrightarrow> (\<forall>a. installed m a \<noteq> Some i))"

definition table_inv :: "multi_context \<Rightarrow> bool" where
  "table_inv m \<longleftrightarrow> route_inv (claims m) m \<and> (\<forall>i x. m_heap m i = Some x \<longrightarrow> client_inv m i x) \<and>
     0 \<le> bucket_base (m_reaper m) \<and> 0 \<le> buckets_per_pass (m_reaper m)"

lemma table_claims_open: "table_inv m \<Longrightarrow> claims_open (claims m) m"
  by (auto simp: claims_open_def claims_def opened_def table_inv_def client_inv_def split: option.splits if_splits)

lemma client_same:
  "client_ok (x\<lparr>mi_refcount := c, mi_route_count := d\<rparr>) = client_ok x"
  "iroute_items (x\<lparr>mi_refcount := c, mi_route_count := d\<rparr>) = iroute_items x"
  "primary_items (x\<lparr>mi_refcount := c, mi_route_count := d\<rparr>) = primary_items x"
  by (simp_all add: client_ok_def iroute_items_def primary_items_def)

text \<open>Changing counts only, and freeing closed instances, leaves the claims alone.\<close>

lemma claims_same:
  assumes "table_inv m" "same_clients (m_heap m) (m_heap m')"
  shows "claims m' = claims m"
proof
  fix i
  show "claims m' i = claims m i"
  proof (cases "m_heap m' i")
    case None
    have "case m_heap m' i of Some x' \<Rightarrow> (\<exists>x c d. m_heap m i = Some x \<and> x' = x\<lparr>mi_refcount := c, mi_route_count := d\<rparr>)
      | None \<Rightarrow> (\<forall>x. m_heap m i = Some x \<longrightarrow> mi_halt x)" using assms(2) unfolding same_clients_def by blast
    then have "\<forall>x. m_heap m i = Some x \<longrightarrow> mi_halt x" using None by simp
    then show ?thesis using None assms(1) by (auto simp: claims_def table_inv_def client_inv_def split: option.splits)
  next
    case (Some x')
    obtain x c d where "m_heap m i = Some x" "x' = x\<lparr>mi_refcount := c, mi_route_count := d\<rparr>"
      by (rule same_clients_back [OF assms(2) Some])
    then show ?thesis using Some by (simp add: claims_def client_same)
  qed
qed

lemma table_inv_kept:
  assumes "table_inv m" "route_inv (claims m) m'" "same_clients (m_heap m) (m_heap m')" "installed m' = installed m"
    "0 \<le> bucket_base (m_reaper m')" "0 \<le> buckets_per_pass (m_reaper m')"
  shows "table_inv m'"
proof -
  have "client_inv m' i x'" if x': "m_heap m' i = Some x'" for i x'
  proof -
    obtain x c d where x: "m_heap m i = Some x" "x' = x\<lparr>mi_refcount := c, mi_route_count := d\<rparr>"
      by (rule same_clients_back [OF assms(3) x'])
    have "client_inv m i x" using assms(1) x(1) by (simp add: table_inv_def)
    then show ?thesis using x assms(4) by (auto simp: client_inv_def client_same)
  qed
  then show ?thesis using assms(2,5,6) unfolding table_inv_def claims_same [OF assms(1,3)] by blast
qed

lemma lookup_inv:
  assumes "table_inv m" "host_addr a"
  shows "\<exists>r m'. multi_get_instance_by_virtual_addr m nw sc a True = Some (r, m') \<and>
    (if a = m_local m then r = None else longest_match (installed m) a r) \<and>
    table_inv m' \<and> only_routes m m' \<and> installed m' = installed m \<and> only_at a m m'"
proof -
  have ri: "route_inv (claims m) m" using assms(1) by (simp add: table_inv_def)
  obtain r m' where m': "multi_get_instance_by_virtual_addr m nw sc a True = Some (r, m')"
    "if a = m_local m then r = None else longest_match (installed m) a r"
    "route_inv (claims m) m'" "only_routes m m'" "installed m' = installed m" "only_at a m m'"
    using lookup_correct [OF ri assms(2)] by blast
  have "table_inv m'"
    by (rule table_inv_kept [OF assms(1) m'(3) _ m'(5)]) (use m'(4) assms(1) in \<open>auto simp: only_routes_def table_inv_def\<close>)
  then show ?thesis using m' by blast
qed

text \<open>Setting up a connection.\<close>

lemma flag_change:
  assumes "route_inv C m" "m_heap m mi = Some x" "\<not> mi_halt x"
  shows "route_inv C (m\<lparr>m_heap := (m_heap m)(mi \<mapsto> x\<lparr>mi_did_iroutes := b\<rparr>)\<rparr>)"
    "installed (m\<lparr>m_heap := (m_heap m)(mi \<mapsto> x\<lparr>mi_did_iroutes := b\<rparr>)\<rparr>) = installed m"
    "opened (m\<lparr>m_heap := (m_heap m)(mi \<mapsto> x\<lparr>mi_did_iroutes := b\<rparr>)\<rparr>) = opened m"
proof -
  let ?h = "(m_heap m)(mi \<mapsto> x\<lparr>mi_did_iroutes := b\<rparr>)"
  have st: "counts_ok (routes m) (m_heap m)" using assms(1) by (simp add: route_inv_def state_ok_def)
  have c: "counts_ok (routes m) ?h"
    by (rule counts_heap [OF st assms(2)]) (use counts_okD [OF st assms(2)] assms(3) in simp)
  show op: "opened (m\<lparr>m_heap := ?h\<rparr>) = opened m" using assms(2) by (auto simp: opened_def fun_eq_iff)
  then have "opened (m\<lparr>m_heap := ?h\<rparr>) i \<longleftrightarrow> opened m i \<and> i \<notin> {}" for i by simp
  from heap_change [OF assms(1) c this]
  show "route_inv C (m\<lparr>m_heap := ?h\<rparr>)" "installed (m\<lparr>m_heap := ?h\<rparr>) = installed m" by simp_all
qed

definition setup_items :: "multi_instance \<Rightarrow> mroute_addr set" where
  "setup_items x = snd ` set (primary_items x @ iroute_items x)"

lemma setup_ok:
  assumes "table_inv m" "m_heap m mi = Some x" "\<not> mi_halt x" "\<not> mi_did_iroutes x"
    "uint (mh_cache_generation (m_route_helper m)) + int (size (lengths_of (iroute_items x))) < 2 ^ 32"
  shows "\<exists>m' L. late_setup_routes m nw sc mi = Some m' \<and> table_inv m' \<and> kept m (m'\<lparr>m_heap := m_heap m\<rparr>) \<and>
    L \<subseteq> setup_items x \<and> installed m' = override (installed m) L mi \<and> opened m' = opened m \<and>
    uint (mh_cache_generation (m_route_helper m')) =
      uint (mh_cache_generation (m_route_helper m)) + int (size (lengths_of (iroute_items x))) \<and>
    same_clients ((m_heap m)(mi \<mapsto> x\<lparr>mi_did_iroutes := True\<rparr>)) (m_heap m') \<and>
    ((\<forall>op b. sc (Some mi) op b) \<and> int (length (primary_items x @ iroute_items x)) \<le> mi_max_routes_per_client x \<longrightarrow>
       {a \<in> setup_items x. mroute_learnable_address a \<and> a \<noteq> m_local m} \<subseteq> L)"
proof -
  have ri: "route_inv (claims m) m" and ci: "client_inv m mi x" and rp: "0 \<le> bucket_base (m_reaper m)" "0 \<le> buckets_per_pass (m_reaper m)"
    using assms(1,2) by (auto simp: table_inv_def)
  have cl: "client_ok x" "\<forall>a. installed m a \<noteq> Some mi" using ci assms(3,4) by (auto simp: client_inv_def)
  have op: "opened m mi" using assms(2,3) by (auto simp: opened_def)
  have none: "claims m mi = {#}" using assms(2,4) by (simp add: claims_def)
  have no: "routes m a = Some r \<Longrightarrow> mr_instance r = mi \<Longrightarrow> False" for a r
  proof -
    assume r: "routes m a = Some r" "mr_instance r = mi"
    have "route_ok (claims m) m a r" using ri r(1) unfolding route_inv_def by blast
    then have "mr_flags r = 0" using r(2) op none by (auto simp: route_ok_def)
    then have "installed m a = Some mi" using r op by (simp add: installed_def)
    then show False using cl(2) by blast
  qed
  have cn: "connecting (claims m) m mi"
    using ri op table_claims_open [OF assms(1)] no by (auto simp: connecting_def all_permanent_def)
  have "owned_in (routes m) mi = {}" using no by (auto simp: owned_in_def)
  then have rc: "mi_route_count x = 0"
    using counts_okD(1) [of "routes m" "m_heap m" mi x] ri assms(2) by (simp add: route_inv_def state_ok_def)
  note items = client_items_ok [OF cl(1)]
  have g0: "uint (mh_cache_generation (m_route_helper m)) + int (size (lengths_of (primary_items x))) < 2 ^ 32"
    using assms(5) items(3) by simp
  from learn_all_ok [OF cn items(1) g0, of nw sc] obtain m1 L1 where m1: "learn_all (primary_items x) m nw sc mi = Some m1"
    "connecting ((claims m)(mi := claims m mi + lengths_of (primary_items x))) m1 mi" "kept m m1"
    "uint (mh_cache_generation (m_route_helper m1)) = uint (mh_cache_generation (m_route_helper m)) + int (size (lengths_of (primary_items x)))"
    "L1 \<subseteq> snd ` set (primary_items x)" "installed m1 = override (installed m) L1 mi"
    "(\<forall>op b. sc (Some mi) op b) \<and> room m mi (length (primary_items x)) \<longrightarrow>
       {a \<in> snd ` set (primary_items x). mroute_learnable_address a \<and> a \<noteq> m_local m} \<subseteq> L1"
    "\<forall>k. room m mi (length (primary_items x) + k) \<longrightarrow> room m1 mi k" by (elim exE conjE) (rule that)
  have c1: "connecting (claims m) m1 mi" using m1(2) items(3) by simp
  have sc1: "same_clients (m_heap m) (m_heap m1)" using m1(3) by (simp add: kept_def)
  obtain c d where x1: "m_heap m1 mi = Some (x\<lparr>mi_refcount := c, mi_route_count := d\<rparr>)"
    by (rule same_clients_open [OF sc1 assms(2,3)])
  let ?x1 = "x\<lparr>mi_refcount := c, mi_route_count := d\<rparr>"
  define m2 where "m2 = m1\<lparr>m_heap := (m_heap m1)(mi \<mapsto> ?x1\<lparr>mi_did_iroutes := True\<rparr>)\<rparr>"
  have h1: "\<not> mi_halt ?x1" using assms(3) by simp
  have "route_inv (claims m) m1" using c1 by (simp add: connecting_def)
  note fc = flag_change [OF this x1 h1, of True, folded m2_def]
  have v2: "m_vhash m2 = m_vhash m1" by (simp add: m2_def)
  have c2: "connecting (claims m) m2 mi" using c1 fc(1) unfolding connecting_def claims_open_def all_permanent_def v2 fc(3) by blast
  have g2: "m_route_helper m2 = m_route_helper m1" "m_local m2 = m_local m" "m_reaper m2 = m_reaper m"
    using m1(3) by (simp_all add: m2_def kept_def)
  have g1: "uint (mh_cache_generation (m_route_helper m2)) + int (size (lengths_of (iroute_items x))) < 2 ^ 32"
    using assms(5) m1(4) items(3) g2(1) by simp
  from learn_all_ok [OF c2 items(2) g1, of nw sc] obtain m3 L2 where m3: "learn_all (iroute_items x) m2 nw sc mi = Some m3"
    "connecting ((claims m)(mi := claims m mi + lengths_of (iroute_items x))) m3 mi" "kept m2 m3"
    "uint (mh_cache_generation (m_route_helper m3)) = uint (mh_cache_generation (m_route_helper m2)) + int (size (lengths_of (iroute_items x)))"
    "L2 \<subseteq> snd ` set (iroute_items x)" "installed m3 = override (installed m2) L2 mi"
    "(\<forall>op b. sc (Some mi) op b) \<and> room m2 mi (length (iroute_items x)) \<longrightarrow>
       {a \<in> snd ` set (iroute_items x). mroute_learnable_address a \<and> a \<noteq> m_local m2} \<subseteq> L2"
    "\<forall>k. room m2 mi (length (iroute_items x) + k) \<longrightarrow> room m3 mi k" by (elim exE conjE) (rule that)
  have sc3: "same_clients (m_heap m2) (m_heap m3)" using m3(3) by (simp add: kept_def)
  have run: "late_setup_routes m nw sc mi = Some m3"
    by (subst late_setup_all [OF assms(2) cl(1)]) (use m1(1) x1 m3(1) in \<open>auto simp: change_instance_def m2_def\<close>)
  have ins3: "installed m3 = override (installed m) (L1 \<union> L2) mi"
    using m3(6) fc(2) m1(6) by (auto simp: override_def fun_eq_iff)
  have op3: "opened m3 = opened m" using opened_same [OF sc3] fc(3) opened_same [OF sc1] by (simp add: fun_eq_iff)
  have heap3: "\<exists>y. (if i = mi then m_heap m i = Some x \<and> y = x\<lparr>mi_did_iroutes := True\<rparr> else m_heap m i = Some y) \<and>
      (\<exists>c d. z = y\<lparr>mi_refcount := c, mi_route_count := d\<rparr>)" if z: "m_heap m3 i = Some z" for i z
  proof -
    obtain y c' d' where y: "m_heap m2 i = Some y" "z = y\<lparr>mi_refcount := c', mi_route_count := d'\<rparr>"
      by (rule same_clients_back [OF sc3 z])
    show ?thesis
    proof (cases "i = mi")
      case True
      then have "y = ?x1\<lparr>mi_did_iroutes := True\<rparr>" using y(1) by (simp add: m2_def)
      then have "z = (x\<lparr>mi_did_iroutes := True\<rparr>)\<lparr>mi_refcount := c', mi_route_count := d'\<rparr>" using y(2) by (cases x) simp
      then show ?thesis using True assms(2) by auto
    next
      case False
      then have "m_heap m1 i = Some y" using y(1) by (simp add: m2_def)
      then obtain w c'' d'' where "m_heap m i = Some w" "y = w\<lparr>mi_refcount := c'', mi_route_count := d''\<rparr>"
        by (rule same_clients_back [OF sc1])
      then show ?thesis using False y(2) by (intro exI [of _ w]) auto
    qed
  qed
  have cl3: "claims m3 = (claims m)(mi := claims m mi + lengths_of (iroute_items x))"
  proof
    fix i
    show "claims m3 i = ((claims m)(mi := claims m mi + lengths_of (iroute_items x))) i"
    proof (cases "m_heap m3 i")
      case None
      then have "\<not> opened m3 i" by (simp add: opened_def)
      then have "\<not> opened m i" using op3 by simp
      moreover have "claims m3 i = {#}" using None by (simp add: claims_def)
      ultimately show ?thesis using op table_claims_open [OF assms(1)] by (auto simp: claims_open_def)
    next
      case (Some z)
      from heap3 [OF Some] show ?thesis using Some none
        by (auto simp: claims_def client_same iroute_items_def split: if_splits)
    qed
  qed
  have "client_inv m3 i z" if z: "m_heap m3 i = Some z" for i z
  proof -
    obtain y c' d' where y: "if i = mi then m_heap m i = Some x \<and> y = x\<lparr>mi_did_iroutes := True\<rparr> else m_heap m i = Some y"
      "z = y\<lparr>mi_refcount := c', mi_route_count := d'\<rparr>" using heap3 [OF z] by blast
    show ?thesis
    proof (cases "i = mi")
      case True
      then show ?thesis using y cl(1) assms(3) by (simp add: client_inv_def client_ok_def)
    next
      case False
      then have "client_inv m i y" using y(1) assms(1) by (simp add: table_inv_def)
      then show ?thesis using y(2) False by (auto simp: client_inv_def client_same ins3 override_def split: if_splits)
    qed
  qed
  then have "table_inv m3" using m3(2,3) rp g2(3) unfolding table_inv_def cl3 by (simp add: connecting_def kept_def)
  moreover have "kept m (m3\<lparr>m_heap := m_heap m\<rparr>)" using m1(3) m3(3) by (simp add: kept_def m2_def)
  moreover have "{a \<in> setup_items x. mroute_learnable_address a \<and> a \<noteq> m_local m} \<subseteq> L1 \<union> L2"
    if "\<forall>op b. sc (Some mi) op b" "int (length (primary_items x @ iroute_items x)) \<le> mi_max_routes_per_client x"
  proof -
    have "room m mi (length (primary_items x) + length (iroute_items x))" using that(2) assms(2) rc by (simp add: room_def)
    then have "room m1 mi (length (iroute_items x))" "room m mi (length (primary_items x))"
      using m1(8) by (auto simp: room_def)
    moreover then have "room m2 mi (length (iroute_items x))" using x1 by (simp add: room_def m2_def)
    ultimately show ?thesis using m1(7) m3(7) that(1) g2(2) by (auto simp: setup_items_def)
  qed
  moreover have "L1 \<union> L2 \<subseteq> setup_items x" using m1(5) m3(5) by (auto simp: setup_items_def)
  moreover have "uint (mh_cache_generation (m_route_helper m3)) =
      uint (mh_cache_generation (m_route_helper m)) + int (size (lengths_of (iroute_items x)))"
    using m3(4) m1(4) items(3) g2(1) by simp
  moreover have "same_clients ((m_heap m)(mi \<mapsto> x\<lparr>mi_did_iroutes := True\<rparr>)) (m_heap m3)"
    unfolding same_clients_def
  proof
    fix i
    show "case m_heap m3 i of
        Some z \<Rightarrow> (\<exists>y a b. ((m_heap m)(mi \<mapsto> x\<lparr>mi_did_iroutes := True\<rparr>)) i = Some y \<and>
          z = y\<lparr>mi_refcount := a, mi_route_count := b\<rparr>)
      | None \<Rightarrow> (\<forall>y. ((m_heap m)(mi \<mapsto> x\<lparr>mi_did_iroutes := True\<rparr>)) i = Some y \<longrightarrow> mi_halt y)"
    proof (cases "m_heap m3 i")
      case None
      then have "\<not> opened m3 i" by (simp add: opened_def)
      then have "\<not> opened m i" unfolding op3 .
      then show ?thesis using None op by (auto simp: opened_def)
    next
      case (Some z)
      obtain y c d where y: "if i = mi then m_heap m i = Some x \<and> y = x\<lparr>mi_did_iroutes := True\<rparr> else m_heap m i = Some y"
        "z = y\<lparr>mi_refcount := c, mi_route_count := d\<rparr>" using heap3 [OF Some] by blast
      then have "((m_heap m)(mi \<mapsto> x\<lparr>mi_did_iroutes := True\<rparr>)) i = Some y" by (auto split: if_splits)
      then show ?thesis unfolding Some option.case using y(2) by blast
    qed
  qed
  ultimately show ?thesis using run ins3 op3 by (intro exI [of _ m3] exI [of _ "L1 \<union> L2"] conjI impI) blast+
qed

text \<open>
  The instance that is closed: marked, its routes no longer counted, one reference less, and freed when that
  was the last one.
\<close>

definition closed_heap :: "multi_context \<Rightarrow> nat \<Rightarrow> multi_instance \<Rightarrow> nat \<rightharpoonup> multi_instance" where
  "closed_heap m mi x = (m_heap m)(mi := if mi_refcount x \<le> 1 then None
     else Some (x\<lparr>mi_halt := True, mi_did_iroutes := False, mi_refcount := mi_refcount x - 1\<rparr>))"

lemma multi_del_iroutes_loop:
  assumes "m_heap m mi = Some x" "client_ok x"
  shows "multi_del_iroutes m mi = del_iroutes_loop (map fst (iroute_items x)) m"
proof -
  have "map fst (iroute_items x) = map ir_netbits (mi_iroutes x) @ map ir6_netbits (mi_iroutes_ipv6 x)"
    by (simp add: iroute_items_def)
  then show ?thesis using assms by (simp add: multi_del_iroutes_def client_ok_def del_loop_append)
qed

lemma close_run:
  assumes "m_heap m mi = Some x" "client_ok x" "\<not> mi_halt x"
  shows "close_instance_routes m mi False =
    (if mi_did_iroutes x then del_iroutes_loop (map fst (iroute_items x)) (m\<lparr>m_heap := closed_heap m mi x\<rparr>)
     else Some (m\<lparr>m_heap := closed_heap m mi x\<rparr>))"
proof -
  let ?x1 = "x\<lparr>mi_halt := True\<rparr>" and ?ns = "map fst (iroute_items x)"
  let ?m1 = "m\<lparr>m_heap := (m_heap m)(mi \<mapsto> ?x1)\<rparr>"
  have c1: "client_ok ?x1" "iroute_items ?x1 = iroute_items x"
    using assms(2) by (simp_all add: client_ok_def iroute_items_def)
  have "m_heap ?m1 mi = Some ?x1" by simp
  from multi_del_iroutes_loop [OF this c1(1)]
  have del: "multi_del_iroutes ?m1 mi = map_option (\<lambda>m'. m'\<lparr>m_heap := m_heap ?m1\<rparr>) (del_iroutes_loop ?ns m)"
    unfolding c1(2) del_loop_heap by simp
  have ch: "change_instance m mi (\<lambda>i. i\<lparr>mi_halt := True\<rparr>) = Some ?m1" using assms(1) by (simp add: change_instance_def)
  show ?thesis
  proof (cases "mi_did_iroutes x")
    case True
    have dec: "change_instance (m'\<lparr>m_heap := m_heap ?m1\<rparr>) mi (\<lambda>i. i\<lparr>mi_did_iroutes := False\<rparr>) \<bind> (\<lambda>m. multi_instance_dec_refcount m mi) =
        Some (m'\<lparr>m_heap := closed_heap m mi x\<rparr>)" for m'
      by (simp add: change_instance_def multi_instance_dec_refcount_def Let_def closed_heap_def)
    have "close_instance_routes m mi False = multi_del_iroutes ?m1 mi \<bind>
        (\<lambda>m. change_instance m mi (\<lambda>i. i\<lparr>mi_did_iroutes := False\<rparr>) \<bind> (\<lambda>m. multi_instance_dec_refcount m mi))"
      using assms(1,3) True by (simp add: close_instance_routes_def ch del: fun_upd_apply)
    also have "\<dots> = map_option (\<lambda>m'. m'\<lparr>m_heap := closed_heap m mi x\<rparr>) (del_iroutes_loop ?ns m)"
      unfolding del using dec by (cases "del_iroutes_loop ?ns m") simp_all
    finally show ?thesis using True by (simp add: del_loop_heap)
  next
    case False
    have e: "x\<lparr>mi_halt := True, mi_refcount := k\<rparr> = x\<lparr>mi_halt := True, mi_did_iroutes := False, mi_refcount := k\<rparr>" for k
      using False by (cases x) simp
    show ?thesis using assms(1,3) False
      by (simp add: close_instance_routes_def ch multi_instance_dec_refcount_def Let_def closed_heap_def e)
  qed
qed

lemma close_ok:
  assumes "table_inv m" "m_heap m mi = Some x" "\<not> mi_halt x"
    "uint (mh_cache_generation (m_route_helper m)) + int (size (claims m mi)) < 2 ^ 32"
  shows "\<exists>m'. close_instance_routes m mi False = Some m' \<and> table_inv m' \<and>
    installed m' = without (installed m) {mi} \<and> only_helper (m\<lparr>m_heap := closed_heap m mi x\<rparr>) m' \<and>
    claims m' = (claims m)(mi := {#}) \<and> uint (mh_cache_generation (m_route_helper m')) =
      uint (mh_cache_generation (m_route_helper m)) + int (size (claims m mi))"
proof -
  have ri: "route_inv (claims m) m" and ci: "client_inv m mi x" and rp: "0 \<le> bucket_base (m_reaper m)" "0 \<le> buckets_per_pass (m_reaper m)"
    using assms(1,2) by (auto simp: table_inv_def)
  have cl: "client_ok x" using ci by (simp add: client_inv_def)
  let ?m1 = "m\<lparr>m_heap := closed_heap m mi x\<rparr>" and ?C = "(claims m)(mi := {#})"
  have cts: "counts_ok (routes m) (m_heap m)" using ri by (simp add: route_inv_def state_ok_def)
  note d = counts_okD [OF cts assms(2)]
  have fin: "finite (dom (routes m))" using cts by (simp add: counts_ok_def)
  have "counts_ok (routes m) (closed_heap m mi x)" unfolding closed_heap_def
    by (rule counts_heap [OF cts assms(2)]) (use d assms(3) owned_in_finite [OF fin, of mi] in auto)
  moreover have op1: "opened ?m1 i \<longleftrightarrow> opened m i \<and> i \<notin> {mi}" for i by (auto simp: opened_def closed_heap_def)
  ultimately have r1: "route_inv (claims m) ?m1" "installed ?m1 = without (installed m) {mi}"
    using heap_change [OF ri, where h = "closed_heap m mi x" and G = "{mi}"] by blast+
  obtain m' where m': "close_instance_routes m mi False = Some m'" "route_inv ?C m'" "only_helper ?m1 m'"
    "uint (mh_cache_generation (m_route_helper m')) = uint (mh_cache_generation (m_route_helper m)) + int (size (claims m mi))"
  proof (cases "mi_did_iroutes x")
    case False
    have "claims m mi = {#}" using assms(2) False by (simp add: claims_def)
    then have "?C = claims m" by (simp add: fun_upd_idem)
    moreover have "only_helper ?m1 ?m1" unfolding only_helper_def by (intro exI [of _ "m_route_helper m"]) simp
    ultimately show ?thesis using that [of ?m1] r1(1) close_run [OF assms(2) cl assms(3)] False \<open>claims m mi = {#}\<close> by simp
  next
    case True
    let ?ns = "map fst (iroute_items x)"
    have lo: "mset (filter (\<lambda>n. 0 \<le> n) ?ns) = claims m mi" using assms(2) True by (simp add: claims_def lengths_of_def)
    have b: "\<forall>n \<in> set ?ns. n < 129" using client_items_ok(2) [OF cl] by (auto simp: item_ok_def)
    have g: "uint (mh_cache_generation (m_route_helper ?m1)) + int (length (filter (\<lambda>n. 0 \<le> n) ?ns)) < 2 ^ 32"
      using assms(4) unfolding lo [symmetric] size_mset by simp
    have no: "\<not> opened ?m1 mi" using op1 by simp
    have sub: "mset (filter (\<lambda>n. 0 \<le> n) ?ns) \<subseteq># claims m mi" using lo by simp
    from del_loop_inv [OF r1(1) no b sub g] obtain m' where "del_iroutes_loop ?ns ?m1 = Some m'"
      "route_inv ((claims m)(mi := claims m mi - mset (filter (\<lambda>n. 0 \<le> n) ?ns))) m'" "only_helper ?m1 m'"
      "uint (mh_cache_generation (m_route_helper m')) =
        uint (mh_cache_generation (m_route_helper ?m1)) + int (length (filter (\<lambda>n. 0 \<le> n) ?ns))" by blast
    moreover have "length (filter (\<lambda>n. 0 \<le> n) ?ns) = size (claims m mi)" unfolding lo [symmetric] by (rule size_mset [symmetric])
    ultimately show ?thesis using that close_run [OF assms(2) cl assms(3)] True lo by simp
  qed
  note oh = only_helperD [OF m'(3)]
  have cm: "claims m' = ?C" unfolding claims_def oh(2) by (rule ext) (simp add: closed_heap_def)
  have ins: "installed m' = without (installed m) {mi}" using oh(7) r1(2) by simp
  have "client_inv m' i z" if z: "m_heap m' i = Some z" for i z
  proof (cases "i = mi")
    case True
    then have "z = x\<lparr>mi_halt := True, mi_did_iroutes := False, mi_refcount := mi_refcount x - 1\<rparr>"
      using z oh(2) by (auto simp: closed_heap_def split: if_splits)
    then show ?thesis using cl by (simp add: client_inv_def client_ok_def)
  next
    case False
    then have "m_heap m i = Some z" using z oh(2) by (simp add: closed_heap_def)
    then have "client_inv m i z" using assms(1) by (simp add: table_inv_def)
    then show ?thesis using ins by (auto simp: client_inv_def without_def split: option.splits)
  qed
  then have "table_inv m'" using m'(2) rp oh(4) unfolding table_inv_def cm by simp
  then show ?thesis using m' ins cm by blast
qed

text \<open>A client whose routes are not set up yet is in no route: its instance, or one at a new address, may change.\<close>

definition in_routes :: "multi_context \<Rightarrow> nat \<Rightarrow> bool" where
  "in_routes m mi \<longleftrightarrow> (\<exists>a r. routes m a = Some r \<and> mr_instance r = mi)"

lemma idle_no_routes:
  assumes "table_inv m" "m_heap m mi = Some x" "\<not> mi_halt x" "\<not> mi_did_iroutes x"
  shows "\<not> in_routes m mi" "claims m mi = {#}" "mi_route_count x = 0" "mi_refcount x = 1"
proof -
  have ri: "route_inv (claims m) m" and ci: "client_inv m mi x" using assms(1,2) by (auto simp: table_inv_def)
  have op: "opened m mi" using assms(2,3) by (auto simp: opened_def)
  show none: "claims m mi = {#}" using assms(2,4) by (simp add: claims_def)
  have "False" if r: "routes m a = Some r" "mr_instance r = mi" for a r
  proof -
    have "route_ok (claims m) m a r" using ri r(1) unfolding route_inv_def by blast
    then have "mr_flags r = 0" using r(2) op none by (auto simp: route_ok_def)
    then have "installed m a = Some mi" using r op by (simp add: installed_def)
    then show False using ci assms(3,4) by (auto simp: client_inv_def)
  qed
  then show "\<not> in_routes m mi" by (auto simp: in_routes_def)
  then have "owned_in (routes m) mi = {}" by (auto simp: in_routes_def owned_in_def)
  moreover have "counts_ok (routes m) (m_heap m)" using ri by (simp add: route_inv_def state_ok_def)
  ultimately show "mi_route_count x = 0" "mi_refcount x = 1" using counts_okD(1,2) [of _ _ mi x] assms(2,3) by auto
qed

lemma heap_outside:
  assumes "route_inv C m" "counts_ok (routes m) ((m_heap m)(mi \<mapsto> y))" "\<not> in_routes m mi"
  shows "route_inv C (m\<lparr>m_heap := (m_heap m)(mi \<mapsto> y)\<rparr>)"
    "installed (m\<lparr>m_heap := (m_heap m)(mi \<mapsto> y)\<rparr>) = installed m"
proof -
  let ?m = "m\<lparr>m_heap := (m_heap m)(mi \<mapsto> y)\<rparr>"
  have hm: "m_route_helper ?m = m_route_helper m" "m_vhash ?m = m_vhash m" by simp_all
  have o: "opened ?m (mr_instance r) = opened m (mr_instance r)" if "routes m a = Some r" for a r
    using assms(3) that by (auto simp: opened_def in_routes_def)
  show i: "installed ?m = installed m" by (rule ext) (auto simp: installed_def o split: option.splits)
  have "route_ok C ?m a r" if "routes m a = Some r" for a r
  proof -
    have "route_ok C m a r" using assms(1) that unfolding route_inv_def by blast
    then show ?thesis unfolding route_ok_def hm(1) o [OF that] i .
  qed
  then show "route_inv C ?m" using assms(1,2) unfolding route_inv_def state_ok_def hm by simp
qed

lemma idle_update:
  assumes "table_inv m" "counts_ok (routes m) ((m_heap m)(mi \<mapsto> y))" "\<not> in_routes m mi" "claims m mi = {#}"
    "client_ok y" "\<not> mi_did_iroutes y"
  shows "table_inv (m\<lparr>m_heap := (m_heap m)(mi \<mapsto> y)\<rparr>)"
    "installed (m\<lparr>m_heap := (m_heap m)(mi \<mapsto> y)\<rparr>) = installed m"
proof -
  let ?m = "m\<lparr>m_heap := (m_heap m)(mi \<mapsto> y)\<rparr>"
  have ri: "route_inv (claims m) m" using assms(1) by (simp add: table_inv_def)
  note h = heap_outside [OF ri assms(2,3)]
  show ins: "installed ?m = installed m" by (rule h(2))
  have cm: "claims ?m = claims m" using assms(4,6) by (auto simp: claims_def fun_eq_iff)
  have "installed m a \<noteq> Some mi" for a using assms(3) by (auto simp: installed_def in_routes_def split: option.splits)
  then have "client_inv ?m i z" if "m_heap ?m i = Some z" for i z
    using that assms(1,5,6) unfolding client_inv_def ins by (cases "i = mi") (auto simp: table_inv_def client_inv_def)
  then show "table_inv ?m" using h(1) assms(1) unfolding table_inv_def cm by simp
qed

lemma create_ok:
  assumes "table_inv m" "m_heap m mi = None" "client_ok opts"
  shows "\<exists>m'. create_instance m mi opts = Some m' \<and> table_inv m' \<and> installed m' = installed m \<and>
    m' = m\<lparr>m_heap := (m_heap m)(mi \<mapsto> opts\<lparr>mi_halt := False, mi_refcount := 1, mi_route_count := 0, mi_did_iroutes := False\<rparr>)\<rparr>"
proof -
  let ?y = "opts\<lparr>mi_halt := False, mi_refcount := 1, mi_route_count := 0, mi_did_iroutes := False\<rparr>"
  have "route_inv (claims m) m" using assms(1) by (simp add: table_inv_def)
  then have cts: "counts_ok (routes m) (m_heap m)" by (simp add: route_inv_def state_ok_def)
  then have "m_heap m (mr_instance r) \<noteq> None" if "routes m a = Some r" for a r
    using that unfolding counts_ok_def by blast
  then have no: "\<not> in_routes m mi" using assms(2) unfolding in_routes_def by blast
  then have e: "owned_in (routes m) mi = {}" by (auto simp: in_routes_def owned_in_def)
  have "counts_ok (routes m) ((m_heap m)(mi \<mapsto> ?y))" using cts e by (fastforce simp: counts_ok_def)
  moreover have "claims m mi = {#}" using assms(2) by (simp add: claims_def)
  moreover have "client_ok ?y" using assms(3) by (simp add: client_ok_def)
  ultimately have "table_inv (m\<lparr>m_heap := (m_heap m)(mi \<mapsto> ?y)\<rparr>)" "installed (m\<lparr>m_heap := (m_heap m)(mi \<mapsto> ?y)\<rparr>) = installed m"
    using idle_update [OF assms(1) _ no] by simp_all
  moreover have "create_instance m mi opts = Some (m\<lparr>m_heap := (m_heap m)(mi \<mapsto> ?y)\<rparr>)"
  proof -
    have e: "opts\<lparr>mi_halt := False, mi_route_count := 0, mi_did_iroutes := False, mi_refcount := 1\<rparr> = ?y" by (cases opts) simp
    show ?thesis using assms(2) by (simp add: e create_instance_def multi_instance_inc_refcount_def change_instance_def)
  qed
  ultimately show ?thesis by blast
qed

lemma options_ok:
  assumes "table_inv m" "m_heap m mi = Some x" "\<not> mi_halt x" "\<not> mi_did_iroutes x" "client_ok opts"
  shows "\<exists>m'. change_instance m mi (client_options opts) = Some m' \<and> table_inv m' \<and> installed m' = installed m \<and>
    m' = m\<lparr>m_heap := (m_heap m)(mi \<mapsto> client_options opts x)\<rparr>"
proof -
  note no = idle_no_routes [OF assms(1-4)]
  have "route_inv (claims m) m" using assms(1) by (simp add: table_inv_def)
  then have cts: "counts_ok (routes m) (m_heap m)" by (simp add: route_inv_def state_ok_def)
  have "counts_ok (routes m) ((m_heap m)(mi \<mapsto> client_options opts x))"
    by (rule counts_heap [OF cts assms(2)]) (use assms(3) no in \<open>simp add: client_options_def\<close>)
  moreover have "client_ok (client_options opts x)" using assms(5) by (simp add: client_options_def client_ok_def)
  ultimately show ?thesis using idle_update [OF assms(1) _ no(1,2)] assms(2,4)
    by (simp add: change_instance_def client_options_def)
qed

section \<open>Deleting routes while the table is walked\<close>

definition dropped :: "(mroute_addr \<rightharpoonup> multi_route) \<Rightarrow> (mroute_addr \<Rightarrow> multi_route \<Rightarrow> bool) \<Rightarrow> mroute_addr \<rightharpoonup> multi_route" where
  "dropped t D a = (case t a of None \<Rightarrow> None | Some r \<Rightarrow> if D a r then None else Some r)"

text \<open>A body of a loop that deletes the routes of \<open>P\<close>, for the instances of \<open>m\<close> with any counts.\<close>

definition deletes :: "(multi_route \<Rightarrow> multi_context \<Rightarrow> (bool \<times> multi_context) option) \<Rightarrow> (multi_route \<Rightarrow> bool) \<Rightarrow>
    multi_context \<Rightarrow> multi_route set \<Rightarrow> bool" where
  "deletes f P m R \<longleftrightarrow> (\<forall>h. \<forall>r \<in> R. same_clients (m_heap m) h \<and> h (mr_instance r) \<noteq> None \<longrightarrow>
     f r (m\<lparr>m_heap := h\<rparr>) =
       (if P r then map_option (Pair True) (multi_route_del (m\<lparr>m_heap := h\<rparr>) r) else Some (False, m\<lparr>m_heap := h\<rparr>)))"

lemma visits_delete:
  assumes "counts_ok t h" "same_clients (m_heap m) h" "distinct rs" "\<forall>r \<in> set rs. t (mr_addr r) = Some r"
    "deletes f P m (set rs)"
  shows "\<exists>h'. visits f P rs (m\<lparr>m_heap := h\<rparr>) = Some (m\<lparr>m_heap := h'\<rparr>) \<and> same_clients (m_heap m) h' \<and>
    counts_ok (dropped t (\<lambda>_ r. r \<in> set rs \<and> P r)) h'"
  using assms
proof (induction rs arbitrary: t h)
  case Nil
  have "dropped t (\<lambda>_ r. r \<in> set [] \<and> P r) = t" by (rule ext) (simp add: dropped_def split: option.splits)
  then show ?case using Nil.prems by (intro exI [of _ h]) simp
next
  case (Cons r rs)
  have tr: "t (mr_addr r) = Some r" using Cons.prems(4) by simp
  then obtain x where x: "h (mr_instance r) = Some x" using Cons.prems(1) unfolding counts_ok_def by blast
  then have body: "f r (m\<lparr>m_heap := h\<rparr>) =
      (if P r then map_option (Pair True) (multi_route_del (m\<lparr>m_heap := h\<rparr>) r) else Some (False, m\<lparr>m_heap := h\<rparr>))"
    using Cons.prems(2,5) by (simp add: deletes_def)
  have d: "deletes f P m (set rs)" using Cons.prems(5) by (simp add: deletes_def)
  show ?case
  proof (cases "P r")
    case False
    have e: "dropped t (\<lambda>_ q. q \<in> set (r # rs) \<and> P q) = dropped t (\<lambda>_ q. q \<in> set rs \<and> P q)"
      using False by (auto simp: dropped_def fun_eq_iff split: option.splits)
    obtain h' where "visits f P rs (m\<lparr>m_heap := h\<rparr>) = Some (m\<lparr>m_heap := h'\<rparr>)" "same_clients (m_heap m) h'"
      "counts_ok (dropped t (\<lambda>_ q. q \<in> set rs \<and> P q)) h'"
      using Cons.IH [OF Cons.prems(1,2) _ _ d] Cons.prems(3,4) by auto
    then show ?thesis unfolding e using body False by (intro exI [of _ h']) simp
  next
    case True
    define h1 where "h1 = h(mr_instance r := if mi_refcount x \<le> 1 then None
      else Some (x\<lparr>mi_refcount := mi_refcount x - 1, mi_route_count := mi_route_count x - 1\<rparr>))"
    have "m_heap (m\<lparr>m_heap := h\<rparr>) (mr_instance r) = Some x" using x by simp
    from route_del_eval [OF this] have del: "multi_route_del (m\<lparr>m_heap := h\<rparr>) r = Some (m\<lparr>m_heap := h1\<rparr>)"
      by (simp add: h1_def)
    note rem = counts_remove [OF Cons.prems(1) tr x, folded h1_def]
    have "same_clients h h1"
      using same_clients_count [where h = h, OF x] same_clients_free [where h = h, OF x] rem(2) by (simp add: h1_def)
    then have s1: "same_clients (m_heap m) h1" using Cons.prems(2) same_clients_trans by blast
    have t1: "(t(mr_addr r := None)) (mr_addr q) = Some q" if "q \<in> set rs" for q
    proof -
      have "t (mr_addr q) = Some q" "q \<noteq> r" using Cons.prems(3,4) that by auto
      then have "mr_addr q \<noteq> mr_addr r" using tr by auto
      then show ?thesis using \<open>t (mr_addr q) = Some q\<close> by simp
    qed
    obtain h' where h': "visits f P rs (m\<lparr>m_heap := h1\<rparr>) = Some (m\<lparr>m_heap := h'\<rparr>)" "same_clients (m_heap m) h'"
      "counts_ok (dropped (t(mr_addr r := None)) (\<lambda>_ q. q \<in> set rs \<and> P q)) h'"
    proof -
      have "distinct rs" "\<forall>q \<in> set rs. (t(mr_addr r := None)) (mr_addr q) = Some q" using Cons.prems(3) t1 by auto
      from Cons.IH [OF rem(1) s1 this d] show thesis using that by blast
    qed
    have e: "dropped t (\<lambda>_ q. q \<in> set (r # rs) \<and> P q) = dropped (t(mr_addr r := None)) (\<lambda>_ q. q \<in> set rs \<and> P q)"
    proof
      fix a
      have "q = r \<longleftrightarrow> a = mr_addr r" if "t a = Some q" for q
      proof -
        have "mr_addr q = a" using that Cons.prems(1) unfolding counts_ok_def by blast
        then show ?thesis using tr that by (metis option.inject)
      qed
      then show "dropped t (\<lambda>_ q. q \<in> set (r # rs) \<and> P q) a = dropped (t(mr_addr r := None)) (\<lambda>_ q. q \<in> set rs \<and> P q) a"
        using True by (cases "t a") (auto simp: dropped_def)
    qed
    show ?thesis unfolding e using h' body True del by (intro exI [of _ h']) simp
  qed
qed

lemma iterate_delete:
  assumes "state_ok m" "0 \<le> s" "s \<le> n_buckets (m_vhash m)" "s \<le> e" "deletes f P m (ran (routes m))"
  shows "\<exists>hi vh m' D. hash_iterator_init_range (m_vhash m) s e = Some hi \<and> hash_iterate f (m_vhash m) hi m = Some (vh, m') \<and>
    state_ok (m'\<lparr>m_vhash := vh\<rparr>) \<and> only_routes m (m'\<lparr>m_vhash := vh\<rparr>) \<and> table_map vh = dropped (routes m) D \<and>
    (\<forall>a r. D a r \<longrightarrow> P r) \<and> (s = 0 \<and> n_buckets (m_vhash m) \<le> e \<longrightarrow> D = (\<lambda>_. P))"
proof -
  let ?h = "m_vhash m"
  have ok: "table_ok ?h" "hash_ok ?h" "counts_ok (routes m) (m_heap m)" using assms(1) by (auto simp: state_ok_def table_ok_def)
  have nb: "n_buckets ?h = int (length (buckets ?h))" "n_elements ?h = (\<Sum>b \<leftarrow> buckets ?h. int (length b))"
    using ok(2) by (auto simp: hash_ok_def)
  define s' e' where "s' = nat s" and "e' = nat (min e (n_buckets ?h))"
  have se: "s' \<le> e'" "e' \<le> length (buckets ?h)" using assms(2-4) nb(1) by (auto simp: s'_def e'_def)
  have hi: "hash_iterator_init_range ?h s e = Some (at_clean s' e' s')"
    using assms(2-4) by (auto simp: hash_iterator_init_range_def at_clean_def s'_def e'_def Let_def)
  let ?vs = "iter_values ?h s' e'"
  have key: "table_map ?h k = Some v \<Longrightarrow> mr_addr v = k" for k v using ok(3) by (auto simp: counts_ok_def)
  have di: "distinct ?vs" by (rule iter_values_distinct [OF ok(1) se(2) key])
  have set: "v \<in> set ?vs \<longleftrightarrow> (\<exists>k. table_map ?h k = Some v \<and> s' \<le> home ?h k \<and> home ?h k < e')" for v
    by (rule iter_values_set [OF ok(1) se(2)])
  have in_t: "\<forall>r \<in> set ?vs. routes m (mr_addr r) = Some r" using set key by blast
  then have "deletes f P m (set ?vs)" using assms(5) unfolding deletes_def ran_def by blast
  from visits_delete [OF ok(3) same_clients_refl di in_t this] obtain h' where
    h': "visits f P ?vs m = Some (m\<lparr>m_heap := h'\<rparr>)" "same_clients (m_heap m) h'"
      "counts_ok (dropped (routes m) (\<lambda>_ r. r \<in> set ?vs \<and> P r)) h'" by auto
  let ?vh = "swept P ?h s' e'"
  have run: "hash_iterate f ?h (at_clean s' e' s') m = Some (?vh, m\<lparr>m_heap := h'\<rparr>)"
    using loop_clean [OF keyed_ok [OF ok(2)] order_refl se h'(1)] swept_same [OF nb(2), of P s'] by simp
  define D where "D = (\<lambda>a r. s' \<le> home ?h a \<and> home ?h a < e' \<and> P r)"
  have tm: "table_map ?vh = dropped (routes m) D"
    by (rule ext) (auto simp: swept_ok(2) [OF ok(2)] dropped_def D_def split: option.splits)
  have "dropped (routes m) (\<lambda>_ r. r \<in> set ?vs \<and> P r) = dropped (routes m) D"
  proof
    fix a
    have "r \<in> set ?vs \<longleftrightarrow> s' \<le> home ?h a \<and> home ?h a < e'" if "routes m a = Some r" for r
      using that key unfolding set by (metis)
    then show "dropped (routes m) (\<lambda>_ r. r \<in> set ?vs \<and> P r) a = dropped (routes m) D a"
      by (cases "routes m a") (auto simp: dropped_def D_def)
  qed
  then have c: "counts_ok (table_map ?vh) h'" using h'(3) tm by simp
  have "table_ok ?vh" "n_buckets ?vh = n_buckets ?h"
    using ok(1) swept_ok(1) [OF ok(2), of P s' e'] by (auto simp: table_ok_def swept_def Let_def)
  then have st: "state_ok (m\<lparr>m_heap := h', m_vhash := ?vh\<rparr>)" "only_routes m (m\<lparr>m_heap := h', m_vhash := ?vh\<rparr>)"
    using c h'(2) by (simp_all add: state_ok_def only_routes_def)
  have full: "D = (\<lambda>_. P) \<or> \<not> (s = 0 \<and> n_buckets ?h \<le> e)"
    using hash_ok_bucket(1) [OF ok(2)] nb(1) by (auto simp: D_def fun_eq_iff s'_def e'_def min_def)
  show ?thesis
    by (intro exI [of _ "at_clean s' e' s'"] exI [of _ ?vh] exI [of _ "m\<lparr>m_heap := h'\<rparr>"] exI [of _ D] conjI)
      (use hi run st tm full in \<open>auto simp: D_def\<close>)
qed

text \<open>The reaper deletes routes that are not in force, and nothing else.\<close>

lemma route_inv_dropped:
  assumes "route_inv C m" "state_ok m'" "only_routes m m'" "routes m' = dropped (routes m) D"
    "\<And>a r. routes m a = Some r \<Longrightarrow> D a r \<Longrightarrow> mr_flags r \<noteq> 0 \<or> \<not> opened m (mr_instance r)"
  shows "route_inv C m'" "installed m' = installed m"
proof -
  have h: "m_route_helper m' = m_route_helper m" and sc: "same_clients (m_heap m) (m_heap m')"
    using assms(3) by (auto simp: only_routes_def)
  have op: "opened m' = opened m" by (intro ext opened_same [OF sc])
  show i: "installed m' = installed m"
    by (rule ext) (use assms(5) in \<open>auto simp: installed_def op assms(4) dropped_def split: option.splits\<close>)
  have "route_ok C m' b q" if "routes m' b = Some q" for b q
  proof -
    have "routes m b = Some q" using that unfolding assms(4) dropped_def by (auto split: option.splits if_splits)
    then have "route_ok C m b q" using assms(1) unfolding route_inv_def by blast
    then show ?thesis unfolding route_ok_def h op i .
  qed
  then show "route_inv C m'" using assms(1,2) unfolding route_inv_def h by blast
qed

definition undefined_at :: "multi_context \<Rightarrow> int \<Rightarrow> multi_route \<Rightarrow> bool" where
  "undefined_at m nw r \<longleftrightarrow> multi_route_defined m nw r = Some False"

lemma defined_same:
  assumes "same_clients (m_heap m) h" "h (mr_instance r) \<noteq> None"
  shows "multi_route_defined (m\<lparr>m_heap := h\<rparr>) nw r = multi_route_defined m nw r" "multi_route_defined m nw r \<noteq> None"
proof -
  obtain x' where x': "h (mr_instance r) = Some x'" using assms(2) by blast
  obtain x c d where "m_heap m (mr_instance r) = Some x" "x' = x\<lparr>mi_refcount := c, mi_route_count := d\<rparr>"
    by (rule same_clients_back [OF assms(1) x'])
  then show "multi_route_defined (m\<lparr>m_heap := h\<rparr>) nw r = multi_route_defined m nw r" "multi_route_defined m nw r \<noteq> None"
    using x' by (simp_all add: multi_route_defined_def)
qed

lemma reap_deletes: "deletes (reap_body nw) (undefined_at m nw) m R"
  unfolding deletes_def
proof (intro allI ballI impI)
  fix h and r :: multi_route
  assume "same_clients (m_heap m) h \<and> h (mr_instance r) \<noteq> None"
  then have d: "multi_route_defined (m\<lparr>m_heap := h\<rparr>) nw r = multi_route_defined m nw r" "multi_route_defined m nw r \<noteq> None"
    using defined_same by blast+
  then obtain b where "multi_route_defined m nw r = Some b" by blast
  then show "reap_body nw r (m\<lparr>m_heap := h\<rparr>) =
      (if undefined_at m nw r then map_option (Pair True) (multi_route_del (m\<lparr>m_heap := h\<rparr>) r)
       else Some (False, m\<lparr>m_heap := h\<rparr>))"
    using d(1) by (cases "multi_route_del (m\<lparr>m_heap := h\<rparr>) r") (simp_all add: reap_body_def undefined_at_def)
qed

lemma reap_range_ok:
  assumes "table_inv m" "0 \<le> s \<and> s \<le> n_buckets (m_vhash m) \<and> s \<le> e \<or> s < 0"
  shows "\<exists>m' D. multi_reap_range m nw s e = Some m' \<and> table_inv m' \<and> installed m' = installed m \<and> only_routes m m' \<and>
    routes m' = dropped (routes m) D \<and> (\<forall>a r. D a r \<longrightarrow> undefined_at m nw r) \<and>
    (s < 0 \<longrightarrow> D = (\<lambda>_. undefined_at m nw))"
proof -
  have ri: "route_inv (claims m) m" and rp: "0 \<le> bucket_base (m_reaper m)" "0 \<le> buckets_per_pass (m_reaper m)"
    using assms(1) by (auto simp: table_inv_def)
  have st: "state_ok m" using ri by (simp add: route_inv_def)
  then have "hash_ok (m_vhash m)" by (simp add: state_ok_def table_ok_def)
  then have n: "0 \<le> n_buckets (m_vhash m)" by (auto simp: hash_ok_def)
  let ?s = "if s < 0 then 0 else s" and ?e = "if s < 0 then n_buckets (m_vhash m) else e"
  have rng: "0 \<le> ?s" "?s \<le> n_buckets (m_vhash m)" "?s \<le> ?e" using assms(2) n by auto
  from iterate_delete [OF st rng reap_deletes [of nw m]] obtain hi vh m1 D where r:
    "hash_iterator_init_range (m_vhash m) ?s ?e = Some hi" "hash_iterate (reap_body nw) (m_vhash m) hi m = Some (vh, m1)"
    "state_ok (m1\<lparr>m_vhash := vh\<rparr>)" "only_routes m (m1\<lparr>m_vhash := vh\<rparr>)" "table_map vh = dropped (routes m) D"
    "\<forall>a r. D a r \<longrightarrow> undefined_at m nw r" "?s = 0 \<and> n_buckets (m_vhash m) \<le> ?e \<longrightarrow> D = (\<lambda>_. undefined_at m nw)"
    by (elim exE conjE) (rule that)
  let ?m = "m1\<lparr>m_vhash := vh\<rparr>"
  have rm: "routes ?m = dropped (routes m) D" using r(5) by simp
  have "mr_flags q \<noteq> 0 \<or> \<not> opened m (mr_instance q)" if "routes m a = Some q" "D a q" for a q
    using r(6) defined_permanent [OF st that(1), of nw] that(2) unfolding undefined_at_def by fastforce
  note rd = route_inv_dropped [OF ri r(3,4) rm this]
  have "table_inv ?m"
    by (rule table_inv_kept [OF assms(1) rd(1) _ rd(2)]) (use r(4) rp in \<open>simp_all add: only_routes_def\<close>)
  moreover have "multi_reap_range m nw s e = Some ?m"
    using r(1,2) by (cases "s < 0") (simp_all add: multi_reap_range_def)
  ultimately show ?thesis using rd(2) r(4,6,7) rm
    by (intro exI [of _ ?m] exI [of _ D] conjI impI) auto
qed

lemma reap_process_ok:
  assumes "table_inv m"
  shows "\<exists>m'. multi_reap_process m nw = Some m' \<and> table_inv m' \<and> installed m' = installed m \<and>
    only_routes m (m'\<lparr>m_reaper := m_reaper m\<rparr>)"
proof (cases "last_call (m_reaper m) = nw")
  case True
  have "only_routes m (m\<lparr>m_reaper := m_reaper m\<rparr>)" by (simp add: only_routes_def)
  then show ?thesis using assms True by (simp add: multi_reap_process_def)
next
  case False
  let ?n = "n_buckets (m_vhash m)" and ?mr = "m_reaper m"
  have rp: "0 \<le> bucket_base ?mr" "0 \<le> buckets_per_pass ?mr" using assms by (auto simp: table_inv_def)
  have "hash_ok (m_vhash m)" using assms by (simp add: table_inv_def route_inv_def state_ok_def table_ok_def)
  then have n: "0 \<le> ?n" by (auto simp: hash_ok_def)
  define b where "b = (if bucket_base ?mr \<ge> ?n then 0 else bucket_base ?mr)"
  have "0 \<le> b \<and> b \<le> ?n \<and> b \<le> b + buckets_per_pass ?mr \<or> b < 0" using rp n by (auto simp: b_def)
  from reap_range_ok [OF assms this, of nw] obtain m1 where m1: "multi_reap_range m nw b (b + buckets_per_pass ?mr) = Some m1"
    "table_inv m1" "installed m1 = installed m" "only_routes m m1" by blast
  let ?m = "m1\<lparr>m_reaper := \<lparr>bucket_base = b + buckets_per_pass ?mr, buckets_per_pass = buckets_per_pass ?mr, last_call = nw\<rparr>\<rparr>"
  have "(if bucket_base ?mr \<ge> ?n then ?mr\<lparr>bucket_base := 0\<rparr> else ?mr) = ?mr\<lparr>bucket_base := b\<rparr>" by (simp add: b_def)
  then have run: "multi_reap_process m nw = Some ?m"
    using False m1(1) by (simp add: multi_reap_process_def multi_reap_process_dowork_def Let_def)
  have c: "claims ?m = claims m1" by (simp add: claims_def fun_eq_iff)
  have op: "opened ?m = opened m1" by (intro ext) (simp add: opened_def)
  have ins: "installed ?m = installed m1" unfolding installed_def op by (rule ext) simp
  have ro: "route_ok C ?m = route_ok C m1" for C by (intro ext) (simp add: route_ok_def op ins)
  have "table_inv ?m" using m1(2) rp unfolding table_inv_def c route_inv_def ro client_inv_def ins
    by (simp add: state_ok_def b_def)
  moreover have "only_routes m (?m\<lparr>m_reaper := ?mr\<rparr>)" using m1(4) by (simp add: only_routes_def)
  ultimately show ?thesis using run ins m1(3) by (intro exI [of _ ?m]) simp
qed

end
