(* ===== verification/Route_Server.thy ===== *)
theory Route_Server
  imports Route_Match
begin

text \<open>
  The server as its clients and packets drive the routing table: the routing of packets in
  \<^verbatim>\<open>multi_process_incoming_link\<close> and \<^verbatim>\<open>multi_process_incoming_tun\<close> for \<^verbatim>\<open>tun\<close> devices, the state after
  \<^verbatim>\<open>multi_init\<close>, and the states that are reached by any interleaving of clients that connect and close,
  packets, and passes of the reaper, with any clock. In all of them packets go to the client with the longest matching
  prefix, a client can send only from its own addresses, and no assertion fails and no freed instance is used.
\<close>

section \<open>Initial state\<close>

text \<open>
  \<open>local\<close> is the address of the interface, \<open>iv\<close> the random value for the hash table. No instance exists.
\<close>

definition multi_init_routes :: "int \<Rightarrow> int \<Rightarrow> u32 \<Rightarrow> u32 \<Rightarrow> int \<Rightarrow> multi_context option" where
  "multi_init_routes nw virtual_hash_size iv local stale_routes_ageing_time =
     do { vhash \<leftarrow> hash_init virtual_hash_size iv mroute_addr_hash_function mroute_addr_compare_function;
          Some \<lparr>m_vhash = vhash,
                m_route_helper = mroute_helper_init MULTI_CACHE_ROUTE_TTL,
                m_reaper = multi_reap_new nw (reap_buckets_per_pass virtual_hash_size),
                m_local = mroute_extract_in_addr_t mroute_addr_init local,
                m_stale_routes_ageing_time = stale_routes_ageing_time,
                m_heap = Map.empty\<rparr> }"

section \<open>Packets\<close>

text \<open>
  What becomes of a packet from a client: whether it stays in the buffer for the interface, whether it goes
  to all other clients, and the client it goes to.
\<close>

record verdict =
  v_to_tun :: bool
  v_bcast :: bool
  v_unicast :: "nat option"

definition dropped_packet :: verdict where
  "dropped_packet = \<lparr>v_to_tun = False, v_bcast = False, v_unicast = None\<rparr>"

text \<open>
  The branch of \<^verbatim>\<open>multi_process_incoming_link\<close> for \<^verbatim>\<open>tun\<close>: \<open>to_tun\<close> is the decrypted packet of the client
  \<open>pending\<close>. Link-local sources are dropped as other bad sources, without the message.
\<close>

definition incoming_link_tun :: "multi_context \<Rightarrow> int \<Rightarrow> learn_script \<Rightarrow> bool \<Rightarrow> nat \<Rightarrow> u8 list \<Rightarrow>
    (verdict \<times> multi_context) option" where
  "incoming_link_tun m nw learn_address_script enable_c2c pending to_tun =
     (let (src, dest, mroute_flags) =
            mroute_extract_addr_from_packet (Some mroute_addr_init) (Some mroute_addr_init) 0 to_tun DEV_TYPE_TUN
      in if mroute_flags AND MROUTE_EXTRACT_SUCCEEDED = 0 then Some (dropped_packet, m)
         else do {
           (owner, m) \<leftarrow> multi_get_instance_by_virtual_addr m nw learn_address_script (the src) True;
           if owner \<noteq> Some pending then Some (dropped_packet, m)
           else if enable_c2c
           then if mroute_flags AND MROUTE_EXTRACT_MCAST \<noteq> 0
             then Some (\<lparr>v_to_tun = True, v_bcast = True, v_unicast = None\<rparr>, m)
             else if mroute_flags AND MROUTE_EXTRACT_BCAST \<noteq> 0 then None
             else do { (mi, m) \<leftarrow> multi_get_instance_by_virtual_addr m nw learn_address_script (the dest) True;
                       Some (\<lparr>v_to_tun = (mi = None), v_bcast = False, v_unicast = mi\<rparr>, m) }
           else Some (\<lparr>v_to_tun = True, v_bcast = False, v_unicast = None\<rparr>, m) })"

text \<open>
  \<^verbatim>\<open>multi_process_incoming_tun\<close>: whether a packet from the interface is broadcast, and else the client it goes
  to. An empty packet is not processed.
\<close>

definition incoming_tun :: "multi_context \<Rightarrow> int \<Rightarrow> learn_script \<Rightarrow> dev_type \<Rightarrow> u16 \<Rightarrow> u8 list \<Rightarrow>
    ((bool \<times> nat option) \<times> multi_context) option" where
  "incoming_tun m nw learn_address_script dev_type vid buf =
     (if length buf > 0
      then let (src, dest, mroute_flags) =
             mroute_extract_addr_from_packet (Some mroute_addr_init) (Some mroute_addr_init) vid buf dev_type
       in if mroute_flags AND MROUTE_EXTRACT_SUCCEEDED \<noteq> 0
          then if mroute_flags AND (MROUTE_EXTRACT_BCAST OR MROUTE_EXTRACT_MCAST) \<noteq> 0 then Some ((True, None), m)
            else do { (mi, m) \<leftarrow> multi_get_instance_by_virtual_addr m nw learn_address_script (the dest)
                        (dev_type = DEV_TYPE_TUN);
                      Some ((False, mi), m) }
          else Some ((False, None), m)
      else Some ((False, None), m))"

section \<open>Events\<close>

datatype event =
    Connect nat multi_instance
  | Options nat multi_instance
  | Established nat
  | Disconnect nat
  | From_client nat "u8 list"
  | From_tun "u8 list"
  | Reaper

text \<open>The outcome: the packet goes to the interface or not, to all clients, or to one.\<close>

fun event_step :: "int \<Rightarrow> learn_script \<Rightarrow> bool \<Rightarrow> event \<Rightarrow> multi_context \<Rightarrow> (verdict \<times> multi_context) option" where
  "event_step nw sc c2c (Connect i opts) m = map_option (Pair dropped_packet) (create_instance m i opts)"
| "event_step nw sc c2c (Options i opts) m = map_option (Pair dropped_packet) (change_instance m i (client_options opts))"
| "event_step nw sc c2c (Established i) m = map_option (Pair dropped_packet) (late_setup_routes m nw sc i)"
| "event_step nw sc c2c (Disconnect i) m = map_option (Pair dropped_packet) (close_instance_routes m i False)"
| "event_step nw sc c2c (From_client i p) m = incoming_link_tun m nw sc c2c i p"
| "event_step nw sc c2c (From_tun p) m =
     map_option (\<lambda>((b, mi), m). (\<lparr>v_to_tun = False, v_bcast = b, v_unicast = mi\<rparr>, m)) (incoming_tun m nw sc DEV_TYPE_TUN 0 p)"
| "event_step nw sc c2c Reaper m = map_option (Pair dropped_packet) (multi_reap_process m nw)"

text \<open>
  When the rest of the server gives these events. A connection is established once, and \<open>iroute\<close>s and
  addresses are those that the parser of the options accepts. The counter of the changes of the set of prefix
  lengths has 32 bits: up to 2 to the 32 changes.
\<close>

definition room_for :: "multi_context \<Rightarrow> multi_instance \<Rightarrow> bool" where
  "room_for m x \<longleftrightarrow> uint (mh_cache_generation (m_route_helper m)) + int (size (lengths_of (iroute_items x))) < 2 ^ 32"

lemma room_claims:
  assumes "m_heap m mi = Some x" "room_for m x"
  shows "uint (mh_cache_generation (m_route_helper m)) + int (size (claims m mi)) < 2 ^ 32"
proof -
  have "claims m mi = {#} \<or> claims m mi = lengths_of (iroute_items x)" using assms(1) by (simp add: claims_def)
  then show ?thesis using assms(2) by (auto simp: room_for_def)
qed

fun event_ok :: "event \<Rightarrow> multi_context \<Rightarrow> bool" where
  "event_ok (Connect i opts) m \<longleftrightarrow> m_heap m i = None \<and> client_ok opts"
| "event_ok (Options i opts) m \<longleftrightarrow>
     (case m_heap m i of None \<Rightarrow> False | Some x \<Rightarrow> \<not> mi_halt x \<and> \<not> mi_did_iroutes x \<and> client_ok opts)"
| "event_ok (Established i) m \<longleftrightarrow>
     (case m_heap m i of None \<Rightarrow> False | Some x \<Rightarrow> \<not> mi_halt x \<and> \<not> mi_did_iroutes x \<and> room_for m x)"
| "event_ok (Disconnect i) m \<longleftrightarrow> (case m_heap m i of None \<Rightarrow> False | Some x \<Rightarrow> \<not> mi_halt x \<and> room_for m x)"
| "event_ok (From_client i p) m \<longleftrightarrow> opened m i"
| "event_ok (From_tun p) m \<longleftrightarrow> True"
| "event_ok Reaper m \<longleftrightarrow> True"

text \<open>The states of a server, with any clock, any answers of the script, and any events.\<close>

inductive reached :: "multi_context \<Rightarrow> bool" where
  start: "multi_init_routes nw n iv a age = Some m \<Longrightarrow> n \<le> 2 ^ 30 \<Longrightarrow> reached m"
| event: "reached m \<Longrightarrow> event_ok e m \<Longrightarrow> event_step nw sc c2c e m = Some (v, m') \<Longrightarrow> reached m'"

section \<open>The invariant holds in every state\<close>

lemma init_inv:
  assumes "multi_init_routes nw n iv a age = Some m" "n \<le> 2 ^ 30"
  shows "table_inv m" "installed m = Map.empty" "m_heap m = Map.empty"
proof -
  obtain h where h: "hash_init n iv mroute_addr_hash_function mroute_addr_compare_function = Some h"
    "m = \<lparr>m_vhash = h, m_route_helper = mroute_helper_init MULTI_CACHE_ROUTE_TTL,
      m_reaper = multi_reap_new nw (reap_buckets_per_pass n),
      m_local = mroute_extract_in_addr_t mroute_addr_init a, m_stale_routes_ageing_time = age, m_heap = Map.empty\<rparr>"
    using assms(1) by (auto simp: multi_init_routes_def bind_eq_Some_conv)
  note i = hash_init_ok [OF h(1) assms(2) mroute_functions_ok]
  have eq: "mroute_addr_compare_function = (=)" by (intro ext) simp
  have t: "table_ok h" using i(1,3) by (simp add: table_ok_def eq)
  have r: "routes m = Map.empty" using i(2) by (simp add: h(2))
  show heap: "m_heap m = Map.empty" by (simp add: h(2))
  show ins: "installed m = Map.empty" by (rule ext) (simp add: installed_def r)
  have c: "claims m = (\<lambda>_. {#})" by (rule ext) (simp add: claims_def heap)
  have st: "state_ok m" using t r heap unfolding state_ok_def by (simp add: h(2) counts_ok_def)
  have hp: "helper_ok (m_route_helper m)" "m_route_helper m = mroute_helper_init MULTI_CACHE_ROUTE_TTL"
    by (simp_all add: h(2) helper_init_ok)
  have "mh_net_len_refcount (m_route_helper m) ! k = counted (claims m) k" if "k < 129" for k
    using that by (simp add: hp(2) mroute_helper_init_def MR_HELPER_NET_LEN_def counted_def c)
  then have "route_inv (claims m) m" using st hp(1) r by (simp add: route_inv_def c)
  moreover have "0 \<le> buckets_per_pass (m_reaper m)" "0 \<le> bucket_base (m_reaper m)"
    by (simp_all add: h(2) multi_reap_new_def reap_buckets_per_pass_def constrain_int_def REAP_MIN_def REAP_MAX_def)
  ultimately show "table_inv m" using heap by (simp add: table_inv_def)
qed

text \<open>The addresses of a packet are host addresses.\<close>

lemma extract_hosts:
  assumes "mroute_extract_addr_from_packet (Some mroute_addr_init) (Some mroute_addr_init) vid p DEV_TYPE_TUN = (s, d, f)"
    "f AND MROUTE_EXTRACT_SUCCEEDED \<noteq> 0"
  obtains src dest where "s = Some src" "d = Some dest" "host_addr src" "host_addr dest" "f AND MROUTE_EXTRACT_BCAST = 0"
proof -
  note fl = MROUTE_EXTRACT_SUCCEEDED_def MROUTE_EXTRACT_BCAST_def MROUTE_EXTRACT_MCAST_def MROUTE_EXTRACT_IGMP_def
  have e: "mroute_extract_addr_ip (Some mroute_addr_init) (Some mroute_addr_init) p = (s, d, f)"
    using assms(1) by (simp add: mroute_extract_addr_from_packet_def)
  have "f \<noteq> 0" using assms(2) by auto
  then consider (v4) "20 \<le> length p" "s = mroute_get_in_addr_t (Some mroute_addr_init) (take 4 (drop 12 p)) 0"
      "d = mroute_get_in_addr_t (Some mroute_addr_init) (take 4 (drop 16 p)) 0"
    | (v6) "40 \<le> length p" "s = mroute_get_in6_addr (Some mroute_addr_init) (take 16 (drop 8 p)) 0"
      "d = mroute_get_in6_addr (Some mroute_addr_init) (take 16 (drop 24 p)) 0"
    using e by (auto simp: mroute_extract_addr_ip_def Let_def sizeof_iphdr_def sizeof_ipv6hdr_def split: if_splits)
  moreover have "f AND MROUTE_EXTRACT_BCAST = 0"
    using e \<open>f \<noteq> 0\<close> by (auto simp: mroute_extract_addr_ip_def Let_def fl split: if_splits)
  ultimately show ?thesis
    using that by cases (auto simp: mroute_get_in_addr_t_def mroute_get_in6_addr_def host_addr_def)
qed

text \<open>What a lookup in a good state gives.\<close>

definition found :: "multi_context \<Rightarrow> mroute_addr \<Rightarrow> nat option \<Rightarrow> bool" where
  "found m a r \<longleftrightarrow> (if a = m_local m then r = None else longest_match (installed m) a r)"

definition moved :: "multi_context \<Rightarrow> multi_context \<Rightarrow> bool" where
  "moved m m' \<longleftrightarrow> table_inv m' \<and> only_routes m m' \<and> installed m' = installed m"

lemma moved_refl: "table_inv m \<Longrightarrow> moved m m"
  by (simp add: moved_def only_routes_def)

lemma moved_trans: "moved m1 m2 \<Longrightarrow> moved m2 m3 \<Longrightarrow> moved m1 m3"
  unfolding moved_def using only_routes_trans by auto

lemma found_moved: "moved m m' \<Longrightarrow> found m' a r = found m a r"
  by (simp add: moved_def found_def only_routes_def)

lemma lookup_found:
  assumes "table_inv m" "host_addr a"
  obtains r m' where "multi_get_instance_by_virtual_addr m nw sc a True = Some (r, m')" "found m a r" "moved m m'" "only_at a m m'"
  using lookup_inv [OF assms, of nw sc] that by (auto simp: found_def moved_def)

lemma incoming_link_ok:
  assumes "table_inv m"
  shows "\<exists>v m'. incoming_link_tun m nw sc c2c i p = Some (v, m') \<and> moved m m' \<and>
    (v \<noteq> dropped_packet \<longrightarrow> (\<exists>src dest flags.
       mroute_extract_addr_from_packet (Some mroute_addr_init) (Some mroute_addr_init) 0 p DEV_TYPE_TUN =
         (Some src, Some dest, flags) \<and> found m src (Some i) \<and>
       (v_unicast v \<noteq> None \<or> \<not> v_bcast v \<and> c2c \<longrightarrow> found m dest (v_unicast v))))"
proof -
  obtain s d f where e: "mroute_extract_addr_from_packet (Some mroute_addr_init) (Some mroute_addr_init) 0 p DEV_TYPE_TUN = (s, d, f)"
    by (cases "mroute_extract_addr_from_packet (Some mroute_addr_init) (Some mroute_addr_init) 0 p DEV_TYPE_TUN")
  show ?thesis
  proof (cases "f AND MROUTE_EXTRACT_SUCCEEDED = 0")
    case True
    then show ?thesis using moved_refl [OF assms] by (simp add: incoming_link_tun_def e)
  next
    case ok: False
    obtain src dest where a: "s = Some src" "d = Some dest" "host_addr src" "host_addr dest" "f AND MROUTE_EXTRACT_BCAST = 0"
      by (rule extract_hosts [OF e ok])
    obtain r m1 where r: "multi_get_instance_by_virtual_addr m nw sc src True = Some (r, m1)" "found m src r" "moved m m1"
      by (rule lookup_found [OF assms a(3)])
    have t1: "table_inv m1" using r(3) by (simp add: moved_def)
    obtain q m2 where q: "multi_get_instance_by_virtual_addr m1 nw sc dest True = Some (q, m2)" "found m1 dest q" "moved m1 m2"
      by (rule lookup_found [OF t1 a(4)])
    have run: "incoming_link_tun m nw sc c2c i p =
        (if r \<noteq> Some i then Some (dropped_packet, m1)
         else if c2c
         then if f AND MROUTE_EXTRACT_MCAST \<noteq> 0 then Some (\<lparr>v_to_tun = True, v_bcast = True, v_unicast = None\<rparr>, m1)
           else Some (\<lparr>v_to_tun = (q = None), v_bcast = False, v_unicast = q\<rparr>, m2)
         else Some (\<lparr>v_to_tun = True, v_bcast = False, v_unicast = None\<rparr>, m1))"
      using ok by (simp add: incoming_link_tun_def e a r(1) q(1))
    show ?thesis unfolding run e a(1,2)
      using r(2,3) q(2,3) found_moved [OF r(3)] moved_trans [OF r(3) q(3)] by auto
  qed
qed

lemma incoming_tun_ok:
  assumes "table_inv m"
  shows "\<exists>b mi m'. incoming_tun m nw sc DEV_TYPE_TUN vid p = Some ((b, mi), m') \<and> moved m m' \<and>
    (\<forall>i. mi = Some i \<longrightarrow> (\<exists>src dest flags.
       mroute_extract_addr_from_packet (Some mroute_addr_init) (Some mroute_addr_init) vid p DEV_TYPE_TUN =
         (Some src, Some dest, flags) \<and> found m dest (Some i)))"
proof -
  obtain s d f where e: "mroute_extract_addr_from_packet (Some mroute_addr_init) (Some mroute_addr_init) vid p DEV_TYPE_TUN = (s, d, f)"
    by (cases "mroute_extract_addr_from_packet (Some mroute_addr_init) (Some mroute_addr_init) vid p DEV_TYPE_TUN")
  show ?thesis
  proof (cases "0 < length p \<and> f AND MROUTE_EXTRACT_SUCCEEDED \<noteq> 0 \<and> f AND (MROUTE_EXTRACT_BCAST OR MROUTE_EXTRACT_MCAST) = 0")
    case False
    then show ?thesis using moved_refl [OF assms] by (auto simp: incoming_tun_def e)
  next
    case True
    then obtain src dest where a: "s = Some src" "d = Some dest" "host_addr dest"
      using extract_hosts [OF e] by metis
    obtain r m1 where r: "multi_get_instance_by_virtual_addr m nw sc dest True = Some (r, m1)" "found m dest r" "moved m m1"
      by (rule lookup_found [OF assms a(3)])
    have "incoming_tun m nw sc DEV_TYPE_TUN vid p = Some ((False, r), m1)"
      using True by (simp add: incoming_tun_def e a(2) r(1))
    then show ?thesis unfolding e a(1,2) using r(2,3) by auto
  qed
qed

text \<open>The routes in force after an event: those of the client are added, or removed, and others stay.\<close>

definition routes_follow :: "event \<Rightarrow> multi_context \<Rightarrow> multi_context \<Rightarrow> bool" where
  "routes_follow e m m' \<longleftrightarrow>
     (case e of
        Established i \<Rightarrow> (\<exists>x L. m_heap m i = Some x \<and> L \<subseteq> setup_items x \<and> installed m' = override (installed m) L i)
      | Disconnect i \<Rightarrow> installed m' = without (installed m) {i}
      | _ \<Rightarrow> installed m' = installed m)"

lemma event_correct:
  assumes "table_inv m" "event_ok e m"
  shows "\<exists>v m'. event_step nw sc c2c e m = Some (v, m') \<and> table_inv m' \<and> routes_follow e m m'"
proof (cases e)
  case (Connect i opts)
  then show ?thesis using create_ok [OF assms(1), of i opts] assms(2) by (auto simp: routes_follow_def)
next
  case (Options i opts)
  then obtain x where "m_heap m i = Some x" "\<not> mi_halt x" "\<not> mi_did_iroutes x" "client_ok opts"
    using assms(2) by (auto split: option.splits)
  from options_ok [OF assms(1) this] show ?thesis using Options by (auto simp: routes_follow_def)
next
  case (Established i)
  then obtain x where x: "m_heap m i = Some x" "\<not> mi_halt x" "\<not> mi_did_iroutes x" "room_for m x"
    using assms(2) by (auto split: option.splits)
  from setup_ok [OF assms(1) x(1-3) x(4) [unfolded room_for_def], of nw sc] obtain m' L where
    "late_setup_routes m nw sc i = Some m'" "table_inv m'" "L \<subseteq> setup_items x" "installed m' = override (installed m) L i"
    by blast
  then show ?thesis using Established x(1) by (auto simp: routes_follow_def)
next
  case (Disconnect i)
  then obtain x where x: "m_heap m i = Some x" "\<not> mi_halt x" "room_for m x"
    using assms(2) by (auto split: option.splits)
  from close_ok [OF assms(1) x(1,2) room_claims [OF x(1,3)]] show ?thesis
    using Disconnect by (auto simp: routes_follow_def)
next
  case (From_client i p)
  then show ?thesis using incoming_link_ok [OF assms(1), of nw sc c2c i p] by (auto simp: routes_follow_def moved_def)
next
  case (From_tun p)
  then show ?thesis using incoming_tun_ok [OF assms(1), of nw sc 0 p] by (auto simp: routes_follow_def moved_def)
next
  case Reaper
  then show ?thesis using reap_process_ok [OF assms(1), of nw] by (auto simp: routes_follow_def)
qed

lemma reached_inv: "reached m \<Longrightarrow> table_inv m"
proof (induction rule: reached.induct)
  case (start nw n iv a age m)
  then show ?case using init_inv(1) by blast
next
  case (event m e nw sc c2c v m')
  then show ?case using event_correct [of m e nw sc c2c] by auto
qed

section \<open>Stale routes\<close>

definition stale_at :: "multi_context \<Rightarrow> int \<Rightarrow> multi_route \<Rightarrow> bool" where
  "stale_at m nw r \<longleftrightarrow> multi_route_defined m nw r = Some True \<and> nw - mr_last_reference r \<ge> m_stale_routes_ageing_time m"

lemma stale_deletes: "deletes (stale_body nw) (stale_at m nw) m R"
  unfolding deletes_def
proof (intro allI ballI impI)
  fix h and r :: multi_route
  assume "same_clients (m_heap m) h \<and> h (mr_instance r) \<noteq> None"
  then have d: "multi_route_defined (m\<lparr>m_heap := h\<rparr>) nw r = multi_route_defined m nw r" "multi_route_defined m nw r \<noteq> None"
    using defined_same by blast+
  then obtain b where "multi_route_defined m nw r = Some b" by blast
  then show "stale_body nw r (m\<lparr>m_heap := h\<rparr>) =
      (if stale_at m nw r then map_option (Pair True) (multi_route_del (m\<lparr>m_heap := h\<rparr>) r)
       else Some (False, m\<lparr>m_heap := h\<rparr>))"
    using d(1) by (cases "multi_route_del (m\<lparr>m_heap := h\<rparr>) r") (simp_all add: stale_body_def stale_at_def)
qed

lemma stale_check_routes:
  assumes "state_ok m"
  shows "\<exists>m'. check_stale_routes m nw = Some m' \<and> state_ok m' \<and> routes m' = dropped (routes m) (\<lambda>_. stale_at m nw)"
proof -
  have "hash_ok (m_vhash m)" using assms by (simp add: state_ok_def table_ok_def)
  then have n: "0 \<le> n_buckets (m_vhash m)" by (auto simp: hash_ok_def)
  from iterate_delete [OF assms order_refl n n stale_deletes [of nw m]] obtain hi vh m1 D where r:
    "hash_iterator_init_range (m_vhash m) 0 (n_buckets (m_vhash m)) = Some hi"
    "hash_iterate (stale_body nw) (m_vhash m) hi m = Some (vh, m1)" "state_ok (m1\<lparr>m_vhash := vh\<rparr>)"
    "table_map vh = dropped (routes m) D"
    "(0 :: int) = 0 \<and> n_buckets (m_vhash m) \<le> n_buckets (m_vhash m) \<longrightarrow> D = (\<lambda>_. stale_at m nw)"
    by (elim exE conjE) (rule that)
  then have "D = (\<lambda>_. stale_at m nw)" by simp
  then show ?thesis using r by (intro exI [of _ "m1\<lparr>m_vhash := vh\<rparr>"]) (simp add: check_stale_routes_def)
qed

section \<open>Theorems\<close>


text \<open>
  C4. Routing is safe under every interleaving of connecting, disconnecting, packets and reaping: in every
  state that the server reaches, every event that may happen returns; no assertion fails, and no instance is
  used after it was freed. The routes in force change only when a client is established, by routes to it
  at its own addresses and networks, or closes, by losing its routes.
\<close>
theorem route_events_safe:
  assumes "reached m" "event_ok e m"
  shows "\<exists>v m'. event_step nw sc c2c e m = Some (v, m') \<and> reached m' \<and> routes_follow e m m'"
  using event_correct [OF reached_inv [OF assms(1)] assms(2), of nw sc c2c] reached.event [OF assms(1,2)] by blast


text \<open>
  C10. When a client is established, each of its addresses and networks that can be learned is routed to it
  from then on, where the script agrees and its quota suffices, and no other route changes.
\<close>
theorem established_client_is_routed:
  assumes "reached m" "m_heap m i = Some x" "\<not> mi_halt x" "\<not> mi_did_iroutes x" "room_for m x"
    "\<forall>who op b. sc who op b" "int (length (primary_items x @ iroute_items x)) \<le> mi_max_routes_per_client x"
  shows "\<exists>m'. late_setup_routes m nw sc i = Some m' \<and>
    (\<forall>a. if a \<in> setup_items x \<and> mroute_learnable_address a \<and> a \<noteq> m_local m then installed m' a = Some i
       else installed m' a = installed m a \<or> a \<in> setup_items x)"
proof -
  obtain m' L where m': "late_setup_routes m nw sc i = Some m'" "L \<subseteq> setup_items x" "installed m' = override (installed m) L i"
    "{a \<in> setup_items x. mroute_learnable_address a \<and> a \<noteq> m_local m} \<subseteq> L"
    using setup_ok [OF reached_inv [OF assms(1)] assms(2-4) assms(5) [unfolded room_for_def], of nw sc] assms(6,7) by blast
  then show ?thesis by (auto simp: override_def)
qed

text \<open>
  C11. When a client closes, exactly its routes go out of force, whoever's they were before: the others stay.
\<close>
theorem closed_client_is_not_routed:
  assumes "reached m" "m_heap m i = Some x" "\<not> mi_halt x" "room_for m x"
  shows "\<exists>m'. close_instance_routes m i False = Some m' \<and>
    (\<forall>a. installed m' a = (if installed m a = Some i then None else installed m a)) \<and>
    (\<forall>y. m_heap m' i = Some y \<longrightarrow> mi_halt y)"
proof -
  obtain m' where m': "close_instance_routes m i False = Some m'" "installed m' = without (installed m) {i}"
    "only_helper (m\<lparr>m_heap := closed_heap m i x\<rparr>) m'"
    using close_ok [OF reached_inv [OF assms(1)] assms(2,3) room_claims [OF assms(2,4)]] by blast
  have "installed m' a = (if installed m a = Some i then None else installed m a)" for a
    unfolding m'(2) by (simp add: without_def split: option.splits)
  moreover have "mi_halt y" if "m_heap m' i = Some y" for y
    using that only_helperD(2) [OF m'(3)] by (auto simp: closed_heap_def split: if_splits)
  ultimately show ?thesis using m'(1) by blast
qed

text \<open>
  C12. The reaper collects all: after a pass over the whole table exactly the routes that were defined are
  left, in the same routing, and every closed client has been freed.
\<close>
theorem reaper_frees_closed_clients:
  assumes "reached m"
  shows "\<exists>m'. multi_reap_all m nw = Some m' \<and> installed m' = installed m \<and>
    (\<forall>a. routes m' a = (case routes m a of None \<Rightarrow> None
      | Some r \<Rightarrow> if multi_route_defined m nw r = Some True then Some r else None)) \<and>
    (\<forall>i x. m_heap m' i = Some x \<longrightarrow> \<not> mi_halt x)"
proof -
  note inv = reached_inv [OF assms]
  have st: "state_ok m" using inv by (simp add: table_inv_def route_inv_def)
  obtain m' where m': "multi_reap_range m nw (- 1) 0 = Some m'" "table_inv m'" "installed m' = installed m" "only_routes m m'"
    "routes m' = dropped (routes m) (\<lambda>_. undefined_at m nw)"
    using reap_range_ok [OF inv, of "- 1" 0 nw] by auto
  have st': "counts_ok (routes m') (m_heap m')" using m'(2) by (simp add: table_inv_def route_inv_def state_ok_def)
  have sc: "same_clients (m_heap m) (m_heap m')" using m'(4) by (simp add: only_routes_def)
  have r: "routes m' a = (case routes m a of None \<Rightarrow> None
      | Some r \<Rightarrow> if multi_route_defined m nw r = Some True then Some r else None)" for a
  proof (cases "routes m a")
    case (Some r)
    have "m_heap m (mr_instance r) \<noteq> None" using st Some unfolding state_ok_def counts_ok_def by blast
    then have "multi_route_defined m nw r \<noteq> None" by (auto simp: multi_route_defined_def)
    then show ?thesis unfolding m'(5) using Some by (auto simp: dropped_def undefined_at_def)
  qed (simp add: m'(5) dropped_def)
  have "\<not> mi_halt x'" if x': "m_heap m' i = Some x'" for i x'
  proof
    assume halt: "mi_halt x'"
    obtain x c d where x: "m_heap m i = Some x" "x' = x\<lparr>mi_refcount := c, mi_route_count := d\<rparr>"
      by (rule same_clients_back [OF sc x'])
    have "\<not> (routes m' a = Some q \<and> mr_instance q = i)" for a q
      using x halt unfolding r by (auto simp: multi_route_defined_def split: option.splits)
    then have "owned_in (routes m') i = {}" by (auto simp: owned_in_def)
    then show False using counts_okD [OF st' x'] halt by simp
  qed
  then show ?thesis using m'(1,3) r by (auto simp: multi_reap_all_def)
qed

text \<open>
  C39. The check for stale routes removes networks that are in use: looking up a packet by a network stamps
  the time only on the host route that it caches, so the route to the network is deleted, however recently
  packets were routed by it, once its age is that of a stale route, though its client is connected.
\<close>
theorem stale_check_drops_used_network:
  assumes "reached m" "installed m k = Some i" "routes m k = Some r" "host_addr a" "a \<noteq> k"
    "multi_get_instance_by_virtual_addr m nw sc a True = Some (Some i, m1)"
    "nw - mr_last_reference r \<ge> m_stale_routes_ageing_time m"
  shows "\<exists>m2. check_stale_routes m1 nw = Some m2 \<and> routes m2 k = None \<and> installed m2 k = None"
proof -
  have l: "table_inv m1" "only_routes m m1" "installed m1 = installed m" "only_at a m m1"
    using lookup_inv [OF reached_inv [OF assms(1)] assms(4), of nw sc] assms(6) by auto
  have st: "state_ok m1" using l(1) by (simp add: table_inv_def route_inv_def)
  have k: "routes m1 k = Some r" using l(4) assms(3,5) by (auto simp: only_at_def)
  have f: "mr_flags r = 0" "opened m1 (mr_instance r)"
  proof -
    have "installed m1 k = Some i" using assms(2) l(3) by simp
    then show "mr_flags r = 0" "opened m1 (mr_instance r)" using k by (simp_all add: installed_def split: if_splits)
  qed
  obtain m2 where m2: "check_stale_routes m1 nw = Some m2" "routes m2 = dropped (routes m1) (\<lambda>_. stale_at m1 nw)"
    using stale_check_routes [OF st] by blast
  have "stale_at m1 nw r" using defined_permanent [OF st k f(1)] f(2) assms(7) l(2) by (simp add: stale_at_def only_routes_def)
  then have "routes m2 k = None" unfolding m2(2) using k by (simp add: dropped_def)
  then show ?thesis using m2(1) by (simp add: installed_def)
qed

section \<open>A client with an address and a network\<close>

text \<open>The client 0 has the address 10.8.0.2 and the network 192.168.1.0/24 behind it.\<close>

definition demo_client :: multi_instance where
  "demo_client = \<lparr>mi_halt = False, mi_refcount = 1, mi_route_count = 0, mi_did_iroutes = False,
     mi_tunnel_type = DEV_TYPE_TUN, mi_iroutes = [\<lparr>ir_network = 0xC0A80100, ir_netbits = 24\<rparr>],
     mi_iroutes_ipv6 = [], mi_max_routes_per_client = 256, mi_push_ifconfig_defined = True,
     mi_push_ifconfig_local = 0x0A080002, mi_push_ifconfig_ipv6_defined = False,
     mi_push_ifconfig_ipv6_local = replicate 16 0\<rparr>"

definition demo_net :: mroute_addr where
  "demo_net = \<lparr>ma_type = MR_ADDR_IPV4 OR MR_WITH_NETBITS, ma_netbits = 24, ma_raw = [192, 168, 1, 0]\<rparr>"

lemma demo_client_facts:
  "client_ok demo_client"
  "primary_items demo_client = [(- 1, host4 0x0A080002)]"
  "iroute_items demo_client = [(24, demo_net)]"
  "mroute_learnable_address (host4 0x0A080002)" "mroute_learnable_address demo_net"
  "host4 0x0A080001 \<noteq> host4 0x0A080002" "host4 0x0A080001 \<noteq> demo_net" "host4 0x0A080002 \<noteq> demo_net"
  by code_simp+

lemma demo_start:
  "\<exists>m. reached m \<and> m_heap m = Map.empty \<and> installed m = Map.empty \<and> m_local m = host4 0x0A080001 \<and>
    mh_cache_generation (m_route_helper m) = 0 \<and> m_stale_routes_ageing_time m = 60"
proof -
  have "hash_init 4 7 mroute_addr_hash_function mroute_addr_compare_function \<noteq> (None :: (mroute_addr, multi_route) hash option)"
    by (simp add: hash_init_def adjust_power_of_2_def adjust_loop.simps)
  then obtain m where m: "multi_init_routes 100 4 7 0x0A080001 60 = Some m" by (auto simp: multi_init_routes_def)
  moreover have "(4 :: int) \<le> 2 ^ 30" by simp
  ultimately have "reached m" by (rule reached.start)
  moreover have "m_local m = host4 0x0A080001" "mh_cache_generation (m_route_helper m) = 0" "m_stale_routes_ageing_time m = 60"
    using m by (auto simp: multi_init_routes_def bind_eq_Some_conv mroute_extract_in_addr_t_def mroute_addr_init_def host4_def
      mroute_helper_init_def)
  ultimately show ?thesis using init_inv [OF m] by (intro exI [of _ m]) simp
qed

lemma demo_connected:
  "\<exists>m. reached m \<and> m_heap m 0 = Some demo_client \<and> installed m = Map.empty \<and> m_local m = host4 0x0A080001 \<and>
    room_for m demo_client \<and> mh_cache_generation (m_route_helper m) = 0"
proof -
  obtain m where m: "reached m" "m_heap m = Map.empty" "installed m = Map.empty" "m_local m = host4 0x0A080001"
    "mh_cache_generation (m_route_helper m) = 0" "m_stale_routes_ageing_time m = 60" using demo_start by blast
  have "m_heap m 0 = None" using m(2) by simp
  from create_ok [OF reached_inv [OF m(1)] this demo_client_facts(1)] obtain m' where
    m': "create_instance m 0 demo_client = Some m'" "installed m' = installed m"
      "m' = m\<lparr>m_heap := (m_heap m)(0 \<mapsto> demo_client\<lparr>mi_halt := False, mi_refcount := 1, mi_route_count := 0,
        mi_did_iroutes := False\<rparr>)\<rparr>" by blast
  have "event_step 100 (\<lambda>_ _ _. True) True (Connect 0 demo_client) m = Some (dropped_packet, m')" using m'(1) by simp
  from reached.event [OF m(1) _ this] have "reached m'" using m(2) demo_client_facts(1) by simp
  then show ?thesis using m m'(2,3)
    by (intro exI [of _ m']) (simp add: demo_client_def room_for_def demo_client_facts(3) [unfolded demo_client_def] lengths_of_simps)
qed

lemma demo_established:
  "\<exists>m x. reached m \<and> m_heap m 0 = Some x \<and> \<not> mi_halt x \<and> room_for m x \<and> m_local m = host4 0x0A080001 \<and>
    installed m = (\<lambda>a. if a = host4 0x0A080002 \<or> a = demo_net then Some 0 else None)"
proof -
  obtain m where m: "reached m" "m_heap m 0 = Some demo_client" "installed m = Map.empty" "m_local m = host4 0x0A080001"
    "room_for m demo_client" "mh_cache_generation (m_route_helper m) = 0" using demo_connected by blast
  have d: "\<not> mi_halt demo_client" "\<not> mi_did_iroutes demo_client" by (simp_all add: demo_client_def)
  have it: "setup_items demo_client = {host4 0x0A080002, demo_net}" by (auto simp: setup_items_def demo_client_facts(2,3))
  note inv = reached_inv [OF m(1)]
  obtain m' L where m': "late_setup_routes m 100 (\<lambda>_ _ _. True) 0 = Some m'" "table_inv m'"
    "kept m (m'\<lparr>m_heap := m_heap m\<rparr>)" "L \<subseteq> setup_items demo_client" "installed m' = override (installed m) L 0"
    "opened m' = opened m" "uint (mh_cache_generation (m_route_helper m')) =
      uint (mh_cache_generation (m_route_helper m)) + int (size (lengths_of (iroute_items demo_client)))"
    "same_clients ((m_heap m)(0 \<mapsto> demo_client\<lparr>mi_did_iroutes := True\<rparr>)) (m_heap m')"
    "int (length (primary_items demo_client @ iroute_items demo_client)) \<le> mi_max_routes_per_client demo_client \<longrightarrow>
       {a \<in> setup_items demo_client. mroute_learnable_address a \<and> a \<noteq> m_local m} \<subseteq> L"
    using setup_ok [OF inv m(2) d m(5) [unfolded room_for_def], of 100 "\<lambda>_ _ _. True"] unfolding simp_thms by blast
  have "int (length (primary_items demo_client @ iroute_items demo_client)) \<le> mi_max_routes_per_client demo_client"
    unfolding demo_client_facts(2,3) by (simp add: demo_client_def)
  then have "setup_items demo_client \<subseteq> L" using m'(9) demo_client_facts(4-7) m(4) unfolding it by auto
  then have L: "L = {host4 0x0A080002, demo_net}" using m'(4) it by auto
  have "event_step 100 (\<lambda>_ _ _. True) True (Established 0) m = Some (dropped_packet, m')" using m'(1) by simp
  from reached.event [OF m(1) _ this] have r: "reached m'" using m(2,5) d by simp
  have "((m_heap m)(0 \<mapsto> demo_client\<lparr>mi_did_iroutes := True\<rparr>)) 0 = Some (demo_client\<lparr>mi_did_iroutes := True\<rparr>)"
    "\<not> mi_halt (demo_client\<lparr>mi_did_iroutes := True\<rparr>)" using d(1) by simp_all
  then obtain c d where x: "m_heap m' 0 = Some (demo_client\<lparr>mi_did_iroutes := True, mi_refcount := c, mi_route_count := d\<rparr>)"
    by (rule same_clients_open [OF m'(8)])
  let ?x = "demo_client\<lparr>mi_did_iroutes := True, mi_refcount := c, mi_route_count := d\<rparr>"
  have ins: "installed m' = (\<lambda>a. if a = host4 0x0A080002 \<or> a = demo_net then Some 0 else None)"
    unfolding m'(5) m(3) L by (auto simp: override_def fun_eq_iff)
  have items: "iroute_items ?x = iroute_items demo_client" "\<not> mi_halt ?x" by (simp_all add: iroute_items_def demo_client_def)
  have "room_for m' ?x" using m'(7) m(6) unfolding room_for_def items(1) demo_client_facts(3) by (simp add: lengths_of_simps)
  moreover have "m_local m' = host4 0x0A080001" using m'(3) m(4) by (simp add: kept_def)
  ultimately show ?thesis using r x ins items(2) by blast
qed

definition demo_packet_in :: "u8 list" where
  "demo_packet_in = [0x45, 0, 0, 20, 0, 0, 0, 0, 64, 17, 0, 0, 192, 168, 1, 77, 10, 8, 0, 2]"

definition demo_host :: mroute_addr where
  "demo_host = \<lparr>ma_type = MR_ADDR_IPV4, ma_netbits = 0, ma_raw = [192, 168, 1, 77]\<rparr>"

lemma demo_host_facts:
  "host_addr demo_host" "covers demo_net demo_host" "host4 0x0A080002 \<noteq> demo_host" "demo_host \<noteq> demo_net"
  "host4 0x0A080001 \<noteq> demo_host"
  "mroute_extract_addr_from_packet (Some mroute_addr_init) (Some mroute_addr_init) 0 demo_packet_in DEV_TYPE_TUN =
    (Some demo_host, Some (host4 0x0A080002), MROUTE_EXTRACT_SUCCEEDED)"
proof -
  have "\<forall>i < 24. addr_bit (ma_raw demo_net) i = addr_bit (ma_raw demo_host) i" by code_simp
  moreover have "unat (ma_netbits demo_net) = 24" "length (ma_raw demo_net) = length (ma_raw demo_host)"
    "ma_type demo_net = ma_type demo_host OR MR_WITH_NETBITS" by code_simp+
  ultimately show "covers demo_net demo_host" by (simp add: covers_def)
  show "host_addr demo_host" "host4 0x0A080002 \<noteq> demo_host" "demo_host \<noteq> demo_net" "host4 0x0A080001 \<noteq> demo_host"
    "mroute_extract_addr_from_packet (Some mroute_addr_init) (Some mroute_addr_init) 0 demo_packet_in DEV_TYPE_TUN =
      (Some demo_host, Some (host4 0x0A080002), MROUTE_EXTRACT_SUCCEEDED)" by code_simp+
qed

text \<open>The routes of the client are the only ones.\<close>

lemma demo_match:
  assumes "installed m = (\<lambda>a. if a = host4 0x0A080002 \<or> a = demo_net then Some (0 :: nat) else None)"
  shows "longest_match (installed m) demo_host r \<Longrightarrow> r = Some 0"
proof -
  assume l: "longest_match (installed m) demo_host r"
  show "r = Some 0"
  proof (cases r)
    case None
    have "installed m demo_net \<noteq> None" unfolding assms by simp
    then show ?thesis using l demo_host_facts(2) unfolding None longest_match_def option.case by blast
  next
    case (Some i)
    then obtain k where "installed m k = Some i" using l unfolding longest_match_def by auto
    then show ?thesis using Some unfolding assms by (simp split: if_splits)
  qed
qed


theorem route_events_safe_witness:
  "\<exists>m m1 m2. reached m \<and> installed m demo_net = Some 0 \<and>
    event_step 200 (\<lambda>_ _ _. False) True (Disconnect 0) m = Some (dropped_packet, m1) \<and>
    installed m1 = Map.empty \<and> event_step 201 (\<lambda>_ _ _. False) True Reaper m1 = Some (dropped_packet, m2) \<and> reached m2"
proof -
  obtain m x where m: "reached m" "m_heap m 0 = Some x" "\<not> mi_halt x" "room_for m x"
    "installed m = (\<lambda>a. if a = host4 0x0A080002 \<or> a = demo_net then Some 0 else None)" using demo_established by blast
  have "event_ok (Disconnect 0) m" using m(2-4) by simp
  from route_events_safe [OF m(1) this, of 200 "\<lambda>_ _ _. False" True] obtain v1 m1 where
    m1: "event_step 200 (\<lambda>_ _ _. False) True (Disconnect 0) m = Some (v1, m1)" "reached m1"
    "routes_follow (Disconnect 0) m m1" by blast
  have "event_ok Reaper m1" by simp
  from route_events_safe [OF m1(2) this, of 201 "\<lambda>_ _ _. False" True] obtain v2 m2 where
    m2: "event_step 201 (\<lambda>_ _ _. False) True Reaper m1 = Some (v2, m2)" "reached m2" by blast
  have "installed m1 = Map.empty" using m1(3) unfolding routes_follow_def event.case m(5)
    by (auto simp: without_def fun_eq_iff)
  moreover have "v1 = dropped_packet" "v2 = dropped_packet" using m1(1) m2(1) by auto
  ultimately show ?thesis using m1 m2 m(1,5) by (intro exI [of _ m] exI [of _ m1] exI [of _ m2]) simp
qed

text \<open>The packet of the client from a host of its network passes, that of another client with the same source does not.\<close>

lemma demo_passes:
  "\<exists>m m'. reached m \<and> installed m demo_net = Some 0 \<and> m_local m = host4 0x0A080001 \<and>
    incoming_link_tun m 101 (\<lambda>_ _ _. True) False 0 demo_packet_in =
      Some (\<lparr>v_to_tun = True, v_bcast = False, v_unicast = None\<rparr>, m') \<and>
    installed m = (\<lambda>a. if a = host4 0x0A080002 \<or> a = demo_net then Some 0 else None)"
proof -
  obtain m where m: "reached m" "m_local m = host4 0x0A080001"
    "installed m = (\<lambda>a. if a = host4 0x0A080002 \<or> a = demo_net then Some 0 else None)" using demo_established by blast
  obtain r m' where l: "multi_get_instance_by_virtual_addr m 101 (\<lambda>_ _ _. True) demo_host True = Some (r, m')" "found m demo_host r"
    by (rule lookup_found [OF reached_inv [OF m(1)] demo_host_facts(1)])
  then have "r = Some 0" using demo_match [OF m(3)] m(2) demo_host_facts(5) by (auto simp: found_def)
  then have "incoming_link_tun m 101 (\<lambda>_ _ _. True) False 0 demo_packet_in =
      Some (\<lparr>v_to_tun = True, v_bcast = False, v_unicast = None\<rparr>, m')"
    using l(1) by (simp add: incoming_link_tun_def demo_host_facts(6) MROUTE_EXTRACT_SUCCEEDED_def)
  then show ?thesis using m by (intro exI [of _ m] exI [of _ m']) simp
qed


theorem established_client_is_routed_witness:
  "\<exists>m m'. reached m \<and> installed m = Map.empty \<and> late_setup_routes m 100 (\<lambda>_ _ _. True) 0 = Some m' \<and>
    installed m' demo_net = Some 0 \<and> installed m' (host4 0x0A080002) = Some 0"
proof -
  obtain m where m: "reached m" "m_heap m 0 = Some demo_client" "installed m = Map.empty" "m_local m = host4 0x0A080001"
    "room_for m demo_client" using demo_connected by blast
  have d: "\<not> mi_halt demo_client" "\<not> mi_did_iroutes demo_client" by (simp_all add: demo_client_def)
  have "\<forall>who op b. (\<lambda>_ _ _. True) (who :: nat option) (op :: string) (b :: mroute_addr)"
    "int (length (primary_items demo_client @ iroute_items demo_client)) \<le> mi_max_routes_per_client demo_client"
    unfolding demo_client_facts(2,3) by (simp_all add: demo_client_def)
  from established_client_is_routed [OF m(1,2) d m(5) this, of 100] obtain m' where
    m': "late_setup_routes m 100 (\<lambda>_ _ _. True) 0 = Some m'"
    "\<forall>a. if a \<in> setup_items demo_client \<and> mroute_learnable_address a \<and> a \<noteq> m_local m then installed m' a = Some 0
       else installed m' a = installed m a \<or> a \<in> setup_items demo_client" by blast
  have "setup_items demo_client = {host4 0x0A080002, demo_net}" by (auto simp: setup_items_def demo_client_facts(2,3))
  then show ?thesis using m' m(1,3,4) demo_client_facts(4-7) by (intro exI [of _ m] exI [of _ m']) auto
qed

theorem closed_client_is_not_routed_witness:
  "\<exists>m m'. reached m \<and> installed m demo_net = Some 0 \<and> close_instance_routes m 0 False = Some m' \<and> installed m' demo_net = None"
proof -
  obtain m x where m: "reached m" "m_heap m 0 = Some x" "\<not> mi_halt x" "room_for m x"
    "installed m = (\<lambda>a. if a = host4 0x0A080002 \<or> a = demo_net then Some 0 else None)" using demo_established by blast
  from closed_client_is_not_routed [OF m(1-4)] obtain m' where
    "close_instance_routes m 0 False = Some m'" "installed m' demo_net = (if installed m demo_net = Some 0 then None else installed m demo_net)"
    by blast
  then show ?thesis using m(1,5) by (intro exI [of _ m] exI [of _ m']) simp
qed

theorem reaper_frees_closed_clients_witness:
  "\<exists>m m' m''. reached m \<and> m_heap m 0 \<noteq> None \<and> close_instance_routes m 0 False = Some m' \<and> multi_reap_all m' 300 = Some m'' \<and>
    m_heap m'' 0 = None"
proof -
  obtain m x where m: "reached m" "m_heap m 0 = Some x" "\<not> mi_halt x" "room_for m x" using demo_established by blast
  obtain m' where m': "close_instance_routes m 0 False = Some m'" "\<forall>y. m_heap m' 0 = Some y \<longrightarrow> mi_halt y"
    using close_ok [OF reached_inv [OF m(1)] m(2,3) room_claims [OF m(2,4)]] only_helperD(2)
    by (fastforce simp: closed_heap_def split: if_splits)
  have "event_step 200 (\<lambda>_ _ _. True) True (Disconnect 0) m = Some (dropped_packet, m')" using m'(1) by simp
  from reached.event [OF m(1) _ this] have r: "reached m'" using m(2-4) by simp
  obtain m'' where m'': "multi_reap_all m' 300 = Some m''" "\<forall>i x. m_heap m'' i = Some x \<longrightarrow> \<not> mi_halt x"
    using reaper_frees_closed_clients [OF r, of 300] by blast
  have sc: "same_clients (m_heap m') (m_heap m'')"
    using reap_range_ok [OF reached_inv [OF r], of "- 1" 0 300] m''(1) by (auto simp: multi_reap_all_def only_routes_def)
  have "m_heap m'' 0 = None"
  proof (rule ccontr)
    assume "m_heap m'' 0 \<noteq> None"
    then obtain y where y: "m_heap m'' 0 = Some y" by blast
    obtain z c d where "m_heap m' 0 = Some z" "y = z\<lparr>mi_refcount := c, mi_route_count := d\<rparr>"
      by (rule same_clients_back [OF sc y])
    then show False using m'(2) m''(2) [rule_format, OF y] by simp
  qed
  then show ?thesis using m(1,2) m'(1) m''(1) by (intro exI [of _ m] exI [of _ m'] exI [of _ m'']) simp
qed

theorem stale_check_drops_used_network_witness:
  "\<exists>m nw m1 m2. reached m \<and> installed m demo_net = Some 0 \<and>
    multi_get_instance_by_virtual_addr m nw (\<lambda>_ _ _. True) demo_host True = Some (Some 0, m1) \<and>
    check_stale_routes m1 nw = Some m2 \<and> installed m2 demo_net = None"
proof -
  obtain m where m: "reached m" "m_local m = host4 0x0A080001"
    "installed m = (\<lambda>a. if a = host4 0x0A080002 \<or> a = demo_net then Some 0 else None)" using demo_established by blast
  have n: "installed m demo_net = Some 0" unfolding m(3) by simp
  then obtain r where r: "routes m demo_net = Some r" by (auto simp: installed_def split: option.splits)
  define nw where "nw = mr_last_reference r + m_stale_routes_ageing_time m"
  obtain q m1 where l: "multi_get_instance_by_virtual_addr m nw (\<lambda>_ _ _. True) demo_host True = Some (q, m1)" "found m demo_host q"
    by (rule lookup_found [OF reached_inv [OF m(1)] demo_host_facts(1)])
  then have l': "multi_get_instance_by_virtual_addr m nw (\<lambda>_ _ _. True) demo_host True = Some (Some 0, m1)"
    using demo_match [OF m(3)] m(2) demo_host_facts(5) by (auto simp: found_def)
  have "nw - mr_last_reference r \<ge> m_stale_routes_ageing_time m" by (simp add: nw_def)
  from stale_check_drops_used_network [OF m(1) n r demo_host_facts(1,4) l' this] show ?thesis using m(1) n l' by blast
qed

end
