(* ===== verification/Timers.thy ===== *)
theory Timers
  imports Vpn_Prelude
begin

text \<open>
  Time values, the process clock and the timers built on it: \<^verbatim>\<open>otime.h\<close>, \<^verbatim>\<open>otime.c\<close>, \<^verbatim>\<open>interval.h\<close>,
  \<^verbatim>\<open>interval.c\<close> and \<^verbatim>\<open>shaper.c\<close>. What the system's clock returns is an argument.
\<close>

section \<open>Time values (otime.h)\<close>

record timeval =
  tv_sec :: int
  tv_usec :: int

definition tv_clear :: timeval where
  "tv_clear = \<lparr>tv_sec = 0, tv_usec = 0\<rparr>"

definition tv_defined :: "timeval \<Rightarrow> bool" where
  "tv_defined tv \<longleftrightarrow> tv_sec tv > 0 \<and> tv_usec tv > 0"

definition tv_subtract :: "timeval \<Rightarrow> timeval \<Rightarrow> int \<Rightarrow> int" where
  "tv_subtract tv1 tv2 max_seconds =
     (let max_usec = max_seconds * 1000000;
          sec_diff = c_int (tv_sec tv1 - tv_sec tv2)
      in if sec_diff > max_seconds + 10 then max_usec
         else if sec_diff < - (max_seconds + 10) then - max_usec
         else constrain_int (sec_diff * 1000000 + (tv_usec tv1 - tv_usec tv2)) (- max_usec) max_usec)"

definition tv_add :: "timeval \<Rightarrow> timeval \<Rightarrow> timeval" where
  "tv_add dest src =
     (let sec = tv_sec dest + tv_sec src;
          usec = tv_usec dest + tv_usec src;
          sec = sec + drop_bit 20 usec;
          usec = usec AND 0x000FFFFF
      in if usec \<ge> 1000000 then \<lparr>tv_sec = sec + 1, tv_usec = usec - 1000000\<rparr>
         else \<lparr>tv_sec = sec, tv_usec = usec\<rparr>)"

definition tv_lt :: "timeval \<Rightarrow> timeval \<Rightarrow> bool" where
  "tv_lt t1 t2 =
     (if tv_sec t1 < tv_sec t2 then True
      else if tv_sec t1 > tv_sec t2 then False
      else tv_usec t1 < tv_usec t2)"

definition tv_le :: "timeval \<Rightarrow> timeval \<Rightarrow> bool" where
  "tv_le t1 t2 =
     (if tv_sec t1 < tv_sec t2 then True
      else if tv_sec t1 > tv_sec t2 then False
      else tv_usec t1 \<le> tv_usec t2)"

definition tv_ge :: "timeval \<Rightarrow> timeval \<Rightarrow> bool" where
  "tv_ge t1 t2 =
     (if tv_sec t1 > tv_sec t2 then True
      else if tv_sec t1 < tv_sec t2 then False
      else tv_usec t1 \<ge> tv_usec t2)"

definition tv_gt :: "timeval \<Rightarrow> timeval \<Rightarrow> bool" where
  "tv_gt t1 t2 =
     (if tv_sec t1 > tv_sec t2 then True
      else if tv_sec t1 < tv_sec t2 then False
      else tv_usec t1 > tv_usec t2)"

definition tv_eq :: "timeval \<Rightarrow> timeval \<Rightarrow> bool" where
  "tv_eq t1 t2 \<longleftrightarrow> tv_sec t1 = tv_sec t2 \<and> tv_usec t1 = tv_usec t2"

text \<open>The borrowing loop of \<^verbatim>\<open>tv_delta\<close>.\<close>

function tv_borrow :: "int \<Rightarrow> int \<Rightarrow> int \<times> int" where
  "tv_borrow sec usec = (if usec < 0 then tv_borrow (sec - 1) (usec + 1000000) else (sec, usec))"
  by pat_completeness auto

termination
  by (relation "measure (\<lambda>(sec, usec). nat (- usec))") auto

declare tv_borrow.simps [simp del]

definition tv_delta :: "timeval \<Rightarrow> timeval \<Rightarrow> timeval" where
  "tv_delta t1 t2 =
     (let (sec, usec) = tv_borrow (c_int (tv_sec t2 - tv_sec t1)) (c_int (tv_usec t2 - tv_usec t1))
      in if sec < 0 then \<lparr>tv_sec = 0, tv_usec = 0\<rparr> else \<lparr>tv_sec = sec, tv_usec = usec\<rparr>)"

definition TV_WITHIN_SIGMA_MAX_SEC :: int where "TV_WITHIN_SIGMA_MAX_SEC = 600"

definition tv_within_sigma :: "timeval \<Rightarrow> timeval \<Rightarrow> int \<Rightarrow> bool" where
  "tv_within_sigma t1 t2 sigma \<longleftrightarrow>
     (let delta = tv_subtract t1 t2 TV_WITHIN_SIGMA_MAX_SEC
      in - sigma \<le> delta \<and> delta \<le> sigma)"

definition interval_earliest_wakeup :: "int \<Rightarrow> time \<Rightarrow> time \<Rightarrow> int" where
  "interval_earliest_wakeup wakeup at current =
     (if at > current
      then let delta = c_int (at - current);
               wakeup = (if delta < wakeup then delta else wakeup)
           in if wakeup < 0 then 0 else wakeup
      else wakeup)"

section \<open>The process clock (otime.c)\<close>

text \<open>The globals \<^verbatim>\<open>now\<close>, \<^verbatim>\<open>now_usec\<close> and \<^verbatim>\<open>now_adj\<close>.\<close>

record clock =
  now :: time
  now_usec :: int
  now_adj :: time

definition update_now :: "clock \<Rightarrow> time \<Rightarrow> clock" where
  "update_now k system_time =
     (let real_time = system_time + now_adj k
      in if real_time > now k
         then let overshoot = real_time - now k - 1
              in if overshoot > 86400 \<and> now_adj k \<ge> overshoot
                 then k\<lparr>now_adj := now_adj k - overshoot, now := real_time - overshoot\<rparr>
                 else k\<lparr>now := real_time\<rparr>
         else if real_time < now k - 10
         then k\<lparr>now_adj := now_adj k + (now k - real_time)\<rparr>
         else k)"

definition update_now_usec :: "clock \<Rightarrow> timeval \<Rightarrow> clock" where
  "update_now_usec k tv =
     (let k' = update_now k (tv_sec tv)
      in if now k' > now k \<or> (now k' = now k \<and> tv_usec tv > now_usec k')
         then k'\<lparr>now_usec := tv_usec tv\<rparr> else k')"

text \<open>\<^verbatim>\<open>openvpn_gettimeofday\<close>, with the result of \<^verbatim>\<open>gettimeofday\<close> as argument (\<open>None\<close> if it fails).\<close>

definition openvpn_gettimeofday :: "clock \<Rightarrow> timeval option \<Rightarrow> (timeval \<times> clock) option" where
  "openvpn_gettimeofday k sys =
     (case sys of None \<Rightarrow> None
      | Some tv \<Rightarrow> (let k = update_now_usec k tv in Some (\<lparr>tv_sec = now k, tv_usec = now_usec k\<rparr>, k)))"

definition update_time :: "clock \<Rightarrow> time \<Rightarrow> clock" where
  "update_time k system_time = (update_now k system_time)\<lparr>now_usec := 0\<rparr>"

section \<open>Frequency limits (otime.c)\<close>

record frequency_limit =
  fl_max :: int
  fl_per :: int
  fl_n :: int
  fl_reset :: time

definition frequency_limit_init :: "int \<Rightarrow> int \<Rightarrow> frequency_limit option" where
  "frequency_limit_init mx per =
     (if mx \<ge> 0 \<and> per \<ge> 0 then Some \<lparr>fl_max = mx, fl_per = per, fl_n = 0, fl_reset = 0\<rparr> else None)"

definition frequency_limit_event_allowed :: "time \<Rightarrow> frequency_limit \<Rightarrow> bool \<times> frequency_limit" where
  "frequency_limit_event_allowed nw f =
     (if fl_per f \<noteq> 0
      then let f = (if nw \<ge> fl_reset f + fl_per f then f\<lparr>fl_reset := nw, fl_n := 0\<rparr> else f);
               f = f\<lparr>fl_n := fl_n f + 1\<rparr>
           in (fl_n f \<le> fl_max f, f)
      else (True, f))"

section \<open>Intervals and recurring timers (interval.h, interval.c)\<close>

record interval =
  iv_refresh :: int
  iv_horizon :: int
  iv_future_trigger :: time
  iv_last_action :: time
  iv_last_test_true :: time

definition interval_init :: "int \<Rightarrow> int \<Rightarrow> interval" where
  "interval_init horizon refresh =
     \<lparr>iv_refresh = refresh, iv_horizon = horizon, iv_future_trigger = 0, iv_last_action = 0, iv_last_test_true = 0\<rparr>"

definition interval_test :: "time \<Rightarrow> interval \<Rightarrow> bool \<times> interval" where
  "interval_test nw iv =
     (let trigger = (iv_future_trigger iv \<noteq> 0 \<and> nw \<ge> iv_future_trigger iv);
          iv = (if trigger then iv\<lparr>iv_future_trigger := 0\<rparr> else iv)
      in if iv_last_action iv + iv_horizon iv > nw \<or> iv_last_test_true iv + iv_refresh iv \<le> nw \<or> trigger
         then (True, iv\<lparr>iv_last_test_true := nw\<rparr>) else (False, iv))"

definition interval_schedule_wakeup :: "time \<Rightarrow> interval \<Rightarrow> int \<Rightarrow> int" where
  "interval_schedule_wakeup nw iv wakeup =
     interval_earliest_wakeup
       (interval_earliest_wakeup wakeup (iv_last_test_true iv + iv_refresh iv) nw) (iv_future_trigger iv) nw"

definition interval_future_trigger :: "time \<Rightarrow> interval \<Rightarrow> int \<Rightarrow> interval" where
  "interval_future_trigger nw iv wakeup =
     (if wakeup \<noteq> 0 then iv\<lparr>iv_future_trigger := nw + wakeup\<rparr> else iv)"

definition interval_action :: "time \<Rightarrow> interval \<Rightarrow> interval" where
  "interval_action nw iv = iv\<lparr>iv_last_action := nw\<rparr>"

record event_timeout =
  et_defined :: bool
  et_n :: int
  et_last :: time

definition event_timeout_clear :: event_timeout where
  "event_timeout_clear = \<lparr>et_defined = False, et_n = 0, et_last = 0\<rparr>"

definition event_timeout_init :: "int \<Rightarrow> time \<Rightarrow> event_timeout" where
  "event_timeout_init n local_now = \<lparr>et_defined = True, et_n = (if n \<ge> 0 then n else 0), et_last = local_now\<rparr>"

definition event_timeout_reset :: "time \<Rightarrow> event_timeout \<Rightarrow> event_timeout" where
  "event_timeout_reset nw et = (if et_defined et then et\<lparr>et_last := nw\<rparr> else et)"

definition event_timeout_modify_wakeup :: "event_timeout \<Rightarrow> int \<Rightarrow> event_timeout" where
  "event_timeout_modify_wakeup et n = (if et_defined et then et\<lparr>et_n := (if n \<ge> 0 then n else 0)\<rparr> else et)"

definition event_timeout_remaining :: "time \<Rightarrow> event_timeout \<Rightarrow> int" where
  "event_timeout_remaining nw et = c_int (et_last et - nw + et_n et)"

text \<open>The timeval argument may be a null pointer.\<close>

definition event_timeout_trigger ::
  "time \<Rightarrow> event_timeout \<Rightarrow> timeval option \<Rightarrow> int \<Rightarrow> bool \<times> event_timeout \<times> timeval option" where
  "event_timeout_trigger nw et tv et_const_retry =
     (if et_defined et
      then let wakeup = et_last et - nw + et_n et;
               (ret, et, wakeup) =
                 (if wakeup \<le> 0
                  then if et_const_retry < 0 then (True, et\<lparr>et_last := nw\<rparr>, et_n et)
                       else (False, et, et_const_retry)
                  else (False, et, wakeup));
               tv = (case tv of None \<Rightarrow> None
                     | Some t \<Rightarrow> Some (if wakeup < tv_sec t then \<lparr>tv_sec = wakeup, tv_usec = 0\<rparr> else t))
           in (ret, et, tv)
      else (False, et, tv))"

section \<open>The traffic shaper's wakeup (shaper.c)\<close>

definition shaper_soonest_event :: "timeval \<Rightarrow> int \<Rightarrow> bool \<times> timeval" where
  "shaper_soonest_event tv delay =
     (if delay < 1000000
      then if tv_sec tv \<noteq> 0 then (True, \<lparr>tv_sec = 0, tv_usec = delay\<rparr>)
           else if delay < tv_usec tv then (True, tv\<lparr>tv_usec := delay\<rparr>)
           else (False, tv)
      else let sec = delay div 1000000; usec = delay mod 1000000
           in if sec < tv_sec tv then (True, \<lparr>tv_sec = sec, tv_usec = usec\<rparr>)
              else if sec = tv_sec tv
              then if usec < tv_usec tv then (True, tv\<lparr>tv_usec := usec\<rparr>) else (False, tv)
              else (False, tv))"

section \<open>Time arithmetic\<close>

definition usecs :: "timeval \<Rightarrow> int" where
  "usecs tv = tv_sec tv * 1000000 + tv_usec tv"

definition tv_ok :: "timeval \<Rightarrow> bool" where
  "tv_ok tv \<longleftrightarrow> 0 \<le> tv_usec tv \<and> tv_usec tv < 1000000"

lemma tv_lt_usecs: "tv_ok t1 \<Longrightarrow> tv_ok t2 \<Longrightarrow> tv_lt t1 t2 \<longleftrightarrow> usecs t1 < usecs t2"
  by (auto simp: tv_lt_def usecs_def tv_ok_def)

lemma tv_subtract_usecs:
  assumes "tv_ok t1" "tv_ok t2" "\<bar>tv_sec t1 - tv_sec t2\<bar> < 2 ^ 31" "0 \<le> m"
  shows "tv_subtract t1 t2 m = max (- (m * 1000000)) (min (m * 1000000) (usecs t1 - usecs t2))"
proof -
  have "c_int (tv_sec t1 - tv_sec t2) = tv_sec t1 - tv_sec t2" using assms(3) by (intro c_int_small) auto
  then show ?thesis
    using assms(1,2,4) by (auto simp: tv_subtract_def Let_def constrain_int_def usecs_def tv_ok_def)
qed

lemma tv_within_sigma_iff:
  assumes "tv_ok t1" "tv_ok t2" "\<bar>tv_sec t1 - tv_sec t2\<bar> < 2 ^ 31" "0 \<le> sigma" "sigma < 600000000"
  shows "tv_within_sigma t1 t2 sigma \<longleftrightarrow> \<bar>usecs t1 - usecs t2\<bar> \<le> sigma"
  using tv_subtract_usecs [OF assms(1-3), of 600] assms(4,5)
  by (auto simp: tv_within_sigma_def TV_WITHIN_SIGMA_MAX_SEC_def Let_def)

text \<open>
  C29. \<^verbatim>\<open>tv_add\<close> yields a normalised time, but carries at \<open>2 ^ 20\<close> microseconds as if these were a second:
  each carry by the shift makes the sum 48576 microseconds too early, and the sum is exact only if
  the microseconds add up to less than \<open>2 ^ 20\<close>.
\<close>

theorem tv_add_error:
  assumes "0 \<le> tv_usec d" "0 \<le> tv_usec s"
  shows "tv_ok (tv_add d s) \<and>
    usecs (tv_add d s) = usecs d + usecs s - 48576 * ((tv_usec d + tv_usec s) div 2 ^ 20)"
proof -
  let ?u = "tv_usec d + tv_usec s"
  have a: "?u AND 0x000FFFFF = ?u mod 2 ^ 20"
    unfolding take_bit_eq_mod [symmetric] take_bit_eq_mask mask_eq_exp_minus_1 by simp
  have b: "drop_bit 20 ?u = ?u div 2 ^ 20" by (rule drop_bit_eq_div)
  have "?u mod 2 ^ 20 < 2 ^ 20" "0 \<le> ?u mod 2 ^ 20" by simp_all
  moreover have "?u = 2 ^ 20 * (?u div 2 ^ 20) + ?u mod 2 ^ 20" by simp
  ultimately show ?thesis
    by (auto simp: tv_add_def Let_def usecs_def tv_ok_def a b)
qed

theorem tv_add_error_witness:
  "usecs (tv_add \<lparr>tv_sec = 7, tv_usec = 900000\<rparr> \<lparr>tv_sec = 0, tv_usec = 600000\<rparr>) = 8451424"
  using tv_add_error [of "\<lparr>tv_sec = 7, tv_usec = 900000\<rparr>" "\<lparr>tv_sec = 0, tv_usec = 600000\<rparr>"]
  by (simp add: usecs_def)

lemma tv_borrow_small:
  assumes "- 1000000 \<le> usec"
  shows "tv_borrow sec usec = (if usec < 0 then (sec - 1, usec + 1000000) else (sec, usec))"
  using assms by (subst tv_borrow.simps, subst tv_borrow.simps) auto

text \<open>
  C30. The borrowing loop of \<^verbatim>\<open>tv_delta\<close> ends, and the result is the time from the first to the second
  argument, zero if the second is earlier.
\<close>

theorem tv_delta_correct:
  assumes "tv_ok t1" "tv_ok t2" "\<bar>tv_sec t2 - tv_sec t1\<bar> < 2 ^ 31"
  shows "tv_ok (tv_delta t1 t2) \<and> usecs (tv_delta t1 t2) = max 0 (usecs t2 - usecs t1)"
proof -
  have b: "- 1000000 \<le> tv_usec t2 - tv_usec t1" using assms by (auto simp: tv_ok_def)
  have "c_int (tv_sec t2 - tv_sec t1) = tv_sec t2 - tv_sec t1" "c_int (tv_usec t2 - tv_usec t1) = tv_usec t2 - tv_usec t1"
    using assms by (auto simp: tv_ok_def intro!: c_int_small)
  with tv_borrow_small [OF b] show ?thesis
    using assms by (auto simp: tv_delta_def Let_def usecs_def tv_ok_def)
qed

theorem tv_delta_correct_witness:
  "usecs (tv_delta \<lparr>tv_sec = 3, tv_usec = 900000\<rparr> \<lparr>tv_sec = 5, tv_usec = 100000\<rparr>) = 1200000"
  using tv_delta_correct [of "\<lparr>tv_sec = 3, tv_usec = 900000\<rparr>" "\<lparr>tv_sec = 5, tv_usec = 100000\<rparr>"]
  by (simp add: usecs_def tv_ok_def)

section \<open>The clock does not go back\<close>

fun clock_run :: "clock \<Rightarrow> timeval list \<Rightarrow> clock list" where
  "clock_run k [] = [k]"
| "clock_run k (tv # tvs) = k # clock_run (update_now_usec k tv) tvs"

definition clock_le :: "clock \<Rightarrow> clock \<Rightarrow> bool" where
  "clock_le k k' \<longleftrightarrow> now k < now k' \<or> now k = now k' \<and> now_usec k \<le> now_usec k'"

lemma clock_le_trans: "clock_le a b \<Longrightarrow> clock_le b c \<Longrightarrow> clock_le a c"
  by (auto simp: clock_le_def)

lemma update_now_now: "now (update_now k t) \<ge> now k" "0 \<le> now_adj k \<Longrightarrow> 0 \<le> now_adj (update_now k t)"
  "now_usec (update_now k t) = now_usec k"
  by (auto simp: update_now_def Let_def)

lemma update_now_usec_le: "clock_le k (update_now_usec k tv)" "0 \<le> now_adj k \<Longrightarrow> 0 \<le> now_adj (update_now_usec k tv)"
  using update_now_now [of k "tv_sec tv"] by (auto simp: update_now_usec_def Let_def clock_le_def)

lemma clock_run_from: "k' \<in> set (clock_run k tvs) \<Longrightarrow> clock_le k k' \<and> (0 \<le> now_adj k \<longrightarrow> 0 \<le> now_adj k')"
proof (induction k tvs rule: clock_run.induct)
  case (2 k tv tvs)
  then show ?case
    using update_now_usec_le [of k tv] clock_le_trans by (auto simp: clock_le_def)
qed (simp add: clock_le_def)


section \<open>Recurring timers\<close>

text \<open>Polling a timer: the times at which it fired, and the timer.\<close>

fun poll_timer :: "event_timeout \<Rightarrow> time list \<Rightarrow> time list \<times> event_timeout" where
  "poll_timer et [] = ([], et)"
| "poll_timer et (t # ts) =
     (let (fired, et, _) = event_timeout_trigger t et None (- 1);
          (fs, et) = poll_timer et ts
      in (if fired then t # fs else fs, et))"

text \<open>What a recurring timer of \<open>n\<close> seconds promises: it fires at a poll iff \<open>n\<close> seconds have passed since it last did.\<close>

fun timer_spec :: "int \<Rightarrow> time \<Rightarrow> time list \<Rightarrow> time list" where
  "timer_spec n from [] = []"
| "timer_spec n from (t # ts) = (if t \<ge> from + n then t # timer_spec n t ts else timer_spec n from ts)"

lemma poll_timer_eq:
  assumes "et_defined et"
  shows "fst (poll_timer et ts) = timer_spec (et_n et) (et_last et) ts"
  using assms
proof (induction ts arbitrary: et)
  case (Cons t ts)
  then show ?case
    by (cases "et_last et - t + et_n et \<le> 0") (auto simp: event_timeout_trigger_def Let_def split_beta)
qed simp

lemma timer_spec_spaced:
  assumes "fs = timer_spec n from ts"
  shows "(\<forall>t \<in> set (take 1 fs). t \<ge> from + n) \<and> (\<forall>i. Suc i < length fs \<longrightarrow> fs ! Suc i \<ge> fs ! i + n)"
  using assms
proof (induction ts arbitrary: "from" fs)
  case (Cons t ts)
  show ?case
  proof (cases "t \<ge> from + n")
    case True
    define gs where "gs = timer_spec n t ts"
    have "fs = t # gs" using True Cons.prems gs_def by simp
    moreover have "\<forall>t' \<in> set (take 1 gs). t' \<ge> t + n" "\<forall>i. Suc i < length gs \<longrightarrow> gs ! Suc i \<ge> gs ! i + n"
      using Cons.IH [OF gs_def] by auto
    ultimately show ?thesis using True
      by (cases gs) (auto simp: nth_Cons split: nat.splits)
  next
    case False
    then show ?thesis using Cons by simp
  qed
qed simp

text \<open>
  A recurring timer (\<^verbatim>\<open>event_timeout_trigger\<close> with \<^verbatim>\<open>ETT_DEFAULT\<close>) fires at exactly the polls at which
  its interval has passed since it last fired, so firings are at least \<open>n\<close> seconds apart; and when it
  does not fire, the wakeup time it leaves in the caller's timeval is no later than its due time.
\<close>

lemma recurring_timer:
  assumes "0 \<le> n"
  shows "let fs = fst (poll_timer (event_timeout_init n start) ts) in
    fs = timer_spec n start ts \<and> (\<forall>i. Suc i < length fs \<longrightarrow> fs ! Suc i \<ge> fs ! i + n) \<and>
    (\<forall>et tv t et' tv'. et_defined et \<and> event_timeout_trigger t et (Some tv) (- 1) = (False, et', Some tv') \<longrightarrow>
       et' = et \<and> t + tv_sec tv' \<le> et_last et + et_n et)"
proof -
  define et where "et = event_timeout_init n start"
  have "fst (poll_timer et ts) = timer_spec n start ts"
    using poll_timer_eq [of et ts] assms by (simp add: et_def event_timeout_init_def)
  moreover have "\<forall>i. Suc i < length fs \<longrightarrow> fs ! Suc i \<ge> fs ! i + n" if "fs = timer_spec n start ts" for fs
    using timer_spec_spaced [OF that] by blast
  moreover have "et' = et \<and> t + tv_sec tv' \<le> et_last et + et_n et"
    if "et_defined et" "event_timeout_trigger t et (Some tv) (- 1) = (False, et', Some tv')" for et et' tv tv' t
    using that by (auto simp: event_timeout_trigger_def Let_def split: if_splits)
  ultimately show ?thesis unfolding Let_def et_def by metis
qed

lemma recurring_timer_witness:
  "fst (poll_timer (event_timeout_init 10 100) [105, 110, 111, 125, 130, 140]) = [110, 125, 140]"
  using recurring_timer [of 10 100 "[105, 110, 111, 125, 130, 140]"] by (simp add: Let_def)

text \<open>
  C31. With a retry interval the function never reports a signal, although its comment says that it
  then returns true: the timer stays due, and only the caller's wakeup time is shortened.
\<close>

theorem retry_timer_never_fires:
  assumes "0 \<le> retry"
  shows "\<exists>tv'. event_timeout_trigger t et tv retry = (False, et, tv')"
  using assms by (simp add: event_timeout_trigger_def Let_def)

theorem retry_timer_never_fires_witness:
  "\<exists>tv'. event_timeout_trigger 500 (event_timeout_init 10 100) None 15 = (False, event_timeout_init 10 100, tv')"
  using retry_timer_never_fires [of 15 500] by simp

section \<open>Frequency limits\<close>

fun limit_run :: "frequency_limit \<Rightarrow> time list \<Rightarrow> bool list \<times> frequency_limit" where
  "limit_run f [] = ([], f)"
| "limit_run f (t # ts) =
     (let (ok, f) = frequency_limit_event_allowed t f; (oks, f) = limit_run f ts in (ok # oks, f))"

definition n_allowed :: "bool list \<Rightarrow> nat" where
  "n_allowed oks = length (filter id oks)"

lemma limit_run_const: "fl_max (snd (limit_run f ts)) = fl_max f" "fl_per (snd (limit_run f ts)) = fl_per f"
  "0 \<le> fl_n f \<Longrightarrow> 0 \<le> fl_n (snd (limit_run f ts))"
  by (induction ts arbitrary: f) (auto simp: frequency_limit_event_allowed_def Let_def split_beta)

lemma limit_run_no_reset:
  assumes "\<forall>t \<in> set ts. t < fl_reset f + fl_per f" "fl_per f \<noteq> 0" "0 \<le> fl_n f"
  shows "n_allowed (fst (limit_run f ts)) \<le> nat (fl_max f - fl_n f)"
  using assms
proof (induction ts arbitrary: f)
  case (Cons t ts)
  let ?f = "f\<lparr>fl_n := fl_n f + 1\<rparr>"
  have "n_allowed (fst (limit_run ?f ts)) \<le> nat (fl_max ?f - fl_n ?f)" by (rule Cons.IH) (use Cons.prems in auto)
  then show ?case using Cons.prems
    by (auto simp: n_allowed_def frequency_limit_event_allowed_def Let_def split_beta)
qed (simp add: n_allowed_def)

lemma limit_run_window:
  assumes "\<forall>t \<in> set ts. a \<le> t \<and> t < a + fl_per f" "fl_per f \<noteq> 0" "0 \<le> fl_n f" "0 \<le> fl_max f"
  shows "n_allowed (fst (limit_run f ts)) \<le> nat (fl_max f - fl_n f) + nat (fl_max f)"
  using assms
proof (induction ts arbitrary: f)
  case (Cons t ts)
  show ?case
  proof (cases "t \<ge> fl_reset f + fl_per f")
    case True
    let ?f = "f\<lparr>fl_reset := t, fl_n := 1\<rparr>"
    have "n_allowed (fst (limit_run ?f ts)) \<le> nat (fl_max ?f - fl_n ?f)"
      by (rule limit_run_no_reset) (use Cons.prems in force)+
    then show ?thesis using True Cons.prems
      by (auto simp: n_allowed_def frequency_limit_event_allowed_def Let_def split_beta)
  next
    case False
    let ?f = "f\<lparr>fl_n := fl_n f + 1\<rparr>"
    have "n_allowed (fst (limit_run ?f ts)) \<le> nat (fl_max ?f - fl_n ?f) + nat (fl_max ?f)"
      by (rule Cons.IH) (use Cons.prems in auto)
    then show ?thesis using False Cons.prems
      by (auto simp: n_allowed_def frequency_limit_event_allowed_def Let_def split_beta)
  qed
qed (simp add: n_allowed_def)

text \<open>
  C28. A frequency limit of \<open>max\<close> events per \<open>per\<close> seconds never lets through more than twice \<open>max\<close> events
  within any \<open>per\<close> seconds, whatever came before.
\<close>

theorem frequency_limit_bound:
  assumes "frequency_limit_init mx per = Some f" "0 < per" "\<forall>t \<in> set ts. a \<le> t \<and> t < a + per"
  shows "n_allowed (fst (limit_run (snd (limit_run f before)) ts)) \<le> 2 * nat mx"
proof -
  have f: "fl_max f = mx" "fl_per f = per" "0 \<le> mx" "0 \<le> fl_n f"
    using assms(1) by (auto simp: frequency_limit_init_def split: if_splits)
  let ?g = "snd (limit_run f before)"
  have "n_allowed (fst (limit_run ?g ts)) \<le> nat (fl_max ?g - fl_n ?g) + nat (fl_max ?g)"
    by (rule limit_run_window) (use assms(2,3) f in \<open>simp_all add: limit_run_const\<close>)
  moreover have "nat (mx - fl_n ?g) \<le> nat mx" using limit_run_const(3) [OF f(4), of before] by simp
  ultimately show ?thesis using f by (simp add: limit_run_const)
qed

theorem frequency_limit_bound_witness:
  "n_allowed (fst (limit_run (snd (limit_run \<lparr>fl_max = 2, fl_per = 10, fl_n = 0, fl_reset = 0\<rparr> [50, 58]))
     [59, 59, 60, 61, 62])) \<le> 4"
  using frequency_limit_bound [of 2 10 "\<lparr>fl_max = 2, fl_per = 10, fl_n = 0, fl_reset = 0\<rparr>" "[59, 59, 60, 61, 62]" 59 "[50, 58]"]
  by (simp add: frequency_limit_init_def)

section \<open>The shaper's wakeup\<close>

text \<open>
  \<^verbatim>\<open>shaper_soonest_event\<close> replaces the wakeup time by the delay exactly when the delay is sooner.
\<close>

lemma shaper_soonest_event_min:
  assumes "tv_ok tv" "0 \<le> tv_sec tv" "0 \<le> delay"
  shows "let (changed, tv') = shaper_soonest_event tv delay in
    tv_ok tv' \<and> usecs tv' = min (usecs tv) delay \<and> (changed \<longleftrightarrow> delay < usecs tv)"
proof -
  define sec usec where "sec = delay div 1000000" and "usec = delay mod 1000000"
  have d: "delay = 1000000 * sec + usec" "0 \<le> usec" "usec < 1000000" by (simp_all add: sec_def usec_def)
  show ?thesis
    unfolding shaper_soonest_event_def sec_def [symmetric] usec_def [symmetric]
    using assms d by (auto simp: Let_def usecs_def tv_ok_def min_def split: if_splits) arith
qed

theorem shaper_soonest_event_min_witness:
  "usecs (snd (shaper_soonest_event \<lparr>tv_sec = 2, tv_usec = 500000\<rparr> 1200000)) = 1200000"
  using shaper_soonest_event_min [of "\<lparr>tv_sec = 2, tv_usec = 500000\<rparr>" 1200000]
  by (simp add: tv_ok_def usecs_def split_beta)

end
