(* ===== verification/Timer_Queue.thy ===== *)
theory Timer_Queue
  imports Timers
begin

text \<open>
  What the server's event loop relies on in its schedule: the interface of \<^verbatim>\<open>schedule.h\<close> with the laws its
  callers (\<^verbatim>\<open>multi_schedule_context_wakeup\<close>, \<^verbatim>\<open>multi_get_timeout_instance\<close>) use, and what follows
  from these laws for a run of operations. The contents is a map from entries to wakeup times.
\<close>

type_synonym timer_map = "nat \<rightharpoonup> timeval"

text \<open>An entry whose wakeup time is already within \<open>sigma\<close> of the requested one is left as it is.\<close>

definition timer_set :: "timer_map \<Rightarrow> nat \<Rightarrow> timeval \<Rightarrow> int \<Rightarrow> timer_map" where
  "timer_set m e tv sigma =
     (case m e of
        Some u \<Rightarrow> if sigma \<noteq> 0 \<and> tv_within_sigma tv u sigma then m else m(e \<mapsto> tv)
      | None \<Rightarrow> m(e \<mapsto> tv))"

definition is_earliest :: "timer_map \<Rightarrow> (nat \<times> timeval) option \<Rightarrow> bool" where
  "is_earliest m r \<longleftrightarrow>
     (case r of
        None \<Rightarrow> m = Map.empty
      | Some (e, tv) \<Rightarrow> m e = Some tv \<and> (\<forall>x u. m x = Some u \<longrightarrow> \<not> tv_lt u tv))"

text \<open>The argument of type \<open>'r\<close> is the source of random numbers of a call.\<close>

datatype 'r timer_op = Set nat timeval int 'r | Cancel nat | Earliest

fun timer_run ::
  "('s \<Rightarrow> nat \<Rightarrow> timeval \<Rightarrow> int \<Rightarrow> 'r \<Rightarrow> 's option) \<Rightarrow> ('s \<Rightarrow> nat \<Rightarrow> 's option) \<Rightarrow>
    ('s \<Rightarrow> ('s \<times> (nat \<times> timeval) option) option) \<Rightarrow> 's \<Rightarrow> 'r timer_op list \<Rightarrow>
    ((nat \<times> timeval) option list \<times> 's) option" where
  "timer_run add rem ear s [] = Some ([], s)"
| "timer_run add rem ear s (Set e tv sigma r # ops) = do { s \<leftarrow> add s e tv sigma r; timer_run add rem ear s ops }"
| "timer_run add rem ear s (Cancel e # ops) = do { s \<leftarrow> rem s e; timer_run add rem ear s ops }"
| "timer_run add rem ear s (Earliest # ops) =
     do { (s, out) \<leftarrow> ear s; (outs, s) \<leftarrow> timer_run add rem ear s ops; Some (out # outs, s) }"

text \<open>The answers that a run may give, from the contents \<open>m\<close> on.\<close>

fun timer_outs :: "timer_map \<Rightarrow> 'r timer_op list \<Rightarrow> (nat \<times> timeval) option list \<Rightarrow> bool" where
  "timer_outs m [] outs \<longleftrightarrow> outs = []"
| "timer_outs m (Set e tv sigma r # ops) outs \<longleftrightarrow> timer_outs (timer_set m e tv sigma) ops outs"
| "timer_outs m (Cancel e # ops) outs \<longleftrightarrow> timer_outs (m(e := None)) ops outs"
| "timer_outs m (Earliest # ops) outs \<longleftrightarrow>
     (case outs of [] \<Rightarrow> False | out # outs \<Rightarrow> is_earliest m out \<and> timer_outs m ops outs)"

lemma card_dom_timer_set:
  "finite (dom m) \<Longrightarrow> finite (dom (timer_set m e tv sigma)) \<and> card (dom (timer_set m e tv sigma)) \<le> Suc (card (dom m))"
  by (auto simp: timer_set_def card_insert_if split: option.splits)

lemma card_dom_cancel:
  "finite (dom m) \<Longrightarrow> finite (dom (m(e := None))) \<and> card (dom (m(e := None))) \<le> card (dom m)"
  by (auto intro: card_mono)

locale timer_queue =
  fixes inv :: "'s \<Rightarrow> bool"
    and timers :: "'s \<Rightarrow> timer_map"
    and plenty :: "nat \<Rightarrow> 'r \<Rightarrow> bool"
    and add :: "'s \<Rightarrow> nat \<Rightarrow> timeval \<Rightarrow> int \<Rightarrow> 'r \<Rightarrow> 's option"
    and rem :: "'s \<Rightarrow> nat \<Rightarrow> 's option"
    and ear :: "'s \<Rightarrow> ('s \<times> (nat \<times> timeval) option) option"
  assumes finite_timers: "inv s \<Longrightarrow> finite (dom (timers s))"
    and add_law: "inv s \<Longrightarrow> card (dom (timers s)) \<le> n \<Longrightarrow> plenty n r \<Longrightarrow>
      \<exists>s'. add s e tv sigma r = Some s' \<and> inv s' \<and> timers s' = timer_set (timers s) e tv sigma"
    and rem_law: "inv s \<Longrightarrow> \<exists>s'. rem s e = Some s' \<and> inv s' \<and> timers s' = (timers s)(e := None)"
    and ear_law: "inv s \<Longrightarrow> \<exists>s' out. ear s = Some (s', out) \<and> inv s' \<and> timers s' = timers s \<and> is_earliest (timers s) out"
begin

text \<open>Every run succeeds, answers each query with an earliest timer, and keeps the invariant.\<close>

lemma run_correct:
  assumes "inv s" "card (dom (timers s)) + length ops \<le> n"
    and "\<forall>e tv sigma r. Set e tv sigma r \<in> set ops \<longrightarrow> plenty n r"
  shows "\<exists>outs s'. timer_run add rem ear s ops = Some (outs, s') \<and> timer_outs (timers s) ops outs \<and> inv s'"
  using assms
proof (induction ops arbitrary: s)
  case (Cons op ops)
  note fin = finite_timers [OF Cons.prems(1)]
  have sub: "\<forall>e tv sigma r. Set e tv sigma r \<in> set ops \<longrightarrow> plenty n r" using Cons.prems(3) by auto
  show ?case
  proof (cases op)
    case (Set e tv sigma r)
    have "card (dom (timers s)) \<le> n" "plenty n r" using Cons.prems Set by auto
    from add_law [OF Cons.prems(1) this] obtain s1 where
      s1: "add s e tv sigma r = Some s1" "inv s1" "timers s1 = timer_set (timers s) e tv sigma" by blast
    have "card (dom (timers s1)) + length ops \<le> n"
      using card_dom_timer_set [OF fin, of e tv sigma] Cons.prems(2) s1(3) by simp
    from Cons.IH [OF s1(2) this sub] show ?thesis using s1 Set by auto
  next
    case (Cancel e)
    from rem_law [OF Cons.prems(1)] obtain s1 where
      s1: "rem s e = Some s1" "inv s1" "timers s1 = (timers s)(e := None)" by blast
    have "card (dom (timers s1)) + length ops \<le> n"
      using card_dom_cancel [OF fin, of e] Cons.prems(2) unfolding s1(3) by simp
    from Cons.IH [OF s1(2) this sub] obtain outs s' where
      "timer_run add rem ear s1 ops = Some (outs, s')" "timer_outs ((timers s)(e := None)) ops outs" "inv s'"
      unfolding s1(3) by blast
    then show ?thesis using s1(1) Cancel by (intro exI [of _ outs] exI [of _ s']) simp
  next
    case Earliest
    from ear_law [OF Cons.prems(1)] obtain s1 out where
      s1: "ear s = Some (s1, out)" "inv s1" "timers s1 = timers s" "is_earliest (timers s) out" by blast
    have "card (dom (timers s1)) + length ops \<le> n" using Cons.prems(2) s1(3) by simp
    from Cons.IH [OF s1(2) this sub] show ?thesis using s1 Earliest by fastforce
  qed
qed simp

end

end
