(* ===== verification/Schedule.thy ===== *)
theory Schedule
  imports Timer_Queue "HOL-Library.Tree" "HOL-Library.Product_Lexorder"
begin

text \<open>
  The server's event schedule (\<^verbatim>\<open>schedule.c\<close>, \<^verbatim>\<open>schedule.h\<close>): a treap of entries linked by pointers to
  parent and children, ordered by wakeup time and balanced by random priorities. Entries live in a
  store and pointers are their numbers; the functions below update the links one by one, as the code
  does. The results of \<^verbatim>\<open>random()\<close> are an argument, a list from which calls take values.

  \<open>None\<close> is a failed assertion or, in the loops, a run that does not end.
\<close>

section \<open>State\<close>

record schedule_entry =
  se_tv :: timeval
  se_pri :: u32
  se_parent :: "nat option"
  se_lt :: "nat option"
  se_gt :: "nat option"

record schedule =
  entries :: "nat \<Rightarrow> schedule_entry"
  earliest_wakeup :: "nat option"
  sch_root :: "nat option"

definition upd :: "schedule \<Rightarrow> nat \<Rightarrow> (schedule_entry \<Rightarrow> schedule_entry) \<Rightarrow> schedule" where
  "upd s e f = s\<lparr>entries := (entries s)(e := f (entries s e))\<rparr>"

text \<open>Writing the parent link of a child that may be absent.\<close>

definition set_parent :: "schedule \<Rightarrow> nat option \<Rightarrow> nat option \<Rightarrow> schedule" where
  "set_parent s c p = (case c of None \<Rightarrow> s | Some x \<Rightarrow> upd s x (\<lambda>y. y\<lparr>se_parent := p\<rparr>))"

definition schedule_init :: "(nat \<Rightarrow> schedule_entry) \<Rightarrow> schedule" where
  "schedule_init store = \<lparr>entries = store, earliest_wakeup = None, sch_root = None\<rparr>"

definition IN_TREE :: "schedule_entry \<Rightarrow> bool" where
  "IN_TREE e \<longleftrightarrow> se_pri e \<noteq> 0"

section \<open>Private operations\<close>

definition schedule_set_pri :: "schedule \<Rightarrow> nat \<Rightarrow> u32 \<Rightarrow> schedule" where
  "schedule_set_pri s e rnd = upd s e (\<lambda>x. x\<lparr>se_pri := (if rnd < 1 then 1 else rnd)\<rparr>)"

definition schedule_entry_compare :: "schedule_entry \<Rightarrow> schedule_entry \<Rightarrow> int" where
  "schedule_entry_compare e1 e2 =
     (if tv_sec (se_tv e1) < tv_sec (se_tv e2) then - 1
      else if tv_sec (se_tv e1) > tv_sec (se_tv e2) then 1
      else if tv_usec (se_tv e1) < tv_usec (se_tv e2) then - 1
      else if tv_usec (se_tv e1) > tv_usec (se_tv e2) then 1
      else if se_pri e1 < se_pri e2 then - 1
      else if se_pri e1 > se_pri e2 then 1
      else 0)"

definition schedule_detach_parent :: "schedule \<Rightarrow> nat option \<Rightarrow> schedule option" where
  "schedule_detach_parent s e =
     (case e of
        None \<Rightarrow> Some s
      | Some e \<Rightarrow>
         (case se_parent (entries s e) of
            Some p \<Rightarrow>
              do { s \<leftarrow> (if se_lt (entries s p) = Some e then Some (upd s p (\<lambda>x. x\<lparr>se_lt := None\<rparr>))
                         else if se_gt (entries s p) = Some e then Some (upd s p (\<lambda>x. x\<lparr>se_gt := None\<rparr>))
                         else None);
                   Some (upd s e (\<lambda>x. x\<lparr>se_parent := None\<rparr>)) }
          | None \<Rightarrow> Some (if sch_root s = Some e then s\<lparr>sch_root := None\<rparr> else s)))"

definition schedule_rotate_up :: "schedule \<Rightarrow> nat option \<Rightarrow> schedule option" where
  "schedule_rotate_up s e =
     (case e of
        None \<Rightarrow> Some s
      | Some e \<Rightarrow>
         (case se_parent (entries s e) of
            None \<Rightarrow> Some s
          | Some p \<Rightarrow>
             (let lt = se_lt (entries s e);
                  gt = se_gt (entries s e);
                  gp = se_parent (entries s p)
              in do { s \<leftarrow> (case gp of
                              Some g \<Rightarrow>
                                if se_gt (entries s g) = Some p then Some (upd s g (\<lambda>x. x\<lparr>se_gt := Some e\<rparr>))
                                else if se_lt (entries s g) = Some p then Some (upd s g (\<lambda>x. x\<lparr>se_lt := Some e\<rparr>))
                                else None
                            | None \<Rightarrow> Some (s\<lparr>sch_root := Some e\<rparr>));
                      let s = upd s e (\<lambda>x. x\<lparr>se_parent := gp\<rparr>);
                      let s = upd s p (\<lambda>x. x\<lparr>se_parent := Some e\<rparr>);
                      if se_gt (entries s p) = Some e
                      then let s = upd s e (\<lambda>x. x\<lparr>se_lt := Some p\<rparr>);
                               s = upd s p (\<lambda>x. x\<lparr>se_gt := lt\<rparr>)
                           in Some (set_parent s lt (Some p))
                      else if se_lt (entries s p) = Some e
                      then let s = upd s e (\<lambda>x. x\<lparr>se_gt := Some p\<rparr>);
                               s = upd s p (\<lambda>x. x\<lparr>se_lt := gt\<rparr>)
                           in Some (set_parent s gt (Some p))
                      else None })))"

text \<open>The loop of \<^verbatim>\<open>schedule_remove_node\<close>: children of lesser priority are rotated up.\<close>

partial_function (option) remove_node_loop :: "schedule \<Rightarrow> nat \<Rightarrow> schedule option" where
  "remove_node_loop s e =
     (case (se_lt (entries s e), se_gt (entries s e)) of
        (None, None) \<Rightarrow> Some s
      | (Some l, Some g) \<Rightarrow>
          do { s \<leftarrow> (if se_pri (entries s l) < se_pri (entries s g)
                     then schedule_rotate_up s (Some l) else schedule_rotate_up s (Some g));
               remove_node_loop s e }
      | (Some l, None) \<Rightarrow> do { s \<leftarrow> schedule_rotate_up s (Some l); remove_node_loop s e }
      | (None, Some g) \<Rightarrow> do { s \<leftarrow> schedule_rotate_up s (Some g); remove_node_loop s e })"

declare remove_node_loop.simps [code]

definition schedule_remove_node :: "schedule \<Rightarrow> nat \<Rightarrow> schedule option" where
  "schedule_remove_node s e =
     do { s \<leftarrow> remove_node_loop s e;
          s \<leftarrow> schedule_detach_parent s (Some e);
          Some (upd s e (\<lambda>x. x\<lparr>se_pri := 0\<rparr>)) }"

text \<open>
  The descent of \<^verbatim>\<open>schedule_insert\<close> from node \<open>c\<close>; when the keys collide, another priority is drawn and
  the descent starts again at the root.
\<close>

partial_function (option) schedule_insert_loop :: "schedule \<Rightarrow> nat \<Rightarrow> nat \<Rightarrow> u32 list \<Rightarrow> schedule option" where
  "schedule_insert_loop s e c rs =
     (let comp = schedule_entry_compare (entries s e) (entries s c) in
      if comp = - 1
      then (case se_lt (entries s c) of
              Some l \<Rightarrow> schedule_insert_loop s e l rs
            | None \<Rightarrow> Some (upd (upd s c (\<lambda>x. x\<lparr>se_lt := Some e\<rparr>)) e (\<lambda>x. x\<lparr>se_parent := Some c\<rparr>)))
      else if comp = 1
      then (case se_gt (entries s c) of
              Some g \<Rightarrow> schedule_insert_loop s e g rs
            | None \<Rightarrow> Some (upd (upd s c (\<lambda>x. x\<lparr>se_gt := Some e\<rparr>)) e (\<lambda>x. x\<lparr>se_parent := Some c\<rparr>)))
      else (case (rs, sch_root s) of
              (r # rs, Some c) \<Rightarrow> schedule_insert_loop (schedule_set_pri s e r) e c rs
            | _ \<Rightarrow> None))"

declare schedule_insert_loop.simps [code]

definition schedule_insert :: "schedule \<Rightarrow> nat \<Rightarrow> u32 list \<Rightarrow> schedule option" where
  "schedule_insert s e rs = (case sch_root s of None \<Rightarrow> None | Some c \<Rightarrow> schedule_insert_loop s e c rs)"

text \<open>The loop at the end of \<^verbatim>\<open>schedule_add_modify\<close> that moves the node up.\<close>

partial_function (option) move_up_loop :: "schedule \<Rightarrow> nat \<Rightarrow> schedule option" where
  "move_up_loop s e =
     (case se_parent (entries s e) of
        Some p \<Rightarrow> if se_pri (entries s p) > se_pri (entries s e)
                  then do { s \<leftarrow> schedule_rotate_up s (Some e); move_up_loop s e } else Some s
      | None \<Rightarrow> Some s)"

declare move_up_loop.simps [code]

definition schedule_add_modify :: "schedule \<Rightarrow> nat \<Rightarrow> u32 list \<Rightarrow> schedule option" where
  "schedule_add_modify s e rs =
     do { s \<leftarrow> (if IN_TREE (entries s e) then schedule_remove_node s e else Some s);
          (s, rs) \<leftarrow> (case rs of [] \<Rightarrow> None | r # rs \<Rightarrow> Some (schedule_set_pri s e r, rs));
          s \<leftarrow> (if sch_root s \<noteq> None then schedule_insert s e rs else Some (s\<lparr>sch_root := Some e\<rparr>));
          move_up_loop s e }"

partial_function (option) find_least_loop :: "schedule \<Rightarrow> nat \<Rightarrow> nat option" where
  "find_least_loop s e = (case se_lt (entries s e) of Some l \<Rightarrow> find_least_loop s l | None \<Rightarrow> Some e)"

declare find_least_loop.simps [code]

definition schedule_find_least :: "schedule \<Rightarrow> nat option \<Rightarrow> nat option option" where
  "schedule_find_least s e =
     (case e of None \<Rightarrow> Some None | Some e \<Rightarrow> map_option Some (find_least_loop s e))"

section \<open>Public operations\<close>

definition schedule_remove_entry :: "schedule \<Rightarrow> nat \<Rightarrow> schedule option" where
  "schedule_remove_entry s e = schedule_remove_node (s\<lparr>earliest_wakeup := None\<rparr>) e"

definition schedule_add_entry :: "schedule \<Rightarrow> nat \<Rightarrow> timeval \<Rightarrow> int \<Rightarrow> u32 list \<Rightarrow> schedule option" where
  "schedule_add_entry s e tv sigma rs =
     (if \<not> IN_TREE (entries s e) \<or> sigma = 0 \<or> \<not> tv_within_sigma tv (se_tv (entries s e)) sigma
      then do { s \<leftarrow> schedule_add_modify (upd s e (\<lambda>x. x\<lparr>se_tv := tv\<rparr>)) e rs;
                Some (s\<lparr>earliest_wakeup := None\<rparr>) }
      else Some s)"

text \<open>The result is the entry and its wakeup time, or nothing in an empty schedule.\<close>

definition schedule_get_earliest_wakeup :: "schedule \<Rightarrow> (schedule \<times> (nat \<times> timeval) option) option" where
  "schedule_get_earliest_wakeup s =
     do { s \<leftarrow> (if earliest_wakeup s = None
                then do { e \<leftarrow> schedule_find_least s (sch_root s); Some (s\<lparr>earliest_wakeup := e\<rparr>) }
                else Some s);
          Some (s, map_option (\<lambda>e. (e, se_tv (entries s e))) (earliest_wakeup s)) }"

section \<open>The linked entries form a tree\<close>

fun tree_at :: "(nat \<Rightarrow> schedule_entry) \<Rightarrow> nat option \<Rightarrow> nat option \<Rightarrow> nat tree \<Rightarrow> bool" where
  "tree_at h p q \<langle>\<rangle> \<longleftrightarrow> q = None"
| "tree_at h p q \<langle>l, x, r\<rangle> \<longleftrightarrow> q = Some x \<and> se_parent (h x) = p \<and>
     tree_at h (Some x) (se_lt (h x)) l \<and> tree_at h (Some x) (se_gt (h x)) r"

text \<open>The way from the root to a subtree: the nodes passed, with the siblings.\<close>

datatype ctx = Top | InL ctx nat "nat tree" | InR "nat tree" nat ctx

fun fill :: "ctx \<Rightarrow> nat tree \<Rightarrow> nat tree" where
  "fill Top t = t"
| "fill (InL c x r) t = fill c \<langle>t, x, r\<rangle>"
| "fill (InR l x c) t = fill c \<langle>l, x, t\<rangle>"

fun ctx_set :: "ctx \<Rightarrow> nat set" where
  "ctx_set Top = {}"
| "ctx_set (InL c x r) = insert x (set_tree r \<union> ctx_set c)"
| "ctx_set (InR l x c) = insert x (set_tree l \<union> ctx_set c)"

fun ctx_left :: "ctx \<Rightarrow> nat list" where
  "ctx_left Top = []"
| "ctx_left (InL c x r) = ctx_left c"
| "ctx_left (InR l x c) = ctx_left c @ inorder l @ [x]"

fun ctx_right :: "ctx \<Rightarrow> nat list" where
  "ctx_right Top = []"
| "ctx_right (InL c x r) = x # inorder r @ ctx_right c"
| "ctx_right (InR l x c) = ctx_right c"

lemma inorder_fill: "inorder (fill c t) = ctx_left c @ inorder t @ ctx_right c"
  by (induction c arbitrary: t) auto

lemma ctx_set_eq: "ctx_set c = set (ctx_left c) \<union> set (ctx_right c)"
  by (induction c) auto

lemma set_fill: "set_tree (fill c t) = ctx_set c \<union> set_tree t"
  by (induction c arbitrary: t) auto

text \<open>The context \<open>c\<close> is in the store, with a subtree at \<open>q\<close> below \<open>p\<close> in its hole.\<close>

fun ctx_at :: "(nat \<Rightarrow> schedule_entry) \<Rightarrow> nat option \<Rightarrow> ctx \<Rightarrow> nat option \<Rightarrow> nat option \<Rightarrow> bool" where
  "ctx_at h rt Top p q \<longleftrightarrow> p = None \<and> q = rt"
| "ctx_at h rt (InL c x r) p q \<longleftrightarrow> p = Some x \<and> se_lt (h x) = q \<and>
     tree_at h (Some x) (se_gt (h x)) r \<and> ctx_at h rt c (se_parent (h x)) (Some x)"
| "ctx_at h rt (InR l x c) p q \<longleftrightarrow> p = Some x \<and> se_gt (h x) = q \<and>
     tree_at h (Some x) (se_lt (h x)) l \<and> ctx_at h rt c (se_parent (h x)) (Some x)"

lemma fill_tree_at: "tree_at h None rt (fill c t) \<longleftrightarrow> (\<exists>p q. ctx_at h rt c p q \<and> tree_at h p q t)"
  by (induction c arbitrary: t) auto

definition same_links :: "schedule_entry \<Rightarrow> schedule_entry \<Rightarrow> bool" where
  "same_links x y \<longleftrightarrow> se_parent x = se_parent y \<and> se_lt x = se_lt y \<and> se_gt x = se_gt y"

lemma tree_at_cong: "(\<And>x. x \<in> set_tree t \<Longrightarrow> same_links (h' x) (h x)) \<Longrightarrow> tree_at h' p q t \<longleftrightarrow> tree_at h p q t"
  by (induction t arbitrary: p q) (auto simp: same_links_def)

lemma ctx_at_cong:
  assumes "\<And>x. x \<in> ctx_set c \<Longrightarrow> same_links (h' x) (h x)"
  shows "ctx_at h' rt c p q \<longleftrightarrow> ctx_at h rt c p q"
  using assms
proof (induction c arbitrary: p q)
  case (InL c x r)
  have x: "se_parent (h' x) = se_parent (h x)" "se_lt (h' x) = se_lt (h x)" "se_gt (h' x) = se_gt (h x)"
    using InL.prems [of x] by (simp_all add: same_links_def)
  have "ctx_at h' rt c p q = ctx_at h rt c p q" for p q by (rule InL.IH) (use InL.prems in simp)
  moreover have "tree_at h' p q r = tree_at h p q r" for p q by (rule tree_at_cong) (use InL.prems in simp)
  ultimately show ?case by (simp add: x)
next
  case (InR l x c)
  have x: "se_parent (h' x) = se_parent (h x)" "se_lt (h' x) = se_lt (h x)" "se_gt (h' x) = se_gt (h x)"
    using InR.prems [of x] by (simp_all add: same_links_def)
  have "ctx_at h' rt c p q = ctx_at h rt c p q" for p q by (rule InR.IH) (use InR.prems in simp)
  moreover have "tree_at h' p q l = tree_at h p q l" for p q by (rule tree_at_cong) (use InR.prems in simp)
  ultimately show ?case by (simp add: x)
qed simp

lemma tree_at_root: "tree_at h p q t \<Longrightarrow> q = (case t of \<langle>\<rangle> \<Rightarrow> None | \<langle>_, x, _\<rangle> \<Rightarrow> Some x)"
  by (cases t) auto

lemma tree_at_inside: "tree_at h p (Some x) t \<Longrightarrow> x \<in> set_tree t"
  by (cases t) auto

text \<open>Another parent for a subtree.\<close>

lemma tree_at_reparent:
  assumes "tree_at h p q t" "distinct (inorder t)"
    and "\<And>x. q = Some x \<Longrightarrow> se_parent (h' x) = p' \<and> se_lt (h' x) = se_lt (h x) \<and> se_gt (h' x) = se_gt (h x)"
    and "\<And>x. x \<in> set_tree t \<Longrightarrow> q \<noteq> Some x \<Longrightarrow> same_links (h' x) (h x)"
  shows "tree_at h' p' q t"
proof (cases t)
  case (Node l x r)
  have q: "q = Some x" using assms(1) Node by simp
  have "tree_at h' p1 q1 l = tree_at h p1 q1 l" "tree_at h' p1 q1 r = tree_at h p1 q1 r" for p1 q1
    by (rule tree_at_cong; rule assms(4); use assms(2) Node q in auto)+
  then show ?thesis using assms Node by auto
qed (use assms in auto)

text \<open>Another subtree for a hole: the link of the node above the hole, or the root, is changed.\<close>

fun relink :: "ctx \<Rightarrow> nat option \<Rightarrow> schedule \<Rightarrow> schedule" where
  "relink Top q s = s\<lparr>sch_root := q\<rparr>"
| "relink (InL c x r) q s = upd s x (\<lambda>y. y\<lparr>se_lt := q\<rparr>)"
| "relink (InR l x c) q s = upd s x (\<lambda>y. y\<lparr>se_gt := q\<rparr>)"

lemma upd_simps [simp]:
  "entries (upd s x f) = (entries s)(x := f (entries s x))"
  "earliest_wakeup (upd s x f) = earliest_wakeup s" "sch_root (upd s x f) = sch_root s"
  by (simp_all add: upd_def)

lemma relink_other: "x \<notin> ctx_set c \<Longrightarrow> entries (relink c q s) x = entries s x"
  by (cases c) auto

lemma relink_data [simp]: "se_tv (entries (relink c q s) x) = se_tv (entries s x)"
  "se_pri (entries (relink c q s) x) = se_pri (entries s x)" "earliest_wakeup (relink c q s) = earliest_wakeup s"
  by (cases c; simp)+

definition ctx_distinct :: "ctx \<Rightarrow> bool" where
  "ctx_distinct c \<longleftrightarrow> distinct (ctx_left c @ ctx_right c)"

lemma ctx_distinct_simps:
  "ctx_distinct (InL c x r) \<longleftrightarrow> ctx_distinct c \<and> distinct (inorder r) \<and> x \<notin> ctx_set c \<and> x \<notin> set_tree r \<and>
     ctx_set c \<inter> set_tree r = {}"
  "ctx_distinct (InR l x c) \<longleftrightarrow> ctx_distinct c \<and> distinct (inorder l) \<and> x \<notin> ctx_set c \<and> x \<notin> set_tree l \<and>
     ctx_set c \<inter> set_tree l = {}"
  by (auto simp: ctx_distinct_def ctx_set_eq)

lemma distinct_fill: "distinct (inorder (fill c t)) \<longleftrightarrow>
  ctx_distinct c \<and> distinct (inorder t) \<and> ctx_set c \<inter> set_tree t = {}"
  by (auto simp: inorder_fill ctx_distinct_def ctx_set_eq)

lemma relink_ctx_at:
  assumes "ctx_at (entries s) (sch_root s) c p q" "ctx_distinct c"
  shows "ctx_at (entries (relink c q' s)) (sch_root (relink c q' s)) c p q'"
proof (cases c)
  case (InL c' x r)
  have "ctx_at (entries (relink c q' s)) (sch_root s) c' pp (Some x) = ctx_at (entries s) (sch_root s) c' pp (Some x)"
    "tree_at (entries (relink c q' s)) (Some x) g r = tree_at (entries s) (Some x) g r" for pp g
    using assms(2) InL by (auto simp: ctx_distinct_simps same_links_def intro!: ctx_at_cong tree_at_cong)
  then show ?thesis using assms(1) InL by simp
next
  case (InR l x c')
  have "ctx_at (entries (relink c q' s)) (sch_root s) c' pp (Some x) = ctx_at (entries s) (sch_root s) c' pp (Some x)"
    "tree_at (entries (relink c q' s)) (Some x) g l = tree_at (entries s) (Some x) g l" for pp g
    using assms(2) InR by (auto simp: ctx_distinct_simps same_links_def intro!: ctx_at_cong tree_at_cong)
  then show ?thesis using assms(1) InR by simp
qed (use assms in simp)

section \<open>Rotations\<close>

lemma ctx_link:
  assumes "ctx_at (entries s) (sch_root s) c gp (Some p)" "p \<notin> ctx_set c"
  shows "(case gp of
      Some g \<Rightarrow>
        if se_gt (entries s g) = Some p then Some (upd s g (\<lambda>x. x\<lparr>se_gt := q\<rparr>))
        else if se_lt (entries s g) = Some p then Some (upd s g (\<lambda>x. x\<lparr>se_lt := q\<rparr>))
        else None
    | None \<Rightarrow> Some (s\<lparr>sch_root := q\<rparr>)) = Some (relink c q s)"
  using assms by (cases c) (auto dest: tree_at_inside)

text \<open>What rotations leave alone: times, priorities and the entries outside the tree.\<close>

definition same_data :: "nat set \<Rightarrow> schedule \<Rightarrow> schedule \<Rightarrow> bool" where
  "same_data X s s' \<longleftrightarrow> earliest_wakeup s' = earliest_wakeup s \<and>
     (\<forall>x. se_tv (entries s' x) = se_tv (entries s x) \<and> se_pri (entries s' x) = se_pri (entries s x)) \<and>
     (\<forall>x. x \<notin> X \<longrightarrow> entries s' x = entries s x)"

lemma same_data_trans: "same_data X s s' \<Longrightarrow> same_data X s' s'' \<Longrightarrow> same_data X s s''"
  by (simp add: same_data_def)

lemma same_data_refl [simp]: "same_data X s s"
  by (simp add: same_data_def)

lemma set_parent_simps [simp]:
  "sch_root (set_parent s c p) = sch_root s" "earliest_wakeup (set_parent s c p) = earliest_wakeup s"
  "se_tv (entries (set_parent s c p) x) = se_tv (entries s x)"
  "se_pri (entries (set_parent s c p) x) = se_pri (entries s x)"
  "se_lt (entries (set_parent s c p) x) = se_lt (entries s x)"
  "se_gt (entries (set_parent s c p) x) = se_gt (entries s x)"
  "c \<noteq> Some x \<Longrightarrow> entries (set_parent s c p) x = entries s x"
  "c = Some x \<Longrightarrow> se_parent (entries (set_parent s c p) x) = p"
  by (cases c; auto simp: set_parent_def)+

text \<open>
  The store after a rotation of \<open>e\<close> over its parent \<open>p\<close>, where the subtree at \<open>m\<close> changes its parent: the
  links above are changed by \<open>relink\<close>, the nodes of the subtrees other than \<open>m\<close> keep their links.
\<close>

definition rotated :: "ctx \<Rightarrow> nat \<Rightarrow> nat \<Rightarrow> nat option \<Rightarrow> schedule \<Rightarrow> schedule \<Rightarrow> bool" where
  "rotated c e p m s s' \<longleftrightarrow> sch_root s' = sch_root (relink c (Some e) s) \<and> earliest_wakeup s' = earliest_wakeup s \<and>
     (\<forall>x. se_tv (entries s' x) = se_tv (entries s x) \<and> se_pri (entries s' x) = se_pri (entries s x)) \<and>
     (\<forall>x. x \<noteq> e \<and> x \<noteq> p \<longrightarrow> entries s' x = (if m = Some x then (entries s x)\<lparr>se_parent := Some p\<rparr>
        else entries (relink c (Some e) s) x))"

lemma rotated_entry:
  assumes "rotated c e p m s s'" "x \<noteq> e" "x \<noteq> p"
  shows "m = Some x \<Longrightarrow> entries s' x = (entries s x)\<lparr>se_parent := Some p\<rparr>"
    "m \<noteq> Some x \<Longrightarrow> entries s' x = entries (relink c (Some e) s) x"
  using assms by (simp_all add: rotated_def)

lemma rotated_ctx:
  assumes "rotated c e p m s s'" "ctx_at (entries s) (sch_root s) c gp q" "ctx_distinct c"
    and "e \<notin> ctx_set c" "p \<notin> ctx_set c" "\<And>x. m = Some x \<Longrightarrow> x \<notin> ctx_set c"
  shows "ctx_at (entries s') (sch_root s') c gp (Some e)"
proof -
  have "same_links (entries s' x) (entries (relink c (Some e) s) x)" if "x \<in> ctx_set c" for x
  proof -
    have "x \<noteq> e" "x \<noteq> p" "m \<noteq> Some x" using that assms(4-6) by auto
    then show ?thesis by (simp add: rotated_entry(2) [OF assms(1)] same_links_def)
  qed
  from ctx_at_cong [OF this] have "ctx_at (entries s') (sch_root s') c gp (Some e) =
      ctx_at (entries (relink c (Some e) s)) (sch_root s') c gp (Some e)" .
  then show ?thesis using relink_ctx_at [OF assms(2,3)] assms(1) by (simp add: rotated_def)
qed

lemma rotated_subtree:
  assumes "rotated c e p m s s'" "tree_at (entries s) r q t" "ctx_set c \<inter> set_tree t = {}"
    and "e \<notin> set_tree t" "p \<notin> set_tree t" "\<And>x. m = Some x \<Longrightarrow> x \<notin> set_tree t"
  shows "tree_at (entries s') r q t"
proof -
  have "same_links (entries s' x) (entries s x)" if "x \<in> set_tree t" for x
  proof -
    have "x \<notin> ctx_set c" "x \<noteq> e" "x \<noteq> p" "m \<noteq> Some x" using assms(3-6) that by auto
    then show ?thesis by (simp add: rotated_entry(2) [OF assms(1)] same_links_def relink_other)
  qed
  from tree_at_cong [OF this] show ?thesis using assms(2) by simp
qed

lemma rotated_moved:
  assumes "rotated c e p m s s'" "tree_at (entries s) r m t" "ctx_set c \<inter> set_tree t = {}"
    and "e \<notin> set_tree t" "p \<notin> set_tree t" "distinct (inorder t)"
  shows "tree_at (entries s') (Some p) m t"
proof (rule tree_at_reparent [OF assms(2,6)])
  fix x assume x: "m = Some x"
  then have "x \<in> set_tree t" using assms(2) by (auto dest: tree_at_inside)
  then have "x \<noteq> e" "x \<noteq> p" using assms(4,5) by auto
  then show "se_parent (entries s' x) = Some p \<and> se_lt (entries s' x) = se_lt (entries s x) \<and>
      se_gt (entries s' x) = se_gt (entries s x)"
    by (simp add: rotated_entry(1) [OF assms(1) _ _ x])
next
  fix x assume "x \<in> set_tree t" "m \<noteq> Some x"
  moreover then have "x \<notin> ctx_set c" "x \<noteq> e" "x \<noteq> p" using assms(3-5) by auto
  ultimately show "same_links (entries s' x) (entries s x)"
    by (simp add: rotated_entry(2) [OF assms(1)] same_links_def relink_other)
qed

lemma rotated_same_data:
  assumes "rotated c e p m s s'" "insert e (insert p (ctx_set c)) \<subseteq> X" "\<And>x. m = Some x \<Longrightarrow> x \<in> X"
  shows "same_data X s s'"
  unfolding same_data_def
proof (intro conjI allI impI)
  fix x assume "x \<notin> X"
  then have "x \<noteq> e" "x \<noteq> p" "x \<notin> ctx_set c" "m \<noteq> Some x" using assms(2,3) by auto
  then show "entries s' x = entries s x" by (simp add: rotated_entry(2) [OF assms(1)] relink_other)
qed (use assms(1) in \<open>simp_all add: rotated_def\<close>)

lemma rotate_up_left_child:
  assumes T: "tree_at (entries s) None (sch_root s) (fill c \<langle>\<langle>A, e, B\<rangle>, p, C\<rangle>)"
    and D: "distinct (inorder (fill c \<langle>\<langle>A, e, B\<rangle>, p, C\<rangle>))"
  shows "\<exists>s'. schedule_rotate_up s (Some e) = Some s' \<and>
    tree_at (entries s') None (sch_root s') (fill c \<langle>A, e, \<langle>B, p, C\<rangle>\<rangle>) \<and>
    same_data (set_tree (fill c \<langle>\<langle>A, e, B\<rangle>, p, C\<rangle>)) s s'"
proof -
  obtain gp where c: "ctx_at (entries s) (sch_root s) c gp (Some p)"
    and t: "tree_at (entries s) gp (Some p) \<langle>\<langle>A, e, B\<rangle>, p, C\<rangle>"
    using T unfolding fill_tree_at by auto
  have dc: "ctx_distinct c" "e \<notin> ctx_set c" "p \<notin> ctx_set c" "e \<noteq> p" "distinct (inorder B)" and
    dt: "ctx_set c \<inter> set_tree t = {}" "e \<notin> set_tree t" "p \<notin> set_tree t" if "t = A \<or> t = B \<or> t = C" for t
    using D that unfolding distinct_fill by auto
  note dc = dc [of B, simplified]
  have ab: "x \<notin> set_tree A" "x \<notin> set_tree C" if "x \<in> set_tree B" for x
    using D that unfolding distinct_fill by auto
  have tp: "se_parent (entries s p) = gp" "se_parent (entries s e) = Some p" "se_lt (entries s p) = Some e"
    "tree_at (entries s) (Some e) (se_lt (entries s e)) A" "tree_at (entries s) (Some e) (se_gt (entries s e)) B"
    "tree_at (entries s) (Some p) (se_gt (entries s p)) C" using t by auto
  have ng: "se_gt (entries s p) \<noteq> Some e" using tp(6) dt(2) [of C] by (auto dest: tree_at_inside)
  have m: "x \<in> set_tree B" if "se_gt (entries s e) = Some x" for x
    using tp(5) that by (auto dest: tree_at_inside)
  have mo: "x \<notin> ctx_set c" "x \<noteq> e" "x \<noteq> p" if "se_gt (entries s e) = Some x" for x
    using m [OF that] dt [of B] by auto
  define s1 where "s1 = relink c (Some e) s"
  have o: "entries s1 x = entries s x" if "x \<notin> ctx_set c" for x
    unfolding s1_def using that by (rule relink_other)
  define s' where "s' = set_parent (upd (upd (upd (upd s1 e (\<lambda>x. x\<lparr>se_parent := gp\<rparr>)) p (\<lambda>x. x\<lparr>se_parent := Some e\<rparr>))
    e (\<lambda>x. x\<lparr>se_gt := Some p\<rparr>)) p (\<lambda>x. x\<lparr>se_lt := se_gt (entries s e)\<rparr>)) (se_gt (entries s e)) (Some p)"
  have run: "schedule_rotate_up s (Some e) = Some s'"
    unfolding schedule_rotate_up_def option.case tp(1,2) Let_def ctx_link [OF c dc(3), of "Some e"]
    using ng tp(3) dc(4) o [OF dc(2)] o [OF dc(3)] by (simp add: s1_def s'_def)
  have rot: "rotated c e p (se_gt (entries s e)) s s'"
    unfolding rotated_def s1_def [symmetric]
    using mo o by (cases "se_gt (entries s e)") (auto simp: s'_def s1_def set_parent_def)
  have he: "se_parent (entries s' e) = gp" "se_lt (entries s' e) = se_lt (entries s e)" "se_gt (entries s' e) = Some p"
    and hp: "se_parent (entries s' p) = Some e" "se_lt (entries s' p) = se_gt (entries s e)"
      "se_gt (entries s' p) = se_gt (entries s p)"
    using mo(2,3) o [OF dc(2)] o [OF dc(3)] dc(4)
    by (cases "se_gt (entries s e)"; auto simp: s'_def set_parent_def)+
  have "ctx_at (entries s') (sch_root s') c gp (Some e)" by (rule rotated_ctx [OF rot c dc(1-3) mo(1)])
  moreover have "tree_at (entries s') gp (Some e) \<langle>A, e, \<langle>B, p, C\<rangle>\<rangle>"
    using rotated_subtree [OF rot tp(4)] rotated_subtree [OF rot tp(6)] rotated_moved [OF rot tp(5)] m ab dt dc(5)
    by (auto simp: he hp)
  ultimately have "tree_at (entries s') None (sch_root s') (fill c \<langle>A, e, \<langle>B, p, C\<rangle>\<rangle>)" unfolding fill_tree_at by blast
  moreover have "same_data (set_tree (fill c \<langle>\<langle>A, e, B\<rangle>, p, C\<rangle>)) s s'"
    by (rule rotated_same_data [OF rot]) (use m in \<open>auto simp: set_fill\<close>)
  ultimately show ?thesis using run by blast
qed

lemma rotate_up_right_child:
  assumes T: "tree_at (entries s) None (sch_root s) (fill c \<langle>A, p, \<langle>B, e, C\<rangle>\<rangle>)"
    and D: "distinct (inorder (fill c \<langle>A, p, \<langle>B, e, C\<rangle>\<rangle>))"
  shows "\<exists>s'. schedule_rotate_up s (Some e) = Some s' \<and>
    tree_at (entries s') None (sch_root s') (fill c \<langle>\<langle>A, p, B\<rangle>, e, C\<rangle>) \<and>
    same_data (set_tree (fill c \<langle>A, p, \<langle>B, e, C\<rangle>\<rangle>)) s s'"
proof -
  obtain gp where c: "ctx_at (entries s) (sch_root s) c gp (Some p)"
    and t: "tree_at (entries s) gp (Some p) \<langle>A, p, \<langle>B, e, C\<rangle>\<rangle>"
    using T unfolding fill_tree_at by auto
  have dc: "ctx_distinct c" "e \<notin> ctx_set c" "p \<notin> ctx_set c" "e \<noteq> p" "distinct (inorder B)" and
    dt: "ctx_set c \<inter> set_tree t = {}" "e \<notin> set_tree t" "p \<notin> set_tree t" if "t = A \<or> t = B \<or> t = C" for t
    using D that unfolding distinct_fill by auto
  note dc = dc [of B, simplified]
  have ab: "x \<notin> set_tree A" "x \<notin> set_tree C" if "x \<in> set_tree B" for x
    using D that unfolding distinct_fill by auto
  have tp: "se_parent (entries s p) = gp" "se_parent (entries s e) = Some p" "se_gt (entries s p) = Some e"
    "tree_at (entries s) (Some e) (se_gt (entries s e)) C" "tree_at (entries s) (Some e) (se_lt (entries s e)) B"
    "tree_at (entries s) (Some p) (se_lt (entries s p)) A" using t by auto
  have ng: "se_lt (entries s p) \<noteq> Some e" using tp(6) dt(2) [of A] by (auto dest: tree_at_inside)
  have m: "x \<in> set_tree B" if "se_lt (entries s e) = Some x" for x
    using tp(5) that by (auto dest: tree_at_inside)
  have mo: "x \<notin> ctx_set c" "x \<noteq> e" "x \<noteq> p" if "se_lt (entries s e) = Some x" for x
    using m [OF that] dt [of B] by auto
  define s1 where "s1 = relink c (Some e) s"
  have o: "entries s1 x = entries s x" if "x \<notin> ctx_set c" for x
    unfolding s1_def using that by (rule relink_other)
  define s' where "s' = set_parent (upd (upd (upd (upd s1 e (\<lambda>x. x\<lparr>se_parent := gp\<rparr>)) p (\<lambda>x. x\<lparr>se_parent := Some e\<rparr>))
    e (\<lambda>x. x\<lparr>se_lt := Some p\<rparr>)) p (\<lambda>x. x\<lparr>se_gt := se_lt (entries s e)\<rparr>)) (se_lt (entries s e)) (Some p)"
  have run: "schedule_rotate_up s (Some e) = Some s'"
    unfolding schedule_rotate_up_def option.case tp(1,2) Let_def ctx_link [OF c dc(3), of "Some e"]
    using ng tp(3) dc(4) o [OF dc(2)] o [OF dc(3)] by (simp add: s1_def s'_def)
  have rot: "rotated c e p (se_lt (entries s e)) s s'"
    unfolding rotated_def s1_def [symmetric]
    using mo o by (cases "se_lt (entries s e)") (auto simp: s'_def s1_def set_parent_def)
  have he: "se_parent (entries s' e) = gp" "se_gt (entries s' e) = se_gt (entries s e)" "se_lt (entries s' e) = Some p"
    and hp: "se_parent (entries s' p) = Some e" "se_gt (entries s' p) = se_lt (entries s e)"
      "se_lt (entries s' p) = se_lt (entries s p)"
    using mo(2,3) o [OF dc(2)] o [OF dc(3)] dc(4)
    by (cases "se_lt (entries s e)"; auto simp: s'_def set_parent_def)+
  have "ctx_at (entries s') (sch_root s') c gp (Some e)" by (rule rotated_ctx [OF rot c dc(1-3) mo(1)])
  moreover have "tree_at (entries s') gp (Some e) \<langle>\<langle>A, p, B\<rangle>, e, C\<rangle>"
    using rotated_subtree [OF rot tp(4)] rotated_subtree [OF rot tp(6)] rotated_moved [OF rot tp(5)] m ab dt dc(5)
    by (auto simp: he hp)
  ultimately have "tree_at (entries s') None (sch_root s') (fill c \<langle>\<langle>A, p, B\<rangle>, e, C\<rangle>)" unfolding fill_tree_at by blast
  moreover have "same_data (set_tree (fill c \<langle>A, p, \<langle>B, e, C\<rangle>\<rangle>)) s s'"
    by (rule rotated_same_data [OF rot]) (use m in \<open>auto simp: set_fill\<close>)
  ultimately show ?thesis using run by blast
qed

section \<open>Removal\<close>

definition is_tree :: "schedule \<Rightarrow> nat tree \<Rightarrow> bool" where
  "is_tree s t \<longleftrightarrow> tree_at (entries s) None (sch_root s) t \<and> distinct (inorder t)"

definition pri_of :: "schedule \<Rightarrow> nat \<Rightarrow> u32" where
  "pri_of s x = se_pri (entries s x)"

definition root_of :: "nat tree \<Rightarrow> nat option" where
  "root_of t = (case t of \<langle>\<rangle> \<Rightarrow> None | \<langle>_, x, _\<rangle> \<Rightarrow> Some x)"

lemma root_of_simps [simp]: "root_of \<langle>\<rangle> = None" "root_of \<langle>l, x, r\<rangle> = Some x"
  by (simp_all add: root_of_def)

lemma is_tree_links:
  assumes "is_tree s (fill c \<langle>l, x, r\<rangle>)"
  shows "se_lt (entries s x) = root_of l" "se_gt (entries s x) = root_of r"
  using assms tree_at_root unfolding is_tree_def fill_tree_at root_of_def by fastforce+

lemma same_data_pri: "same_data X s s' \<Longrightarrow> pri_of s' = pri_of s"
  by (auto simp: same_data_def pri_of_def)

lemma rotate_left_child:
  assumes "is_tree s (fill c \<langle>\<langle>A, e, B\<rangle>, p, C\<rangle>)"
  obtains s' where "schedule_rotate_up s (Some e) = Some s'" "is_tree s' (fill c \<langle>A, e, \<langle>B, p, C\<rangle>\<rangle>)"
    "same_data (set_tree (fill c \<langle>\<langle>A, e, B\<rangle>, p, C\<rangle>)) s s'"
  using rotate_up_left_child [of s c A e B p C] assms that by (auto simp: is_tree_def inorder_fill)

lemma rotate_right_child:
  assumes "is_tree s (fill c \<langle>A, p, \<langle>B, e, C\<rangle>\<rangle>)"
  obtains s' where "schedule_rotate_up s (Some e) = Some s'" "is_tree s' (fill c \<langle>\<langle>A, p, B\<rangle>, e, C\<rangle>)"
    "same_data (set_tree (fill c \<langle>A, p, \<langle>B, e, C\<rangle>\<rangle>)) s s'"
  using rotate_up_right_child [of s c A p B e C] assms that by (auto simp: is_tree_def inorder_fill)

text \<open>Rotating a node down until it has no children merges its subtrees.\<close>

fun merge :: "(nat \<Rightarrow> u32) \<Rightarrow> nat tree \<Rightarrow> nat tree \<Rightarrow> nat tree" where
  "merge pri \<langle>\<rangle> t = t"
| "merge pri \<langle>A, x, B\<rangle> \<langle>\<rangle> = \<langle>A, x, B\<rangle>"
| "merge pri \<langle>A, x, B\<rangle> \<langle>C, y, D\<rangle> =
     (if pri x < pri y then \<langle>A, x, merge pri B \<langle>C, y, D\<rangle>\<rangle> else \<langle>merge pri \<langle>A, x, B\<rangle> C, y, D\<rangle>)"

lemma merge_Leaf [simp]: "merge pri t \<langle>\<rangle> = t"
  by (cases t) auto

lemma inorder_merge: "inorder (merge pri l r) = inorder l @ inorder r"
  by (induction pri l r rule: merge.induct) auto

lemma set_merge: "set_tree (merge pri l r) = set_tree l \<union> set_tree r"
  using arg_cong [OF inorder_merge, of set] by simp

lemma remove_node_loop_ok:
  assumes "is_tree s (fill c \<langle>l, e, r\<rangle>)"
  shows "\<exists>s' c'. remove_node_loop s e = Some s' \<and> is_tree s' (fill c' \<langle>\<langle>\<rangle>, e, \<langle>\<rangle>\<rangle>) \<and>
    fill c' \<langle>\<rangle> = fill c (merge (pri_of s) l r) \<and> same_data (set_tree (fill c \<langle>l, e, r\<rangle>)) s s'"
  using assms
proof (induction "size l + size r" arbitrary: l r c s rule: less_induct)
  case less
  note links = is_tree_links [OF less.prems]
  have left: "\<exists>s' c'. do { s \<leftarrow> schedule_rotate_up s (Some x); remove_node_loop s e } = Some s' \<and>
      is_tree s' (fill c' \<langle>\<langle>\<rangle>, e, \<langle>\<rangle>\<rangle>) \<and> fill c' \<langle>\<rangle> = fill c \<langle>A, x, merge (pri_of s) B r\<rangle> \<and>
      same_data (set_tree (fill c \<langle>l, e, r\<rangle>)) s s'" if l: "l = \<langle>A, x, B\<rangle>" for A x B
  proof -
    obtain s1 where s1: "schedule_rotate_up s (Some x) = Some s1" "is_tree s1 (fill (InR A x c) \<langle>B, e, r\<rangle>)"
      "same_data (set_tree (fill c \<langle>l, e, r\<rangle>)) s s1"
      using rotate_left_child less.prems l by (metis fill.simps(3))
    have X: "set_tree (fill (InR A x c) \<langle>B, e, r\<rangle>) = set_tree (fill c \<langle>l, e, r\<rangle>)"
      by (auto simp: set_fill l)
    obtain s' c' where "remove_node_loop s1 e = Some s'" "is_tree s' (fill c' \<langle>\<langle>\<rangle>, e, \<langle>\<rangle>\<rangle>)"
      "fill c' \<langle>\<rangle> = fill (InR A x c) (merge (pri_of s1) B r)" "same_data (set_tree (fill c \<langle>l, e, r\<rangle>)) s1 s'"
      using less.hyps [OF _ s1(2)] unfolding X l by auto
    then show ?thesis using s1(1) same_data_trans [OF s1(3)] same_data_pri [OF s1(3)] by auto
  qed
  have right: "\<exists>s' c'. do { s \<leftarrow> schedule_rotate_up s (Some y); remove_node_loop s e } = Some s' \<and>
      is_tree s' (fill c' \<langle>\<langle>\<rangle>, e, \<langle>\<rangle>\<rangle>) \<and> fill c' \<langle>\<rangle> = fill c \<langle>merge (pri_of s) l C, y, D\<rangle> \<and>
      same_data (set_tree (fill c \<langle>l, e, r\<rangle>)) s s'" if r: "r = \<langle>C, y, D\<rangle>" for C y D
  proof -
    obtain s1 where s1: "schedule_rotate_up s (Some y) = Some s1" "is_tree s1 (fill (InL c y D) \<langle>l, e, C\<rangle>)"
      "same_data (set_tree (fill c \<langle>l, e, r\<rangle>)) s s1"
      using rotate_right_child less.prems r by (metis fill.simps(2))
    have X: "set_tree (fill (InL c y D) \<langle>l, e, C\<rangle>) = set_tree (fill c \<langle>l, e, r\<rangle>)"
      by (auto simp: set_fill r)
    obtain s' c' where "remove_node_loop s1 e = Some s'" "is_tree s' (fill c' \<langle>\<langle>\<rangle>, e, \<langle>\<rangle>\<rangle>)"
      "fill c' \<langle>\<rangle> = fill (InL c y D) (merge (pri_of s1) l C)" "same_data (set_tree (fill c \<langle>l, e, r\<rangle>)) s1 s'"
      using less.hyps [OF _ s1(2)] unfolding X r by auto
    then show ?thesis using s1(1) same_data_trans [OF s1(3)] same_data_pri [OF s1(3)] by auto
  qed
  show ?case
  proof (cases l)
    case Leaf
    show ?thesis
    proof (cases r)
      case l': Leaf
      then show ?thesis using links Leaf less.prems
        by (subst remove_node_loop.simps) (auto intro!: exI [of _ c])
    next
      case (Node C y D)
      then show ?thesis using right [OF Node] links Leaf by (subst remove_node_loop.simps) simp
    qed
  next
    case l: (Node A x B)
    show ?thesis
    proof (cases r)
      case Leaf
      then show ?thesis using left [OF l] links l by (subst remove_node_loop.simps) simp
    next
      case r: (Node C y D)
      show ?thesis
      proof (cases "pri_of s x < pri_of s y")
        case True
        then show ?thesis using left [OF l] links l r
          by (subst remove_node_loop.simps) (simp add: pri_of_def)
      next
        case False
        then show ?thesis using right [OF r] links l r
          by (subst remove_node_loop.simps) (simp add: pri_of_def)
      qed
    qed
  qed
qed

lemma detach_ok:
  assumes "is_tree s (fill c \<langle>\<langle>\<rangle>, e, \<langle>\<rangle>\<rangle>)"
  shows "\<exists>s'. schedule_detach_parent s (Some e) = Some s' \<and> is_tree s' (fill c \<langle>\<rangle>) \<and>
    earliest_wakeup s' = earliest_wakeup s \<and>
    entries s' e = (entries s e)\<lparr>se_parent := None, se_lt := None, se_gt := None\<rparr> \<and>
    (\<forall>x. x \<noteq> e \<longrightarrow> entries s' x = entries (relink c None s) x)"
proof -
  obtain p where c: "ctx_at (entries s) (sch_root s) c p (Some e)" and t: "se_parent (entries s e) = p"
    "se_lt (entries s e) = None" "se_gt (entries s e) = None"
    using assms unfolding is_tree_def fill_tree_at by auto
  have d: "ctx_distinct c" "e \<notin> ctx_set c" "distinct (inorder (fill c \<langle>\<rangle>))"
    using assms unfolding is_tree_def distinct_fill by auto
  define s' where "s' = upd (relink c None s) e (\<lambda>x. x\<lparr>se_parent := None\<rparr>)"
  have e: "entries s' e = (entries s e)\<lparr>se_parent := None, se_lt := None, se_gt := None\<rparr>"
    using t d(2) by (simp add: s'_def relink_other)
  have o: "entries s' x = entries (relink c None s) x" if "x \<noteq> e" for x using that by (simp add: s'_def)
  have "ctx_at (entries s') (sch_root s') c p None = ctx_at (entries (relink c None s)) (sch_root s') c p None"
    using d(2) by (intro ctx_at_cong) (auto simp: s'_def same_links_def)
  then have "is_tree s' (fill c \<langle>\<rangle>)"
    using relink_ctx_at [OF c d(1), of None] d(3) by (auto simp: is_tree_def fill_tree_at s'_def)
  moreover have "schedule_detach_parent s (Some e) = Some s'"
  proof (cases c)
    case Top
    then have "entries s e = (entries s e)\<lparr>se_parent := None\<rparr>" using c t(1) by simp
    then have "upd (s\<lparr>sch_root := None\<rparr>) e (\<lambda>x. x\<lparr>se_parent := None\<rparr>) = s\<lparr>sch_root := None\<rparr>"
      by (simp add: upd_def)
    moreover have "sch_root s = Some e" "se_parent (entries s e) = None" using Top c t(1) by auto
    ultimately show ?thesis using Top by (simp add: schedule_detach_parent_def s'_def)
  next
    case (InL c' x r)
    then show ?thesis using c t(1) by (auto simp: schedule_detach_parent_def s'_def)
  next
    case (InR l x c')
    then show ?thesis using c t(1) d(2) by (auto simp: schedule_detach_parent_def s'_def dest: tree_at_inside)
  qed
  ultimately show ?thesis using e o by (auto simp: s'_def)
qed

text \<open>An entry outside the tree.\<close>

definition idle :: "schedule_entry \<Rightarrow> bool" where
  "idle x \<longleftrightarrow> se_pri x = 0 \<and> se_parent x = None \<and> se_lt x = None \<and> se_gt x = None"

text \<open>Two states that agree on the times and priorities of all entries but \<open>e\<close>, and on entries outside \<open>X\<close>.\<close>

definition same_but :: "nat \<Rightarrow> nat set \<Rightarrow> schedule \<Rightarrow> schedule \<Rightarrow> bool" where
  "same_but e X s s' \<longleftrightarrow> earliest_wakeup s' = earliest_wakeup s \<and> se_tv (entries s' e) = se_tv (entries s e) \<and>
     (\<forall>x. x \<noteq> e \<longrightarrow> se_tv (entries s' x) = se_tv (entries s x) \<and> se_pri (entries s' x) = se_pri (entries s x)) \<and>
     (\<forall>x. x \<noteq> e \<and> x \<notin> X \<longrightarrow> entries s' x = entries s x)"

lemma schedule_remove_node_ok:
  assumes "is_tree s (fill c \<langle>l, e, r\<rangle>)"
  obtains s' where "schedule_remove_node s e = Some s'" "is_tree s' (fill c (merge (pri_of s) l r))"
    "idle (entries s' e)" "same_but e (set_tree (fill c \<langle>l, e, r\<rangle>)) s s'"
proof -
  obtain s1 c1 where s1: "remove_node_loop s e = Some s1" "is_tree s1 (fill c1 \<langle>\<langle>\<rangle>, e, \<langle>\<rangle>\<rangle>)"
    "fill c1 \<langle>\<rangle> = fill c (merge (pri_of s) l r)" "same_data (set_tree (fill c \<langle>l, e, r\<rangle>)) s s1"
    using remove_node_loop_ok [OF assms] by blast
  obtain s2 where s2: "schedule_detach_parent s1 (Some e) = Some s2" "is_tree s2 (fill c1 \<langle>\<rangle>)"
    "earliest_wakeup s2 = earliest_wakeup s1"
    "entries s2 e = (entries s1 e)\<lparr>se_parent := None, se_lt := None, se_gt := None\<rparr>"
    "\<And>x. x \<noteq> e \<Longrightarrow> entries s2 x = entries (relink c1 None s1) x"
    using detach_ok [OF s1(2)] by blast
  define s3 where "s3 = upd s2 e (\<lambda>x. x\<lparr>se_pri := 0\<rparr>)"
  have "e \<notin> set_tree (fill c1 \<langle>\<rangle>)"
    using s1(2) by (auto simp: is_tree_def distinct_fill set_fill)
  then have "tree_at (entries s3) None (sch_root s2) (fill c1 \<langle>\<rangle>) = tree_at (entries s2) None (sch_root s2) (fill c1 \<langle>\<rangle>)"
    by (intro tree_at_cong) (auto simp: s3_def same_links_def)
  then have "is_tree s3 (fill c (merge (pri_of s) l r))" using s2(2) s1(3) by (simp add: is_tree_def s3_def)
  moreover have "same_but e (set_tree (fill c \<langle>l, e, r\<rangle>)) s s3"
    unfolding same_but_def
  proof (intro conjI allI impI)
    fix x assume x: "x \<noteq> e \<and> x \<notin> set_tree (fill c \<langle>l, e, r\<rangle>)"
    then have "x \<notin> ctx_set c1" using arg_cong [OF s1(3), of set_tree] by (auto simp: set_fill set_merge)
    then show "entries s3 x = entries s x"
      using x s1(4) s2(5) by (simp add: s3_def relink_other same_data_def)
  qed (use s1(4) s2(3-5) in \<open>simp_all add: same_data_def s3_def\<close>)
  moreover have "idle (entries s3 e)" using s2(4) by (simp add: s3_def idle_def)
  moreover have "schedule_remove_node s e = Some s3" using s1(1) s2(1) by (simp add: schedule_remove_node_def s3_def)
  ultimately show ?thesis using that by blast
qed

section \<open>Insertion\<close>

text \<open>Entries are ordered by time, and by priority at equal times.\<close>

definition key :: "schedule_entry \<Rightarrow> int \<times> int \<times> u32" where
  "key x = (tv_sec (se_tv x), tv_usec (se_tv x), se_pri x)"

lemma schedule_entry_compare_key:
  "schedule_entry_compare a b = (if key a < key b then - 1 else if key b < key a then 1 else 0)"
  by (auto simp: schedule_entry_compare_def key_def less_prod_def)

definition ordered :: "schedule \<Rightarrow> nat tree \<Rightarrow> bool" where
  "ordered s t \<longleftrightarrow> sorted_wrt (\<lambda>x y. key (entries s x) < key (entries s y)) (inorder t)"

definition parentless :: "schedule_entry \<Rightarrow> bool" where
  "parentless x \<longleftrightarrow> se_parent x = None \<and> se_lt x = None \<and> se_gt x = None"

lemma ordered_Node:
  "ordered s \<langle>l, x, r\<rangle> \<longleftrightarrow> ordered s l \<and> ordered s r \<and>
     (\<forall>y \<in> set_tree l. key (entries s y) < key (entries s x)) \<and>
     (\<forall>y \<in> set_tree r. key (entries s x) < key (entries s y)) \<and>
     (\<forall>y \<in> set_tree l. \<forall>z \<in> set_tree r. key (entries s y) < key (entries s z))"
  by (auto simp: ordered_def sorted_wrt_append)

lemma root_ofE:
  assumes "root_of t = Some x"
  obtains l r where "t = \<langle>l, x, r\<rangle>"
  using assms by (cases t) auto

text \<open>If the key is already in the tree, the descent ends at it and another priority is drawn.\<close>

lemma insert_loop_collision:
  assumes "is_tree s (fill c t)" "root_of t = Some x" "ordered s t"
    and "y \<in> set_tree t" "key (entries s y) = key (entries s e)"
  shows "schedule_insert_loop s e x rs =
    (case (rs, sch_root s) of
       (r # rs, Some c) \<Rightarrow> schedule_insert_loop (schedule_set_pri s e r) e c rs
     | _ \<Rightarrow> None)"
  using assms
proof (induction t arbitrary: c x)
  case (Node l z r)
  note links = is_tree_links [OF Node.prems(1)]
  have zx: "z = x" using Node.prems(2) by simp
  consider "key (entries s e) = key (entries s x)" | "y \<in> set_tree l" "key (entries s e) < key (entries s x)"
    | "y \<in> set_tree r" "key (entries s x) < key (entries s e)"
    using Node.prems(3-5) unfolding zx ordered_Node by force
  then show ?case
  proof cases
    case 1
    then show ?thesis
      by (subst schedule_insert_loop.simps) (simp add: schedule_entry_compare_key)
  next
    case 2
    then obtain a where a: "root_of l = Some a" by (cases l) auto
    have "is_tree s (fill (InL c z r) l)" using Node.prems(1) by simp
    from Node.IH(1) [OF this a] have "schedule_insert_loop s e a rs = (case (rs, sch_root s) of
       (r # rs, Some c) \<Rightarrow> schedule_insert_loop (schedule_set_pri s e r) e c rs | _ \<Rightarrow> None)"
      using 2 Node.prems(3,5) by (simp add: ordered_Node)
    then show ?thesis using 2 links a zx
      by (subst schedule_insert_loop.simps) (simp add: schedule_entry_compare_key)
  next
    case 3
    then obtain a where a: "root_of r = Some a" by (cases r) auto
    have "is_tree s (fill (InR l z c) r)" using Node.prems(1) by simp
    from Node.IH(2) [OF this a] have "schedule_insert_loop s e a rs = (case (rs, sch_root s) of
       (r # rs, Some c) \<Rightarrow> schedule_insert_loop (schedule_set_pri s e r) e c rs | _ \<Rightarrow> None)"
      using 3 Node.prems(3,5) by (simp add: ordered_Node)
    then show ?thesis using 3 links a zx
      by (subst schedule_insert_loop.simps) (auto simp: schedule_entry_compare_key)
  qed
qed simp

text \<open>A new leaf in the hole of a context.\<close>

lemma new_leaf:
  assumes "is_tree s (fill c \<langle>\<rangle>)" "e \<notin> set_tree (fill c \<langle>\<rangle>)" "parentless (entries s e)"
    and "ctx_at (entries s) (sch_root s) c p None"
  shows "is_tree (upd (relink c (Some e) s) e (\<lambda>x. x\<lparr>se_parent := p\<rparr>)) (fill c \<langle>\<langle>\<rangle>, e, \<langle>\<rangle>\<rangle>)"
proof -
  let ?s = "upd (relink c (Some e) s) e (\<lambda>x. x\<lparr>se_parent := p\<rparr>)"
  have d: "ctx_distinct c" "e \<notin> ctx_set c" using assms(1,2) by (auto simp: is_tree_def distinct_fill set_fill)
  have "ctx_at (entries ?s) (sch_root ?s) c p (Some e) = ctx_at (entries (relink c (Some e) s)) (sch_root ?s) c p (Some e)"
    using d(2) by (intro ctx_at_cong) (auto simp: same_links_def)
  then have "ctx_at (entries ?s) (sch_root ?s) c p (Some e)"
    using relink_ctx_at [OF assms(4) d(1), of "Some e"] by simp
  moreover have "tree_at (entries ?s) p (Some e) \<langle>\<langle>\<rangle>, e, \<langle>\<rangle>\<rangle>"
    using assms(3) d(2) by (simp add: parentless_def relink_other)
  ultimately show ?thesis using d by (auto simp: is_tree_def fill_tree_at distinct_fill)
qed

text \<open>Otherwise the entry becomes a leaf at its place in the order.\<close>

lemma insert_loop_fresh:
  assumes "is_tree s (fill c t)" "root_of t = Some x" "ordered s t" "parentless (entries s e)"
    and "e \<notin> set_tree (fill c t)" "\<forall>y \<in> set_tree t. key (entries s y) \<noteq> key (entries s e)"
  shows "\<exists>s' c'. schedule_insert_loop s e x rs = Some s' \<and> is_tree s' (fill c' \<langle>\<langle>\<rangle>, e, \<langle>\<rangle>\<rangle>) \<and>
    fill c' \<langle>\<rangle> = fill c t \<and> same_data (insert e (set_tree (fill c t))) s s' \<and>
    (\<exists>as bs. ctx_left c' = ctx_left c @ as \<and> ctx_right c' = bs @ ctx_right c \<and> inorder t = as @ bs \<and>
      (\<forall>y \<in> set as. key (entries s y) < key (entries s e)) \<and> (\<forall>y \<in> set bs. key (entries s e) < key (entries s y)))"
  using assms
proof (induction t arbitrary: c x)
  case (Node l z r)
  note links = is_tree_links [OF Node.prems(1)]
  have zx: "z = x" using Node.prems(2) by simp
  have leaf: "is_tree (upd (relink c' (Some e) s) e (\<lambda>x. x\<lparr>se_parent := Some z\<rparr>)) (fill c' \<langle>\<langle>\<rangle>, e, \<langle>\<rangle>\<rangle>) \<and>
      same_data (insert e (set_tree (fill c \<langle>l, z, r\<rangle>))) s (upd (relink c' (Some e) s) e (\<lambda>x. x\<lparr>se_parent := Some z\<rparr>))"
    if "fill c' \<langle>\<rangle> = fill c \<langle>l, z, r\<rangle>" "c' = InL c z r \<or> c' = InR l z c" for c'
  proof
    have "is_tree s (fill c' \<langle>\<rangle>)" using Node.prems(1) that(1) by simp
    moreover then have "ctx_at (entries s) (sch_root s) c' (Some z) None"
      using that(2) by (auto simp: is_tree_def fill_tree_at)
    ultimately show "is_tree (upd (relink c' (Some e) s) e (\<lambda>x. x\<lparr>se_parent := Some z\<rparr>)) (fill c' \<langle>\<langle>\<rangle>, e, \<langle>\<rangle>\<rangle>)"
      using Node.prems(4,5) that(1) by (intro new_leaf) auto
    show "same_data (insert e (set_tree (fill c \<langle>l, z, r\<rangle>))) s (upd (relink c' (Some e) s) e (\<lambda>x. x\<lparr>se_parent := Some z\<rparr>))"
      using that(2) by (auto simp: same_data_def set_fill relink_other)
  qed
  have "key (entries s z) \<noteq> key (entries s e)" using Node.prems(6) by simp
  then consider "key (entries s e) < key (entries s z)" | "key (entries s z) < key (entries s e)" by fastforce
  then show ?case
  proof cases
    case 1
    have rest: "\<forall>y \<in> set (x # inorder r). key (entries s e) < key (entries s y)"
      using 1 Node.prems(3) zx by (auto simp: ordered_Node)
    show ?thesis
    proof (cases "root_of l")
      case None
      then have l: "l = \<langle>\<rangle>" by (cases l) auto
      have "schedule_insert_loop s e x rs = Some (upd (relink (InL c z r) (Some e) s) e (\<lambda>x. x\<lparr>se_parent := Some z\<rparr>))"
        using 1 links l zx by (subst schedule_insert_loop.simps) (simp add: schedule_entry_compare_key)
      then show ?thesis using leaf [of "InL c z r"] rest zx
        by (intro exI [of _ "upd (relink (InL c z r) (Some e) s) e (\<lambda>x. x\<lparr>se_parent := Some z\<rparr>)"] exI [of _ "InL c z r"])
          (auto simp: l)
    next
      case (Some a)
      have "is_tree s (fill (InL c z r) l)" using Node.prems(1) by simp
      from Node.IH(1) [OF this Some] Node.prems(3-6) obtain s' c' as bs where
        *: "schedule_insert_loop s e a rs = Some s'" "is_tree s' (fill c' \<langle>\<langle>\<rangle>, e, \<langle>\<rangle>\<rangle>)"
        "fill c' \<langle>\<rangle> = fill (InL c z r) l" "same_data (insert e (set_tree (fill (InL c z r) l))) s s'"
        "ctx_left c' = ctx_left (InL c z r) @ as" "ctx_right c' = bs @ ctx_right (InL c z r)" "inorder l = as @ bs"
        "\<forall>y \<in> set as. key (entries s y) < key (entries s e)" "\<forall>y \<in> set bs. key (entries s e) < key (entries s y)"
        by (auto simp: ordered_Node)
      have "schedule_insert_loop s e x rs = Some s'"
        using 1 links Some zx *(1) by (subst schedule_insert_loop.simps) (simp add: schedule_entry_compare_key)
      then show ?thesis using * rest zx
        by (intro exI [of _ s'] exI [of _ c']) (auto intro!: exI [of _ as] exI [of _ "bs @ z # inorder r"])
    qed
  next
    case 2
    have rest: "\<forall>y \<in> set (inorder l @ [x]). key (entries s y) < key (entries s e)"
      using 2 Node.prems(3) zx by (auto simp: ordered_Node)
    show ?thesis
    proof (cases "root_of r")
      case None
      then have r: "r = \<langle>\<rangle>" by (cases r) auto
      have "schedule_insert_loop s e x rs = Some (upd (relink (InR l z c) (Some e) s) e (\<lambda>x. x\<lparr>se_parent := Some z\<rparr>))"
        using 2 links r zx by (subst schedule_insert_loop.simps) (auto simp: schedule_entry_compare_key)
      then show ?thesis using leaf [of "InR l z c"] rest zx
        by (intro exI [of _ "upd (relink (InR l z c) (Some e) s) e (\<lambda>x. x\<lparr>se_parent := Some z\<rparr>)"] exI [of _ "InR l z c"])
          (auto simp: r)
    next
      case (Some a)
      have "is_tree s (fill (InR l z c) r)" using Node.prems(1) by simp
      from Node.IH(2) [OF this Some] Node.prems(3-6) obtain s' c' as bs where
        *: "schedule_insert_loop s e a rs = Some s'" "is_tree s' (fill c' \<langle>\<langle>\<rangle>, e, \<langle>\<rangle>\<rangle>)"
        "fill c' \<langle>\<rangle> = fill (InR l z c) r" "same_data (insert e (set_tree (fill (InR l z c) r))) s s'"
        "ctx_left c' = ctx_left (InR l z c) @ as" "ctx_right c' = bs @ ctx_right (InR l z c)" "inorder r = as @ bs"
        "\<forall>y \<in> set as. key (entries s y) < key (entries s e)" "\<forall>y \<in> set bs. key (entries s e) < key (entries s y)"
        by (auto simp: ordered_Node)
      have "schedule_insert_loop s e x rs = Some s'"
        using 2 links Some zx *(1) by (subst schedule_insert_loop.simps) (auto simp: schedule_entry_compare_key)
      then show ?thesis using * rest zx
        by (intro exI [of _ s'] exI [of _ c']) (auto intro!: exI [of _ "inorder l @ z # as"] exI [of _ bs])
    qed
  qed
qed simp

section \<open>Heap order\<close>

fun heap :: "(nat \<Rightarrow> u32) \<Rightarrow> nat tree \<Rightarrow> bool" where
  "heap pri \<langle>\<rangle> \<longleftrightarrow> True"
| "heap pri \<langle>l, x, r\<rangle> \<longleftrightarrow> (\<forall>y \<in> set_tree l \<union> set_tree r. pri x \<le> pri y) \<and> heap pri l \<and> heap pri r"

text \<open>Heap order of a context around a subtree with the nodes \<open>S\<close>.\<close>

fun hctx :: "(nat \<Rightarrow> u32) \<Rightarrow> ctx \<Rightarrow> nat set \<Rightarrow> bool" where
  "hctx pri Top S \<longleftrightarrow> True"
| "hctx pri (InL c x r) S \<longleftrightarrow> (\<forall>y \<in> S \<union> set_tree r. pri x \<le> pri y) \<and> heap pri r \<and> hctx pri c (insert x (S \<union> set_tree r))"
| "hctx pri (InR l x c) S \<longleftrightarrow> (\<forall>y \<in> S \<union> set_tree l. pri x \<le> pri y) \<and> heap pri l \<and> hctx pri c (insert x (S \<union> set_tree l))"

lemma heap_fill: "heap pri (fill c t) \<longleftrightarrow> heap pri t \<and> hctx pri c (set_tree t)"
  by (induction c arbitrary: t) (auto simp: ac_simps)

lemma hctx_mono: "hctx pri c S \<Longrightarrow> S' \<subseteq> S \<Longrightarrow> hctx pri c S'"
proof (induction c arbitrary: S S')
  case (InL c x r)
  have "hctx pri c (insert x (S' \<union> set_tree r))" by (rule InL.IH) (use InL.prems in auto)
  then show ?case using InL.prems by auto
next
  case (InR l x c)
  have "hctx pri c (insert x (S' \<union> set_tree l))" by (rule InR.IH) (use InR.prems in auto)
  then show ?case using InR.prems by auto
qed simp

lemma hctx_insert: "hctx pri c S \<Longrightarrow> x \<in> S \<Longrightarrow> pri x \<le> pri e \<Longrightarrow> hctx pri c (insert e S)"
proof (induction c arbitrary: S)
  case (InL c z r)
  have "hctx pri c (insert e (insert z (S \<union> set_tree r)))" by (rule InL.IH) (use InL.prems in auto)
  moreover have "pri z \<le> pri e" using InL.prems by (auto intro: order_trans)
  ultimately show ?case using InL.prems by (simp add: insert_commute)
next
  case (InR l z c)
  have "hctx pri c (insert e (insert z (S \<union> set_tree l)))" by (rule InR.IH) (use InR.prems in auto)
  moreover have "pri z \<le> pri e" using InR.prems by (auto intro: order_trans)
  ultimately show ?case using InR.prems by (simp add: insert_commute)
qed simp

lemma heap_cong: "(\<And>x. x \<in> set_tree t \<Longrightarrow> pri' x = pri x) \<Longrightarrow> heap pri' t \<longleftrightarrow> heap pri t"
  by (induction t) auto

lemma heap_merge: "heap pri l \<Longrightarrow> heap pri r \<Longrightarrow> heap pri (merge pri l r)"
  by (induction pri l r rule: merge.induct) (auto simp: set_merge not_less intro: order_trans less_imp_le)

text \<open>Moving a node up until its parent has no greater priority restores the heap order.\<close>

lemma move_up_loop_ok:
  assumes "is_tree s (fill c \<langle>l, e, r\<rangle>)" "heap (pri_of s) \<langle>l, e, r\<rangle>"
    and "hctx (pri_of s) c (set_tree l \<union> set_tree r)"
  shows "\<exists>s' t'. move_up_loop s e = Some s' \<and> is_tree s' t' \<and> inorder t' = inorder (fill c \<langle>l, e, r\<rangle>) \<and>
    heap (pri_of s') t' \<and> same_data (set_tree (fill c \<langle>l, e, r\<rangle>)) s s'"
  using assms
proof (induction c arbitrary: l r s)
  case Top
  then have "se_parent (entries s e) = None" by (simp add: is_tree_def)
  then show ?case using Top
    by (subst move_up_loop.simps) (auto intro!: exI [of _ "\<langle>l, e, r\<rangle>"])
next
  case (InL c x t)
  have par: "se_parent (entries s e) = Some x"
    using InL.prems(1) by (auto simp: is_tree_def fill_tree_at)
  show ?case
  proof (cases "pri_of s x > pri_of s e")
    case True
    obtain s1 where s1: "schedule_rotate_up s (Some e) = Some s1" "is_tree s1 (fill c \<langle>l, e, \<langle>r, x, t\<rangle>\<rangle>)"
      "same_data (set_tree (fill (InL c x t) \<langle>l, e, r\<rangle>)) s s1"
      using rotate_left_child InL.prems(1) by (metis fill.simps(2))
    have p: "pri_of s1 = pri_of s" by (rule same_data_pri [OF s1(3)])
    have "heap (pri_of s1) \<langle>l, e, \<langle>r, x, t\<rangle>\<rangle>" "hctx (pri_of s1) c (set_tree l \<union> set_tree \<langle>r, x, t\<rangle>)"
      using InL.prems(2,3) True unfolding p by (auto simp: ac_simps intro: order_trans less_imp_le)
    from InL.IH [OF s1(2) this] obtain s' t' where s': "move_up_loop s1 e = Some s'" "is_tree s' t'"
      "inorder t' = inorder (fill c \<langle>l, e, \<langle>r, x, t\<rangle>\<rangle>)" "heap (pri_of s') t'"
      "same_data (set_tree (fill c \<langle>l, e, \<langle>r, x, t\<rangle>\<rangle>)) s1 s'" by blast
    have "set_tree (fill c \<langle>l, e, \<langle>r, x, t\<rangle>\<rangle>) = set_tree (fill (InL c x t) \<langle>l, e, r\<rangle>)" by (auto simp: set_fill)
    with s'(5) have "same_data (set_tree (fill (InL c x t) \<langle>l, e, r\<rangle>)) s s'" using same_data_trans [OF s1(3)] by simp
    moreover have "move_up_loop s e = Some s'"
      using par True s1(1) s'(1) by (subst move_up_loop.simps) (simp add: pri_of_def)
    ultimately show ?thesis using s'(2-4) by (auto simp: inorder_fill)
  next
    case False
    then have "pri_of s x \<le> pri_of s e" by simp
    then have "hctx (pri_of s) (InL c x t) (set_tree \<langle>l, e, r\<rangle>)"
      using InL.prems(3) hctx_insert [of "pri_of s" c "insert x (set_tree l \<union> set_tree r \<union> set_tree t)" x e]
      by (auto simp: insert_commute ac_simps)
    then have "heap (pri_of s) (fill (InL c x t) \<langle>l, e, r\<rangle>)" unfolding heap_fill using InL.prems(2) by blast
    moreover have "move_up_loop s e = Some s" using par False by (subst move_up_loop.simps) (simp add: pri_of_def)
    ultimately show ?thesis using InL.prems(1) by (intro exI [of _ s] exI [of _ "fill (InL c x t) \<langle>l, e, r\<rangle>"]) simp
  qed
next
  case (InR t x c)
  have par: "se_parent (entries s e) = Some x"
    using InR.prems(1) by (auto simp: is_tree_def fill_tree_at)
  show ?case
  proof (cases "pri_of s x > pri_of s e")
    case True
    obtain s1 where s1: "schedule_rotate_up s (Some e) = Some s1" "is_tree s1 (fill c \<langle>\<langle>t, x, l\<rangle>, e, r\<rangle>)"
      "same_data (set_tree (fill (InR t x c) \<langle>l, e, r\<rangle>)) s s1"
      using rotate_right_child InR.prems(1) by (metis fill.simps(3))
    have p: "pri_of s1 = pri_of s" by (rule same_data_pri [OF s1(3)])
    have "heap (pri_of s1) \<langle>\<langle>t, x, l\<rangle>, e, r\<rangle>" "hctx (pri_of s1) c (set_tree \<langle>t, x, l\<rangle> \<union> set_tree r)"
      using InR.prems(2,3) True unfolding p by (auto simp: ac_simps intro: order_trans less_imp_le)
    from InR.IH [OF s1(2) this] obtain s' t' where s': "move_up_loop s1 e = Some s'" "is_tree s' t'"
      "inorder t' = inorder (fill c \<langle>\<langle>t, x, l\<rangle>, e, r\<rangle>)" "heap (pri_of s') t'"
      "same_data (set_tree (fill c \<langle>\<langle>t, x, l\<rangle>, e, r\<rangle>)) s1 s'" by blast
    have "set_tree (fill c \<langle>\<langle>t, x, l\<rangle>, e, r\<rangle>) = set_tree (fill (InR t x c) \<langle>l, e, r\<rangle>)" by (auto simp: set_fill)
    with s'(5) have "same_data (set_tree (fill (InR t x c) \<langle>l, e, r\<rangle>)) s s'" using same_data_trans [OF s1(3)] by simp
    moreover have "move_up_loop s e = Some s'"
      using par True s1(1) s'(1) by (subst move_up_loop.simps) (simp add: pri_of_def)
    ultimately show ?thesis using s'(2-4) by (auto simp: inorder_fill)
  next
    case False
    then have "pri_of s x \<le> pri_of s e" by simp
    then have "hctx (pri_of s) (InR t x c) (set_tree \<langle>l, e, r\<rangle>)"
      using InR.prems(3) hctx_insert [of "pri_of s" c "insert x (set_tree l \<union> set_tree r \<union> set_tree t)" x e]
      by (auto simp: insert_commute ac_simps)
    then have "heap (pri_of s) (fill (InR t x c) \<langle>l, e, r\<rangle>)" unfolding heap_fill using InR.prems(2) by blast
    moreover have "move_up_loop s e = Some s" using par False by (subst move_up_loop.simps) (simp add: pri_of_def)
    ultimately show ?thesis using InR.prems(1) by (intro exI [of _ s] exI [of _ "fill (InR t x c) \<langle>l, e, r\<rangle>"]) simp
  qed
qed

section \<open>Drawing priorities\<close>

text \<open>A random value gives the entry a key that no entry of the tree has.\<close>

definition unused :: "schedule \<Rightarrow> nat set \<Rightarrow> timeval \<Rightarrow> u32 \<Rightarrow> bool" where
  "unused s X tv r \<longleftrightarrow> (\<forall>y \<in> X. \<not> (tv_eq (se_tv (entries s y)) tv \<and> se_pri (entries s y) = (if r < 1 then 1 else r)))"

lemma set_pri_simps:
  "se_pri (entries (schedule_set_pri s e r) e) = (if r < 1 then 1 else r)"
  "x \<noteq> e \<Longrightarrow> entries (schedule_set_pri s e r) x = entries s x"
  "se_tv (entries (schedule_set_pri s e r) x) = se_tv (entries s x)"
  "se_parent (entries (schedule_set_pri s e r) x) = se_parent (entries s x)"
  "se_lt (entries (schedule_set_pri s e r) x) = se_lt (entries s x)"
  "se_gt (entries (schedule_set_pri s e r) x) = se_gt (entries s x)"
  "sch_root (schedule_set_pri s e r) = sch_root s" "earliest_wakeup (schedule_set_pri s e r) = earliest_wakeup s"
  by (simp_all add: schedule_set_pri_def)

lemma ordered_cong:
  assumes "\<And>x. x \<in> set_tree t \<Longrightarrow> key (entries s' x) = key (entries s x)"
  shows "ordered s' t \<longleftrightarrow> ordered s t"
proof -
  have "key (entries s' (inorder t ! i)) = key (entries s (inorder t ! i))" if "i < length (inorder t)" for i
    using assms [of "inorder t ! i"] nth_mem [OF that] by simp
  then show ?thesis by (simp add: ordered_def sorted_wrt_iff_nth_less)
qed

lemma is_tree_cong:
  assumes "\<And>x. x \<in> set_tree t \<Longrightarrow> same_links (entries s' x) (entries s x)" "sch_root s' = sch_root s"
  shows "is_tree s' t \<longleftrightarrow> is_tree s t"
  using tree_at_cong [OF assms(1)] assms(2) by (simp add: is_tree_def)

text \<open>The entry \<open>e\<close> has been given a priority and is about to be inserted into the tree \<open>t\<close>.\<close>

definition ready :: "schedule \<Rightarrow> nat \<Rightarrow> nat tree \<Rightarrow> bool" where
  "ready s e t \<longleftrightarrow> is_tree s t \<and> ordered s t \<and> e \<notin> set_tree t \<and> parentless (entries s e) \<and> se_pri (entries s e) \<noteq> 0"

lemma ready_set_pri:
  assumes "ready s e t"
  shows "ready (schedule_set_pri s e r) e t"
proof -
  have e: "x \<noteq> e" if "x \<in> set_tree t" for x using assms that by (auto simp: ready_def)
  have "is_tree (schedule_set_pri s e r) t \<longleftrightarrow> is_tree s t"
    by (rule is_tree_cong) (simp_all add: same_links_def set_pri_simps)
  moreover have "ordered (schedule_set_pri s e r) t \<longleftrightarrow> ordered s t"
    by (rule ordered_cong) (use e in \<open>simp add: set_pri_simps\<close>)
  ultimately show ?thesis using assms by (simp add: ready_def parentless_def set_pri_simps)
qed

definition inserted :: "schedule \<Rightarrow> nat \<Rightarrow> nat tree \<Rightarrow> schedule \<Rightarrow> bool" where
  "inserted s e t s' \<longleftrightarrow> (\<exists>c. is_tree s' (fill c \<langle>\<langle>\<rangle>, e, \<langle>\<rangle>\<rangle>) \<and> fill c \<langle>\<rangle> = t \<and>
     ordered s' (fill c \<langle>\<langle>\<rangle>, e, \<langle>\<rangle>\<rangle>)) \<and> same_but e (set_tree t) s s' \<and> se_pri (entries s' e) \<noteq> 0"

lemma insert_no_collision:
  assumes "ready s e t" "root_of t = Some x" "\<forall>y \<in> set_tree t. key (entries s y) \<noteq> key (entries s e)"
  shows "\<exists>s'. schedule_insert_loop s e x rs = Some s' \<and> inserted s e t s'"
proof -
  have r: "is_tree s (fill Top t)" "ordered s t" "e \<notin> set_tree (fill Top t)" "parentless (entries s e)"
    "se_pri (entries s e) \<noteq> 0" using assms(1) by (auto simp: ready_def)
  from insert_loop_fresh [OF r(1) assms(2) r(2,4,3) assms(3), of rs] obtain s' c' as bs where
    *: "schedule_insert_loop s e x rs = Some s'" "is_tree s' (fill c' \<langle>\<langle>\<rangle>, e, \<langle>\<rangle>\<rangle>)" "fill c' \<langle>\<rangle> = t"
    "same_data (insert e (set_tree t)) s s'" "ctx_left c' = as" "ctx_right c' = bs" "inorder t = as @ bs"
    "\<forall>y \<in> set as. key (entries s y) < key (entries s e)" "\<forall>y \<in> set bs. key (entries s e) < key (entries s y)"
    by auto
  have k: "key (entries s' y) = key (entries s y)" for y using *(4) by (simp add: same_data_def key_def)
  have "ordered s' (fill c' \<langle>\<langle>\<rangle>, e, \<langle>\<rangle>\<rangle>)"
    using r(2) *(5-9) by (auto simp: ordered_def inorder_fill k sorted_wrt_append)
  moreover have "same_but e (set_tree t) s s'" "se_pri (entries s' e) \<noteq> 0"
    using *(4) r(5) by (auto simp: same_but_def same_data_def)
  ultimately show ?thesis using *(1-3) unfolding inserted_def by blast
qed

lemma insert_loop_ok:
  assumes "ready s e t" "root_of t = Some x"
    and "(\<forall>y \<in> set_tree t. key (entries s y) \<noteq> key (entries s e)) \<or>
      (\<exists>r \<in> set rs. unused s (set_tree t) (se_tv (entries s e)) r)"
  shows "\<exists>s'. schedule_insert_loop s e x rs = Some s' \<and> inserted s e t s'"
  using assms
proof (induction rs arbitrary: s)
  case Nil
  then show ?case using insert_no_collision by simp
next
  case (Cons r rs)
  show ?case
  proof (cases "\<forall>y \<in> set_tree t. key (entries s y) \<noteq> key (entries s e)")
    case True
    then show ?thesis using insert_no_collision Cons.prems(1,2) by blast
  next
    case False
    let ?s = "schedule_set_pri s e r"
    from False obtain y where y: "y \<in> set_tree t" "key (entries s y) = key (entries s e)" by blast
    have t: "is_tree s (fill Top t)" "ordered s t" "e \<notin> set_tree t" using Cons.prems(1) by (auto simp: ready_def)
    have root: "sch_root s = Some x" using t(1) Cons.prems(2) by (auto simp: is_tree_def elim!: root_ofE)
    have o: "entries ?s z = entries s z" if "z \<in> set_tree t" for z
      by (rule set_pri_simps(2)) (use that t(3) in auto)
    have "(\<forall>y \<in> set_tree t. key (entries ?s y) \<noteq> key (entries ?s e)) \<or>
      (\<exists>r \<in> set rs. unused ?s (set_tree t) (se_tv (entries ?s e)) r)"
    proof -
      obtain r' where r': "r' \<in> set (r # rs)" "unused s (set_tree t) (se_tv (entries s e)) r'"
        using Cons.prems(3) False by blast
      have un: "unused ?s (set_tree t) (se_tv (entries ?s e)) r' \<longleftrightarrow> unused s (set_tree t) (se_tv (entries s e)) r'"
        using o by (simp add: unused_def set_pri_simps(3))
      show ?thesis
      proof (cases "r' = r")
        case True
        have "key (entries ?s y) \<noteq> key (entries ?s e)" if "y \<in> set_tree t" for y
          using r'(2) that True unfolding unused_def tv_eq_def key_def set_pri_simps(1,3) o [OF that] by auto
        then show ?thesis by blast
      qed (use r' un in auto)
    qed
    from Cons.IH [OF ready_set_pri [OF Cons.prems(1)] Cons.prems(2) this]
    obtain s' where s': "schedule_insert_loop ?s e x rs = Some s'" "inserted ?s e t s'" by blast
    have "inserted s e t s'" using s'(2) by (auto simp: inserted_def same_but_def set_pri_simps)
    then show ?thesis
      using s'(1) root insert_loop_collision [OF t(1) Cons.prems(2) t(2) y, of "r # rs"] by simp
  qed
qed

section \<open>The operations keep the treap\<close>

text \<open>A treap of the entries in \<open>t\<close>, of which all but \<open>e\<close> are in order; and the full invariant.\<close>

definition treap_but :: "nat set \<Rightarrow> schedule \<Rightarrow> nat tree \<Rightarrow> bool" where
  "treap_but E s t \<longleftrightarrow> is_tree s t \<and> heap (pri_of s) t \<and> (\<forall>x \<in> set_tree t. se_pri (entries s x) \<noteq> 0) \<and>
     (\<forall>x. x \<notin> set_tree t \<longrightarrow> idle (entries s x)) \<and>
     sorted_wrt (\<lambda>x y. key (entries s x) < key (entries s y)) (filter (\<lambda>x. x \<notin> E) (inorder t))"

lemma treap_ordered: "treap_but {} s t \<Longrightarrow> ordered s t"
  by (simp add: treap_but_def ordered_def)

lemma treap_but_upd_tv:
  assumes "treap_but {} s t"
  shows "treap_but {e} (upd s e (\<lambda>x. x\<lparr>se_tv := tv\<rparr>)) t"
proof -
  let ?s = "upd s e (\<lambda>x. x\<lparr>se_tv := tv\<rparr>)"
  have "is_tree ?s t \<longleftrightarrow> is_tree s t" by (rule is_tree_cong) (simp_all add: same_links_def)
  moreover have "pri_of ?s = pri_of s" by (auto simp: pri_of_def)
  moreover have "sorted_wrt (\<lambda>x y. key (entries ?s x) < key (entries ?s y)) (filter (\<lambda>x. x \<notin> {e}) (inorder t))"
  proof (rule sorted_wrt_mono_rel)
    show "sorted_wrt (\<lambda>x y. key (entries s x) < key (entries s y)) (filter (\<lambda>x. x \<notin> {e}) (inorder t))"
      using treap_ordered [OF assms] unfolding ordered_def by (rule sorted_wrt_filter)
  qed auto
  ultimately show ?thesis using assms by (auto simp: treap_but_def idle_def)
qed

lemma in_tree_fill:
  assumes "e \<in> set_tree t"
  obtains c l r where "t = fill c \<langle>l, e, r\<rangle>"
proof -
  have "\<exists>c' l r. fill c t = fill c' \<langle>l, e, r\<rangle>" for c
    using assms
  proof (induction t arbitrary: c)
    case (Node l x r)
    then consider "e = x" | "e \<in> set_tree l" | "e \<in> set_tree r" by auto
    then show ?case
    proof cases
      case 2
      then show ?thesis using Node.IH(1) [of "InL c x r"] by simp
    next
      case 3
      then show ?thesis using Node.IH(2) [of "InR l x c"] by simp
    qed blast
  qed simp
  from this [of Top] show ?thesis using that by auto
qed

lemma remove_node_ok:
  assumes "treap_but {e} s t" "e \<in> set_tree t"
  obtains s' t' where "schedule_remove_node s e = Some s'" "treap_but {} s' t'" "set_tree t' = set_tree t - {e}"
    "idle (entries s' e)" "same_but e (set_tree t) s s'"
proof -
  obtain c l r where t: "t = fill c \<langle>l, e, r\<rangle>" using in_tree_fill [OF assms(2)] .
  have a: "is_tree s (fill c \<langle>l, e, r\<rangle>)" "heap (pri_of s) (fill c \<langle>l, e, r\<rangle>)"
    using assms(1) by (auto simp: treap_but_def t)
  obtain s' where s': "schedule_remove_node s e = Some s'" "is_tree s' (fill c (merge (pri_of s) l r))"
    "idle (entries s' e)" "same_but e (set_tree (fill c \<langle>l, e, r\<rangle>)) s s'"
    using schedule_remove_node_ok [OF a(1)] .
  let ?t = "fill c (merge (pri_of s) l r)"
  have ne: "e \<notin> set_tree ?t" and set: "set_tree ?t = set_tree t - {e}"
    using a(1) by (auto simp: is_tree_def distinct_fill set_fill set_merge t)
  have "heap (pri_of s) ?t"
    using a(2) hctx_mono [of "pri_of s" c "set_tree \<langle>l, e, r\<rangle>" "set_tree l \<union> set_tree r"]
    unfolding heap_fill by (auto simp: set_merge intro: heap_merge)
  moreover have pri: "pri_of s' x = pri_of s x" "key (entries s' x) = key (entries s x)" if "x \<in> set_tree ?t" for x
    using s'(4) ne that by (auto simp: same_but_def pri_of_def key_def)
  ultimately have "heap (pri_of s') ?t" using heap_cong [of ?t "pri_of s'" "pri_of s"] by simp
  moreover have io: "inorder ?t = filter (\<lambda>x. x \<notin> {e}) (inorder t)"
  proof -
    have "filter (\<lambda>x. x \<noteq> e) xs = xs" if "e \<notin> set xs" for xs using that by (induction xs) auto
    then show ?thesis using a(1)
      by (auto simp: t inorder_fill inorder_merge is_tree_def)
  qed
  moreover have "sorted_wrt (\<lambda>x y. key (entries s' x) < key (entries s' y)) (inorder ?t)"
  proof (rule sorted_wrt_mono_rel)
    show "sorted_wrt (\<lambda>x y. key (entries s x) < key (entries s y)) (inorder ?t)"
      unfolding io using assms(1) by (simp add: treap_but_def)
  qed (use pri(2) in auto)
  moreover have "\<forall>x \<in> set_tree ?t. se_pri (entries s' x) \<noteq> 0"
    using assms(1) pri(1) set by (auto simp: treap_but_def pri_of_def)
  moreover have "idle (entries s' x)" if "x \<notin> set_tree ?t" for x
  proof (cases "x = e")
    case False
    then have "entries s' x = entries s x" using s'(4) that set by (simp add: same_but_def t)
    then show ?thesis using assms(1) that set False by (simp add: treap_but_def)
  qed (use s'(3) in simp)
  ultimately have "treap_but {} s' ?t" using s'(2) by (simp add: treap_but_def)
  then show ?thesis using that s'(1,3,4) set t by blast
qed

lemma same_but_trans: "same_but e X s s' \<Longrightarrow> same_but e Y s' s'' \<Longrightarrow> X \<subseteq> Z \<Longrightarrow> Y \<subseteq> Z \<Longrightarrow> same_but e Z s s''"
  by (simp add: same_but_def) (metis subsetD)

text \<open>An idle entry goes into the tree.\<close>

lemma add_idle_ok:
  assumes "treap_but {} s t" "e \<notin> set_tree t" "r \<in> set (r0 # rs)" "unused s (set_tree t) (se_tv (entries s e)) r"
  shows "\<exists>s' t'. do { s \<leftarrow> (if sch_root s \<noteq> None then schedule_insert (schedule_set_pri s e r0) e rs
                              else Some ((schedule_set_pri s e r0)\<lparr>sch_root := Some e\<rparr>)); move_up_loop s e } = Some s' \<and>
    treap_but {} s' t' \<and> set_tree t' = insert e (set_tree t) \<and> same_but e (set_tree t) s s'"
proof -
  let ?s = "schedule_set_pri s e r0"
  have idle: "idle (entries s e)" and ord: "ordered s t" and tree: "is_tree s t" and heap: "heap (pri_of s) t"
    using assms(1,2) treap_ordered by (auto simp: treap_but_def)
  have o: "entries ?s x = entries s x" if "x \<in> set_tree t" for x
    by (rule set_pri_simps(2)) (use that assms(2) in auto)
  have "is_tree ?s t" using tree is_tree_cong [of t ?s s] by (simp add: same_links_def set_pri_simps)
  moreover have "ordered ?s t" using ord ordered_cong [of t ?s s] o by simp
  ultimately have ready: "ready ?s e t"
    using idle assms(2) by (simp add: ready_def parentless_def idle_def set_pri_simps)
  have sb: "same_but e X s ?s" for X by (simp add: same_but_def set_pri_simps)
  obtain s1 where s1: "(if sch_root s \<noteq> None then schedule_insert ?s e rs else Some (?s\<lparr>sch_root := Some e\<rparr>)) = Some s1"
    "inserted ?s e t s1"
  proof (cases t)
    case Leaf
    have "ordered (?s\<lparr>sch_root := Some e\<rparr>) \<langle>\<langle>\<rangle>, e, \<langle>\<rangle>\<rangle>" "is_tree (?s\<lparr>sch_root := Some e\<rparr>) \<langle>\<langle>\<rangle>, e, \<langle>\<rangle>\<rangle>"
      using idle by (simp_all add: ordered_def is_tree_def idle_def set_pri_simps)
    then have "inserted ?s e t (?s\<lparr>sch_root := Some e\<rparr>)"
      unfolding inserted_def Leaf by (intro conjI exI [of _ Top]) (auto simp: same_but_def set_pri_simps)
    moreover have "sch_root s = None" using tree Leaf by (simp add: is_tree_def)
    ultimately show ?thesis using that by simp
  next
    case (Node l x r')
    have root: "sch_root s = Some x" using tree Node by (simp add: is_tree_def)
    have un: "unused ?s (set_tree t) (se_tv (entries ?s e)) r" 
      using assms(4) o by (simp add: unused_def set_pri_simps(3))
    have "(\<forall>y \<in> set_tree t. key (entries ?s y) \<noteq> key (entries ?s e)) \<or>
        (\<exists>r \<in> set rs. unused ?s (set_tree t) (se_tv (entries ?s e)) r)"
    proof (cases "r = r0")
      case True
      have "key (entries ?s y) \<noteq> key (entries ?s e)" if "y \<in> set_tree t" for y
        using un that True unfolding unused_def tv_eq_def key_def set_pri_simps(1) by auto
      then show ?thesis by blast
    qed (use un assms(3) in auto)
    from insert_loop_ok [OF ready _ this] Node obtain s1 where
      "schedule_insert_loop ?s e x rs = Some s1" "inserted ?s e t s1" by auto
    then show ?thesis using that root by (simp add: schedule_insert_def set_pri_simps)
  qed
  then obtain c where c: "is_tree s1 (fill c \<langle>\<langle>\<rangle>, e, \<langle>\<rangle>\<rangle>)" "fill c \<langle>\<rangle> = t" "ordered s1 (fill c \<langle>\<langle>\<rangle>, e, \<langle>\<rangle>\<rangle>)"
    and sb1: "same_but e (set_tree t) ?s s1" "se_pri (entries s1 e) \<noteq> 0" by (auto simp: inserted_def)
  have sb': "same_but e (set_tree t) s s1" by (rule same_but_trans [OF sb sb1(1), of "{}"]) auto
  have pri1: "pri_of s1 x = pri_of s x" if "x \<in> set_tree t" for x
    using sb' assms(2) that by (auto simp: same_but_def pri_of_def)
  have "heap (pri_of s1) t" using heap heap_cong [of t "pri_of s1" "pri_of s"] pri1 by simp
  then have "heap (pri_of s1) (fill c \<langle>\<rangle>)" using c(2) by simp
  then have h: "hctx (pri_of s1) c (set_tree \<langle>\<rangle> \<union> set_tree \<langle>\<rangle>)" unfolding heap_fill by simp
  from move_up_loop_ok [OF c(1) _ this] obtain s' t' where s': "move_up_loop s1 e = Some s'" "is_tree s' t'"
    "inorder t' = inorder (fill c \<langle>\<langle>\<rangle>, e, \<langle>\<rangle>\<rangle>)" "heap (pri_of s') t'"
    "same_data (set_tree (fill c \<langle>\<langle>\<rangle>, e, \<langle>\<rangle>\<rangle>)) s1 s'" by auto
  have set: "set_tree (fill c \<langle>\<langle>\<rangle>, e, \<langle>\<rangle>\<rangle>) = insert e (set_tree t)" using arg_cong [OF c(2), of set_tree] by (auto simp: set_fill)
  then have set': "set_tree t' = insert e (set_tree t)" using arg_cong [OF s'(3), of set] by simp
  have sb2: "same_but e (set_tree t) s s'"
    using sb' s'(5) set by (auto simp: same_but_def same_data_def)
  have "key (entries s' x) = key (entries s1 x)" for x using s'(5) by (simp add: same_data_def key_def)
  then have "sorted_wrt (\<lambda>x y. key (entries s' x) < key (entries s' y)) (inorder t')"
    using c(3) s'(3) by (simp add: ordered_def)
  moreover have "\<forall>x \<in> set_tree t'. se_pri (entries s' x) \<noteq> 0"
    using assms(1,2) sb2 s'(5) sb1(2) set' by (auto simp: treap_but_def same_but_def same_data_def)
  moreover have "idle (entries s' x)" if "x \<notin> set_tree t'" for x
    using assms(1) sb2 that set' by (simp add: treap_but_def same_but_def)
  ultimately have "treap_but {} s' t'" using s'(2,4) by (simp add: treap_but_def)
  then show ?thesis using s1(1) s'(1) set' sb2 by auto
qed

lemma schedule_add_modify_ok:
  assumes "treap_but {e} s t" "r \<in> set rs" "unused s (set_tree t - {e}) (se_tv (entries s e)) r"
  shows "\<exists>s' t'. schedule_add_modify s e rs = Some s' \<and> treap_but {} s' t' \<and> set_tree t' = insert e (set_tree t) \<and>
    same_but e (insert e (set_tree t)) s s'"
proof -
  obtain s1 t1 where s1: "(if IN_TREE (entries s e) then schedule_remove_node s e else Some s) = Some s1"
    "treap_but {} s1 t1" "set_tree t1 = set_tree t - {e}" "same_but e (set_tree t) s s1"
  proof (cases "e \<in> set_tree t")
    case True
    then have "IN_TREE (entries s e)" using assms(1) by (simp add: treap_but_def IN_TREE_def)
    then show ?thesis using that remove_node_ok [OF assms(1) True] by metis
  next
    case False
    then have "filter (\<lambda>x. x \<notin> {e}) (inorder t) = inorder t"
      by (metis (mono_tags, lifting) filter_True set_inorder singletonD)
    then have "treap_but {} s t" using assms(1) by (simp add: treap_but_def)
    moreover have "\<not> IN_TREE (entries s e)" using assms(1) False by (simp add: treap_but_def IN_TREE_def idle_def)
    ultimately show ?thesis using that False by (simp add: same_but_def)
  qed
  obtain r0 rs' where rs: "rs = r0 # rs'" using assms(2) by (cases rs) auto
  have "unused s1 (set_tree t1) (se_tv (entries s1 e)) r"
    using assms(3) s1(3,4) by (simp add: unused_def same_but_def)
  moreover have "e \<notin> set_tree t1" using s1(3) by simp
  ultimately obtain s' t' where s': "do { s \<leftarrow> (if sch_root s1 \<noteq> None then schedule_insert (schedule_set_pri s1 e r0) e rs'
                              else Some ((schedule_set_pri s1 e r0)\<lparr>sch_root := Some e\<rparr>)); move_up_loop s e } = Some s'"
    "treap_but {} s' t'" "set_tree t' = insert e (set_tree t1)" "same_but e (set_tree t1) s1 s'"
    using add_idle_ok [OF s1(2), of e r r0 rs'] assms(2) rs by blast
  have "schedule_add_modify s e rs = Some s'"
    unfolding schedule_add_modify_def s1(1) rs using s'(1) by (simp add: set_pri_simps)
  moreover have "same_but e (insert e (set_tree t)) s s'"
    by (rule same_but_trans [OF s1(4) s'(4)]) (use s1(3) in auto)
  moreover have "set_tree t' = insert e (set_tree t)" using s'(3) s1(3) by auto
  ultimately show ?thesis using s'(2) by blast
qed

section \<open>The schedule is a timer queue\<close>

definition timers :: "schedule \<Rightarrow> timer_map" where
  "timers s e = (if IN_TREE (entries s e) then Some (se_tv (entries s e)) else None)"

definition sched_inv :: "schedule \<Rightarrow> bool" where
  "sched_inv s \<longleftrightarrow> (\<exists>t. treap_but {} s t \<and>
     (earliest_wakeup s = None \<or> inorder t \<noteq> [] \<and> earliest_wakeup s = Some (hd (inorder t))))"

lemma earliest_wakeup_irrelevant [simp]:
  "treap_but E (s\<lparr>earliest_wakeup := q\<rparr>) t = treap_but E s t" "timers (s\<lparr>earliest_wakeup := q\<rparr>) = timers s"
proof -
  have "pri_of (s\<lparr>earliest_wakeup := q\<rparr>) = pri_of s" by (intro ext) (simp add: pri_of_def)
  then show "treap_but E (s\<lparr>earliest_wakeup := q\<rparr>) t = treap_but E s t" by (simp add: treap_but_def is_tree_def)
  show "timers (s\<lparr>earliest_wakeup := q\<rparr>) = timers s" by (intro ext) (simp add: timers_def)
qed

text \<open>Enough different priorities among the random numbers of a call.\<close>

definition draws_ok :: "nat \<Rightarrow> u32 list \<Rightarrow> bool" where
  "draws_ok n rs \<longleftrightarrow> n < card ((\<lambda>r. if r < 1 then 1 else r) ` set rs)"

lemma timers_treap:
  assumes "treap_but {} s t"
  shows "dom (timers s) = set_tree t" "\<And>x. x \<in> set_tree t \<Longrightarrow> timers s x = Some (se_tv (entries s x))"
  using assms by (auto simp: treap_but_def timers_def IN_TREE_def idle_def split: if_splits)

lemma draws_unused:
  assumes "draws_ok n rs" "finite X" "card X \<le> n"
  obtains r where "r \<in> set rs" "unused s X tv r"
proof -
  let ?f = "\<lambda>r :: u32. if r < 1 then 1 else r"
  have "card ((\<lambda>y. se_pri (entries s y)) ` X) \<le> n" using card_image_le [OF assms(2)] assms(3) le_trans by blast
  then have "\<not> ?f ` set rs \<subseteq> (\<lambda>y. se_pri (entries s y)) ` X"
    using assms(1,2) card_mono [of "(\<lambda>y. se_pri (entries s y)) ` X" "?f ` set rs"] by (auto simp: draws_ok_def)
  then obtain r where "r \<in> set rs" "?f r \<notin> (\<lambda>y. se_pri (entries s y)) ` X" by blast
  then show ?thesis using that by (force simp: unused_def)
qed

lemma add_entry_law:
  assumes "sched_inv s" "card (dom (timers s)) \<le> n" "draws_ok n rs"
  shows "\<exists>s'. schedule_add_entry s e tv sigma rs = Some s' \<and> sched_inv s' \<and> timers s' = timer_set (timers s) e tv sigma"
proof (cases "\<not> IN_TREE (entries s e) \<or> sigma = 0 \<or> \<not> tv_within_sigma tv (se_tv (entries s e)) sigma")
  case True
  obtain t where t: "treap_but {} s t" using assms(1) by (auto simp: sched_inv_def)
  let ?s = "upd s e (\<lambda>x. x\<lparr>se_tv := tv\<rparr>)"
  have "card (set_tree t - {e}) \<le> n"
    using assms(2) timers_treap(1) [OF t] card_Diff1_le [of "set_tree t" e] by simp
  then obtain r where "r \<in> set rs" "unused ?s (set_tree t - {e}) (se_tv (entries ?s e)) r"
    using draws_unused [OF assms(3)] by (metis finite_Diff finite_set_tree)
  from schedule_add_modify_ok [OF treap_but_upd_tv [OF t] this] obtain s' t' where
    s': "schedule_add_modify ?s e rs = Some s'" "treap_but {} s' t'" "set_tree t' = insert e (set_tree t)"
    "same_but e (insert e (set_tree t)) ?s s'" by blast
  have "timers s' x = timer_set (timers s) e tv sigma x" for x
  proof (cases "x = e")
    case True
    then show ?thesis using timers_treap(2) [OF s'(2), of e] s'(3,4) \<open>\<not> IN_TREE _ \<or> _\<close>
      by (auto simp: timer_set_def same_but_def timers_def split: option.splits)
  next
    case False
    then have "timers s' x = timers s x" using s'(4) by (simp add: same_but_def timers_def IN_TREE_def)
    then show ?thesis using False by (simp add: timer_set_def split: option.splits)
  qed
  then have tim: "timers s' = timer_set (timers s) e tv sigma" by blast
  have "sched_inv (s'\<lparr>earliest_wakeup := None\<rparr>)" using s'(2) by (auto simp: sched_inv_def)
  then show ?thesis using True s'(1) tim by (simp add: schedule_add_entry_def)
next
  case False
  then have "timer_set (timers s) e tv sigma = timers s" by (simp add: timer_set_def timers_def)
  then show ?thesis using False assms(1) by (simp add: schedule_add_entry_def)
qed

lemma remove_entry_law:
  assumes "sched_inv s"
  shows "\<exists>s'. schedule_remove_entry s e = Some s' \<and> sched_inv s' \<and> timers s' = (timers s)(e := None)"
proof -
  obtain t where t: "treap_but {} s t" using assms by (auto simp: sched_inv_def)
  let ?s = "s\<lparr>earliest_wakeup := None\<rparr>"
  have t': "treap_but {e} ?s t"
    using sorted_wrt_filter [OF treap_ordered [OF t, unfolded ordered_def], of "\<lambda>x. x \<notin> {e}"] t
    unfolding earliest_wakeup_irrelevant by (auto simp: treap_but_def)
  show ?thesis
  proof (cases "e \<in> set_tree t")
    case True
    obtain s' t2 where s': "schedule_remove_node ?s e = Some s'" "treap_but {} s' t2" "idle (entries s' e)"
      "same_but e (set_tree t) ?s s'"
      using remove_node_ok [OF t' True] by metis
    have "timers s' x = ((timers s)(e := None)) x" for x
      using s'(3,4) by (auto simp: timers_def IN_TREE_def idle_def same_but_def)
    then have tim: "timers s' = (timers s)(e := None)" by blast
    have "earliest_wakeup s' = None" using s'(4) by (simp add: same_but_def)
    with s'(2) have "sched_inv s'" by (auto simp: sched_inv_def)
    then show ?thesis using s'(1) tim by (simp add: schedule_remove_entry_def)
  next
    case False
    then have id: "idle (entries s e)" using t by (simp add: treap_but_def)
    have "sch_root s \<noteq> Some e" using t False tree_at_inside [of "entries s" None e t] by (auto simp: treap_but_def is_tree_def)
    then have "schedule_remove_entry s e = Some (upd ?s e (\<lambda>x. x\<lparr>se_pri := 0\<rparr>))"
      using id unfolding schedule_remove_entry_def schedule_remove_node_def
      by (subst remove_node_loop.simps) (simp add: idle_def schedule_detach_parent_def)
    moreover have "(entries s e)\<lparr>se_pri := 0\<rparr> = entries s e"
      by (rule schedule_entry.equality) (use id in \<open>simp_all add: idle_def\<close>)
    then have "upd ?s e (\<lambda>x. x\<lparr>se_pri := 0\<rparr>) = ?s" by (simp add: upd_def)
    moreover have "sched_inv ?s" using t by (auto simp: sched_inv_def)
    moreover have "timers ?s = (timers s)(e := None)"
      using id unfolding earliest_wakeup_irrelevant by (auto simp: timers_def IN_TREE_def idle_def)
    ultimately show ?thesis by simp
  qed
qed

lemma find_least_loop_ok:
  assumes "is_tree s (fill c t)" "root_of t = Some x"
  shows "find_least_loop s x = Some (hd (inorder t))"
  using assms
proof (induction t arbitrary: c x)
  case (Node l z r)
  note links = is_tree_links [OF Node.prems(1)]
  show ?case
  proof (cases "root_of l")
    case None
    then have "l = \<langle>\<rangle>" by (cases l) auto
    then show ?thesis using links Node.prems(2) by (subst find_least_loop.simps) simp
  next
    case (Some a)
    then have ne: "inorder l \<noteq> []" by (cases l) auto
    have "is_tree s (fill (InL c z r) l)" using Node.prems(1) by simp
    from Node.IH(1) [OF this Some] show ?thesis using links Node.prems(2) Some ne by (subst find_least_loop.simps) simp
  qed
qed simp

lemma least_is_earliest:
  assumes "treap_but {} s t" "inorder t \<noteq> []"
  shows "is_earliest (timers s) (Some (hd (inorder t), se_tv (entries s (hd (inorder t)))))"
proof -
  let ?e = "hd (inorder t)"
  obtain xs where xs: "inorder t = ?e # xs" using assms(2) by (cases "inorder t") auto
  have "?e \<in> set_tree t" using assms(2) by (metis hd_in_set set_inorder)
  then have "timers s ?e = Some (se_tv (entries s ?e))" by (rule timers_treap(2) [OF assms(1)])
  moreover have "\<not> tv_lt u (se_tv (entries s ?e))" if "timers s x = Some u" for x u
  proof -
    have x: "x \<in> set_tree t" "u = se_tv (entries s x)"
      using that timers_treap [OF assms(1)] by (auto simp: timers_def split: if_splits)
    then have "x = ?e \<or> key (entries s ?e) < key (entries s x)"
      using treap_ordered [OF assms(1)] xs unfolding ordered_def by (metis set_ConsD set_inorder sorted_wrt.simps(2))
    then show ?thesis using x(2) by (auto simp: tv_lt_def key_def less_prod_def)
  qed
  ultimately show ?thesis by (auto simp: is_earliest_def)
qed

lemma earliest_law:
  assumes "sched_inv s"
  shows "\<exists>s' out. schedule_get_earliest_wakeup s = Some (s', out) \<and> sched_inv s' \<and> timers s' = timers s \<and>
    is_earliest (timers s) out"
proof -
  obtain t where t: "treap_but {} s t"
    "earliest_wakeup s = None \<or> inorder t \<noteq> [] \<and> earliest_wakeup s = Some (hd (inorder t))"
    using assms by (auto simp: sched_inv_def)
  show ?thesis
  proof (cases "inorder t = []")
    case True
    then have "t = \<langle>\<rangle>" by (cases t) auto
    then have "sch_root s = None" "earliest_wakeup s = None" "timers s = Map.empty"
      using t timers_treap(1) [OF t(1)] by (auto simp: treap_but_def is_tree_def)
    moreover have "sched_inv (s\<lparr>earliest_wakeup := None\<rparr>)" using t(1) by (auto simp: sched_inv_def)
    ultimately show ?thesis
      by (simp add: schedule_get_earliest_wakeup_def schedule_find_least_def is_earliest_def)
  next
    case False
    let ?e = "hd (inorder t)" and ?s = "s\<lparr>earliest_wakeup := Some (hd (inorder t))\<rparr>"
    obtain x where x: "root_of t = Some x" using False by (cases t) auto
    have tree: "is_tree s (fill Top t)" using t(1) by (simp add: treap_but_def)
    have root: "sch_root s = Some x" using tree x by (cases t) (auto simp: is_tree_def)
    have "(if earliest_wakeup s = None
                then do { e \<leftarrow> schedule_find_least s (sch_root s); Some (s\<lparr>earliest_wakeup := e\<rparr>) }
                else Some s) = Some ?s"
      using t(2) False root find_least_loop_ok [OF tree x] by (auto simp: schedule_find_least_def)
    then have "schedule_get_earliest_wakeup s = Some (?s, Some (?e, se_tv (entries s ?e)))"
      unfolding schedule_get_earliest_wakeup_def by simp
    moreover have "sched_inv ?s" using False t(1) by (auto simp: sched_inv_def)
    ultimately show ?thesis using least_is_earliest [OF t(1) False] by simp
  qed
qed

interpretation sched: timer_queue sched_inv timers draws_ok schedule_add_entry schedule_remove_entry
  schedule_get_earliest_wakeup
proof
  show "finite (dom (timers s))" if "sched_inv s" for s
    using that timers_treap(1) by (auto simp: sched_inv_def)
qed (use add_entry_law remove_entry_law earliest_law in auto)

lemma sched_inv_init:
  assumes "\<forall>x. idle (store x)"
  shows "sched_inv (schedule_init store)" "timers (schedule_init store) = Map.empty"
proof -
  have "treap_but {} (schedule_init store) \<langle>\<rangle>"
    using assms by (simp add: treap_but_def schedule_init_def is_tree_def)
  then show "sched_inv (schedule_init store)" by (auto simp: sched_inv_def schedule_init_def)
  show "timers (schedule_init store) = Map.empty"
    using assms by (auto simp: timers_def schedule_init_def idle_def IN_TREE_def)
qed


text \<open>Random numbers for every call of a run.\<close>

definition ops_draw :: "u32 list timer_op list \<Rightarrow> bool" where
  "ops_draw ops \<longleftrightarrow> (\<forall>op \<in> set ops. case op of Set e tv sigma rs \<Rightarrow> draws_ok (length ops) rs | _ \<Rightarrow> True)"

lemma ops_drawD: "ops_draw ops \<Longrightarrow> Set e tv sigma rs \<in> set ops \<Longrightarrow> draws_ok (length ops) rs"
  by (force simp: ops_draw_def)

lemma schedule_run:
  assumes "\<forall>x. idle (store x)" "ops_draw ops"
  shows "\<exists>outs s. timer_run schedule_add_entry schedule_remove_entry schedule_get_earliest_wakeup
    (schedule_init store) ops = Some (outs, s) \<and> timer_outs Map.empty ops outs \<and> sched_inv s"
  using sched.run_correct [OF sched_inv_init(1) [OF assms(1)], of ops "length ops"] ops_drawD [OF assms(2)]
    sched_inv_init(2) [OF assms(1)] by auto

text \<open>
  C6. The pointer program implements a queue of timers: from the empty schedule, every sequence of
  insertions, re-insertions, removals and queries ends without a failed assertion, and each query
  returns an entry of the schedule whose wakeup time no other entry's precedes, or nothing if there is
  no entry; the cached answer is never stale. The random numbers of an insertion need only contain
  more different values than there are operations, so that a priority can be found.
\<close>

theorem schedule_refines_timer_queue:
  assumes "\<forall>x. idle (store x)" "ops_draw ops"
  shows "\<exists>outs s. timer_run schedule_add_entry schedule_remove_entry schedule_get_earliest_wakeup
    (schedule_init store) ops = Some (outs, s) \<and> timer_outs Map.empty ops outs"
  using schedule_run [OF assms] by blast

definition demo_store :: "nat \<Rightarrow> schedule_entry" where
  "demo_store x = \<lparr>se_tv = tv_clear, se_pri = 0, se_parent = None, se_lt = None, se_gt = None\<rparr>"

definition demo_ops :: "u32 list timer_op list" where
  "demo_ops = [Set 0 \<lparr>tv_sec = 30, tv_usec = 0\<rparr> 0 [9, 1, 2, 3, 4, 5, 6, 7, 8], Set 1 \<lparr>tv_sec = 10, tv_usec = 5\<rparr> 0 [2, 1, 3, 4, 5, 6, 7, 8, 9],
     Set 2 \<lparr>tv_sec = 20, tv_usec = 0\<rparr> 0 [7, 1, 2, 3, 4, 5, 6, 8, 9], Earliest, Set 1 \<lparr>tv_sec = 25, tv_usec = 0\<rparr> 1000 [3, 1, 2, 4, 5, 6, 7, 8, 9],
     Earliest, Cancel 2, Earliest]"

theorem schedule_refines_timer_queue_witness:
  "\<exists>outs s. timer_run schedule_add_entry schedule_remove_entry schedule_get_earliest_wakeup
    (schedule_init demo_store) demo_ops = Some (outs, s) \<and> timer_outs Map.empty demo_ops outs"
  by (rule schedule_refines_timer_queue)
    (simp_all add: idle_def demo_store_def ops_draw_def demo_ops_def draws_ok_def)

text \<open>
  C32. In every state that such a sequence reaches the linked entries form a tree whose parent links
  agree with its child links; the tree is ordered by wakeup time and priority, the priorities grow
  from the root to the leaves, and it contains exactly the entries with a priority.
\<close>

theorem schedule_treap_invariant:
  assumes "\<forall>x. idle (store x)" "ops_draw ops"
  shows "\<exists>outs s t. timer_run schedule_add_entry schedule_remove_entry schedule_get_earliest_wakeup
    (schedule_init store) ops = Some (outs, s) \<and> tree_at (entries s) None (sch_root s) t \<and>
    sorted_wrt (\<lambda>x y. schedule_entry_compare (entries s x) (entries s y) = - 1) (inorder t) \<and>
    heap (pri_of s) t \<and> set_tree t = {x. IN_TREE (entries s x)}"
proof -
  obtain outs s where s: "timer_run schedule_add_entry schedule_remove_entry schedule_get_earliest_wakeup
    (schedule_init store) ops = Some (outs, s)" "sched_inv s" using schedule_run [OF assms] by blast
  then obtain t where t: "treap_but {} s t" by (auto simp: sched_inv_def)
  have "(\<lambda>x y. schedule_entry_compare (entries s x) (entries s y) = - 1) = (\<lambda>x y. key (entries s x) < key (entries s y))"
    by (intro ext) (simp add: schedule_entry_compare_key)
  then show ?thesis using s(1) t by (auto simp: treap_but_def is_tree_def IN_TREE_def idle_def)
qed

theorem schedule_treap_invariant_witness:
  "\<exists>outs s t. timer_run schedule_add_entry schedule_remove_entry schedule_get_earliest_wakeup
    (schedule_init demo_store) (take 2 demo_ops) = Some (outs, s) \<and> tree_at (entries s) None (sch_root s) t \<and>
    sorted_wrt (\<lambda>x y. schedule_entry_compare (entries s x) (entries s y) = - 1) (inorder t) \<and>
    heap (pri_of s) t \<and> set_tree t = {x. IN_TREE (entries s x)}"
  by (rule schedule_treap_invariant)
    (simp_all add: idle_def demo_store_def ops_draw_def demo_ops_def draws_ok_def)

text \<open>
  After \<^verbatim>\<open>schedule_add_entry\<close> the entry is scheduled within \<open>sigma\<close> microseconds of the requested time
  (exactly then if \<open>sigma\<close> is zero), and no other entry's time has changed.
\<close>

lemma schedule_add_entry_within_sigma:
  assumes "sched_inv s" "draws_ok (card (dom (timers s))) rs" "0 \<le> sigma" "sigma < 600000000" "tv_ok tv"
    and "\<forall>u. timers s e = Some u \<longrightarrow> tv_ok u \<and> \<bar>tv_sec tv - tv_sec u\<bar> < 2 ^ 31"
  shows "\<exists>s' u. schedule_add_entry s e tv sigma rs = Some s' \<and> timers s' e = Some u \<and>
    \<bar>usecs u - usecs tv\<bar> \<le> sigma \<and> (\<forall>x. x \<noteq> e \<longrightarrow> timers s' x = timers s x)"
proof -
  obtain s' where s': "schedule_add_entry s e tv sigma rs = Some s'" "timers s' = timer_set (timers s) e tv sigma"
    using add_entry_law [OF assms(1) order_refl assms(2)] by blast
  have "\<exists>u. timers s' e = Some u \<and> \<bar>usecs u - usecs tv\<bar> \<le> sigma"
  proof (cases "timers s e")
    case None
    then show ?thesis using s'(2) assms(3) by (simp add: timer_set_def)
  next
    case (Some u)
    then have "tv_within_sigma tv u sigma \<longleftrightarrow> \<bar>usecs tv - usecs u\<bar> \<le> sigma"
      using assms(3-6) by (intro tv_within_sigma_iff) auto
    then show ?thesis using Some s'(2) assms(3) by (auto simp: timer_set_def)
  qed
  moreover have "timers s' x = timers s x" if "x \<noteq> e" for x
    using that s'(2) by (simp add: timer_set_def split: option.splits)
  ultimately show ?thesis using s'(1) by blast
qed

lemma schedule_add_entry_within_sigma_witness:
  "\<exists>s' u. schedule_add_entry (schedule_init demo_store) 4 \<lparr>tv_sec = 10, tv_usec = 7\<rparr> 500 [3] = Some s' \<and>
    timers s' 4 = Some u \<and> \<bar>usecs u - 10000007\<bar> \<le> 500"
proof -
  have i: "\<forall>x. idle (demo_store x)" by (simp add: idle_def demo_store_def)
  have "draws_ok (card (dom (timers (schedule_init demo_store)))) [3]"
    by (simp add: sched_inv_init(2) [OF i] draws_ok_def)
  from schedule_add_entry_within_sigma [OF sched_inv_init(1) [OF i] this, of 500 "\<lparr>tv_sec = 10, tv_usec = 7\<rparr>" 4]
  show ?thesis by (auto simp: tv_ok_def sched_inv_init(2) [OF i] usecs_def)
qed

end
