(* ===== verification/Sessions.thy ===== *)
theory Sessions
  imports Route_Server Mbuf Schedule Pool
begin

text \<open>
  The clients of a UDP server, from \<^verbatim>\<open>multi.h\<close>, \<^verbatim>\<open>multi.c\<close> and \<^verbatim>\<open>mudp.c\<close>: the state that joins the tables, the
  routing, the schedule, the pool of addresses and the queue of packets, and the operations that keep them in step.
  An instance is found by the address of its peer, by its peer id and by its management id, waits in the
  schedule, and is closed when a signal is pending for it; closing it takes it out of everything.

  An instance is the pair of the record \<open>multi_instance\<close> of the routing, which lives in its heap, and of the
  record \<open>client\<close> of the fields that only this theory needs. Using an instance that was freed is \<open>None\<close>.
  What TLS, the connect handlers (scripts, plugins, files) and the system do to an instance in a call is an
  argument of the call.
\<close>

section \<open>State\<close>

definition MAX_PEER_ID :: u32 where "MAX_PEER_ID = 0xFFFFFF"
definition MAX_CERT_DEPTH :: nat where "MAX_CERT_DEPTH = 16"

datatype multi_status =
    CAS_NOT_CONNECTED
  | CAS_WAITING_AUTH
  | CAS_PENDING
  | CAS_PENDING_DEFERRED
  | CAS_PENDING_DEFERRED_PARTIAL
  | CAS_FAILED
  | CAS_WAITING_OPTIONS_IMPORT
  | CAS_CONNECT_DONE

definition is_cas_pending :: "multi_status \<Rightarrow> bool" where
  "is_cas_pending cas \<longleftrightarrow> cas = CAS_PENDING \<or> cas = CAS_PENDING_DEFERRED \<or> cas = CAS_PENDING_DEFERRED_PARTIAL"

datatype topology = TOP_UNDEF | TOP_NET30 | TOP_P2P | TOP_SUBNET

text \<open>The hashes of a chain of certificates.\<close>

type_synonym cert_hash_set = "u8 list option list"

text \<open>The options of an instance that the selection of its addresses reads.\<close>

record client_config =
  co_push_ifconfig_defined :: bool
  co_push_ifconfig_local :: u32
  co_push_ifconfig_remote_netmask :: u32
  co_push_ifconfig_ipv6_defined :: bool
  co_push_ifconfig_ipv6_local :: "u8 list"
  co_ifconfig_pool_defined :: bool
  co_ifconfig_pool_netmask :: u32
  co_ifconfig_ipv6_pool_defined :: bool
  co_duplicate_cn :: bool
  co_disable :: bool

text \<open>The fields of \<^verbatim>\<open>struct multi_instance\<close>, and of the context and TLS state in it.\<close>

record client =
  cl_real :: mroute_addr
  cl_from :: openvpn_sockaddr
  cl_peer_id :: u32
  cl_vaddr_handle :: int
  cl_wakeup :: timeval
  cl_did_real_hash :: bool
  cl_did_iter :: bool
  cl_did_cid_hash :: bool
  cl_cid :: "64 word"
  cl_n_clients_delta :: int
  cl_multi_state :: multi_status
  cl_common_name :: "u8 list option"
  cl_cert_hash_set :: "cert_hash_set option"
  cl_locked_cert_hash_set :: "cert_hash_set option"
  cl_cur_handler_index :: nat
  cl_config :: client_config
  cl_push_ifconfig_remote_netmask :: u32

record server =
  sv_m :: multi_context
  sv_c :: "nat \<Rightarrow> client"
  sv_instances :: "nat option list"
  sv_hash :: "(mroute_addr, nat) hash"
  sv_iter :: "(mroute_addr, nat) hash"
  sv_cid_hash :: "(64 word, nat) hash"
  sv_cid_counter :: "64 word"
  sv_schedule :: schedule
  sv_mbufs :: mbufs
  sv_mbuf :: mbuf_set
  sv_ifconfig_pool :: "ifconfig_pool option"
  sv_new_connection_limiter :: frequency_limit
  sv_enable_c2c :: bool
  sv_max_clients :: int
  sv_n_clients :: int
  sv_pending :: "nat option"
  sv_earliest_wakeup :: "nat option"
  sv_topology :: topology
  sv_tun_local :: u32
  sv_tun_remote_netmask :: u32

definition client_at :: "server \<Rightarrow> nat \<Rightarrow> client option" where
  "client_at sv mi = (if m_heap (sv_m sv) mi = None then None else Some (sv_c sv mi))"

definition change_client :: "server \<Rightarrow> nat \<Rightarrow> (client \<Rightarrow> client) \<Rightarrow> server option" where
  "change_client sv mi f = do { c \<leftarrow> client_at sv mi; Some (sv\<lparr>sv_c := (sv_c sv)(mi := f c)\<rparr>) }"

definition cid_hash_function :: "64 word \<Rightarrow> u32 \<Rightarrow> u32" where
  "cid_hash_function k iv = ucast k"

definition cid_compare_function :: "64 word \<Rightarrow> 64 word \<Rightarrow> bool" where
  "cid_compare_function k1 k2 \<longleftrightarrow> k1 = k2"

section \<open>Closing\<close>

text \<open>\<^verbatim>\<open>ASSERT (hash_remove (...))\<close>, and writing an element of the array of instances.\<close>

definition assert_remove :: "('k, 'v) hash \<Rightarrow> 'k \<Rightarrow> ('k, 'v) hash option" where
  "assert_remove h k = (case hash_remove h k of (ok, h) \<Rightarrow> if ok then Some h else None)"

definition set_instance :: "server \<Rightarrow> u32 \<Rightarrow> nat option \<Rightarrow> server option" where
  "set_instance sv peer_id v =
     (if unat peer_id < length (sv_instances sv)
      then Some (sv\<lparr>sv_instances := (sv_instances sv)[unat peer_id := v]\<rparr>) else None)"

text \<open>What \<^verbatim>\<open>multi_close_instance\<close> takes out of the tables unless the server shuts down.\<close>

definition close_references :: "server \<Rightarrow> int \<Rightarrow> nat \<Rightarrow> server option" where
  "close_references sv nw mi =
     do { c \<leftarrow> client_at sv mi;
          h \<leftarrow> (if cl_did_real_hash c then assert_remove (sv_hash sv) (cl_real c) else Some (sv_hash sv));
          it \<leftarrow> (if cl_did_iter c then assert_remove (sv_iter sv) (cl_real c) else Some (sv_iter sv));
          cidh \<leftarrow> (if cl_did_cid_hash c then assert_remove (sv_cid_hash sv) (cl_cid c) else Some (sv_cid_hash sv));
          let sv = sv\<lparr>sv_hash := h, sv_iter := it, sv_cid_hash := cidh\<rparr>;
          sv \<leftarrow> (if cl_peer_id c \<noteq> MAX_PEER_ID then set_instance sv (cl_peer_id c) None else Some sv);
          sc \<leftarrow> schedule_remove_entry (sv_schedule sv) mi;
          let sv = sv\<lparr>sv_schedule := sc,
            sv_ifconfig_pool := map_option (\<lambda>p. snd (ifconfig_pool_release p (cl_vaddr_handle c) False nw)) (sv_ifconfig_pool sv)\<rparr>;
          i \<leftarrow> m_heap (sv_m sv) mi;
          m \<leftarrow> (if mi_did_iroutes i
               then do { m \<leftarrow> multi_del_iroutes (sv_m sv) mi; change_instance m mi (\<lambda>i. i\<lparr>mi_did_iroutes := False\<rparr>) }
               else Some (sv_m sv));
          (mbs, ms) \<leftarrow> mbuf_dereference_instance (sv_mbufs sv) (sv_mbuf sv) mi;
          Some (sv\<lparr>sv_m := m, sv_mbufs := mbs, sv_mbuf := ms\<rparr>) }"

definition multi_close_instance :: "server \<Rightarrow> int \<Rightarrow> nat \<Rightarrow> bool \<Rightarrow> server option" where
  "multi_close_instance sv nw mi shutdown =
     do { i \<leftarrow> m_heap (sv_m sv) mi;
          if mi_halt i then None
          else do {
            m \<leftarrow> change_instance (sv_m sv) mi (\<lambda>i. i\<lparr>mi_halt := True\<rparr>);
            let sv = sv\<lparr>sv_m := m, sv_n_clients := sv_n_clients sv + cl_n_clients_delta (sv_c sv mi)\<rparr>;
            sv \<leftarrow> change_client sv mi (\<lambda>c. c\<lparr>cl_n_clients_delta := 0\<rparr>);
            let sv = (if sv_pending sv = Some mi then sv\<lparr>sv_pending := None\<rparr> else sv);
            let sv = (if sv_earliest_wakeup sv = Some mi then sv\<lparr>sv_earliest_wakeup := None\<rparr> else sv);
            sv \<leftarrow> (if \<not> shutdown then close_references sv nw mi else Some sv);
            m \<leftarrow> multi_instance_dec_refcount (sv_m sv) mi;
            Some (sv\<lparr>sv_m := m\<rparr>) } }"

section \<open>Names and certificates\<close>

definition tls_common_name :: "client \<Rightarrow> bool \<Rightarrow> u8 list option" where
  "tls_common_name c null =
     (case cl_common_name c of
        Some ret \<Rightarrow> if length ret > 0 then Some ret else if null then None else Some (cstr ''UNDEF'')
      | None \<Rightarrow> if null then None else Some (cstr ''UNDEF''))"

definition tls_lock_cert_hash_set :: "client \<Rightarrow> client" where
  "tls_lock_cert_hash_set c =
     (if cl_cert_hash_set c \<noteq> None \<and> cl_locked_cert_hash_set c = None
      then c\<lparr>cl_locked_cert_hash_set := cl_cert_hash_set c\<rparr> else c)"

fun cert_compare_loop :: "cert_hash_set \<Rightarrow> cert_hash_set \<Rightarrow> nat list \<Rightarrow> bool" where
  "cert_compare_loop chs1 chs2 [] = True"
| "cert_compare_loop chs1 chs2 (i # is) =
     (case (chs1 ! i, chs2 ! i) of
        (None, None) \<Rightarrow> cert_compare_loop chs1 chs2 is
      | (Some h1, Some h2) \<Rightarrow> if h1 = h2 then cert_compare_loop chs1 chs2 is else False
      | _ \<Rightarrow> False)"

definition cert_hash_compare :: "cert_hash_set option \<Rightarrow> cert_hash_set option \<Rightarrow> bool" where
  "cert_hash_compare chs1 chs2 =
     (case (chs1, chs2) of
        (Some a, Some b) \<Rightarrow> cert_compare_loop a b [0..<MAX_CERT_DEPTH]
      | (None, None) \<Rightarrow> True
      | _ \<Rightarrow> False)"

text \<open>The loop of \<^verbatim>\<open>multi_delete_dup\<close> over the table \<open>iter\<close>: whether the element is deleted.\<close>

definition delete_dup_body :: "int \<Rightarrow> nat \<Rightarrow> u8 list \<Rightarrow> nat \<Rightarrow> server \<Rightarrow> (bool \<times> server) option" where
  "delete_dup_body nw new_mi new_cn mi sv =
     do { i \<leftarrow> m_heap (sv_m sv) mi;
          c \<leftarrow> client_at sv mi;
          if mi \<noteq> new_mi \<and> \<not> mi_halt i \<and> tls_common_name c True = Some new_cn
          then do { sv \<leftarrow> change_client sv mi (\<lambda>c. c\<lparr>cl_did_iter := False\<rparr>);
                    sv \<leftarrow> multi_close_instance sv nw mi False;
                    Some (True, sv) }
          else Some (False, sv) }"

definition multi_delete_dup :: "server \<Rightarrow> int \<Rightarrow> nat \<Rightarrow> server option" where
  "multi_delete_dup sv nw new_mi =
     do { c \<leftarrow> client_at sv new_mi;
          case tls_common_name c True of
            None \<Rightarrow> Some sv
          | Some new_cn \<Rightarrow>
              do { hi \<leftarrow> hash_iterator_init (sv_iter sv);
                   (it, sv) \<leftarrow> hash_iterate (delete_dup_body nw new_mi new_cn) (sv_iter sv) hi sv;
                   Some (sv\<lparr>sv_iter := it\<rparr>) } }"

section \<open>Addresses of a client\<close>

text \<open>The netmask, or the far end, that a client with the pool address is told.\<close>

definition pool_remote_netmask :: "server \<Rightarrow> dev_type \<Rightarrow> client \<Rightarrow> u32 \<Rightarrow> u32" where
  "pool_remote_netmask sv tunnel_type c local =
     (if tunnel_type = DEV_TYPE_TAP \<or> tunnel_type = DEV_TYPE_TUN \<and> sv_topology sv = TOP_SUBNET
      then if co_ifconfig_pool_netmask (cl_config c) \<noteq> 0 then co_ifconfig_pool_netmask (cl_config c) else sv_tun_remote_netmask sv
      else if tunnel_type = DEV_TYPE_TUN \<and> sv_topology sv = TOP_P2P then sv_tun_local sv
      else if tunnel_type = DEV_TYPE_TUN \<and> sv_topology sv = TOP_NET30 then local
      else cl_push_ifconfig_remote_netmask c)"

definition push_ipv6 :: "server \<Rightarrow> nat \<Rightarrow> u8 list \<Rightarrow> server option" where
  "push_ipv6 sv mi a =
     do { m \<leftarrow> change_instance (sv_m sv) mi (\<lambda>i. i\<lparr>mi_push_ifconfig_ipv6_local := a, mi_push_ifconfig_ipv6_defined := True\<rparr>);
          Some (sv\<lparr>sv_m := m\<rparr>) }"

text \<open>A static address, which releases a lease, and a new lease of the pool.\<close>

definition select_static_addr :: "server \<Rightarrow> int \<Rightarrow> nat \<Rightarrow> client \<Rightarrow> server option" where
  "select_static_addr sv nw mi c =
     do { let sv = (if cl_vaddr_handle c \<ge> 0
            then sv\<lparr>sv_ifconfig_pool := map_option (\<lambda>p. snd (ifconfig_pool_release p (cl_vaddr_handle c) True nw)) (sv_ifconfig_pool sv),
                    sv_c := (sv_c sv)(mi := c\<lparr>cl_vaddr_handle := - 1\<rparr>)\<rparr>
            else sv);
          m \<leftarrow> change_instance (sv_m sv) mi (\<lambda>i. i\<lparr>mi_push_ifconfig_defined := True,
            mi_push_ifconfig_local := co_push_ifconfig_local (cl_config c)\<rparr>);
          change_client (sv\<lparr>sv_m := m\<rparr>) mi
            (\<lambda>x. x\<lparr>cl_push_ifconfig_remote_netmask := co_push_ifconfig_remote_netmask (cl_config c)\<rparr>) }"

definition use_lease :: "server \<Rightarrow> nat \<Rightarrow> client \<Rightarrow> lease \<Rightarrow> server option" where
  "use_lease sv mi c l =
     do { i \<leftarrow> m_heap (sv_m sv) mi;
          let local = (case l_local l of None \<Rightarrow> 0 | Some a \<Rightarrow> a);
          let remote = (case l_remote l of None \<Rightarrow> 0 | Some a \<Rightarrow> a);
          let remote_ipv6 = (case l_remote_ipv6 l of None \<Rightarrow> replicate 16 0 | Some a \<Rightarrow> a);
          let netmask = pool_remote_netmask sv (mi_tunnel_type i) c local;
          sv \<leftarrow> (if co_ifconfig_pool_defined (cl_config c)
            then do {
              m \<leftarrow> change_instance (sv_m sv) mi (\<lambda>i. i\<lparr>mi_push_ifconfig_local := remote,
                mi_push_ifconfig_defined := (netmask \<noteq> 0 \<or> mi_push_ifconfig_defined i)\<rparr>);
              change_client (sv\<lparr>sv_m := m\<rparr>) mi (\<lambda>c. c\<lparr>cl_push_ifconfig_remote_netmask := netmask\<rparr>) }
            else Some sv);
          if co_ifconfig_ipv6_pool_defined (cl_config c) then push_ipv6 sv mi remote_ipv6 else Some sv }"

definition select_pool_addr :: "server \<Rightarrow> int \<Rightarrow> nat \<Rightarrow> client \<Rightarrow> ifconfig_pool \<Rightarrow> server option" where
  "select_pool_addr sv nw mi c p =
     do { (l, p) \<leftarrow> ifconfig_pool_acquire p (if \<not> co_duplicate_cn (cl_config c) then tls_common_name c True else None) nw;
          sv \<leftarrow> change_client (sv\<lparr>sv_ifconfig_pool := Some p\<rparr>) mi (\<lambda>c. c\<lparr>cl_vaddr_handle := l_handle l\<rparr>);
          if l_handle l \<ge> 0 then use_lease sv mi c l else Some sv }"

definition multi_select_virtual_addr :: "server \<Rightarrow> int \<Rightarrow> nat \<Rightarrow> server option" where
  "multi_select_virtual_addr sv nw mi =
     do { c \<leftarrow> client_at sv mi;
          sv \<leftarrow>
            (if co_push_ifconfig_defined (cl_config c) then select_static_addr sv nw mi c
             else case sv_ifconfig_pool sv of
               None \<Rightarrow> Some sv
             | Some p \<Rightarrow> if cl_vaddr_handle c < 0 then select_pool_addr sv nw mi c p else Some sv);
          if co_push_ifconfig_ipv6_defined (cl_config c) then push_ipv6 sv mi (co_push_ifconfig_ipv6_local (cl_config c))
          else Some sv }"

section \<open>Connecting\<close>

datatype client_connect_return = CC_RET_FAILED | CC_RET_SUCCEEDED | CC_RET_DEFERRED | CC_RET_SKIPPED

text \<open>
  What one call of a connect handler does: its result, and the options of the instance afterwards if it has read a
  configuration (from a file, a plugin, a script or the management interface), in which case it selects
  addresses again.
\<close>

record connect_options =
  cn_config :: client_config
  cn_iroutes :: "iroute list"
  cn_iroutes_ipv6 :: "iroute_ipv6 list"
  cn_max_routes_per_client :: int

record handler_call =
  hc_result :: client_connect_return
  hc_options :: "connect_options option"

text \<open>
  What happens to an instance in a call of \<^verbatim>\<open>multi_process_post\<close>: whether a signal is pending and output waits, before and
  after; what TLS learns (the state \<^verbatim>\<open>CAS_PENDING\<close> when the client is authenticated, its name and certificates); the
  handlers by their index; whether the protocol options and keys can be set; the time until the
  instance has to be served; the clock and the random numbers of the schedule.
\<close>

record post_env =
  pe_signal_before :: bool
  pe_any_out_before :: bool
  pe_signal_selected :: bool
  pe_authenticated :: bool
  pe_common_name :: "u8 list option"
  pe_cert_hash_set :: "cert_hash_set option"
  pe_handlers :: "nat \<Rightarrow> handler_call"
  pe_protocol_ok :: bool
  pe_timeval :: timeval
  pe_gettimeofday :: timeval
  pe_random :: "u32 list"
  pe_signal :: bool
  pe_any_out :: bool

definition set_options :: "connect_options \<Rightarrow> multi_instance \<Rightarrow> multi_instance" where
  "set_options co i = i\<lparr>mi_iroutes := cn_iroutes co, mi_iroutes_ipv6 := cn_iroutes_ipv6 co,
     mi_max_routes_per_client := cn_max_routes_per_client co\<rparr>"

definition call_handler :: "handler_call \<Rightarrow> server \<Rightarrow> int \<Rightarrow> nat \<Rightarrow> server option" where
  "call_handler hc sv nw mi =
     (case hc_options hc of
        None \<Rightarrow> Some sv
      | Some co \<Rightarrow>
          do { m \<leftarrow> change_instance (sv_m sv) mi (set_options co);
               sv \<leftarrow> change_client (sv\<lparr>sv_m := m\<rparr>) mi (\<lambda>c. c\<lparr>cl_config := cn_config co\<rparr>);
               multi_select_virtual_addr sv nw mi })"

definition multi_client_connect_early_setup :: "server \<Rightarrow> int \<Rightarrow> nat \<Rightarrow> server option" where
  "multi_client_connect_early_setup sv nw mi =
     do { sv \<leftarrow> change_client sv mi tls_lock_cert_hash_set;
          c \<leftarrow> client_at sv mi;
          sv \<leftarrow> (if \<not> co_duplicate_cn (cl_config c) then multi_delete_dup sv nw mi else Some sv);
          sv \<leftarrow> change_client sv mi (\<lambda>c. c\<lparr>cl_vaddr_handle := - 1\<rparr>);
          multi_select_virtual_addr sv nw mi }"

definition multi_client_connect_late_setup :: "server \<Rightarrow> int \<Rightarrow> learn_script \<Rightarrow> nat \<Rightarrow> bool \<Rightarrow> server option" where
  "multi_client_connect_late_setup sv nw learn_address_script mi protocol_ok =
     do { m \<leftarrow> late_setup_routes (sv_m sv) nw learn_address_script mi;
          change_client (sv\<lparr>sv_m := m\<rparr>) mi
            (\<lambda>c. c\<lparr>cl_multi_state := (if protocol_ok then CAS_CONNECT_DONE else CAS_FAILED)\<rparr>) }"

text \<open>
  The loop over the handlers that are left: whether it returned because a handler is deferred, and else whether
  all have succeeded.
\<close>

fun connect_loop :: "(nat \<Rightarrow> handler_call) \<Rightarrow> nat list \<Rightarrow> server \<Rightarrow> int \<Rightarrow> nat \<Rightarrow> (bool option \<times> server) option" where
  "connect_loop handlers [] sv nw mi = Some (Some True, sv)"
| "connect_loop handlers (k # ks) sv nw mi =
     do { let hc = handlers k;
          sv \<leftarrow> call_handler hc sv nw mi;
          if hc_result hc = CC_RET_DEFERRED then Some (None, sv)
          else do {
            sv \<leftarrow> (if hc_result hc = CC_RET_SUCCEEDED
                 then change_client sv mi (\<lambda>c. c\<lparr>cl_multi_state := CAS_PENDING_DEFERRED_PARTIAL\<rparr>) else Some sv);
            c \<leftarrow> client_at sv mi;
            let cc_succeeded = (hc_result hc \<noteq> CC_RET_FAILED \<and> \<not> co_disable (cl_config c));
            sv \<leftarrow> change_client sv mi (\<lambda>c. c\<lparr>cl_cur_handler_index := k + 1\<rparr>);
            if cc_succeeded then connect_loop handlers ks sv nw mi else Some (Some False, sv) } }"

definition n_connect_handlers :: nat where "n_connect_handlers = 6"

definition multi_connection_established :: "server \<Rightarrow> int \<Rightarrow> learn_script \<Rightarrow> nat \<Rightarrow> post_env \<Rightarrow> server option" where
  "multi_connection_established sv nw learn_address_script mi env =
     do { c \<leftarrow> client_at sv mi;
          sv \<leftarrow> (if cl_multi_state c = CAS_PENDING
               then do { sv \<leftarrow> change_client sv mi (\<lambda>c. c\<lparr>cl_cur_handler_index := 0, cl_multi_state := CAS_PENDING_DEFERRED\<rparr>);
                         multi_client_connect_early_setup sv nw mi }
               else Some sv);
          c \<leftarrow> client_at sv mi;
          (cc_succeeded, sv) \<leftarrow>
            connect_loop (pe_handlers env) [cl_cur_handler_index c..<n_connect_handlers] sv nw mi;
          case cc_succeeded of
            None \<Rightarrow> Some sv
          | Some ok \<Rightarrow>
              do { sv \<leftarrow> (if ok then multi_client_connect_late_setup sv nw learn_address_script mi (pe_protocol_ok env)
                        else change_client sv mi (\<lambda>c. c\<lparr>cl_multi_state := CAS_FAILED\<rparr>));
                   change_client (sv\<lparr>sv_n_clients := sv_n_clients sv + 1\<rparr>) mi
                     (\<lambda>c. c\<lparr>cl_n_clients_delta := cl_n_clients_delta c - 1\<rparr>) } }"

section \<open>Timers\<close>

definition compute_wakeup_sigma :: "timeval \<Rightarrow> int" where
  "compute_wakeup_sigma delta =
     (if tv_sec delta < 1 then drop_bit 3 (tv_usec delta)
      else if tv_sec delta < 600 then push_bit 17 (tv_sec delta)
      else 120000000)"

definition multi_schedule_context_wakeup :: "server \<Rightarrow> nat \<Rightarrow> timeval \<Rightarrow> timeval \<Rightarrow> u32 list \<Rightarrow> server option" where
  "multi_schedule_context_wakeup sv mi clock delta random =
     do { let wakeup = tv_add clock delta;
          sv \<leftarrow> change_client sv mi (\<lambda>c. c\<lparr>cl_wakeup := wakeup\<rparr>);
          sc \<leftarrow> schedule_add_entry (sv_schedule sv) mi wakeup (compute_wakeup_sigma delta) random;
          Some (sv\<lparr>sv_schedule := sc\<rparr>) }"

definition REAP_MAX_WAKEUP :: int where "REAP_MAX_WAKEUP = 10"

text \<open>The time to wait, with the new state.\<close>

definition multi_get_timeout :: "server \<Rightarrow> timeval \<Rightarrow> (timeval \<times> server) option" where
  "multi_get_timeout sv current =
     do { (sc, out) \<leftarrow> schedule_get_earliest_wakeup (sv_schedule sv);
          let sv = sv\<lparr>sv_schedule := sc, sv_earliest_wakeup := map_option fst out\<rparr>;
          case out of
            Some (e, tv) \<Rightarrow>
              (let dest = tv_delta current tv
               in if tv_sec dest \<ge> REAP_MAX_WAKEUP
                  then Some (\<lparr>tv_sec = REAP_MAX_WAKEUP, tv_usec = 0\<rparr>, sv\<lparr>sv_earliest_wakeup := None\<rparr>)
                  else Some (dest, sv))
          | None \<Rightarrow> Some (\<lparr>tv_sec = REAP_MAX_WAKEUP, tv_usec = 0\<rparr>, sv) }"

section \<open>After each event\<close>

definition MPP_PRE_SELECT :: u32 where "MPP_PRE_SELECT = push_bit 0 1"
definition MPP_CONDITIONAL_PRE_SELECT :: u32 where "MPP_CONDITIONAL_PRE_SELECT = push_bit 1 1"
definition MPP_CLOSE_ON_SIGNAL :: u32 where "MPP_CLOSE_ON_SIGNAL = push_bit 2 1"

text \<open>What TLS sets when it serves an instance.\<close>

definition tls_progress :: "post_env \<Rightarrow> client \<Rightarrow> client" where
  "tls_progress env c =
     (let c = c\<lparr>cl_common_name := pe_common_name env, cl_cert_hash_set := pe_cert_hash_set env\<rparr>;
          c = (if cl_multi_state c = CAS_NOT_CONNECTED then c\<lparr>cl_multi_state := CAS_WAITING_AUTH\<rparr> else c)
      in if cl_multi_state c = CAS_WAITING_AUTH \<and> pe_authenticated env then c\<lparr>cl_multi_state := CAS_PENDING\<rparr> else c)"

definition multi_close_instance_on_signal :: "server \<Rightarrow> int \<Rightarrow> nat \<Rightarrow> server option" where
  "multi_close_instance_on_signal sv nw mi = multi_close_instance sv nw mi False"

text \<open>\<^verbatim>\<open>pre_select\<close> with what TLS does in it, the connection if it is authenticated, and the time of the next call.\<close>

definition serve_instance :: "server \<Rightarrow> int \<Rightarrow> learn_script \<Rightarrow> nat \<Rightarrow> post_env \<Rightarrow> server option" where
  "serve_instance sv nw learn_address_script mi env =
     do { sv \<leftarrow> change_client sv mi (tls_progress env);
          if \<not> pe_signal_selected env
          then do {
            c \<leftarrow> client_at sv mi;
            sv \<leftarrow> (if is_cas_pending (cl_multi_state c)
                 then multi_connection_established sv nw learn_address_script mi env else Some sv);
            multi_schedule_context_wakeup sv mi (pe_gettimeofday env) (pe_timeval env) (pe_random env) }
          else Some sv }"

definition multi_process_post :: "server \<Rightarrow> int \<Rightarrow> learn_script \<Rightarrow> nat \<Rightarrow> u32 \<Rightarrow> post_env \<Rightarrow> (bool \<times> server) option" where
  "multi_process_post sv nw learn_address_script mi flags env =
     do { c \<leftarrow> client_at sv mi;
          sv \<leftarrow>
            (if \<not> pe_signal_before env \<and>
               (flags AND MPP_PRE_SELECT \<noteq> 0 \<or> flags AND MPP_CONDITIONAL_PRE_SELECT \<noteq> 0 \<and> \<not> pe_any_out_before env)
             then serve_instance sv nw learn_address_script mi env
             else Some sv);
          if pe_signal env
          then if flags AND MPP_CLOSE_ON_SIGNAL \<noteq> 0
            then do { sv \<leftarrow> multi_close_instance_on_signal sv nw mi; Some (False, sv) }
            else Some (True, sv)
          else Some (True, sv\<lparr>sv_pending := (if pe_any_out env then Some mi else None)\<rparr>) }"

section \<open>New clients\<close>

text \<open>Taking the next unused management id: the id, the counter and the table.\<close>

partial_function (option) cid_loop :: "(64 word, nat) hash \<Rightarrow> 64 word \<Rightarrow> nat \<Rightarrow> (64 word \<times> 64 word \<times> (64 word, nat) hash) option" where
  "cid_loop h counter mi =
     (case hash_add h counter mi False of
        (ok, h) \<Rightarrow> if ok then Some (counter, counter + 1, h) else cid_loop h (counter + 1) mi)"

declare cid_loop.simps [code]

text \<open>
  A new instance at the unused address \<open>mi\<close>, with the options of the top-level context; the memory is
  cleared, so its peer id is 0. No signal is pending for the new context.
\<close>

record instance_env =
  ie_address :: nat
  ie_routing :: multi_instance
  ie_config :: client_config
  ie_post :: post_env

definition cleared_client :: client where
  "cleared_client = \<lparr>cl_real = mroute_addr_init, cl_from = AF_OTHER, cl_peer_id = 0, cl_vaddr_handle = 0,
     cl_wakeup = \<lparr>tv_sec = 0, tv_usec = 0\<rparr>, cl_did_real_hash = False, cl_did_iter = False,
     cl_did_cid_hash = False, cl_cid = 0, cl_n_clients_delta = 0, cl_multi_state = CAS_NOT_CONNECTED,
     cl_common_name = None, cl_cert_hash_set = None, cl_locked_cert_hash_set = None, cl_cur_handler_index = 0,
     cl_config = \<lparr>co_push_ifconfig_defined = False, co_push_ifconfig_local = 0, co_push_ifconfig_remote_netmask = 0,
       co_push_ifconfig_ipv6_defined = False, co_push_ifconfig_ipv6_local = replicate 16 0, co_ifconfig_pool_defined = False,
       co_ifconfig_pool_netmask = 0, co_ifconfig_ipv6_pool_defined = False, co_duplicate_cn = False, co_disable = False\<rparr>,
     cl_push_ifconfig_remote_netmask = 0\<rparr>"

definition cleared_entry :: schedule_entry where
  "cleared_entry = \<lparr>se_tv = \<lparr>tv_sec = 0, tv_usec = 0\<rparr>, se_pri = 0, se_parent = None, se_lt = None, se_gt = None\<rparr>"

definition new_instance :: "server \<Rightarrow> instance_env \<Rightarrow> mroute_addr \<Rightarrow> server option" where
  "new_instance sv ie real =
     do { m \<leftarrow> create_instance (sv_m sv) (ie_address ie) (ie_routing ie);
          Some (sv\<lparr>sv_m := m,
            sv_c := (sv_c sv)(ie_address ie := cleared_client\<lparr>cl_vaddr_handle := - 1, cl_real := real, cl_config := ie_config ie\<rparr>),
            sv_schedule := upd (sv_schedule sv) (ie_address ie) (\<lambda>_. cleared_entry)\<rparr>) }"

definition multi_create_instance :: "server \<Rightarrow> int \<Rightarrow> learn_script \<Rightarrow> instance_env \<Rightarrow> mroute_addr \<Rightarrow> (nat option \<times> server) option" where
  "multi_create_instance sv nw learn_address_script ie real =
     do { sv \<leftarrow> new_instance sv ie real;
          let mi = ie_address ie;
          let err = (\<lambda>sv. map_option (Pair None) (multi_close_instance sv nw mi False));
          if n_elements (sv_hash sv) \<ge> sv_max_clients sv then err sv
          else case hash_add (sv_iter sv) real mi False of
            (ok, it) \<Rightarrow>
              let sv = sv\<lparr>sv_iter := it\<rparr>
              in if \<not> ok then err sv
                 else do {
                   sv \<leftarrow> change_client sv mi (\<lambda>c. c\<lparr>cl_did_iter := True\<rparr>);
                   (cid, counter, cidh) \<leftarrow> cid_loop (sv_cid_hash sv) (sv_cid_counter sv) mi;
                   sv \<leftarrow> change_client (sv\<lparr>sv_cid_hash := cidh, sv_cid_counter := counter\<rparr>) mi
                     (\<lambda>c. c\<lparr>cl_cid := cid, cl_did_cid_hash := True\<rparr>);
                   (ok, sv) \<leftarrow> multi_process_post sv nw learn_address_script mi MPP_PRE_SELECT (ie_post ie);
                   if \<not> ok then err sv else Some (Some mi, sv) } }"

fun first_free :: "nat option list \<Rightarrow> nat list \<Rightarrow> nat option" where
  "first_free instances [] = None"
| "first_free instances (i # is) = (if instances ! i = None then Some i else first_free instances is)"

definition multi_assign_peer_id :: "server \<Rightarrow> nat \<Rightarrow> server option" where
  "multi_assign_peer_id sv mi =
     (if \<not> sv_max_clients sv < uint MAX_PEER_ID then None
      else do {
        sv \<leftarrow> (case first_free (sv_instances sv) [0..<nat (sv_max_clients sv)] of
             None \<Rightarrow> Some sv
           | Some i \<Rightarrow>
               change_client (sv\<lparr>sv_instances := (sv_instances sv)[i := Some mi]\<rparr>) mi (\<lambda>c. c\<lparr>cl_peer_id := word_of_nat i\<rparr>));
        c \<leftarrow> client_at sv mi;
        if uint (cl_peer_id c) < sv_max_clients sv then Some sv else None })"

section \<open>The client that a packet is from\<close>

definition P_OPCODE_SHIFT :: nat where "P_OPCODE_SHIFT = 3"
definition P_DATA_V2 :: u8 where "P_DATA_V2 = 9"

text \<open>Addresses of different families are different.\<close>

fun addr_port_match :: "openvpn_sockaddr \<Rightarrow> openvpn_sockaddr \<Rightarrow> bool option" where
  "addr_port_match (AF_INET a p) a2 = Some (case a2 of AF_INET b q \<Rightarrow> a = b \<and> p = q | _ \<Rightarrow> False)"
| "addr_port_match (AF_INET6 a p) a2 = Some (case a2 of AF_INET6 b q \<Rightarrow> a = b \<and> p = q | _ \<Rightarrow> False)"
| "addr_port_match AF_OTHER a2 = None"

text \<open>
  A packet of an unknown session, if its check \<^verbatim>\<open>do_pre_decrypt_check\<close>, whose verdict is \<open>precheck\<close>, and the
  limit of new connections allow it.
\<close>

definition accept_client :: "server \<Rightarrow> int \<Rightarrow> learn_script \<Rightarrow> mroute_addr \<Rightarrow> nat \<Rightarrow> u32 \<Rightarrow> bool \<Rightarrow> instance_env \<Rightarrow>
    (nat option \<times> server) option" where
  "accept_client sv nw learn_address_script real bucket hv precheck ie =
     (if precheck
      then case frequency_limit_event_allowed nw (sv_new_connection_limiter sv) of
        (allowed, limiter) \<Rightarrow>
          let sv = sv\<lparr>sv_new_connection_limiter := limiter\<rparr>
          in if allowed
             then do {
               (mi, sv) \<leftarrow> multi_create_instance sv nw learn_address_script ie real;
               case mi of
                 None \<Rightarrow> Some (None, sv)
               | Some i \<Rightarrow>
                   do { c \<leftarrow> client_at sv i;
                        let sv = sv\<lparr>sv_hash := hash_add_fast (sv_hash sv) bucket (cl_real c) hv i\<rparr>;
                        sv \<leftarrow> change_client sv i (\<lambda>c. c\<lparr>cl_did_real_hash := True\<rparr>);
                        sv \<leftarrow> multi_assign_peer_id sv i;
                        Some (Some i, sv) } }
             else Some (None, sv)
      else Some (None, sv))"

text \<open>The instance with the peer id of a data packet, and whether it has floated to another address.\<close>

definition peer_instance :: "server \<Rightarrow> openvpn_sockaddr \<Rightarrow> u32 \<Rightarrow> (nat option \<times> bool) option" where
  "peer_instance sv from peer_id =
     (if uint peer_id < sv_max_clients sv
      then case sv_instances sv ! unat peer_id of
          None \<Rightarrow> Some (None, False)
        | Some mi \<Rightarrow> do { c \<leftarrow> client_at sv mi; same \<leftarrow> addr_port_match (cl_from c) from; Some (Some mi, \<not> same) }
      else Some (None, False))"

definition multi_get_create_instance_udp :: "server \<Rightarrow> int \<Rightarrow> learn_script \<Rightarrow> openvpn_sockaddr \<Rightarrow> u8 list \<Rightarrow> bool \<Rightarrow>
    instance_env \<Rightarrow> (nat option \<times> bool \<times> server) option" where
  "multi_get_create_instance_udp sv nw learn_address_script from buf precheck ie =
     (case mroute_extract_openvpn_sockaddr mroute_addr_init from True of
        None \<Rightarrow> Some (None, False, sv)
      | Some real \<Rightarrow>
          if length buf > 0
          then do {
            let hv = hash_value (sv_hash sv) real;
            let bucket = bucket_index (sv_hash sv) hv;
            let v2 = (drop_bit P_OPCODE_SHIFT (buf ! 0) = P_DATA_V2 \<and> length buf \<ge> 1 + 3);
            let peer_id = of_be32 (take 4 buf) AND 0xFFFFFF;
            let peer_id_disabled = (v2 \<and> peer_id = MAX_PEER_ID);
            (mi, floated) \<leftarrow> (if v2 \<and> \<not> peer_id_disabled then peer_instance sv from peer_id else Some (None, False));
            let (mi, sv) =
              (if \<not> v2 \<or> peer_id_disabled
               then case hash_lookup_fast (sv_hash sv) bucket real hv of
                   (he, h) \<Rightarrow> ((case he of Some he \<Rightarrow> Some (he_value he) | None \<Rightarrow> mi), sv\<lparr>sv_hash := h\<rparr>)
               else (mi, sv));
            (mi, sv) \<leftarrow>
              (if mi = None then accept_client sv nw learn_address_script real bucket hv precheck ie else Some (mi, sv));
            case mi of
              None \<Rightarrow> Some (None, floated, sv)
            | Some i \<Rightarrow> do { x \<leftarrow> m_heap (sv_m sv) i; if mi_halt x then None else Some (mi, floated, sv) } }
          else Some (None, False, sv))"

text \<open>The tables after the client has moved to the new address.\<close>

definition update_address :: "server \<Rightarrow> nat \<Rightarrow> mroute_addr \<Rightarrow> openvpn_sockaddr \<Rightarrow> server option" where
  "update_address sv mi real from =
     do { c \<leftarrow> client_at sv mi;
          h \<leftarrow> assert_remove (sv_hash sv) (cl_real c);
          it \<leftarrow> assert_remove (sv_iter sv) (cl_real c);
          sv \<leftarrow> change_client sv mi (\<lambda>c. c\<lparr>cl_real := real, cl_from := from\<rparr>);
          let (ok1, h) = hash_add h real mi False;
          let (ok2, it) = hash_add it real mi False;
          let (ok3, cidh) = hash_add (sv_cid_hash sv) (cl_cid c) mi True;
          if ok1 \<and> ok2 \<and> ok3 then Some (sv\<lparr>sv_hash := h, sv_iter := it, sv_cid_hash := cidh\<rparr>) else None }"

text \<open>
  An authenticated packet has come from another address than the client's. The result is whether the client
  has moved there; it has not if a client with other certificates has the address.
\<close>

definition multi_process_float :: "server \<Rightarrow> int \<Rightarrow> nat \<Rightarrow> openvpn_sockaddr \<Rightarrow> (bool \<times> server) option" where
  "multi_process_float sv nw mi from =
     (case mroute_extract_openvpn_sockaddr mroute_addr_init from True of
        None \<Rightarrow> Some (True, sv)
      | Some real \<Rightarrow>
          do { let hv = hash_value (sv_hash sv) real;
               let bucket = bucket_index (sv_hash sv) hv;
               let (he, h) = hash_lookup_fast (sv_hash sv) bucket real hv;
               let sv = sv\<lparr>sv_hash := h\<rparr>;
               (taken, sv) \<leftarrow>
                 (case he of
                    None \<Rightarrow> Some (False, sv)
                  | Some he \<Rightarrow>
                      do { let ex_mi = he_value he;
                           c \<leftarrow> client_at sv mi;
                           ex \<leftarrow> client_at sv ex_mi;
                           if \<not> cert_hash_compare (cl_locked_cert_hash_set c) (cl_locked_cert_hash_set ex)
                           then Some (True, sv)
                           else do { sv \<leftarrow> multi_close_instance sv nw ex_mi False; Some (False, sv) } });
               if taken then Some (False, sv)
               else do { sv \<leftarrow> update_address sv mi real from; Some (True, sv) } })"

end
