(* ===== verification/Server_Events.thy ===== *)
theory Server_Events
  imports Sessions
begin

text \<open>
  The event loop of a UDP server, from \<^verbatim>\<open>multi.h\<close>, \<^verbatim>\<open>multi.c\<close> and \<^verbatim>\<open>mudp.c\<close>, for \<^verbatim>\<open>tun\<close> devices: the state after
  \<^verbatim>\<open>multi_init\<close>, and the handlers of its events, which are packets from clients and from the
  interface, output that can be sent, timeouts, passes of the reaper and commands of the management interface.
\<close>

section \<open>Initial state\<close>

record server_options =
  so_real_hash_size :: int
  so_virtual_hash_size :: int
  so_cf_max :: int
  so_cf_per :: int
  so_n_bcast_buf :: nat
  so_topology :: topology
  so_ifconfig_pool_defined :: bool
  so_ifconfig_pool_start :: u32
  so_ifconfig_pool_end :: u32
  so_duplicate_cn :: bool
  so_ifconfig_ipv6_pool_defined :: bool
  so_ifconfig_ipv6_pool_base :: "u8 list"
  so_ifconfig_ipv6_pool_netbits :: nat
  so_max_clients :: int
  so_enable_c2c :: bool
  so_stale_routes_ageing_time :: int
  so_tun_local :: u32
  so_tun_remote_netmask :: u32

text \<open>
  \<open>rnd\<close> are the random numbers for the hash tables, \<open>junk\<close> the memory of the ring of packets. No file keeps
  the pool.
\<close>

definition multi_init :: "int \<Rightarrow> server_options \<Rightarrow> (nat \<Rightarrow> u32) \<Rightarrow> (nat \<Rightarrow> mbuf_item) \<Rightarrow> server option" where
  "multi_init nw so rnd junk =
     do { h \<leftarrow> hash_init (so_real_hash_size so) (rnd 0) mroute_addr_hash_function mroute_addr_compare_function;
          m \<leftarrow> multi_init_routes nw (so_virtual_hash_size so) (rnd 1) (so_tun_local so) (so_stale_routes_ageing_time so);
          it \<leftarrow> hash_init 1 (rnd 2) mroute_addr_hash_function mroute_addr_compare_function;
          cidh \<leftarrow> hash_init (so_real_hash_size so) 0 cid_hash_function cid_compare_function;
          fl \<leftarrow> frequency_limit_init (so_cf_max so) (so_cf_per so);
          ms \<leftarrow> mbuf_init junk (so_n_bcast_buf so);
          pool \<leftarrow> (if so_ifconfig_pool_defined so \<or> so_ifconfig_ipv6_pool_defined so
                 then map_option Some (ifconfig_pool_init (so_ifconfig_pool_defined so)
                        (if so_topology so = TOP_NET30 then IFCONFIG_POOL_30NET else IFCONFIG_POOL_INDIV)
                        (so_ifconfig_pool_start so) (so_ifconfig_pool_end so) (so_duplicate_cn so)
                        (so_ifconfig_ipv6_pool_defined so) (so_ifconfig_ipv6_pool_base so) (so_ifconfig_ipv6_pool_netbits so))
                 else Some None);
          Some \<lparr>sv_m = m, sv_c = (\<lambda>_. cleared_client), sv_instances = replicate (nat (so_max_clients so)) None,
            sv_hash = h, sv_iter = it, sv_cid_hash = cidh, sv_cid_counter = 0,
            sv_schedule = schedule_init (\<lambda>_. cleared_entry), sv_mbufs = Map.empty, sv_mbuf = ms,
            sv_ifconfig_pool = pool, sv_new_connection_limiter = fl, sv_enable_c2c = so_enable_c2c so,
            sv_max_clients = so_max_clients so, sv_n_clients = 0, sv_pending = None, sv_earliest_wakeup = None,
            sv_topology = so_topology so, sv_tun_local = so_tun_local so,
            sv_tun_remote_netmask = so_tun_remote_netmask so\<rparr> }"

section \<open>Packets between clients\<close>

definition multi_add_mbuf :: "mbufs \<times> mbuf_set \<Rightarrow> nat \<Rightarrow> nat \<Rightarrow> (mbufs \<times> mbuf_set) option" where
  "multi_add_mbuf q mi mb = mbuf_add_item (fst q) (snd q) \<lparr>mbi_buffer = Some mb, mbi_instance = Some mi\<rparr>"

text \<open>\<open>mb\<close> is the unused address that the packet is stored at.\<close>

definition multi_unicast :: "server \<Rightarrow> u8 list \<Rightarrow> nat \<Rightarrow> nat \<Rightarrow> server option" where
  "multi_unicast sv buf mi mb =
     (if length buf > 0
      then do { mbs \<leftarrow> mbuf_alloc_buf (sv_mbufs sv) mb buf;
                x \<leftarrow> mbs mb;
                let mbs = mbs(mb \<mapsto> x\<lparr>mb_flags := MF_UNICAST\<rparr>);
                (mbs, ms) \<leftarrow> multi_add_mbuf (mbs, sv_mbuf sv) mi mb;
                mbs \<leftarrow> mbuf_free_buf mbs (Some mb);
                Some (sv\<lparr>sv_mbufs := mbs, sv_mbuf := ms\<rparr>) }
      else Some sv)"

definition bcast_body :: "(nat \<rightharpoonup> multi_instance) \<Rightarrow> nat option \<Rightarrow> nat \<Rightarrow> nat \<Rightarrow> mbufs \<times> mbuf_set \<Rightarrow> (bool \<times> mbufs \<times> mbuf_set) option" where
  "bcast_body instances sender_instance mb mi q =
     do { i \<leftarrow> instances mi;
          if Some mi \<noteq> sender_instance \<and> \<not> mi_halt i
          then do { q \<leftarrow> multi_add_mbuf q mi mb; Some (False, q) }
          else Some (False, q) }"

definition multi_bcast :: "server \<Rightarrow> u8 list \<Rightarrow> nat option \<Rightarrow> nat \<Rightarrow> server option" where
  "multi_bcast sv buf sender_instance mb =
     (if length buf > 0
      then do { mbs \<leftarrow> mbuf_alloc_buf (sv_mbufs sv) mb buf;
                hi \<leftarrow> hash_iterator_init (sv_iter sv);
                (it, mbs, ms) \<leftarrow> hash_iterate (bcast_body (m_heap (sv_m sv)) sender_instance mb) (sv_iter sv) hi (mbs, sv_mbuf sv);
                mbs \<leftarrow> mbuf_free_buf mbs (Some mb);
                Some (sv\<lparr>sv_iter := it, sv_mbufs := mbs, sv_mbuf := ms\<rparr>) }
      else Some sv)"

text \<open>The client whose packet is sent next, with the packet.\<close>

definition multi_get_queue :: "server \<Rightarrow> ((nat \<times> u8 list) option \<times> server) option" where
  "multi_get_queue sv =
     (case mbuf_extract_item (sv_mbuf sv) of
        (None, ms) \<Rightarrow> Some (None, sv\<lparr>sv_mbuf := ms\<rparr>)
      | (Some item, ms) \<Rightarrow>
          do { mi \<leftarrow> mbi_instance item;
               b \<leftarrow> mbi_buffer item;
               x \<leftarrow> sv_mbufs sv b;
               c \<leftarrow> client_at sv mi;
               mbs \<leftarrow> mbuf_free_buf (sv_mbufs sv) (Some b);
               Some (Some (mi, mb_buf x), sv\<lparr>sv_mbufs := mbs, sv_mbuf := ms\<rparr>) })"

section \<open>Packets from clients and from the interface\<close>

text \<open>
  What decryption makes of a packet: whether it is valid, whether a packet is left then, and the packet for the interface.
\<close>

record link_env =
  le_part1 :: bool
  le_nonempty :: bool
  le_to_tun :: "u8 list"
  le_mbuf :: nat
  le_post :: post_env

definition forward_packet :: "server \<Rightarrow> int \<Rightarrow> learn_script \<Rightarrow> nat \<Rightarrow> u8 list \<Rightarrow> nat \<Rightarrow> (bool \<times> server) option" where
  "forward_packet sv nw learn_address_script mi to_tun mb =
     do { (v, m) \<leftarrow> incoming_link_tun (sv_m sv) nw learn_address_script (sv_enable_c2c sv) mi to_tun;
          let sv = sv\<lparr>sv_m := m\<rparr>;
          sv \<leftarrow> (if v_bcast v then multi_bcast sv to_tun (Some mi) mb
               else case v_unicast v of None \<Rightarrow> Some sv | Some j \<Rightarrow> multi_unicast sv to_tun j mb);
          Some (v_to_tun v, sv) }"

text \<open>The result is that of \<^verbatim>\<open>multi_process_incoming_link\<close>, with the packet for the interface if there is one.\<close>

definition multi_process_incoming_link :: "server \<Rightarrow> int \<Rightarrow> learn_script \<Rightarrow> openvpn_sockaddr \<Rightarrow> u8 list \<Rightarrow> bool \<Rightarrow> u32 \<Rightarrow>
    instance_env \<Rightarrow> link_env \<Rightarrow> (bool \<times> u8 list option \<times> server) option" where
  "multi_process_incoming_link sv nw learn_address_script from buf precheck mpp_flags ie le =
     (if sv_pending sv \<noteq> None then Some (True, None, sv)
      else do {
        (pending, floated, sv) \<leftarrow> multi_get_create_instance_udp sv nw learn_address_script from buf precheck ie;
        let sv = sv\<lparr>sv_pending := pending\<rparr>;
        case sv_pending sv of
          None \<Rightarrow> Some (True, None, sv)
        | Some mi \<Rightarrow>
            do { sv \<leftarrow> (if \<not> floated then change_client sv mi (\<lambda>c. c\<lparr>cl_from := from\<rparr>) else Some sv);
                 (to_tun, sv) \<leftarrow>
                   (if length buf > 0
                    then do {
                      (here, sv) \<leftarrow> (if le_part1 le \<and> floated \<and> le_nonempty le
                                   then multi_process_float sv nw mi from else Some (True, sv));
                      let packet = (if here then le_to_tun le else []);
                      pending \<leftarrow> sv_pending sv;
                      (to_tun, sv) \<leftarrow> forward_packet sv nw learn_address_script pending packet (le_mbuf le);
                      Some (if to_tun then Some packet else None, sv) }
                    else Some (None, sv));
                 pending \<leftarrow> sv_pending sv;
                 (ret, sv) \<leftarrow> multi_process_post sv nw learn_address_script pending mpp_flags (le_post le);
                 Some (ret, to_tun, sv) } })"

definition multi_process_incoming_tun :: "server \<Rightarrow> int \<Rightarrow> learn_script \<Rightarrow> u8 list \<Rightarrow> u32 \<Rightarrow> nat \<Rightarrow> post_env \<Rightarrow> (bool \<times> server) option" where
  "multi_process_incoming_tun sv nw learn_address_script buf mpp_flags mb pe =
     (if length buf > 0
      then if sv_pending sv \<noteq> None then Some (True, sv)
        else do {
          ((bcast, mi), m) \<leftarrow> incoming_tun (sv_m sv) nw learn_address_script DEV_TYPE_TUN 0 buf;
          let sv = sv\<lparr>sv_m := m\<rparr>;
          if bcast then do { sv \<leftarrow> multi_bcast sv buf None mb; Some (True, sv) }
          else do {
            let sv = sv\<lparr>sv_pending := mi\<rparr>;
            case sv_pending sv of
              None \<Rightarrow> Some (True, sv)
            | Some mi \<Rightarrow> multi_process_post sv nw learn_address_script mi mpp_flags pe } }
      else Some (True, sv))"

section \<open>Output, timeouts and commands\<close>

definition multi_process_outgoing_link :: "server \<Rightarrow> int \<Rightarrow> learn_script \<Rightarrow> u32 \<Rightarrow> post_env \<Rightarrow> (bool \<times> server) option" where
  "multi_process_outgoing_link sv nw learn_address_script mpp_flags pe =
     do { (mi, sv) \<leftarrow>
            (case sv_pending sv of
               Some mi \<Rightarrow> Some (Some mi, sv)
             | None \<Rightarrow>
                 if mbuf_defined (sv_mbuf sv) then do { (r, sv) \<leftarrow> multi_get_queue sv; Some (map_option fst r, sv) }
                 else Some (None, sv));
          case mi of
            None \<Rightarrow> Some (True, sv)
          | Some mi \<Rightarrow> multi_process_post sv nw learn_address_script mi mpp_flags pe }"

text \<open>\<^verbatim>\<open>multi_process_outgoing_tun\<close> and \<^verbatim>\<open>multi_process_drop_outgoing_tun\<close>.\<close>

definition multi_process_outgoing_tun :: "server \<Rightarrow> int \<Rightarrow> learn_script \<Rightarrow> u32 \<Rightarrow> post_env \<Rightarrow> (bool \<times> server) option" where
  "multi_process_outgoing_tun sv nw learn_address_script mpp_flags pe =
     do { mi \<leftarrow> sv_pending sv; multi_process_post sv nw learn_address_script mi mpp_flags pe }"

definition multi_process_timeout :: "server \<Rightarrow> int \<Rightarrow> learn_script \<Rightarrow> u32 \<Rightarrow> post_env \<Rightarrow> (bool \<times> server) option" where
  "multi_process_timeout sv nw learn_address_script mpp_flags pe =
     (case sv_earliest_wakeup sv of
        None \<Rightarrow> Some (True, sv)
      | Some mi \<Rightarrow>
          do { (ret, sv) \<leftarrow> multi_process_post sv nw learn_address_script mi mpp_flags pe;
               Some (ret, sv\<lparr>sv_earliest_wakeup := None\<rparr>) })"

definition lookup_by_cid :: "server \<Rightarrow> 64 word \<Rightarrow> (nat option \<times> server) option" where
  "lookup_by_cid sv cid =
     (case hash_lookup (sv_cid_hash sv) cid of
        (None, h) \<Rightarrow> Some (None, sv\<lparr>sv_cid_hash := h\<rparr>)
      | (Some mi, h) \<Rightarrow>
          do { i \<leftarrow> m_heap (sv_m sv) mi;
               Some (if \<not> mi_halt i then Some mi else None, sv\<lparr>sv_cid_hash := h\<rparr>) })"

text \<open>The instance is sent a message, and is told to restart by the signal it finds when it is woken up.\<close>

definition management_kill_by_cid :: "server \<Rightarrow> 64 word \<Rightarrow> timeval \<Rightarrow> timeval \<Rightarrow> u32 list \<Rightarrow> (bool \<times> server) option" where
  "management_kill_by_cid sv cid clock delta random =
     do { (mi, sv) \<leftarrow> lookup_by_cid sv cid;
          case mi of
            None \<Rightarrow> Some (False, sv)
          | Some mi \<Rightarrow> do { sv \<leftarrow> multi_schedule_context_wakeup sv mi clock delta random; Some (True, sv) } }"

definition reap_instances :: "server \<Rightarrow> int \<Rightarrow> server option" where
  "reap_instances sv nw = do { m \<leftarrow> multi_reap_process (sv_m sv) nw; Some (sv\<lparr>sv_m := m\<rparr>) }"

end
