(* ===== verification/Session_Inv.thy ===== *)
theory Session_Inv
  imports Server_Events
begin

text \<open>
  The invariant of the clients of a server, and that every operation on instances keeps it: each table refers
  to open instances only, and under the key that the instance has; wakeups, queued packets and
  the two pointers of the event loop belong to open instances; addresses of the pool that clients hold are in
  use and held once. Between events every open instance is in all tables; an operation that is at work on some
  instances may have them in part, and those are the parameter \<open>X\<close> of the invariant.
\<close>

section \<open>The number of changes of the networks\<close>

text \<open>
  The changes of the set of prefix lengths up to now, and those that closing all clients will take. Closing clients
  leaves it as it is, so that the counter of the changes does not wrap as long as it is below 2 to the 32.
\<close>

definition load :: "multi_context \<Rightarrow> int" where
  "load m = uint (mh_cache_generation (m_route_helper m)) + (\<Sum>i | claims m i \<noteq> {#}. int (size (claims m i)))"

lemma load_same: "claims m' = claims m \<Longrightarrow> m_route_helper m' = m_route_helper m \<Longrightarrow> load m' = load m"
  by (simp add: load_def)

lemma load_update:
  assumes "finite {i. claims m i \<noteq> {#}}" "claims m' = (claims m)(mi := M)"
    "uint (mh_cache_generation (m_route_helper m')) = uint (mh_cache_generation (m_route_helper m)) + k"
  shows "load m' = load m - int (size (claims m mi)) + int (size M) + k"
proof -
  let ?S = "insert mi {i. claims m i \<noteq> {#}}"
  have S: "finite ?S" "{i. claims m i \<noteq> {#}} \<subseteq> ?S" "{i. claims m' i \<noteq> {#}} \<subseteq> ?S" using assms(1,2) by auto
  have "(\<Sum>i | claims m i \<noteq> {#}. int (size (claims m i))) = (\<Sum>i \<in> ?S. int (size (claims m i)))"
    by (rule sum.mono_neutral_left [OF S(1,2)]) auto
  also have "\<dots> = int (size (claims m mi)) + (\<Sum>i \<in> ?S - {mi}. int (size (claims m i)))"
    by (rule sum.remove [OF S(1)]) simp
  finally have a: "(\<Sum>i | claims m i \<noteq> {#}. int (size (claims m i))) =
      int (size (claims m mi)) + (\<Sum>i \<in> ?S - {mi}. int (size (claims m i)))" .
  have "(\<Sum>i | claims m' i \<noteq> {#}. int (size (claims m' i))) = (\<Sum>i \<in> ?S. int (size (claims m' i)))"
    by (rule sum.mono_neutral_left [OF S(1,3)]) auto
  also have "\<dots> = int (size (claims m' mi)) + (\<Sum>i \<in> ?S - {mi}. int (size (claims m' i)))"
    by (rule sum.remove [OF S(1)]) simp
  also have "(\<Sum>i \<in> ?S - {mi}. int (size (claims m' i))) = (\<Sum>i \<in> ?S - {mi}. int (size (claims m i)))"
    by (rule sum.cong) (auto simp: assms(2))
  finally have b: "(\<Sum>i | claims m' i \<noteq> {#}. int (size (claims m' i))) =
      int (size M) + (\<Sum>i \<in> ?S - {mi}. int (size (claims m i)))" by (simp add: assms(2))
  show ?thesis unfolding load_def a b assms(3) by simp
qed

lemma load_claims:
  assumes "finite {i. claims m i \<noteq> {#}}"
  shows "uint (mh_cache_generation (m_route_helper m)) + int (size (claims m mi)) \<le> load m"
proof (cases "claims m mi = {#}")
  case True
  then show ?thesis by (simp add: load_def sum_nonneg)
next
  case False
  then have "int (size (claims m mi)) \<le> (\<Sum>i | claims m i \<noteq> {#}. int (size (claims m i)))"
    by (intro member_le_sum [OF _ _ assms]) auto
  then show ?thesis by (simp add: load_def)
qed

lemma table_claims_finite: "table_inv m \<Longrightarrow> finite {i. claims m i \<noteq> {#}}"
  by (simp add: table_inv_def route_inv_def)

lemma load_routes: "table_inv m \<Longrightarrow> only_routes m m' \<Longrightarrow> load m' = load m"
  by (rule load_same) (auto simp: only_routes_def intro: claims_same)

section \<open>Tables of instances\<close>

definition indexed :: "('k \<rightharpoonup> nat) \<Rightarrow> (nat \<Rightarrow> bool) \<Rightarrow> (nat \<Rightarrow> 'k) \<Rightarrow> bool" where
  "indexed t S ky \<longleftrightarrow> (\<forall>k i. t k = Some i \<longleftrightarrow> S i \<and> ky i = k)"

lemma indexedD: "indexed t S ky \<Longrightarrow> S i \<Longrightarrow> t (ky i) = Some i"
  by (simp add: indexed_def)

lemma indexed_Some: "indexed t S ky \<Longrightarrow> t k = Some i \<Longrightarrow> S i \<and> ky i = k"
  by (simp add: indexed_def)

lemma indexed_cong:
  assumes "\<And>i. S i \<longleftrightarrow> S' i" "\<And>i. S' i \<Longrightarrow> ky' i = ky i"
  shows "indexed t S ky \<longleftrightarrow> indexed t S' ky'"
  using assms unfolding indexed_def by metis

lemma indexed_remove:
  assumes "indexed t S ky" "S i"
  shows "indexed (t(ky i := None)) (\<lambda>j. S j \<and> j \<noteq> i) ky"
  using assms unfolding indexed_def by (metis fun_upd_other fun_upd_same option.distinct(1) option.inject)

lemma indexed_add:
  assumes "indexed t S ky" "t k = None" "\<not> S i"
  shows "indexed (t(k \<mapsto> i)) (\<lambda>j. S j \<or> j = i) (ky(i := k))"
proof -
  have "ky j \<noteq> k" if "S j" for j using indexedD [OF assms(1) that] assms(2) by auto
  then show ?thesis using assms(1,3) unfolding indexed_def by (auto simp: fun_upd_def)
qed

definition index_ok :: "('k, nat) hash \<Rightarrow> (nat \<Rightarrow> bool) \<Rightarrow> (nat \<Rightarrow> 'k) \<Rightarrow> bool" where
  "index_ok h S ky \<longleftrightarrow> table_ok h \<and> indexed (table_map h) S ky"

lemma index_cong:
  assumes "\<And>i. S i \<longleftrightarrow> S' i" "\<And>i. S' i \<Longrightarrow> ky' i = ky i"
  shows "index_ok h S ky \<longleftrightarrow> index_ok h S' ky'"
  using indexed_cong [OF assms] by (simp add: index_ok_def)

lemma table_remove:
  assumes "table_ok h"
  shows "fst (hash_remove h k) \<longleftrightarrow> table_map h k \<noteq> None" "table_ok (snd (hash_remove h k))"
    "table_map (snd (hash_remove h k)) = (table_map h)(k := None)"
  using hash_remove_ok [of h k] assms by (auto simp: table_ok_def fun_eq_iff)

lemma table_add:
  assumes "table_ok h"
  shows "fst (hash_add h k v r) \<longleftrightarrow> r \<or> table_map h k = None" "table_ok (snd (hash_add h k v r))"
    "table_map (snd (hash_add h k v r)) = (if r \<or> table_map h k = None then (table_map h)(k \<mapsto> v) else table_map h)"
  using hash_add_ok [of h k v r] assms by (auto simp: table_ok_def fun_eq_iff)

lemma assert_remove_ok:
  assumes "table_ok h" "table_map h k \<noteq> None"
  shows "\<exists>h'. assert_remove h k = Some h' \<and> table_ok h' \<and> table_map h' = (table_map h)(k := None)"
  using table_remove [OF assms(1), of k] assms(2)
  by (cases "hash_remove h k") (auto simp: assert_remove_def)

lemma index_remove:
  assumes "index_ok h S ky" "S i"
  shows "\<exists>h'. assert_remove h (ky i) = Some h' \<and> index_ok h' (\<lambda>j. S j \<and> j \<noteq> i) ky"
  using assert_remove_ok [of h "ky i"] indexedD [of "table_map h" S ky i] indexed_remove [of "table_map h" S ky i] assms
  by (auto simp: index_ok_def)

lemma index_add:
  assumes "index_ok h S ky" "table_map h k = None" "\<not> S i"
  shows "fst (hash_add h k i r)" "index_ok (snd (hash_add h k i r)) (\<lambda>j. S j \<or> j = i) (ky(i := k))"
  using table_add [of h k i r] assms indexed_add [of "table_map h" S ky k i] by (auto simp: index_ok_def)

lemma index_add_fast:
  assumes "index_ok h S ky" "table_map h k = None" "\<not> S i"
  shows "index_ok (hash_add_fast h (bucket_index h (hash_value h k)) k (hash_value h k) i) (\<lambda>j. S j \<or> j = i) (ky(i := k))"
proof -
  obtain he h1 where f: "hash_lookup_fast h (home h k) k (hash_value h k) = (he, h1)" by fastforce
  have t: "table_ok h" using assms(1) by (simp add: index_ok_def)
  have "he = None" using table_lookup_fast(1) [OF t f] assms(2) by simp
  note a = table_add_fast(2,3) [OF t f [unfolded this], of i]
  show ?thesis using a indexed_add [of "table_map h" S ky k i] assms by (simp add: index_ok_def)
qed

section \<open>The pool of addresses\<close>

text \<open>The addresses held by the clients in \<open>S\<close>, of which each has the handle \<open>hd\<close>, negative if it holds none.\<close>

definition pool_ok :: "ifconfig_pool option \<Rightarrow> (nat \<Rightarrow> bool) \<Rightarrow> (nat \<Rightarrow> int) \<Rightarrow> bool" where
  "pool_ok pool S handle \<longleftrightarrow> (\<forall>p. pool = Some p \<longrightarrow> length (ipv6_base p) = 16) \<and>
     (\<forall>i. S i \<and> 0 \<le> handle i \<longrightarrow>
        (\<exists>p. pool = Some p \<and> handle i < pool_size p \<and> pe_in_use (pool_list p ! nat (handle i)))) \<and>
     (\<forall>i j. S i \<and> S j \<and> 0 \<le> handle i \<and> handle i = handle j \<longrightarrow> i = j)"

lemma pool_sub:
  assumes "pool_ok pool S handle" "\<And>i. S' i \<Longrightarrow> S i \<and> handle' i = handle i"
  shows "pool_ok pool S' handle'"
  using assms(1) assms(2) unfolding pool_ok_def by (metis (mono_tags))

lemma release_other:
  assumes "h \<noteq> k"
  shows "pool_size (snd (ifconfig_pool_release p k hard nw)) = pool_size p"
    "0 \<le> h \<Longrightarrow> pool_list (snd (ifconfig_pool_release p k hard nw)) ! nat h = pool_list p ! nat h"
  using assms by (auto simp: ifconfig_pool_release_def set_entry_def pool_size_def nat_eq_iff)

lemma pool_release:
  assumes "pool_ok pool S handle" "S mi" "\<And>i. S' i \<longleftrightarrow> S i \<and> i \<noteq> mi \<or> i = mi \<and> b" "\<And>i. i \<noteq> mi \<Longrightarrow> handle' i = handle i"
    "b \<Longrightarrow> handle' mi < 0"
  shows "pool_ok (map_option (\<lambda>p. snd (ifconfig_pool_release p (handle mi) hard nw)) pool) S' handle'"
  unfolding pool_ok_def
proof (intro conjI allI impI)
  show "length (ipv6_base q) = 16" if "map_option (\<lambda>p. snd (ifconfig_pool_release p (handle mi) hard nw)) pool = Some q" for q
    using that assms(1) by (auto simp: pool_ok_def ifconfig_pool_release_def set_entry_def split: if_splits)
next
  fix i assume i: "S' i \<and> 0 \<le> handle' i"
  then have o: "S i" "i \<noteq> mi" "handle' i = handle i" using assms(3,4) [of i] assms(5) by auto
  obtain p where p: "pool = Some p" "handle i < pool_size p" "pe_in_use (pool_list p ! nat (handle i))"
    using assms(1) o i unfolding pool_ok_def by metis
  have "handle i \<noteq> handle mi" using assms(1,2) o i unfolding pool_ok_def by metis
  from release_other [OF this, of p hard nw] show "\<exists>q. map_option (\<lambda>p. snd (ifconfig_pool_release p (handle mi) hard nw)) pool = Some q \<and>
      handle' i < pool_size q \<and> pe_in_use (pool_list q ! nat (handle' i))" using p o i by simp
next
  fix i j assume ij: "S' i \<and> S' j \<and> 0 \<le> handle' i \<and> handle' i = handle' j"
  then have "S i" "i \<noteq> mi" "handle' i = handle i" "S j" "j \<noteq> mi" "handle' j = handle j"
    using assms(3,4) [of i] assms(3,4) [of j] assms(5) by auto
  then show "i = j" using assms(1) ij unfolding pool_ok_def by metis
qed

lemma pool_acquire:
  assumes "pool_ok (Some p) S handle" "ifconfig_pool_acquire p cn nw = Some (l, p')" "handle mi < 0"
  shows "pool_ok (Some p') S (handle(mi := l_handle l))"
proof (cases rule: pool_acquire_cases [of p cn nw])
  case (full l')
  then have "l = l'" "p' = p" using assms(2) by auto
  then show ?thesis using assms(1,3) full unfolding pool_ok_def by auto
next
  case (got i e)
  then have l: "l_handle l = i" "p' = set_entry p i e" using assms(2) by auto
  have s: "pool_size p' = pool_size p" by (simp add: l(2) pool_size_def set_entry_def)
  have free: "handle j \<noteq> i" if "S j" for j
    using assms(1) that got(2,4) unfolding pool_ok_def by (metis option.inject)
  have n: "pool_list p' ! nat h = (if h = i then e else pool_list p ! nat h)" if "0 \<le> h" for h
    using got(2,3) that by (simp add: l(2) set_entry_def nth_list_update nat_eq_iff)
  have i: "i < pool_size p" using got(2,3) by (simp add: pool_size_def nat_less_iff)
  show ?thesis unfolding pool_ok_def l(1)
  proof (intro conjI allI impI)
    show "length (ipv6_base q) = 16" if "Some p' = Some q" for q
      using that assms(1) l(2) by (auto simp: pool_ok_def set_entry_def)
  next
    fix j assume j: "S j \<and> 0 \<le> (handle(mi := i)) j"
    show "\<exists>q. Some p' = Some q \<and> (handle(mi := i)) j < pool_size q \<and> pe_in_use (pool_list q ! nat ((handle(mi := i)) j))"
    proof (cases "j = mi")
      case True
      then show ?thesis using n [of i] got(2,5) i s by simp
    next
      case False
      then have h: "0 \<le> handle j" "S j" using j by auto
      obtain q where "Some p = Some q" "handle j < pool_size q" "pe_in_use (pool_list q ! nat (handle j))"
        using assms(1) h unfolding pool_ok_def by blast
      then show ?thesis using False n [OF h(1)] free [OF h(2)] s by simp
    qed
  next
    fix j k assume "S j \<and> S k \<and> 0 \<le> (handle(mi := i)) j \<and> (handle(mi := i)) j = (handle(mi := i)) k"
    then show "j = k" using assms(1) free unfolding pool_ok_def by (auto split: if_splits)
  qed
qed

section \<open>The invariant\<close>

abbreviation live :: "server \<Rightarrow> nat \<Rightarrow> bool" where
  "live sv \<equiv> opened (sv_m sv)"

text \<open>An open instance that no operation is at work on is in all tables, at the address that its packets come from.\<close>

fun sockaddr_ok :: "openvpn_sockaddr \<Rightarrow> bool" where
  "sockaddr_ok (AF_INET a p) \<longleftrightarrow> length a = 4 \<and> length p = 2"
| "sockaddr_ok (AF_INET6 a p) \<longleftrightarrow> length a = 16 \<and> length p = 2"
| "sockaddr_ok AF_OTHER \<longleftrightarrow> True"

definition settled :: "client \<Rightarrow> bool" where
  "settled c \<longleftrightarrow> cl_did_real_hash c \<and> cl_did_iter c \<and> cl_did_cid_hash c \<and> sockaddr_ok (cl_from c) \<and>
     mroute_extract_openvpn_sockaddr mroute_addr_init (cl_from c) True = Some (cl_real c)"

definition slots_ok :: "nat option list \<Rightarrow> (nat \<Rightarrow> bool) \<Rightarrow> (nat \<Rightarrow> u32) \<Rightarrow> bool" where
  "slots_ok instances S peer \<longleftrightarrow> int (length instances) < uint MAX_PEER_ID \<and>
     (\<forall>i. S i \<longrightarrow> unat (peer i) < length instances) \<and>
     (\<forall>k i. k < length instances \<and> instances ! k = Some i \<longrightarrow> S i \<and> unat (peer i) = k)"

definition queue_live :: "mbuf_set \<Rightarrow> (nat \<Rightarrow> bool) \<Rightarrow> bool" where
  "queue_live ms S \<longleftrightarrow> (\<forall>it i. it \<in> set (slots ms) \<and> mbi_instance it = Some i \<longrightarrow> S i)"

definition instance_ok :: "client \<Rightarrow> multi_instance \<Rightarrow> bool" where
  "instance_ok c x \<longleftrightarrow> size (lengths_of (iroute_items x)) \<le> 2 ^ 20 \<and> length (co_push_ifconfig_ipv6_local (cl_config c)) = 16 \<and>
     (mi_did_iroutes x \<longrightarrow> cl_multi_state c = CAS_FAILED \<or> cl_multi_state c = CAS_CONNECT_DONE)"

definition core_inv :: "nat set \<Rightarrow> server \<Rightarrow> bool" where
  "core_inv X sv \<longleftrightarrow> table_inv (sv_m sv) \<and> load (sv_m sv) < 2 ^ 32 \<and>
     (\<forall>i x. m_heap (sv_m sv) i = Some x \<and> \<not> mi_halt x \<longrightarrow> instance_ok (sv_c sv i) x) \<and>
     finite {i. live sv i} \<and>
     index_ok (sv_hash sv) (\<lambda>i. live sv i \<and> cl_did_real_hash (sv_c sv i)) (\<lambda>i. cl_real (sv_c sv i)) \<and>
     index_ok (sv_cid_hash sv) (\<lambda>i. live sv i \<and> cl_did_cid_hash (sv_c sv i)) (\<lambda>i. cl_cid (sv_c sv i)) \<and>
     slots_ok (sv_instances sv) (live sv) (\<lambda>i. cl_peer_id (sv_c sv i)) \<and>
     0 < sv_max_clients sv \<and> int (length (sv_instances sv)) = sv_max_clients sv \<and>
     sched_inv (sv_schedule sv) \<and> dom (timers (sv_schedule sv)) \<subseteq> {i. live sv i} \<and>
     queue_ok (sv_mbufs sv) (sv_mbuf sv) (\<lambda>_. 0) \<and> queue_live (sv_mbuf sv) (live sv) \<and>
     pool_ok (sv_ifconfig_pool sv) (live sv) (\<lambda>i. cl_vaddr_handle (sv_c sv i)) \<and>
     (\<forall>i. sv_pending sv = Some i \<longrightarrow> live sv i) \<and> (\<forall>i. sv_earliest_wakeup sv = Some i \<longrightarrow> live sv i) \<and>
     (\<forall>i. live sv i \<and> i \<notin> X \<longrightarrow> settled (sv_c sv i))"

definition iter_inv :: "server \<Rightarrow> bool" where
  "iter_inv sv \<longleftrightarrow> index_ok (sv_iter sv) (\<lambda>i. live sv i \<and> cl_did_iter (sv_c sv i)) (\<lambda>i. cl_real (sv_c sv i))"

definition server_inv :: "nat set \<Rightarrow> server \<Rightarrow> bool" where
  "server_inv X sv \<longleftrightarrow> core_inv X sv \<and> iter_inv sv"

section \<open>Closing\<close>

text \<open>The effect on the rest of closing the instances in \<open>D\<close>.\<close>

definition forget_all :: "nat set \<Rightarrow> mbuf_item \<Rightarrow> mbuf_item" where
  "forget_all D it =
     (case mbi_instance it of Some i \<Rightarrow> if i \<in> D then \<lparr>mbi_buffer = None, mbi_instance = None\<rparr> else it | None \<Rightarrow> it)"

definition unless_in :: "nat set \<Rightarrow> nat option \<Rightarrow> nat option" where
  "unless_in D p = (case p of Some i \<Rightarrow> if i \<in> D then None else Some i | None \<Rightarrow> None)"

definition closes :: "nat set \<Rightarrow> server \<Rightarrow> server \<Rightarrow> bool" where
  "closes D sv sv' \<longleftrightarrow> (\<forall>i. live sv' i \<longleftrightarrow> live sv i \<and> i \<notin> D) \<and>
     (\<forall>i. i \<notin> D \<longrightarrow> sv_c sv' i = sv_c sv i \<and> m_heap (sv_m sv') i = m_heap (sv_m sv) i) \<and>
     installed (sv_m sv') = without (installed (sv_m sv)) D \<and> m_local (sv_m sv') = m_local (sv_m sv) \<and>
     load (sv_m sv') = load (sv_m sv) \<and> sv_max_clients sv' = sv_max_clients sv \<and>
     sv_enable_c2c sv' = sv_enable_c2c sv \<and> sv_cid_counter sv' = sv_cid_counter sv \<and>
     sv_pending sv' = unless_in D (sv_pending sv) \<and>
     sv_earliest_wakeup sv' = unless_in D (sv_earliest_wakeup sv) \<and>
     same_bufs (sv_mbufs sv) (sv_mbufs sv') \<and> slots (sv_mbuf sv') = map (forget_all D) (slots (sv_mbuf sv)) \<and>
     ms_capacity (sv_mbuf sv') = ms_capacity (sv_mbuf sv)"

lemma forget_one: "forget_all {mi} = forget mi" "unless_in {mi} p = (if p = Some mi then None else p)"
  by (auto simp: forget_all_def forget_def unless_in_def fun_eq_iff split: option.splits)

lemma forget_all_comp:
  "forget_all E (forget_all D it) = forget_all (D \<union> E) it" "unless_in E (unless_in D p) = unless_in (D \<union> E) p"
  "forget_all {} it = it" "unless_in {} p = p"
  by (auto simp: forget_all_def unless_in_def split: option.splits)

lemma closes_none: "closes {} sv sv"
  by (simp add: closes_def forget_all_comp map_idI)

lemma closes_trans:
  assumes "closes D sv sv1" "closes E sv1 sv2"
  shows "closes (D \<union> E) sv sv2"
proof -
  have "without (without R D) E = without R (D \<union> E)" for R :: "mroute_addr \<rightharpoonup> nat"
    by (rule ext) (auto simp: without_def split: option.splits)
  moreover have "same_bufs (sv_mbufs sv) (sv_mbufs sv2)" using assms same_bufs_trans unfolding closes_def by blast
  ultimately show ?thesis using assms unfolding closes_def by (simp add: forget_all_comp)
qed

lemma close_routes_parts:
  assumes "close_instance_routes m mi False = Some m'" "m_heap m mi = Some x" "\<not> mi_halt x"
  obtains m2 where
    "(if mi_did_iroutes x
      then do { m \<leftarrow> multi_del_iroutes (m\<lparr>m_heap := (m_heap m)(mi \<mapsto> x\<lparr>mi_halt := True\<rparr>)\<rparr>) mi;
                change_instance m mi (\<lambda>i. i\<lparr>mi_did_iroutes := False\<rparr>) }
      else Some (m\<lparr>m_heap := (m_heap m)(mi \<mapsto> x\<lparr>mi_halt := True\<rparr>)\<rparr>)) = Some m2"
    "multi_instance_dec_refcount m2 mi = Some m'"
  using assms that by (auto simp: close_instance_routes_def change_instance_def bind_eq_Some_conv split: if_splits)

lemma slots_close:
  assumes "slots_ok inst S peer" "S mi"
  shows "slots_ok (inst[unat (peer mi) := None]) (\<lambda>i. S i \<and> i \<noteq> mi) peer"
  using assms unfolding slots_ok_def by (auto simp: nth_list_update split: if_splits)

lemma queue_forget:
  assumes "queue_live ms S" "slots ms' = map (forget mi) (slots ms)"
  shows "queue_live ms' (\<lambda>i. S i \<and> i \<noteq> mi)"
  using assms unfolding queue_live_def by (auto simp: forget_def split: if_splits)

lemma close_references_run:
  assumes "m_heap (sv_m sv) mi = Some x" "sv_c sv mi = c" 
    "(if cl_did_real_hash c then assert_remove (sv_hash sv) (cl_real c) else Some (sv_hash sv)) = Some h"
    "(if cl_did_iter c then assert_remove (sv_iter sv) (cl_real c) else Some (sv_iter sv)) = Some it"
    "(if cl_did_cid_hash c then assert_remove (sv_cid_hash sv) (cl_cid c) else Some (sv_cid_hash sv)) = Some cidh"
    "cl_peer_id c \<noteq> MAX_PEER_ID" "unat (cl_peer_id c) < length (sv_instances sv)"
    "schedule_remove_entry (sv_schedule sv) mi = Some sc"
    "(if mi_did_iroutes x
      then do { m \<leftarrow> multi_del_iroutes (sv_m sv) mi; change_instance m mi (\<lambda>i. i\<lparr>mi_did_iroutes := False\<rparr>) }
      else Some (sv_m sv)) = Some m2"
    "mbuf_dereference_instance (sv_mbufs sv) (sv_mbuf sv) mi = Some (mbs, ms)"
  shows "close_references sv nw mi = Some (sv\<lparr>sv_hash := h, sv_iter := it, sv_cid_hash := cidh,
    sv_instances := (sv_instances sv)[unat (cl_peer_id c) := None], sv_schedule := sc,
    sv_ifconfig_pool := map_option (\<lambda>p. snd (ifconfig_pool_release p (cl_vaddr_handle c) False nw)) (sv_ifconfig_pool sv),
    sv_m := m2, sv_mbufs := mbs, sv_mbuf := ms\<rparr>)"
proof -
  have "client_at sv mi = Some c" using assms(1,2) by (simp add: client_at_def)
  then show ?thesis using assms(1) assms(9) unfolding close_references_def Let_def
    by (cases "mi_did_iroutes x") (simp_all add: assms(3-8,10) set_instance_def bind_assoc)
qed

definition closed_server :: "server \<Rightarrow> int \<Rightarrow> nat \<Rightarrow> multi_context \<Rightarrow> (mroute_addr, nat) hash \<Rightarrow> (mroute_addr, nat) hash \<Rightarrow>
    (64 word, nat) hash \<Rightarrow> schedule \<Rightarrow> mbufs \<Rightarrow> mbuf_set \<Rightarrow> server" where
  "closed_server sv nw mi m h it cidh sc mbs ms =
     sv\<lparr>sv_m := m, sv_c := (sv_c sv)(mi := (sv_c sv mi)\<lparr>cl_n_clients_delta := 0\<rparr>),
       sv_n_clients := sv_n_clients sv + cl_n_clients_delta (sv_c sv mi),
       sv_pending := (if sv_pending sv = Some mi then None else sv_pending sv),
       sv_earliest_wakeup := (if sv_earliest_wakeup sv = Some mi then None else sv_earliest_wakeup sv),
       sv_hash := h, sv_iter := it, sv_cid_hash := cidh,
       sv_instances := (sv_instances sv)[unat (cl_peer_id (sv_c sv mi)) := None], sv_schedule := sc,
       sv_ifconfig_pool := map_option (\<lambda>p. snd (ifconfig_pool_release p (cl_vaddr_handle (sv_c sv mi)) False nw)) (sv_ifconfig_pool sv),
       sv_mbufs := mbs, sv_mbuf := ms\<rparr>"

lemma close_instance_run:
  assumes "m_heap (sv_m sv) mi = Some x" "\<not> mi_halt x" "sv_c sv mi = c"
    "(if cl_did_real_hash c then assert_remove (sv_hash sv) (cl_real c) else Some (sv_hash sv)) = Some h"
    "(if cl_did_iter c then assert_remove (sv_iter sv) (cl_real c) else Some (sv_iter sv)) = Some it"
    "(if cl_did_cid_hash c then assert_remove (sv_cid_hash sv) (cl_cid c) else Some (sv_cid_hash sv)) = Some cidh"
    "cl_peer_id c \<noteq> MAX_PEER_ID" "unat (cl_peer_id c) < length (sv_instances sv)"
    "schedule_remove_entry (sv_schedule sv) mi = Some sc"
    "close_instance_routes (sv_m sv) mi False = Some m"
    "mbuf_dereference_instance (sv_mbufs sv) (sv_mbuf sv) mi = Some (mbs, ms)"
  shows "multi_close_instance sv nw mi False = Some (closed_server sv nw mi m h it cidh sc mbs ms)"
proof -
  obtain m2 where m2: "(if mi_did_iroutes x
      then do { m \<leftarrow> multi_del_iroutes ((sv_m sv)\<lparr>m_heap := (m_heap (sv_m sv))(mi \<mapsto> x\<lparr>mi_halt := True\<rparr>)\<rparr>) mi;
                change_instance m mi (\<lambda>i. i\<lparr>mi_did_iroutes := False\<rparr>) }
      else Some ((sv_m sv)\<lparr>m_heap := (m_heap (sv_m sv))(mi \<mapsto> x\<lparr>mi_halt := True\<rparr>)\<rparr>)) = Some m2"
    "multi_instance_dec_refcount m2 mi = Some m" by (rule close_routes_parts [OF assms(10,1,2)])
  let ?m1 = "(sv_m sv)\<lparr>m_heap := (m_heap (sv_m sv))(mi \<mapsto> x\<lparr>mi_halt := True\<rparr>)\<rparr>"
  let ?sv = "sv\<lparr>sv_m := ?m1, sv_n_clients := sv_n_clients sv + cl_n_clients_delta c,
      sv_c := (sv_c sv)(mi := c\<lparr>cl_n_clients_delta := 0\<rparr>),
      sv_pending := (if sv_pending sv = Some mi then None else sv_pending sv),
      sv_earliest_wakeup := (if sv_earliest_wakeup sv = Some mi then None else sv_earliest_wakeup sv)\<rparr>"
  have "close_references ?sv nw mi = Some (?sv\<lparr>sv_hash := h, sv_iter := it, sv_cid_hash := cidh,
    sv_instances := (sv_instances ?sv)[unat (cl_peer_id (c\<lparr>cl_n_clients_delta := 0\<rparr>)) := None], sv_schedule := sc,
    sv_ifconfig_pool := map_option (\<lambda>p. snd (ifconfig_pool_release p (cl_vaddr_handle (c\<lparr>cl_n_clients_delta := 0\<rparr>)) False nw))
      (sv_ifconfig_pool ?sv), sv_m := m2, sv_mbufs := mbs, sv_mbuf := ms\<rparr>)"
    by (rule close_references_run [where x = "x\<lparr>mi_halt := True\<rparr>"])
       (use assms m2(1) in \<open>simp_all split del: if_split cong: if_cong\<close>)
  moreover have "multi_close_instance sv nw mi False =
      close_references ?sv nw mi \<bind> (\<lambda>sv. multi_instance_dec_refcount (sv_m sv) mi \<bind> (\<lambda>m. Some (sv\<lparr>sv_m := m\<rparr>)))"
    using assms(1-3) by (simp add: multi_close_instance_def change_instance_def change_client_def client_at_def Let_def)
  ultimately show ?thesis using m2(2) assms(3) by (simp add: closed_server_def)
qed

lemma core_parts:
  assumes "core_inv X sv"
  shows "table_inv (sv_m sv)" "load (sv_m sv) < 2 ^ 32" "finite {i. live sv i}" "sched_inv (sv_schedule sv)"
    "queue_ok (sv_mbufs sv) (sv_mbuf sv) (\<lambda>_. 0)"
    "index_ok (sv_hash sv) (\<lambda>i. live sv i \<and> cl_did_real_hash (sv_c sv i)) (\<lambda>i. cl_real (sv_c sv i))"
    "index_ok (sv_cid_hash sv) (\<lambda>i. live sv i \<and> cl_did_cid_hash (sv_c sv i)) (\<lambda>i. cl_cid (sv_c sv i))"
    "slots_ok (sv_instances sv) (live sv) (\<lambda>i. cl_peer_id (sv_c sv i))"
    "pool_ok (sv_ifconfig_pool sv) (live sv) (\<lambda>i. cl_vaddr_handle (sv_c sv i))"
    "queue_live (sv_mbuf sv) (live sv)" "dom (timers (sv_schedule sv)) \<subseteq> {i. live sv i}"
    "\<And>i x. m_heap (sv_m sv) i = Some x \<Longrightarrow> \<not> mi_halt x \<Longrightarrow> instance_ok (sv_c sv i) x"
    "\<And>i. live sv i \<Longrightarrow> i \<notin> X \<Longrightarrow> settled (sv_c sv i)"
    "\<And>i. sv_pending sv = Some i \<Longrightarrow> live sv i" "\<And>i. sv_earliest_wakeup sv = Some i \<Longrightarrow> live sv i"
    "0 < sv_max_clients sv" "int (length (sv_instances sv)) = sv_max_clients sv"
  using assms unfolding core_inv_def by blast+

lemma opened_heap: "opened m i \<Longrightarrow> \<exists>x. m_heap m i = Some x \<and> \<not> mi_halt x"
  by (auto simp: opened_def split: option.splits)

lemma slots_peer: "slots_ok inst S peer \<Longrightarrow> S i \<Longrightarrow> unat (peer i) < length inst \<and> peer i \<noteq> MAX_PEER_ID"
  unfolding slots_ok_def by (metis less_imp_of_nat_less not_less_iff_gr_or_eq order_less_trans uint_nat)

lemma index_drop:
  assumes "index_ok h (\<lambda>i. S i \<and> P i) ky" "S mi"
  shows "\<exists>h'. (if P mi then assert_remove h (ky mi) else Some h) = Some h' \<and> index_ok h' (\<lambda>i. (S i \<and> P i) \<and> i \<noteq> mi) ky"
proof (cases "P mi")
  case True
  then show ?thesis using index_remove [OF assms(1), of mi] assms(2) by simp
next
  case False
  then have "index_ok h (\<lambda>i. (S i \<and> P i) \<and> i \<noteq> mi) ky" using assms(1) by (subst index_cong) auto
  then show ?thesis using False by simp
qed

lemma close_core:
  assumes inv: "core_inv X sv" and mi: "live sv mi" and it: "cl_did_iter (sv_c sv mi) \<Longrightarrow>
    table_ok (sv_iter sv) \<and> table_map (sv_iter sv) (cl_real (sv_c sv mi)) \<noteq> None"
  obtains sv' where "multi_close_instance sv nw mi False = Some sv'" "core_inv (X - {mi}) sv'" "closes {mi} sv sv'"
    "if cl_did_iter (sv_c sv mi)
     then table_ok (sv_iter sv') \<and> table_map (sv_iter sv') = (table_map (sv_iter sv))(cl_real (sv_c sv mi) := None)
     else sv_iter sv' = sv_iter sv"
proof -
  note p = core_parts [OF inv]
  define c where "c = sv_c sv mi"
  obtain x where x: "m_heap (sv_m sv) mi = Some x" "\<not> mi_halt x" using opened_heap [OF mi] by blast
  obtain h where h: "(if cl_did_real_hash c then assert_remove (sv_hash sv) (cl_real c) else Some (sv_hash sv)) = Some h"
    "index_ok h (\<lambda>i. (live sv i \<and> cl_did_real_hash (sv_c sv i)) \<and> i \<noteq> mi) (\<lambda>i. cl_real (sv_c sv i))"
    using index_drop [OF p(6) mi] unfolding c_def by blast
  obtain cidh where cidh: "(if cl_did_cid_hash c then assert_remove (sv_cid_hash sv) (cl_cid c) else Some (sv_cid_hash sv)) = Some cidh"
    "index_ok cidh (\<lambda>i. (live sv i \<and> cl_did_cid_hash (sv_c sv i)) \<and> i \<noteq> mi) (\<lambda>i. cl_cid (sv_c sv i))"
    using index_drop [OF p(7) mi] unfolding c_def by blast
  obtain itr where itr: "(if cl_did_iter c then assert_remove (sv_iter sv) (cl_real c) else Some (sv_iter sv)) = Some itr"
    "if cl_did_iter c then table_ok itr \<and> table_map itr = (table_map (sv_iter sv))(cl_real c := None) else itr = sv_iter sv"
    using assert_remove_ok [of "sv_iter sv" "cl_real c"] it unfolding c_def by (cases "cl_did_iter (sv_c sv mi)") auto
  have pe: "cl_peer_id c \<noteq> MAX_PEER_ID" "unat (cl_peer_id c) < length (sv_instances sv)"
    using slots_peer [OF p(8) mi] by (auto simp: c_def)
  obtain sc where sc: "schedule_remove_entry (sv_schedule sv) mi = Some sc" "sched_inv sc" "timers sc = (timers (sv_schedule sv))(mi := None)"
    using remove_entry_law [OF p(4)] by blast
  have "uint (mh_cache_generation (m_route_helper (sv_m sv))) + int (size (claims (sv_m sv) mi)) < 2 ^ 32"
    using load_claims [OF table_claims_finite [OF p(1)], of mi] p(2) by linarith
  from close_ok [OF p(1) x this] obtain m where m: "close_instance_routes (sv_m sv) mi False = Some m" "table_inv m"
    "installed m = without (installed (sv_m sv)) {mi}" "only_helper ((sv_m sv)\<lparr>m_heap := closed_heap (sv_m sv) mi x\<rparr>) m"
    "claims m = (claims (sv_m sv))(mi := {#})" "uint (mh_cache_generation (m_route_helper m)) =
      uint (mh_cache_generation (m_route_helper (sv_m sv))) + int (size (claims (sv_m sv) mi))" by blast
  have mh: "m_heap m = closed_heap (sv_m sv) mi x" "m_local m = m_local (sv_m sv)"
    using only_helperD [OF m(4)] by simp_all
  have ld: "load m = load (sv_m sv)"
    using load_update [OF table_claims_finite [OF p(1)] m(5,6)] by simp
  obtain mbs ms where q: "mbuf_dereference_instance (sv_mbufs sv) (sv_mbuf sv) mi = Some (mbs, ms)"
    "slots ms = map (forget mi) (slots (sv_mbuf sv))" "queue_ok mbs ms (\<lambda>_. 0)" "same_bufs (sv_mbufs sv) mbs"
    "ms_capacity ms = ms_capacity (sv_mbuf sv)" using dereference_queue [OF p(5)] by blast
  let ?sv = "closed_server sv nw mi m h itr cidh sc mbs ms"
  have run: "multi_close_instance sv nw mi False = Some ?sv"
    by (rule close_instance_run [OF x c_def [symmetric] h(1) itr(1) cidh(1) pe sc(1) m(1) q(1)])
  have f: "sv_m ?sv = m" "sv_hash ?sv = h" "sv_iter ?sv = itr" "sv_cid_hash ?sv = cidh" "sv_schedule ?sv = sc"
    "sv_mbufs ?sv = mbs" "sv_mbuf ?sv = ms" "sv_max_clients ?sv = sv_max_clients sv" "sv_enable_c2c ?sv = sv_enable_c2c sv"
    "sv_cid_counter ?sv = sv_cid_counter sv" "sv_new_connection_limiter ?sv = sv_new_connection_limiter sv"
    "sv_pending ?sv = (if sv_pending sv = Some mi then None else sv_pending sv)"
    "sv_earliest_wakeup ?sv = (if sv_earliest_wakeup sv = Some mi then None else sv_earliest_wakeup sv)"
    "sv_instances ?sv = (sv_instances sv)[unat (cl_peer_id c) := None]"
    "sv_ifconfig_pool ?sv = map_option (\<lambda>p. snd (ifconfig_pool_release p (cl_vaddr_handle c) False nw)) (sv_ifconfig_pool sv)"
    "i \<noteq> mi \<Longrightarrow> sv_c ?sv i = sv_c sv i" for i by (simp_all add: closed_server_def c_def)
  have hp: "i \<noteq> mi \<Longrightarrow> m_heap m i = m_heap (sv_m sv) i" for i by (simp add: mh closed_heap_def)
  have lv: "live ?sv i \<longleftrightarrow> live sv i \<and> i \<noteq> mi" for i
    by (cases "i = mi") (auto simp: f(1) opened_def mh closed_heap_def)
  have lvf: "live ?sv = (\<lambda>i. live sv i \<and> i \<noteq> mi)" using lv by blast
  have cl: "closes {mi} sv ?sv" unfolding closes_def forget_one
    using lv f hp m(3) mh(2) ld q(2,4,5) by (simp add: c_def split del: if_split)
  have "core_inv (X - {mi}) ?sv" unfolding core_inv_def
  proof (intro conjI allI impI)
    show "table_inv (sv_m ?sv)" "load (sv_m ?sv) < 2 ^ 32" using m(2) ld p(2) by (simp_all add: f(1))
    show "instance_ok (sv_c ?sv i) y" if "m_heap (sv_m ?sv) i = Some y \<and> \<not> mi_halt y" for i y
      using that p(12) [of i y] f(16) [of i] hp [of i] lv [of i] unfolding f(1) by (cases "i = mi") (auto simp: opened_def)
    show "finite {i. live ?sv i}" using p(3) by (rule rev_finite_subset) (auto simp: lv)
    show "index_ok (sv_hash ?sv) (\<lambda>i. live ?sv i \<and> cl_did_real_hash (sv_c ?sv i)) (\<lambda>i. cl_real (sv_c ?sv i))"
      using h(2) unfolding f(2) by (subst index_cong) (auto simp: lv f(16))
    show "index_ok (sv_cid_hash ?sv) (\<lambda>i. live ?sv i \<and> cl_did_cid_hash (sv_c ?sv i)) (\<lambda>i. cl_cid (sv_c ?sv i))"
      using cidh(2) unfolding f(4) by (subst index_cong) (auto simp: lv f(16))
    have "slots_ok ((sv_instances sv)[unat (cl_peer_id c) := None]) (\<lambda>i. live sv i \<and> i \<noteq> mi) (\<lambda>i. cl_peer_id (sv_c sv i))"
      using slots_close [OF p(8) mi] by (simp add: c_def)
    then show "slots_ok (sv_instances ?sv) (live ?sv) (\<lambda>i. cl_peer_id (sv_c ?sv i))"
      unfolding f(14) slots_ok_def by (auto simp: lv f(16))
    show "0 < sv_max_clients ?sv" "int (length (sv_instances ?sv)) = sv_max_clients ?sv" using p(16,17) by (simp_all add: f)
    show "sched_inv (sv_schedule ?sv)" "dom (timers (sv_schedule ?sv)) \<subseteq> {i. live ?sv i}"
      using sc p(11) by (auto simp: f(5) lv)
    show "queue_ok (sv_mbufs ?sv) (sv_mbuf ?sv) (\<lambda>_. 0)" "queue_live (sv_mbuf ?sv) (live ?sv)"
      using q(3) queue_forget [OF p(10) q(2)] by (simp_all add: f(6,7) lvf)
    show "pool_ok (sv_ifconfig_pool ?sv) (live ?sv) (\<lambda>i. cl_vaddr_handle (sv_c ?sv i))"
      unfolding f(15) c_def by (rule pool_release [where b = False, OF p(9) mi]) (auto simp: lv f(16))
    show "live ?sv i" if "sv_pending ?sv = Some i" for i using that p(14) [of i] by (auto simp: lv f(12) split: if_splits)
    show "live ?sv i" if "sv_earliest_wakeup ?sv = Some i" for i using that p(15) [of i] by (auto simp: lv f(13) split: if_splits)
    show "settled (sv_c ?sv i)" if "live ?sv i \<and> i \<notin> X - {mi}" for i using that p(13) [of i] by (auto simp: lv f(16))
  qed
  then show ?thesis by (rule that [OF run _ cl]) (use itr(2) in \<open>simp only: f(3) c_def\<close>)
qed

lemma core_mono: "core_inv X sv \<Longrightarrow> X \<subseteq> Y \<Longrightarrow> core_inv Y sv"
  unfolding core_inv_def by blast

lemma server_mono: "server_inv X sv \<Longrightarrow> X \<subseteq> Y \<Longrightarrow> server_inv Y sv"
  using core_mono unfolding server_inv_def by blast

lemma close_server:
  assumes "server_inv X sv" "live sv mi"
  obtains sv' where "multi_close_instance sv nw mi False = Some sv'" "server_inv (X - {mi}) sv'" "closes {mi} sv sv'"
proof -
  have inv: "core_inv X sv" and it: "iter_inv sv" using assms(1) by (auto simp: server_inv_def)
  have t: "table_ok (sv_iter sv)" "cl_did_iter (sv_c sv mi) \<Longrightarrow> table_map (sv_iter sv) (cl_real (sv_c sv mi)) = Some mi"
    using it assms(2) by (auto simp: iter_inv_def index_ok_def indexed_def)
  obtain sv' where sv': "multi_close_instance sv nw mi False = Some sv'" "core_inv (X - {mi}) sv'" "closes {mi} sv sv'"
    "if cl_did_iter (sv_c sv mi)
     then table_ok (sv_iter sv') \<and> table_map (sv_iter sv') = (table_map (sv_iter sv))(cl_real (sv_c sv mi) := None)
     else sv_iter sv' = sv_iter sv"
    by (rule close_core [OF inv assms(2)]) (use t in auto)
  have "index_ok (sv_iter sv') (\<lambda>i. (live sv i \<and> cl_did_iter (sv_c sv i)) \<and> i \<noteq> mi) (\<lambda>i. cl_real (sv_c sv i))"
  proof (cases "cl_did_iter (sv_c sv mi)")
    case True
    then show ?thesis using sv'(4) indexed_remove [of "table_map (sv_iter sv)" "\<lambda>i. live sv i \<and> cl_did_iter (sv_c sv i)" "\<lambda>i. cl_real (sv_c sv i)" mi] it assms(2)
      by (simp add: iter_inv_def index_ok_def)
  next
    case False
    then have e: "sv_iter sv' = sv_iter sv" using sv'(4) by simp
    show ?thesis using it False unfolding iter_inv_def e by (subst index_cong) auto
  qed
  moreover have "live sv' i \<longleftrightarrow> live sv i \<and> i \<noteq> mi" "i \<noteq> mi \<Longrightarrow> sv_c sv' i = sv_c sv i" for i
    using sv'(3) by (auto simp: closes_def)
  ultimately have "iter_inv sv'" unfolding iter_inv_def by (subst index_cong) auto
  then show ?thesis using that sv' by (simp add: server_inv_def)
qed

section \<open>Changes of one instance\<close>

text \<open>An instance at which an operation is at work may be in the tables in part, and its options may change.\<close>

lemma core_client:
  assumes "core_inv X sv" "live sv mi" "\<And>x. m_heap (sv_m sv) mi = Some x \<Longrightarrow> instance_ok (sv_c sv mi) x \<Longrightarrow> instance_ok c' x"
    "cl_did_real_hash c' = cl_did_real_hash (sv_c sv mi)" "cl_did_cid_hash c' = cl_did_cid_hash (sv_c sv mi)"
    "cl_real c' = cl_real (sv_c sv mi)" "cl_cid c' = cl_cid (sv_c sv mi)" "cl_peer_id c' = cl_peer_id (sv_c sv mi)"
    "cl_vaddr_handle c' = cl_vaddr_handle (sv_c sv mi)" "mi \<notin> X \<Longrightarrow> settled (sv_c sv mi) \<Longrightarrow> settled c'"
  shows "core_inv X (sv\<lparr>sv_c := (sv_c sv)(mi := c')\<rparr>)"
proof -
  have e: "cl_did_real_hash (((sv_c sv)(mi := c')) i) = cl_did_real_hash (sv_c sv i)"
    "cl_did_cid_hash (((sv_c sv)(mi := c')) i) = cl_did_cid_hash (sv_c sv i)"
    "cl_real (((sv_c sv)(mi := c')) i) = cl_real (sv_c sv i)" "cl_cid (((sv_c sv)(mi := c')) i) = cl_cid (sv_c sv i)"
    "cl_peer_id (((sv_c sv)(mi := c')) i) = cl_peer_id (sv_c sv i)"
    "cl_vaddr_handle (((sv_c sv)(mi := c')) i) = cl_vaddr_handle (sv_c sv i)" for i using assms(4-9) by simp_all
  have "instance_ok (((sv_c sv)(mi := c')) i) x" if "m_heap (sv_m sv) i = Some x" "\<not> mi_halt x" for i x
    using core_parts(12) [OF assms(1) that] assms(3) that by (cases "i = mi") auto
  moreover have "settled (((sv_c sv)(mi := c')) i)" if "live sv i" "i \<notin> X" for i
    using core_parts(13) [OF assms(1) that] assms(10) that by (cases "i = mi") auto
  ultimately show ?thesis using assms(1) unfolding core_inv_def by (simp add: e del: fun_upd_apply)
qed

lemma iter_client:
  assumes "iter_inv sv" "cl_did_iter c' = cl_did_iter (sv_c sv mi)" "cl_real c' = cl_real (sv_c sv mi)"
  shows "iter_inv (sv\<lparr>sv_c := (sv_c sv)(mi := c')\<rparr>)"
  using assms unfolding iter_inv_def by (subst index_cong) auto

section \<open>Clients of the same name\<close>

definition same_name :: "server \<Rightarrow> nat \<Rightarrow> u8 list \<Rightarrow> nat \<Rightarrow> bool" where
  "same_name sv new_mi new_cn i \<longleftrightarrow> i \<noteq> new_mi \<and> tls_common_name (sv_c sv i) True = Some new_cn"

lemma delete_dup_body_ok:
  assumes "core_inv X sv" "live sv mi" "cl_did_iter (sv_c sv mi)"
  shows "\<exists>sv'. delete_dup_body nw new_mi cn mi sv = Some (same_name sv new_mi cn mi, sv') \<and> core_inv X sv' \<and>
    closes (if same_name sv new_mi cn mi then {mi} else {}) sv sv' \<and> sv_iter sv' = sv_iter sv"
proof -
  obtain x where x: "m_heap (sv_m sv) mi = Some x" "\<not> mi_halt x" using opened_heap [OF assms(2)] by blast
  show ?thesis
  proof (cases "same_name sv new_mi cn mi")
    case False
    then show ?thesis using x assms(1) closes_none
      by (auto simp: delete_dup_body_def client_at_def same_name_def)
  next
    case True
    let ?c = "(sv_c sv mi)\<lparr>cl_did_iter := False\<rparr>"
    let ?sv = "sv\<lparr>sv_c := (sv_c sv)(mi := ?c)\<rparr>"
    have inv: "core_inv (insert mi X) ?sv"
      by (rule core_client [OF core_mono [OF assms(1)] assms(2)]) (auto simp: instance_ok_def)
    obtain sv' where sv': "multi_close_instance ?sv nw mi False = Some sv'" "core_inv (insert mi X - {mi}) sv'"
      "closes {mi} ?sv sv'" "if cl_did_iter (sv_c ?sv mi)
       then table_ok (sv_iter sv') \<and> table_map (sv_iter sv') = (table_map (sv_iter ?sv))(cl_real (sv_c ?sv mi) := None)
       else sv_iter sv' = sv_iter ?sv"
      by (rule close_core [OF inv, of mi]) (use assms(2) in auto)
    have "delete_dup_body nw new_mi cn mi sv = Some (True, sv')"
      using True x sv'(1) by (simp add: delete_dup_body_def client_at_def change_client_def same_name_def)
    moreover have "core_inv X sv'" by (rule core_mono [OF sv'(2)]) auto
    moreover have "closes {mi} sv sv'" using sv'(3) by (simp add: closes_def)
    ultimately show ?thesis using True sv'(4) by (intro exI [of _ sv']) simp
  qed
qed

lemma delete_dup_visits:
  assumes "core_inv X sv" "distinct vs" "\<forall>i \<in> set vs. live sv i \<and> cl_did_iter (sv_c sv i) \<and> P i = same_name sv new_mi cn i"
  shows "\<exists>sv'. visits (delete_dup_body nw new_mi cn) P vs sv = Some sv' \<and> core_inv X sv' \<and>
    closes {i \<in> set vs. P i} sv sv' \<and> sv_iter sv' = sv_iter sv"
  using assms
proof (induction vs arbitrary: sv)
  case Nil
  then show ?case using closes_none by simp
next
  case (Cons v vs)
  have v: "live sv v" "cl_did_iter (sv_c sv v)" "P v = same_name sv new_mi cn v" using Cons.prems by auto
  obtain sv1 where sv1: "delete_dup_body nw new_mi cn v sv = Some (P v, sv1)" "core_inv X sv1"
    "closes (if P v then {v} else {}) sv sv1" "sv_iter sv1 = sv_iter sv"
    using delete_dup_body_ok [OF Cons.prems(1) v(1,2), of nw new_mi cn] unfolding v(3) by blast
  have "live sv1 i \<and> cl_did_iter (sv_c sv1 i) \<and> P i = same_name sv1 new_mi cn i" if i: "i \<in> set vs" for i
  proof -
    have "i \<notin> (if P v then {v} else {})" using i Cons.prems(2) by auto
    then have "sv_c sv1 i = sv_c sv i" "live sv1 i = live sv i" using sv1(3) unfolding closes_def by auto
    then show ?thesis using Cons.prems(3) i by (auto simp: same_name_def)
  qed
  from Cons.IH [OF sv1(2) _ ballI [OF this]] Cons.prems(2) obtain sv' where
    sv': "visits (delete_dup_body nw new_mi cn) P vs sv1 = Some sv'" "core_inv X sv'"
    "closes {i \<in> set vs. P i} sv1 sv'" "sv_iter sv' = sv_iter sv1" by auto
  have "{i \<in> set (v # vs). P i} = (if P v then {v} else {}) \<union> {i \<in> set vs. P i}" by auto
  then show ?case using closes_trans [OF sv1(3) sv'(3)] sv1(1,4) sv'(1,2,4) by simp
qed

lemma index_iterate:
  assumes "index_ok h S ky"
  obtains vs hi where "set vs = {i. S i}" "distinct vs" "hash_iterator_init h = Some hi"
    "\<And>f P st st'. visits f P vs st = Some st' \<Longrightarrow>
      \<exists>h'. hash_iterate f h hi st = Some (h', st') \<and> index_ok h' (\<lambda>i. S i \<and> \<not> P i) ky"
proof -
  have t: "table_ok h" "indexed (table_map h) S ky" using assms by (auto simp: index_ok_def)
  have ok: "hash_ok h" using t(1) by (simp add: table_ok_def)
  let ?n = "length (buckets h)"
  have set: "set (iter_values h 0 ?n) = {i. S i}"
    using iter_values_set [OF t(1) order_refl, of _ 0] hash_ok_bucket(1) [OF ok] t(2) unfolding indexed_def by auto
  have di: "distinct (iter_values h 0 ?n)"
    by (rule iter_values_distinct [OF t(1) order_refl, where g = ky]) (use t(2) in \<open>simp add: indexed_def\<close>)
  have n: "hash_iterator_init h = Some (at_clean 0 ?n 0)"
    using ok by (auto simp: hash_iterator_init_def hash_iterator_init_range_def at_clean_def hash_ok_def)
  have "\<exists>h'. hash_iterate f h (at_clean 0 ?n 0) st = Some (h', st') \<and> index_ok h' (\<lambda>i. S i \<and> \<not> P i) ky"
    if v: "visits f P (iter_values h 0 ?n) st = Some st'" for f :: "nat \<Rightarrow> 's \<Rightarrow> (bool \<times> 's) option" and P st st'
  proof -
    have "swept P h 0 0 = h" using ok by (intro swept_same) (simp add: hash_ok_def)
    then have run: "hash_iterate f h (at_clean 0 ?n 0) st = Some (swept P h 0 ?n, st')"
      using loop_clean [OF keyed_ok [OF ok] _ _ order_refl v] by simp
    have m: "table_map (swept P h 0 ?n) k = (case table_map h k of None \<Rightarrow> None | Some i \<Rightarrow> if P i then None else Some i)" for k
      using swept_ok(2) [OF ok, of P 0 ?n k] hash_ok_bucket(1) [OF ok, of k] by simp
    have "indexed (table_map (swept P h 0 ?n)) (\<lambda>i. S i \<and> \<not> P i) ky"
      unfolding indexed_def
    proof (intro allI)
      fix k i
      have "table_map (swept P h 0 ?n) k = Some i \<longleftrightarrow> table_map h k = Some i \<and> \<not> P i"
        unfolding m by (auto split: option.splits)
      then show "table_map (swept P h 0 ?n) k = Some i \<longleftrightarrow> (S i \<and> \<not> P i) \<and> ky i = k"
        using t(2) unfolding indexed_def by blast
    qed
    moreover have "table_ok (swept P h 0 ?n)"
      using t(1) swept_ok(1) [OF ok, of P 0 ?n] by (auto simp: table_ok_def swept_def Let_def)
    ultimately show ?thesis using run by (auto simp: index_ok_def)
  qed
  then show ?thesis using that [OF set di n] by blast
qed

definition of_name :: "server \<Rightarrow> nat \<Rightarrow> nat set" where
  "of_name sv new_mi = (case tls_common_name (sv_c sv new_mi) True of None \<Rightarrow> {}
     | Some cn \<Rightarrow> {i. live sv i \<and> cl_did_iter (sv_c sv i) \<and> same_name sv new_mi cn i})"

lemma closes_iter:
  assumes "index_ok it (\<lambda>i. (live sv i \<and> cl_did_iter (sv_c sv i)) \<and> i \<notin> D) (\<lambda>i. cl_real (sv_c sv i))" "closes D sv sv'"
  shows "iter_inv (sv'\<lparr>sv_iter := it\<rparr>)"
proof -
  have "live sv' i \<longleftrightarrow> live sv i \<and> i \<notin> D" "i \<notin> D \<Longrightarrow> sv_c sv' i = sv_c sv i" for i
    using assms(2) by (auto simp: closes_def)
  then show ?thesis using assms(1) unfolding iter_inv_def by (subst index_cong) auto
qed

lemma core_iter [simp]: "core_inv X (sv\<lparr>sv_iter := it\<rparr>) = core_inv X sv"
  by (simp add: core_inv_def)

lemma delete_dup_ok:
  assumes "server_inv X sv" "live sv new_mi"
  obtains sv' where "multi_delete_dup sv nw new_mi = Some sv'" "server_inv X sv'" "closes (of_name sv new_mi) sv sv'"
proof -
  obtain x where x: "m_heap (sv_m sv) new_mi = Some x" using opened_heap [OF assms(2)] by blast
  show ?thesis
  proof (cases "tls_common_name (sv_c sv new_mi) True")
    case None
    then show ?thesis using that [of sv] x assms(1) closes_none
      by (simp add: multi_delete_dup_def client_at_def of_name_def)
  next
    case (Some cn)
    have inv: "core_inv X sv" and it: "index_ok (sv_iter sv) (\<lambda>i. live sv i \<and> cl_did_iter (sv_c sv i)) (\<lambda>i. cl_real (sv_c sv i))"
      using assms(1) by (auto simp: server_inv_def iter_inv_def)
    let ?P = "same_name sv new_mi cn"
    obtain vs hi where vs: "set vs = {i. live sv i \<and> cl_did_iter (sv_c sv i)}" "distinct vs"
      "hash_iterator_init (sv_iter sv) = Some hi" "\<And>f P (st :: server) st'. visits f P vs st = Some st' \<Longrightarrow>
        \<exists>h'. hash_iterate f (sv_iter sv) hi st = Some (h', st') \<and>
          index_ok h' (\<lambda>i. (live sv i \<and> cl_did_iter (sv_c sv i)) \<and> \<not> P i) (\<lambda>i. cl_real (sv_c sv i))"
      by (rule index_iterate [OF it]) blast
    have "\<forall>i \<in> set vs. live sv i \<and> cl_did_iter (sv_c sv i) \<and> ?P i = same_name sv new_mi cn i" unfolding vs(1) by simp
    from delete_dup_visits [OF inv vs(2) this, of nw] obtain sv1 where sv1:
      "visits (delete_dup_body nw new_mi cn) ?P vs sv = Some sv1" "core_inv X sv1" "closes {i \<in> set vs. ?P i} sv sv1" by blast
    obtain h where h: "hash_iterate (delete_dup_body nw new_mi cn) (sv_iter sv) hi sv = Some (h, sv1)"
      "index_ok h (\<lambda>i. (live sv i \<and> cl_did_iter (sv_c sv i)) \<and> \<not> ?P i) (\<lambda>i. cl_real (sv_c sv i))"
      using vs(4) [OF sv1(1)] by blast
    have D: "{i \<in> set vs. ?P i} = of_name sv new_mi" by (auto simp: of_name_def Some vs(1))
    have cl: "closes (of_name sv new_mi) sv sv1" using sv1(3) unfolding D .
    have "index_ok h (\<lambda>i. (live sv i \<and> cl_did_iter (sv_c sv i)) \<and> i \<notin> of_name sv new_mi) (\<lambda>i. cl_real (sv_c sv i))"
      using h(2) by (subst index_cong) (auto simp: of_name_def Some)
    from closes_iter [OF this cl] have "server_inv X (sv1\<lparr>sv_iter := h\<rparr>)" using sv1(2) by (simp add: server_inv_def)
    moreover have "closes (of_name sv new_mi) sv (sv1\<lparr>sv_iter := h\<rparr>)" using cl by (simp add: closes_def)
    moreover have "multi_delete_dup sv nw new_mi = Some (sv1\<lparr>sv_iter := h\<rparr>)"
      using x Some vs(3) h(1) by (simp add: multi_delete_dup_def client_at_def)
    ultimately show ?thesis using that by blast
  qed
qed

section \<open>Work on an instance that connects\<close>

definition connecting :: "server \<Rightarrow> nat \<Rightarrow> bool" where
  "connecting sv mi \<longleftrightarrow> (\<exists>x. m_heap (sv_m sv) mi = Some x \<and> \<not> mi_halt x \<and> \<not> mi_did_iroutes x)"

text \<open>The state after a part of the work on \<open>mi\<close>, which began in \<open>sv0\<close>.\<close>

definition working :: "nat set \<Rightarrow> nat \<Rightarrow> server \<Rightarrow> server \<Rightarrow> bool" where
  "working X mi sv0 sv \<longleftrightarrow> server_inv X sv \<and> connecting sv mi \<and> (\<forall>i. live sv i \<longrightarrow> live sv0 i) \<and>
     load (sv_m sv) = load (sv_m sv0)"

definition keeps_instance :: "(multi_instance \<Rightarrow> multi_instance) \<Rightarrow> bool" where
  "keeps_instance f \<longleftrightarrow> (\<forall>x. mi_halt (f x) = mi_halt x \<and> mi_refcount (f x) = mi_refcount x \<and>
     mi_route_count (f x) = mi_route_count x \<and> mi_did_iroutes (f x) = mi_did_iroutes x \<and>
     (client_ok x \<longrightarrow> client_ok (f x)) \<and>
     (size (lengths_of (iroute_items x)) \<le> 2 ^ 20 \<longrightarrow> size (lengths_of (iroute_items (f x))) \<le> 2 ^ 20))"

definition keeps_client :: "(client \<Rightarrow> client) \<Rightarrow> bool" where
  "keeps_client f \<longleftrightarrow> (\<forall>c. cl_did_real_hash (f c) = cl_did_real_hash c \<and> cl_did_iter (f c) = cl_did_iter c \<and>
     cl_did_cid_hash (f c) = cl_did_cid_hash c \<and> cl_real (f c) = cl_real c \<and> cl_from (f c) = cl_from c \<and>
     cl_cid (f c) = cl_cid c \<and> cl_peer_id (f c) = cl_peer_id c \<and> cl_vaddr_handle (f c) = cl_vaddr_handle c \<and>
     (length (co_push_ifconfig_ipv6_local (cl_config c)) = 16 \<longrightarrow> length (co_push_ifconfig_ipv6_local (cl_config (f c))) = 16))"

lemma working_refl: "server_inv X sv \<Longrightarrow> connecting sv mi \<Longrightarrow> working X mi sv sv"
  by (simp add: working_def)

lemma working_trans: "working X mi sv0 sv1 \<Longrightarrow> working X mi sv1 sv2 \<Longrightarrow> working X mi sv0 sv2"
  unfolding working_def by auto

lemma connecting_live: "connecting sv mi \<Longrightarrow> live sv mi"
  by (auto simp: connecting_def opened_def)

lemma opened_update:
  assumes "m_heap m mi = Some x" "mi_halt y = mi_halt x"
  shows "opened (m\<lparr>m_heap := (m_heap m)(mi \<mapsto> y)\<rparr>) = opened m"
  using assms by (auto simp: opened_def fun_eq_iff)

lemma server_instance:
  assumes "server_inv X sv" "m_heap (sv_m sv) mi = Some x" "\<not> mi_halt x" "\<not> mi_did_iroutes x" "keeps_instance f"
  shows "server_inv X (sv\<lparr>sv_m := (sv_m sv)\<lparr>m_heap := (m_heap (sv_m sv))(mi \<mapsto> f x)\<rparr>\<rparr>)"
    "load ((sv_m sv)\<lparr>m_heap := (m_heap (sv_m sv))(mi \<mapsto> f x)\<rparr>) = load (sv_m sv)"
    "opened ((sv_m sv)\<lparr>m_heap := (m_heap (sv_m sv))(mi \<mapsto> f x)\<rparr>) = live sv"
proof -
  let ?m = "sv_m sv" and ?m' = "(sv_m sv)\<lparr>m_heap := (m_heap (sv_m sv))(mi \<mapsto> f x)\<rparr>"
  have inv: "core_inv X sv" using assms(1) by (simp add: server_inv_def)
  note p = core_parts [OF inv]
  have y: "mi_halt (f x) = mi_halt x" "mi_refcount (f x) = mi_refcount x" "mi_route_count (f x) = mi_route_count x"
    "\<not> mi_did_iroutes (f x)" "client_ok x \<Longrightarrow> client_ok (f x)"
    "size (lengths_of (iroute_items x)) \<le> 2 ^ 20 \<Longrightarrow> size (lengths_of (iroute_items (f x))) \<le> 2 ^ 20"
    using assms(4,5) by (auto simp: keeps_instance_def)
  have "client_inv ?m mi x" using p(1) assms(2) by (simp add: table_inv_def)
  then have cl: "client_ok x" by (simp add: client_inv_def)
  have e: "f x = client_options (f x) x" using y assms(4) by (cases "f x") (simp add: client_options_def)
  obtain m2 where m2: "table_inv m2" "m2 = ?m\<lparr>m_heap := (m_heap ?m)(mi \<mapsto> client_options (f x) x)\<rparr>"
    using options_ok [OF p(1) assms(2-4) y(5) [OF cl]] by blast
  then have t: "table_inv ?m'" using e by simp
  have cm: "claims ?m' = claims ?m" using assms(2,4) y(4) by (auto simp: claims_def fun_eq_iff)
  then show ld: "load ?m' = load ?m" by (intro load_same) simp_all
  show op: "opened ?m' = live sv" by (rule opened_update [OF assms(2) y(1)])
  have "instance_ok (sv_c sv i) z" if "m_heap ?m' i = Some z" "\<not> mi_halt z" for i z
  proof (cases "i = mi")
    case True
    then have "z = f x" "instance_ok (sv_c sv mi) x" using that p(12) [OF assms(2,3)] by auto
    then show ?thesis using True y assms(4) by (simp add: instance_ok_def)
  next
    case False
    then show ?thesis using that p(12) [of i z] by simp
  qed
  then have "core_inv X (sv\<lparr>sv_m := ?m'\<rparr>)" using inv t ld op unfolding core_inv_def by (simp del: fun_upd_apply)
  moreover have "iter_inv (sv\<lparr>sv_m := ?m'\<rparr>)" using assms(1) op by (simp add: server_inv_def iter_inv_def del: fun_upd_apply)
  ultimately show "server_inv X (sv\<lparr>sv_m := ?m'\<rparr>)" by (simp add: server_inv_def)
qed

lemma working_instance:
  assumes "working X mi sv0 sv" "keeps_instance f"
  obtains m where "change_instance (sv_m sv) mi f = Some m" "working X mi sv0 (sv\<lparr>sv_m := m\<rparr>)"
proof -
  obtain x where x: "m_heap (sv_m sv) mi = Some x" "\<not> mi_halt x" "\<not> mi_did_iroutes x"
    using assms(1) by (auto simp: working_def connecting_def)
  have inv: "server_inv X sv" using assms(1) by (simp add: working_def)
  note s = server_instance [OF inv x assms(2)]
  let ?m' = "(sv_m sv)\<lparr>m_heap := (m_heap (sv_m sv))(mi \<mapsto> f x)\<rparr>"
  have "connecting (sv\<lparr>sv_m := ?m'\<rparr>) mi" using x assms(2) by (simp add: connecting_def keeps_instance_def)
  then have "working X mi sv0 (sv\<lparr>sv_m := ?m'\<rparr>)" using assms(1) s unfolding working_def by (simp del: fun_upd_apply)
  then show ?thesis using that x by (simp add: change_instance_def)
qed

lemma working_client:
  assumes "working X mi sv0 sv" "keeps_client f"
  obtains sv' where "change_client sv mi f = Some sv'" "working X mi sv0 sv'" "sv' = sv\<lparr>sv_c := (sv_c sv)(mi := f (sv_c sv mi))\<rparr>"
proof -
  let ?sv = "sv\<lparr>sv_c := (sv_c sv)(mi := f (sv_c sv mi))\<rparr>"
  obtain x where x: "m_heap (sv_m sv) mi = Some x" "\<not> mi_halt x" "\<not> mi_did_iroutes x"
    using assms(1) by (auto simp: working_def connecting_def)
  have inv: "core_inv X sv" "iter_inv sv" and lv: "live sv mi"
    using assms(1) connecting_live by (auto simp: working_def server_inv_def)
  have k: "cl_did_real_hash (f c) = cl_did_real_hash c" "cl_did_iter (f c) = cl_did_iter c"
     "cl_did_cid_hash (f c) = cl_did_cid_hash c" "cl_real (f c) = cl_real c" "cl_from (f c) = cl_from c"
     "cl_cid (f c) = cl_cid c" "cl_peer_id (f c) = cl_peer_id c" "cl_vaddr_handle (f c) = cl_vaddr_handle c"
     "length (co_push_ifconfig_ipv6_local (cl_config c)) = 16 \<Longrightarrow> length (co_push_ifconfig_ipv6_local (cl_config (f c))) = 16"
    for c using assms(2) by (auto simp: keeps_client_def)
  have "core_inv X ?sv"
    by (rule core_client [OF inv(1) lv]) (use x k in \<open>auto simp: instance_ok_def settled_def\<close>)
  moreover have "iter_inv ?sv" by (rule iter_client [OF inv(2)]) (simp_all add: k)
  moreover have "connecting ?sv mi" using x by (simp add: connecting_def)
  ultimately have "working X mi sv0 ?sv" using assms(1) by (simp add: working_def server_inv_def)
  then show ?thesis using that x by (simp add: change_client_def client_at_def)
qed

text \<open>The lease of the client changes together with the pool.\<close>

lemma core_pool:
  assumes "working X mi sv0 sv" "pool_ok pool (live sv) (\<lambda>i. cl_vaddr_handle (((sv_c sv)(mi := (sv_c sv mi)\<lparr>cl_vaddr_handle := h\<rparr>)) i))"
  shows "working X mi sv0 (sv\<lparr>sv_ifconfig_pool := pool, sv_c := (sv_c sv)(mi := (sv_c sv mi)\<lparr>cl_vaddr_handle := h\<rparr>)\<rparr>)"
proof -
  let ?c = "(sv_c sv)(mi := (sv_c sv mi)\<lparr>cl_vaddr_handle := h\<rparr>)"
  have e: "cl_did_real_hash (?c i) = cl_did_real_hash (sv_c sv i)" "cl_did_iter (?c i) = cl_did_iter (sv_c sv i)"
    "cl_did_cid_hash (?c i) = cl_did_cid_hash (sv_c sv i)"
    "cl_real (?c i) = cl_real (sv_c sv i)" "cl_cid (?c i) = cl_cid (sv_c sv i)"
    "cl_peer_id (?c i) = cl_peer_id (sv_c sv i)" "settled (?c i) = settled (sv_c sv i)" "instance_ok (?c i) = instance_ok (sv_c sv i)" for i
    by (auto simp: settled_def instance_ok_def fun_eq_iff)
  show ?thesis using assms unfolding working_def server_inv_def core_inv_def iter_inv_def connecting_def
    by (simp add: e del: fun_upd_apply)
qed

lemma working_release:
  assumes "working X mi sv0 sv"
  shows "working X mi sv0 (sv\<lparr>sv_ifconfig_pool := map_option (\<lambda>p. snd (ifconfig_pool_release p (cl_vaddr_handle (sv_c sv mi)) hard nw)) (sv_ifconfig_pool sv),
    sv_c := (sv_c sv)(mi := (sv_c sv mi)\<lparr>cl_vaddr_handle := - 1\<rparr>)\<rparr>)"
proof (rule core_pool [OF assms])
  have lv: "live sv mi" and p: "pool_ok (sv_ifconfig_pool sv) (live sv) (\<lambda>i. cl_vaddr_handle (sv_c sv i))"
    using assms connecting_live by (auto simp: working_def server_inv_def core_inv_def)
  show "pool_ok (map_option (\<lambda>p. snd (ifconfig_pool_release p (cl_vaddr_handle (sv_c sv mi)) hard nw)) (sv_ifconfig_pool sv)) (live sv)
    (\<lambda>i. cl_vaddr_handle (((sv_c sv)(mi := (sv_c sv mi)\<lparr>cl_vaddr_handle := - 1\<rparr>)) i))"
    by (rule pool_release [where b = True, OF p lv]) (use lv in auto)
qed

lemma working_acquire:
  assumes "working X mi sv0 sv" "sv_ifconfig_pool sv = Some p" "cl_vaddr_handle (sv_c sv mi) < 0"
  obtains l p' where "ifconfig_pool_acquire p cn nw = Some (l, p')"
    "working X mi sv0 (sv\<lparr>sv_ifconfig_pool := Some p', sv_c := (sv_c sv)(mi := (sv_c sv mi)\<lparr>cl_vaddr_handle := l_handle l\<rparr>)\<rparr>)"
    "\<forall>a. 0 \<le> l_handle l \<and> l_remote_ipv6 l = Some a \<longrightarrow> length a = 16"
proof -
  have p: "pool_ok (Some p) (live sv) (\<lambda>i. cl_vaddr_handle (sv_c sv i))"
    using assms(1,2) by (auto simp: working_def server_inv_def core_inv_def)
  obtain l p' where a: "ifconfig_pool_acquire p cn nw = Some (l, p')" by (cases rule: pool_acquire_cases [of p cn nw]) auto
  have r: "\<forall>a. 0 \<le> l_handle l \<and> l_remote_ipv6 l = Some a \<longrightarrow> length a = 16"
  proof (cases rule: pool_acquire_cases [of p cn nw])
    case (full l')
    then show ?thesis using a by auto
  next
    case (got i e)
    then have "l = lease_of p i" using a by simp
    moreover have "length (ipv6_base p) = 16" using p by (simp add: pool_ok_def)
    ultimately show ?thesis using in6_value_add(2) by (simp add: lease_of_def)
  qed
  have "pool_ok (Some p') (live sv) (\<lambda>i. cl_vaddr_handle (((sv_c sv)(mi := (sv_c sv mi)\<lparr>cl_vaddr_handle := l_handle l\<rparr>)) i))"
  proof -
    have "(\<lambda>i. cl_vaddr_handle (((sv_c sv)(mi := (sv_c sv mi)\<lparr>cl_vaddr_handle := l_handle l\<rparr>)) i)) =
        (\<lambda>i. cl_vaddr_handle (sv_c sv i))(mi := l_handle l)" by (rule ext) simp
    then show ?thesis using pool_acquire [OF p a assms(3)] by (simp only:)
  qed
  from core_pool [OF assms(1) this] show ?thesis using that [OF a _ r] by blast
qed

lemma keeps_push:
  "keeps_instance (\<lambda>i. i\<lparr>mi_push_ifconfig_defined := b, mi_push_ifconfig_local := a\<rparr>)"
  "keeps_instance (\<lambda>i. i\<lparr>mi_push_ifconfig_local := a, mi_push_ifconfig_defined := (b \<or> mi_push_ifconfig_defined i)\<rparr>)"
  "length a6 = 16 \<Longrightarrow> keeps_instance (\<lambda>i. i\<lparr>mi_push_ifconfig_ipv6_local := a6, mi_push_ifconfig_ipv6_defined := b\<rparr>)"
  by (simp_all add: keeps_instance_def client_ok_def iroute_items_def)

lemma keeps_netmask: "keeps_client (\<lambda>c. c\<lparr>cl_push_ifconfig_remote_netmask := a\<rparr>)"
  by (simp add: keeps_client_def)

text \<open>The parts of \<open>multi_select_virtual_addr\<close>.\<close>

lemma working_netmask:
  assumes "working X mi sv0 sv"
  shows "\<exists>sv'. change_client sv mi (\<lambda>c. c\<lparr>cl_push_ifconfig_remote_netmask := a\<rparr>) = Some sv' \<and> working X mi sv0 sv'"
  by (rule working_client [OF assms keeps_netmask, of a]) blast

lemma push_ipv6_ok:
  assumes "working X mi sv0 sv" "length a = 16"
  shows "\<exists>sv'. push_ipv6 sv mi a = Some sv' \<and> working X mi sv0 sv'"
  by (rule working_instance [OF assms(1) keeps_push(3) [OF assms(2)], of True]) (simp add: push_ipv6_def)

lemma select_static_ok:
  assumes "working X mi sv0 sv"
  shows "\<exists>sv'. select_static_addr sv nw mi (sv_c sv mi) = Some sv' \<and> working X mi sv0 sv'"
proof -
  let ?c = "sv_c sv mi"
  define sv1 where "sv1 = (if cl_vaddr_handle ?c \<ge> 0
      then sv\<lparr>sv_ifconfig_pool := map_option (\<lambda>p. snd (ifconfig_pool_release p (cl_vaddr_handle ?c) True nw)) (sv_ifconfig_pool sv),
              sv_c := (sv_c sv)(mi := ?c\<lparr>cl_vaddr_handle := - 1\<rparr>)\<rparr>
      else sv)"
  have w: "working X mi sv0 sv1" using working_release [OF assms, of True nw] assms unfolding sv1_def by simp
  obtain m where m: "change_instance (sv_m sv1) mi (\<lambda>i. i\<lparr>mi_push_ifconfig_defined := True,
      mi_push_ifconfig_local := co_push_ifconfig_local (cl_config ?c)\<rparr>) = Some m" "working X mi sv0 (sv1\<lparr>sv_m := m\<rparr>)"
    by (rule working_instance [OF w keeps_push(1)])
  show ?thesis using working_netmask [OF m(2), of "co_push_ifconfig_remote_netmask (cl_config ?c)"]
    unfolding select_static_addr_def Let_def sv1_def [symmetric] by (simp add: m(1))
qed

lemma use_lease_ok:
  assumes "working X mi sv0 sv" "\<forall>a. l_remote_ipv6 l = Some a \<longrightarrow> length a = 16"
  shows "\<exists>sv'. use_lease sv mi c l = Some sv' \<and> working X mi sv0 sv'"
proof -
  obtain x where x: "m_heap (sv_m sv) mi = Some x" using assms(1) by (auto simp: working_def connecting_def)
  define remote where "remote = (case l_remote l of None \<Rightarrow> 0 | Some a \<Rightarrow> a)"
  define r6 where "r6 = (case l_remote_ipv6 l of None \<Rightarrow> replicate 16 0 | Some a \<Rightarrow> a)"
  define netmask where "netmask = pool_remote_netmask sv (mi_tunnel_type x) c (case l_local l of None \<Rightarrow> 0 | Some a \<Rightarrow> a)"
  have r: "length r6 = 16" using assms(2) by (auto simp: r6_def split: option.splits)
  obtain m where m: "change_instance (sv_m sv) mi (\<lambda>i. i\<lparr>mi_push_ifconfig_local := remote,
        mi_push_ifconfig_defined := (netmask \<noteq> 0 \<or> mi_push_ifconfig_defined i)\<rparr>) = Some m"
    "working X mi sv0 (sv\<lparr>sv_m := m\<rparr>)" by (rule working_instance [OF assms(1) keeps_push(2)])
  define v4 where "v4 = (if co_ifconfig_pool_defined (cl_config c)
            then do {
              m \<leftarrow> change_instance (sv_m sv) mi (\<lambda>i. i\<lparr>mi_push_ifconfig_local := remote,
                mi_push_ifconfig_defined := (netmask \<noteq> 0 \<or> mi_push_ifconfig_defined i)\<rparr>);
              change_client (sv\<lparr>sv_m := m\<rparr>) mi (\<lambda>c. c\<lparr>cl_push_ifconfig_remote_netmask := netmask\<rparr>) }
            else Some sv)"
  have "\<exists>sv1. v4 = Some sv1 \<and> working X mi sv0 sv1"
    using working_netmask [OF m(2), of netmask] assms(1) unfolding v4_def m(1)
    by (cases "co_ifconfig_pool_defined (cl_config c)") simp_all
  then obtain sv1 where sv1: "v4 = Some sv1" "working X mi sv0 sv1" by blast
  have "use_lease sv mi c l = v4 \<bind> (\<lambda>sv. if co_ifconfig_ipv6_pool_defined (cl_config c) then push_ipv6 sv mi r6 else Some sv)"
    unfolding use_lease_def Let_def x bind.bind_lunit remote_def [symmetric] r6_def [symmetric] netmask_def [symmetric] v4_def ..
  then show ?thesis using push_ipv6_ok [OF sv1(2) r] sv1 by simp
qed

lemma select_pool_ok:
  assumes "working X mi sv0 sv" "sv_ifconfig_pool sv = Some p" "cl_vaddr_handle (sv_c sv mi) < 0"
  shows "\<exists>sv'. select_pool_addr sv nw mi (sv_c sv mi) p = Some sv' \<and> working X mi sv0 sv'"
proof -
  let ?c = "sv_c sv mi"
  obtain x where x: "m_heap (sv_m sv) mi = Some x" using assms(1) by (auto simp: working_def connecting_def)
  obtain l p' where l: "ifconfig_pool_acquire p (if \<not> co_duplicate_cn (cl_config ?c) then tls_common_name ?c True else None) nw = Some (l, p')"
    "working X mi sv0 (sv\<lparr>sv_ifconfig_pool := Some p', sv_c := (sv_c sv)(mi := ?c\<lparr>cl_vaddr_handle := l_handle l\<rparr>)\<rparr>)"
    "\<forall>a. 0 \<le> l_handle l \<and> l_remote_ipv6 l = Some a \<longrightarrow> length a = 16"
    by (rule working_acquire [OF assms])
  have "change_client (sv\<lparr>sv_ifconfig_pool := Some p'\<rparr>) mi (\<lambda>c. c\<lparr>cl_vaddr_handle := l_handle l\<rparr>) =
      Some (sv\<lparr>sv_ifconfig_pool := Some p', sv_c := (sv_c sv)(mi := ?c\<lparr>cl_vaddr_handle := l_handle l\<rparr>)\<rparr>)"
    using x by (simp add: change_client_def client_at_def)
  then show ?thesis using use_lease_ok [OF l(2), of l ?c] l(2,3) unfolding select_pool_addr_def l(1) by auto
qed

lemma select_ok:
  assumes "working X mi sv0 sv"
  shows "\<exists>sv'. multi_select_virtual_addr sv nw mi = Some sv' \<and> working X mi sv0 sv'"
proof -
  let ?c = "sv_c sv mi"
  obtain x where x: "m_heap (sv_m sv) mi = Some x" "\<not> mi_halt x" using assms by (auto simp: working_def connecting_def)
  have "core_inv X sv" using assms by (simp add: working_def server_inv_def)
  from core_parts(12) [OF this x] have c16: "length (co_push_ifconfig_ipv6_local (cl_config ?c)) = 16" by (simp add: instance_ok_def)
  have at: "client_at sv mi = Some ?c" using x by (simp add: client_at_def)
  have "\<exists>sv1. (if co_push_ifconfig_defined (cl_config ?c) then select_static_addr sv nw mi ?c
             else case sv_ifconfig_pool sv of
               None \<Rightarrow> Some sv
             | Some p \<Rightarrow> if cl_vaddr_handle ?c < 0 then select_pool_addr sv nw mi ?c p else Some sv) = Some sv1 \<and> working X mi sv0 sv1"
  proof (cases "co_push_ifconfig_defined (cl_config ?c)")
    case True
    then show ?thesis using select_static_ok [OF assms, of nw] by simp
  next
    case False
    then show ?thesis using select_pool_ok [OF assms, of _ nw] assms
      by (cases "sv_ifconfig_pool sv"; cases "cl_vaddr_handle ?c < 0") simp_all
  qed
  then obtain sv1 where "(if co_push_ifconfig_defined (cl_config ?c) then select_static_addr sv nw mi ?c
             else case sv_ifconfig_pool sv of
               None \<Rightarrow> Some sv
             | Some p \<Rightarrow> if cl_vaddr_handle ?c < 0 then select_pool_addr sv nw mi ?c p else Some sv) = Some sv1" "working X mi sv0 sv1"
    by blast
  then show ?thesis using push_ipv6_ok [OF _ c16, of X mi sv0 sv1] by (simp add: multi_select_virtual_addr_def at)
qed

section \<open>The connect handlers\<close>

definition options_fine :: "connect_options \<Rightarrow> bool" where
  "options_fine co \<longleftrightarrow> list_all iroute_ok (cn_iroutes co) \<and> list_all iroute6_ok (cn_iroutes_ipv6 co) \<and>
     length (cn_iroutes co) + length (cn_iroutes_ipv6 co) \<le> 2 ^ 20 \<and> length (co_push_ifconfig_ipv6_local (cn_config co)) = 16"

definition handlers_fine :: "(nat \<Rightarrow> handler_call) \<Rightarrow> bool" where
  "handlers_fine handlers \<longleftrightarrow> (\<forall>k co. hc_options (handlers k) = Some co \<longrightarrow> options_fine co)"

lemma size_lengths: "size (lengths_of ps) \<le> length ps"
  unfolding lengths_of_def size_mset using length_filter_le [of _ "map fst ps"] by (simp only: length_map)

lemma keeps_options: "options_fine co \<Longrightarrow> keeps_instance (set_options co)"
proof -
  assume co: "options_fine co"
  have "size (lengths_of (iroute_items (set_options co x))) \<le> 2 ^ 20" for x
  proof -
    have "length (iroute_items (set_options co x)) = length (cn_iroutes co) + length (cn_iroutes_ipv6 co)"
      by (simp add: iroute_items_def set_options_def)
    then show ?thesis using size_lengths [of "iroute_items (set_options co x)"] co by (simp add: options_fine_def)
  qed
  then show ?thesis using co by (simp add: keeps_instance_def client_ok_def set_options_def options_fine_def)
qed

lemma call_handler_ok:
  assumes "working X mi sv0 sv" "\<forall>co. hc_options hc = Some co \<longrightarrow> options_fine co"
  shows "\<exists>sv'. call_handler hc sv nw mi = Some sv' \<and> working X mi sv0 sv'"
proof (cases "hc_options hc")
  case None
  then show ?thesis using assms(1) by (simp add: call_handler_def)
next
  case (Some co)
  then have co: "options_fine co" using assms(2) by simp
  obtain m where m: "change_instance (sv_m sv) mi (set_options co) = Some m" "working X mi sv0 (sv\<lparr>sv_m := m\<rparr>)"
    by (rule working_instance [OF assms(1) keeps_options [OF co]])
  have "keeps_client (\<lambda>c. c\<lparr>cl_config := cn_config co\<rparr>)" using co by (simp add: keeps_client_def options_fine_def)
  from working_client [OF m(2) this] obtain sv1 where
    "change_client (sv\<lparr>sv_m := m\<rparr>) mi (\<lambda>c. c\<lparr>cl_config := cn_config co\<rparr>) = Some sv1" "working X mi sv0 sv1" by blast
  then show ?thesis using select_ok [of X mi sv0 sv1 nw] m(1) Some by (simp add: call_handler_def)
qed

lemma working_at: "working X mi sv0 sv \<Longrightarrow> client_at sv mi = Some (sv_c sv mi)"
  by (auto simp: working_def connecting_def client_at_def)

lemma keeps_simps:
  "keeps_client (\<lambda>c. c\<lparr>cl_multi_state := s\<rparr>)" "keeps_client (\<lambda>c. c\<lparr>cl_cur_handler_index := k\<rparr>)"
  "keeps_client (\<lambda>c. c\<lparr>cl_cur_handler_index := k, cl_multi_state := s\<rparr>)"
  "keeps_client tls_lock_cert_hash_set" "keeps_client (tls_progress env)" "keeps_client (\<lambda>c. c\<lparr>cl_wakeup := t\<rparr>)"
  by (simp_all add: keeps_client_def tls_lock_cert_hash_set_def tls_progress_def Let_def)

lemma working_change:
  assumes "working X mi sv0 sv" "keeps_client f"
  shows "\<exists>sv'. change_client sv mi f = Some sv' \<and> working X mi sv0 sv'"
  by (rule working_client [OF assms]) blast

lemma connect_loop_ok:
  assumes "working X mi sv0 sv" "handlers_fine handlers"
  shows "\<exists>r sv'. connect_loop handlers ks sv nw mi = Some (r, sv') \<and> working X mi sv0 sv'"
  using assms(1)
proof (induction ks arbitrary: sv)
  case (Cons k ks)
  let ?hc = "handlers k"
  have "\<forall>co. hc_options ?hc = Some co \<longrightarrow> options_fine co" using assms(2) by (simp add: handlers_fine_def)
  from call_handler_ok [OF Cons.prems this, of nw] obtain sv1 where
    sv1: "call_handler ?hc sv nw mi = Some sv1" "working X mi sv0 sv1" by blast
  show ?case
  proof (cases "hc_result ?hc = CC_RET_DEFERRED")
    case True
    then show ?thesis using sv1 by (simp add: Let_def)
  next
    case False
    have "\<exists>sv2. (if hc_result ?hc = CC_RET_SUCCEEDED
        then change_client sv1 mi (\<lambda>c. c\<lparr>cl_multi_state := CAS_PENDING_DEFERRED_PARTIAL\<rparr>) else Some sv1) = Some sv2 \<and> working X mi sv0 sv2"
      using working_change [OF sv1(2) keeps_simps(1), of CAS_PENDING_DEFERRED_PARTIAL] sv1(2) by simp
    then obtain sv2 where sv2: "(if hc_result ?hc = CC_RET_SUCCEEDED
        then change_client sv1 mi (\<lambda>c. c\<lparr>cl_multi_state := CAS_PENDING_DEFERRED_PARTIAL\<rparr>) else Some sv1) = Some sv2" "working X mi sv0 sv2"
      by blast
    obtain sv3 where sv3: "change_client sv2 mi (\<lambda>c. c\<lparr>cl_cur_handler_index := k + 1\<rparr>) = Some sv3" "working X mi sv0 sv3"
      using working_change [OF sv2(2) keeps_simps(2), of "k + 1"] by blast
    have "connect_loop handlers (k # ks) sv nw mi =
        (if hc_result ?hc \<noteq> CC_RET_FAILED \<and> \<not> co_disable (cl_config (sv_c sv2 mi)) then connect_loop handlers ks sv3 nw mi
         else Some (Some False, sv3))"
      using False sv1(1) sv2(1) sv3(1) working_at [OF sv2(2)] by (simp add: Let_def)
    then show ?thesis using Cons.IH [OF sv3(2)] sv3(2) by simp
  qed
qed simp

lemma early_setup_ok:
  assumes "working X mi sv0 sv"
  shows "\<exists>sv'. multi_client_connect_early_setup sv nw mi = Some sv' \<and> working X mi sv0 sv'"
proof -
  obtain sv1 where sv1: "change_client sv mi tls_lock_cert_hash_set = Some sv1" "working X mi sv0 sv1"
    using working_change [OF assms keeps_simps(4)] by blast
  have inv1: "server_inv X sv1" and lv1: "live sv1 mi" and cn1: "connecting sv1 mi"
    using sv1(2) connecting_live by (auto simp: working_def)
  obtain sv2 where sv2: "multi_delete_dup sv1 nw mi = Some sv2" "server_inv X sv2" "closes (of_name sv1 mi) sv1 sv2"
    by (rule delete_dup_ok [OF inv1 lv1])
  have "mi \<notin> of_name sv1 mi" by (auto simp: of_name_def same_name_def split: option.splits)
  then have "connecting sv2 mi" using sv2(3) cn1 by (simp add: closes_def connecting_def)
  then have w2: "working X mi sv0 sv2" using sv2 sv1(2) by (auto simp: working_def closes_def)
  let ?dup = "co_duplicate_cn (cl_config (sv_c sv1 mi))"
  have "\<exists>sv3. (if \<not> ?dup then multi_delete_dup sv1 nw mi else Some sv1) = Some sv3 \<and> working X mi sv0 sv3"
    using sv2(1) w2 sv1(2) by simp
  then obtain sv3 where sv3: "(if \<not> ?dup then multi_delete_dup sv1 nw mi else Some sv1) = Some sv3" "working X mi sv0 sv3"
    by blast
  let ?sv = "sv3\<lparr>sv_ifconfig_pool := sv_ifconfig_pool sv3, sv_c := (sv_c sv3)(mi := (sv_c sv3 mi)\<lparr>cl_vaddr_handle := - 1\<rparr>)\<rparr>"
  have "pool_ok (sv_ifconfig_pool sv3) (live sv3) (\<lambda>i. cl_vaddr_handle (sv_c sv3 i))"
    using sv3(2) by (simp add: working_def server_inv_def core_inv_def)
  then have "pool_ok (sv_ifconfig_pool sv3) (live sv3) (\<lambda>i. cl_vaddr_handle (((sv_c sv3)(mi := (sv_c sv3 mi)\<lparr>cl_vaddr_handle := - 1\<rparr>)) i))"
    unfolding pool_ok_def by (auto split: if_splits)
  from core_pool [OF sv3(2) this] have w4: "working X mi sv0 ?sv" .
  have "change_client sv3 mi (\<lambda>c. c\<lparr>cl_vaddr_handle := - 1\<rparr>) = Some ?sv"
    using working_at [OF sv3(2)] by (simp add: change_client_def)
  then have "multi_client_connect_early_setup sv nw mi = multi_select_virtual_addr ?sv nw mi"
    using sv1(1) working_at [OF sv1(2)] sv3(1) by (simp add: multi_client_connect_early_setup_def)
  then show ?thesis using select_ok [OF w4] by simp
qed

end
