(* ===== verification/Session_Steps.thy ===== *)
theory Session_Steps
  imports Session_Inv
begin

text \<open>
  The operations of the server keep the invariant of its clients, and no assertion fails in them: the work on a client that
  connects, the work after each event, new clients, packets that float or go to other clients, and the handlers of
  the events.
\<close>

section \<open>The routes of a connected client\<close>

text \<open>The room that the counter of changes of the networks needs for one more client.\<close>

definition roomy :: "server \<Rightarrow> bool" where
  "roomy sv \<longleftrightarrow> load (sv_m sv) + 2 ^ 21 < 2 ^ 32"

lemma server_moves:
  assumes "server_inv X sv" "table_inv m" "opened m = live sv" "load m < 2 ^ 32"
    "\<And>i x. m_heap m i = Some x \<Longrightarrow> \<not> mi_halt x \<Longrightarrow> instance_ok (sv_c sv i) x"
  shows "server_inv X (sv\<lparr>sv_m := m\<rparr>)"
  using assms unfolding server_inv_def core_inv_def iter_inv_def by simp

lemma instance_counts: "instance_ok c (x\<lparr>mi_refcount := a, mi_route_count := b\<rparr>) = instance_ok c x"
  by (simp add: instance_ok_def client_same)

lemma late_setup_ok:
  assumes "working X mi sv0 sv" "roomy sv"
  shows "\<exists>sv'. multi_client_connect_late_setup sv nw sc mi ok = Some sv' \<and> server_inv X sv' \<and> live sv' = live sv"
proof -
  obtain x where x: "m_heap (sv_m sv) mi = Some x" "\<not> mi_halt x" "\<not> mi_did_iroutes x"
    using assms(1) by (auto simp: working_def connecting_def)
  have inv: "core_inv X sv" using assms(1) by (simp add: working_def server_inv_def)
  note p = core_parts [OF inv]
  have io: "instance_ok (sv_c sv mi) x" using p(12) x by blast
  have b: "int (size (lengths_of (iroute_items x))) \<le> 1048576" using io by (simp add: instance_ok_def)
  have r: "load (sv_m sv) + 2097152 < 4294967296" using assms(2) by (simp add: roomy_def)
  have g: "uint (mh_cache_generation (m_route_helper (sv_m sv))) \<le> load (sv_m sv)" by (simp add: load_def sum_nonneg)
  have "uint (mh_cache_generation (m_route_helper (sv_m sv))) + int (size (lengths_of (iroute_items x))) < 2 ^ 32"
    using b g r by simp
  from setup_ok [OF p(1) x this, of nw sc] obtain m where m: "late_setup_routes (sv_m sv) nw sc mi = Some m" "table_inv m"
    "opened m = live sv" "uint (mh_cache_generation (m_route_helper m)) =
      uint (mh_cache_generation (m_route_helper (sv_m sv))) + int (size (lengths_of (iroute_items x)))"
    "same_clients ((m_heap (sv_m sv))(mi \<mapsto> x\<lparr>mi_did_iroutes := True\<rparr>)) (m_heap m)" by blast
  let ?h = "(m_heap (sv_m sv))(mi \<mapsto> x\<lparr>mi_did_iroutes := True\<rparr>)"
  have it: "iroute_items (x\<lparr>mi_did_iroutes := True\<rparr>) = iroute_items x" by (simp add: iroute_items_def)
  have cl: "claims m = (claims (sv_m sv))(mi := lengths_of (iroute_items x))"
  proof
    fix i
    have hx: "?h mi = Some (x\<lparr>mi_did_iroutes := True\<rparr>)" "\<not> mi_halt (x\<lparr>mi_did_iroutes := True\<rparr>)" using x(2) by simp_all
    show "claims m i = ((claims (sv_m sv))(mi := lengths_of (iroute_items x))) i"
    proof (cases "m_heap m i")
      case None
      then have "\<not> opened m i" by (simp add: opened_def)
      then have no: "\<not> live sv i" unfolding m(3) .
      then have "i \<noteq> mi" using assms(1) connecting_live by (auto simp: working_def)
      moreover have "claims (sv_m sv) i = {#}" using table_claims_open [OF p(1)] no by (auto simp: claims_open_def)
      ultimately show ?thesis using None by (simp add: claims_def [of m])
    next
      case (Some y)
      obtain z a b where z: "?h i = Some z" "y = z\<lparr>mi_refcount := a, mi_route_count := b\<rparr>"
        by (rule same_clients_back [OF m(5) Some])
      then show ?thesis using Some it by (cases "i = mi") (auto simp: claims_def client_same)
    qed
  qed
  have "claims (sv_m sv) mi = {#}" using x by (simp add: claims_def)
  with load_update [OF table_claims_finite [OF p(1)] cl m(4)] have "load m = load (sv_m sv) + 2 * int (size (lengths_of (iroute_items x)))"
    by simp
  then have ld: "load m < 2 ^ 32" using b r by simp
  let ?s = "if ok then CAS_CONNECT_DONE else CAS_FAILED"
  obtain sv1 where sv1: "working X mi sv0 sv1" "sv1 = sv\<lparr>sv_c := (sv_c sv)(mi := (sv_c sv mi)\<lparr>cl_multi_state := ?s\<rparr>)\<rparr>"
    by (rule working_client [OF assms(1) keeps_simps(1), of ?s]) blast
  have "instance_ok (sv_c sv1 i) y" if y: "m_heap m i = Some y" "\<not> mi_halt y" for i y
  proof -
    obtain z a b where z: "?h i = Some z" "y = z\<lparr>mi_refcount := a, mi_route_count := b\<rparr>"
      by (rule same_clients_back [OF m(5) y(1)])
    show ?thesis
    proof (cases "i = mi")
      case True
      then have "z = x\<lparr>mi_did_iroutes := True\<rparr>" using z(1) by simp
      then have "instance_ok (sv_c sv1 i) z" using io it True by (simp add: instance_ok_def sv1(2))
      then show ?thesis using z(2) instance_counts by simp
    next
      case False
      then have "instance_ok (sv_c sv i) z" using z y(2) p(12) [of i z] by simp
      then show ?thesis using z(2) instance_counts False by (simp add: sv1(2))
    qed
  qed
  moreover have "server_inv X sv1" "opened m = live sv1" using sv1 m(3) by (auto simp: working_def)
  ultimately have "server_inv X (sv1\<lparr>sv_m := m\<rparr>)" using server_moves m(2) ld by blast
  moreover have "m_heap m mi \<noteq> None" using m(3) assms(1) connecting_live opened_heap [of m mi] by (auto simp: working_def)
  then have "multi_client_connect_late_setup sv nw sc mi ok = Some (sv1\<lparr>sv_m := m\<rparr>)"
    using m(1) by (simp add: multi_client_connect_late_setup_def change_client_def client_at_def sv1(2))
  ultimately show ?thesis using m(3) by simp
qed

section \<open>After each event\<close>

definition keeps_done :: "(client \<Rightarrow> client) \<Rightarrow> bool" where
  "keeps_done f \<longleftrightarrow> keeps_client f \<and> (\<forall>c. cl_multi_state c = CAS_FAILED \<or> cl_multi_state c = CAS_CONNECT_DONE \<longrightarrow>
     cl_multi_state (f c) = cl_multi_state c)"

lemma keeps_done_simps:
  "keeps_done (\<lambda>c. c\<lparr>cl_n_clients_delta := cl_n_clients_delta c - 1\<rparr>)" "keeps_done (\<lambda>c. c\<lparr>cl_wakeup := t\<rparr>)"
  "keeps_done (tls_progress env)"
  by (auto simp: keeps_done_def keeps_client_def tls_progress_def Let_def)

lemma server_client:
  assumes "server_inv X sv" "live sv mi" "keeps_done f"
  shows "change_client sv mi f = Some (sv\<lparr>sv_c := (sv_c sv)(mi := f (sv_c sv mi))\<rparr>)"
    "server_inv X (sv\<lparr>sv_c := (sv_c sv)(mi := f (sv_c sv mi))\<rparr>)"
proof -
  obtain x where x: "m_heap (sv_m sv) mi = Some x" "\<not> mi_halt x" using opened_heap [OF assms(2)] by blast
  show "change_client sv mi f = Some (sv\<lparr>sv_c := (sv_c sv)(mi := f (sv_c sv mi))\<rparr>)"
    using x by (simp add: change_client_def client_at_def)
  have inv: "core_inv X sv" "iter_inv sv" using assms(1) by (auto simp: server_inv_def)
  have k: "cl_did_real_hash (f c) = cl_did_real_hash c" "cl_did_iter (f c) = cl_did_iter c"
     "cl_did_cid_hash (f c) = cl_did_cid_hash c" "cl_real (f c) = cl_real c" "cl_from (f c) = cl_from c"
     "cl_cid (f c) = cl_cid c" "cl_peer_id (f c) = cl_peer_id c" "cl_vaddr_handle (f c) = cl_vaddr_handle c"
     "length (co_push_ifconfig_ipv6_local (cl_config c)) = 16 \<Longrightarrow> length (co_push_ifconfig_ipv6_local (cl_config (f c))) = 16"
     "cl_multi_state c = CAS_FAILED \<or> cl_multi_state c = CAS_CONNECT_DONE \<Longrightarrow> cl_multi_state (f c) = cl_multi_state c"
    for c using assms(3) by (auto simp: keeps_done_def keeps_client_def)
  have "core_inv X (sv\<lparr>sv_c := (sv_c sv)(mi := f (sv_c sv mi))\<rparr>)"
  proof (rule core_client [OF inv(1) assms(2)])
    show "instance_ok (f (sv_c sv mi)) y" if "instance_ok (sv_c sv mi) y" for y
      using that k(9,10) [of "sv_c sv mi"] by (auto simp: instance_ok_def)
  qed (simp_all add: k settled_def)
  moreover have "iter_inv (sv\<lparr>sv_c := (sv_c sv)(mi := f (sv_c sv mi))\<rparr>)"
    by (rule iter_client [OF inv(2)]) (simp_all add: k)
  ultimately show "server_inv X (sv\<lparr>sv_c := (sv_c sv)(mi := f (sv_c sv mi))\<rparr>)" by (simp add: server_inv_def)
qed

lemma server_counts [simp]: "server_inv X (sv\<lparr>sv_n_clients := n\<rparr>) = server_inv X sv"
  by (simp add: server_inv_def core_inv_def iter_inv_def)

text \<open>Other clients may be closed meanwhile, but not \<open>mi\<close>.\<close>

definition fewer :: "nat \<Rightarrow> server \<Rightarrow> server \<Rightarrow> bool" where
  "fewer mi sv sv' \<longleftrightarrow> live sv' mi \<and> (\<forall>i. live sv' i \<longrightarrow> live sv i)"

lemma connection_established_ok:
  assumes "server_inv X sv" "live sv mi" "is_cas_pending (cl_multi_state (sv_c sv mi))" "roomy sv" "handlers_fine (pe_handlers env)"
  shows "\<exists>sv'. multi_connection_established sv nw sc mi env = Some sv' \<and> server_inv X sv' \<and> fewer mi sv sv'"
proof -
  obtain x where x: "m_heap (sv_m sv) mi = Some x" "\<not> mi_halt x" using opened_heap [OF assms(2)] by blast
  have "instance_ok (sv_c sv mi) x" using assms(1) core_parts(12) x by (auto simp: server_inv_def)
  then have "connecting sv mi" using x assms(3) by (auto simp: connecting_def instance_ok_def is_cas_pending_def)
  then have w: "working X mi sv sv" using assms(1) by (rule working_refl [rotated])
  have "\<exists>sv1. (if cl_multi_state (sv_c sv mi) = CAS_PENDING
      then do { sv \<leftarrow> change_client sv mi (\<lambda>c. c\<lparr>cl_cur_handler_index := 0, cl_multi_state := CAS_PENDING_DEFERRED\<rparr>);
                multi_client_connect_early_setup sv nw mi }
      else Some sv) = Some sv1 \<and> working X mi sv sv1"
    using working_change [OF w keeps_simps(3) [where k = 0 and s = CAS_PENDING_DEFERRED]] early_setup_ok [of X mi sv _ nw] w by fastforce
  then obtain sv1 where sv1: "(if cl_multi_state (sv_c sv mi) = CAS_PENDING
      then do { sv \<leftarrow> change_client sv mi (\<lambda>c. c\<lparr>cl_cur_handler_index := 0, cl_multi_state := CAS_PENDING_DEFERRED\<rparr>);
                multi_client_connect_early_setup sv nw mi }
      else Some sv) = Some sv1" "working X mi sv sv1" by blast
  obtain r sv2 where sv2: "connect_loop (pe_handlers env) [cl_cur_handler_index (sv_c sv1 mi)..<n_connect_handlers] sv1 nw mi = Some (r, sv2)"
    "working X mi sv sv2" using connect_loop_ok [OF sv1(2) assms(5)] by blast
  have run: "multi_connection_established sv nw sc mi env =
      (case r of None \<Rightarrow> Some sv2
       | Some ok \<Rightarrow>
          do { sv \<leftarrow> (if ok then multi_client_connect_late_setup sv2 nw sc mi (pe_protocol_ok env)
                    else change_client sv2 mi (\<lambda>c. c\<lparr>cl_multi_state := CAS_FAILED\<rparr>));
               change_client (sv\<lparr>sv_n_clients := sv_n_clients sv + 1\<rparr>) mi (\<lambda>c. c\<lparr>cl_n_clients_delta := cl_n_clients_delta c - 1\<rparr>) })"
    unfolding multi_connection_established_def working_at [OF w] bind.bind_lunit sv1(1) working_at [OF sv1(2)] sv2(1) by simp
  have lv2: "fewer mi sv sv2" "server_inv X sv2" using sv2(2) connecting_live by (auto simp: working_def fewer_def)
  show ?thesis
  proof (cases r)
    case None
    then show ?thesis using run lv2 by simp
  next
    case (Some ok)
    have ry: "roomy sv2" using assms(4) sv2(2) by (simp add: roomy_def working_def)
    have "\<exists>sv3. (if ok then multi_client_connect_late_setup sv2 nw sc mi (pe_protocol_ok env)
        else change_client sv2 mi (\<lambda>c. c\<lparr>cl_multi_state := CAS_FAILED\<rparr>)) = Some sv3 \<and> server_inv X sv3 \<and> fewer mi sv sv3"
    proof (cases ok)
      case True
      then show ?thesis using late_setup_ok [OF sv2(2) ry, of nw sc "pe_protocol_ok env"] lv2(1) by (auto simp: fewer_def)
    next
      case False
      then show ?thesis using working_change [OF sv2(2) keeps_simps(1), of CAS_FAILED] connecting_live
        by (auto simp: working_def fewer_def)
    qed
    then obtain sv3 where sv3: "(if ok then multi_client_connect_late_setup sv2 nw sc mi (pe_protocol_ok env)
        else change_client sv2 mi (\<lambda>c. c\<lparr>cl_multi_state := CAS_FAILED\<rparr>)) = Some sv3" "server_inv X sv3" "fewer mi sv sv3" by blast
    let ?sv = "sv3\<lparr>sv_n_clients := sv_n_clients sv3 + 1\<rparr>"
    have "server_inv X ?sv" "live ?sv mi" using sv3(2,3) by (simp_all add: fewer_def)
    note c = server_client [OF this keeps_done_simps(1)]
    show ?thesis unfolding run Some option.case sv3(1) bind.bind_lunit c(1) using c(2) sv3(3) by (simp add: fewer_def)
  qed
qed

lemma wakeup_runs:
  assumes "server_inv X sv" "live sv mi" "draws_ok (card {i. live sv i}) random"
  shows "\<exists>c s. multi_schedule_context_wakeup sv mi clock delta random =
      Some (sv\<lparr>sv_c := (sv_c sv)(mi := c), sv_schedule := s\<rparr>) \<and> c = (sv_c sv mi)\<lparr>cl_wakeup := tv_add clock delta\<rparr> \<and>
    server_inv X (sv\<lparr>sv_c := (sv_c sv)(mi := c), sv_schedule := s\<rparr>)"
proof -
  let ?t = "tv_add clock delta"
  let ?sv = "sv\<lparr>sv_c := (sv_c sv)(mi := (sv_c sv mi)\<lparr>cl_wakeup := ?t\<rparr>)\<rparr>"
  note c = server_client [OF assms(1,2) keeps_done_simps(2), of ?t]
  have inv: "core_inv X ?sv" "iter_inv ?sv" using c(2) by (auto simp: server_inv_def)
  note p = core_parts [OF inv(1)]
  have "card (dom (timers (sv_schedule sv))) \<le> card {i. live sv i}" using card_mono p(3,11) by fastforce
  moreover have "sched_inv (sv_schedule sv)" using p(4) by simp
  ultimately obtain s where s: "schedule_add_entry (sv_schedule sv) mi ?t (compute_wakeup_sigma delta) random = Some s" "sched_inv s"
    "timers s = timer_set (timers (sv_schedule sv)) mi ?t (compute_wakeup_sigma delta)"
    using add_entry_law [OF _ _ assms(3)] by blast
  have "dom (timers s) \<subseteq> {i. live sv i}" unfolding s(3) using p(11) assms(2)
    by (auto simp: timer_set_def split: option.splits if_splits)
  then have "core_inv X (?sv\<lparr>sv_schedule := s\<rparr>)" using inv(1) s(2) unfolding core_inv_def by simp
  moreover have "iter_inv (?sv\<lparr>sv_schedule := s\<rparr>)" using inv(2) by (simp add: iter_inv_def)
  ultimately have "server_inv X (?sv\<lparr>sv_schedule := s\<rparr>)" by (simp add: server_inv_def)
  moreover have "multi_schedule_context_wakeup sv mi clock delta random = Some (?sv\<lparr>sv_schedule := s\<rparr>)"
    using c(1) s(1) by (simp add: multi_schedule_context_wakeup_def Let_def)
  ultimately show ?thesis by blast
qed

lemma wakeup_ok:
  assumes "server_inv X sv" "live sv mi" "draws_ok (card {i. live sv i}) random"
  shows "\<exists>sv'. multi_schedule_context_wakeup sv mi clock delta random = Some sv' \<and> server_inv X sv' \<and> live sv' = live sv \<and>
    sv_m sv' = sv_m sv"
proof -
  obtain c s where "multi_schedule_context_wakeup sv mi clock delta random = Some (sv\<lparr>sv_c := (sv_c sv)(mi := c), sv_schedule := s\<rparr>)"
    "server_inv X (sv\<lparr>sv_c := (sv_c sv)(mi := c), sv_schedule := s\<rparr>)"
    using wakeup_runs [OF assms, of clock delta] by blast
  then show ?thesis by simp
qed

definition post_ok :: "server \<Rightarrow> post_env \<Rightarrow> bool" where
  "post_ok sv env \<longleftrightarrow> roomy sv \<and> handlers_fine (pe_handlers env) \<and> draws_ok (card {i. live sv i}) (pe_random env)"

lemma fewer_trans: "fewer mi sv sv1 \<Longrightarrow> fewer mi sv1 sv2 \<Longrightarrow> fewer mi sv sv2"
  by (auto simp: fewer_def)

lemma draws_fewer:
  assumes "draws_ok (card {i. live sv i}) rs" "fewer mi sv sv'" "finite {i. live sv i}"
  shows "draws_ok (card {i. live sv' i}) rs"
proof -
  have "card {i. live sv' i} \<le> card {i. live sv i}" using assms(2,3) by (intro card_mono) (auto simp: fewer_def)
  then show ?thesis using assms(1) by (simp add: draws_ok_def)
qed

lemma serve_ok:
  assumes "server_inv X sv" "live sv mi" "post_ok sv env"
  shows "\<exists>sv'. serve_instance sv nw sc mi env = Some sv' \<and> server_inv X sv' \<and> fewer mi sv sv'"
proof -
  note c = server_client [OF assms(1,2) keeps_done_simps(3), of env]
  let ?sv = "sv\<lparr>sv_c := (sv_c sv)(mi := tls_progress env (sv_c sv mi))\<rparr>"
  have lv: "live ?sv mi" "fewer mi sv ?sv" "roomy ?sv" using assms(2,3) by (simp_all add: fewer_def post_ok_def roomy_def)
  have at: "client_at ?sv mi = Some (sv_c ?sv mi)" using opened_heap [OF lv(1)] by (auto simp: client_at_def)
  have "\<exists>sv1. (if is_cas_pending (cl_multi_state (sv_c ?sv mi)) then multi_connection_established ?sv nw sc mi env else Some ?sv) = Some sv1 \<and>
      server_inv X sv1 \<and> fewer mi sv sv1"
    using connection_established_ok [OF c(2) lv(1) _ lv(3), of env nw sc] fewer_trans [OF lv(2)] c(2) lv(2) assms(3)
    by (cases "is_cas_pending (cl_multi_state (sv_c ?sv mi))") (auto simp: post_ok_def)
  then obtain sv1 where sv1: "(if is_cas_pending (cl_multi_state (sv_c ?sv mi)) then multi_connection_established ?sv nw sc mi env
      else Some ?sv) = Some sv1" "server_inv X sv1" "fewer mi sv sv1" by blast
  have "finite {i. live sv i}" using assms(1) by (simp add: server_inv_def core_inv_def)
  then have "draws_ok (card {i. live sv1 i}) (pe_random env)" using draws_fewer [OF _ sv1(3)] assms(3) by (simp add: post_ok_def)
  moreover have "live sv1 mi" using sv1(3) by (simp add: fewer_def)
  ultimately obtain sv2 where sv2: "multi_schedule_context_wakeup sv1 mi (pe_gettimeofday env) (pe_timeval env) (pe_random env) = Some sv2"
    "server_inv X sv2" "live sv2 = live sv1" using wakeup_ok [OF sv1(2)] by blast
  have "fewer mi sv sv2" using sv1(3) sv2(3) by (simp add: fewer_def)
  then show ?thesis unfolding serve_instance_def c(1) bind.bind_lunit at sv1(1) sv2(1) using sv2(2) c(2) lv(2)
    by (cases "pe_signal_selected env") auto
qed

lemma server_pending: "server_inv X sv \<Longrightarrow> (\<forall>i. p = Some i \<longrightarrow> live sv i) \<Longrightarrow> server_inv X (sv\<lparr>sv_pending := p\<rparr>)"
  by (simp add: server_inv_def core_inv_def iter_inv_def)

lemma process_post_ok:
  assumes "server_inv X sv" "live sv mi" "post_ok sv env"
  shows "\<exists>ret sv'. multi_process_post sv nw sc mi flags env = Some (ret, sv') \<and> server_inv X sv' \<and>
    (\<forall>i. live sv' i \<longrightarrow> live sv i)"
proof -
  have at: "client_at sv mi = Some (sv_c sv mi)" using opened_heap [OF assms(2)] by (auto simp: client_at_def)
  define PRE where "PRE = (if \<not> pe_signal_before env \<and>
      (flags AND MPP_PRE_SELECT \<noteq> 0 \<or> flags AND MPP_CONDITIONAL_PRE_SELECT \<noteq> 0 \<and> \<not> pe_any_out_before env)
    then serve_instance sv nw sc mi env else Some sv)"
  have "fewer mi sv sv" using assms(2) by (simp add: fewer_def)
  then have "\<exists>sv1. PRE = Some sv1 \<and> server_inv X sv1 \<and> fewer mi sv sv1"
    using serve_ok [OF assms, of nw sc] assms(1) unfolding PRE_def by simp
  then obtain sv1 where sv1: "PRE = Some sv1" "server_inv X sv1" "fewer mi sv sv1" by blast
  have lv: "live sv1 mi" "\<forall>i. live sv1 i \<longrightarrow> live sv i" using sv1(3) by (auto simp: fewer_def)
  obtain sv2 where sv2: "multi_close_instance sv1 nw mi False = Some sv2" "server_inv (X - {mi}) sv2" "closes {mi} sv1 sv2"
    by (rule close_server [OF sv1(2) lv(1)])
  have c: "server_inv X sv2" "\<forall>i. live sv2 i \<longrightarrow> live sv i" using server_mono [OF sv2(2)] sv2(3) lv(2) by (auto simp: closes_def)
  have pnd: "server_inv X (sv1\<lparr>sv_pending := (if pe_any_out env then Some mi else None)\<rparr>)"
    by (rule server_pending [OF sv1(2)]) (use lv(1) in auto)
  have run: "multi_process_post sv nw sc mi flags env =
      (if pe_signal env
       then if flags AND MPP_CLOSE_ON_SIGNAL \<noteq> 0 then Some (False, sv2) else Some (True, sv1)
       else Some (True, sv1\<lparr>sv_pending := (if pe_any_out env then Some mi else None)\<rparr>))"
    unfolding multi_process_post_def at bind.bind_lunit PRE_def [symmetric] sv1(1)
    by (simp add: multi_close_instance_on_signal_def sv2(1))
  show ?thesis unfolding run using sv1(2) lv(2) c pnd by auto
qed

section \<open>New clients\<close>

lemma sched_new_entry:
  assumes "sched_inv s" "timers s e = None" "idle x"
  shows "sched_inv (upd s e (\<lambda>_. x))" "timers (upd s e (\<lambda>_. x)) = timers s"
proof -
  let ?s = "upd s e (\<lambda>_. x)"
  obtain t where t: "treap_but {} s t"
    "earliest_wakeup s = None \<or> inorder t \<noteq> [] \<and> earliest_wakeup s = Some (hd (inorder t))"
    using assms(1) by (auto simp: sched_inv_def)
  have "e \<notin> set_tree t" using timers_treap(1) [OF t(1)] assms(2) by blast
  then have e: "y \<in> set_tree t \<Longrightarrow> entries ?s y = entries s y" for y by (auto simp: upd_def)
  have "sch_root ?s = sch_root s" by (simp add: upd_def)
  then have "is_tree ?s t \<longleftrightarrow> is_tree s t" by (intro is_tree_cong) (simp_all only: e same_links_def)
  moreover have "Schedule.heap (pri_of ?s) t = Schedule.heap (pri_of s) t" by (rule heap_cong) (simp only: pri_of_def e)
  moreover have "ordered ?s t \<longleftrightarrow> ordered s t" by (rule ordered_cong) (simp only: e)
  moreover have "\<forall>y. y \<notin> set_tree t \<longrightarrow> idle (entries ?s y)"
    using t(1) assms(3) by (simp add: treap_but_def upd_def)
  moreover have "\<forall>y \<in> set_tree t. se_pri (entries ?s y) \<noteq> 0" using t(1) e unfolding treap_but_def by metis
  ultimately have "treap_but {} ?s t" using t(1) unfolding treap_but_def ordered_def by simp
  then show "sched_inv ?s" using t(2) unfolding sched_inv_def by (intro exI [of _ t]) (simp add: upd_def)
  show "timers ?s = timers s"
  proof
    fix y
    show "timers ?s y = timers s y"
      using assms(2,3) by (cases "y = e") (auto simp: timers_def upd_def IN_TREE_def idle_def split: if_splits)
  qed
qed

definition env_fine :: "instance_env \<Rightarrow> bool" where
  "env_fine ie \<longleftrightarrow> client_ok (ie_routing ie) \<and> size (lengths_of (iroute_items (ie_routing ie))) \<le> 2 ^ 20 \<and>
     length (co_push_ifconfig_ipv6_local (ie_config ie)) = 16"

definition new_client :: "instance_env \<Rightarrow> mroute_addr \<Rightarrow> client" where
  "new_client ie real = cleared_client\<lparr>cl_vaddr_handle := - 1, cl_real := real, cl_config := ie_config ie\<rparr>"

lemma new_client_simps [simp]:
  "\<not> cl_did_real_hash (new_client ie real)" "\<not> cl_did_iter (new_client ie real)" "\<not> cl_did_cid_hash (new_client ie real)"
  "cl_peer_id (new_client ie real) = 0" "cl_vaddr_handle (new_client ie real) = - 1" "cl_real (new_client ie real) = real"
  "cl_multi_state (new_client ie real) = CAS_NOT_CONNECTED" "cl_config (new_client ie real) = ie_config ie"
  by (simp_all add: new_client_def cleared_client_def)

lemma opened_new: "\<not> mi_halt y \<Longrightarrow> opened (m\<lparr>m_heap := (m_heap m)(mi \<mapsto> y)\<rparr>) i \<longleftrightarrow> opened m i \<or> i = mi"
  by (auto simp: opened_def)

lemma new_instance_ok:
  assumes "server_inv {} sv" "m_heap (sv_m sv) (ie_address ie) = None" "env_fine ie"
  obtains m sc where "new_instance sv ie real =
      Some (sv\<lparr>sv_m := m, sv_c := (sv_c sv)(ie_address ie := new_client ie real), sv_schedule := sc\<rparr>)"
    "server_inv {ie_address ie} (sv\<lparr>sv_m := m, sv_c := (sv_c sv)(ie_address ie := new_client ie real), sv_schedule := sc\<rparr>)"
    "\<forall>i. opened m i \<longleftrightarrow> live sv i \<or> i = ie_address ie" "load m = load (sv_m sv)" "installed m = installed (sv_m sv)"
    "m_local m = m_local (sv_m sv)" "timers sc = timers (sv_schedule sv)"
proof -
  let ?mi = "ie_address ie"
  have inv: "core_inv {} sv" "iter_inv sv" using assms(1) by (auto simp: server_inv_def)
  note p = core_parts [OF inv(1)]
  have dead: "\<not> live sv ?mi" using assms(2) by (simp add: opened_def)
  let ?y = "(ie_routing ie)\<lparr>mi_halt := False, mi_refcount := 1, mi_route_count := 0, mi_did_iroutes := False\<rparr>"
  have fine: "client_ok (ie_routing ie)" using assms(3) by (simp add: env_fine_def)
  obtain m where m: "create_instance (sv_m sv) ?mi (ie_routing ie) = Some m" "table_inv m" "installed m = installed (sv_m sv)"
    "m = (sv_m sv)\<lparr>m_heap := (m_heap (sv_m sv))(?mi \<mapsto> ?y)\<rparr>" using create_ok [OF p(1) assms(2) fine] by blast
  have "timers (sv_schedule sv) ?mi = None" using p(11) dead by blast
  from sched_new_entry [OF p(4) this, of cleared_entry] have sc: "sched_inv (upd (sv_schedule sv) ?mi (\<lambda>_. cleared_entry))"
    "timers (upd (sv_schedule sv) ?mi (\<lambda>_. cleared_entry)) = timers (sv_schedule sv)"
    by (simp_all add: idle_def cleared_entry_def)
  let ?sc = "upd (sv_schedule sv) ?mi (\<lambda>_. cleared_entry)"
  let ?c = "(sv_c sv)(?mi := new_client ie real)"
  let ?sv = "sv\<lparr>sv_m := m, sv_c := ?c, sv_schedule := ?sc\<rparr>"
  have lv: "opened m i \<longleftrightarrow> live sv i \<or> i = ?mi" for i unfolding m(4) by (rule opened_new) simp
  have cm: "claims m = claims (sv_m sv)" unfolding m(4) using assms(2) by (auto simp: claims_def fun_eq_iff)
  have ld: "load m = load (sv_m sv)" by (rule load_same [OF cm]) (simp add: m(4))
  have c: "i \<noteq> ?mi \<Longrightarrow> ?c i = sv_c sv i" "?c ?mi = new_client ie real" for i by simp_all
  have it: "iroute_items ?y = iroute_items (ie_routing ie)" by (simp add: iroute_items_def)
  have "core_inv {?mi} ?sv" unfolding core_inv_def
  proof (intro conjI allI impI)
    show "table_inv (sv_m ?sv)" "load (sv_m ?sv) < 2 ^ 32" using m(2) ld p(2) by simp_all
    show "instance_ok (sv_c ?sv i) x" if "m_heap (sv_m ?sv) i = Some x \<and> \<not> mi_halt x" for i x
    proof (cases "i = ?mi")
      case True
      then have "x = ?y" using that by (simp add: m(4))
      then show ?thesis using True assms(3) it by (simp add: instance_ok_def env_fine_def)
    next
      case False
      then show ?thesis using p(12) [of i x] that by (simp add: m(4))
    qed
    have "{i. live ?sv i} = insert ?mi {i. live sv i}" using lv by auto
    then show "finite {i. live ?sv i}" using p(3) by simp
    show "index_ok (sv_hash ?sv) (\<lambda>i. live ?sv i \<and> cl_did_real_hash (sv_c ?sv i)) (\<lambda>i. cl_real (sv_c ?sv i))"
      using p(6) dead by (subst index_cong [of _ "\<lambda>i. live sv i \<and> cl_did_real_hash (sv_c sv i)" "\<lambda>i. cl_real (sv_c sv i)"]) (auto simp: lv)
    show "index_ok (sv_cid_hash ?sv) (\<lambda>i. live ?sv i \<and> cl_did_cid_hash (sv_c ?sv i)) (\<lambda>i. cl_cid (sv_c ?sv i))"
      using p(7) dead by (subst index_cong [of _ "\<lambda>i. live sv i \<and> cl_did_cid_hash (sv_c sv i)" "\<lambda>i. cl_cid (sv_c sv i)"]) (auto simp: lv)
    have "0 < length (sv_instances sv)" using p(16,17) by linarith
    then show "slots_ok (sv_instances ?sv) (live ?sv) (\<lambda>i. cl_peer_id (sv_c ?sv i))"
      using p(8) dead unfolding slots_ok_def by (auto simp: lv)
    show "0 < sv_max_clients ?sv" "int (length (sv_instances ?sv)) = sv_max_clients ?sv" using p(16,17) by simp_all
    show "sched_inv (sv_schedule ?sv)" "dom (timers (sv_schedule ?sv)) \<subseteq> {i. live ?sv i}"
      using sc p(11) by (auto simp: lv)
    show "queue_ok (sv_mbufs ?sv) (sv_mbuf ?sv) (\<lambda>_. 0)" "queue_live (sv_mbuf ?sv) (live ?sv)"
      using p(5,10) by (auto simp: queue_live_def lv)
    show "pool_ok (sv_ifconfig_pool ?sv) (live ?sv) (\<lambda>i. cl_vaddr_handle (sv_c ?sv i))"
      using p(9) unfolding pool_ok_def by (auto simp: lv split: if_splits)
    show "live ?sv i" if "sv_pending ?sv = Some i" for i using that p(14) [of i] by (simp add: lv)
    show "live ?sv i" if "sv_earliest_wakeup ?sv = Some i" for i using that p(15) [of i] by (simp add: lv)
    show "settled (sv_c ?sv i)" if "live ?sv i \<and> i \<notin> {?mi}" for i using that p(13) [of i] by (auto simp: lv)
  qed
  moreover have "iter_inv ?sv" using inv(2) dead unfolding iter_inv_def
    by (subst index_cong [of _ "\<lambda>i. live sv i \<and> cl_did_iter (sv_c sv i)" "\<lambda>i. cl_real (sv_c sv i)"]) (auto simp: lv)
  ultimately have "server_inv {?mi} ?sv" by (simp add: server_inv_def)
  moreover have "new_instance sv ie real = Some ?sv" using m(1) by (simp add: new_instance_def new_client_def)
  ultimately show ?thesis by (intro that [where m = m and sc = ?sc]) (use lv ld m(3,4) sc(2) in simp_all)
qed

lemma cid_loop_found:
  assumes "table_ok h" "\<forall>n < k. table_map h (counter + word_of_nat n) \<noteq> None" "table_map h (counter + word_of_nat k) = None"
  shows "\<exists>h'. cid_loop h counter mi = Some (counter + word_of_nat k, counter + word_of_nat k + 1, h') \<and> table_ok h' \<and>
    table_map h' = (table_map h)(counter + word_of_nat k \<mapsto> mi)"
  using assms
proof (induction k arbitrary: h counter)
  case 0
  then show ?case using table_add [of h counter mi False] by (subst cid_loop.simps) (auto split: prod.splits)
next
  case (Suc k)
  obtain v where v: "table_map h counter = Some v" using Suc.prems(2) by auto
  obtain h1 where h1: "hash_add h counter mi False = (False, h1)" "table_ok h1" "table_map h1 = table_map h"
    using table_add [OF Suc.prems(1), of counter mi False] v by (cases "hash_add h counter mi False") auto
  have "\<forall>n < k. table_map h1 (counter + 1 + word_of_nat n) \<noteq> None" "table_map h1 (counter + 1 + word_of_nat k) = None"
    using Suc.prems(2,3) h1(3) by (auto simp: add.assoc simp flip: of_nat_Suc)
  from Suc.IH [OF h1(2) this] show ?case unfolding h1(3)
    by (subst cid_loop.simps) (simp add: h1(1) add.assoc del: fun_upd_apply)
qed

lemma cid_loop_ok:
  assumes "table_ok h" "dom (table_map h) \<noteq> UNIV"
  obtains cid c h' where "cid_loop h counter mi = Some (cid, c, h')" "table_ok h'" "table_map h cid = None"
    "table_map h' = (table_map h)(cid \<mapsto> mi)"
proof -
  let ?free = "\<lambda>n. table_map h (counter + word_of_nat n) = None"
  obtain id where id: "table_map h id = None" using assms(2) by auto
  have "?free (unat (id - counter))" using id by simp
  then have l: "?free (LEAST n. ?free n)" by (rule LeastI)
  have "\<forall>n < (LEAST n. ?free n). table_map h (counter + word_of_nat n) \<noteq> None" using not_less_Least by blast
  from cid_loop_found [OF assms(1) this l] show ?thesis using that l by blast
qed

lemma table_card:
  assumes "table_ok h"
  shows "int (card (dom (table_map h))) \<le> n_elements h"
proof -
  let ?f = "\<lambda>i. (\<lambda>he. the (he_key he)) ` set (buckets h ! i)"
  have "dom (table_map h) \<subseteq> (\<Union>i \<in> {..<length (buckets h)}. ?f i)"
  proof
    fix k assume "k \<in> dom (table_map h)"
    then obtain v where "table_map h k = Some v" by blast
    then obtain i he where "i < length (buckets h)" "he \<in> set (buckets h ! i)" "he_key he = Some k"
      unfolding table_element [OF assms] by blast
    then show "k \<in> (\<Union>i \<in> {..<length (buckets h)}. ?f i)" by force
  qed
  then have "card (dom (table_map h)) \<le> card (\<Union>i \<in> {..<length (buckets h)}. ?f i)" by (intro card_mono) simp_all
  also have "\<dots> \<le> (\<Sum>i \<in> {..<length (buckets h)}. card (?f i))" by (rule card_UN_le) simp
  also have "\<dots> \<le> (\<Sum>i \<in> {..<length (buckets h)}. length (buckets h ! i))"
    by (rule sum_mono) (meson card_image_le card_length finite_set le_trans)
  finally have "int (card (dom (table_map h))) \<le> (\<Sum>i \<in> {..<length (buckets h)}. int (length (buckets h ! i)))"
    by (simp flip: of_nat_sum)
  also have "\<dots> = (\<Sum>b \<leftarrow> buckets h. int (length b))" by (simp add: sum_list_sum_nth atLeast0LessThan)
  also have "\<dots> = n_elements h" using assms by (simp add: table_ok_def hash_ok_def)
  finally show ?thesis .
qed

lemma indexed_card: "indexed t S ky \<Longrightarrow> card (dom t) = card {i. S i}"
proof -
  assume t: "indexed t S ky"
  have "dom t = ky ` {i. S i}" using t by (auto simp: indexed_def dom_def image_iff)
  moreover have "inj_on ky {i. S i}" using t unfolding indexed_def inj_on_def by (metis mem_Collect_eq option.inject)
  ultimately show ?thesis by (simp add: card_image)
qed

lemma cids_left:
  assumes "core_inv {mi} sv" "\<not> cl_did_cid_hash (sv_c sv mi)" "n_elements (sv_hash sv) < sv_max_clients sv"
  shows "dom (table_map (sv_cid_hash sv)) \<noteq> UNIV"
proof -
  note p = core_parts [OF assms(1)]
  let ?C = "{i. live sv i \<and> cl_did_cid_hash (sv_c sv i)}" and ?R = "{i. live sv i \<and> cl_did_real_hash (sv_c sv i)}"
  have "?C \<subseteq> ?R" using p(13) assms(2) by (auto simp: settled_def)
  moreover have "finite ?R" using p(3) by (rule rev_finite_subset) auto
  ultimately have "card ?C \<le> card ?R" by (rule card_mono [rotated])
  moreover have "card (dom (table_map (sv_cid_hash sv))) = card ?C" "card (dom (table_map (sv_hash sv))) = card ?R"
    using p(6,7) by (auto simp: index_ok_def intro: indexed_card)
  moreover have "int (card (dom (table_map (sv_hash sv)))) \<le> n_elements (sv_hash sv)"
    using p(6) by (intro table_card) (simp add: index_ok_def)
  moreover have "sv_max_clients sv < 2 ^ 24" using p(8,17) by (simp add: slots_ok_def MAX_PEER_ID_def)
  ultimately have c: "card (dom (table_map (sv_cid_hash sv))) < 16777216" using assms(3) by simp
  show ?thesis
  proof
    assume "dom (table_map (sv_cid_hash sv)) = UNIV"
    then have "card (UNIV :: 64 word set) < 16777216" using c by simp
    then show False by (simp add: card_word)
  qed
qed

text \<open>The first packet of a client does not authenticate it, so that only its timer is set.\<close>

definition same_place :: "client \<Rightarrow> client \<Rightarrow> bool" where
  "same_place c c' \<longleftrightarrow> cl_did_real_hash c' = cl_did_real_hash c \<and> cl_did_iter c' = cl_did_iter c \<and>
     cl_did_cid_hash c' = cl_did_cid_hash c \<and> cl_real c' = cl_real c \<and> cl_from c' = cl_from c \<and>
     cl_cid c' = cl_cid c \<and> cl_peer_id c' = cl_peer_id c \<and> cl_vaddr_handle c' = cl_vaddr_handle c \<and> cl_config c' = cl_config c"

lemma post_first:
  assumes "server_inv X sv" "live sv mi" "cl_multi_state (sv_c sv mi) = CAS_NOT_CONNECTED" "\<not> pe_authenticated env"
    "draws_ok (card {i. live sv i}) (pe_random env)"
  obtains c s p where "multi_process_post sv nw sc mi MPP_PRE_SELECT env =
      Some (True, sv\<lparr>sv_c := (sv_c sv)(mi := c), sv_schedule := s, sv_pending := p\<rparr>)" "same_place (sv_c sv mi) c"
    "server_inv X (sv\<lparr>sv_c := (sv_c sv)(mi := c), sv_schedule := s, sv_pending := p\<rparr>)"
proof -
  have at: "client_at sv mi = Some (sv_c sv mi)" using opened_heap [OF assms(2)] by (auto simp: client_at_def)
  note t = server_client [OF assms(1,2) keeps_done_simps(3), of env]
  let ?c = "tls_progress env (sv_c sv mi)"
  let ?sv = "sv\<lparr>sv_c := (sv_c sv)(mi := ?c)\<rparr>"
  have st: "cl_multi_state ?c = CAS_WAITING_AUTH" "same_place (sv_c sv mi) ?c"
    using assms(3,4) by (auto simp: tls_progress_def Let_def same_place_def)
  have at': "client_at ?sv mi = Some ?c" using opened_heap [OF assms(2)] by (auto simp: client_at_def)
  have lv: "live ?sv mi" "draws_ok (card {i. live ?sv i}) (pe_random env)" using assms(2,5) by simp_all
  obtain c s where w: "multi_schedule_context_wakeup ?sv mi (pe_gettimeofday env) (pe_timeval env) (pe_random env) =
      Some (?sv\<lparr>sv_c := (sv_c ?sv)(mi := c), sv_schedule := s\<rparr>)" "c = (sv_c ?sv mi)\<lparr>cl_wakeup := tv_add (pe_gettimeofday env) (pe_timeval env)\<rparr>"
    "server_inv X (?sv\<lparr>sv_c := (sv_c ?sv)(mi := c), sv_schedule := s\<rparr>)" using wakeup_runs [OF t(2) lv] by blast
  have "\<exists>c s. serve_instance sv nw sc mi env = Some (sv\<lparr>sv_c := (sv_c sv)(mi := c), sv_schedule := s\<rparr>) \<and> same_place (sv_c sv mi) c \<and>
      server_inv X (sv\<lparr>sv_c := (sv_c sv)(mi := c), sv_schedule := s\<rparr>)"
  proof (cases "pe_signal_selected env")
    case True
    then have "serve_instance sv nw sc mi env = Some (sv\<lparr>sv_c := (sv_c sv)(mi := ?c), sv_schedule := sv_schedule sv\<rparr>)"
      by (simp add: serve_instance_def t(1))
    then show ?thesis using st(2) t(2) by (intro exI [of _ ?c] exI [of _ "sv_schedule sv"]) simp
  next
    case False
    then have "serve_instance sv nw sc mi env = Some (sv\<lparr>sv_c := (sv_c sv)(mi := c), sv_schedule := s\<rparr>)"
      unfolding serve_instance_def t(1) bind.bind_lunit at' st(1) using w(1) st(1) by (simp add: is_cas_pending_def)
    moreover have "same_place (sv_c sv mi) c" using st(2) w(2) by (simp add: same_place_def)
    ultimately show ?thesis using w(3) by (intro exI [of _ c] exI [of _ s]) simp
  qed
  then obtain c1 s1 where c1: "serve_instance sv nw sc mi env = Some (sv\<lparr>sv_c := (sv_c sv)(mi := c1), sv_schedule := s1\<rparr>)"
    "same_place (sv_c sv mi) c1" "server_inv X (sv\<lparr>sv_c := (sv_c sv)(mi := c1), sv_schedule := s1\<rparr>)" by blast
  have fl: "MPP_PRE_SELECT AND MPP_PRE_SELECT \<noteq> 0" "MPP_PRE_SELECT AND MPP_CLOSE_ON_SIGNAL = 0"
    by (simp_all add: MPP_PRE_SELECT_def MPP_CLOSE_ON_SIGNAL_def)
  obtain c2 s2 where c2: "(if \<not> pe_signal_before env \<and>
       (MPP_PRE_SELECT AND MPP_PRE_SELECT \<noteq> 0 \<or> MPP_PRE_SELECT AND MPP_CONDITIONAL_PRE_SELECT \<noteq> 0 \<and> \<not> pe_any_out_before env)
     then serve_instance sv nw sc mi env else Some sv) = Some (sv\<lparr>sv_c := (sv_c sv)(mi := c2), sv_schedule := s2\<rparr>)"
    "same_place (sv_c sv mi) c2" "server_inv X (sv\<lparr>sv_c := (sv_c sv)(mi := c2), sv_schedule := s2\<rparr>)"
  proof (cases "pe_signal_before env")
    case True
    then show ?thesis using that [of "sv_schedule sv" "sv_c sv mi"] assms(1) by (simp add: same_place_def)
  next
    case False
    then show ?thesis using that [OF _ c1(2,3)] c1(1) fl(1) by simp
  qed
  let ?sv2 = "sv\<lparr>sv_c := (sv_c sv)(mi := c2), sv_schedule := s2\<rparr>"
  define p where "p = (if pe_signal env then sv_pending sv else if pe_any_out env then Some mi else None)"
  have "sv\<lparr>sv_c := (sv_c sv)(mi := c2), sv_schedule := s2, sv_pending := sv_pending sv\<rparr> = ?sv2" by simp
  then have run: "multi_process_post sv nw sc mi MPP_PRE_SELECT env =
      Some (True, sv\<lparr>sv_c := (sv_c sv)(mi := c2), sv_schedule := s2, sv_pending := p\<rparr>)"
    unfolding multi_process_post_def at bind.bind_lunit c2(1) using fl(2) by (simp add: p_def)
  have "\<forall>i. p = Some i \<longrightarrow> live ?sv2 i" using core_parts(14) [of X sv] assms(1,2) by (auto simp: p_def server_inv_def)
  from server_pending [OF c2(3) this] show ?thesis using that [OF run c2(2)] by simp
qed

lemma core_cid:
  assumes "core_inv X sv" "mi \<in> X" "live sv mi" "\<not> cl_did_cid_hash (sv_c sv mi)" "table_map (sv_cid_hash sv) cid = None"
    "table_ok h" "table_map h = (table_map (sv_cid_hash sv))(cid \<mapsto> mi)"
  shows "core_inv X (sv\<lparr>sv_cid_hash := h, sv_cid_counter := n,
    sv_c := (sv_c sv)(mi := (sv_c sv mi)\<lparr>cl_cid := cid, cl_did_cid_hash := True\<rparr>)\<rparr>)"
proof -
  let ?c = "(sv_c sv)(mi := (sv_c sv mi)\<lparr>cl_cid := cid, cl_did_cid_hash := True\<rparr>)"
  note p = core_parts [OF assms(1)]
  have e: "cl_did_real_hash (?c i) = cl_did_real_hash (sv_c sv i)" "cl_real (?c i) = cl_real (sv_c sv i)"
    "cl_peer_id (?c i) = cl_peer_id (sv_c sv i)" "cl_vaddr_handle (?c i) = cl_vaddr_handle (sv_c sv i)"
    "instance_ok (?c i) = instance_ok (sv_c sv i)" "i \<notin> X \<Longrightarrow> settled (?c i) = settled (sv_c sv i)" for i
    using assms(2) by (auto simp: instance_ok_def fun_eq_iff)
  have "indexed (table_map (sv_cid_hash sv)) (\<lambda>i. live sv i \<and> cl_did_cid_hash (sv_c sv i)) (\<lambda>i. cl_cid (sv_c sv i))"
    using p(7) by (simp add: index_ok_def)
  from indexed_add [OF this assms(5), of mi] assms(4)
  have "indexed (table_map h) (\<lambda>j. live sv j \<and> cl_did_cid_hash (sv_c sv j) \<or> j = mi) ((\<lambda>i. cl_cid (sv_c sv i))(mi := cid))"
    unfolding assms(7) by blast
  then have "index_ok h (\<lambda>j. live sv j \<and> cl_did_cid_hash (sv_c sv j) \<or> j = mi) ((\<lambda>i. cl_cid (sv_c sv i))(mi := cid))"
    using assms(6) by (simp add: index_ok_def)
  then have "index_ok h (\<lambda>j. live sv j \<and> cl_did_cid_hash (?c j)) (\<lambda>i. cl_cid (?c i))"
    by (subst index_cong [of _ "\<lambda>j. live sv j \<and> cl_did_cid_hash (sv_c sv j) \<or> j = mi" "(\<lambda>i. cl_cid (sv_c sv i))(mi := cid)"])
       (use assms(3) in auto)
  then show ?thesis using assms(1) unfolding core_inv_def by (simp add: e del: fun_upd_apply)
qed

text \<open>The instance after \<open>multi_create_instance\<close>, which the caller completes.\<close>

definition created :: "server \<Rightarrow> nat \<Rightarrow> mroute_addr \<Rightarrow> server \<Rightarrow> bool" where
  "created sv mi real sv' \<longleftrightarrow> server_inv {mi} sv' \<and> (\<forall>i. live sv' i \<longleftrightarrow> live sv i \<or> i = mi) \<and>
     (\<forall>i. i \<noteq> mi \<longrightarrow> sv_c sv' i = sv_c sv i) \<and> \<not> cl_did_real_hash (sv_c sv' mi) \<and> cl_did_iter (sv_c sv' mi) \<and>
     cl_did_cid_hash (sv_c sv' mi) \<and> cl_real (sv_c sv' mi) = real \<and> cl_peer_id (sv_c sv' mi) = 0 \<and>
     sv_hash sv' = sv_hash sv \<and> table_map (sv_hash sv) real = None \<and> sv_instances sv' = sv_instances sv \<and>
     sv_max_clients sv' = sv_max_clients sv \<and> sv_mbuf sv' = sv_mbuf sv \<and> sv_mbufs sv' = sv_mbufs sv \<and>
     load (sv_m sv') = load (sv_m sv) \<and> n_elements (sv_hash sv) < sv_max_clients sv"

lemma settled_tables:
  assumes "server_inv {} sv" "table_map (sv_iter sv) real = None"
  shows "table_map (sv_hash sv) real = None"
proof (rule ccontr)
  assume "table_map (sv_hash sv) real \<noteq> None"
  then obtain i where "table_map (sv_hash sv) real = Some i" by blast
  then have "live sv i" "cl_real (sv_c sv i) = real" "settled (sv_c sv i)"
    using assms(1) by (auto simp: server_inv_def core_inv_def index_ok_def indexed_def)
  then have "table_map (sv_iter sv) real = Some i"
    using assms(1) by (auto simp: server_inv_def iter_inv_def index_ok_def indexed_def settled_def)
  then show False using assms(2) by simp
qed

lemma create_server:
  assumes "server_inv {} sv" "m_heap (sv_m sv) (ie_address ie) = None" "env_fine ie" "\<not> pe_authenticated (ie_post ie)"
    "draws_ok (Suc (card {i. live sv i})) (pe_random (ie_post ie))"
  shows "(\<exists>sv'. multi_create_instance sv nw sc ie real = Some (None, sv') \<and> server_inv {} sv' \<and> (\<forall>i. live sv' i \<longleftrightarrow> live sv i)) \<or>
    (\<exists>sv'. multi_create_instance sv nw sc ie real = Some (Some (ie_address ie), sv') \<and> created sv (ie_address ie) real sv')"
proof -
  let ?mi = "ie_address ie"
  have dead: "\<not> live sv ?mi" using assms(2) by (simp add: opened_def)
  have "iter_inv sv" using assms(1) by (simp add: server_inv_def)
  obtain m s where n: "new_instance sv ie real = Some (sv\<lparr>sv_m := m, sv_c := (sv_c sv)(?mi := new_client ie real), sv_schedule := s\<rparr>)"
    "server_inv {?mi} (sv\<lparr>sv_m := m, sv_c := (sv_c sv)(?mi := new_client ie real), sv_schedule := s\<rparr>)"
    "\<forall>i. opened m i \<longleftrightarrow> live sv i \<or> i = ?mi" "load m = load (sv_m sv)"
    by (rule new_instance_ok [OF assms(1-3)])
  define sv1 where "sv1 = sv\<lparr>sv_m := m, sv_c := (sv_c sv)(?mi := new_client ie real), sv_schedule := s\<rparr>"
  have f1: "sv_m sv1 = m" "sv_c sv1 ?mi = new_client ie real" "sv_hash sv1 = sv_hash sv" "sv_max_clients sv1 = sv_max_clients sv"
    "sv_iter sv1 = sv_iter sv" "\<And>i. i \<noteq> ?mi \<Longrightarrow> sv_c sv1 i = sv_c sv i" "sv_mbuf sv1 = sv_mbuf sv" "sv_mbufs sv1 = sv_mbufs sv"
    "sv_instances sv1 = sv_instances sv" by (simp_all add: sv1_def)
  have n1: "new_instance sv ie real = Some sv1" "server_inv {?mi} sv1" "\<forall>i. live sv1 i \<longleftrightarrow> live sv i \<or> i = ?mi"
    using n by (simp_all add: sv1_def)
  have err: "\<exists>sv'. map_option (Pair None) (multi_close_instance svx nw ?mi False) = Some (None :: nat option, sv') \<and>
      server_inv {} sv' \<and> (\<forall>i. live sv' i \<longleftrightarrow> live sv i)" if si: "server_inv {?mi} svx" and sm: "sv_m svx = m" for svx
  proof -
    have lv: "live svx i \<longleftrightarrow> live sv i \<or> i = ?mi" for i using sm n1(3) f1(1) by simp
    have "live svx ?mi" using lv by blast
    from close_server [OF si this] obtain sv' where "multi_close_instance svx nw ?mi False = Some sv'" "server_inv ({?mi} - {?mi}) sv'" "closes {?mi} svx sv'" by blast
    then show ?thesis using lv dead by (auto simp: closes_def)
  qed
  note run = multi_create_instance_def [of sv nw sc ie real, unfolded n1(1) bind.bind_lunit Let_def]
  show ?thesis
  proof (cases "n_elements (sv_hash sv1) \<ge> sv_max_clients sv1")
    case True
    then show ?thesis using err [OF n1(2) f1(1)] unfolding run by simp
  next
    case room: False
    obtain b it where a: "hash_add (sv_iter sv1) real ?mi False = (b, it)" by fastforce
    have ti: "index_ok (sv_iter sv1) (\<lambda>i. live sv1 i \<and> cl_did_iter (sv_c sv1 i)) (\<lambda>i. cl_real (sv_c sv1 i))"
      using n1(2) by (simp add: server_inv_def iter_inv_def)
    then have "table_ok (sv_iter sv1)" by (simp add: index_ok_def)
    note ta = table_add [OF this, of real ?mi False, unfolded a fst_conv snd_conv simp_thms]
    show ?thesis
    proof (cases b)
      case no: False
      then have "table_map (sv_iter sv1) real \<noteq> None" using ta(1) by blast
      then have "table_map it = table_map (sv_iter sv1)" using ta(3) by (simp only: if_False)
      then have "index_ok it (\<lambda>i. live sv1 i \<and> cl_did_iter (sv_c sv1 i)) (\<lambda>i. cl_real (sv_c sv1 i))"
        using ta(2) ti by (simp add: index_ok_def)
      then have "server_inv {?mi} (sv1\<lparr>sv_iter := it\<rparr>)" using n1(2) by (simp add: server_inv_def iter_inv_def)
      from err [OF this] show ?thesis using no room a f1(1) unfolding run by simp
    next
      case ok: True
      then have none: "table_map (sv_iter sv) real = None" using ta(1) f1(5) by simp
      have n': "table_map (sv_iter sv1) real = None" using none f1(5) by simp
      have nd: "\<not> (live sv1 ?mi \<and> cl_did_iter (sv_c sv1 ?mi))" by (simp add: f1(2))
      have ia: "index_ok it (\<lambda>j. (live sv1 j \<and> cl_did_iter (sv_c sv1 j)) \<or> j = ?mi) ((\<lambda>i. cl_real (sv_c sv1 i))(?mi := real))"
        using index_add(2) [OF ti n' nd, of False] unfolding a snd_conv .
      let ?c2 = "(new_client ie real)\<lparr>cl_did_iter := True\<rparr>"
      define sv2 where "sv2 = sv1\<lparr>sv_iter := it, sv_c := (sv_c sv1)(?mi := ?c2)\<rparr>"
      have f2: "sv_m sv2 = m" "sv_c sv2 ?mi = ?c2" "sv_hash sv2 = sv_hash sv" "sv_max_clients sv2 = sv_max_clients sv"
        "sv_cid_hash sv2 = sv_cid_hash sv1" "sv_cid_counter sv2 = sv_cid_counter sv1" "\<And>i. i \<noteq> ?mi \<Longrightarrow> sv_c sv2 i = sv_c sv i"
        "sv_mbuf sv2 = sv_mbuf sv" "sv_mbufs sv2 = sv_mbufs sv" "sv_instances sv2 = sv_instances sv"
        using f1 by (simp_all add: sv2_def)
      have lv2: "live sv2 i \<longleftrightarrow> live sv i \<or> i = ?mi" for i using n1(3) f1(1) f2(1) by simp
      have "core_inv {?mi} (sv1\<lparr>sv_iter := it\<rparr>)" using n1(2) by (simp add: server_inv_def)
      then have "core_inv {?mi} ((sv1\<lparr>sv_iter := it\<rparr>)\<lparr>sv_c := (sv_c (sv1\<lparr>sv_iter := it\<rparr>))(?mi := ?c2)\<rparr>)"
        by (rule core_client) (use n1(3) f1(2) in \<open>auto simp: instance_ok_def\<close>)
      then have core2: "core_inv {?mi} sv2" by (simp add: sv2_def)
      have "iter_inv sv2" unfolding iter_inv_def using ia
        by (subst index_cong [of _ "\<lambda>j. live sv1 j \<and> cl_did_iter (sv_c sv1 j) \<or> j = ?mi" "(\<lambda>i. cl_real (sv_c sv1 i))(?mi := real)"])
           (use n1(3) in \<open>auto simp: sv2_def f1(2)\<close>)
      have d2: "\<not> cl_did_cid_hash (sv_c sv2 ?mi)" by (simp add: f2(2))
      have "n_elements (sv_hash sv2) < sv_max_clients sv2" using room f1 f2 by simp
      note left = cids_left [OF core2 d2 this]
      have "table_ok (sv_cid_hash sv2)" using core_parts(7) [OF core2] by (simp add: index_ok_def)
      from cid_loop_ok [OF this left, of "sv_cid_counter sv2" ?mi] obtain cid n h where
        cl: "cid_loop (sv_cid_hash sv2) (sv_cid_counter sv2) ?mi = Some (cid, n, h)" "table_ok h"
        "table_map (sv_cid_hash sv2) cid = None" "table_map h = (table_map (sv_cid_hash sv2))(cid \<mapsto> ?mi)" by metis
      let ?c3 = "(sv_c sv2 ?mi)\<lparr>cl_cid := cid, cl_did_cid_hash := True\<rparr>"
      define sv3 where "sv3 = sv2\<lparr>sv_cid_hash := h, sv_cid_counter := n, sv_c := (sv_c sv2)(?mi := ?c3)\<rparr>"
      have core3: "core_inv {?mi} sv3" unfolding sv3_def
        by (rule core_cid [OF core2 _ _ d2 cl(3,2,4)]) (simp_all add: lv2)
      have "iter_inv sv3" using \<open>iter_inv sv2\<close> unfolding iter_inv_def
        by (subst index_cong [of _ "\<lambda>i. live sv2 i \<and> cl_did_iter (sv_c sv2 i)" "\<lambda>i. cl_real (sv_c sv2 i)"]) (auto simp: sv3_def)
      then have s3: "server_inv {?mi} sv3" using core3 by (simp add: server_inv_def)
      have lv3: "live sv3 = live sv2" by (simp add: sv3_def)
      have m3: "live sv3 ?mi" using lv3 lv2 by simp
      have "{i. live sv3 i} = insert ?mi {i. live sv i}" using lv2 lv3 by auto
      then have "card {i. live sv3 i} \<le> Suc (card {i. live sv i})" by (simp add: card_insert_le_m1)
      then have d3: "draws_ok (card {i. live sv3 i}) (pe_random (ie_post ie))" using assms(5) by (simp add: draws_ok_def)
      have "cl_multi_state (sv_c sv3 ?mi) = CAS_NOT_CONNECTED" by (simp add: sv3_def f2(2))
      from post_first [OF s3 m3 this assms(4) d3, of nw sc] obtain c s' p where
        pf: "multi_process_post sv3 nw sc ?mi MPP_PRE_SELECT (ie_post ie) =
          Some (True, sv3\<lparr>sv_c := (sv_c sv3)(?mi := c), sv_schedule := s', sv_pending := p\<rparr>)" "same_place (sv_c sv3 ?mi) c"
        "server_inv {?mi} (sv3\<lparr>sv_c := (sv_c sv3)(?mi := c), sv_schedule := s', sv_pending := p\<rparr>)" by blast
      let ?sv4 = "sv3\<lparr>sv_c := (sv_c sv3)(?mi := c), sv_schedule := s', sv_pending := p\<rparr>"
      obtain x where x: "m_heap m ?mi = Some x" using opened_heap [OF m3] by (auto simp: sv3_def f2(1))
      have ch2: "change_client (sv1\<lparr>sv_iter := it\<rparr>) ?mi (\<lambda>c. c\<lparr>cl_did_iter := True\<rparr>) = Some sv2"
        using x by (simp add: change_client_def client_at_def f1(1,2) sv2_def)
      have ch3: "change_client (sv2\<lparr>sv_cid_hash := h, sv_cid_counter := n\<rparr>) ?mi (\<lambda>c. c\<lparr>cl_cid := cid, cl_did_cid_hash := True\<rparr>) = Some sv3"
        using x by (simp add: change_client_def client_at_def f2(1) sv3_def)
      have "multi_create_instance sv nw sc ie real = Some (Some ?mi, ?sv4)"
        unfolding run using room ok by (simp add: a ch2 cl(1) ch3 pf(1))
      moreover have "created sv ?mi real ?sv4" unfolding created_def
        using pf(2,3) lv2 f2 settled_tables [OF assms(1) none] n(4) room f1(3,4)
        by (simp add: sv3_def same_place_def)
      ultimately show ?thesis by blast
    qed
  qed
qed

lemma core_real:
  assumes "core_inv X sv" "mi \<in> X" "live sv mi" "\<not> cl_did_real_hash (sv_c sv mi)"
    "table_map (sv_hash sv) (cl_real (sv_c sv mi)) = None"
    "table_ok h" "table_map h = (table_map (sv_hash sv))(cl_real (sv_c sv mi) \<mapsto> mi)"
  shows "core_inv X (sv\<lparr>sv_hash := h, sv_c := (sv_c sv)(mi := (sv_c sv mi)\<lparr>cl_did_real_hash := True\<rparr>)\<rparr>)"
proof -
  let ?c = "(sv_c sv)(mi := (sv_c sv mi)\<lparr>cl_did_real_hash := True\<rparr>)"
  note p = core_parts [OF assms(1)]
  have e: "cl_did_cid_hash (?c i) = cl_did_cid_hash (sv_c sv i)" "cl_cid (?c i) = cl_cid (sv_c sv i)"
    "cl_peer_id (?c i) = cl_peer_id (sv_c sv i)" "cl_vaddr_handle (?c i) = cl_vaddr_handle (sv_c sv i)"
    "instance_ok (?c i) = instance_ok (sv_c sv i)" "i \<notin> X \<Longrightarrow> settled (?c i) = settled (sv_c sv i)" for i
    using assms(2) by (auto simp: instance_ok_def fun_eq_iff)
  have "indexed (table_map (sv_hash sv)) (\<lambda>i. live sv i \<and> cl_did_real_hash (sv_c sv i)) (\<lambda>i. cl_real (sv_c sv i))"
    using p(6) by (simp add: index_ok_def)
  from indexed_add [OF this assms(5), of mi] assms(4)
  have "indexed (table_map h) (\<lambda>j. live sv j \<and> cl_did_real_hash (sv_c sv j) \<or> j = mi)
      ((\<lambda>i. cl_real (sv_c sv i))(mi := cl_real (sv_c sv mi)))"
    unfolding assms(7) by blast
  then have "index_ok h (\<lambda>j. live sv j \<and> cl_did_real_hash (sv_c sv j) \<or> j = mi) ((\<lambda>i. cl_real (sv_c sv i))(mi := cl_real (sv_c sv mi)))"
    using assms(6) by (simp add: index_ok_def)
  then have "index_ok h (\<lambda>j. live sv j \<and> cl_did_real_hash (?c j)) (\<lambda>i. cl_real (?c i))"
    by (subst index_cong [of _ "\<lambda>j. live sv j \<and> cl_did_real_hash (sv_c sv j) \<or> j = mi" "(\<lambda>i. cl_real (sv_c sv i))(mi := cl_real (sv_c sv mi))"])
       (use assms(3) in auto)
  then show ?thesis using assms(1) unfolding core_inv_def by (simp add: e del: fun_upd_apply)
qed

lemma core_peer:
  assumes "core_inv X sv" "live sv mi" "k < length (sv_instances sv)" "\<forall>j < length (sv_instances sv). sv_instances sv ! j \<noteq> Some mi"
  shows "core_inv X (sv\<lparr>sv_instances := (sv_instances sv)[k := Some mi], sv_c := (sv_c sv)(mi := (sv_c sv mi)\<lparr>cl_peer_id := word_of_nat k\<rparr>)\<rparr>)"
proof -
  let ?c = "(sv_c sv)(mi := (sv_c sv mi)\<lparr>cl_peer_id := word_of_nat k\<rparr>)"
  note p = core_parts [OF assms(1)]
  have e: "cl_did_cid_hash (?c i) = cl_did_cid_hash (sv_c sv i)" "cl_cid (?c i) = cl_cid (sv_c sv i)"
    "cl_did_real_hash (?c i) = cl_did_real_hash (sv_c sv i)" "cl_real (?c i) = cl_real (sv_c sv i)"
    "cl_vaddr_handle (?c i) = cl_vaddr_handle (sv_c sv i)"
    "instance_ok (?c i) = instance_ok (sv_c sv i)" "settled (?c i) = settled (sv_c sv i)" for i
    by (auto simp: instance_ok_def settled_def fun_eq_iff)
  have "k < 16777215" using p(8) assms(3) by (simp add: slots_ok_def MAX_PEER_ID_def)
  then have k: "unat (word_of_nat k :: u32) = k" by (simp add: unat_of_nat)
  have "slots_ok ((sv_instances sv)[k := Some mi]) (live sv) (\<lambda>i. cl_peer_id (?c i))"
    using p(8) assms(2-4) k unfolding slots_ok_def by (auto simp: nth_list_update split: if_splits)
  then show ?thesis using assms(1) unfolding core_inv_def by (simp add: e del: fun_upd_apply)
qed

lemma first_free_Some: "first_free xs ks = Some k \<Longrightarrow> k \<in> set ks \<and> xs ! k = None"
  by (induction ks) (auto split: if_splits)

lemma first_free_None: "first_free xs ks = None \<longleftrightarrow> (\<forall>j \<in> set ks. xs ! j \<noteq> None)"
  by (induction ks) auto

text \<open>A server that has room for a client has a free slot.\<close>

lemma slot_left:
  assumes "server_inv {} sv" "n_elements (sv_hash sv) < sv_max_clients sv"
  obtains k where "first_free (sv_instances sv) [0..<nat (sv_max_clients sv)] = Some k" "k < length (sv_instances sv)"
    "sv_instances sv ! k = None"
proof -
  have inv: "core_inv {} sv" using assms(1) by (simp add: server_inv_def)
  note p = core_parts [OF inv]
  let ?n = "length (sv_instances sv)"
  have n: "nat (sv_max_clients sv) = ?n" using p(17) by simp
  have "first_free (sv_instances sv) [0..<?n] \<noteq> None"
  proof
    assume "first_free (sv_instances sv) [0..<?n] = None"
    then have all: "\<exists>i. sv_instances sv ! k = Some i" if "k < ?n" for k using that by (simp add: first_free_None)
    let ?f = "\<lambda>k. the (sv_instances sv ! k)"
    have f: "live sv (?f k) \<and> unat (cl_peer_id (sv_c sv (?f k))) = k" if "k < ?n" for k
      using all [OF that] p(8) that by (auto simp: slots_ok_def)
    have "inj_on ?f {..<?n}" unfolding inj_on_def using f by (metis lessThan_iff)
    moreover have "?f ` {..<?n} \<subseteq> {i. live sv i}" using f by blast
    ultimately have "?n \<le> card {i. live sv i}" using p(3) card_inj_on_le [of ?f "{..<?n}"] by simp
    moreover have "{i. live sv i} = {i. live sv i \<and> cl_did_real_hash (sv_c sv i)}" using p(13) by (auto simp: settled_def)
    moreover have "card (dom (table_map (sv_hash sv))) = card {i. live sv i \<and> cl_did_real_hash (sv_c sv i)}"
      using p(6) by (auto simp: index_ok_def intro: indexed_card)
    moreover have "int (card (dom (table_map (sv_hash sv)))) \<le> n_elements (sv_hash sv)"
      using p(6) by (intro table_card) (simp add: index_ok_def)
    ultimately show False using assms(2) p(17) by simp
  qed
  then obtain k where k: "first_free (sv_instances sv) [0..<?n] = Some k" by blast
  then have "k \<in> set [0..<?n] \<and> sv_instances sv ! k = None" by (rule first_free_Some)
  then show ?thesis using that k n by simp
qed

lemma adopt_ok:
  assumes "server_inv {} sv" "created sv mi real sv1"
  obtains sv2 k where
    "do { c \<leftarrow> client_at sv1 mi;
          let s = sv1\<lparr>sv_hash := hash_add_fast (sv_hash sv1) (home (sv_hash sv) real) (cl_real c) (hash_value (sv_hash sv) real) mi\<rparr>;
          s \<leftarrow> change_client s mi (\<lambda>c. c\<lparr>cl_did_real_hash := True\<rparr>);
          s \<leftarrow> multi_assign_peer_id s mi;
          Some (Some mi, s) } = Some (Some mi, sv2)"
    "server_inv {mi} sv2" "sv_m sv2 = sv_m sv1" "sv_mbuf sv2 = sv_mbuf sv" "sv_mbufs sv2 = sv_mbufs sv"
    "sv_c sv2 = (sv_c sv1)(mi := (sv_c sv1 mi)\<lparr>cl_did_real_hash := True, cl_peer_id := word_of_nat k\<rparr>)"
    "k < length (sv_instances sv)" "sv_instances sv ! k = None" "sv_instances sv2 = (sv_instances sv)[k := Some mi]"
    "table_map (sv_hash sv2) = (table_map (sv_hash sv))(real \<mapsto> mi)"
proof -
  note c = assms(2) [unfolded created_def]
  have dead: "\<not> live sv mi"
  proof
    assume lv: "live sv mi"
    have "settled (sv_c sv mi)" using assms(1) lv by (simp add: server_inv_def core_inv_def)
    have inv: "core_inv {} sv" and inv1: "core_inv {mi} sv1" using assms(1) c by (auto simp: server_inv_def)
    have "table_map (sv_hash sv) (cl_real (sv_c sv mi)) = Some mi"
      using core_parts(6) [OF inv] lv \<open>settled _\<close> by (simp add: index_ok_def indexed_def settled_def)
    then have "table_map (sv_hash sv1) (cl_real (sv_c sv mi)) = Some mi" using c by simp
    then show False using core_parts(6) [OF inv1] c by (auto simp: index_ok_def indexed_def)
  qed
  have inv: "core_inv {mi} sv1" "iter_inv sv1" and lv: "live sv1 mi" using c by (auto simp: server_inv_def)
  have i0: "core_inv {} sv" using assms(1) by (simp add: server_inv_def)
  have at: "client_at sv1 mi = Some (sv_c sv1 mi)" using opened_heap [OF lv] by (auto simp: client_at_def)
  let ?H = "hash_add_fast (sv_hash sv) (home (sv_hash sv) real) real (hash_value (sv_hash sv) real) mi"
  have t: "table_ok (sv_hash sv)" using core_parts(6) [OF i0] by (simp add: index_ok_def)
  obtain he h1 where f: "hash_lookup_fast (sv_hash sv) (home (sv_hash sv) real) real (hash_value (sv_hash sv) real) = (he, h1)" by fastforce
  have "he = None" using table_lookup_fast(1) [OF t f] c by simp
  note a = table_add_fast(2,3) [OF t f [unfolded this], of mi]
  define sv2 where "sv2 = sv1\<lparr>sv_hash := ?H, sv_c := (sv_c sv1)(mi := (sv_c sv1 mi)\<lparr>cl_did_real_hash := True\<rparr>)\<rparr>"
  have "core_inv {mi} sv2" unfolding sv2_def
    by (rule core_real [OF inv(1)]) (use c lv a in simp_all)
  have m2: "sv_m sv2 = sv_m sv1" "sv_instances sv2 = sv_instances sv" "sv_max_clients sv2 = sv_max_clients sv"
    using c by (simp_all add: sv2_def)
  obtain k where k: "first_free (sv_instances sv) [0..<nat (sv_max_clients sv)] = Some k" "k < length (sv_instances sv)"
    "sv_instances sv ! k = None" using slot_left [OF assms(1)] c by blast
  have no: "\<forall>j < length (sv_instances sv2). sv_instances sv2 ! j \<noteq> Some mi"
    using core_parts(8) [OF i0] dead m2(2) by (auto simp: slots_ok_def)
  define sv3 where "sv3 = sv2\<lparr>sv_instances := (sv_instances sv)[k := Some mi],
    sv_c := (sv_c sv2)(mi := (sv_c sv2 mi)\<lparr>cl_peer_id := word_of_nat k\<rparr>)\<rparr>"
  have core3: "core_inv {mi} sv3"
    using core_peer [OF \<open>core_inv {mi} sv2\<close>, of mi k] lv k(2) no m2 by (simp add: sv3_def)
  have "iter_inv sv3" using inv(2) unfolding iter_inv_def
    by (subst index_cong [of _ "\<lambda>i. live sv1 i \<and> cl_did_iter (sv_c sv1 i)" "\<lambda>i. cl_real (sv_c sv1 i)"]) (auto simp: sv3_def sv2_def)
  then have s3: "server_inv {mi} sv3" using core3 by (simp add: server_inv_def)
  obtain x where x: "m_heap (sv_m sv1) mi = Some x" using opened_heap [OF lv] by blast
  have mx: "sv_max_clients sv < uint MAX_PEER_ID" "int (length (sv_instances sv)) = sv_max_clients sv"
    using core_parts(8,17) [OF i0] by (auto simp: slots_ok_def)
  have "k < 16777215" using mx k(2) by (simp add: MAX_PEER_ID_def)
  then have "uint (word_of_nat k :: u32) = int k" by (simp add: uint_nat unat_of_nat)
  then have "multi_assign_peer_id sv2 mi = Some sv3"
    using mx k(1,2) x m2 by (simp add: multi_assign_peer_id_def change_client_def client_at_def sv3_def)
  moreover have "change_client (sv1\<lparr>sv_hash := ?H\<rparr>) mi (\<lambda>c. c\<lparr>cl_did_real_hash := True\<rparr>) = Some sv2"
    using x by (simp add: change_client_def client_at_def sv2_def)
  ultimately have run: "do { c \<leftarrow> client_at sv1 mi;
          let s = sv1\<lparr>sv_hash := hash_add_fast (sv_hash sv1) (home (sv_hash sv) real) (cl_real c) (hash_value (sv_hash sv) real) mi\<rparr>;
          s \<leftarrow> change_client s mi (\<lambda>c. c\<lparr>cl_did_real_hash := True\<rparr>);
          s \<leftarrow> multi_assign_peer_id s mi;
          Some (Some mi, s) } = Some (Some mi, sv3)"
    using at c by simp
  show ?thesis
    by (rule that [OF run s3 _ _ _ _ k(2,3)]) (use c a(2) in \<open>simp_all add: sv3_def sv2_def\<close>)
qed

section \<open>The client that a packet is from\<close>

definition found_client :: "server \<Rightarrow> openvpn_sockaddr \<Rightarrow> nat \<Rightarrow> bool \<Rightarrow> server \<Rightarrow> bool" where
  "found_client sv from i floated sv' \<longleftrightarrow> server_inv {i} sv' \<and> live sv' i \<and> cl_did_real_hash (sv_c sv' i) \<and>
     cl_did_iter (sv_c sv' i) \<and> cl_did_cid_hash (sv_c sv' i) \<and>
     (if floated then server_inv {} sv' \<and> mroute_extract_openvpn_sockaddr mroute_addr_init from True \<noteq> Some (cl_real (sv_c sv' i))
      else mroute_extract_openvpn_sockaddr mroute_addr_init from True = Some (cl_real (sv_c sv' i))) \<and>
     (\<forall>j. live sv' j \<longrightarrow> live sv j \<or> j = i) \<and> load (sv_m sv') = load (sv_m sv) \<and>
     sv_mbuf sv' = sv_mbuf sv \<and> sv_mbufs sv' = sv_mbufs sv"

lemma server_limiter [simp]: "server_inv X (sv\<lparr>sv_new_connection_limiter := l\<rparr>) = server_inv X sv"
  by (simp add: server_inv_def core_inv_def iter_inv_def)

definition create_ok_env :: "server \<Rightarrow> instance_env \<Rightarrow> bool" where
  "create_ok_env sv ie \<longleftrightarrow> m_heap (sv_m sv) (ie_address ie) = None \<and> env_fine ie \<and> \<not> pe_authenticated (ie_post ie) \<and>
     draws_ok (Suc (card {i. live sv i})) (pe_random (ie_post ie))"

lemma accept_ok:
  assumes "server_inv {} sv" "create_ok_env sv ie" "mroute_extract_openvpn_sockaddr mroute_addr_init from True = Some real"
  shows "\<exists>r sv'. accept_client sv nw sc real (home (sv_hash sv) real) (hash_value (sv_hash sv) real) precheck ie = Some (r, sv') \<and>
    (case r of None \<Rightarrow> server_inv {} sv' \<and> (\<forall>i. live sv' i \<longleftrightarrow> live sv i)
     | Some i \<Rightarrow> i = ie_address ie \<and> found_client sv from i False sv')"
proof -
  obtain b l where fl: "frequency_limit_event_allowed nw (sv_new_connection_limiter sv) = (b, l)" by fastforce
  let ?sv = "sv\<lparr>sv_new_connection_limiter := l\<rparr>"
  show ?thesis
  proof (cases "precheck \<and> b")
    case False
    then have "accept_client sv nw sc real (home (sv_hash sv) real) (hash_value (sv_hash sv) real) precheck ie =
        Some (None, if precheck then ?sv else sv)" by (auto simp: accept_client_def fl)
    then show ?thesis using assms(1) by auto
  next
    case True
    have s: "server_inv {} ?sv" "m_heap (sv_m ?sv) (ie_address ie) = None" "env_fine ie" "\<not> pe_authenticated (ie_post ie)"
      "draws_ok (Suc (card {i. live ?sv i})) (pe_random (ie_post ie))" using assms(1,2) by (simp_all add: create_ok_env_def)
    let ?REST = "\<lambda>(mi, sv'). case mi of
                 None \<Rightarrow> Some (None, sv')
               | Some i \<Rightarrow>
                   do { c \<leftarrow> client_at sv' i;
                        let s = sv'\<lparr>sv_hash := hash_add_fast (sv_hash sv') (home (sv_hash sv) real) (cl_real c) (hash_value (sv_hash sv) real) i\<rparr>;
                        s \<leftarrow> change_client s i (\<lambda>c. c\<lparr>cl_did_real_hash := True\<rparr>);
                        s \<leftarrow> multi_assign_peer_id s i;
                        Some (Some i, s) }"
    have run: "accept_client sv nw sc real (home (sv_hash sv) real) (hash_value (sv_hash sv) real) precheck ie =
        multi_create_instance ?sv nw sc ie real \<bind> ?REST" using True by (simp add: accept_client_def fl)
    from create_server [OF s, of nw sc real] show ?thesis
    proof (elim disjE exE conjE)
      fix sv1 assume "multi_create_instance ?sv nw sc ie real = Some (None, sv1)" "server_inv {} sv1" "\<forall>i. live sv1 i \<longleftrightarrow> live ?sv i"
      then show ?thesis unfolding run by simp
    next
      fix sv1 assume c: "multi_create_instance ?sv nw sc ie real = Some (Some (ie_address ie), sv1)" "created ?sv (ie_address ie) real sv1"
      have e: "sv_hash ?sv = sv_hash sv" by simp
      obtain sv2 k where a: "do { c \<leftarrow> client_at sv1 (ie_address ie);
          let s = sv1\<lparr>sv_hash := hash_add_fast (sv_hash sv1) (home (sv_hash ?sv) real) (cl_real c) (hash_value (sv_hash ?sv) real) (ie_address ie)\<rparr>;
          s \<leftarrow> change_client s (ie_address ie) (\<lambda>c. c\<lparr>cl_did_real_hash := True\<rparr>);
          s \<leftarrow> multi_assign_peer_id s (ie_address ie);
          Some (Some (ie_address ie), s) } = Some (Some (ie_address ie), sv2)" "server_inv {ie_address ie} sv2" "sv_m sv2 = sv_m sv1"
        "sv_mbuf sv2 = sv_mbuf ?sv" "sv_mbufs sv2 = sv_mbufs ?sv"
        "sv_c sv2 = (sv_c sv1)(ie_address ie := (sv_c sv1 (ie_address ie))\<lparr>cl_did_real_hash := True, cl_peer_id := word_of_nat k\<rparr>)"
        by (rule adopt_ok [OF s(1) c(2)])
      have "found_client sv from (ie_address ie) False sv2"
        using a(2-6) c(2) assms(3) by (simp add: found_client_def created_def)
      then show ?thesis using a(1) unfolding run c(1) e by simp
    qed
  qed
qed

lemma server_hash:
  assumes "server_inv X sv" "table_ok h" "table_map h = table_map (sv_hash sv)"
  shows "server_inv X (sv\<lparr>sv_hash := h\<rparr>)"
  using assms by (simp add: server_inv_def core_inv_def iter_inv_def index_ok_def)

lemma addr_port_same: "addr_port_match a b = Some True \<Longrightarrow> a = b"
  by (cases a; cases b) auto

lemma addr_port_differ:
  assumes "sockaddr_ok a" "sockaddr_ok b" "addr_port_match a b = Some False" "mroute_extract_openvpn_sockaddr mroute_addr_init a True = Some r"
  shows "mroute_extract_openvpn_sockaddr mroute_addr_init b True \<noteq> Some r"
  using assms by (cases a; cases b) (auto simp: mroute_addr_init_def MR_ADDR_IPV4_def MR_ADDR_IPV6_def MR_WITH_PORT_def)

lemma addr_port_defined: "mroute_extract_openvpn_sockaddr mroute_addr_init a True = Some r \<Longrightarrow> \<exists>b. addr_port_match a from = Some b"
  by (cases a) auto

lemma settled_found:
  assumes "server_inv {} sv" "live sv i"
    "floated \<longleftrightarrow> mroute_extract_openvpn_sockaddr mroute_addr_init from True \<noteq> Some (cl_real (sv_c sv i))"
  shows "found_client sv from i floated sv"
proof -
  have "settled (sv_c sv i)" using assms(1,2) by (simp add: server_inv_def core_inv_def)
  then show ?thesis using assms server_mono [OF assms(1)] by (auto simp: found_client_def settled_def)
qed

lemma peer_instance_ok:
  assumes "server_inv {} sv" "sockaddr_ok from"
  shows "peer_instance sv from peer_id = Some (None, False) \<or>
    (\<exists>i fl. peer_instance sv from peer_id = Some (Some i, fl) \<and> found_client sv from i fl sv)"
proof (cases "uint peer_id < sv_max_clients sv \<and> sv_instances sv ! unat peer_id \<noteq> None")
  case False
  then show ?thesis by (cases "uint peer_id < sv_max_clients sv") (simp_all add: peer_instance_def)
next
  case True
  then obtain i where i: "sv_instances sv ! unat peer_id = Some i" by blast
  have inv: "core_inv {} sv" using assms(1) by (simp add: server_inv_def)
  have u: "uint peer_id = int (unat peer_id)" by (rule uint_nat)
  have "int (unat peer_id) < int (length (sv_instances sv))" using True core_parts(17) [OF inv] unfolding u by linarith
  then have "unat peer_id < length (sv_instances sv)" by linarith
  then have lv: "live sv i" using i core_parts(8) [OF inv] by (auto simp: slots_ok_def)
  have st: "settled (sv_c sv i)" using core_parts(13) [OF inv lv] by simp
  then obtain b where b: "addr_port_match (cl_from (sv_c sv i)) from = Some b"
    using addr_port_defined [of "cl_from (sv_c sv i)"] unfolding settled_def by blast
  have "client_at sv i = Some (sv_c sv i)" using opened_heap [OF lv] by (auto simp: client_at_def)
  then have run: "peer_instance sv from peer_id = Some (Some i, \<not> b)" using True i b by (simp add: peer_instance_def)
  have "\<not> b \<longleftrightarrow> mroute_extract_openvpn_sockaddr mroute_addr_init from True \<noteq> Some (cl_real (sv_c sv i))"
  proof (cases b)
    case True
    then show ?thesis using st addr_port_same [of "cl_from (sv_c sv i)" "from"] b by (simp add: settled_def)
  next
    case False
    then show ?thesis using st addr_port_differ [of "cl_from (sv_c sv i)" "from"] assms(2) b by (simp add: settled_def)
  qed
  from settled_found [OF assms(1) lv this] run show ?thesis by blast
qed

lemma get_create_ok:
  assumes "server_inv {} sv" "create_ok_env sv ie" "sockaddr_ok from"
  shows "\<exists>r fl sv'. multi_get_create_instance_udp sv nw sc from buf precheck ie = Some (r, fl, sv') \<and>
    (case r of None \<Rightarrow> server_inv {} sv' \<and> (\<forall>i. live sv' i \<longleftrightarrow> live sv i) | Some i \<Rightarrow> found_client sv from i fl sv')"
proof (cases "mroute_extract_openvpn_sockaddr mroute_addr_init from True = None \<or> buf = []")
  case True
  then show ?thesis using assms(1) by (auto simp: multi_get_create_instance_udp_def split: option.splits)
next
  case False
  then obtain real where real: "mroute_extract_openvpn_sockaddr mroute_addr_init from True = Some real" and buf: "0 < length buf" by auto
  define v2 where "v2 \<longleftrightarrow> drop_bit P_OPCODE_SHIFT (buf ! 0) = P_DATA_V2 \<and> length buf \<ge> 1 + 3"
  define peer_id where "peer_id = of_be32 (take 4 buf) AND 0xFFFFFF"
  define direct where "direct \<longleftrightarrow> v2 \<and> peer_id \<noteq> MAX_PEER_ID"
  define ACCEPT where "ACCEPT = (\<lambda>(mi, s). if mi = None
    then accept_client s nw sc real (home (sv_hash sv) real) (hash_value (sv_hash sv) real) precheck ie else Some (mi, s))"
  define FIN where "FIN = (\<lambda>fl (mi, s :: server). case mi of None \<Rightarrow> Some (None, fl, s)
    | Some i \<Rightarrow> do { x \<leftarrow> m_heap (sv_m s) i; if mi_halt x then None else Some (mi, fl :: bool, s) })"
  obtain he h where f: "hash_lookup_fast (sv_hash sv) (home (sv_hash sv) real) real (hash_value (sv_hash sv) real) = (he, h)" by fastforce
  have run: "multi_get_create_instance_udp sv nw sc from buf precheck ie =
      (if direct then peer_instance sv from peer_id else Some (None, False)) \<bind>
        (\<lambda>(mi, fl). ACCEPT (if \<not> direct then (case he of Some he \<Rightarrow> Some (he_value he) | None \<Rightarrow> mi, sv\<lparr>sv_hash := h\<rparr>) else (mi, sv)) \<bind> FIN fl)"
  proof -
    have c: "(v2 \<and> \<not> (v2 \<and> peer_id = MAX_PEER_ID)) = direct" "(\<not> v2 \<or> v2 \<and> peer_id = MAX_PEER_ID) = (\<not> direct)"
      by (auto simp: direct_def)
    show ?thesis unfolding multi_get_create_instance_udp_def real option.case if_P [OF buf] Let_def f prod.case
        v2_def [symmetric] peer_id_def [symmetric] c
      by (cases direct; cases he) (auto simp: ACCEPT_def FIN_def split_def intro!: arg_cong [where f = "Option.bind _"])
  qed
  have fin: "FIN fl (Some i, s) = Some (Some i, fl, s)" if "found_client sv from i fl s" for i fl s
    using opened_heap [of "sv_m s" i] that by (auto simp: FIN_def found_client_def)
  have inv: "core_inv {} sv" using assms(1) by (simp add: server_inv_def)
  have t: "table_ok (sv_hash sv)" using core_parts(6) [OF inv] by (simp add: index_ok_def)
  have acc: "\<exists>r fl sv'. ACCEPT (None, sv) \<bind> FIN fl0 = Some (r, fl, sv') \<and>
    (case r of None \<Rightarrow> server_inv {} sv' \<and> (\<forall>i. live sv' i \<longleftrightarrow> live sv i) | Some i \<Rightarrow> found_client sv from i fl sv')" if "\<not> fl0" for fl0
  proof -
    obtain r sv' where a: "accept_client sv nw sc real (home (sv_hash sv) real) (hash_value (sv_hash sv) real) precheck ie = Some (r, sv')"
      "case r of None \<Rightarrow> server_inv {} sv' \<and> (\<forall>i. live sv' i \<longleftrightarrow> live sv i) | Some i \<Rightarrow> i = ie_address ie \<and> found_client sv from i False sv'"
      using accept_ok [OF assms(1,2) real, of nw sc precheck] by blast
    have "ACCEPT (None, sv) \<bind> FIN fl0 = FIN False (r, sv')" using a(1) that by (simp add: ACCEPT_def)
    then show ?thesis using a(2) fin [of _ False sv'] by (cases r) (auto simp: FIN_def)
  qed
  show ?thesis
  proof (cases direct)
    case True
    from peer_instance_ok [OF assms(1,3), of peer_id] show ?thesis
    proof (elim disjE exE conjE)
      assume "peer_instance sv from peer_id = Some (None, False)"
      then show ?thesis using acc [of False] True unfolding run by simp
    next
      fix i fl assume p: "peer_instance sv from peer_id = Some (Some i, fl)" "found_client sv from i fl sv"
      have "multi_get_create_instance_udp sv nw sc from buf precheck ie = Some (Some i, fl, sv)"
        using p True fin [OF p(2)] unfolding run by (simp add: ACCEPT_def)
      then show ?thesis using p(2) by simp
    qed
  next
    case no: False
    show ?thesis
    proof (cases he)
      case None
      then have "h = sv_hash sv" using table_add_fast(1) [OF t] f by blast
      then show ?thesis using acc [of False] no None unfolding run by simp
    next
      case (Some e)
      note l = table_lookup_fast(1-3) [OF t f]
      let ?i = "he_value e" and ?sv = "sv\<lparr>sv_hash := h\<rparr>"
      have "table_map (sv_hash sv) real = Some ?i" using l(1) Some by simp
      then have i: "live sv ?i" "cl_real (sv_c sv ?i) = real" using core_parts(6) [OF inv] by (auto simp: index_ok_def indexed_def)
      have "server_inv {} ?sv" by (rule server_hash [OF assms(1) l(2,3)])
      from settled_found [OF this, of ?i False "from"] have fc: "found_client ?sv from ?i False ?sv" using i real by simp
      then have fc': "found_client sv from ?i False ?sv" by (simp add: found_client_def)
      have "multi_get_create_instance_udp sv nw sc from buf precheck ie = Some (Some ?i, False, ?sv)"
        using no Some fin [OF fc'] unfolding run by (simp add: ACCEPT_def)
      then show ?thesis using fc' by (intro exI [of _ "Some ?i"] exI [of _ False] exI [of _ ?sv]) simp
    qed
  qed
qed

section \<open>Clients that move to another address\<close>

lemma index_move:
  assumes "index_ok h S ky" "S i" "table_map h k = None"
  obtains h1 h2 where "assert_remove h (ky i) = Some h1" "hash_add h1 k i False = (True, h2)" "index_ok h2 S (ky(i := k))"
proof -
  obtain h1 where h1: "assert_remove h (ky i) = Some h1" "index_ok h1 (\<lambda>j. S j \<and> j \<noteq> i) ky"
    using index_remove [of h S ky i] assms by blast
  have "table_map h1 = (table_map h)(ky i := None)"
    using assert_remove_ok [of h "ky i"] assms(1) h1(1) indexedD [of "table_map h" S ky i] assms(2) by (auto simp: index_ok_def)
  then have "table_map h1 k = None" using assms(3) by simp
  from index_add [OF h1(2) this, of i False] have a: "fst (hash_add h1 k i False)"
    "index_ok (snd (hash_add h1 k i False)) (\<lambda>j. (S j \<and> j \<noteq> i) \<or> j = i) (ky(i := k))" by simp_all
  have "index_ok (snd (hash_add h1 k i False)) S (ky(i := k))"
    using a(2) by (subst index_cong [of S "\<lambda>j. (S j \<and> j \<noteq> i) \<or> j = i" "ky(i := k)"]) (use assms(2) in auto)
  then show ?thesis using that [OF h1(1), of "snd (hash_add h1 k i False)"] a(1) by (cases "hash_add h1 k i False") simp
qed

lemma update_address_ok:
  assumes "server_inv {} sv" "live sv mi" "mroute_extract_openvpn_sockaddr mroute_addr_init from True = Some real" "sockaddr_ok from"
    "table_map (sv_hash sv) real = None"
  obtains h it cidh where "update_address sv mi real from = Some (sv\<lparr>sv_c := (sv_c sv)(mi := (sv_c sv mi)\<lparr>cl_real := real, cl_from := from\<rparr>),
      sv_hash := h, sv_iter := it, sv_cid_hash := cidh\<rparr>)"
    "server_inv {} (sv\<lparr>sv_c := (sv_c sv)(mi := (sv_c sv mi)\<lparr>cl_real := real, cl_from := from\<rparr>),
      sv_hash := h, sv_iter := it, sv_cid_hash := cidh\<rparr>)"
proof -
  let ?C = "(sv_c sv)(mi := (sv_c sv mi)\<lparr>cl_real := real, cl_from := from\<rparr>)" and ?ky = "\<lambda>i. cl_real (sv_c sv i)"
  have inv: "core_inv {} sv" and it: "index_ok (sv_iter sv) (\<lambda>i. live sv i \<and> cl_did_iter (sv_c sv i)) ?ky"
    using assms(1) by (auto simp: server_inv_def iter_inv_def)
  note p = core_parts [OF inv]
  have st: "settled (sv_c sv mi)" using p(13) assms(2) by simp
  have "table_map (sv_iter sv) real = None"
  proof (rule ccontr)
    assume "table_map (sv_iter sv) real \<noteq> None"
    then obtain i where "live sv i" "cl_real (sv_c sv i) = real" using it by (auto simp: index_ok_def indexed_def)
    then have "table_map (sv_hash sv) real = Some i" using p(6,13) by (auto simp: index_ok_def indexed_def settled_def)
    then show False using assms(5) by simp
  qed
  then obtain i1 i2 where i: "assert_remove (sv_iter sv) (?ky mi) = Some i1" "hash_add i1 real mi False = (True, i2)"
    "index_ok i2 (\<lambda>i. live sv i \<and> cl_did_iter (sv_c sv i)) (?ky(mi := real))"
    using index_move [OF it, of mi real] assms(2) st by (auto simp: settled_def)
  obtain h1 h2 where h: "assert_remove (sv_hash sv) (?ky mi) = Some h1" "hash_add h1 real mi False = (True, h2)"
    "index_ok h2 (\<lambda>i. live sv i \<and> cl_did_real_hash (sv_c sv i)) (?ky(mi := real))"
    using index_move [OF p(6), of mi real] assms(2,5) st by (auto simp: settled_def)
  have cid: "table_ok (sv_cid_hash sv)" "table_map (sv_cid_hash sv) (cl_cid (sv_c sv mi)) = Some mi"
    using p(7) assms(2) st by (auto simp: index_ok_def indexed_def settled_def)
  obtain c2 where c: "hash_add (sv_cid_hash sv) (cl_cid (sv_c sv mi)) mi True = (True, c2)" "table_ok c2"
    "table_map c2 = table_map (sv_cid_hash sv)"
    using table_add [OF cid(1), of "cl_cid (sv_c sv mi)" mi True] fun_upd_idem [where f = "table_map (sv_cid_hash sv)" and x = "cl_cid (sv_c sv mi)", OF cid(2)]
    by (cases "hash_add (sv_cid_hash sv) (cl_cid (sv_c sv mi)) mi True") auto
  let ?sv = "sv\<lparr>sv_c := ?C, sv_hash := h2, sv_iter := i2, sv_cid_hash := c2\<rparr>"
  obtain x where x: "m_heap (sv_m sv) mi = Some x" using opened_heap [OF assms(2)] by blast
  have run: "update_address sv mi real from = Some ?sv"
    using x i(1,2) h(1,2) c(1) by (simp add: update_address_def client_at_def change_client_def)
  have e: "cl_did_real_hash (?C i) = cl_did_real_hash (sv_c sv i)" "cl_did_iter (?C i) = cl_did_iter (sv_c sv i)"
    "cl_did_cid_hash (?C i) = cl_did_cid_hash (sv_c sv i)" "cl_cid (?C i) = cl_cid (sv_c sv i)"
    "cl_peer_id (?C i) = cl_peer_id (sv_c sv i)" "cl_vaddr_handle (?C i) = cl_vaddr_handle (sv_c sv i)"
    "instance_ok (?C i) = instance_ok (sv_c sv i)" for i by (auto simp: instance_ok_def fun_eq_iff)
  have k: "(\<lambda>i. cl_real (?C i)) = ?ky(mi := real)" by (rule ext) simp
  have "settled (?C i)" if "live sv i" for i using p(13) [OF that] assms(3,4) by (auto simp: settled_def)
  moreover have "index_ok c2 (\<lambda>i. live sv i \<and> cl_did_cid_hash (sv_c sv i)) (\<lambda>i. cl_cid (sv_c sv i))"
    using p(7) c by (simp add: index_ok_def)
  ultimately have "core_inv {} ?sv" using inv h(3) unfolding core_inv_def k [symmetric] by (simp add: e del: fun_upd_apply)
  moreover have "iter_inv ?sv" using i(3) unfolding iter_inv_def k [symmetric] by (simp add: e del: fun_upd_apply)
  ultimately show ?thesis using that [OF run] by (simp add: server_inv_def)
qed

text \<open>After a float, the client is still open; another client may be closed.\<close>

lemma float_ok:
  assumes "server_inv {} sv" "live sv mi" "mroute_extract_openvpn_sockaddr mroute_addr_init from True \<noteq> Some (cl_real (sv_c sv mi))"
    "sockaddr_ok from"
  shows "\<exists>here sv' D. multi_process_float sv nw mi from = Some (here, sv') \<and> server_inv {} sv' \<and> mi \<notin> D \<and>
    (D = {} \<or> (\<exists>ex. D = {ex})) \<and> (\<forall>i. live sv' i \<longleftrightarrow> live sv i \<and> i \<notin> D) \<and> load (sv_m sv') = load (sv_m sv) \<and>
    sv_pending sv' = unless_in D (sv_pending sv) \<and> slots (sv_mbuf sv') = map (forget_all D) (slots (sv_mbuf sv)) \<and>
    same_bufs (sv_mbufs sv) (sv_mbufs sv') \<and> ms_capacity (sv_mbuf sv') = ms_capacity (sv_mbuf sv)"
proof (cases "mroute_extract_openvpn_sockaddr mroute_addr_init from True")
  case None
  then show ?thesis using assms(1) by (intro exI [of _ True] exI [of _ sv] exI [of _ "{}"])
    (simp add: multi_process_float_def forget_all_comp map_idI)
next
  case (Some real)
  have inv: "core_inv {} sv" using assms(1) by (simp add: server_inv_def)
  note p = core_parts [OF inv]
  have t: "table_ok (sv_hash sv)" using p(6) by (simp add: index_ok_def)
  obtain he h where f: "hash_lookup_fast (sv_hash sv) (home (sv_hash sv) real) real (hash_value (sv_hash sv) real) = (he, h)" by fastforce
  note l = table_lookup_fast(1-3) [OF t f]
  let ?sv = "sv\<lparr>sv_hash := h\<rparr>"
  have s1: "server_inv {} ?sv" by (rule server_hash [OF assms(1) l(2,3)])
  have at: "client_at ?sv i = Some (sv_c sv i)" if "live sv i" for i using opened_heap [OF that] by (auto simp: client_at_def)
  define STEP where "STEP = (case he of
                    None \<Rightarrow> Some (False, ?sv)
                  | Some he \<Rightarrow>
                      do { let ex_mi = he_value he;
                           c \<leftarrow> client_at ?sv mi;
                           ex \<leftarrow> client_at ?sv ex_mi;
                           if \<not> cert_hash_compare (cl_locked_cert_hash_set c) (cl_locked_cert_hash_set ex)
                           then Some (True, ?sv)
                           else do { sv \<leftarrow> multi_close_instance ?sv nw ex_mi False; Some (False, sv) } })"
  have run: "multi_process_float sv nw mi from = STEP \<bind> (\<lambda>(taken, s).
      if taken then Some (False, s) else do { s \<leftarrow> update_address s mi real from; Some (True, s) })"
    unfolding multi_process_float_def Some option.case Let_def f prod.case STEP_def ..
  have "\<exists>taken s D. STEP = Some (taken, s) \<and> server_inv {} s \<and> mi \<notin> D \<and> (D = {} \<or> (\<exists>ex. D = {ex})) \<and> closes D ?sv s \<and>
      (\<not> taken \<longrightarrow> table_map (sv_hash s) real = None)"
  proof (cases he)
    case None
    then show ?thesis using s1 closes_none [of ?sv] l(1,3)
      by (intro exI [of _ False] exI [of _ ?sv] exI [of _ "{}"]) (simp add: STEP_def)
  next
    case he: (Some e)
    let ?ex = "he_value e"
    have "table_map (sv_hash sv) real = Some ?ex" using l(1) he by simp
    then have ex: "live sv ?ex" "cl_real (sv_c sv ?ex) = real" using p(6) by (auto simp: index_ok_def indexed_def)
    then have ne: "?ex \<noteq> mi" using assms(3) Some by auto
    have "live ?sv ?ex" using ex(1) by simp
    then obtain s where s: "multi_close_instance ?sv nw ?ex False = Some s" "server_inv ({} - {?ex}) s" "closes {?ex} ?sv s"
      by (rule close_server [OF s1])
    have s2: "server_inv {} s" using s(2) by simp
    have "table_map (sv_hash s) real = None"
    proof (rule ccontr)
      assume "table_map (sv_hash s) real \<noteq> None"
      then obtain i where i: "live s i" "cl_real (sv_c s i) = real"
        using s2 by (auto simp: server_inv_def core_inv_def index_ok_def indexed_def)
      then have "live sv i" "i \<noteq> ?ex" "cl_real (sv_c sv i) = real" using s(3) by (auto simp: closes_def)
      moreover have "table_map (sv_hash sv) real = Some i" using calculation p(6,13) by (auto simp: index_ok_def indexed_def settled_def)
      ultimately show False using \<open>table_map (sv_hash sv) real = Some ?ex\<close> by simp
    qed
    then show ?thesis
    proof (cases "cert_hash_compare (cl_locked_cert_hash_set (sv_c sv mi)) (cl_locked_cert_hash_set (sv_c sv ?ex))")
      case False
      then show ?thesis using s1 closes_none [of ?sv] he at [OF assms(2)] at [OF ex(1)]
        by (intro exI [of _ True] exI [of _ ?sv] exI [of _ "{}"]) (simp add: STEP_def)
    next
      case True
      then show ?thesis using s(1,3) s2 ne he at [OF assms(2)] at [OF ex(1)] \<open>table_map (sv_hash s) real = None\<close>
        by (intro exI [of _ False] exI [of _ s] exI [of _ "{?ex}"]) (simp add: STEP_def)
    qed
  qed
  then obtain taken s D where s: "STEP = Some (taken, s)" "server_inv {} s" "mi \<notin> D" "D = {} \<or> (\<exists>ex. D = {ex})" "closes D ?sv s"
    "\<not> taken \<Longrightarrow> table_map (sv_hash s) real = None" by blast
  have cl: "\<forall>i. live s i \<longleftrightarrow> live sv i \<and> i \<notin> D" "load (sv_m s) = load (sv_m sv)" "sv_pending s = unless_in D (sv_pending sv)"
    "slots (sv_mbuf s) = map (forget_all D) (slots (sv_mbuf sv))" "same_bufs (sv_mbufs sv) (sv_mbufs s)"
    "ms_capacity (sv_mbuf s) = ms_capacity (sv_mbuf sv)" using s(5) by (simp_all add: closes_def)
  show ?thesis
  proof (cases taken)
    case True
    then show ?thesis using s(2-4) cl unfolding run s(1) by (intro exI [of _ False] exI [of _ s] exI [of _ D]) simp
  next
    case False
    have "live s mi" using cl(1) assms(2) s(3) by blast
    then obtain h it cidh where u: "update_address s mi real from = Some (s\<lparr>sv_c := (sv_c s)(mi := (sv_c s mi)\<lparr>cl_real := real, cl_from := from\<rparr>),
        sv_hash := h, sv_iter := it, sv_cid_hash := cidh\<rparr>)"
      "server_inv {} (s\<lparr>sv_c := (sv_c s)(mi := (sv_c s mi)\<lparr>cl_real := real, cl_from := from\<rparr>),
        sv_hash := h, sv_iter := it, sv_cid_hash := cidh\<rparr>)"
      by (rule update_address_ok [OF s(2) _ Some assms(4) s(6) [OF False]])
    let ?s = "s\<lparr>sv_c := (sv_c s)(mi := (sv_c s mi)\<lparr>cl_real := real, cl_from := from\<rparr>),
        sv_hash := h, sv_iter := it, sv_cid_hash := cidh\<rparr>"
    have "multi_process_float sv nw mi from = Some (True, ?s)" using False u(1) unfolding run s(1) by simp
    then show ?thesis using u(2) s(3,4) cl by (intro exI [of _ True] exI [of _ ?s] exI [of _ D]) simp
  qed
qed

section \<open>Packets for clients\<close>

text \<open>The ring is not full, or an old packet can make room.\<close>

definition ring_ok :: "mbuf_set \<Rightarrow> bool" where
  "ring_ok ms \<longleftrightarrow> length (slots ms) < unat (ms_capacity ms) \<or> (\<exists>it \<in> set (slots ms). \<not> dead it)"

lemma enqueue_ok:
  assumes "ring_ok ms"
  obtains q where "enqueue dead (unat (ms_capacity ms)) (slots ms) it = Some q" "it \<in> set q" "set q \<subseteq> insert it (set (slots ms))"
proof (cases "length (slots ms) = unat (ms_capacity ms)")
  case False
  then show ?thesis using that [of "slots ms @ [it]"] by (simp add: enqueue_def)
next
  case True
  then obtain x xs where x: "dropWhile dead (slots ms) = x # xs" using assms
    by (cases "dropWhile dead (slots ms)") (auto simp: ring_ok_def dropWhile_eq_Nil_conv)
  have "set xs \<subseteq> set (slots ms)" using x set_dropWhileD [of _ dead "slots ms"] by (metis list.set_intros(2) subsetI)
  moreover have "enqueue dead (unat (ms_capacity ms)) (slots ms) it = Some (xs @ [it])"
    unfolding enqueue_def x using True by simp
  ultimately show ?thesis using that by auto
qed

lemma add_item_ok:
  assumes "queue_ok mbs ms H" "0 < H b" "ring_ok ms" "queue_live ms S" "S i"
  shows "\<exists>mbs' ms'. mbuf_add_item mbs ms \<lparr>mbi_buffer = Some b, mbi_instance = Some i\<rparr> = Some (mbs', ms') \<and>
    queue_ok mbs' ms' H \<and> ring_ok ms' \<and> queue_live ms' S"
proof -
  let ?it = "\<lparr>mbi_buffer = Some b, mbi_instance = Some i\<rparr>"
  obtain q where q: "enqueue dead (unat (ms_capacity ms)) (slots ms) ?it = Some q" "?it \<in> set q" "set q \<subseteq> insert ?it (set (slots ms))"
    by (rule enqueue_ok [OF assms(3)])
  obtain mbs' ms' where m: "mbuf_add_item mbs ms ?it = Some (mbs', ms')" "slots ms' = q" "queue_ok mbs' ms' H"
    using add_item_queue [OF assms(1,2) refl, of i] q(1) by auto
  have "\<not> dead ?it" by (simp add: dead_def)
  then have "ring_ok ms'" using q(2) unfolding m(2) [symmetric] ring_ok_def by blast
  moreover have "queue_live ms' S" using m(2) q(3) assms(4,5) by (auto simp: queue_live_def)
  ultimately show ?thesis using m by blast
qed

text \<open>A new packet, held by the caller while clients are added.\<close>

lemma alloc_ok:
  assumes "queue_ok mbs ms (\<lambda>_. 0)" "mbs b = None"
  shows "mbuf_alloc_buf mbs b p = Some (mbs(b \<mapsto> \<lparr>mb_buf = p, mb_refcount = 1, mb_flags = 0\<rparr>))"
    "queue_ok (mbs(b \<mapsto> \<lparr>mb_buf = p, mb_refcount = 1, mb_flags = fl\<rparr>)) ms (\<lambda>c. if c = b then 1 else 0)"
proof -
  show "mbuf_alloc_buf mbs b p = Some (mbs(b \<mapsto> \<lparr>mb_buf = p, mb_refcount = 1, mb_flags = 0\<rparr>))" using assms(2) by (simp add: mbuf_alloc_buf_def)
  have ok: "ms_ok ms" "items_ok (slots ms)" "counts_exact mbs (\<lambda>b. refs (slots ms) b + 0)" using assms(1) by (auto simp: queue_ok_def)
  have "refs (slots ms) b = 0" using counts_exactD(1) [OF ok(3), of b] assms(2) by simp
  then have "(\<lambda>b. refs (slots ms) b + 0)(b := 1) = (\<lambda>c. refs (slots ms) c + (if c = b then 1 else 0))" by (auto simp: fun_eq_iff)
  moreover have "counts_exact (mbs(b \<mapsto> \<lparr>mb_buf = p, mb_refcount = 1, mb_flags = fl\<rparr>)) ((\<lambda>b. refs (slots ms) b + 0)(b := 1))"
    by (rule counts_update [OF ok(3)]) simp
  ultimately show "queue_ok (mbs(b \<mapsto> \<lparr>mb_buf = p, mb_refcount = 1, mb_flags = fl\<rparr>)) ms (\<lambda>c. if c = b then 1 else 0)"
    using ok(1,2) by (simp add: queue_ok_def)
qed

lemma free_ok:
  assumes "queue_ok mbs ms (\<lambda>c. if c = b then 1 else 0)"
  shows "\<exists>mbs'. mbuf_free_buf mbs (Some b) = Some mbs' \<and> queue_ok mbs' ms (\<lambda>_. 0)"
proof -
  let ?H = "\<lambda>c. if c = b then 1 else 0 :: nat"
  have c: "counts_exact mbs (\<lambda>c. refs (slots ms) c + ?H c)" using assms by (simp add: queue_ok_def)
  have "0 < refs (slots ms) b + ?H b" by simp
  from free_buf_counts [OF c this] obtain mbs' where m: "mbuf_free_buf mbs (Some b) = Some mbs'"
    "counts_exact mbs' ((\<lambda>c. refs (slots ms) c + ?H c)(b := refs (slots ms) b + ?H b - 1))" by blast
  have "(\<lambda>c. refs (slots ms) c + ?H c)(b := refs (slots ms) b + ?H b - 1) = (\<lambda>c. refs (slots ms) c + 0)" by (rule ext) simp
  then show ?thesis using m assms unfolding queue_ok_def by auto
qed

lemma server_queue:
  assumes "server_inv X sv" "queue_ok mbs ms (\<lambda>_. 0)" "queue_live ms (live sv)"
  shows "server_inv X (sv\<lparr>sv_mbufs := mbs, sv_mbuf := ms\<rparr>)"
  using assms by (simp add: server_inv_def core_inv_def iter_inv_def)

lemma unicast_ok:
  assumes "server_inv X sv" "live sv j" "sv_mbufs sv mb = None" "ring_ok (sv_mbuf sv)"
  shows "\<exists>mbs ms. multi_unicast sv buf j mb = Some (sv\<lparr>sv_mbufs := mbs, sv_mbuf := ms\<rparr>) \<and>
    server_inv X (sv\<lparr>sv_mbufs := mbs, sv_mbuf := ms\<rparr>)"
proof (cases "buf = []")
  case True
  then have "multi_unicast sv buf j mb = Some (sv\<lparr>sv_mbufs := sv_mbufs sv, sv_mbuf := sv_mbuf sv\<rparr>)" by (simp add: multi_unicast_def)
  then show ?thesis using assms(1) by (intro exI [of _ "sv_mbufs sv"] exI [of _ "sv_mbuf sv"]) simp
next
  case False
  have inv: "core_inv X sv" using assms(1) by (simp add: server_inv_def)
  note a = alloc_ok [OF core_parts(5) [OF inv] assms(3), of buf]
  let ?x = "\<lparr>mb_buf = buf, mb_refcount = 1, mb_flags = MF_UNICAST\<rparr>"
  have "0 < (if mb = mb then 1 else 0 :: nat)" by simp
  from add_item_ok [where H = "\<lambda>c. if c = mb then 1 else 0" and b = mb, OF a(2) this assms(4) core_parts(10) [OF inv] assms(2), of MF_UNICAST]
  obtain mbs1 ms1 where m: "mbuf_add_item ((sv_mbufs sv)(mb \<mapsto> ?x)) (sv_mbuf sv) \<lparr>mbi_buffer = Some mb, mbi_instance = Some j\<rparr> = Some (mbs1, ms1)"
    "queue_ok mbs1 ms1 (\<lambda>c. if c = mb then 1 else 0)" "queue_live ms1 (live sv)" by blast
  obtain mbs2 where f: "mbuf_free_buf mbs1 (Some mb) = Some mbs2" "queue_ok mbs2 ms1 (\<lambda>_. 0)" using free_ok [OF m(2)] by blast
  have "multi_unicast sv buf j mb = Some (sv\<lparr>sv_mbufs := mbs2, sv_mbuf := ms1\<rparr>)"
    using False a(1) m(1) f(1) by (simp add: multi_unicast_def multi_add_mbuf_def)
  then show ?thesis using server_queue [OF assms(1) f(2) m(3)] by blast
qed

lemma bcast_visits:
  assumes "\<forall>i \<in> set vs. live sv i" "queue_ok mbs ms H" "0 < H mb" "ring_ok ms" "queue_live ms (live sv)"
  shows "\<exists>mbs' ms'. visits (bcast_body (m_heap (sv_m sv)) sender mb) (\<lambda>_. False) vs (mbs, ms) = Some (mbs', ms') \<and>
    queue_ok mbs' ms' H \<and> queue_live ms' (live sv)"
  using assms
proof (induction vs arbitrary: mbs ms)
  case (Cons v vs)
  have lv: "live sv v" using Cons.prems(1) by simp
  then obtain x where x: "m_heap (sv_m sv) v = Some x" "\<not> mi_halt x" using opened_heap by blast
  obtain mbs1 ms1 where m: "mbuf_add_item mbs ms \<lparr>mbi_buffer = Some mb, mbi_instance = Some v\<rparr> = Some (mbs1, ms1)"
    "queue_ok mbs1 ms1 H" "ring_ok ms1" "queue_live ms1 (live sv)" using add_item_ok [OF Cons.prems(2-5) lv] by blast
  show ?case
  proof (cases "Some v = sender")
    case True
    then have "bcast_body (m_heap (sv_m sv)) sender mb v (mbs, ms) = Some (False, mbs, ms)" using x by (simp add: bcast_body_def)
    then show ?thesis using Cons.IH [OF _ Cons.prems(2-5)] Cons.prems(1) by simp
  next
    case False
    then have "bcast_body (m_heap (sv_m sv)) sender mb v (mbs, ms) = Some (False, mbs1, ms1)"
      using x m(1) by (simp add: bcast_body_def multi_add_mbuf_def)
    then show ?thesis using Cons.IH [OF _ m(2) Cons.prems(3) m(3,4)] Cons.prems(1) by simp
  qed
qed auto

lemma bcast_ok:
  assumes "server_inv X sv" "sv_mbufs sv mb = None" "ring_ok (sv_mbuf sv)"
  shows "\<exists>it mbs ms. multi_bcast sv buf sender mb = Some (sv\<lparr>sv_iter := it, sv_mbufs := mbs, sv_mbuf := ms\<rparr>) \<and>
    server_inv X (sv\<lparr>sv_iter := it, sv_mbufs := mbs, sv_mbuf := ms\<rparr>)"
proof (cases "buf = []")
  case True
  then have "multi_bcast sv buf sender mb = Some (sv\<lparr>sv_iter := sv_iter sv, sv_mbufs := sv_mbufs sv, sv_mbuf := sv_mbuf sv\<rparr>)"
    by (simp add: multi_bcast_def)
  then show ?thesis using assms(1)
    by (intro exI [of _ "sv_iter sv"] exI [of _ "sv_mbufs sv"] exI [of _ "sv_mbuf sv"]) simp
next
  case False
  have inv: "core_inv X sv" and it: "index_ok (sv_iter sv) (\<lambda>i. live sv i \<and> cl_did_iter (sv_c sv i)) (\<lambda>i. cl_real (sv_c sv i))"
    using assms(1) by (auto simp: server_inv_def iter_inv_def)
  note a = alloc_ok [OF core_parts(5) [OF inv] assms(2), of buf]
  let ?mbs = "(sv_mbufs sv)(mb \<mapsto> \<lparr>mb_buf = buf, mb_refcount = 1, mb_flags = 0\<rparr>)" and ?H = "\<lambda>c. if c = mb then 1 else 0 :: nat"
  obtain vs hi where vs: "set vs = {i. live sv i \<and> cl_did_iter (sv_c sv i)}"
    "hash_iterator_init (sv_iter sv) = Some hi" "\<And>f P (st :: mbufs \<times> mbuf_set) st'. visits f P vs st = Some st' \<Longrightarrow>
      \<exists>h'. hash_iterate f (sv_iter sv) hi st = Some (h', st') \<and>
        index_ok h' (\<lambda>i. (live sv i \<and> cl_did_iter (sv_c sv i)) \<and> \<not> P i) (\<lambda>i. cl_real (sv_c sv i))"
    by (rule index_iterate [OF it]) blast
  have "\<forall>i \<in> set vs. live sv i" "0 < ?H mb" unfolding vs(1) by simp_all
  from bcast_visits [where H = ?H, OF this(1) a(2) this(2) assms(3) core_parts(10) [OF inv], where sender = sender]
  obtain mbs1 ms1 where v: "visits (bcast_body (m_heap (sv_m sv)) sender mb) (\<lambda>_. False) vs (?mbs, sv_mbuf sv) = Some (mbs1, ms1)"
    "queue_ok mbs1 ms1 ?H" "queue_live ms1 (live sv)" by blast
  from vs(3) [OF v(1)] obtain h where h: "hash_iterate (bcast_body (m_heap (sv_m sv)) sender mb) (sv_iter sv) hi (?mbs, sv_mbuf sv) =
      Some (h, mbs1, ms1)" "index_ok h (\<lambda>i. live sv i \<and> cl_did_iter (sv_c sv i)) (\<lambda>i. cl_real (sv_c sv i))" by auto
  obtain mbs2 where f: "mbuf_free_buf mbs1 (Some mb) = Some mbs2" "queue_ok mbs2 ms1 (\<lambda>_. 0)" using free_ok [OF v(2)] by blast
  have "multi_bcast sv buf sender mb = Some (sv\<lparr>sv_iter := h, sv_mbufs := mbs2, sv_mbuf := ms1\<rparr>)"
    using False a(1) vs(2) h(1) f(1) by (simp add: multi_bcast_def)
  moreover have "server_inv X (sv\<lparr>sv_iter := h\<rparr>)" using inv h(2) by (simp add: server_inv_def iter_inv_def)
  from server_queue [OF this f(2)] have "server_inv X (sv\<lparr>sv_iter := h, sv_mbufs := mbs2, sv_mbuf := ms1\<rparr>)" using v(3) by simp
  ultimately show ?thesis by blast
qed

lemma get_queue_ok:
  assumes "server_inv X sv"
  shows "\<exists>out mbs ms. multi_get_queue sv = Some (out, sv\<lparr>sv_mbufs := mbs, sv_mbuf := ms\<rparr>) \<and>
    server_inv X (sv\<lparr>sv_mbufs := mbs, sv_mbuf := ms\<rparr>) \<and> take_packet (sv_mbufs sv) (sv_mbuf sv) = Some (out, mbs, ms) \<and>
    (\<forall>i p. out = Some (i, p) \<longrightarrow> live sv i)"
proof -
  have inv: "core_inv X sv" using assms by (simp add: server_inv_def)
  have ok: "queue_ok (sv_mbufs sv) (sv_mbuf sv) (\<lambda>_. 0)" "queue_live (sv_mbuf sv) (live sv)" "ms_ok (sv_mbuf sv)"
    using core_parts(5,10) [OF inv] by (auto simp: queue_ok_def)
  obtain out mbs ms where t: "take_packet (sv_mbufs sv) (sv_mbuf sv) = Some (out, mbs, ms)" "queue_ok mbs ms (\<lambda>_. 0)"
    using take_view [OF ok(1), of 0] by blast
  obtain it ms1 where e: "mbuf_extract_item (sv_mbuf sv) = (it, ms1)" by fastforce
  have s: "slots ms1 = tl (dropWhile dead (slots (sv_mbuf sv)))" "it = (case dropWhile dead (slots (sv_mbuf sv)) of [] \<Rightarrow> None | x # _ \<Rightarrow> Some x)"
    using extract_slots [OF ok(3)] e by auto
  have d: "set (dropWhile dead (slots (sv_mbuf sv))) \<subseteq> set (slots (sv_mbuf sv))" using set_dropWhileD by fastforce
  have ms: "ms = ms1" using t(1) unfolding take_packet_def e by (cases it) (auto simp: bind_eq_Some_conv)
  have "set (slots ms1) \<subseteq> set (slots (sv_mbuf sv))" 
  proof -
    have "set (tl xs) \<subseteq> set xs" for xs :: "mbuf_item list" by (cases xs) auto
    then show ?thesis using d unfolding s(1) by blast
  qed
  then have ql: "queue_live ms (live sv)" using ok(2) unfolding ms queue_live_def by blast
  have itm: "\<forall>x. it = Some x \<longrightarrow> x \<in> set (slots (sv_mbuf sv))" using d unfolding s(2) by (auto split: list.splits)
  have lv: "live sv i" if "it = Some x" "mbi_instance x = Some i" for x i using ok(2) itm that unfolding queue_live_def by blast
  have out: "\<forall>i p. out = Some (i, p) \<longrightarrow> live sv i"
    using t(1) lv unfolding take_packet_def e by (cases it) (auto simp: bind_eq_Some_conv)
  have "multi_get_queue sv = Some (out, sv\<lparr>sv_mbufs := mbs, sv_mbuf := ms\<rparr>)"
  proof (cases it)
    case None
    then have "out = None" "mbs = sv_mbufs sv" using t(1) by (auto simp: take_packet_def e)
    then show ?thesis using None by (simp add: multi_get_queue_def e ms)
  next
    case (Some x)
    obtain i b y where "mbi_instance x = Some i" "mbi_buffer x = Some b" "sv_mbufs sv b = Some y"
      "mbuf_free_buf (sv_mbufs sv) (Some b) = Some mbs" "out = Some (i, mb_buf y)"
      using t(1) by (auto simp: take_packet_def e Some bind_eq_Some_conv)
    moreover have "client_at sv i = Some (sv_c sv i)" using opened_heap [OF lv [OF Some calculation(1)]] by (auto simp: client_at_def)
    ultimately show ?thesis by (simp add: multi_get_queue_def e Some ms)
  qed
  then show ?thesis using server_queue [OF assms t(2) ql] t(1) out by blast
qed

section \<open>Packets from clients and from the interface\<close>

lemma server_moved:
  assumes "server_inv X sv" "table_inv m" "same_clients (m_heap (sv_m sv)) (m_heap m)"
    "mh_cache_generation (m_route_helper m) = mh_cache_generation (m_route_helper (sv_m sv))"
  shows "server_inv X (sv\<lparr>sv_m := m\<rparr>)" "opened m = live sv" "load m = load (sv_m sv)"
proof -
  have inv: "core_inv X sv" using assms(1) by (simp add: server_inv_def)
  note p = core_parts [OF inv]
  show op: "opened m = live sv" using opened_same [OF assms(3)] by blast
  show ld: "load m = load (sv_m sv)" using claims_same [OF p(1) assms(3)] assms(4) by (simp add: load_def)
  have "instance_ok (sv_c sv i) y" if y: "m_heap m i = Some y" "\<not> mi_halt y" for i y
  proof -
    obtain x a b where "m_heap (sv_m sv) i = Some x" "y = x\<lparr>mi_refcount := a, mi_route_count := b\<rparr>"
      by (rule same_clients_back [OF assms(3) y(1)])
    then show ?thesis using p(12) [of i x] y(2) instance_counts by simp
  qed
  then show "server_inv X (sv\<lparr>sv_m := m\<rparr>)" using server_moves [OF assms(1,2) op] ld p(2) by simp
qed

lemma moved_parts: "moved m m' \<Longrightarrow> table_inv m' \<and> same_clients (m_heap m) (m_heap m') \<and> m_route_helper m' = m_route_helper m"
  by (simp add: moved_def only_routes_def)

lemma found_opened: "found m a (Some i) \<Longrightarrow> opened m i"
  by (auto simp: found_def longest_match_def installed_def split: if_splits option.splits)

lemma forward_ok:
  assumes "server_inv X sv" "sv_mbufs sv mb = None" "ring_ok (sv_mbuf sv)"
  shows "\<exists>b sv'. forward_packet sv nw sc mi p mb = Some (b, sv') \<and> server_inv X sv' \<and> live sv' = live sv \<and>
    load (sv_m sv') = load (sv_m sv) \<and> sv_pending sv' = sv_pending sv"
proof -
  have inv: "core_inv X sv" using assms(1) by (simp add: server_inv_def)
  obtain v m where v: "incoming_link_tun (sv_m sv) nw sc (sv_enable_c2c sv) mi p = Some (v, m)" "moved (sv_m sv) m"
    "v \<noteq> dropped_packet \<longrightarrow> (\<exists>src dest flags.
       mroute_extract_addr_from_packet (Some mroute_addr_init) (Some mroute_addr_init) 0 p DEV_TYPE_TUN =
         (Some src, Some dest, flags) \<and> found (sv_m sv) src (Some mi) \<and>
       (v_unicast v \<noteq> None \<or> \<not> v_bcast v \<and> sv_enable_c2c sv \<longrightarrow> found (sv_m sv) dest (v_unicast v)))"
    using incoming_link_ok [OF core_parts(1) [OF inv], of nw sc "sv_enable_c2c sv" mi p] by blast
  have mp: "table_inv m" "same_clients (m_heap (sv_m sv)) (m_heap m)"
    "mh_cache_generation (m_route_helper m) = mh_cache_generation (m_route_helper (sv_m sv))" using moved_parts [OF v(2)] by simp_all
  note s = server_moved [OF assms(1) mp]
  let ?sv = "sv\<lparr>sv_m := m\<rparr>"
  have lj: "live ?sv j" if "v_unicast v = Some j" for j
  proof -
    have "v \<noteq> dropped_packet" using that by (auto simp: dropped_packet_def)
    then have "opened (sv_m sv) j" using v(3) that found_opened by fastforce
    then show ?thesis using s(2) by simp
  qed
  have f: "sv_mbufs ?sv mb = None" "ring_ok (sv_mbuf ?sv)" using assms(2,3) by simp_all
  have run: "forward_packet sv nw sc mi p mb = (if v_bcast v then multi_bcast ?sv p (Some mi) mb
               else case v_unicast v of None \<Rightarrow> Some ?sv | Some j \<Rightarrow> multi_unicast ?sv p j mb) \<bind> (\<lambda>s. Some (v_to_tun v, s))"
    by (simp add: forward_packet_def v(1) Let_def)
  show ?thesis
  proof (cases "v_bcast v")
    case True
    obtain it mbs ms where "multi_bcast ?sv p (Some mi) mb = Some (?sv\<lparr>sv_iter := it, sv_mbufs := mbs, sv_mbuf := ms\<rparr>)"
      "server_inv X (?sv\<lparr>sv_iter := it, sv_mbufs := mbs, sv_mbuf := ms\<rparr>)" using bcast_ok [OF s(1) f] by blast
    then show ?thesis unfolding run using True s(2,3) by simp
  next
    case no: False
    show ?thesis
    proof (cases "v_unicast v")
      case None
      then show ?thesis unfolding run using no s by simp
    next
      case (Some j)
      obtain mbs ms where "multi_unicast ?sv p j mb = Some (?sv\<lparr>sv_mbufs := mbs, sv_mbuf := ms\<rparr>)"
        "server_inv X (?sv\<lparr>sv_mbufs := mbs, sv_mbuf := ms\<rparr>)" using unicast_ok [OF s(1) lj [OF Some] f] by blast
      then show ?thesis unfolding run using no Some s(2,3) by simp
    qed
  qed
qed

text \<open>The ring, if it is full, has packets of more than one client.\<close>

definition ring_roomy :: "mbuf_set \<Rightarrow> bool" where
  "ring_roomy ms \<longleftrightarrow> length (slots ms) < unat (ms_capacity ms) \<or>
     (\<exists>i j. i \<noteq> j \<and> Some i \<in> mbi_instance ` set (slots ms) \<and> Some j \<in> mbi_instance ` set (slots ms))"

lemma ring_forget:
  assumes "ring_roomy ms" "slots ms' = map (forget_all D) (slots ms)" "ms_capacity ms' = ms_capacity ms" "D = {} \<or> (\<exists>x. D = {x})"
  shows "ring_ok ms'"
proof (cases "length (slots ms) < unat (ms_capacity ms)")
  case True
  then show ?thesis using assms(2,3) by (simp add: ring_ok_def)
next
  case False
  then obtain i j where ij: "i \<noteq> j" "Some i \<in> mbi_instance ` set (slots ms)" "Some j \<in> mbi_instance ` set (slots ms)"
    using assms(1) by (auto simp: ring_roomy_def)
  have "i \<notin> D \<or> j \<notin> D" using assms(4) ij(1) by blast
  then obtain k where k: "k \<notin> D" "Some k \<in> mbi_instance ` set (slots ms)" using ij(2,3) by blast
  then obtain it where it: "it \<in> set (slots ms)" "mbi_instance it = Some k" by auto
  then have "forget_all D it = it" "\<not> dead it" using k(1) by (auto simp: forget_all_def dead_def)
  then have "it \<in> set (slots ms')" using it(1) unfolding assms(2) by force
  then show ?thesis using \<open>\<not> dead it\<close> by (auto simp: ring_ok_def)
qed

definition link_ok :: "server \<Rightarrow> openvpn_sockaddr \<Rightarrow> instance_env \<Rightarrow> link_env \<Rightarrow> bool" where
  "link_ok sv from ie le \<longleftrightarrow> sockaddr_ok from \<and> create_ok_env sv ie \<and> roomy sv \<and> handlers_fine (pe_handlers (le_post le)) \<and>
     draws_ok (Suc (card {i. live sv i})) (pe_random (le_post le)) \<and> sv_mbufs sv (le_mbuf le) = None \<and> ring_roomy (sv_mbuf sv)"

text \<open>The client of a packet, after the address of the packet has been stored.\<close>

lemma found_settled:
  assumes "found_client sv from i floated sv1" "sockaddr_ok from"
  obtains sv2 where "(if \<not> floated then change_client (sv1\<lparr>sv_pending := Some i\<rparr>) i (\<lambda>c. c\<lparr>cl_from := from\<rparr>)
      else Some (sv1\<lparr>sv_pending := Some i\<rparr>)) = Some sv2"
    "server_inv {} sv2" "sv_m sv2 = sv_m sv1" "sv_mbuf sv2 = sv_mbuf sv1" "sv_mbufs sv2 = sv_mbufs sv1" "sv_pending sv2 = Some i"
    "cl_real (sv_c sv2 i) = cl_real (sv_c sv1 i)"
proof -
  note f = assms(1) [unfolded found_client_def]
  have lv: "live sv1 i" using f by blast
  let ?sv = "sv1\<lparr>sv_pending := Some i\<rparr>"
  show ?thesis
  proof (cases floated)
    case True
    then have "server_inv {} ?sv" using f lv by (intro server_pending) auto
    then show ?thesis using that [of ?sv] True by simp
  next
    case False
    have pi: "server_inv {i} ?sv" using f lv by (intro server_pending) auto
    let ?c = "(sv_c sv1 i)\<lparr>cl_from := from\<rparr>"
    let ?sv2 = "?sv\<lparr>sv_c := (sv_c ?sv)(i := ?c)\<rparr>"
    have lvp: "live ?sv i" using lv by simp
    have "core_inv {i} ?sv2" by (rule core_client [OF _ lvp]) (use pi in \<open>auto simp: server_inv_def instance_ok_def\<close>)
    moreover have "settled ?c" using f False assms(2) by (simp add: settled_def)
    ultimately have core: "core_inv {} ?sv2" unfolding core_inv_def by auto
    have "iter_inv ?sv2" by (rule iter_client) (use pi in \<open>simp_all add: server_inv_def\<close>)
    then have "server_inv {} ?sv2" using core by (simp add: server_inv_def)
    moreover have "change_client ?sv i (\<lambda>c. c\<lparr>cl_from := from\<rparr>) = Some ?sv2"
      using opened_heap [OF lv] by (auto simp: change_client_def client_at_def)
    ultimately show ?thesis using that [of ?sv2] False by simp
  qed
qed

lemma post_after:
  assumes "server_inv {} sv'" "load (sv_m sv') = load (sv_m sv)" "roomy sv" "handlers_fine (pe_handlers env)"
    "draws_ok (Suc (card {i. live sv i})) (pe_random env)" "\<forall>j. live sv' j \<longrightarrow> live sv j \<or> j = i" "finite {i. live sv i}"
  shows "post_ok sv' env"
proof -
  have "{j. live sv' j} \<subseteq> insert i {j. live sv j}" using assms(6) by auto
  then have "card {j. live sv' j} \<le> card (insert i {j. live sv j})" using assms(7) by (intro card_mono) simp_all
  also have "\<dots> \<le> Suc (card {j. live sv j})" using assms(7) by (simp add: card_insert_if)
  finally show ?thesis using assms(2-5) by (simp add: post_ok_def roomy_def draws_ok_def)
qed

lemma incoming_link_server:
  assumes "server_inv {} sv" "link_ok sv from ie le"
  shows "\<exists>ret to_tun sv'. multi_process_incoming_link sv nw sc from buf precheck flags ie le = Some (ret, to_tun, sv') \<and> server_inv {} sv'"
proof (cases "sv_pending sv = None")
  case False
  then show ?thesis using assms(1) by (auto simp: multi_process_incoming_link_def)
next
  case pnd: True
  note l = assms(2) [unfolded link_ok_def]
  have inv: "core_inv {} sv" using assms(1) by (simp add: server_inv_def)
  have so: "sockaddr_ok from" and cr: "create_ok_env sv ie" using l by simp_all
  obtain r fl sv1 where g: "multi_get_create_instance_udp sv nw sc from buf precheck ie = Some (r, fl, sv1)"
    "case r of None \<Rightarrow> server_inv {} sv1 \<and> (\<forall>i. live sv1 i \<longleftrightarrow> live sv i) | Some i \<Rightarrow> found_client sv from i fl sv1"
    using get_create_ok [OF assms(1) cr so] by blast
  show ?thesis
  proof (cases r)
    case None
    then have "server_inv {} (sv1\<lparr>sv_pending := None\<rparr>)" using g(2) by (intro server_pending) auto
    then show ?thesis using None pnd by (auto simp: multi_process_incoming_link_def g(1))
  next
    case (Some i)
    then have fc: "found_client sv from i fl sv1" using g(2) by simp
    obtain sv2 where s2: "(if \<not> fl then change_client (sv1\<lparr>sv_pending := Some i\<rparr>) i (\<lambda>c. c\<lparr>cl_from := from\<rparr>)
        else Some (sv1\<lparr>sv_pending := Some i\<rparr>)) = Some sv2"
      "server_inv {} sv2" "sv_m sv2 = sv_m sv1" "sv_mbuf sv2 = sv_mbuf sv1" "sv_mbufs sv2 = sv_mbufs sv1" "sv_pending sv2 = Some i"
      "cl_real (sv_c sv2 i) = cl_real (sv_c sv1 i)" by (rule found_settled [OF fc so])
    note f = fc [unfolded found_client_def]
    have lv2: "live sv2 i" "\<forall>j. live sv2 j \<longrightarrow> live sv j \<or> j = i" "load (sv_m sv2) = load (sv_m sv)"
      "sv_mbuf sv2 = sv_mbuf sv" "sv_mbufs sv2 = sv_mbufs sv" using f s2(3-5) by simp_all
    define FLOAT where "FLOAT = (if le_part1 le \<and> fl \<and> le_nonempty le then multi_process_float sv2 nw i from else Some (True, sv2))"
    have "\<exists>here sv3. FLOAT = Some (here, sv3) \<and> server_inv {} sv3 \<and> live sv3 i \<and> (\<forall>j. live sv3 j \<longrightarrow> live sv j \<or> j = i) \<and>
        load (sv_m sv3) = load (sv_m sv) \<and> sv_pending sv3 = Some i \<and> ring_ok (sv_mbuf sv3) \<and> sv_mbufs sv3 (le_mbuf le) = None"
    proof (cases "le_part1 le \<and> fl \<and> le_nonempty le")
      case False
      have "slots (sv_mbuf sv2) = map (forget_all {}) (slots (sv_mbuf sv))" unfolding lv2(4) by (simp add: forget_all_comp map_idI)
      then have "ring_ok (sv_mbuf sv2)" using ring_forget [of "sv_mbuf sv" "sv_mbuf sv2" "{}"] l lv2(4) by simp
      moreover have "FLOAT = Some (True, sv2)" unfolding FLOAT_def if_not_P [OF False] ..
      ultimately show ?thesis using s2(2,6) lv2 l by auto
    next
      case True
      then have "mroute_extract_openvpn_sockaddr mroute_addr_init from True \<noteq> Some (cl_real (sv_c sv2 i))" using f s2(7) by simp
      from float_ok [OF s2(2) lv2(1) this so, of nw] obtain here sv3 D where
        h: "multi_process_float sv2 nw i from = Some (here, sv3)" "server_inv {} sv3" "i \<notin> D" "D = {} \<or> (\<exists>ex. D = {ex})"
        "\<forall>i. live sv3 i \<longleftrightarrow> live sv2 i \<and> i \<notin> D" "load (sv_m sv3) = load (sv_m sv2)" "sv_pending sv3 = unless_in D (sv_pending sv2)"
        "slots (sv_mbuf sv3) = map (forget_all D) (slots (sv_mbuf sv2))" "same_bufs (sv_mbufs sv2) (sv_mbufs sv3)"
        "ms_capacity (sv_mbuf sv3) = ms_capacity (sv_mbuf sv2)" by (elim exE conjE) (rule that)
      have "ring_ok (sv_mbuf sv3)" using ring_forget [of "sv_mbuf sv" "sv_mbuf sv3" D] l h(4,8,10) lv2(4) by simp
      moreover have "sv_mbufs sv3 (le_mbuf le) = None"
      proof (rule ccontr)
        assume "sv_mbufs sv3 (le_mbuf le) \<noteq> None"
        then show False using h(9) lv2(5) l unfolding same_bufs_def by force
      qed
      moreover have "sv_pending sv3 = Some i" using h(3,7) s2(6) by (simp add: unless_in_def)
      moreover have "FLOAT = Some (here, sv3)" unfolding FLOAT_def if_P [OF True] by (rule h(1))
      ultimately show ?thesis using h(2,3,5,6) lv2 by simp
    qed
    then obtain here sv3 where s3: "FLOAT = Some (here, sv3)" "server_inv {} sv3" "live sv3 i" "\<forall>j. live sv3 j \<longrightarrow> live sv j \<or> j = i"
      "load (sv_m sv3) = load (sv_m sv)" "sv_pending sv3 = Some i" "ring_ok (sv_mbuf sv3)" "sv_mbufs sv3 (le_mbuf le) = None" by blast
    let ?p = "if here then le_to_tun le else []"
    obtain b sv4 where s4: "forward_packet sv3 nw sc i ?p (le_mbuf le) = Some (b, sv4)" "server_inv {} sv4" "live sv4 = live sv3"
      "load (sv_m sv4) = load (sv_m sv3)" "sv_pending sv4 = sv_pending sv3" using forward_ok [OF s3(2,8,7)] by blast
    obtain tt sv5 where s5: "(if length buf > 0
        then do { (here, sv) \<leftarrow> FLOAT;
                  let packet = (if here then le_to_tun le else []);
                  pending \<leftarrow> sv_pending sv;
                  (to_tun, sv) \<leftarrow> forward_packet sv nw sc pending packet (le_mbuf le);
                  Some (if to_tun then Some packet else None, sv) }
        else Some (None, sv2)) = Some (tt, sv5)" "server_inv {} sv5" "live sv5 i" "\<forall>j. live sv5 j \<longrightarrow> live sv j \<or> j = i"
      "load (sv_m sv5) = load (sv_m sv)" "sv_pending sv5 = Some i"
    proof (cases "length buf > 0")
      case True
      then show ?thesis using that [of "if b then Some ?p else None" sv4] s3(1,3-6) s4 by (simp add: Let_def)
    next
      case False
      then show ?thesis using that [of None sv2] s2(2,6) lv2(1-3) by simp
    qed
    have "post_ok sv5 (le_post le)" using post_after [OF s5(2,5) _ _ _ s5(4)] l core_parts(3) [OF inv] by blast
    from process_post_ok [OF s5(2,3) this] obtain ret sv6 where
      s6: "multi_process_post sv5 nw sc i flags (le_post le) = Some (ret, sv6)" "server_inv {} sv6" by blast
    have "multi_process_incoming_link sv nw sc from buf precheck flags ie le = Some (ret, tt, sv6)"
      using s2(1,6) s5(1) [unfolded FLOAT_def] s5(6) s6(1) Some pnd
      by (simp add: multi_process_incoming_link_def g(1) del: length_greater_0_conv split del: if_split)
    then show ?thesis using s6(2) by blast
  qed
qed

end
