(* ===== verification/Spec2Isabelle.thy ===== *)
theory Spec2Isabelle
  imports Base64 Buffer C_Strings Control_Channel Fragment Hash_Table Inner_Packet Keyed_Store Mbuf Mroute Multi_Route Packet_Id Pool Pool_Persist Reliable Replay_Filter Route_Match Route_Server Schedule Server_Events Server_Run Session_Inv Session_Steps Sessions Timer_Queue Timers Vpn_Prelude
begin

text \<open>
  A verification development for the OpenVPN 2 core of this repository, the C sources under
  \<^verbatim>\<open>src/openvpn/src/main/cpp/openvpn/src/openvpn/\<close> (file names below are relative to it).

  The program. The repository is an Android application around a vendored OpenVPN 2 process (and
  OpenVPN 3, which the application does not need the code below for). In that process the control
  channel carries TLS records over a reliability layer on UDP; the data channel seals each packet of the
  tunnel with a packet id against replays, cuts large packets into fragments, rewrites the MSS of TCP
  handshakes and may translate client addresses; a server gives each client addresses from a pool, finds
  clients by address in hash tables, routes the packets of the tunnel to the client with the longest
  matching prefix, queues packets between clients, and wakes clients up from a schedule of timers.

  Theories, bottom up, with the code each one models.
  \<^item> \<^verbatim>\<open>Vpn_Prelude\<close>: machine types, network byte order, \<^verbatim>\<open>integer.h\<close>, generic lemmas, conventions.
  \<^item> \<^verbatim>\<open>Buffer\<close>: \<^verbatim>\<open>struct buffer\<close> (buffer.h, buffer.c). Every operation keeps \<open>buf_ok\<close>, the window inside
    the memory, and has its effect on the contents \<open>buf_bytes\<close> stated.
  \<^item> \<^verbatim>\<open>C_Strings\<close>: character classes, \<^verbatim>\<open>string_mod\<close>, trimming, \<^verbatim>\<open>buf_parse\<close>, \<^verbatim>\<open>struct buffer_list\<close>.
  \<^item> \<^verbatim>\<open>Base64\<close>: base64.c.
  \<^item> \<^verbatim>\<open>Replay_Filter\<close>: the contract of a check that accepts each key once, as a locale. \<^verbatim>\<open>Packet_Id\<close>
    interprets it for the data channel and \<^verbatim>\<open>Reliable\<close> for the control channel.
  \<^item> \<^verbatim>\<open>Packet_Id\<close>: packet_id.c, packet_id.h, circ_list.h: the replay window and its refinement of a set of
    spent ids, the sender's counter, the wire format, persistence across restarts.
  \<^item> \<^verbatim>\<open>Reliable\<close>: reliable.c, reliable.h, session_id.h: acknowledgement lists, windows, retransmission.
  \<^item> \<^verbatim>\<open>Control_Channel\<close>: the steps of ssl.c that drive two windows, as a transition system over a network
    that loses, repeats and reorders; order, completeness and progress by an invariant of all runs.
  \<^item> \<^verbatim>\<open>Keyed_Store\<close>, \<^verbatim>\<open>Hash_Table\<close>: the contract of a keyed container as a locale; list.c and list.h with
    the Bob Jenkins hash, which refine a map.
  \<^item> \<^verbatim>\<open>Fragment\<close>: fragment.c, fragment.h: cutting and reassembly.
  \<^item> \<^verbatim>\<open>Timers\<close>: otime.h, otime.c, interval.h, interval.c and the wakeups of shaper.c.
  \<^item> \<^verbatim>\<open>Timer_Queue\<close>, \<^verbatim>\<open>Schedule\<close>: the contract of a timer queue as a locale; the treap of schedule.c, whose
    pointer updates refine it.
  \<^item> \<^verbatim>\<open>Inner_Packet\<close>: proto.h, proto.c, mss.c, clinat.c: checksums under the rewrites of packets.
  \<^item> \<^verbatim>\<open>Pool\<close>, \<^verbatim>\<open>Pool_Persist\<close>: pool.c with the status files of status.c.
  \<^item> \<^verbatim>\<open>Mroute\<close>: mroute.h, mroute.c: addresses of clients and networks, the addresses of a packet, masks, the
    prefix lengths in use with the generation of the cached routes.
  \<^item> \<^verbatim>\<open>Multi_Route\<close>: the routing of multi.h and multi.c: learning and looking up virtual addresses, networks of
    clients (iroutes), route quotas, reference counts of client instances, the reaper. \<^verbatim>\<open>Route_Match\<close> proves each of
    its operations against the map from prefixes to clients that it stands for. \<^verbatim>\<open>Route_Server\<close> adds the
    routing of packets of multi_process_incoming_link and multi_process_incoming_tun and the states that are reached
    by any interleaving of clients, packets and reaping.
  \<^item> \<^verbatim>\<open>Mbuf\<close>: mbuf.h, mbuf.c: the queue of packets between clients, which refines a bounded queue.

  State. A struct is a record with the fields the code reads, and an operation returns the new record.
  Memory that is shared through pointers (the schedule) is a store from numbers to records. What the
  code takes from outside (the clock, random numbers, printing of addresses, the system's files, the
  learn-address script) is an argument; laws assumed of it are hypotheses of the theorems. Instances and
  packets that are freed by a reference count live in heaps, and using one after it was freed is \<open>None\<close> too. A failed \<^verbatim>\<open>ASSERT\<close> is \<open>None\<close>, and the
  theorems about runs show that it does not happen.

  Bounds and fuel. Integers that can wrap in the code are words of their width. Other C integers are
  unbounded, and where a bound matters (packet ids before their end, times that fit, array sizes) it is a
  hypothesis or an invariant. The generation of the cached routes has 32 bits: events that change the set of
  prefix lengths are followed up to 2 to the 32 changes (\<open>room_for\<close>), after which an outdated cached route could
  count as current. Hash tables are initialised with up to 2 to the 30 buckets, so that their size, rounded up
  to a power of two, fits an \<^verbatim>\<open>int\<close>. Loops are structural recursion or functions with a proved measure; loops on
  linked entries are \<open>partial_function (option)\<close>, and the refinement theorems show that they end.

  Not modelled. TLS, cryptography and compression libraries and their wrappers (crypto*.c, ssl_openssl.c,
  ssl_mbedtls.c, lzo.c, comp-lz4.c) call code outside the sources above. Sockets, tunnel devices, the
  management interface, plugins, scripts, DNS and platform code (socket.c, tun.c, manage.c, plugin.c,
  dns.c, platform.c, win32.c, dco*.c) are system calls and text formatting around them. Configuration
  parsing (options.c), process set-up (init.c, openvpn.c), the event loops (forward.c, mudp.c, mtcp.c) and
  the key exchange of ssl.c are only modelled where named above. Each component of the manifest says what
  of it is left out.
\<close>

end
